(* ===== verification/Prelude_C.thy ===== *)
theory Prelude_C
  imports Main "HOL-Library.Word" "HOL-Library.Signed_Division" "HOL-Library.Monad_Syntax"
begin

text \<open>
  What the components share: bytes and character constants, C integer conversions at their
  width (the LP64 model: \<open>int\<close> has 32 bits, \<open>long\<close> and \<open>jim_wide\<close> 64), checked reads of a
  NUL-terminated buffer, and the contract of an encoder/decoder pair as a locale.
\<close>

unbundle bit_operations_syntax

named_theorems cmem "facts about reads and writes of C buffers"
named_theorems cint "facts about conversions between C integer types"

section \<open>Bytes and characters\<close>

type_synonym byte = "8 word"
type_synonym u16 = "16 word"
type_synonym u32 = "32 word"
type_synonym u64 = "64 word"

text \<open>The character constants of the sources, as bytes (ASCII).\<close>

abbreviation (input) c_nul :: byte where "c_nul \<equiv> 0"
abbreviation (input) c_bell :: byte where "c_bell \<equiv> 0x07"
abbreviation (input) c_bs :: byte where "c_bs \<equiv> 0x08"
abbreviation (input) c_tab :: byte where "c_tab \<equiv> 0x09"
abbreviation (input) c_nl :: byte where "c_nl \<equiv> 0x0a"
abbreviation (input) c_vt :: byte where "c_vt \<equiv> 0x0b"
abbreviation (input) c_ff :: byte where "c_ff \<equiv> 0x0c"
abbreviation (input) c_cr :: byte where "c_cr \<equiv> 0x0d"
abbreviation (input) c_sp :: byte where "c_sp \<equiv> 0x20"
abbreviation (input) c_dquote :: byte where "c_dquote \<equiv> 0x22"
abbreviation (input) c_hash :: byte where "c_hash \<equiv> 0x23"
abbreviation (input) c_dollar :: byte where "c_dollar \<equiv> 0x24"
abbreviation (input) c_percent :: byte where "c_percent \<equiv> 0x25"
abbreviation (input) c_amp :: byte where "c_amp \<equiv> 0x26"
abbreviation (input) c_lparen :: byte where "c_lparen \<equiv> 0x28"
abbreviation (input) c_rparen :: byte where "c_rparen \<equiv> 0x29"
abbreviation (input) c_star :: byte where "c_star \<equiv> 0x2a"
abbreviation (input) c_plus :: byte where "c_plus \<equiv> 0x2b"
abbreviation (input) c_comma :: byte where "c_comma \<equiv> 0x2c"
abbreviation (input) c_minus :: byte where "c_minus \<equiv> 0x2d"
abbreviation (input) c_dot :: byte where "c_dot \<equiv> 0x2e"
abbreviation (input) c_slash :: byte where "c_slash \<equiv> 0x2f"
abbreviation (input) c_0 :: byte where "c_0 \<equiv> 0x30"
abbreviation (input) c_7 :: byte where "c_7 \<equiv> 0x37"
abbreviation (input) c_9 :: byte where "c_9 \<equiv> 0x39"
abbreviation (input) c_colon :: byte where "c_colon \<equiv> 0x3a"
abbreviation (input) c_semi :: byte where "c_semi \<equiv> 0x3b"
abbreviation (input) c_lt :: byte where "c_lt \<equiv> 0x3c"
abbreviation (input) c_equal :: byte where "c_equal \<equiv> 0x3d"
abbreviation (input) c_gt :: byte where "c_gt \<equiv> 0x3e"
abbreviation (input) c_qmark :: byte where "c_qmark \<equiv> 0x3f"
abbreviation (input) c_at :: byte where "c_at \<equiv> 0x40"
abbreviation (input) c_A :: byte where "c_A \<equiv> 0x41"
abbreviation (input) c_F :: byte where "c_F \<equiv> 0x46"
abbreviation (input) c_Z :: byte where "c_Z \<equiv> 0x5a"
abbreviation (input) c_lbrack :: byte where "c_lbrack \<equiv> 0x5b"
abbreviation (input) c_bslash :: byte where "c_bslash \<equiv> 0x5c"
abbreviation (input) c_rbrack :: byte where "c_rbrack \<equiv> 0x5d"
abbreviation (input) c_caret :: byte where "c_caret \<equiv> 0x5e"
abbreviation (input) c_uscore :: byte where "c_uscore \<equiv> 0x5f"
abbreviation (input) c_a :: byte where "c_a \<equiv> 0x61"
abbreviation (input) c_b :: byte where "c_b \<equiv> 0x62"
abbreviation (input) c_f :: byte where "c_f \<equiv> 0x66"
abbreviation (input) c_g :: byte where "c_g \<equiv> 0x67"
abbreviation (input) c_l :: byte where "c_l \<equiv> 0x6c"
abbreviation (input) c_m :: byte where "c_m \<equiv> 0x6d"
abbreviation (input) c_n :: byte where "c_n \<equiv> 0x6e"
abbreviation (input) c_o :: byte where "c_o \<equiv> 0x6f"
abbreviation (input) c_p :: byte where "c_p \<equiv> 0x70"
abbreviation (input) c_q :: byte where "c_q \<equiv> 0x71"
abbreviation (input) c_r :: byte where "c_r \<equiv> 0x72"
abbreviation (input) c_s :: byte where "c_s \<equiv> 0x73"
abbreviation (input) c_t :: byte where "c_t \<equiv> 0x74"
abbreviation (input) c_u :: byte where "c_u \<equiv> 0x75"
abbreviation (input) c_v :: byte where "c_v \<equiv> 0x76"
abbreviation (input) c_x :: byte where "c_x \<equiv> 0x78"
abbreviation (input) c_z :: byte where "c_z \<equiv> 0x7a"
abbreviation (input) c_lbrace :: byte where "c_lbrace \<equiv> 0x7b"
abbreviation (input) c_rbrace :: byte where "c_rbrace \<equiv> 0x7d"
abbreviation (input) c_tilde :: byte where "c_tilde \<equiv> 0x7e"

text \<open>\<open>isspace\<close> and \<open>isalnum\<close> of the C locale.\<close>

definition isspace :: "byte \<Rightarrow> bool" where
  "isspace c \<longleftrightarrow> c = c_sp \<or> c_tab \<le> c \<and> c \<le> c_cr"

definition isalnum :: "byte \<Rightarrow> bool" where
  "isalnum c \<longleftrightarrow> c_0 \<le> c \<and> c \<le> c_9 \<or> c_A \<le> c \<and> c \<le> c_Z \<or> c_a \<le> c \<and> c \<le> c_z"

definition bytes_of :: "string \<Rightarrow> byte list" where
  "bytes_of s = map of_char s"

lemma bytes_of_simps [simp]:
  "bytes_of [] = []" "bytes_of (c # s) = of_char c # bytes_of s"
  by (simp_all add: bytes_of_def)

text \<open>Two bytes are equal when their eight bits are.\<close>

lemma byte_eqI:
  fixes a b :: byte
  assumes "bit a 0 = bit b 0" "bit a 1 = bit b 1" "bit a 2 = bit b 2" "bit a 3 = bit b 3"
    "bit a 4 = bit b 4" "bit a 5 = bit b 5" "bit a 6 = bit b 6" "bit a 7 = bit b 7"
  shows "a = b"
proof (rule bit_word_eqI)
  fix n
  assume "n < LENGTH(8)"
  then have "n \<in> set [0..<8]" by simp
  also have "[0..<8] = [0, 1, 2, 3, 4, 5, 6, 7]" by (simp add: upt_rec)
  finally show "bit a n = bit b n" using assms by auto
qed

lemma byte_bit_high [simp]: "8 \<le> n \<Longrightarrow> \<not> bit (c :: byte) n"
  using bit_imp_le_length [of c n] by auto

text \<open>The same for the wider words.\<close>

lemma u16_eqI:
  fixes a b :: u16
  assumes "bit a 0 = bit b 0" "bit a 1 = bit b 1" "bit a 2 = bit b 2" "bit a 3 = bit b 3"
    "bit a 4 = bit b 4" "bit a 5 = bit b 5" "bit a 6 = bit b 6" "bit a 7 = bit b 7"
    "bit a 8 = bit b 8" "bit a 9 = bit b 9" "bit a 10 = bit b 10" "bit a 11 = bit b 11"
    "bit a 12 = bit b 12" "bit a 13 = bit b 13" "bit a 14 = bit b 14" "bit a 15 = bit b 15"
  shows "a = b"
proof (rule bit_word_eqI)
  fix n
  assume "n < LENGTH(16)"
  then have "n \<in> set [0..<16]" by simp
  also have "[0..<16] = [0, 1, 2, 3, 4, 5, 6, 7, 8, 9, 10, 11, 12, 13, 14, 15]"
    by (simp add: upt_rec)
  finally show "bit a n = bit b n" using assms by auto
qed

lemma u16_bit_high [simp]: "16 \<le> n \<Longrightarrow> \<not> bit (c :: u16) n"
  using bit_imp_le_length [of c n] by auto

lemma u32_eqI:
  fixes a b :: u32
  assumes "bit a 0 = bit b 0" "bit a 1 = bit b 1" "bit a 2 = bit b 2" "bit a 3 = bit b 3"
    "bit a 4 = bit b 4" "bit a 5 = bit b 5" "bit a 6 = bit b 6" "bit a 7 = bit b 7"
    "bit a 8 = bit b 8" "bit a 9 = bit b 9" "bit a 10 = bit b 10" "bit a 11 = bit b 11"
    "bit a 12 = bit b 12" "bit a 13 = bit b 13" "bit a 14 = bit b 14" "bit a 15 = bit b 15"
    "bit a 16 = bit b 16" "bit a 17 = bit b 17" "bit a 18 = bit b 18" "bit a 19 = bit b 19"
    "bit a 20 = bit b 20" "bit a 21 = bit b 21" "bit a 22 = bit b 22" "bit a 23 = bit b 23"
    "bit a 24 = bit b 24" "bit a 25 = bit b 25" "bit a 26 = bit b 26" "bit a 27 = bit b 27"
    "bit a 28 = bit b 28" "bit a 29 = bit b 29" "bit a 30 = bit b 30" "bit a 31 = bit b 31"
  shows "a = b"
proof (rule bit_word_eqI)
  fix n
  assume "n < LENGTH(32)"
  then have "n \<in> set [0..<32]" by simp
  also have "[0..<32] = [0, 1, 2, 3, 4, 5, 6, 7, 8, 9, 10, 11, 12, 13, 14, 15, 16, 17, 18, 19, 20, 21, 22, 23, 24, 25, 26, 27, 28, 29, 30, 31]"
    by (simp add: upt_rec)
  finally show "bit a n = bit b n" using assms by auto
qed

lemma u32_bit_high [simp]: "32 \<le> n \<Longrightarrow> \<not> bit (c :: u32) n"
  using bit_imp_le_length [of c n] by auto

section \<open>C integers\<close>

text \<open>Storing a value into a signed C object of 32 or 64 bits keeps its low bits.\<close>

definition to_int32 :: "int \<Rightarrow> int" where
  "to_int32 x = signed_take_bit 31 x"

definition to_int64 :: "int \<Rightarrow> int" where
  "to_int64 x = signed_take_bit 63 x"

lemma to_int32_id [cint]: "- (2 ^ 31) \<le> x \<Longrightarrow> x < 2 ^ 31 \<Longrightarrow> to_int32 x = x"
  unfolding to_int32_def by (rule signed_take_bit_int_eq_self) simp_all

lemma to_int64_id [cint]: "- (2 ^ 63) \<le> x \<Longrightarrow> x < 2 ^ 63 \<Longrightarrow> to_int64 x = x"
  unfolding to_int64_def by (rule signed_take_bit_int_eq_self) simp_all

text \<open>
  The result of an operation on integers of 32 or 64 bits with a sign: \<open>None\<close> when it does not fit, as
  the overflow of such an integer is undefined.
\<close>

definition c_int :: "int \<Rightarrow> int option" where
  "c_int x = (if to_int32 x = x then Some x else None)"

definition c_wide :: "int \<Rightarrow> int option" where
  "c_wide x = (if to_int64 x = x then Some x else None)"

lemma to_int32_range: "- (2 ^ 31) \<le> to_int32 x" "to_int32 x < 2 ^ 31"
  unfolding to_int32_def using signed_take_bit_int_greater_eq_minus_exp [of 31 x] signed_take_bit_int_less_exp [of 31 x] by simp_all

lemma to_int64_range: "- (2 ^ 63) \<le> to_int64 x" "to_int64 x < 2 ^ 63"
  unfolding to_int64_def using signed_take_bit_int_greater_eq_minus_exp [of 63 x] signed_take_bit_int_less_exp [of 63 x] by simp_all

lemma c_int_eq [cint]: "c_int x = (if - (2 ^ 31) \<le> x \<and> x < 2 ^ 31 then Some x else None)"
  using to_int32_id [of x] to_int32_range [of x] by (auto simp: c_int_def)

lemma c_wide_eq [cint]: "c_wide x = (if - (2 ^ 63) \<le> x \<and> x < 2 ^ 63 then Some x else None)"
  using to_int64_id [of x] to_int64_range [of x] by (auto simp: c_wide_def)

lemma c_int_SomeD: "c_int x = Some y \<Longrightarrow> y = x \<and> - (2 ^ 31) \<le> x \<and> x < 2 ^ 31"
  by (simp add: c_int_eq split: if_splits)

lemma c_wide_SomeD: "c_wide x = Some y \<Longrightarrow> y = x \<and> - (2 ^ 63) \<le> x \<and> x < 2 ^ 63"
  by (simp add: c_wide_eq split: if_splits)

lemma sdiv_nonneg [cint]: "0 \<le> a \<Longrightarrow> 0 < b \<Longrightarrow> (a::int) sdiv b = a div b"
  by (simp add: signed_divide_int_def sgn_if)

lemma smod_nonneg [cint]: "0 \<le> a \<Longrightarrow> 0 < b \<Longrightarrow> (a::int) smod b = a mod b"
  by (cases "a = 0") (simp_all add: signed_modulo_int_def sgn_if)

section \<open>NUL-terminated buffers\<close>

text \<open>
  A C string object of \<open>length s\<close> bytes is followed by its terminator: reading index
  \<open>length s\<close> gives 0, reading any further index is a read outside the object (\<open>None\<close>).
\<close>

definition rd :: "byte list \<Rightarrow> nat \<Rightarrow> byte option" where
  "rd s i = (if i < length s then Some (s ! i) else if i = length s then Some 0 else None)"

lemma rd_in [simp, cmem]: "i < length s \<Longrightarrow> rd s i = Some (s ! i)"
  by (simp add: rd_def)

lemma rd_end [simp, cmem]: "rd s (length s) = Some 0"
  by (simp add: rd_def)

lemma rd_le [cmem]: "i \<le> length s \<Longrightarrow> \<exists>c. rd s i = Some c"
  by (simp add: rd_def)

lemma rd_SomeD [cmem]: "rd s i = Some c \<Longrightarrow> i \<le> length s"
  by (simp add: rd_def split: if_splits)

lemma rd_nonzeroD [cmem]: "rd s i = Some c \<Longrightarrow> c \<noteq> 0 \<Longrightarrow> i < length s \<and> s ! i = c"
  by (auto simp add: rd_def split: if_splits)

text \<open>\<open>strlen\<close>: the bytes before the first NUL.\<close>

definition cstr :: "byte list \<Rightarrow> byte list" where
  "cstr s = takeWhile (\<lambda>c. c \<noteq> 0) s"

lemma cstr_id [simp]: "0 \<notin> set s \<Longrightarrow> cstr s = s"
  by (auto simp: cstr_def takeWhile_eq_all_conv)

lemma zero_notin_cstr [simp]: "0 \<notin> set (cstr s)"
  by (auto simp: cstr_def dest: set_takeWhileD)

lemma cstr_append_nul: "0 \<notin> set s \<Longrightarrow> cstr (s @ 0 # r) = s"
  by (induction s) (auto simp: cstr_def)

text \<open>
  Objects that are written as well: reads and writes of a buffer of \<open>length z\<close> bytes, \<open>None\<close>
  outside of it.
\<close>

definition peek :: "'a list \<Rightarrow> nat \<Rightarrow> 'a option" where
  "peek z i = (if i < length z then Some (z ! i) else None)"

definition poke :: "'a list \<Rightarrow> nat \<Rightarrow> 'a \<Rightarrow> 'a list option" where
  "poke z i v = (if i < length z then Some (z[i := v]) else None)"

definition memcpy :: "byte list \<Rightarrow> byte list \<Rightarrow> nat \<Rightarrow> byte list option" where
  "memcpy d s n = (if n \<le> length d \<and> n \<le> length s then Some (take n s @ drop n d) else None)"

text \<open>The \<open>n\<close> bytes at offset \<open>i\<close>, and storing a block of bytes at offset \<open>o\<close>.\<close>

definition slice :: "'a list \<Rightarrow> nat \<Rightarrow> nat \<Rightarrow> 'a list option" where
  "slice z i n = (if i + n \<le> length z then Some (take n (drop i z)) else None)"

definition blit :: "'a list \<Rightarrow> nat \<Rightarrow> 'a list \<Rightarrow> 'a list option" where
  "blit z i s = (if i + length s \<le> length z then Some (take i z @ s @ drop (i + length s) z) else None)"

lemma slice_in [simp, cmem]: "i + n \<le> length z \<Longrightarrow> slice z i n = Some (take n (drop i z))"
  by (simp add: slice_def)

lemma slice_SomeD [cmem]: "slice z i n = Some s \<Longrightarrow> i + n \<le> length z \<and> s = take n (drop i z) \<and> length s = n"
  by (auto simp: slice_def split: if_splits)

lemma blit_in [simp, cmem]:
  "i + length s \<le> length z \<Longrightarrow> blit z i s = Some (take i z @ s @ drop (i + length s) z)"
  by (simp add: blit_def)

lemma blit_SomeD [cmem]: "blit z i s = Some z' \<Longrightarrow> i + length s \<le> length z \<and> length z' = length z"
  by (auto simp: blit_def split: if_splits)

lemma sint_small: "unat (limit :: u32) < 2 ^ 31 \<Longrightarrow> sint limit = int (unat limit)"
proof -
  assume "unat limit < 2 ^ 31"
  then have "int (unat limit) < int (2 ^ 31)" by (simp only: of_nat_less_iff)
  then have "uint limit < 2 ^ 31" by simp
  moreover have "- (2 ^ 31) \<le> uint limit" by (rule order_trans [of _ 0]) simp_all
  ultimately have "signed_take_bit 31 (uint limit) = uint limit"
    by (intro signed_take_bit_int_eq_self)
  then show "sint limit = int (unat limit)" by (simp add: sint_uint)
qed

lemma peek_in [simp, cmem]: "i < length z \<Longrightarrow> peek z i = Some (z ! i)"
  by (simp add: peek_def)

lemma poke_in [simp, cmem]: "i < length z \<Longrightarrow> poke z i v = Some (z[i := v])"
  by (simp add: poke_def)

lemma peek_SomeD [cmem]: "peek z i = Some c \<Longrightarrow> i < length z \<and> z ! i = c"
  by (auto simp: peek_def split: if_splits)

lemma poke_SomeD [cmem]: "poke z i v = Some z' \<Longrightarrow> i < length z \<and> z' = z[i := v]"
  by (auto simp: poke_def split: if_splits)

lemma poke_length [cmem]: "poke z i v = Some z' \<Longrightarrow> length z' = length z"
  by (auto dest: poke_SomeD)

lemma take_Suc_update [cmem]: "j < length z \<Longrightarrow> take (Suc j) (z[j := v]) = take j z @ [v]"
  by (simp add: take_Suc_conv_app_nth)

lemma take_butlast: "take (Suc (length s)) z = s @ [x] \<Longrightarrow> take (length s) z = s"
  by (drule arg_cong [where f = "take (length s)"]) (simp add: min_def)

lemma drop_ConsD [cmem]: "drop i z = x # r \<Longrightarrow> i < length z \<and> z ! i = x \<and> drop (Suc i) z = r"
proof -
  assume a: "drop i z = x # r"
  then have l: "i < length z" by (metis drop_all linorder_not_le list.distinct(1))
  with a Cons_nth_drop_Suc [OF l] show ?thesis by simp
qed

text \<open>A counting loop whose body may fail.\<close>

fun fold_opt :: "('a \<Rightarrow> 's \<Rightarrow> 's option) \<Rightarrow> 'a list \<Rightarrow> 's \<Rightarrow> 's option" where
  "fold_opt f [] s = Some s"
| "fold_opt f (x # xs) s = f x s \<bind> fold_opt f xs"

lemma fold_opt_append: "fold_opt f (xs @ ys) s = fold_opt f xs s \<bind> fold_opt f ys"
  by (induction xs arbitrary: s) (auto split: bind_split)

lemma fold_opt_upt:
  assumes "P 0 s" "\<And>i s. i < n \<Longrightarrow> P i s \<Longrightarrow> \<exists>s'. f i s = Some s' \<and> P (Suc i) s'"
  shows "\<exists>s'. fold_opt f [0..<n] s = Some s' \<and> P n s'"
  using assms(2)
proof (induction n)
  case 0
  then show ?case using assms(1) by simp
next
  case (Suc n)
  then obtain s1 where s1: "fold_opt f [0..<n] s = Some s1" "P n s1" by (metis less_SucI)
  obtain s2 where "f n s1 = Some s2" "P (Suc n) s2" using Suc.prems [of n s1] s1(2) by auto
  with s1(1) show ?case by (simp add: fold_opt_append)
qed

text \<open>
  The bytes an argument pair (pointer, length) stands for: a negative length asks for
  \<open>strlen\<close>; \<open>None\<close> when the object is shorter than the length given.
\<close>

definition bytes_at :: "byte list \<Rightarrow> int \<Rightarrow> byte list option" where
  "bytes_at z n = (if n < 0 then Some (cstr z)
     else if nat n \<le> length z then Some (take (nat n) z) else None)"

lemma bytes_at_all [simp]: "bytes_at z (int (length z)) = Some z"
  by (simp add: bytes_at_def)

lemma bytes_at_str: "n < 0 \<Longrightarrow> bytes_at z n = Some (cstr z)"
  by (simp add: bytes_at_def)

text \<open>The result codes of the Jim interpreter the models use.\<close>

datatype jim_code = JIM_OK | JIM_ERR

section \<open>The contract of an encoder and its decoder\<close>

text \<open>
  Several components come as an encoder and the decoder that undoes it (base 16, base 64,
  the header escapes, Tcl lists, ...). The laws the client of such a pair relies on follow
  from the round trip alone.
\<close>

locale codec =
  fixes enc :: "'a \<Rightarrow> 'b" and dec :: "'b \<Rightarrow> 'a option" and ok :: "'a \<Rightarrow> bool"
  assumes dec_enc: "ok x \<Longrightarrow> dec (enc x) = Some x"
begin

lemma enc_inj: "ok x \<Longrightarrow> ok y \<Longrightarrow> enc x = enc y \<Longrightarrow> x = y"
  by (metis dec_enc option.inject)

lemma enc_inj_on: "inj_on enc {x. ok x}"
  by (rule inj_onI) (auto dest: enc_inj)

lemma enc_eq_iff: "ok x \<Longrightarrow> ok y \<Longrightarrow> enc x = enc y \<longleftrightarrow> x = y"
  by (auto dest: enc_inj)

lemma dec_surj: "ok x \<Longrightarrow> \<exists>z. dec z = Some x"
  by (auto intro: dec_enc)

end

end
