(* ===== verification/Jim_Pack.thy ===== *)
theory Jim_Pack
  imports Prelude_C
begin

text \<open>
  \<open>src/test2/jim-pack.c\<close>: the \<open>pack\<close> and \<open>unpack\<close> commands of the Jim interpreter, which write
  and read integers of any width at any bit of a byte string. A \<open>jim_wide\<close> is a 64-bit word. The
  objects and variables of the interpreter enter as the values the commands get from them. \<open>None\<close> is an access outside of
  a string or an overflow of an \<open>int\<close> or a \<open>jim_wide\<close>.
\<close>

type_synonym jim_wide = u64

section \<open>Bits\<close>

definition JimTestBitBigEndian :: "byte list \<Rightarrow> nat \<Rightarrow> bool option" where
  "JimTestBitBigEndian bitvec b = do {
     c \<leftarrow> peek bitvec (b div 8);
     Some (c AND push_bit (7 - b mod 8) 1 \<noteq> 0)
   }"

definition JimTestBitLittleEndian :: "byte list \<Rightarrow> nat \<Rightarrow> bool option" where
  "JimTestBitLittleEndian bitvec b = do {
     c \<leftarrow> peek bitvec (b div 8);
     Some (c AND push_bit (b mod 8) 1 \<noteq> 0)
   }"

definition JimSetBitBigEndian :: "byte list \<Rightarrow> nat \<Rightarrow> bool \<Rightarrow> byte list option" where
  "JimSetBitBigEndian bitvec b b1 = do {
     c \<leftarrow> peek bitvec (b div 8);
     poke bitvec (b div 8) (if b1 then c OR push_bit (7 - b mod 8) 1 else c AND NOT (push_bit (7 - b mod 8) 1))
   }"

definition JimSetBitLittleEndian :: "byte list \<Rightarrow> nat \<Rightarrow> bool \<Rightarrow> byte list option" where
  "JimSetBitLittleEndian bitvec b b1 = do {
     c \<leftarrow> peek bitvec (b div 8);
     poke bitvec (b div 8) (if b1 then c OR push_bit (b mod 8) 1 else c AND NOT (push_bit (b mod 8) 1))
   }"

definition JimSignExtend :: "jim_wide \<Rightarrow> nat \<Rightarrow> jim_wide" where
  "JimSignExtend n width =
     (if width = 64 then n
      else if n AND push_bit (width - 1) 1 \<noteq> 0 then n - push_bit width 1 else n)"

section \<open>Integers\<close>

definition JimBitIntBigEndian :: "byte list \<Rightarrow> nat \<Rightarrow> nat \<Rightarrow> jim_wide option" where
  "JimBitIntBigEndian bitvec pos width =
     (if pos mod 8 = 0 \<and> width mod 8 = 0
      then fold_opt (\<lambda>i result. do {
             c \<leftarrow> peek bitvec ((pos + 8 * i) div 8);
             Some (push_bit 8 result + ucast c)
           }) [0..<width div 8] 0
      else fold_opt (\<lambda>i result. do {
             t \<leftarrow> JimTestBitBigEndian bitvec (pos + width - i - 1);
             Some (if t then result OR push_bit i 1 else result)
           }) [0..<width] 0)"

definition JimBitIntLittleEndian :: "byte list \<Rightarrow> nat \<Rightarrow> nat \<Rightarrow> jim_wide option" where
  "JimBitIntLittleEndian bitvec pos width =
     (if pos mod 8 = 0 \<and> width mod 8 = 0
      then fold_opt (\<lambda>i result. do {
             c \<leftarrow> peek bitvec ((pos + 8 * i) div 8);
             Some (result + push_bit (8 * i) (ucast c))
           }) [0..<width div 8] 0
      else fold_opt (\<lambda>i result. do {
             t \<leftarrow> JimTestBitLittleEndian bitvec (pos + i);
             Some (if t then result OR push_bit i 1 else result)
           }) [0..<width] 0)"

definition JimSetBitsIntBigEndian :: "byte list \<Rightarrow> jim_wide \<Rightarrow> nat \<Rightarrow> nat \<Rightarrow> byte list option" where
  "JimSetBitsIntBigEndian bitvec v pos width =
     (if pos mod 8 = 0 \<and> width = 8 then poke bitvec (pos div 8) (ucast v)
      else fold_opt (\<lambda>i bitvec. JimSetBitBigEndian bitvec (pos + width - i - 1) (v AND push_bit i 1 \<noteq> 0))
        [0..<width] bitvec)"

definition JimSetBitsIntLittleEndian :: "byte list \<Rightarrow> jim_wide \<Rightarrow> nat \<Rightarrow> nat \<Rightarrow> byte list option" where
  "JimSetBitsIntLittleEndian bitvec v pos width =
     (if pos mod 8 = 0 \<and> width = 8 then poke bitvec (pos div 8) (ucast v)
      else fold_opt (\<lambda>i bitvec. JimSetBitLittleEndian bitvec (pos + i) (v AND push_bit i 1 \<noteq> 0))
        [0..<width] bitvec)"

section \<open>The commands\<close>

datatype pack_error = WrongNumArgs | BadOption | BadInteger | NotOnByteBoundary | TooWide
  | BadBitwidth | BadBitoffset | CannotSetVariable

datatype unpack_option = OPT_INTBE | OPT_INTLE | OPT_UINTBE | OPT_UINTLE | OPT_USTR

datatype pack_option = OPT_LE | OPT_BE | OPT_STR

datatype unpack_result = No_result | String_result "byte list" | Int_result jim_wide

text \<open>
  The arguments are what \<open>Jim_GetEnum\<close>, \<open>Jim_GetWide\<close> and \<open>Jim_GetString\<close> make of the words
  of the command, \<open>None\<close> where they fail. The outer \<open>None\<close> is an access outside of the string or
  the overflow of an integer: the length in bits is an \<open>int\<close>, the positions are of type \<open>jim_wide\<close> and converted to \<open>int\<close>
  for the bits. \<open>width > sizeof(jim_wide) * 8\<close> compares as unsigned: a negative width is too wide.
\<close>

definition clip_width :: "int \<Rightarrow> int \<Rightarrow> int \<Rightarrow> int option" where
  "clip_width bits pos width = do {
     end_pos \<leftarrow> c_wide (pos + width);
     Some (if end_pos > bits then bits - pos else width)
   }"

definition Jim_UnpackCmd :: "nat \<Rightarrow> byte list \<Rightarrow> unpack_option option \<Rightarrow> int option \<Rightarrow> int option \<Rightarrow>
    (pack_error + unpack_result) option" where
  "Jim_UnpackCmd argc str opt_arg pos_arg width_arg =
     (if argc \<noteq> 5 then Some (Inl WrongNumArgs)
      else case opt_arg of None \<Rightarrow> Some (Inl BadOption) | Some opt \<Rightarrow>
      case pos_arg of None \<Rightarrow> Some (Inl BadInteger) | Some pos \<Rightarrow>
      case width_arg of None \<Rightarrow> Some (Inl BadInteger) | Some width \<Rightarrow>
      if opt = OPT_USTR then
        if width smod 8 \<noteq> 0 \<or> pos smod 8 \<noteq> 0 then Some (Inl NotOnByteBoundary)
        else if pos \<ge> 0 \<and> width > 0 then do {
          bits \<leftarrow> c_int (int (length str) * 8);
          if pos < bits then do {
            width \<leftarrow> clip_width bits pos width;
            s \<leftarrow> slice str (nat pos div 8) (nat width div 8);
            Some (Inr (String_result s))
          } else Some (Inr No_result)
        }
        else Some (Inr No_result)
      else if width < 0 \<or> width > 64 then Some (Inl TooWide)
      else if pos \<ge> 0 \<and> width > 0 then do {
        bits \<leftarrow> c_int (int (length str) * 8);
        if pos < bits then do {
          width \<leftarrow> clip_width bits pos width;
          result \<leftarrow> (if opt = OPT_INTBE \<or> opt = OPT_UINTBE
            then JimBitIntBigEndian str (nat (to_int32 pos)) (nat (to_int32 width))
            else JimBitIntLittleEndian str (nat (to_int32 pos)) (nat (to_int32 width)));
          Some (Inr (Int_result (if opt = OPT_INTBE \<or> opt = OPT_INTLE
            then JimSignExtend result (nat (to_int32 width)) else result)))
        } else Some (Inr (Int_result 0))
      }
      else Some (Inr (Int_result 0)))"

text \<open>The loop that appends zero bytes until the field fits; \<open>bits\<close> is the \<open>int\<close> it counts in.\<close>

function pack_extend :: "byte list \<Rightarrow> int \<Rightarrow> int \<Rightarrow> byte list option" where
  "pack_extend s bits n = (if bits < n then do {
       bits' \<leftarrow> c_int (bits + 8);
       pack_extend (s @ [0]) bits' n
     }
     else Some s)"
  by pat_completeness auto
termination
  by (relation "measure (\<lambda>(s, bits, n). nat (n - bits))") (auto dest: c_int_SomeD)

declare pack_extend.simps [simp del]

record pack_state =
  pack_result :: "int option"
  pack_var :: "byte list option"

text \<open>
  \<open>var\<close> is the value of the variable, \<open>None\<close> if there is none; \<open>shared\<close> says whether its object
  is shared; \<open>set_ok\<close> whether \<open>Jim_SetVariable\<close> succeeds; \<open>str\<close> is the string of the value and
  \<open>value_arg\<close> its integer. The result of the command is set before the variable is.
\<close>

definition Jim_PackCmd :: "nat \<Rightarrow> byte list option \<Rightarrow> bool \<Rightarrow> bool \<Rightarrow> byte list \<Rightarrow> jim_wide option \<Rightarrow>
    pack_option option \<Rightarrow> int option \<Rightarrow> int option \<Rightarrow> (pack_error option \<times> pack_state) option" where
  "Jim_PackCmd argc var shared set_ok str value_arg opt_arg width_arg pos_arg =
     (let st = \<lparr>pack_result = None, pack_var = var\<rparr> in
      if argc \<noteq> 5 \<and> argc \<noteq> 6 then Some (Some WrongNumArgs, st)
      else case opt_arg of None \<Rightarrow> Some (Some BadOption, st) | Some opt \<Rightarrow>
      if opt \<noteq> OPT_STR \<and> value_arg = None then Some (Some BadInteger, st)
      else case width_arg of None \<Rightarrow> Some (Some BadInteger, st) | Some width \<Rightarrow>
      if width \<le> 0 \<or> (opt = OPT_STR \<and> width smod 8 \<noteq> 0) \<or> (opt \<noteq> OPT_STR \<and> width > 64)
      then Some (Some BadBitwidth, st)
      else case (if argc = 6 then pos_arg else Some 0) of None \<Rightarrow> Some (Some BadInteger, st) | Some pos \<Rightarrow>
      if argc = 6 \<and> (pos < 0 \<or> (opt = OPT_STR \<and> pos smod 8 \<noteq> 0)) then Some (Some BadBitoffset, st)
      else let
        freeobj = (var = None \<or> shared);
        s = (case var of None \<Rightarrow> [] | Some s \<Rightarrow> s)
      in do {
        bits \<leftarrow> c_int (int (length s) * 8);
        end_pos \<leftarrow> c_wide (pos + width);
        s \<leftarrow> pack_extend s bits end_pos;
        s \<leftarrow> (case opt of
            OPT_BE \<Rightarrow> JimSetBitsIntBigEndian s (the value_arg) (nat (to_int32 pos)) (nat (to_int32 width))
          | OPT_LE \<Rightarrow> JimSetBitsIntLittleEndian s (the value_arg) (nat (to_int32 pos)) (nat (to_int32 width))
          | OPT_STR \<Rightarrow> blit s (nat pos div 8) (take (nat width div 8) str));
        let st = \<lparr>pack_result = Some end_pos, pack_var = Some s\<rparr>;
        Some (if \<not> set_ok \<and> freeobj then (Some CannotSetVariable, st\<lparr>pack_var := var\<rparr>) else (None, st))
      })"

section \<open>Bit streams\<close>

text \<open>Bit \<open>b\<close> of a byte string in the two orders.\<close>

definition be_bit :: "byte list \<Rightarrow> nat \<Rightarrow> bool" where
  "be_bit v b = bit (v ! (b div 8)) (7 - b mod 8)"

definition le_bit :: "byte list \<Rightarrow> nat \<Rightarrow> bool" where
  "le_bit v b = bit (v ! (b div 8)) (b mod 8)"

lemma test_bits:
  assumes "b < 8 * length v"
  shows "JimTestBitBigEndian v b = Some (be_bit v b)" "JimTestBitLittleEndian v b = Some (le_bit v b)"
  using less_mult_imp_div_less [of b "length v" 8] assms
  unfolding JimTestBitBigEndian_def JimTestBitLittleEndian_def be_bit_def le_bit_def
    bit_iff_and_push_bit_not_eq_0 by (simp_all del: push_bit_of_1 add: mult.commute)

lemma byte_set_bit:
  fixes c :: byte
  assumes "k < 8"
  shows "bit (if t then c OR push_bit k 1 else c AND NOT (push_bit k 1)) n = (if n = k then t else bit c n)"
  using assms by (auto simp: bit_simps dest: bit_imp_le_length)

lemma set_bit_be:
  assumes "b < 8 * length v"
  shows "\<exists>v'. JimSetBitBigEndian v b t = Some v' \<and> length v' = length v \<and>
    (\<forall>k < 8 * length v. be_bit v' k = (if k = b then t else be_bit v k))"
proof -
  have d: "b div 8 < length v" using assms by (simp add: less_mult_imp_div_less mult.commute)
  define v' where "v' = v[b div 8 := if t then v ! (b div 8) OR push_bit (7 - b mod 8) 1
      else v ! (b div 8) AND NOT (push_bit (7 - b mod 8) 1)]"
  have "be_bit v' k = (if k = b then t else be_bit v k)" if "k < 8 * length v" for k
  proof (cases "k div 8 = b div 8")
    case True
    have "7 - k mod 8 = 7 - b mod 8 \<longleftrightarrow> k mod 8 = b mod 8" by (auto simp: eq_diff_iff dest: sym)
    also have "\<dots> \<longleftrightarrow> k = b" using True by (metis div_mult_mod_eq)
    finally have "7 - k mod 8 = 7 - b mod 8 \<longleftrightarrow> k = b" .
    then show ?thesis
      using byte_set_bit [of "7 - b mod 8" t "v ! (b div 8)" "7 - k mod 8"] True d by (simp add: be_bit_def v'_def)
  next
    case False
    then show ?thesis by (auto simp: be_bit_def v'_def)
  qed
  then show ?thesis using d by (intro exI [of _ v']) (simp add: JimSetBitBigEndian_def v'_def)
qed

lemma set_bit_le:
  assumes "b < 8 * length v"
  shows "\<exists>v'. JimSetBitLittleEndian v b t = Some v' \<and> length v' = length v \<and>
    (\<forall>k < 8 * length v. le_bit v' k = (if k = b then t else le_bit v k))"
proof -
  have d: "b div 8 < length v" using assms by (simp add: less_mult_imp_div_less mult.commute)
  define v' where "v' = v[b div 8 := if t then v ! (b div 8) OR push_bit (b mod 8) 1
      else v ! (b div 8) AND NOT (push_bit (b mod 8) 1)]"
  have "le_bit v' k = (if k = b then t else le_bit v k)" if "k < 8 * length v" for k
  proof (cases "k div 8 = b div 8")
    case True
    then have "k mod 8 = b mod 8 \<longleftrightarrow> k = b" by (metis div_mult_mod_eq)
    then show ?thesis
      using byte_set_bit [of "b mod 8" t "v ! (b div 8)" "k mod 8"] True d by (simp add: le_bit_def v'_def)
  next
    case False
    then show ?thesis by (auto simp: le_bit_def v'_def)
  qed
  then show ?thesis using d by (intro exI [of _ v']) (simp add: JimSetBitLittleEndian_def v'_def)
qed

text \<open>What the integer routines rely on, in either order.\<close>

locale bit_stream =
  fixes test :: "byte list \<Rightarrow> nat \<Rightarrow> bool option"
    and put :: "byte list \<Rightarrow> nat \<Rightarrow> bool \<Rightarrow> byte list option"
    and at :: "byte list \<Rightarrow> nat \<Rightarrow> bool"
  assumes test_at: "b < 8 * length v \<Longrightarrow> test v b = Some (at v b)"
    and put_at: "b < 8 * length v \<Longrightarrow> \<exists>v'. put v b t = Some v' \<and> length v' = length v \<and>
      (\<forall>k < 8 * length v. at v' k = (if k = b then t else at v k))"
begin

lemma put_loop:
  assumes "inj_on f {..<n}" "\<forall>i < n. f i < 8 * length v"
  shows "\<exists>v'. fold_opt (\<lambda>i v. put v (f i) (g i)) [0..<n] v = Some v' \<and> length v' = length v \<and>
    (\<forall>i < n. at v' (f i) = g i) \<and> (\<forall>k < 8 * length v. k \<notin> f ` {..<n} \<longrightarrow> at v' k = at v k)"
proof -
  let ?P = "\<lambda>m v'. length v' = length v \<and> (\<forall>i < m. at v' (f i) = g i) \<and>
    (\<forall>k < 8 * length v. k \<notin> f ` {..<m} \<longrightarrow> at v' k = at v k)"
  show ?thesis
  proof (rule fold_opt_upt [where P = ?P])
    fix i s
    assume i: "i < n" and P: "?P i s"
    have l: "f i < 8 * length s" using assms(2) i P by simp
    obtain s' where s': "put s (f i) (g i) = Some s'" "length s' = length s"
      "\<forall>k < 8 * length s. at s' k = (if k = f i then g i else at s k)"
      using put_at [OF l, of "g i"] by blast
    have "f j \<noteq> f i" if "j < i" for j using assms(1) that i by (auto simp: inj_on_def)
    then have "?P (Suc i) s'"
      using s' P assms(2) i by (auto simp: less_Suc_eq)
    with s'(1) show "\<exists>s'. put s (f i) (g i) = Some s' \<and> ?P (Suc i) s'" by blast
  qed simp
qed

lemma test_loop:
  assumes "n \<le> 64" "\<forall>i < n. f i < 8 * length v"
  shows "\<exists>r :: u64. fold_opt (\<lambda>i r. do { t \<leftarrow> test v (f i); Some (if t then r OR push_bit i 1 else r) }) [0..<n] 0
    = Some r \<and> (\<forall>i. bit r i \<longleftrightarrow> i < n \<and> at v (f i))"
proof (rule fold_opt_upt [where P = "\<lambda>m r. \<forall>i. bit r i \<longleftrightarrow> i < m \<and> at v (f i)"])
  fix i and r :: u64
  assume i: "i < n" and r: "\<forall>j. bit r j \<longleftrightarrow> j < i \<and> at v (f j)"
  have one: "bit (push_bit i 1 :: u64) j \<longleftrightarrow> j = i" for j
    using i assms(1) by (auto simp: bit_push_bit_iff bit_1_iff simp del: push_bit_of_1)
  have "\<forall>j. bit (if at v (f i) then r OR push_bit i 1 else r) j \<longleftrightarrow> j < Suc i \<and> at v (f j)"
    using r by (auto simp: bit_or_iff one less_Suc_eq simp del: push_bit_of_1)
  then show "\<exists>s'. (do { t \<leftarrow> test v (f i); Some (if t then r OR push_bit i 1 else r) }) = Some s' \<and>
      (\<forall>j. bit s' j \<longleftrightarrow> j < Suc i \<and> at v (f j))"
    using test_at assms(2) i by simp
qed simp

text \<open>Reading back what was written to the same bits, in the same order.\<close>

lemma test_put_loop:
  assumes "n \<le> 64" "inj_on f {..<n}" "\<forall>i < n. f i < 8 * length v"
  shows "\<exists>v' r. fold_opt (\<lambda>i v. put v (f i) (bit x i)) [0..<n] v = Some v' \<and>
    fold_opt (\<lambda>i r. do { t \<leftarrow> test v' (f i); Some (if t then r OR push_bit i 1 else r) }) [0..<n] 0 = Some r \<and>
    r = take_bit n (x :: u64)"
proof -
  obtain v' where v': "fold_opt (\<lambda>i v. put v (f i) (bit x i)) [0..<n] v = Some v'" "length v' = length v"
    "\<forall>i < n. at v' (f i) = bit x i" using put_loop [OF assms(2,3), of "bit x"] by blast
  obtain r :: u64 where r: "fold_opt (\<lambda>i r. do { t \<leftarrow> test v' (f i); Some (if t then r OR push_bit i 1 else r) }) [0..<n] 0 = Some r"
    "\<forall>i. bit r i \<longleftrightarrow> i < n \<and> at v' (f i)"
    using test_loop [OF assms(1), of f v'] assms(3) v'(2) by auto
  have "r = take_bit n x" using r(2) v'(3) by (intro bit_eqI) (auto simp: bit_take_bit_iff)
  with v'(1) r(1) show ?thesis by blast
qed

end

interpretation be: bit_stream JimTestBitBigEndian JimSetBitBigEndian be_bit
  by unfold_locales (rule test_bits(1), assumption, rule set_bit_be)

interpretation le: bit_stream JimTestBitLittleEndian JimSetBitLittleEndian le_bit
  by unfold_locales (rule test_bits(2), assumption, rule set_bit_le)

section \<open>Writing and reading integers\<close>

lemma aligned_div_mod:
  fixes pos :: nat
  assumes "pos mod 8 = 0" "i < 8"
  shows "(pos + 7 - i) div 8 = pos div 8" "(pos + 7 - i) mod 8 = 7 - i" "(pos + i) div 8 = pos div 8" "(pos + i) mod 8 = i"
proof -
  obtain q where q: "pos = 8 * q" using assms(1) by auto
  have "pos + 7 - i = 8 * q + (7 - i)" "7 - i < 8" using q assms(2) by simp_all
  then show "(pos + 7 - i) div 8 = pos div 8" "(pos + 7 - i) mod 8 = 7 - i"
    using q by (simp_all only: div_mult_self4 mod_mult_self4) simp_all
  show "(pos + i) div 8 = pos div 8" "(pos + i) mod 8 = i"
    using q assms(2) by simp_all
qed

lemma set_int_be:
  assumes "pos + width \<le> 8 * length v"
  shows "\<exists>v'. JimSetBitsIntBigEndian v x pos width = Some v' \<and> length v' = length v \<and>
    (\<forall>i < width. be_bit v' (pos + width - i - 1) = bit x i) \<and>
    (\<forall>k < 8 * length v. k \<notin> {pos..<pos + width} \<longrightarrow> be_bit v' k = be_bit v k)"
proof (cases "pos mod 8 = 0 \<and> width = 8")
  case True
  then have d: "pos div 8 < length v" using assms by auto
  define v' where "v' = v[pos div 8 := ucast x]"
  have "be_bit v' (pos + width - i - 1) = bit x i" if "i < width" for i
    using aligned_div_mod(1,2) [of pos i] True that d
    by (simp add: be_bit_def v'_def bit_ucast_iff ac_simps)
  moreover have "be_bit v' k = be_bit v k" if "k \<notin> {pos..<pos + width}" for k
  proof -
    have "k div 8 \<noteq> pos div 8" using that True by auto
    then show ?thesis by (simp add: be_bit_def v'_def)
  qed
  ultimately show ?thesis using True d by (intro exI [of _ v']) (simp add: JimSetBitsIntBigEndian_def v'_def)
next
  case False
  define f where "f i = pos + width - i - 1" for i
  have "inj_on f {..<width}" "\<forall>i < width. f i < 8 * length v" using assms by (auto simp: inj_on_def f_def)
  from be.put_loop [OF this, of "bit x"]
  obtain v' where v': "fold_opt (\<lambda>i v. JimSetBitBigEndian v (f i) (bit x i)) [0..<width] v = Some v'"
    "length v' = length v" "\<forall>i < width. be_bit v' (f i) = bit x i"
    "\<forall>k < 8 * length v. k \<notin> f ` {..<width} \<longrightarrow> be_bit v' k = be_bit v k" by blast
  have "f ` {..<width} \<subseteq> {pos..<pos + width}" by (auto simp: f_def)
  moreover have "JimSetBitsIntBigEndian v x pos width = Some v'"
    using v'(1) unfolding JimSetBitsIntBigEndian_def if_not_P [OF False] bit_iff_and_push_bit_not_eq_0 f_def .
  ultimately show ?thesis using v'(2-4) unfolding f_def by blast
qed

lemma set_int_le:
  assumes "pos + width \<le> 8 * length v"
  shows "\<exists>v'. JimSetBitsIntLittleEndian v x pos width = Some v' \<and> length v' = length v \<and>
    (\<forall>i < width. le_bit v' (pos + i) = bit x i) \<and>
    (\<forall>k < 8 * length v. k \<notin> {pos..<pos + width} \<longrightarrow> le_bit v' k = le_bit v k)"
proof (cases "pos mod 8 = 0 \<and> width = 8")
  case True
  then have d: "pos div 8 < length v" using assms by auto
  define v' where "v' = v[pos div 8 := ucast x]"
  have "le_bit v' (pos + i) = bit x i" if "i < width" for i
    using aligned_div_mod(3,4) [of pos i] True that d
    by (simp add: le_bit_def v'_def bit_ucast_iff)
  moreover have "le_bit v' k = le_bit v k" if "k \<notin> {pos..<pos + width}" for k
  proof -
    have "k div 8 \<noteq> pos div 8" using that True by auto
    then show ?thesis by (simp add: le_bit_def v'_def)
  qed
  ultimately show ?thesis using True d by (intro exI [of _ v']) (simp add: JimSetBitsIntLittleEndian_def v'_def)
next
  case False
  define f where "f i = pos + i" for i
  have "inj_on f {..<width}" "\<forall>i < width. f i < 8 * length v" using assms by (auto simp: inj_on_def f_def)
  from le.put_loop [OF this, of "bit x"]
  obtain v' where v': "fold_opt (\<lambda>i v. JimSetBitLittleEndian v (f i) (bit x i)) [0..<width] v = Some v'"
    "length v' = length v" "\<forall>i < width. le_bit v' (f i) = bit x i"
    "\<forall>k < 8 * length v. k \<notin> f ` {..<width} \<longrightarrow> le_bit v' k = le_bit v k" by blast
  have "f ` {..<width} \<subseteq> {pos..<pos + width}" by (auto simp: f_def)
  moreover have "JimSetBitsIntLittleEndian v x pos width = Some v'"
    using v'(1) unfolding JimSetBitsIntLittleEndian_def if_not_P [OF False] bit_iff_and_push_bit_not_eq_0 f_def .
  ultimately show ?thesis using v'(2-4) unfolding f_def by blast
qed

lemma get_int_be:
  assumes "width \<le> 64" "pos + width \<le> 8 * length v"
  shows "\<exists>r. JimBitIntBigEndian v pos width = Some r \<and>
    (\<forall>i. bit r i \<longleftrightarrow> i < width \<and> be_bit v (pos + width - i - 1))"
proof (cases "pos mod 8 = 0 \<and> width mod 8 = 0")
  case True
  define n where "n = width div 8"
  have w: "width = 8 * n" using True by (auto simp: n_def)
  let ?f = "\<lambda>i result. do { c \<leftarrow> peek v ((pos + 8 * i) div 8); Some (push_bit 8 result + (ucast c :: u64)) }"
  have "\<exists>r. fold_opt ?f [0..<n] 0 = Some r \<and> (\<forall>i. bit r i \<longleftrightarrow> i < 8 * n \<and> be_bit v (pos + 8 * n - i - 1))"
  proof (rule fold_opt_upt [where P = "\<lambda>m r. \<forall>i. bit r i \<longleftrightarrow> i < 8 * m \<and> be_bit v (pos + 8 * m - i - 1)"])
    fix m and r :: u64
    assume m: "m < n" and r: "\<forall>i. bit r i \<longleftrightarrow> i < 8 * m \<and> be_bit v (pos + 8 * m - i - 1)"
    define c where "c = v ! ((pos + 8 * m) div 8)"
    have d: "(pos + 8 * m) div 8 < length v" using m assms(2) w by auto
    have "push_bit 8 r + ucast c = push_bit 8 r OR ucast c"
      by (rule disjunctive_add_eq_or, rule bit_word_eqI) (auto simp: bit_simps dest: bit_imp_le_length)
    then have "bit (push_bit 8 r + ucast c) i \<longleftrightarrow> i < 8 * Suc m \<and> be_bit v (pos + 8 * Suc m - i - 1)" for i
    proof (cases "i < 8")
      case True
      have "(pos + 8 * m) mod 8 = 0" using \<open>pos mod 8 = 0 \<and> width mod 8 = 0\<close> by presburger
      from aligned_div_mod(1,2) [OF this True]
      have "be_bit v (pos + 8 * m + 7 - i) \<longleftrightarrow> bit c i" using True by (simp add: be_bit_def c_def)
      moreover have "pos + 8 * Suc m - i - 1 = pos + 8 * m + 7 - i" by simp
      ultimately show ?thesis
        using True \<open>push_bit 8 r + ucast c = push_bit 8 r OR ucast c\<close>
        by (simp add: bit_or_iff bit_push_bit_iff bit_ucast_iff)
    next
      case False
      have "pos + 8 * Suc m - i - 1 = pos + 8 * m - (i - 8) - 1" using False by simp
      moreover have "i - 8 < 8 * m \<longleftrightarrow> i < 8 * Suc m" using False by auto
      moreover have "i < 8 * Suc m \<Longrightarrow> i < 64" using m w assms(1) by simp
      ultimately show ?thesis
        using False r \<open>push_bit 8 r + ucast c = push_bit 8 r OR ucast c\<close>
        by (auto simp: bit_or_iff bit_push_bit_iff bit_ucast_iff)
    qed
    moreover have "?f m r = Some (push_bit 8 r + ucast c)" using d unfolding c_def by simp
    ultimately show "\<exists>s'. ?f m r = Some s' \<and> (\<forall>i. bit s' i \<longleftrightarrow> i < 8 * Suc m \<and> be_bit v (pos + 8 * Suc m - i - 1))"
      by blast
  qed simp
  then obtain r where r: "fold_opt ?f [0..<n] 0 = Some r" "\<forall>i. bit r i \<longleftrightarrow> i < 8 * n \<and> be_bit v (pos + 8 * n - i - 1)"
    by blast
  have "JimBitIntBigEndian v pos width = Some r"
    unfolding JimBitIntBigEndian_def if_P [OF True] n_def [symmetric] by (rule r(1))
  with r(2) show ?thesis unfolding w by blast
next
  case False
  have "\<forall>i < width. pos + width - i - 1 < 8 * length v" using assms(2) by auto
  from be.test_loop [OF assms(1) this] show ?thesis unfolding JimBitIntBigEndian_def if_not_P [OF False] .
qed

lemma get_int_le:
  assumes "width \<le> 64" "pos + width \<le> 8 * length v"
  shows "\<exists>r. JimBitIntLittleEndian v pos width = Some r \<and> (\<forall>i. bit r i \<longleftrightarrow> i < width \<and> le_bit v (pos + i))"
proof (cases "pos mod 8 = 0 \<and> width mod 8 = 0")
  case True
  define n where "n = width div 8"
  have w: "width = 8 * n" using True by (auto simp: n_def)
  let ?f = "\<lambda>i result. do { c \<leftarrow> peek v ((pos + 8 * i) div 8); Some (result + push_bit (8 * i) (ucast c :: u64)) }"
  have "\<exists>r. fold_opt ?f [0..<n] 0 = Some r \<and> (\<forall>i. bit r i \<longleftrightarrow> i < 8 * n \<and> le_bit v (pos + i))"
  proof (rule fold_opt_upt [where P = "\<lambda>m r. \<forall>i. bit r i \<longleftrightarrow> i < 8 * m \<and> le_bit v (pos + i)"])
    fix m and r :: u64
    assume m: "m < n" and r: "\<forall>i. bit r i \<longleftrightarrow> i < 8 * m \<and> le_bit v (pos + i)"
    define c where "c = v ! ((pos + 8 * m) div 8)"
    have d: "(pos + 8 * m) div 8 < length v" using m assms(2) w by auto
    have pb: "bit (push_bit (8 * m) (ucast c :: u64)) i \<longleftrightarrow> 8 * m \<le> i \<and> i < 8 * Suc m \<and> bit c (i - 8 * m)" for i
      using m w assms(1) by (auto simp: bit_push_bit_iff bit_ucast_iff dest: bit_imp_le_length)
    have plus: "r + push_bit (8 * m) (ucast c) = r OR push_bit (8 * m) (ucast c)"
      by (rule disjunctive_add_eq_or, rule bit_word_eqI) (auto simp: bit_and_iff pb r)
    have "bit (r + push_bit (8 * m) (ucast c)) i \<longleftrightarrow> i < 8 * Suc m \<and> le_bit v (pos + i)" for i
    proof (cases "8 * m \<le> i \<and> i < 8 * Suc m")
      case True
      have "(pos + 8 * m) mod 8 = 0" using \<open>pos mod 8 = 0 \<and> width mod 8 = 0\<close> by presburger
      moreover have "i - 8 * m < 8" using True by auto
      ultimately have "le_bit v (pos + 8 * m + (i - 8 * m)) \<longleftrightarrow> bit c (i - 8 * m)"
        using aligned_div_mod(3,4) [of "pos + 8 * m" "i - 8 * m"] by (simp add: le_bit_def c_def)
      then show ?thesis using True unfolding plus by (simp add: bit_or_iff pb r)
    next
      case False
      then show ?thesis unfolding plus by (auto simp: bit_or_iff pb r)
    qed
    moreover have "?f m r = Some (r + push_bit (8 * m) (ucast c))" using d unfolding c_def by simp
    ultimately show "\<exists>s'. ?f m r = Some s' \<and> (\<forall>i. bit s' i \<longleftrightarrow> i < 8 * Suc m \<and> le_bit v (pos + i))"
      by blast
  qed simp
  then obtain r where r: "fold_opt ?f [0..<n] 0 = Some r" "\<forall>i. bit r i \<longleftrightarrow> i < 8 * n \<and> le_bit v (pos + i)"
    by blast
  have "JimBitIntLittleEndian v pos width = Some r"
    unfolding JimBitIntLittleEndian_def if_P [OF True] n_def [symmetric] by (rule r(1))
  with r(2) show ?thesis unfolding w by blast
next
  case False
  have "\<forall>i < width. pos + i < 8 * length v" using assms(2) by auto
  from le.test_loop [OF assms(1) this] show ?thesis unfolding JimBitIntLittleEndian_def if_not_P [OF False] .
qed

text \<open>Sign extension of a number that fits its width.\<close>

lemma JimSignExtend_correct:
  assumes "0 < width" "width \<le> 64" "x = take_bit width x"
  shows "JimSignExtend x width = signed_take_bit (width - 1) x"
proof (rule bit_word_eqI)
  fix i
  assume i: "i < LENGTH(64)"
  have top: "bit x i \<Longrightarrow> i < width" for i
    using assms(3) by (metis bit_take_bit_iff)
  have s: "bit (signed_take_bit (width - 1) x) i \<longleftrightarrow> bit x (min (width - 1) i)"
    using i by (simp add: bit_signed_take_bit_iff)
  consider "width = 64" | "width < 64" "bit x (width - 1)" | "width < 64" "\<not> bit x (width - 1)"
    using assms(2) by linarith
  then show "bit (JimSignExtend x width) i \<longleftrightarrow> bit (signed_take_bit (width - 1) x) i"
  proof cases
    case 1
    then have "min (width - 1) i = i" using i by simp
    then show ?thesis using 1 s by (simp add: JimSignExtend_def)
  next
    case 2
    have "x AND NOT (mask width) = 0"
      by (rule bit_word_eqI) (auto simp: bit_simps dest: top)
    then have "x + NOT (mask width) = x OR NOT (mask width)" by (rule disjunctive_add_eq_or)
    moreover have "x - push_bit width 1 = x + NOT (mask width)"
      by (simp add: minus_exp_eq_not_mask [symmetric])
    moreover have "JimSignExtend x width = x - push_bit width 1"
      using 2 unfolding JimSignExtend_def bit_iff_and_push_bit_not_eq_0 by simp
    ultimately have "bit (JimSignExtend x width) i \<longleftrightarrow> bit x i \<or> width \<le> i"
      using i by (simp add: bit_or_iff bit_not_iff bit_mask_iff not_less)
    moreover have "i = width - 1 \<or> i < width - 1 \<or> width \<le> i" by linarith
    ultimately show ?thesis using s 2(2) top [of i] assms(1) by (auto simp: min_def)
  next
    case 3
    then have "JimSignExtend x width = x"
      unfolding JimSignExtend_def bit_iff_and_push_bit_not_eq_0 by simp
    moreover have "i = width - 1 \<or> i < width - 1 \<or> width \<le> i" by linarith
    ultimately show ?thesis using s 3(2) top [of i] assms(1) by (auto simp: min_def)
  qed
qed

section \<open>The string of the variable\<close>

lemma pack_extend_correct:
  assumes "n \<le> 2 ^ 31 - 8" and "int (length s) * 8 < 2 ^ 31"
  shows "\<exists>k. pack_extend s (int (length s) * 8) n = Some (s @ replicate k 0) \<and> n \<le> int (length s + k) * 8 \<and>
    (k = 0 \<or> int (length s + k) * 8 < n + 8)"
  using assms(2)
proof (induction "nat (n - int (length s) * 8)" arbitrary: s rule: less_induct)
  case less
  show ?case
  proof (cases "int (length s) * 8 < n")
    case True
    then have c: "c_int (int (length s) * 8 + 8) = Some (int (length (s @ [0])) * 8)" "int (length (s @ [0])) * 8 < 2 ^ 31"
      using assms(1) by (simp_all add: c_int_eq)
    obtain k where "pack_extend (s @ [0]) (int (length (s @ [0])) * 8) n = Some ((s @ [0]) @ replicate k 0)"
      "n \<le> int (length (s @ [0]) + k) * 8" "k = 0 \<or> int (length (s @ [0]) + k) * 8 < n + 8"
      using less.hyps [OF _ c(2)] True by auto
    moreover have "pack_extend s (int (length s) * 8) n = pack_extend (s @ [0]) (int (length (s @ [0])) * 8) n"
      using True c(1) by (subst pack_extend.simps) simp
    ultimately show ?thesis using True by (intro exI [of _ "Suc k"]) auto
  next
    case False
    then have "pack_extend s (int (length s) * 8) n = Some s" by (subst pack_extend.simps) simp
    then show ?thesis using False by (intro exI [of _ 0]) simp
  qed
qed

text \<open>Behind the last multiple of 8 in an \<open>int\<close> the count of the bits overflows.\<close>

lemma pack_extend_overflow:
  assumes "2 ^ 31 - 8 < n" and "int (length s) * 8 < 2 ^ 31"
  shows "pack_extend s (int (length s) * 8) n = None"
  using assms(2)
proof (induction "nat (n - int (length s) * 8)" arbitrary: s rule: less_induct)
  case less
  have lt: "int (length s) * 8 \<le> 2 ^ 31 - 8" using less.prems by simp
  show ?case
  proof (cases "int (length s) * 8 + 8 < 2 ^ 31")
    case True
    then have c: "c_int (int (length s) * 8 + 8) = Some (int (length (s @ [0])) * 8)" "int (length (s @ [0])) * 8 < 2 ^ 31"
      by (simp_all add: c_int_eq)
    have "pack_extend (s @ [0]) (int (length (s @ [0])) * 8) n = None"
      using less.hyps [OF _ c(2)] lt assms(1) by auto
    moreover have "int (length s) * 8 < n" using lt assms(1) by linarith
    ultimately show ?thesis using c(1) by (subst pack_extend.simps) simp
  next
    case False
    then show ?thesis using lt assms(1) by (subst pack_extend.simps) (simp add: c_int_eq)
  qed
qed

lemma clip_width_fits:
  assumes "0 \<le> pos" and "pos < bits" and "0 < width" and "pos + width < 2 ^ 63"
  shows "\<exists>w. clip_width bits pos width = Some w \<and> 0 < w \<and> w \<le> width \<and> pos + w \<le> bits \<and> (pos + width \<le> bits \<longrightarrow> w = width)"
  using assms by (auto simp: clip_width_def c_wide_eq)

section \<open>Properties\<close>

definition pack_endian :: "pack_option \<Rightarrow> unpack_option \<Rightarrow> unpack_option \<Rightarrow> bool" where
  "pack_endian p s u \<longleftrightarrow> (p, s, u) \<in> {(OPT_BE, OPT_INTBE, OPT_UINTBE), (OPT_LE, OPT_INTLE, OPT_UINTLE)}"

lemma pack_int_read_back:
  assumes "pack_endian p s u" "0 < width" "width \<le> 64" "pos + width \<le> 8 * length v"
  shows "\<exists>v'. (case p of OPT_BE \<Rightarrow> JimSetBitsIntBigEndian v x pos width
      | OPT_LE \<Rightarrow> JimSetBitsIntLittleEndian v x pos width
      | OPT_STR \<Rightarrow> blit v (pos div 8) (take (width div 8) str)) = Some v' \<and> length v' = length v \<and>
    (if u = OPT_UINTBE then JimBitIntBigEndian v' pos width else JimBitIntLittleEndian v' pos width) =
      Some (take_bit width x)"
proof (cases "p = OPT_BE")
  case True
  obtain v' where v': "JimSetBitsIntBigEndian v x pos width = Some v'" "length v' = length v"
    "\<forall>i < width. be_bit v' (pos + width - i - 1) = bit x i" using set_int_be [OF assms(4)] by blast
  obtain r where r: "JimBitIntBigEndian v' pos width = Some r"
    "\<forall>i. bit r i \<longleftrightarrow> i < width \<and> be_bit v' (pos + width - i - 1)"
    using get_int_be [OF assms(3)] assms(4) v'(2) by metis
  have "r = take_bit width x" using r(2) v'(3) by (intro bit_eqI) (auto simp: bit_take_bit_iff)
  then show ?thesis using v' r True assms(1) by (auto simp: pack_endian_def)
next
  case False
  obtain v' where v': "JimSetBitsIntLittleEndian v x pos width = Some v'" "length v' = length v"
    "\<forall>i < width. le_bit v' (pos + i) = bit x i" using set_int_le [OF assms(4)] by blast
  obtain r where r: "JimBitIntLittleEndian v' pos width = Some r"
    "\<forall>i. bit r i \<longleftrightarrow> i < width \<and> le_bit v' (pos + i)"
    using get_int_le [OF assms(3)] assms(4) v'(2) by metis
  have "r = take_bit width x" using r(2) v'(3) by (intro bit_eqI) (auto simp: bit_take_bit_iff)
  then show ?thesis using v' r False assms(1) by (auto simp: pack_endian_def)
qed



lemma unpack_in_bounds:
  assumes "length str < 2 ^ 28" and "pos + width < 2 ^ 63"
  shows "Jim_UnpackCmd argc str u (Some pos) (Some width) \<noteq> None"
proof (cases "0 \<le> pos \<and> 0 < width \<and> pos < int (length str) * 8")
  case True
  define bits where "bits = int (length str) * 8"
  have bits: "c_int bits = Some bits" "pos < bits" "to_int32 pos = pos" "bits < 2 ^ 31"
    using assms(1) True by (simp_all add: bits_def c_int_eq to_int32_id)
  obtain w where w: "clip_width bits pos width = Some w" "0 < w" "w \<le> width" "pos + w \<le> bits"
    using clip_width_fits [of pos bits width] True bits(2) assms(2) by blast
  then have w2: "nat pos + nat w \<le> 8 * length str" using True by (simp add: bits_def)
  have i32: "to_int32 w = w" using w True bits(4) by (simp add: to_int32_id)
  have "nat pos div 8 + nat w div 8 \<le> length str" using w2 by linarith
  moreover have "JimBitIntBigEndian str (nat pos) (nat w) \<noteq> None"
    "JimBitIntLittleEndian str (nat pos) (nat w) \<noteq> None" if "width \<le> 64"
  proof -
    have n: "nat w \<le> 64" using that w(3) by (simp add: nat_le_iff)
    show "JimBitIntBigEndian str (nat pos) (nat w) \<noteq> None" "JimBitIntLittleEndian str (nat pos) (nat w) \<noteq> None"
      using get_int_be [OF n w2] get_int_le [OF n w2] by auto
  qed
  ultimately show ?thesis
    using True w(1) bits(1-3) i32 unfolding Jim_UnpackCmd_def bits_def [symmetric]
    by (cases u) (auto split: if_splits bind_splits)
next
  case False
  have "c_int (int (length str) * 8) = Some (int (length str) * 8)" using assms(1) by (simp add: c_int_eq)
  with False show ?thesis by (cases u) (auto simp: Jim_UnpackCmd_def)
qed

lemma pack_in_bounds:
  assumes "case var of None \<Rightarrow> True | Some v \<Rightarrow> length v < 2 ^ 28" and "pos' + width' \<le> 2 ^ 31 - 8" and "argc' = 5 \<longrightarrow> pos' = 0"
  shows "Jim_PackCmd argc' var shared set_ok val x p (Some width') (Some pos') \<noteq> None"
proof (cases "\<exists>o1. p = Some o1 \<and> 0 < width' \<and> (argc' = 5 \<or> argc' = 6) \<and> 0 \<le> pos'")
  case True
  then obtain o1 where a: "p = Some o1" "0 < width'" "argc' = 5 \<or> argc' = 6" "0 \<le> pos'" by blast
  then have pos: "(if argc' = 6 then Some pos' else Some 0) = Some pos'" using assms(3) by auto
  define z where "z = (case var of None \<Rightarrow> [] | Some s \<Rightarrow> s)"
  have z: "int (length z) * 8 < 2 ^ 31" using assms(1) by (auto simp: z_def split: option.splits)
  obtain k where k: "pack_extend z (int (length z) * 8) (pos' + width') = Some (z @ replicate k 0)"
    "pos' + width' \<le> int (length z + k) * 8"
    using pack_extend_correct [OF assms(2) z] by blast
  define e where "e = z @ replicate k 0"
  have c: "c_int (int (length z) * 8) = Some (int (length z) * 8)" "c_wide (pos' + width') = Some (pos' + width')"
    "to_int32 pos' = pos'" "to_int32 width' = width'"
    using z assms(2) a by (simp_all add: c_int_eq c_wide_eq to_int32_id)
  have len: "nat pos' + nat width' \<le> 8 * length e" using k(2) a unfolding e_def by auto
  then have "nat pos' div 8 + length (take (nat width' div 8) val) \<le> length e" by simp
  then obtain vs where vs: "blit e (nat pos' div 8) (take (nat width' div 8) val) = Some vs" by simp
  obtain vb vl where "JimSetBitsIntBigEndian e (the x) (nat pos') (nat width') = Some vb"
    "JimSetBitsIntLittleEndian e (the x) (nat pos') (nat width') = Some vl"
    using set_int_be [OF len, of "the x"] set_int_le [OF len, of "the x"] by blast
  with vs k(1) show ?thesis
    unfolding Jim_PackCmd_def a(1) pos option.case Let_def z_def [symmetric] e_def [symmetric]
    by (cases o1) (auto simp: c)
next
  case False
  then show ?thesis using assms(3) by (cases p) (auto simp: Jim_PackCmd_def Let_def not_less)
qed

lemma unpack_refuses:
  "u \<noteq> Some OPT_USTR \<and> (width < 0 \<or> 64 < width) \<Longrightarrow>
    \<exists>e. Jim_UnpackCmd argc str u (Some pos) (Some width) = Some (Inl e)"
  by (auto simp: Jim_UnpackCmd_def split: option.splits)



section \<open>Overflows\<close>

text \<open>
  The end of a string field close to \<open>2 ^ 63\<close> overflows, so that a wrapped sum passes the tests: \<open>unpack\<close> does not clip the
  field, \<open>pack\<close> does not extend the string.
\<close>

lemma unpack_end_overflow: "Jim_UnpackCmd 5 [1, 2] (Some OPT_USTR) (Some 8) (Some (2 ^ 63 - 8)) = None"
  by (simp add: Jim_UnpackCmd_def clip_width_def c_int_eq c_wide_eq smod_nonneg)

lemma pack_end_overflow: "Jim_PackCmd 6 None False True [1] None (Some OPT_STR) (Some 8) (Some (2 ^ 63 - 8)) = None"
  by (simp add: Jim_PackCmd_def c_int_eq c_wide_eq smod_nonneg)

text \<open>A field that ends behind bit \<open>2 ^ 31 - 8\<close> overflows the count of the bits in the loop that extends the string.\<close>

lemma pack_count_overflow:
  assumes "2 ^ 31 - 8 < pos + 8" and "pos smod 8 = 0" and "0 \<le> pos"
  shows "Jim_PackCmd 6 None False True [1] None (Some OPT_STR) (Some 8) (Some pos) = None"
  using pack_extend_overflow [of "pos + 8" "[]"] assms by (simp add: Jim_PackCmd_def c_int_eq c_wide_eq smod_nonneg)

end
