(* ===== verification/Jim_Hash.thy ===== *)
theory Jim_Hash
  imports Prelude_C "HOL-Library.Multiset"
begin

text \<open>
  The hash tables of the Jim interpreter (\<open>src/test2/jim.c\<close>, structures and macros of
  \<open>src/test2/jim.h\<close>): chained buckets, a power of two of them, addressed by the low bits of a
  32-bit hash. A bucket is the list of the entries on its chain, a table not allocated yet the
  empty list. The functions a table type supplies are the fields of \<open>hash_type\<close>, where \<open>None\<close>
  stands for a null pointer. Memory is assumed to be allocated; the entries handed to the
  destructors are returned. \<open>None\<close> as a result is an access outside of the bucket array.
\<close>

section \<open>Hash functions\<close>

definition Jim_IntHashFunction :: "u32 \<Rightarrow> u32" where
  "Jim_IntHashFunction key = (let
     key = key + NOT (push_bit 15 key);
     key = key XOR drop_bit 10 key;
     key = key + push_bit 3 key;
     key = key XOR drop_bit 6 key;
     key = key + NOT (push_bit 11 key)
   in key XOR drop_bit 16 key)"

definition Jim_GenHashFunction :: "byte list \<Rightarrow> u32" where
  "Jim_GenHashFunction buf = foldl (\<lambda>h c. h + (push_bit 3 h + ucast c)) 0 buf"

section \<open>Types, entries and tables\<close>

record ('k, 'v) hash_type =
  hashFunction :: "'k \<Rightarrow> u32"
  keyDup :: "('k \<Rightarrow> 'k) option"
  valDup :: "('v \<Rightarrow> 'v) option"
  keyCompare :: "('k \<Rightarrow> 'k \<Rightarrow> bool) option"

type_synonym ('k, 'v) hash_entry = "'k \<times> 'v"

record ('k, 'v) hash_table =
  buckets :: "('k, 'v) hash_entry list list"
  htype :: "('k, 'v) hash_type"
  hsize :: u32
  sizemask :: u32
  hused :: u32
  collisions :: u32

abbreviation (input) JIM_HT_INITIAL_SIZE :: u32 where "JIM_HT_INITIAL_SIZE \<equiv> 16"

definition Jim_HashKey :: "('k, 'v) hash_type \<Rightarrow> 'k \<Rightarrow> u32" where
  "Jim_HashKey T key = hashFunction T key"

definition Jim_CompareHashKeys :: "('k, 'v) hash_type \<Rightarrow> 'k \<Rightarrow> 'k \<Rightarrow> bool" where
  "Jim_CompareHashKeys T key1 key2 = (case keyCompare T of Some f \<Rightarrow> f key1 key2 | None \<Rightarrow> key1 = key2)"

definition Jim_SetHashKey :: "('k, 'v) hash_type \<Rightarrow> 'k \<Rightarrow> 'k" where
  "Jim_SetHashKey T key = (case keyDup T of Some f \<Rightarrow> f key | None \<Rightarrow> key)"

definition Jim_SetHashVal :: "('k, 'v) hash_type \<Rightarrow> 'v \<Rightarrow> 'v" where
  "Jim_SetHashVal T val = (case valDup T of Some f \<Rightarrow> f val | None \<Rightarrow> val)"

definition JimResetHashTable :: "('k, 'v) hash_table \<Rightarrow> ('k, 'v) hash_table" where
  "JimResetHashTable ht = ht\<lparr>buckets := [], hsize := 0, sizemask := 0, hused := 0, collisions := 0\<rparr>"

definition Jim_InitHashTable :: "('k, 'v) hash_type \<Rightarrow> ('k, 'v) hash_table" where
  "Jim_InitHashTable T =
     JimResetHashTable \<lparr>buckets = [], htype = T, hsize = 0, sizemask = 0, hused = 0, collisions = 0\<rparr>"

section \<open>Growing\<close>

partial_function (option) next_power_loop :: "u32 \<Rightarrow> u32 \<Rightarrow> u32 option" where
  "next_power_loop i sz = (if i \<ge> sz then Some i else next_power_loop (i * 2) sz)"

declare next_power_loop.simps [code]

definition JimHashTableNextPower :: "u32 \<Rightarrow> u32 option" where
  "JimHashTableNextPower sz = (if sz \<ge> 2147483648 then Some 2147483648
     else next_power_loop JIM_HT_INITIAL_SIZE sz)"

text \<open>The entries of a chain move, in their order, to the heads of their new chains.\<close>

fun rehash_chain :: "('k, 'v) hash_type \<Rightarrow> u32 \<Rightarrow> ('k, 'v) hash_entry list \<Rightarrow>
    ('k, 'v) hash_entry list list \<Rightarrow> u32 \<Rightarrow> (('k, 'v) hash_entry list list \<times> u32) option" where
  "rehash_chain T mask1 [] t n = Some (t, n)"
| "rehash_chain T mask1 (he # chain) t n = do {
     let h = unat (Jim_HashKey T (fst he) AND mask1);
     c \<leftarrow> peek t h;
     t \<leftarrow> poke t h (he # c);
     rehash_chain T mask1 chain t (n - 1)
   }"

function rehash_table :: "('k, 'v) hash_type \<Rightarrow> u32 \<Rightarrow> ('k, 'v) hash_entry list list \<Rightarrow> nat \<Rightarrow>
    ('k, 'v) hash_entry list list \<Rightarrow> u32 \<Rightarrow> ('k, 'v) hash_entry list list option" where
  "rehash_table T mask1 old i t n = (if n > 0 then do {
       chain \<leftarrow> peek old i;
       (t, n) \<leftarrow> rehash_chain T mask1 chain t n;
       rehash_table T mask1 old (i + 1) t n
     } else Some t)"
  by pat_completeness auto
termination
  by (relation "measure (\<lambda>(T, mask1, old, i, t, n). length old - i)") (auto dest: peek_SomeD)

declare rehash_table.simps [simp del]

definition Jim_ExpandHashTable :: "('k, 'v) hash_table \<Rightarrow> u32 \<Rightarrow> (('k, 'v) hash_table \<times> jim_code) option" where
  "Jim_ExpandHashTable ht sz = do {
     realsize \<leftarrow> JimHashTableNextPower sz;
     if hused ht \<ge> sz then Some (ht, JIM_ERR)
     else do {
       t \<leftarrow> rehash_table (htype ht) (realsize - 1) (buckets ht) 0 (replicate (unat realsize) []) (hused ht);
       Some ((Jim_InitHashTable (htype ht))\<lparr>buckets := t, hsize := realsize, sizemask := realsize - 1,
         hused := hused ht\<rparr>, JIM_OK)
     }
   }"

definition Jim_ResizeHashTable :: "('k, 'v) hash_table \<Rightarrow> (('k, 'v) hash_table \<times> jim_code) option" where
  "Jim_ResizeHashTable ht = Jim_ExpandHashTable ht
     (if sint (hused ht) < sint JIM_HT_INITIAL_SIZE then JIM_HT_INITIAL_SIZE else hused ht)"

definition JimExpandHashTableIfNeeded :: "('k, 'v) hash_table \<Rightarrow> (('k, 'v) hash_table \<times> jim_code) option" where
  "JimExpandHashTableIfNeeded ht =
     (if hsize ht = 0 then Jim_ExpandHashTable ht JIM_HT_INITIAL_SIZE
      else if hsize ht = hused ht then Jim_ExpandHashTable ht (hsize ht * 2)
      else Some (ht, JIM_OK))"

section \<open>Operations\<close>

text \<open>The bucket for the key; no index (-1) when the key is there already.\<close>

definition JimInsertHashEntry :: "('k, 'v) hash_table \<Rightarrow> 'k \<Rightarrow> (('k, 'v) hash_table \<times> nat option) option" where
  "JimInsertHashEntry ht key = do {
     (ht, rc) \<leftarrow> JimExpandHashTableIfNeeded ht;
     if rc = JIM_ERR then Some (ht, None)
     else do {
       let h = unat (Jim_HashKey (htype ht) key AND sizemask ht);
       chain \<leftarrow> peek (buckets ht) h;
       Some (ht, if list_ex (\<lambda>he. Jim_CompareHashKeys (htype ht) key (fst he)) chain then None else Some h)
     }
   }"

definition Jim_AddHashEntry :: "('k, 'v) hash_table \<Rightarrow> 'k \<Rightarrow> 'v \<Rightarrow> (('k, 'v) hash_table \<times> jim_code) option" where
  "Jim_AddHashEntry ht key val = do {
     (ht, idx) \<leftarrow> JimInsertHashEntry ht key;
     case idx of None \<Rightarrow> Some (ht, JIM_ERR)
     | Some h \<Rightarrow> do {
         chain \<leftarrow> peek (buckets ht) h;
         t \<leftarrow> poke (buckets ht) h ((Jim_SetHashKey (htype ht) key, Jim_SetHashVal (htype ht) val) # chain);
         Some (ht\<lparr>buckets := t, hused := hused ht + 1\<rparr>, JIM_OK)
       }
   }"

definition Jim_FindHashEntry :: "('k, 'v) hash_table \<Rightarrow> 'k \<Rightarrow> ('k, 'v) hash_entry option option" where
  "Jim_FindHashEntry ht key = (if hused ht = 0 then Some None
     else do {
       chain \<leftarrow> peek (buckets ht) (unat (Jim_HashKey (htype ht) key AND sizemask ht));
       Some (List.find (\<lambda>he. Jim_CompareHashKeys (htype ht) key (fst he)) chain)
     })"

text \<open>Setting the value of the entry found: the first one on the chain with the key.\<close>

fun set_entry :: "('k, 'v) hash_type \<Rightarrow> 'k \<Rightarrow> 'v \<Rightarrow> ('k, 'v) hash_entry list \<Rightarrow> ('k, 'v) hash_entry list" where
  "set_entry T key val [] = []"
| "set_entry T key val (he # chain) = (if Jim_CompareHashKeys T key (fst he)
     then (fst he, Jim_SetHashVal T val) # chain else he # set_entry T key val chain)"

text \<open>The value replaced is freed; without an entry the code dereferences a null pointer (\<open>None\<close>).\<close>

definition Jim_ReplaceHashEntry :: "('k, 'v) hash_table \<Rightarrow> 'k \<Rightarrow> 'v \<Rightarrow>
    (('k, 'v) hash_table \<times> jim_code \<times> 'v list) option" where
  "Jim_ReplaceHashEntry ht key val = do {
     (ht, rc) \<leftarrow> Jim_AddHashEntry ht key val;
     if rc = JIM_OK then Some (ht, JIM_OK, [])
     else do {
       r \<leftarrow> Jim_FindHashEntry ht key;
       entry \<leftarrow> r;
       let h = unat (Jim_HashKey (htype ht) key AND sizemask ht);
       chain \<leftarrow> peek (buckets ht) h;
       t \<leftarrow> poke (buckets ht) h (set_entry (htype ht) key val chain);
       Some (ht\<lparr>buckets := t\<rparr>, JIM_OK, [snd entry])
     }
   }"

text \<open>Unlinking the first entry with the key.\<close>

fun unlink :: "('k, 'v) hash_type \<Rightarrow> 'k \<Rightarrow> ('k, 'v) hash_entry list \<Rightarrow>
    ('k, 'v) hash_entry list \<times> ('k, 'v) hash_entry option" where
  "unlink T key [] = ([], None)"
| "unlink T key (he # chain) = (if Jim_CompareHashKeys T key (fst he) then (chain, Some he)
     else let (c, r) = unlink T key chain in (he # c, r))"

definition Jim_DeleteHashEntry :: "('k, 'v) hash_table \<Rightarrow> 'k \<Rightarrow>
    (('k, 'v) hash_table \<times> jim_code \<times> ('k, 'v) hash_entry list) option" where
  "Jim_DeleteHashEntry ht key = (if hused ht = 0 then Some (ht, JIM_ERR, [])
     else do {
       let h = unat (Jim_HashKey (htype ht) key AND sizemask ht);
       chain \<leftarrow> peek (buckets ht) h;
       let (chain, r) = unlink (htype ht) key chain;
       case r of None \<Rightarrow> Some (ht, JIM_ERR, [])
       | Some he \<Rightarrow> do {
           t \<leftarrow> poke (buckets ht) h chain;
           Some (ht\<lparr>buckets := t, hused := hused ht - 1\<rparr>, JIM_OK, [he])
         }
     })"

function free_loop :: "('k, 'v) hash_entry list list \<Rightarrow> nat \<Rightarrow> u32 \<Rightarrow> ('k, 'v) hash_entry list \<Rightarrow>
    ('k, 'v) hash_entry list option" where
  "free_loop t i n freed = (if n > 0 then do {
       chain \<leftarrow> peek t i;
       free_loop t (i + 1) (n - of_nat (length chain)) (freed @ chain)
     } else Some freed)"
  by pat_completeness auto
termination
  by (relation "measure (\<lambda>(t, i, n, freed). length t - i)") (auto dest: peek_SomeD)

declare free_loop.simps [simp del]

definition Jim_FreeHashTable :: "('k, 'v) hash_table \<Rightarrow>
    (('k, 'v) hash_table \<times> jim_code \<times> ('k, 'v) hash_entry list) option" where
  "Jim_FreeHashTable ht = do {
     freed \<leftarrow> free_loop (buckets ht) 0 (hused ht) [];
     Some (JimResetHashTable ht, JIM_OK, freed)
   }"

section \<open>Iterators\<close>

text \<open>\<open>it_next\<close> is the chain that starts at the entry saved as \<open>nextEntry\<close>.\<close>

record ('k, 'v) hash_iter =
  it_index :: int
  it_entry :: "('k, 'v) hash_entry option"
  it_next :: "('k, 'v) hash_entry list"

definition Jim_GetHashTableIterator :: "('k, 'v) hash_iter" where
  "Jim_GetHashTableIterator = \<lparr>it_index = -1, it_entry = None, it_next = []\<rparr>"

text \<open>Taking the head of a chain as the current entry.\<close>

definition take_entry :: "('k, 'v) hash_iter \<Rightarrow> ('k, 'v) hash_entry list \<Rightarrow> ('k, 'v) hash_iter" where
  "take_entry it chain = (case chain of [] \<Rightarrow> it\<lparr>it_entry := None\<rparr>
     | he # r \<Rightarrow> it\<lparr>it_entry := Some he, it_next := r\<rparr>)"

function next_bucket :: "('k, 'v) hash_table \<Rightarrow> ('k, 'v) hash_iter \<Rightarrow>
    (('k, 'v) hash_iter \<times> ('k, 'v) hash_entry option) option" where
  "next_bucket ht it = (let it = it\<lparr>it_index := it_index it + 1\<rparr> in
     if it_index it \<ge> sint (hsize ht) then Some (it, None)
     else if it_index it < 0 then None
     else do {
       chain \<leftarrow> peek (buckets ht) (nat (it_index it));
       let it = take_entry it chain;
       if it_entry it \<noteq> None then Some (it, it_entry it) else next_bucket ht it
     })"
  by pat_completeness auto
termination
  by (relation "measure (\<lambda>(ht, it). nat (sint (hsize ht) - it_index it))")
    (auto simp: take_entry_def split: list.splits)

declare next_bucket.simps [simp del]

definition Jim_NextHashEntry :: "('k, 'v) hash_table \<Rightarrow> ('k, 'v) hash_iter \<Rightarrow>
    (('k, 'v) hash_iter \<times> ('k, 'v) hash_entry option) option" where
  "Jim_NextHashEntry ht it = (if it_entry it = None then next_bucket ht it
     else let it = take_entry it (it_next it) in
       if it_entry it \<noteq> None then Some (it, it_entry it) else next_bucket ht it)"

section \<open>The types with string keys\<close>

text \<open>The string functions of the table types; a key is a C string with its terminator.\<close>

definition JimStringCopyHTHashFunction :: "byte list \<Rightarrow> u32" where
  "JimStringCopyHTHashFunction key = Jim_GenHashFunction (cstr key)"

definition JimStringCopyHTKeyDup :: "byte list \<Rightarrow> byte list" where
  "JimStringCopyHTKeyDup key = cstr key @ [0]"

definition JimStringKeyValCopyHTValDup :: "byte list \<Rightarrow> byte list" where
  "JimStringKeyValCopyHTValDup val = cstr val @ [0]"

definition JimStringCopyHTKeyCompare :: "byte list \<Rightarrow> byte list \<Rightarrow> bool" where
  "JimStringCopyHTKeyCompare key1 key2 \<longleftrightarrow> cstr key1 = cstr key2"

definition JimSharedStringsHashTableType :: "(byte list, 'v) hash_type" where
  "JimSharedStringsHashTableType = \<lparr>hashFunction = JimStringCopyHTHashFunction, keyDup = None,
     valDup = None, keyCompare = Some JimStringCopyHTKeyCompare\<rparr>"

definition JimStringKeyValCopyHashTableType :: "(byte list, byte list) hash_type" where
  "JimStringKeyValCopyHashTableType = \<lparr>hashFunction = JimStringCopyHTHashFunction,
     keyDup = Some JimStringCopyHTKeyDup, valDup = Some JimStringKeyValCopyHTValDup,
     keyCompare = Some JimStringCopyHTKeyCompare\<rparr>"

definition JimAssocDataHashTableType :: "(byte list, 'v) hash_type" where
  "JimAssocDataHashTableType = \<lparr>hashFunction = JimStringCopyHTHashFunction,
     keyDup = Some JimStringCopyHTKeyDup, valDup = None, keyCompare = Some JimStringCopyHTKeyCompare\<rparr>"

section \<open>The invariant of a table and the map it stands for\<close>

definition entries :: "('k, 'v) hash_table \<Rightarrow> ('k, 'v) hash_entry multiset" where
  "entries ht = mset (concat (buckets ht))"

definition uniq :: "('k, 'v) hash_type \<Rightarrow> ('k, 'v) hash_entry multiset \<Rightarrow> bool" where
  "uniq T M \<longleftrightarrow> (\<forall>a\<in>#M. \<forall>b\<in>#M - {#a#}. \<not> Jim_CompareHashKeys T (fst a) (fst b))"

definition in_place :: "('k, 'v) hash_type \<Rightarrow> u32 \<Rightarrow> ('k, 'v) hash_entry list list \<Rightarrow> bool" where
  "in_place T m t \<longleftrightarrow>
     (\<forall>i < length t. \<forall>he \<in> set (t ! i). unat (Jim_HashKey T (fst he) AND m) = i)"

definition shape :: "u32 \<Rightarrow> u32 \<Rightarrow> 'a list list \<Rightarrow> bool" where
  "shape sz m t \<longleftrightarrow>
     (\<exists>k. 4 \<le> k \<and> k \<le> 31 \<and> sz = 2 ^ k \<and> m = 2 ^ k - 1 \<and> length t = 2 ^ k)"

definition table_ok :: "('k, 'v) hash_table \<Rightarrow> bool" where
  "table_ok ht \<longleftrightarrow> (hsize ht = 0 \<and> buckets ht = [] \<or> shape (hsize ht) (sizemask ht) (buckets ht)) \<and>
     in_place (htype ht) (sizemask ht) (buckets ht) \<and> uniq (htype ht) (entries ht) \<and>
     unat (hused ht) = size (entries ht) \<and> hused ht \<le> hsize ht"

definition table_map :: "('k, 'v) hash_table \<Rightarrow> 'k \<Rightarrow> 'v option" where
  "table_map ht k =
     map_option snd (List.find (\<lambda>he. Jim_CompareHashKeys (htype ht) k (fst he)) (concat (buckets ht)))"

lemma shape_bucket:
  assumes "shape sz m t"
  shows "unat (h AND m) < length t"
proof -
  from assms obtain k where k: "k \<le> 31" "m = 2 ^ k - 1" "length t = 2 ^ k"
    unfolding shape_def by blast
  have "h AND m = take_bit k h"
    unfolding k(2) by (simp add: take_bit_eq_mask mask_eq_decr_exp)
  then show ?thesis
    using k by (simp add: unsigned_take_bit_eq)
qed

lemma shape_update [simp]: "shape sz m (t[i := c]) = shape sz m t"
  by (simp add: shape_def)

lemma concat_take_nth_drop: "i < length t \<Longrightarrow> concat t = concat (take i t) @ t ! i @ concat (drop (Suc i) t)"
  by (metis concat.simps(2) concat_append id_take_nth_drop)

lemma mset_concat_update:
  "i < length t \<Longrightarrow> mset (concat (t[i := c])) + mset (t ! i) = mset (concat t) + mset c"
  by (simp add: upd_conv_take_nth_drop concat_take_nth_drop [of i t])

lemma mset_concat_cons:
  "i < length t \<Longrightarrow> mset (concat (t[i := he # t ! i])) = add_mset he (mset (concat t))"
  using mset_concat_update [of i t "he # t ! i"] by simp

lemma nth_update_if: "j < length t \<Longrightarrow> t[i := c] ! j = (if i = j then c else t ! j)"
  by (cases "i = j") auto

lemma in_place_cons:
  assumes "in_place T m t" and "i = unat (Jim_HashKey T (fst he) AND m)"
  shows "in_place T m (t[i := he # t ! i])"
  using assms unfolding in_place_def by (auto simp: nth_update_if split: if_splits)

lemma in_place_subset:
  assumes "in_place T m t" and "set c \<subseteq> set (t ! i)"
  shows "in_place T m (t[i := c])"
  using assms unfolding in_place_def by (auto simp: nth_update_if split: if_splits)

lemma in_place_empty: "in_place T m (replicate n [])"
  by (simp add: in_place_def)

lemma find_append: "List.find P (xs @ ys) = (case List.find P xs of None \<Rightarrow> List.find P ys | Some x \<Rightarrow> Some x)"
  by (induction xs) auto

lemma find_None_if: "(\<And>x. x \<in> set xs \<Longrightarrow> \<not> P x) \<Longrightarrow> List.find P xs = None"
  by (induction xs) auto

lemma find_concat:
  assumes "i < length t" and "\<And>j x. \<lbrakk>j < length t; j \<noteq> i; x \<in> set (t ! j)\<rbrakk> \<Longrightarrow> \<not> P x"
  shows "List.find P (concat t) = List.find P (t ! i)"
proof -
  have "\<exists>j < length t. j \<noteq> i \<and> x \<in> set (t ! j)" if "x \<in> set (concat (take i t)) \<union> set (concat (drop (Suc i) t))" for x
  proof -
    from that obtain c where c: "c \<in> set (take i t) \<union> set (drop (Suc i) t)" "x \<in> set c"
      by auto
    from c(1) have "\<exists>j < length t. j \<noteq> i \<and> c = t ! j"
    proof
      assume "c \<in> set (take i t)"
      then obtain j where "j < i" "c = t ! j"
        using assms(1) by (auto simp: in_set_conv_nth)
      then show ?thesis using assms(1) by (intro exI [of _ j]) simp
    next
      assume "c \<in> set (drop (Suc i) t)"
      then obtain j where "j < length t - Suc i" "c = t ! (Suc i + j)"
        using assms(1) by (auto simp: in_set_conv_nth)
      then show ?thesis by (intro exI [of _ "Suc i + j"]) simp
    qed
    with c(2) show ?thesis by blast
  qed
  then have "List.find P (concat (take i t)) = None" and "List.find P (concat (drop (Suc i) t)) = None"
    using assms(2) by (blast intro: find_None_if)+
  then show ?thesis
    by (simp add: concat_take_nth_drop [OF assms(1)] find_append split: option.split)
qed

lemma uniq_add:
  assumes "symp (\<lambda>a b. Jim_CompareHashKeys T a b)"
  shows "uniq T (add_mset a M) \<longleftrightarrow> uniq T M \<and> (\<forall>b \<in># M. \<not> Jim_CompareHashKeys T (fst a) (fst b))"
proof -
  have "uniq T (add_mset a M)" if u: "uniq T M" and n: "\<forall>b \<in># M. \<not> Jim_CompareHashKeys T (fst a) (fst b)"
    unfolding uniq_def
  proof (intro ballI)
    fix x y assume x: "x \<in># add_mset a M" and y: "y \<in># add_mset a M - {#x#}"
    show "\<not> Jim_CompareHashKeys T (fst x) (fst y)"
    proof (cases "x = a")
      case True with y n show ?thesis by simp
    next
      case False
      with x have xM: "x \<in># M" by simp
      show ?thesis
      proof (cases "y = a")
        case True with n xM assms show ?thesis by (auto dest: sympD)
      next
        case False
        with y xM \<open>x \<noteq> a\<close> have "y \<in># M - {#x#}" by simp
        with u xM show ?thesis by (auto simp: uniq_def)
      qed
    qed
  qed
  moreover have "uniq T M" if u: "uniq T (add_mset a M)"
    unfolding uniq_def
  proof (intro ballI)
    fix x y assume x: "x \<in># M" and y: "y \<in># M - {#x#}"
    then have "y \<in># add_mset a M - {#x#}"
      by (cases "x = a") (auto dest: in_diffD)
    with u x show "\<not> Jim_CompareHashKeys T (fst x) (fst y)"
      by (auto simp: uniq_def)
  qed
  moreover have "\<not> Jim_CompareHashKeys T (fst a) (fst b)" if "uniq T (add_mset a M)" "b \<in># M" for b
    using that unfolding uniq_def by simp
  ultimately show ?thesis by blast
qed

section \<open>Growing keeps the entries\<close>

lemma unat_two_power: "k < 32 \<Longrightarrow> unat ((2::u32) ^ k) = 2 ^ k"
proof -
  assume k: "k < 32"
  have "unat (of_nat (2 ^ k) :: u32) = 2 ^ k"
    unfolding unat_of_nat len_num1 using k power_strict_increasing [of k 32 "2::nat"] by (intro mod_less) simp
  then show ?thesis by simp
qed

lemma unat_diff_of_nat:
  assumes "unat (n :: u32) = a + b"
  shows "unat (n - of_nat a) = b"
proof -
  have "n = of_nat (a + b)" by (simp flip: assms del: of_nat_add)
  then have "n - of_nat a = of_nat b" by simp
  moreover have "unat n < 2 ^ LENGTH(32)" by (rule unsigned_less)
  then have "b < 2 ^ 32" using assms by simp
  ultimately show ?thesis by (simp add: unat_of_nat)
qed

lemma next_power_loop_power:
  assumes "k \<le> 31" and "sz \<le> 2 ^ 31"
  shows "\<exists>j. k \<le> j \<and> j \<le> 31 \<and> next_power_loop (2 ^ k) sz = Some (2 ^ j) \<and> sz \<le> 2 ^ j \<and>
    (k < j \<longrightarrow> 2 ^ (j - 1) < sz)"
  using assms(1)
proof (induction "31 - k" arbitrary: k)
  case 0
  then have k: "k = 31" by simp
  have "next_power_loop (2 ^ k) sz = Some (2 ^ k)"
    by (subst next_power_loop.simps) (use assms(2) k in simp)
  with k assms(2) show ?case by blast
next
  case (Suc d)
  show ?case
  proof (cases "sz \<le> 2 ^ k")
    case True
    then have "next_power_loop (2 ^ k) sz = Some (2 ^ k)"
      by (simp add: next_power_loop.simps [of "2 ^ k"])
    with True Suc.prems show ?thesis by blast
  next
    case False
    then have "next_power_loop (2 ^ k) sz = next_power_loop (2 ^ Suc k) sz"
      by (simp add: next_power_loop.simps [of "2 ^ k"] mult.commute)
    moreover from Suc have "d = 31 - Suc k" "Suc k \<le> 31" by simp_all
    with Suc.hyps(1) obtain j where j: "Suc k \<le> j" "j \<le> 31" "next_power_loop (2 ^ Suc k) sz = Some (2 ^ j)"
      "sz \<le> 2 ^ j" "Suc k < j \<longrightarrow> 2 ^ (j - 1) < sz" by blast
    moreover have "2 ^ (j - 1) < sz"
    proof (cases "j = Suc k")
      case True with False show ?thesis by simp
    next
      case False with j show ?thesis by simp
    qed
    ultimately show ?thesis by (intro exI [of _ j]) simp
  qed
qed

lemma next_power_spec:
  "\<exists>k. 4 \<le> k \<and> k \<le> 31 \<and> JimHashTableNextPower sz = Some (2 ^ k) \<and> (sz \<le> 2 ^ 31 \<longrightarrow> sz \<le> 2 ^ k) \<and>
     (4 < k \<longrightarrow> 2 ^ (k - 1) < sz)"
proof (cases "sz \<ge> 2147483648")
  case True
  then have "JimHashTableNextPower sz = Some (2 ^ 31)" "(2::u32) ^ 30 < sz"
    by (auto simp: JimHashTableNextPower_def word_less_nat_alt word_le_nat_alt)
  then show ?thesis by (intro exI [of _ 31]) simp
next
  case False
  then have "sz \<le> 2 ^ 31" by simp
  from next_power_loop_power [of 4, OF _ this] obtain j where "4 \<le> j" "j \<le> 31"
    "next_power_loop (2 ^ 4) sz = Some (2 ^ j)" "sz \<le> 2 ^ j" "4 < j \<longrightarrow> 2 ^ (j - 1) < sz" by auto
  with False show ?thesis
    by (intro exI [of _ j]) (simp add: JimHashTableNextPower_def)
qed

lemma next_power_at_power:
  assumes "4 \<le> k" "k \<le> 31"
  shows "JimHashTableNextPower (2 ^ k) = Some (2 ^ k)"
proof -
  obtain j where j: "4 \<le> j" "j \<le> 31" "JimHashTableNextPower (2 ^ k) = Some (2 ^ j)"
    "(2::u32) ^ k \<le> 2 ^ 31 \<longrightarrow> (2::u32) ^ k \<le> 2 ^ j" "4 < j \<longrightarrow> (2::u32) ^ (j - 1) < 2 ^ k"
    using next_power_spec by blast
  have le: "(2::u32) ^ a \<le> 2 ^ b \<longleftrightarrow> a \<le> b" if "a \<le> 31" "b \<le> 31" for a b
    using that by (simp add: word_le_nat_alt unat_two_power)
  have "k \<le> j" using j(4) le [OF assms(2), of 31] le [OF assms(2) j(2)] assms by simp
  moreover have "j \<le> k"
  proof (cases "4 < j")
    case True
    with j(5) have "\<not> (2::u32) ^ k \<le> 2 ^ (j - 1)" by (simp add: not_le)
    then have "\<not> k \<le> j - 1" using le [of k "j - 1"] assms(2) j(2) by simp
    then show ?thesis by simp
  next
    case False with assms show ?thesis by simp
  qed
  ultimately show ?thesis using j(3) by simp
qed

lemma rehash_chain_ok:
  assumes "shape sz m t" and "in_place T m t"
  shows "\<exists>t'. rehash_chain T m chain t n = Some (t', n - of_nat (length chain)) \<and> shape sz m t' \<and>
    in_place T m t' \<and> mset (concat t') = mset (concat t) + mset chain"
  using assms
proof (induction chain arbitrary: t n)
  case (Cons he chain)
  let ?h = "unat (Jim_HashKey T (fst he) AND m)" and ?t = "t[unat (Jim_HashKey T (fst he) AND m) := he # t ! unat (Jim_HashKey T (fst he) AND m)]"
  have h: "?h < length t" using shape_bucket [OF Cons.prems(1)] .
  have "shape sz m ?t" "in_place T m ?t"
    using Cons.prems in_place_cons [OF Cons.prems(2), of ?h he] by simp_all
  from Cons.IH [OF this, of "n - 1"] obtain t' where
    "rehash_chain T m chain ?t (n - 1) = Some (t', n - 1 - of_nat (length chain))" "shape sz m t'"
    "in_place T m t'" "mset (concat t') = mset (concat ?t) + mset chain" by blast
  then show ?case
    using h by (simp add: mset_concat_cons [OF h] Let_def algebra_simps)
qed simp

lemma rehash_table_ok:
  assumes "shape sz m t" and "in_place T m t" and "unat n = length (concat (drop i old))"
  shows "\<exists>t'. rehash_table T m old i t n = Some t' \<and> shape sz m t' \<and> in_place T m t' \<and>
    mset (concat t') = mset (concat t) + mset (concat (drop i old))"
  using assms
proof (induction "length old - i" arbitrary: i t n)
  case 0
  then have "n = 0" by (simp add: unat_eq_0)
  with 0 show ?case
    unfolding rehash_table.simps [of T m old i] by simp
next
  case (Suc d)
  then have i: "i < length old" by simp
  then have dr: "drop i old = old ! i # drop (Suc i) old" by (rule Cons_nth_drop_Suc [symmetric])
  obtain t1 where t1: "rehash_chain T m (old ! i) t n = Some (t1, n - of_nat (length (old ! i)))"
    "shape sz m t1" "in_place T m t1" "mset (concat t1) = mset (concat t) + mset (old ! i)"
    using rehash_chain_ok [OF Suc.prems(1,2)] by blast
  have len: "unat (n - of_nat (length (old ! i))) = length (concat (drop (Suc i) old))"
    using Suc.prems(3) unfolding dr by (intro unat_diff_of_nat) simp
  have "d = length old - Suc i" using Suc.hyps(2) by simp
  from Suc.hyps(1) [OF this t1(2,3) len] obtain t' where t':
    "rehash_table T m old (Suc i) t1 (n - of_nat (length (old ! i))) = Some t'" "shape sz m t'"
    "in_place T m t'" "mset (concat t') = mset (concat t1) + mset (concat (drop (Suc i) old))"
    by blast
  show ?case
  proof (cases "n > 0")
    case True
    then show ?thesis
      unfolding rehash_table.simps [of T m old i] dr using t1 t' i by simp
  next
    case False
    then have "length (concat (drop i old)) = 0" using Suc.prems(3) by (simp add: word_gt_0)
    then show ?thesis
      unfolding rehash_table.simps [of T m old i] using False Suc.prems by simp
  qed
qed

lemma free_loop_all:
  assumes "unat n = length (concat (drop i t))"
  shows "free_loop t i n freed = Some (freed @ concat (drop i t))"
  using assms
proof (induction "length t - i" arbitrary: i n freed)
  case 0
  then have "n = 0" by (simp add: unat_eq_0)
  with 0 show ?case
    unfolding free_loop.simps [of t i] by simp
next
  case (Suc d)
  then have i: "i < length t" by simp
  then have dr: "drop i t = t ! i # drop (Suc i) t" by (rule Cons_nth_drop_Suc [symmetric])
  have "unat (n - of_nat (length (t ! i))) = length (concat (drop (Suc i) t))"
    using Suc.prems unfolding dr by (intro unat_diff_of_nat) simp
  moreover have "d = length t - Suc i" using Suc.hyps(2) by simp
  ultimately have IH: "free_loop t (Suc i) (n - of_nat (length (t ! i))) (freed @ t ! i) =
      Some (freed @ concat (drop i t))"
    using Suc.hyps(1) by (simp add: dr)
  show ?case
  proof (cases "n > 0")
    case True
    then show ?thesis
      unfolding free_loop.simps [of t i n] using IH i by simp
  next
    case False
    then have "length (concat (drop i t)) = 0" using Suc.prems by (simp add: word_gt_0)
    with False show ?thesis
      unfolding free_loop.simps [of t i n] by simp
  qed
qed

section \<open>Invariant preserved by growing\<close>

lemma table_ok_init: "table_ok (Jim_InitHashTable T)"
  by (simp add: table_ok_def Jim_InitHashTable_def JimResetHashTable_def in_place_def uniq_def entries_def)

lemma htype_init [simp]: "htype (Jim_InitHashTable T) = T"
  by (simp add: Jim_InitHashTable_def JimResetHashTable_def)

text \<open>Growing succeeds exactly when the size asked for is more than the entries held.\<close>

lemma expand_ok:
  assumes "table_ok ht" and "hused ht < sz" and "sz \<le> 2 ^ 31"
  shows "\<exists>ht'. Jim_ExpandHashTable ht sz = Some (ht', JIM_OK) \<and> table_ok ht' \<and> entries ht' = entries ht \<and>
    htype ht' = htype ht \<and> hused ht' = hused ht \<and> sz \<le> hsize ht' \<and> buckets ht' \<noteq> []"
proof -
  obtain k where k: "4 \<le> k" "k \<le> 31" "JimHashTableNextPower sz = Some (2 ^ k)" "sz \<le> 2 ^ k"
    using next_power_spec [of sz] assms(3) by blast
  let ?t = "replicate (2 ^ k) [] :: ('a, 'b) hash_entry list list"
  have sh: "shape (2 ^ k) (2 ^ k - 1) ?t" using k by (auto simp: shape_def)
  have "unat (hused ht) = length (concat (drop 0 (buckets ht)))"
    using assms(1) by (simp add: table_ok_def entries_def)
  from rehash_table_ok [OF sh in_place_empty this, of "htype ht"] obtain t' where t':
    "rehash_table (htype ht) (2 ^ k - 1) (buckets ht) 0 ?t (hused ht) = Some t'"
    "shape (2 ^ k) (2 ^ k - 1) t'" "in_place (htype ht) (2 ^ k - 1) t'"
    "mset (concat t') = mset (concat (buckets ht))" by auto
  let ?ht = "(Jim_InitHashTable (htype ht))\<lparr>buckets := t', hsize := 2 ^ k, sizemask := 2 ^ k - 1, hused := hused ht\<rparr>"
  have "Jim_ExpandHashTable ht sz = Some (?ht, JIM_OK)"
    using k t'(1) assms(2) by (simp add: Jim_ExpandHashTable_def unat_two_power)
  moreover have "entries ?ht = entries ht" "htype ?ht = htype ht"
    using t'(4) by (simp_all add: entries_def)
  moreover have "hused ht \<le> 2 ^ k" using assms(2) k(4) by simp
  with t' assms(1) have "table_ok ?ht"
    by (simp add: table_ok_def entries_def)
  moreover have "t' \<noteq> []" using t'(2) by (auto simp: shape_def)
  ultimately show ?thesis using k(4) by auto
qed

lemma expand_if_needed_ok:
  assumes "table_ok ht" and "hused ht < 2 ^ 31"
  shows "\<exists>ht'. JimExpandHashTableIfNeeded ht = Some (ht', JIM_OK) \<and> table_ok ht' \<and> entries ht' = entries ht \<and>
    htype ht' = htype ht \<and> hused ht' = hused ht \<and> hused ht' < hsize ht' \<and> buckets ht' \<noteq> []"
proof (cases "hsize ht = 0")
  case True
  with assms(1) have "hused ht = 0" by (simp add: table_ok_def)
  with True expand_ok [OF assms(1), of 16] show ?thesis
    by (auto simp: JimExpandHashTableIfNeeded_def word_less_nat_alt word_le_nat_alt)
next
  case False
  with assms(1) have sh: "shape (hsize ht) (sizemask ht) (buckets ht)" by (simp add: table_ok_def)
  then obtain k where k: "4 \<le> k" "k \<le> 31" "hsize ht = 2 ^ k" unfolding shape_def by blast
  show ?thesis
  proof (cases "hsize ht = hused ht")
    case True
    with assms(2) k(2,3) have "k < 31"
      by (cases "k = 31") auto
    then have lt: "(2::u32) ^ k < 2 ^ Suc k" "(2::u32) ^ Suc k \<le> 2 ^ 31"
      using unat_two_power [of k] unat_two_power [of "Suc k"] power_increasing [of "Suc k" 31 "2::nat"]
      by (simp_all only: word_less_nat_alt word_le_nat_alt) (simp_all)
    from expand_ok [OF assms(1), of "hsize ht * 2"] lt True False k(3) show ?thesis
      by (auto simp: JimExpandHashTableIfNeeded_def mult.commute)
  next
    case ne: False
    then have "hused ht < hsize ht" using assms(1) by (auto simp: table_ok_def order_less_le)
    moreover have "buckets ht \<noteq> []" using sh by (auto simp: shape_def)
    ultimately show ?thesis using assms(1) False ne by (simp add: JimExpandHashTableIfNeeded_def)
  qed
qed


section \<open>The contract of a table type\<close>

lemma option_eqI:
  assumes "\<And>v. x = Some v \<longleftrightarrow> y = Some v"
  shows "x = y"
proof (cases x)
  case None
  with assms have "y \<noteq> Some v" for v by (metis option.distinct(1))
  with None show ?thesis by (cases y) auto
next
  case (Some a)
  with assms [of a] show ?thesis by simp
qed

lemma unat_inc: "(a :: u32) < b \<Longrightarrow> unat (a + 1) = Suc (unat a)"
proof -
  assume "a < b"
  moreover have "unat b < 2 ^ LENGTH(32)" by (rule unsigned_less)
  ultimately show ?thesis by (simp add: unat_word_ariths word_less_nat_alt)
qed

lemma in_place_keys:
  assumes "in_place T m t" and keys: "fst ` set c \<subseteq> fst ` set (t ! i)"
  shows "in_place T m (t[i := c])"
  unfolding in_place_def
proof (intro allI impI ballI)
  fix j he assume j: "j < length (t[i := c])" and he: "he \<in> set (t[i := c] ! j)"
  show "unat (Jim_HashKey T (fst he) AND m) = j"
  proof (cases "i = j")
    case True
    with he j keys have "fst he \<in> fst ` set (t ! j)" by (auto simp: subset_iff)
    then obtain he' where "he' \<in> set (t ! j)" "fst he = fst he'" by blast
    with assms(1) j show ?thesis unfolding in_place_def by simp
  next
    case False
    with he j assms(1) show ?thesis unfolding in_place_def by simp
  qed
qed

lemma find_SomeD: "List.find P xs = Some x \<Longrightarrow> x \<in> set xs \<and> P x"
  by (induction xs) (auto split: if_splits)

lemma unlink_found:
  assumes "List.find (\<lambda>he. Jim_CompareHashKeys T k (fst he)) chain = Some he"
  shows "\<exists>c. unlink T k chain = (c, Some he) \<and> add_mset he (mset c) = mset chain"
  using assms by (induction chain) (auto split: if_splits)

lemma unlink_not_found:
  assumes "List.find (\<lambda>he. Jim_CompareHashKeys T k (fst he)) chain = None"
  shows "unlink T k chain = (chain, None)"
  using assms by (induction chain) (auto split: if_splits)

lemma set_entry_found:
  assumes "List.find (\<lambda>he. Jim_CompareHashKeys T k (fst he)) chain = Some he"
  shows "add_mset he (mset (set_entry T k v chain)) = add_mset (fst he, Jim_SetHashVal T v) (mset chain)"
  using assms by (induction chain) (auto split: if_splits)

lemma set_entry_keys: "map fst (set_entry T k v chain) = map fst chain"
  by (induction chain) auto


locale hash_keys =
  fixes T :: "('k, 'v) hash_type"
  assumes cmp_sym: "Jim_CompareHashKeys T a b \<Longrightarrow> Jim_CompareHashKeys T b a"
    and cmp_trans: "\<lbrakk>Jim_CompareHashKeys T a b; Jim_CompareHashKeys T b c\<rbrakk> \<Longrightarrow> Jim_CompareHashKeys T a c"
    and cmp_hash: "Jim_CompareHashKeys T a b \<Longrightarrow> Jim_HashKey T a = Jim_HashKey T b"
    and dup_eq: "Jim_CompareHashKeys T (Jim_SetHashKey T k) k"
begin

lemma cmp_symp: "symp (\<lambda>a b. Jim_CompareHashKeys T a b)"
  by (rule sympI) (rule cmp_sym)

lemma cmp_dup: "Jim_CompareHashKeys T k (Jim_SetHashKey T k') = Jim_CompareHashKeys T k k'"
  using cmp_sym cmp_trans dup_eq by blast

text \<open>A lookup in the bucket of the key is a lookup among all the entries.\<close>

lemma find_bucket:
  fixes k
  assumes ok: "table_ok ht" and T: "htype ht = T" and ne: "buckets ht \<noteq> []"
  defines "h \<equiv> unat (Jim_HashKey T k AND sizemask ht)"
  shows "h < length (buckets ht)"
    and "List.find (\<lambda>he. Jim_CompareHashKeys T k (fst he)) (concat (buckets ht)) =
      List.find (\<lambda>he. Jim_CompareHashKeys T k (fst he)) (buckets ht ! h)"
proof -
  have sh: "shape (hsize ht) (sizemask ht) (buckets ht)" using ok ne by (auto simp: table_ok_def)
  show h: "h < length (buckets ht)" unfolding h_def by (rule shape_bucket [OF sh])
  have "in_place T (sizemask ht) (buckets ht)" using ok T by (simp add: table_ok_def)
  then show "List.find (\<lambda>he. Jim_CompareHashKeys T k (fst he)) (concat (buckets ht)) =
      List.find (\<lambda>he. Jim_CompareHashKeys T k (fst he)) (buckets ht ! h)"
    using cmp_hash [of k] unfolding in_place_def h_def by (intro find_concat [OF h [unfolded h_def]]) fastforce
qed

text \<open>Any entry with the key carries the value of the map.\<close>

lemma find_uniq:
  assumes "uniq T (mset es)" and "he \<in> set es" and "Jim_CompareHashKeys T k (fst he)"
  shows "List.find (\<lambda>he. Jim_CompareHashKeys T k (fst he)) es = Some he"
  using assms
proof (induction es)
  case (Cons e es)
  show ?case
  proof (cases "Jim_CompareHashKeys T k (fst e)")
    case True
    have "\<not> Jim_CompareHashKeys T (fst e) (fst he)" if "he \<in> set es"
      using Cons.prems(1) that by (simp add: uniq_add [OF cmp_symp])
    moreover have "Jim_CompareHashKeys T (fst e) (fst he)"
      using True Cons.prems(3) cmp_sym cmp_trans by blast
    ultimately show ?thesis using Cons.prems(2) True by auto
  next
    case False
    with Cons show ?thesis by (auto simp: uniq_add [OF cmp_symp])
  qed
qed simp

lemma map_Some:
  assumes "uniq T (entries ht)" and "htype ht = T"
  shows "table_map ht k = Some v \<longleftrightarrow> (\<exists>k'. (k', v) \<in># entries ht \<and> Jim_CompareHashKeys T k k')"
proof -
  have "\<exists>k'. (k', v) \<in># entries ht \<and> Jim_CompareHashKeys T k k'" if m: "table_map ht k = Some v"
  proof -
    from m assms(2) obtain he where "List.find (\<lambda>he. Jim_CompareHashKeys T k (fst he)) (concat (buckets ht)) = Some he"
      "v = snd he" by (auto simp: table_map_def)
    then show ?thesis
      by (intro exI [of _ "fst he"]) (auto simp: find_Some_iff entries_def in_set_conv_nth simp del: set_concat)
  qed
  moreover have "table_map ht k = Some v" if "(k', v) \<in># entries ht" "Jim_CompareHashKeys T k k'" for k'
    using find_uniq [of "concat (buckets ht)" "(k', v)" k] that assms
    by (simp add: table_map_def entries_def)
  ultimately show ?thesis by blast
qed

lemma map_eqI:
  assumes "uniq T (entries ht)" and "htype ht = T"
    and "\<And>v. f = Some v \<longleftrightarrow> (\<exists>k'. (k', v) \<in># entries ht \<and> Jim_CompareHashKeys T k k')"
  shows "table_map ht k = f"
  by (rule option_eqI) (simp add: map_Some [OF assms(1,2)] assms(3))

lemma map_None:
  assumes "uniq T (entries ht)" and "htype ht = T"
  shows "table_map ht k = None \<longleftrightarrow> (\<forall>he \<in># entries ht. \<not> Jim_CompareHashKeys T k (fst he))"
proof -
  have "table_map ht k = None \<longleftrightarrow> (\<forall>v. table_map ht k \<noteq> Some v)" by auto
  then show ?thesis unfolding map_Some [OF assms] by auto
qed


lemma map_cong:
  assumes "uniq T (entries ht)" "htype ht = T" "entries ht' = entries ht" "htype ht' = T"
  shows "table_map ht' = table_map ht"
  using assms by (intro ext map_eqI) (simp_all add: map_Some)

lemma find_ok:
  assumes "table_ok ht" and "htype ht = T"
  shows "\<exists>r. Jim_FindHashEntry ht k = Some r \<and> map_option snd r = table_map ht k \<and>
    (\<forall>he. r = Some he \<longrightarrow> he \<in># entries ht \<and> Jim_CompareHashKeys T k (fst he))"
proof (cases "hused ht = 0")
  case True
  then have "entries ht = {#}" using assms(1) by (simp add: table_ok_def)
  with True show ?thesis
    using map_None [of ht k] assms by (simp add: Jim_FindHashEntry_def table_ok_def)
next
  case False
  then have ne: "buckets ht \<noteq> []" using assms(1) by (auto simp: table_ok_def shape_def)
  note b = find_bucket [OF assms ne, of k]
  show ?thesis
    using False b assms(2) find_SomeD [of "\<lambda>he. Jim_CompareHashKeys T k (fst he)" "concat (buckets ht)"]
    by (auto simp: Jim_FindHashEntry_def table_map_def entries_def)
qed

text \<open>Putting one more entry on its chain.\<close>

lemma link_ok:
  fixes k v
  assumes ok: "table_ok ht" and T: "htype ht = T" and ne: "buckets ht \<noteq> []"
    and lt: "hused ht < hsize ht" and new: "table_map ht k = None"
  defines "h \<equiv> unat (Jim_HashKey T k AND sizemask ht)"
  defines "ht' \<equiv> ht\<lparr>buckets := (buckets ht)[h := (Jim_SetHashKey T k, v) # buckets ht ! h], hused := hused ht + 1\<rparr>"
  shows "table_ok ht'" and "table_map ht' = (\<lambda>k'. if Jim_CompareHashKeys T k' k then Some v else table_map ht k')"
proof -
  have h: "h < length (buckets ht)" unfolding h_def by (rule find_bucket(1) [OF ok T ne])
  have ent: "entries ht' = add_mset (Jim_SetHashKey T k, v) (entries ht)"
    using h by (simp add: ht'_def entries_def mset_concat_cons)
  have uq: "uniq T (entries ht)" using ok T by (simp add: table_ok_def)
  have no: "\<not> Jim_CompareHashKeys T k (fst he)" if "he \<in># entries ht" for he
    using new that map_None [OF uq T] by blast
  have uq': "uniq T (entries ht')"
    unfolding ent uniq_add [OF cmp_symp] using uq no dup_eq cmp_sym cmp_trans by (metis fst_conv)
  have hd: "h = unat (Jim_HashKey T (fst (Jim_SetHashKey T k, v)) AND sizemask ht)"
    using cmp_hash [OF dup_eq] by (simp add: h_def)
  have "in_place T (sizemask ht) (buckets ht)" using ok T by (simp add: table_ok_def)
  from in_place_cons [OF this hd] have "in_place T (sizemask ht') (buckets ht')"
    by (simp add: ht'_def)
  moreover have "unat (hused ht + 1) = Suc (unat (hused ht))" "hused ht + 1 \<le> hsize ht"
    using lt unat_inc [OF lt] by (simp_all add: word_less_nat_alt word_le_nat_alt)
  ultimately show "table_ok ht'"
    using ok ne uq' T ent unfolding table_ok_def by (simp add: ht'_def)
  have T': "htype ht' = T" using T by (simp add: ht'_def)
  show "table_map ht' = (\<lambda>k'. if Jim_CompareHashKeys T k' k then Some v else table_map ht k')"
  proof (intro ext map_eqI [OF uq' T'])
    fix k' w
    show "((if Jim_CompareHashKeys T k' k then Some v else table_map ht k') = Some w) =
      (\<exists>k''. (k'', w) \<in># entries ht' \<and> Jim_CompareHashKeys T k' k'')"
    proof (cases "Jim_CompareHashKeys T k' k")
      case True
      have "\<not> Jim_CompareHashKeys T k' k''" if "(k'', w) \<in># entries ht" for k''
        using no [OF that] True cmp_sym cmp_trans by (metis fst_conv)
      with True show ?thesis using cmp_dup by (auto simp: ent)
    next
      case False
      then show ?thesis using cmp_dup map_Some [OF uq T] by (auto simp: ent)
    qed
  qed
qed

lemma add_ok:
  assumes "table_ok ht" and "htype ht = T" and "hused ht < 2 ^ 31"
  shows "\<exists>ht'. Jim_AddHashEntry ht k v =
      Some (ht', if table_map ht k = None then JIM_OK else JIM_ERR) \<and>
    table_ok ht' \<and> htype ht' = T \<and> hused ht' = hused ht + (if table_map ht k = None then 1 else 0) \<and>
    table_map ht' = (if table_map ht k = None
      then (\<lambda>k'. if Jim_CompareHashKeys T k' k then Some (Jim_SetHashVal T v) else table_map ht k')
      else table_map ht)"
proof -
  obtain h1 where h1: "JimExpandHashTableIfNeeded ht = Some (h1, JIM_OK)" "table_ok h1"
    "entries h1 = entries ht" "htype h1 = T" "hused h1 = hused ht" "hused h1 < hsize h1" "buckets h1 \<noteq> []"
    using expand_if_needed_ok [OF assms(1,3)] assms(2) by auto
  have uq: "uniq T (entries ht)" using assms by (simp add: table_ok_def)
  have m: "table_map h1 = table_map ht" using map_cong [OF uq assms(2) h1(3,4)] .
  let ?h = "unat (Jim_HashKey T k AND sizemask h1)" and ?P = "\<lambda>he. Jim_CompareHashKeys T k (fst he)"
  note b = find_bucket [OF h1(2,4,7), of k]
  have ex: "list_ex ?P (buckets h1 ! ?h) \<longleftrightarrow> table_map ht k \<noteq> None"
    unfolding m [symmetric] table_map_def h1(4) b(2) by (simp add: list_ex_iff find_None_iff) force
  show ?thesis
  proof (cases "table_map ht k = None")
    case True
    with m have "table_map h1 k = None" by simp
    note l = link_ok [OF h1(2,4,7,6) this, of "Jim_SetHashVal T v"]
    have "Jim_AddHashEntry ht k v = Some (h1\<lparr>buckets := (buckets h1)[?h := (Jim_SetHashKey T k, Jim_SetHashVal T v) # buckets h1 ! ?h],
        hused := hused h1 + 1\<rparr>, JIM_OK)"
      using True ex h1 b(1) by (simp add: Jim_AddHashEntry_def JimInsertHashEntry_def Let_def)
    then show ?thesis
      using True l(1) l(2) [unfolded m] h1(4,5) by simp
  next
    case False
    then have "Jim_AddHashEntry ht k v = Some (h1, JIM_ERR)"
      using ex h1 b(1) by (simp add: Jim_AddHashEntry_def JimInsertHashEntry_def Let_def)
    then show ?thesis using False h1 m by simp
  qed
qed

lemma replace_ok:
  assumes "table_ok ht" and "htype ht = T" and "hused ht < 2 ^ 31"
  shows "\<exists>ht'. Jim_ReplaceHashEntry ht k v =
      Some (ht', JIM_OK, case table_map ht k of None \<Rightarrow> [] | Some w \<Rightarrow> [w]) \<and>
    table_ok ht' \<and> htype ht' = T \<and> hused ht' = hused ht + (if table_map ht k = None then 1 else 0) \<and>
    table_map ht' = (\<lambda>k'. if Jim_CompareHashKeys T k' k then Some (Jim_SetHashVal T v) else table_map ht k')"
proof (cases "table_map ht k")
  case None
  with add_ok [OF assms, of k v] show ?thesis
    by (auto simp: Jim_ReplaceHashEntry_def)
next
  case (Some w)
  then obtain h1 where h1: "Jim_AddHashEntry ht k v = Some (h1, JIM_ERR)" "table_ok h1" "htype h1 = T"
    "hused h1 = hused ht" "table_map h1 = table_map ht"
    using add_ok [OF assms, of k v] by auto
  obtain r where r: "Jim_FindHashEntry h1 k = Some r" "map_option snd r = table_map h1 k"
    using find_ok [OF h1(2,3), of k] by auto
  have m1: "table_map h1 k = Some w" using Some h1(5) by simp
  with r obtain he where he: "r = Some he" "snd he = w" by (cases r) auto
  have ne: "buckets h1 \<noteq> []"
    using m1 by (auto simp: table_map_def)
  let ?h = "unat (Jim_HashKey T k AND sizemask h1)" and ?P = "\<lambda>he. Jim_CompareHashKeys T k (fst he)"
  note b = find_bucket [OF h1(2,3) ne, of k]
  have fd: "List.find ?P (buckets h1 ! ?h) = Some he"
    using r(1) he h1(3) b(1) by (simp add: Jim_FindHashEntry_def Let_def split: if_splits)
  then have P: "?P he" by (auto dest: find_SomeD)
  let ?c = "set_entry T k v (buckets h1 ! ?h)"
  let ?ht = "h1\<lparr>buckets := (buckets h1)[?h := ?c]\<rparr>"
  have run: "Jim_ReplaceHashEntry ht k v = Some (?ht, JIM_OK, [w])"
    using h1 r he b(1) by (simp add: Jim_ReplaceHashEntry_def Let_def)
  have "mset (concat (buckets ?ht)) + mset (buckets h1 ! ?h) = mset (concat (buckets h1)) + mset ?c"
    using mset_concat_update [OF b(1)] by simp
  then have "add_mset he (entries ?ht) + mset (buckets h1 ! ?h) =
      add_mset (fst he, Jim_SetHashVal T v) (entries h1) + mset (buckets h1 ! ?h)"
    using set_entry_found [OF fd, of v] unfolding entries_def by (simp add: union_commute)
  then have ent: "add_mset he (entries ?ht) = add_mset (fst he, Jim_SetHashVal T v) (entries h1)"
    by simp
  have heM: "he \<in># entries h1"
    using fd b(1) by (auto dest!: find_SomeD simp: entries_def intro: nth_mem)
  then obtain M where M: "entries h1 = add_mset he M" by (metis mset_add)
  then have ent': "entries ?ht = add_mset (fst he, Jim_SetHashVal T v) M"
    using ent unfolding M add_mset_commute [of "(fst he, Jim_SetHashVal T v)"] by simp
  have uq1: "uniq T (entries h1)" using h1(2,3) by (simp add: table_ok_def)
  then have uqM: "uniq T M" "\<forall>b \<in># M. \<not> Jim_CompareHashKeys T (fst he) (fst b)"
    by (simp_all add: M uniq_add [OF cmp_symp])
  then have uq': "uniq T (entries ?ht)"
    by (simp add: ent' uniq_add [OF cmp_symp])
  have keys: "fst ` set ?c = fst ` set (buckets h1 ! ?h)"
    by (metis set_entry_keys list.set_map)
  have "in_place T (sizemask h1) (buckets h1)" using h1(2,3) by (simp add: table_ok_def)
  from in_place_keys [OF this, of ?c ?h] keys have "in_place T (sizemask h1) (buckets ?ht)" by simp
  then have ok: "table_ok ?ht"
    using h1(2,3) uq' unfolding table_ok_def by (auto simp: ent' M)
  have T': "htype ?ht = T" using h1(3) by simp
  have "table_map ?ht = (\<lambda>k'. if Jim_CompareHashKeys T k' k then Some (Jim_SetHashVal T v) else table_map h1 k')"
  proof (intro ext map_eqI [OF uq' T'])
    fix k' u
    have "\<not> Jim_CompareHashKeys T k' (fst b)" if "Jim_CompareHashKeys T k' k" "b \<in># M" for b
      using that uqM(2) P cmp_sym cmp_trans by blast
    moreover have "Jim_CompareHashKeys T k' (fst he) \<longleftrightarrow> Jim_CompareHashKeys T k' k"
      using P cmp_sym cmp_trans by blast
    ultimately show "((if Jim_CompareHashKeys T k' k then Some (Jim_SetHashVal T v) else table_map h1 k') = Some u) =
      (\<exists>k''. (k'', u) \<in># entries ?ht \<and> Jim_CompareHashKeys T k' k'')"
      unfolding ent' by (auto simp: map_Some [OF uq1 h1(3)] M)
  qed
  then show ?thesis using run ok T' h1(4,5) Some by auto
qed

text \<open>Deleting hands exactly the entry with the key to the destructors.\<close>

lemma delete_ok:
  assumes "table_ok ht" and "htype ht = T"
  shows "\<exists>ht' freed. Jim_DeleteHashEntry ht k =
      Some (ht', if table_map ht k = None then JIM_ERR else JIM_OK, freed) \<and>
    map (Some \<circ> snd) freed = (if table_map ht k = None then [] else [table_map ht k]) \<and>
    table_ok ht' \<and> htype ht' = T \<and> hused ht' \<le> hused ht \<and>
    table_map ht' = (\<lambda>k'. if Jim_CompareHashKeys T k' k then None else table_map ht k')"
proof (cases "table_map ht k")
  case None
  have uq: "uniq T (entries ht)" using assms by (simp add: table_ok_def)
  have same: "table_map ht = (\<lambda>k'. if Jim_CompareHashKeys T k' k then None else table_map ht k')"
    using None map_None [OF uq assms(2)] cmp_sym cmp_trans by (intro ext) (metis (no_types, opaque_lifting))
  have "Jim_DeleteHashEntry ht k = Some (ht, JIM_ERR, [])"
  proof (cases "buckets ht = []")
    case True
    then have "hused ht = 0" using assms(1) by (simp add: table_ok_def entries_def unat_eq_0)
    then show ?thesis by (simp add: Jim_DeleteHashEntry_def)
  next
    case False
    note b = find_bucket [OF assms False, of k]
    from None have "List.find (\<lambda>he. Jim_CompareHashKeys T k (fst he))
        (buckets ht ! unat (Jim_HashKey T k AND sizemask ht)) = None"
      using b(2) assms(2) by (simp add: table_map_def)
    from unlink_not_found [OF this] show ?thesis
      using b(1) assms(2) by (simp add: Jim_DeleteHashEntry_def Let_def)
  qed
  moreover have "table_ok ht \<and> htype ht = T \<and> hused ht \<le> hused ht" using assms by simp
  ultimately show ?thesis
    using None same by (intro exI [of _ ht] exI [of _ "[]"]) (simp del: fun_upd_apply)
next
  case (Some w)
  then have ne: "buckets ht \<noteq> []" by (auto simp: table_map_def)
  have uq: "uniq T (entries ht)" and pl: "in_place T (sizemask ht) (buckets ht)"
    using assms by (simp_all add: table_ok_def)
  let ?h = "unat (Jim_HashKey T k AND sizemask ht)" and ?P = "\<lambda>he. Jim_CompareHashKeys T k (fst he)"
  note b = find_bucket [OF assms ne, of k]
  from Some obtain he where fd: "List.find ?P (buckets ht ! ?h) = Some he" and w: "snd he = w"
    using b(2) assms(2) by (auto simp: table_map_def)
  then have P: "?P he" and he: "he \<in> set (buckets ht ! ?h)" by (auto dest: find_SomeD)
  from unlink_found [OF fd] obtain c where c: "unlink T k (buckets ht ! ?h) = (c, Some he)"
    "add_mset he (mset c) = mset (buckets ht ! ?h)" by blast
  let ?ht = "ht\<lparr>buckets := (buckets ht)[?h := c], hused := hused ht - 1\<rparr>"
  have "mset (concat (buckets ?ht)) + add_mset he (mset c) = mset (concat (buckets ht)) + mset c"
    using mset_concat_update [OF b(1), of c] c(2) by simp
  then have ent: "entries ht = add_mset he (entries ?ht)" by (simp add: entries_def)
  have pos: "unat (hused ht) = Suc (size (entries ?ht))"
    using assms(1) ent unfolding table_ok_def by simp
  then have nz: "hused ht \<noteq> 0" by auto
  have run: "Jim_DeleteHashEntry ht k = Some (?ht, JIM_OK, [he])"
    using nz c(1) b(1) assms(2) by (simp add: Jim_DeleteHashEntry_def Let_def)
  have uM: "uniq T (entries ?ht)" "\<forall>b \<in># entries ?ht. \<not> Jim_CompareHashKeys T (fst he) (fst b)"
    using uq unfolding ent by (simp_all add: uniq_add [OF cmp_symp])
  have "set c \<subseteq> set (buckets ht ! ?h)" using c(2) by (metis set_mset_mset set_mset_add_mset_insert subset_insertI)
  from in_place_subset [OF pl this] have pl': "in_place T (sizemask ht) (buckets ?ht)" by simp
  have cnt: "unat (hused ht - 1) = size (entries ?ht)"
    using unat_diff_of_nat [of "hused ht" 1] pos by simp
  then have le: "hused ht - 1 \<le> hused ht" using pos by (simp add: word_le_nat_alt)
  have ok: "table_ok ?ht"
    using assms uM(1) pl' cnt order_trans [OF le] ne unfolding table_ok_def by simp
  have T': "htype ?ht = T" using assms(2) by simp
  have "table_map ?ht = (\<lambda>k'. if Jim_CompareHashKeys T k' k then None else table_map ht k')"
  proof (intro ext map_eqI [OF uM(1) T'])
    fix k' u
    have "\<not> Jim_CompareHashKeys T k' (fst b)" if "Jim_CompareHashKeys T k' k" "b \<in># entries ?ht" for b
      using that uM(2) P cmp_sym cmp_trans by blast
    moreover have "Jim_CompareHashKeys T k' (fst he) \<longrightarrow> Jim_CompareHashKeys T k' k"
      using P cmp_sym cmp_trans by blast
    ultimately show "((if Jim_CompareHashKeys T k' k then None else table_map ht k') = Some u) =
      (\<exists>k''. (k'', u) \<in># entries ?ht \<and> Jim_CompareHashKeys T k' k'')"
      by (auto simp: map_Some [OF uq assms(2)] ent simp del: hash_table.simps)
  qed
  then show ?thesis
    using run ok T' le Some w by (intro exI [of _ ?ht] exI [of _ "[he]"]) simp
qed

end

text \<open>Destroying a table hands every entry to the destructors once and leaves an empty table.\<close>

lemma free_ok:
  assumes "table_ok ht"
  shows "Jim_FreeHashTable ht = Some (JimResetHashTable ht, JIM_OK, concat (buckets ht))"
    and "table_ok (JimResetHashTable ht)"
proof -
  have "unat (hused ht) = length (concat (drop 0 (buckets ht)))"
    using assms by (simp add: table_ok_def entries_def)
  from free_loop_all [OF this] show "Jim_FreeHashTable ht = Some (JimResetHashTable ht, JIM_OK, concat (buckets ht))"
    by (simp add: Jim_FreeHashTable_def)
  show "table_ok (JimResetHashTable ht)"
    by (simp add: table_ok_def JimResetHashTable_def in_place_def uniq_def entries_def)
qed

section \<open>The string-keyed types keep the contract\<close>

definition string_keyed :: "(byte list, 'v) hash_type \<Rightarrow> bool" where
  "string_keyed T \<longleftrightarrow> hashFunction T = JimStringCopyHTHashFunction \<and>
     keyCompare T = Some JimStringCopyHTKeyCompare \<and> keyDup T \<in> {None, Some JimStringCopyHTKeyDup}"

lemma string_keyed_hash_keys: "string_keyed T \<Longrightarrow> hash_keys T"
  by unfold_locales
    (auto simp: string_keyed_def Jim_CompareHashKeys_def Jim_HashKey_def Jim_SetHashKey_def
      JimStringCopyHTHashFunction_def JimStringCopyHTKeyCompare_def JimStringCopyHTKeyDup_def cstr_append_nul)

lemma string_keyed_types [simp]:
  "string_keyed JimSharedStringsHashTableType"
  "string_keyed JimStringKeyValCopyHashTableType"
  "string_keyed JimAssocDataHashTableType"
  by (simp_all add: string_keyed_def JimSharedStringsHashTableType_def
      JimStringKeyValCopyHashTableType_def JimAssocDataHashTableType_def)

interpretation shared_strings: hash_keys JimSharedStringsHashTableType
  by (rule string_keyed_hash_keys) simp

interpretation key_val_copy: hash_keys JimStringKeyValCopyHashTableType
  by (rule string_keyed_hash_keys) simp

interpretation assoc_data: hash_keys JimAssocDataHashTableType
  by (rule string_keyed_hash_keys) simp

section \<open>A table as a map under any sequence of operations\<close>

datatype ('k, 'v) hash_op = Op_Add 'k 'v | Op_Replace 'k 'v | Op_Delete 'k | Op_Find 'k

datatype 'v hash_result = Code jim_code | Found "'v option"

fun run_op :: "('k, 'v) hash_table \<Rightarrow> ('k, 'v) hash_op \<Rightarrow> (('k, 'v) hash_table \<times> 'v hash_result) option" where
  "run_op ht (Op_Add k v) = map_option (\<lambda>(ht, rc). (ht, Code rc)) (Jim_AddHashEntry ht k v)"
| "run_op ht (Op_Replace k v) = map_option (\<lambda>(ht, rc, _). (ht, Code rc)) (Jim_ReplaceHashEntry ht k v)"
| "run_op ht (Op_Delete k) = map_option (\<lambda>(ht, rc, _). (ht, Code rc)) (Jim_DeleteHashEntry ht k)"
| "run_op ht (Op_Find k) = map_option (\<lambda>r. (ht, Found (map_option snd r))) (Jim_FindHashEntry ht k)"

fun run_ops :: "('k, 'v) hash_table \<Rightarrow> ('k, 'v) hash_op list \<Rightarrow>
    (('k, 'v) hash_table \<times> 'v hash_result list) option" where
  "run_ops ht [] = Some (ht, [])"
| "run_ops ht (x # xs) = do { (ht, r) \<leftarrow> run_op ht x; (ht, rs) \<leftarrow> run_ops ht xs; Some (ht, r # rs) }"

definition map_set :: "('k, 'v) hash_type \<Rightarrow> 'k \<Rightarrow> 'v option \<Rightarrow> ('k \<Rightarrow> 'v option) \<Rightarrow> 'k \<Rightarrow> 'v option" where
  "map_set T k w m = (\<lambda>k'. if Jim_CompareHashKeys T k' k then w else m k')"

fun spec_op :: "('k, 'v) hash_type \<Rightarrow> ('k \<Rightarrow> 'v option) \<Rightarrow> ('k, 'v) hash_op \<Rightarrow>
    ('k \<Rightarrow> 'v option) \<times> 'v hash_result" where
  "spec_op T m (Op_Add k v) = (if m k = None then (map_set T k (Some (Jim_SetHashVal T v)) m, Code JIM_OK)
     else (m, Code JIM_ERR))"
| "spec_op T m (Op_Replace k v) = (map_set T k (Some (Jim_SetHashVal T v)) m, Code JIM_OK)"
| "spec_op T m (Op_Delete k) = (map_set T k None m, Code (if m k = None then JIM_ERR else JIM_OK))"
| "spec_op T m (Op_Find k) = (m, Found (m k))"

fun spec_ops :: "('k, 'v) hash_type \<Rightarrow> ('k \<Rightarrow> 'v option) \<Rightarrow> ('k, 'v) hash_op list \<Rightarrow>
    ('k \<Rightarrow> 'v option) \<times> 'v hash_result list" where
  "spec_ops T m [] = (m, [])"
| "spec_ops T m (x # xs) = (let (m, r) = spec_op T m x; (m, rs) = spec_ops T m xs in (m, r # rs))"

context hash_keys begin

lemma run_op_ok:
  assumes "table_ok ht" and "htype ht = T" and "hused ht < 2 ^ 31"
  shows "\<exists>ht'. run_op ht x = Some (ht', snd (spec_op T (table_map ht) x)) \<and> table_ok ht' \<and> htype ht' = T \<and>
    unat (hused ht') \<le> Suc (unat (hused ht)) \<and> table_map ht' = fst (spec_op T (table_map ht) x)"
proof (cases x)
  case (Op_Add k v)
  with add_ok [OF assms, of k v] unat_inc [OF assms(3)] show ?thesis
    by (auto simp: map_set_def fun_eq_iff)
next
  case (Op_Replace k v)
  with replace_ok [OF assms, of k v] unat_inc [OF assms(3)] show ?thesis
    by (auto simp: map_set_def)
next
  case (Op_Delete k)
  with delete_ok [OF assms(1,2), of k] show ?thesis
    by (auto simp: map_set_def word_le_nat_alt le_SucI)
next
  case (Op_Find k)
  with find_ok [OF assms(1,2), of k] assms show ?thesis by auto
qed

lemma run_ops_ok:
  assumes "table_ok ht" and "htype ht = T" and "unat (hused ht) + length xs \<le> 2 ^ 31"
  shows "\<exists>ht'. run_ops ht xs = Some (ht', snd (spec_ops T (table_map ht) xs)) \<and> table_ok ht' \<and> htype ht' = T \<and>
    table_map ht' = fst (spec_ops T (table_map ht) xs)"
  using assms
proof (induction xs arbitrary: ht)
  case (Cons x xs)
  then have "hused ht < 2 ^ 31" by (simp add: word_less_nat_alt)
  from run_op_ok [OF Cons.prems(1,2) this, of x] obtain h1 where h1:
    "run_op ht x = Some (h1, snd (spec_op T (table_map ht) x))" "table_ok h1" "htype h1 = T"
    "unat (hused h1) \<le> Suc (unat (hused ht))" "table_map h1 = fst (spec_op T (table_map ht) x)" by blast
  with Cons.prems have "unat (hused h1) + length xs \<le> 2 ^ 31" by simp
  from Cons.IH [OF h1(2,3) this] h1 show ?case
    by (auto simp: split_def Let_def)
qed simp

end

lemma table_map_init: "table_map (Jim_InitHashTable T) = (\<lambda>_. None)"
  by (rule ext) (simp add: table_map_def Jim_InitHashTable_def JimResetHashTable_def)

section \<open>Iteration\<close>

definition pending :: "('k, 'v) hash_table \<Rightarrow> ('k, 'v) hash_iter \<Rightarrow> ('k, 'v) hash_entry list" where
  "pending ht it = (if it_entry it = None then [] else it_next it) @ concat (drop (nat (it_index it + 1)) (buckets ht))"

lemma next_bucket_ok:
  assumes "sint (hsize ht) = int (length (buckets ht))" and "-1 \<le> it_index it"
  shows "\<exists>it' r. next_bucket ht it = Some (it', r) \<and> -1 \<le> it_index it' \<and>
    (case concat (drop (nat (it_index it + 1)) (buckets ht)) of [] \<Rightarrow> r = None
     | e # es \<Rightarrow> r = Some e \<and> it_entry it' = Some e \<and> pending ht it' = es)"
  using assms
proof (induction "length (buckets ht) - nat (it_index it + 1)" arbitrary: it)
  case 0
  then have "int (length (buckets ht)) \<le> it_index it + 1" by linarith
  then have "next_bucket ht it = Some (it\<lparr>it_index := it_index it + 1\<rparr>, None)"
    unfolding next_bucket.simps [of ht it] using 0 by (simp add: Let_def)
  then show ?case using 0 by simp
next
  case (Suc d)
  let ?i = "nat (it_index it + 1)" and ?it = "it\<lparr>it_index := it_index it + 1\<rparr>"
  from Suc have i: "?i < length (buckets ht)" by simp
  have dr: "drop ?i (buckets ht) = buckets ht ! ?i # drop (Suc ?i) (buckets ht)"
    by (rule Cons_nth_drop_Suc [symmetric, OF i])
  have lt: "it_index it + 1 < sint (hsize ht)" using i Suc.prems by linarith
  have sn: "nat (2 + it_index it) = Suc ?i" using Suc.prems by linarith
  show ?case
  proof (cases "buckets ht ! ?i")
    case Nil
    let ?it' = "?it\<lparr>it_entry := None\<rparr>"
    have "next_bucket ht it = next_bucket ht ?it'"
      unfolding next_bucket.simps [of ht it] using lt i Nil Suc.prems(2)
      by (simp add: Let_def take_entry_def)
    moreover have "d = length (buckets ht) - nat (it_index ?it' + 1)"
      using Suc.hyps(2) sn by simp
    ultimately show ?thesis
      using Suc.hyps(1) [of ?it'] Suc.prems Nil sn by (simp add: dr)
  next
    case (Cons e es)
    then have "next_bucket ht it = Some (?it\<lparr>it_entry := Some e, it_next := es\<rparr>, Some e)"
      unfolding next_bucket.simps [of ht it] using lt i Suc.prems(2)
      by (simp add: Let_def take_entry_def)
    then show ?thesis using Cons Suc.prems(2) sn by (simp add: dr pending_def)
  qed
qed

lemma next_entry_ok:
  assumes "sint (hsize ht) = int (length (buckets ht))" and "-1 \<le> it_index it"
  shows "\<exists>it' r. Jim_NextHashEntry ht it = Some (it', r) \<and> -1 \<le> it_index it' \<and>
    (case pending ht it of [] \<Rightarrow> r = None | e # es \<Rightarrow> r = Some e \<and> pending ht it' = es)"
proof (cases "it_entry it = None")
  case True
  then have "pending ht it = concat (drop (nat (it_index it + 1)) (buckets ht))"
    "Jim_NextHashEntry ht it = next_bucket ht it"
    by (simp_all add: Jim_NextHashEntry_def pending_def)
  with next_bucket_ok [OF assms] show ?thesis
    by (cases "concat (drop (nat (it_index it + 1)) (buckets ht))") auto
next
  case False
  then obtain e0 where e0: "it_entry it = Some e0" by blast
  show ?thesis
  proof (cases "it_next it")
    case Nil
    then have "Jim_NextHashEntry ht it = next_bucket ht (it\<lparr>it_entry := None\<rparr>)"
      using False unfolding Jim_NextHashEntry_def if_not_P [OF False]
      by (simp add: take_entry_def Let_def)
    moreover have "pending ht it = concat (drop (nat (it_index it + 1)) (buckets ht))"
      using Nil by (simp add: pending_def)
    ultimately show ?thesis
      using next_bucket_ok [of ht "it\<lparr>it_entry := None\<rparr>"] assms
      by (cases "concat (drop (nat (it_index it + 1)) (buckets ht))") auto
  next
    case (Cons e es)
    with e0 assms(2) show ?thesis
      by (simp add: Jim_NextHashEntry_def take_entry_def pending_def)
  qed
qed

text \<open>A loop over a table: calls until the null pointer, at most \<open>n\<close> of them.\<close>

fun visit :: "nat \<Rightarrow> ('k, 'v) hash_table \<Rightarrow> ('k, 'v) hash_iter \<Rightarrow> ('k, 'v) hash_entry list option" where
  "visit 0 ht it = None"
| "visit (Suc n) ht it = do {
     (it, r) \<leftarrow> Jim_NextHashEntry ht it;
     case r of None \<Rightarrow> Some [] | Some he \<Rightarrow> map_option ((#) he) (visit n ht it)
   }"

lemma visit_pending:
  assumes "sint (hsize ht) = int (length (buckets ht))" and "-1 \<le> it_index it" and "length (pending ht it) < n"
  shows "visit n ht it = Some (pending ht it)"
  using assms(2,3)
proof (induction n arbitrary: it)
  case (Suc n)
  obtain it' r where r: "Jim_NextHashEntry ht it = Some (it', r)" "-1 \<le> it_index it'"
    "case pending ht it of [] \<Rightarrow> r = None | e # es \<Rightarrow> r = Some e \<and> pending ht it' = es"
    using next_entry_ok [OF assms(1) Suc.prems(1)] by blast
  then show ?case
    using Suc.IH [OF r(2)] Suc.prems(2) by (cases "pending ht it") auto
qed simp

lemma hsize_length: "table_ok ht \<Longrightarrow> unat (hsize ht) = length (buckets ht)"
  by (auto simp: table_ok_def shape_def unat_two_power)

text \<open>A concrete table.\<close>

definition two_entries :: "(byte list, int) hash_table" where
  "two_entries = \<lparr>buckets = (replicate 16 [])[1 := [([97, 0], 1)], 2 := [([98, 0], 2)]],
     htype = JimSharedStringsHashTableType, hsize = 16, sizemask = 15, hused = 2, collisions = 0\<rparr>"

lemma in_place_update:
  assumes "in_place T m t" and "\<forall>he \<in> set c. unat (Jim_HashKey T (fst he) AND m) = i"
  shows "in_place T m (t[i := c])"
  using assms unfolding in_place_def by (auto simp: nth_update_if split: if_splits)

lemma two_entries_ok: "table_ok two_entries"
proof -
  have "shape 16 15 (buckets two_entries)"
    unfolding shape_def by (intro exI [of _ 4]) (simp add: two_entries_def)
  moreover have "in_place JimSharedStringsHashTableType 15 (buckets two_entries)"
    unfolding two_entries_def hash_table.simps
    by (intro in_place_update in_place_empty)
      (simp_all add: Jim_HashKey_def JimSharedStringsHashTableType_def JimStringCopyHTHashFunction_def
        cstr_def Jim_GenHashFunction_def)
  moreover have ent: "entries two_entries = {#([97, 0], 1), ([98, 0], 2)#}"
    by (simp add: entries_def two_entries_def numeral_eq_Suc)
  moreover have "uniq JimSharedStringsHashTableType (entries two_entries)"
    unfolding ent uniq_def by (simp add: Jim_CompareHashKeys_def JimSharedStringsHashTableType_def
        JimStringCopyHTKeyCompare_def cstr_def)
  ultimately show ?thesis
    by (simp add: table_ok_def) (simp add: two_entries_def)
qed

section \<open>Properties\<close>

text \<open>
  C1: Any sequence of less than 2^31 operations on a new table of a string-keyed type returns
  what the operations on a map of strings to values return, and leaves a well-formed table that
  stands for the map they leave; in particular no access leaves the bucket array.
\<close>

theorem hash_table_refines_map:
  assumes "string_keyed T" and "length xs < 2 ^ 31"
  shows "\<exists>ht. run_ops (Jim_InitHashTable T) xs = Some (ht, snd (spec_ops T (\<lambda>_. None) xs)) \<and>
    table_ok ht \<and> table_map ht = fst (spec_ops T (\<lambda>_. None) xs)"
proof -
  have "unat (hused (Jim_InitHashTable T)) + length xs \<le> 2 ^ 31"
    using assms(2) by (simp add: Jim_InitHashTable_def JimResetHashTable_def)
  from hash_keys.run_ops_ok [OF string_keyed_hash_keys [OF assms(1)] table_ok_init htype_init this,
      unfolded table_map_init]
  show ?thesis by blast
qed

theorem hash_table_refines_map_witness:
  "\<exists>ht. run_ops (Jim_InitHashTable JimAssocDataHashTableType)
      [Op_Add [97, 0] (1::int), Op_Add [97, 0, 5] 2, Op_Replace [97, 0] 3, Op_Find [97, 0, 9], Op_Delete [97, 0],
       Op_Find [97, 0], Op_Delete [98, 0]] =
    Some (ht, [Code JIM_OK, Code JIM_ERR, Code JIM_OK, Found (Some 3), Code JIM_OK, Found None, Code JIM_ERR])"
proof -
  have "snd (spec_ops JimAssocDataHashTableType (\<lambda>_. None) [Op_Add [97, 0] (1::int), Op_Add [97, 0, 5] 2,
      Op_Replace [97, 0] 3, Op_Find [97, 0, 9], Op_Delete [97, 0], Op_Find [97, 0], Op_Delete [98, 0]]) =
    [Code JIM_OK, Code JIM_ERR, Code JIM_OK, Found (Some 3), Code JIM_OK, Found None, Code JIM_ERR]"
    by (simp add: map_set_def JimAssocDataHashTableType_def Jim_CompareHashKeys_def Jim_SetHashVal_def
      JimStringCopyHTKeyCompare_def cstr_def)
  with hash_table_refines_map [of "JimAssocDataHashTableType :: (byte list, int) hash_type"
      "[Op_Add [97, 0] 1, Op_Add [97, 0, 5] 2, Op_Replace [97, 0] 3, Op_Find [97, 0, 9], Op_Delete [97, 0],
       Op_Find [97, 0], Op_Delete [98, 0]]"]
  show ?thesis by (simp del: run_ops.simps spec_ops.simps) blast
qed

text \<open>
  C26: An iterator over a well-formed table of up to 2^30 buckets hands out every entry exactly
  once, bucket by bucket, and then the null pointer: as many calls as entries, and one.
\<close>

theorem hash_iteration_complete:
  assumes "table_ok ht" and "hsize ht < 2 ^ 31"
  shows "visit (Suc (unat (hused ht))) ht Jim_GetHashTableIterator = Some (concat (buckets ht))"
proof -
  have "sint (hsize ht) = int (length (buckets ht))"
    using assms(2) hsize_length [OF assms(1)] by (simp add: sint_small word_less_nat_alt)
  moreover have "pending ht Jim_GetHashTableIterator = concat (buckets ht)"
    by (simp add: pending_def Jim_GetHashTableIterator_def)
  moreover have "unat (hused ht) = length (concat (buckets ht))"
    using assms(1) by (simp add: table_ok_def entries_def)
  ultimately show ?thesis
    using visit_pending [of ht Jim_GetHashTableIterator "Suc (unat (hused ht))"]
    by (simp add: Jim_GetHashTableIterator_def del: visit.simps)
qed

theorem hash_iteration_complete_witness:
  "visit 3 two_entries Jim_GetHashTableIterator = Some [([97, 0], 1), ([98, 0], 2)]"
proof -
  have "concat (buckets two_entries) = [([97, 0], 1), ([98, 0], 2)]"
    by (simp add: two_entries_def numeral_eq_Suc)
  moreover have "unat (hused two_entries) = 2" by (simp add: two_entries_def)
  moreover have "hsize two_entries < 2 ^ 31" by (simp add: two_entries_def)
  ultimately show ?thesis
    using hash_iteration_complete [OF two_entries_ok] by (simp add: numeral_3_eq_3 del: visit.simps)
qed

text \<open>
  Destroying a well-formed table hands every entry to the destructors exactly once and
  leaves an empty, well-formed table of the same type.
\<close>

theorem hash_free_complete:
  assumes "table_ok ht"
  shows "\<exists>ht' freed. Jim_FreeHashTable ht = Some (ht', JIM_OK, freed) \<and> mset freed = entries ht \<and>
    table_ok ht' \<and> htype ht' = htype ht \<and> entries ht' = {#}"
  using free_ok [OF assms] by (simp add: entries_def JimResetHashTable_def)

theorem hash_free_complete_witness:
  "\<exists>ht' freed. Jim_FreeHashTable two_entries = Some (ht', JIM_OK, freed) \<and>
    mset freed = {#([97, 0], 1), ([98, 0], 2)#} \<and> entries ht' = {#}"
proof -
  have "entries two_entries = {#([97, 0], 1), ([98, 0], 2)#}"
    by (simp add: entries_def two_entries_def numeral_eq_Suc)
  with hash_free_complete [OF two_entries_ok] show ?thesis by auto
qed

text \<open>
  The loop for the next table size ends for every size asked for, with the least power of
  two that is at least the size and at least 16, capped at 2^31.
\<close>

theorem next_power_least:
  "\<exists>k. 4 \<le> k \<and> k \<le> 31 \<and> JimHashTableNextPower sz = Some (2 ^ k) \<and> min sz (2 ^ 31) \<le> 2 ^ k \<and>
     (k = 4 \<or> 2 ^ (k - 1) < sz)"
proof -
  obtain k where k: "4 \<le> k" "k \<le> 31" "JimHashTableNextPower sz = Some (2 ^ k)" "sz \<le> 2 ^ 31 \<longrightarrow> sz \<le> 2 ^ k"
    "4 < k \<longrightarrow> 2 ^ (k - 1) < sz" using next_power_spec by blast
  have "min sz (2 ^ 31) \<le> 2 ^ k"
  proof (cases "sz \<le> 2 ^ 31")
    case True with k(4) show ?thesis by (simp add: min.coboundedI1)
  next
    case False
    then have "JimHashTableNextPower sz = Some (2 ^ 31)" by (simp add: JimHashTableNextPower_def order_less_imp_le not_le)
    with k(3) have "(2::u32) ^ k = 2 ^ 31" by simp
    then show ?thesis by simp
  qed
  with k show ?thesis by (intro exI [of _ k]) auto
qed

text \<open>
  Resizing to the least size never shrinks a table that holds sixteen entries or more: the
  size it asks for is the number of entries, which \<open>Jim_ExpandHashTable\<close> refuses.
\<close>

theorem resize_never_shrinks:
  assumes "16 \<le> sint (hused ht)"
  shows "Jim_ResizeHashTable ht = Some (ht, JIM_ERR)"
  using next_power_spec [of "hused ht"] assms by (auto simp: Jim_ResizeHashTable_def Jim_ExpandHashTable_def)

theorem resize_never_shrinks_witness:
  "Jim_ResizeHashTable \<lparr>buckets = replicate 64 [], htype = JimSharedStringsHashTableType, hsize = 64,
     sizemask = 63, hused = 20, collisions = 0\<rparr> =
   Some (\<lparr>buckets = replicate 64 [], htype = JimSharedStringsHashTableType, hsize = 64,
     sizemask = 63, hused = 20, collisions = 0\<rparr>, JIM_ERR)"
  by (rule resize_never_shrinks) simp

end
