(* ===== verification/Jim_Utf8.thy ===== *)
theory Jim_Utf8
  imports Prelude_C
begin

text \<open>
  \<open>src/test2/utf8.c\<close>: the UTF-8 functions of the Jim Tcl interpreter, for code points up to
  \<open>0xffff\<close>. A string is its bytes followed by a terminator; an index behind the terminator is an
  access outside of the string (\<open>None\<close>).
\<close>

section \<open>Encoding\<close>

definition utf8_fromunicode :: "u16 \<Rightarrow> byte list" where
  "utf8_fromunicode uc =
     (if uc \<le> 0x7f then [ucast uc]
      else if uc \<le> 0x7ff then [0xc0 OR ucast (drop_bit 6 (uc AND 0x7c0)), 0x80 OR ucast (uc AND 0x3f)]
      else [0xe0 OR ucast (drop_bit 12 (uc AND 0xf000)), 0x80 OR ucast (drop_bit 6 (uc AND 0xfc0)),
            0x80 OR ucast (uc AND 0x3f)])"

definition utf8_charlen :: "byte \<Rightarrow> int" where
  "utf8_charlen c =
     (if c AND 0x80 = 0 then 1
      else if c AND 0xe0 = 0xc0 then 2
      else if c AND 0xf0 = 0xe0 then 3
      else if c AND 0xf8 = 0xf0 then 4
      else -1)"

section \<open>Decoding\<close>

text \<open>The code point at index \<open>i\<close> and the number of bytes it takes.\<close>

definition utf8_tounicode :: "byte list \<Rightarrow> nat \<Rightarrow> (u32 \<times> nat) option" where
  "utf8_tounicode str i = do {
     s0 \<leftarrow> rd str i;
     if s0 < 0xc0 then Some (ucast s0, 1)
     else if s0 < 0xe0 then do {
       s1 \<leftarrow> rd str (i + 1);
       if s1 AND 0xc0 = 0x80
       then Some (push_bit 6 (ucast (s0 AND NOT 0xc0)) OR ucast (s1 AND NOT 0x80), 2)
       else Some (ucast s0, 1)
     } else if s0 < 0xf0 then do {
       s1 \<leftarrow> rd str (i + 1);
       s2 \<leftarrow> (if s1 AND 0xc0 = 0x80 then rd str (i + 2) else Some 0);
       if s1 AND 0xc0 = 0x80 \<and> s2 AND 0xc0 = 0x80
       then Some (push_bit 12 (ucast (s0 AND NOT 0xe0)) OR push_bit 6 (ucast (s1 AND NOT 0x80)) OR
                  ucast (s2 AND NOT 0x80), 3)
       else Some (ucast s0, 1)
     } else Some (ucast s0, 1)
   }"

lemma utf8_tounicode_len: "utf8_tounicode str i = Some (c, l) \<Longrightarrow> 1 \<le> l \<and> l \<le> 3 \<and> i \<le> length str"
  by (auto simp: utf8_tounicode_def split: bind_splits if_splits dest: rd_SomeD)

text \<open>The loop of \<open>utf8_strlen\<close> ends when \<open>bytelen\<close> is exactly zero.\<close>

function utf8_strlen_loop :: "byte list \<Rightarrow> nat \<Rightarrow> int \<Rightarrow> int \<Rightarrow> int option" where
  "utf8_strlen_loop str i bytelen charlen = (if bytelen \<noteq> 0 then do {
       (c, l) \<leftarrow> utf8_tounicode str i;
       utf8_strlen_loop str (i + l) (bytelen - int l) (charlen + 1)
     } else Some charlen)"
  by pat_completeness auto
termination
  by (relation "measure (\<lambda>(str, i, bytelen, charlen). Suc (length str) - i)")
    (auto dest!: utf8_tounicode_len)

declare utf8_strlen_loop.simps [simp del]

definition utf8_strlen :: "byte list \<Rightarrow> int \<Rightarrow> int option" where
  "utf8_strlen str bytelen =
     utf8_strlen_loop str 0 (if bytelen < 0 then int (length (cstr str)) else bytelen) 0"

fun utf8_index_loop :: "byte list \<Rightarrow> nat \<Rightarrow> nat \<Rightarrow> nat option" where
  "utf8_index_loop str i 0 = Some i"
| "utf8_index_loop str i (Suc index) = do {
     (c, l) \<leftarrow> utf8_tounicode str i;
     utf8_index_loop str (i + l) index
   }"

definition utf8_index :: "byte list \<Rightarrow> nat \<Rightarrow> nat option" where
  "utf8_index str index = utf8_index_loop str 0 index"

definition utf8_charequal :: "byte list \<Rightarrow> byte list \<Rightarrow> bool option" where
  "utf8_charequal s1 s2 = do {
     (c1, _) \<leftarrow> utf8_tounicode s1 0;
     (c2, _) \<leftarrow> utf8_tounicode s2 0;
     Some (c1 = c2)
   }"

text \<open>Looking back from index \<open>i\<close>: \<open>len\<close> is the number of bytes that may be looked at.\<close>

fun utf8_prev_len_loop :: "byte list \<Rightarrow> nat \<Rightarrow> nat \<Rightarrow> nat \<Rightarrow> nat option" where
  "utf8_prev_len_loop str i n 0 = Some n"
| "utf8_prev_len_loop str i n (Suc len) = (if n > i then None else do {
     c \<leftarrow> peek str (i - n);
     if c AND 0x80 = 0 then Some n
     else if c AND 0xc0 = 0xc0 then Some n
     else utf8_prev_len_loop str i (n + 1) len
   })"

text \<open>The assertion fails for \<open>len = 0\<close>.\<close>

definition utf8_prev_len :: "byte list \<Rightarrow> nat \<Rightarrow> nat \<Rightarrow> nat option" where
  "utf8_prev_len str i len = (if len > 0 then utf8_prev_len_loop str i 1 (len - 1) else None)"

section \<open>One character\<close>

text \<open>The bytes written, as bits of the code point.\<close>

lemma cont_byte [simp]:
  fixes x :: byte
  shows "(0x80 OR (x AND 0x3f)) AND 0xc0 = 0x80" "(0x80 OR (x AND 0x3f)) AND NOT 0x80 = x AND 0x3f"
  by (rule byte_eqI; simp add: bit_simps)+

lemma lead_range:
  fixes x :: byte
  shows "\<not> 0xc0 OR (x AND 0x1f) < 0xc0" "0xc0 OR (x AND 0x1f) < 0xe0"
    "\<not> 0xe0 OR (x AND 0x0f) < 0xc0" "\<not> 0xe0 OR (x AND 0x0f) < 0xe0" "0xe0 OR (x AND 0x0f) < 0xf0"
proof -
  have "(0xc0 OR (x AND 0x1f)) AND 0xdf = 0xc0 OR (x AND 0x1f)"
    by (rule byte_eqI) (simp_all add: bit_simps)
  moreover have "(0xc0 OR (x AND 0x1f)) AND 0xdf \<le> 0xdf" by (rule word_and_le1)
  ultimately have "0xc0 OR (x AND 0x1f) \<le> 0xdf" by (simp only:)
  then show "0xc0 OR (x AND 0x1f) < 0xe0" by (simp add: word_le_nat_alt word_less_nat_alt)
  have "(0xe0 OR (x AND 0x0f)) AND 0xef = 0xe0 OR (x AND 0x0f)"
    by (rule byte_eqI) (simp_all add: bit_simps)
  moreover have "(0xe0 OR (x AND 0x0f)) AND 0xef \<le> 0xef" by (rule word_and_le1)
  ultimately have "0xe0 OR (x AND 0x0f) \<le> 0xef" by (simp only:)
  then show "0xe0 OR (x AND 0x0f) < 0xf0" by (simp add: word_le_nat_alt word_less_nat_alt)
  show "\<not> 0xc0 OR (x AND 0x1f) < 0xc0" unfolding not_less by (rule le_word_or2)
  show "\<not> 0xe0 OR (x AND 0x0f) < 0xe0" unfolding not_less by (rule le_word_or2)
  have "0xe0 \<le> 0xe0 OR (x AND 0x0f)" by (rule le_word_or2)
  then show "\<not> 0xe0 OR (x AND 0x0f) < 0xc0" by (simp add: word_le_nat_alt word_less_nat_alt)
qed

lemma fromunicode_groups:
  fixes uc :: u16
  shows "ucast (drop_bit 6 (uc AND 0x7c0)) = (ucast (drop_bit 6 uc) :: byte) AND 0x1f"
    "ucast (drop_bit 12 (uc AND 0xf000)) = (ucast (drop_bit 12 uc) :: byte) AND 0x0f"
    "ucast (drop_bit 6 (uc AND 0xfc0)) = (ucast (drop_bit 6 uc) :: byte) AND 0x3f"
    "ucast (uc AND 0x3f) = (ucast uc :: byte) AND 0x3f"
  by (rule byte_eqI; simp add: bit_simps)+

lemma tounicode_groups:
  fixes x y z :: byte
  shows "(0xc0 OR (x AND 0x1f)) AND NOT 0xc0 = x AND 0x1f"
    "(0xe0 OR (x AND 0x0f)) AND NOT 0xe0 = x AND 0x0f"
  by (rule byte_eqI; simp add: bit_simps)+

lemma tounicode_value:
  fixes uc :: u16
  shows "uc AND 0x7ff = uc \<Longrightarrow>
      push_bit 6 (ucast ((ucast (drop_bit 6 uc) :: byte) AND 0x1f)) OR ucast ((ucast uc :: byte) AND 0x3f) = (ucast uc :: u32)"
    "push_bit 12 (ucast ((ucast (drop_bit 12 uc) :: byte) AND 0x0f)) OR
      push_bit 6 (ucast ((ucast (drop_bit 6 uc) :: byte) AND 0x3f)) OR ucast ((ucast uc :: byte) AND 0x3f) = (ucast uc :: u32)"
    "uc AND 0x7f = uc \<Longrightarrow> ucast (ucast uc :: byte) = (ucast uc :: u32)"
proof -
  show "push_bit 12 (ucast ((ucast (drop_bit 12 uc) :: byte) AND 0x0f)) OR
      push_bit 6 (ucast ((ucast (drop_bit 6 uc) :: byte) AND 0x3f)) OR ucast ((ucast uc :: byte) AND 0x3f) = (ucast uc :: u32)"
    by (rule u32_eqI) (simp_all add: bit_simps)
  assume "uc AND 0x7ff = uc"
  then have "bit uc n \<longrightarrow> bit (0x7ff :: u16) n" for n by (metis bit_and_iff)
  from this [of 11] this [of 12] this [of 13] this [of 14] this [of 15]
  have "\<not> bit uc 11" "\<not> bit uc 12" "\<not> bit uc 13" "\<not> bit uc 14" "\<not> bit uc 15"
    by simp_all
  then show "push_bit 6 (ucast ((ucast (drop_bit 6 uc) :: byte) AND 0x1f)) OR ucast ((ucast uc :: byte) AND 0x3f) = (ucast uc :: u32)"
    by (intro u32_eqI) (simp_all add: bit_simps)
next
  assume "uc AND 0x7f = uc"
  then have "bit uc n \<longrightarrow> bit (0x7f :: u16) n" for n by (metis bit_and_iff)
  from this [of 8] this [of 9] this [of 10] this [of 11] this [of 12] this [of 13] this [of 14] this [of 15]
  show "ucast (ucast uc :: byte) = (ucast uc :: u32)"
    by (intro u32_eqI) (simp_all add: bit_simps)
qed

lemma low_and:
  fixes uc :: u16
  shows "uc \<le> 0x7f \<Longrightarrow> uc AND 0x7f = uc" "uc \<le> 0x7ff \<Longrightarrow> uc AND 0x7ff = uc"
proof -
  have t: "take_bit n uc = uc" if "unat uc < 2 ^ n" for n
    using that by (simp only: word_unat_eq_iff unsigned_take_bit_eq take_bit_nat_eq_self_iff)
  have "uc AND 0x7f = take_bit 7 uc" "uc AND 0x7ff = take_bit 11 uc"
    by (simp_all add: take_bit_eq_mask mask_eq_exp_minus_1)
  then show "uc \<le> 0x7f \<Longrightarrow> uc AND 0x7f = uc" "uc \<le> 0x7ff \<Longrightarrow> uc AND 0x7ff = uc"
    using t [of 7] t [of 11] by (simp_all add: word_le_nat_alt)
qed

text \<open>The character written is read back from any string it stands in.\<close>

lemma tounicode_fromunicode:
  assumes "drop i str = utf8_fromunicode uc @ r"
  shows "utf8_tounicode str i = Some (ucast uc, length (utf8_fromunicode uc))"
proof -
  consider "uc \<le> 0x7f" | "\<not> uc \<le> 0x7f" "uc \<le> 0x7ff" | "\<not> uc \<le> 0x7f" "\<not> uc \<le> 0x7ff" by blast
  then show ?thesis
  proof cases
    case 1
    have "(ucast uc :: byte) < 0xc0"
      using 1 by (simp add: word_le_nat_alt word_less_nat_alt unsigned_ucast_eq take_bit_eq_mod)
    then show ?thesis
      using 1 assms drop_ConsD [of i str "ucast uc" r] tounicode_value(3) [OF low_and(1) [OF 1]]
      by (simp add: utf8_fromunicode_def utf8_tounicode_def)
  next
    case 2
    let ?a = "0xc0 OR ((ucast (drop_bit 6 uc) :: byte) AND 0x1f)" and ?b = "0x80 OR ((ucast uc :: byte) AND 0x3f)"
    have e: "utf8_fromunicode uc = [?a, ?b]"
      using 2 by (simp only: utf8_fromunicode_def fromunicode_groups if_True if_False)
    have "rd str i = Some ?a" "rd str (i + 1) = Some ?b"
      using assms e drop_ConsD [of i str ?a "?b # r"] drop_ConsD [of "Suc i" str ?b r] by auto
    then show ?thesis
      unfolding e utf8_tounicode_def
      by (simp only: bind.bind_lunit lead_range cont_byte tounicode_groups tounicode_value(1) [OF low_and(2) [OF 2(2)]]
          if_True if_False simp_thms list.size) simp
  next
    case 3
    let ?a = "0xe0 OR ((ucast (drop_bit 12 uc) :: byte) AND 0x0f)"
      and ?b = "0x80 OR ((ucast (drop_bit 6 uc) :: byte) AND 0x3f)" and ?c = "0x80 OR ((ucast uc :: byte) AND 0x3f)"
    have e: "utf8_fromunicode uc = [?a, ?b, ?c]"
      using 3 by (simp only: utf8_fromunicode_def fromunicode_groups if_True if_False)
    have "rd str i = Some ?a" "rd str (i + 1) = Some ?b" "rd str (i + 2) = Some ?c"
      using assms e drop_ConsD [of i str ?a "?b # ?c # r"] drop_ConsD [of "Suc i" str ?b "?c # r"]
        drop_ConsD [of "Suc (Suc i)" str ?c r] by auto
    then show ?thesis
      unfolding e utf8_tounicode_def
      by (simp only: bind.bind_lunit lead_range cont_byte tounicode_groups tounicode_value(2)
          if_True if_False simp_thms list.size) simp
  qed
qed

lemma fromunicode_len: "1 \<le> length (utf8_fromunicode uc) \<and> length (utf8_fromunicode uc) \<le> 3"
  by (simp add: utf8_fromunicode_def)

text \<open>The shape of an encoded character: a lead byte that tells the length, then continuation bytes.\<close>

lemma fromunicode_shape:
  obtains (1) a where "utf8_fromunicode uc = [a]" "a AND 0x80 = 0"
  | (2) a b where "utf8_fromunicode uc = [a, b]" "a AND 0x80 \<noteq> 0" "a AND 0xc0 = 0xc0" "a AND 0xe0 = 0xc0"
      "b AND 0x80 \<noteq> 0" "b AND 0xc0 \<noteq> 0xc0"
  | (3) a b c where "utf8_fromunicode uc = [a, b, c]" "a AND 0x80 \<noteq> 0" "a AND 0xc0 = 0xc0" "a AND 0xe0 \<noteq> 0xc0"
      "a AND 0xf0 = 0xe0" "b AND 0x80 \<noteq> 0" "b AND 0xc0 \<noteq> 0xc0" "c AND 0x80 \<noteq> 0" "c AND 0xc0 \<noteq> 0xc0"
proof -
  have cont: "(0x80 OR (x AND 0x3f)) AND 0x80 \<noteq> 0" "(0x80 OR (x AND 0x3f)) AND 0xc0 \<noteq> 0xc0" for x :: byte
  proof -
    have "(0x80 OR (x AND 0x3f)) AND 0x80 = 0x80" by (rule byte_eqI) (simp_all add: bit_simps)
    then show "(0x80 OR (x AND 0x3f)) AND 0x80 \<noteq> 0" by simp
  qed (simp only: cont_byte, simp)
  have lead: "(0xc0 OR (x AND 0x1f)) AND 0x80 = 0x80" "(0xc0 OR (x AND 0x1f)) AND 0xc0 = 0xc0"
    "(0xc0 OR (x AND 0x1f)) AND 0xe0 = 0xc0" "(0xe0 OR (x AND 0x0f)) AND 0x80 = 0x80"
    "(0xe0 OR (x AND 0x0f)) AND 0xc0 = 0xc0" "(0xe0 OR (x AND 0x0f)) AND 0xe0 = 0xe0"
    "(0xe0 OR (x AND 0x0f)) AND 0xf0 = 0xe0" for x :: byte
    by (rule byte_eqI; simp add: bit_simps)+
  have ne: "(0x80 :: byte) \<noteq> 0" "(0xe0 :: byte) \<noteq> 0xc0" by simp_all
  consider "uc \<le> 0x7f" | "\<not> uc \<le> 0x7f" "uc \<le> 0x7ff" | "\<not> uc \<le> 0x7f" "\<not> uc \<le> 0x7ff" by blast
  then show thesis
  proof cases
    case 1
    have b: "bit uc n \<longrightarrow> bit (0x7f :: u16) n" for n using low_and(1) [OF 1] by (metis bit_and_iff)
    have "(ucast uc :: byte) AND 0x80 = 0"
      using b [of 7] by (intro byte_eqI) (simp_all add: bit_simps)
    then show thesis using that(1) 1 by (simp add: utf8_fromunicode_def)
  next
    case 2
    then have "utf8_fromunicode uc = [0xc0 OR ((ucast (drop_bit 6 uc) :: byte) AND 0x1f),
        0x80 OR ((ucast uc :: byte) AND 0x3f)]"
      by (simp only: utf8_fromunicode_def fromunicode_groups if_True if_False)
    then show thesis by (rule that(2)) (simp_all only: lead cont ne not_False_eq_True)
  next
    case 3
    then have "utf8_fromunicode uc = [0xe0 OR ((ucast (drop_bit 12 uc) :: byte) AND 0x0f),
        0x80 OR ((ucast (drop_bit 6 uc) :: byte) AND 0x3f), 0x80 OR ((ucast uc :: byte) AND 0x3f)]"
      by (simp only: utf8_fromunicode_def fromunicode_groups if_True if_False)
    then show thesis by (rule that(3)) (simp_all only: lead cont ne not_False_eq_True)
  qed
qed

section \<open>Strings\<close>

definition utf8_encode :: "u16 list \<Rightarrow> byte list" where
  "utf8_encode us = concat (map utf8_fromunicode us)"

lemma utf8_encode_simps [simp]:
  "utf8_encode [] = []" "utf8_encode (u # us) = utf8_fromunicode u @ utf8_encode us"
  "utf8_encode (us @ vs) = utf8_encode us @ utf8_encode vs"
  by (simp_all add: utf8_encode_def)

lemma strlen_loop_encode:
  "drop i str = utf8_encode us @ r \<Longrightarrow>
    utf8_strlen_loop str i (int (length (utf8_encode us))) n = Some (n + int (length us))"
proof (induction us arbitrary: i n)
  case Nil
  then show ?case by (subst utf8_strlen_loop.simps) simp
next
  case (Cons u us)
  have d: "drop i str = utf8_fromunicode u @ utf8_encode us @ r" using Cons.prems by simp
  have "drop (i + length (utf8_fromunicode u)) str = utf8_encode us @ r"
    using d by (metis append_eq_conv_conj drop_drop add.commute)
  then show ?case
    using tounicode_fromunicode [OF d] Cons.IH [of "i + length (utf8_fromunicode u)" "n + 1"]
      fromunicode_len [of u]
    by (subst utf8_strlen_loop.simps) simp
qed

lemma index_loop_encode:
  "drop i str = utf8_encode us @ r \<Longrightarrow> k \<le> length us \<Longrightarrow>
    utf8_index_loop str i k = Some (i + length (utf8_encode (take k us)))"
proof (induction us arbitrary: i k)
  case (Cons u us)
  have d: "drop i str = utf8_fromunicode u @ utf8_encode us @ r" using Cons.prems by simp
  have "drop (i + length (utf8_fromunicode u)) str = utf8_encode us @ r"
    using d by (metis append_eq_conv_conj drop_drop add.commute)
  then show ?case
    using tounicode_fromunicode(1) [OF d] Cons.IH [of "i + length (utf8_fromunicode u)"] Cons.prems(2)
    by (cases k) simp_all
qed simp

lemma prev_len_encode:
  assumes "take i str = p @ utf8_fromunicode u" "i \<le> length str" "0 < len"
  shows "utf8_prev_len str i len = Some (min len (length (utf8_fromunicode u)))"
proof -
  have i: "i = length p + length (utf8_fromunicode u)" using assms(1,2) by (metis length_append length_take min_absorb2)
  have at: "peek str (length p + k) = Some (utf8_fromunicode u ! k)" if "k < length (utf8_fromunicode u)" for k
  proof -
    have "take i str ! (length p + k) = utf8_fromunicode u ! k" unfolding assms(1) by simp
    with that i assms(2) show ?thesis by simp
  qed
  obtain m where len: "len = Suc m" using assms(3) by (cases len) auto
  show ?thesis
  proof (cases rule: fromunicode_shape [of u])
    case (1 a)
    then show ?thesis using at [of 0] i len by (cases m) (simp_all add: utf8_prev_len_def)
  next
    case (2 a b)
    then show ?thesis using at [of 0] at [of 1] i len
      by (cases m; cases "m - 1") (simp_all add: utf8_prev_len_def)
  next
    case (3 a b c)
    then show ?thesis using at [of 0] at [of 1] at [of 2] i len
      by (cases m; cases "m - 1"; cases "m - 2") (simp_all add: utf8_prev_len_def)
  qed
qed

section \<open>Properties\<close>

text \<open>
  C37: Writing a code point and reading it back gives the code point and the number of bytes
  written, wherever it stands in a string and whatever follows; the length is told by the first
  byte.
\<close>

theorem utf8_roundtrip:
  "utf8_tounicode (p @ utf8_fromunicode uc @ r) (length p) = Some (ucast uc, length (utf8_fromunicode uc)) \<and>
   utf8_charlen (hd (utf8_fromunicode uc)) = int (length (utf8_fromunicode uc))"
  using tounicode_fromunicode(1) [of "length p" "p @ utf8_fromunicode uc @ r" uc r]
  by (cases rule: fromunicode_shape [of uc]) (simp_all add: utf8_charlen_def)

interpretation utf8: codec utf8_fromunicode "\<lambda>z. map_option (\<lambda>(c, l). ucast c) (utf8_tounicode z 0)" "\<lambda>uc. True"
proof
  fix uc :: u16
  have "ucast (ucast uc :: u32) = uc" by (rule u16_eqI) (simp_all add: bit_simps)
  then show "map_option (\<lambda>(c, l). ucast c) (utf8_tounicode (utf8_fromunicode uc) 0) = Some uc"
    using tounicode_fromunicode(1) [of 0 "utf8_fromunicode uc" uc "[]"] by simp
qed

text \<open>
  On a string of encoded characters the three string functions agree: \<open>utf8_strlen\<close> counts
  the characters, \<open>utf8_index\<close> gives the byte index of each of them (the byte length for the
  number of characters), and \<open>utf8_prev_len\<close> steps back over the last one from there.
\<close>

theorem utf8_string_functions:
  assumes "k < length us"
  shows "utf8_strlen (utf8_encode us) (int (length (utf8_encode us))) = Some (int (length us)) \<and>
    utf8_index (utf8_encode us) k = Some (length (utf8_encode (take k us))) \<and>
    utf8_index (utf8_encode us) (Suc k) =
      Some (length (utf8_encode (take k us)) + length (utf8_fromunicode (us ! k))) \<and>
    utf8_prev_len (utf8_encode us) (length (utf8_encode (take (Suc k) us)))
      (length (utf8_encode (take (Suc k) us))) = Some (length (utf8_fromunicode (us ! k)))"
proof -
  have t: "take (Suc k) us = take k us @ [us ! k]" using assms by (simp add: take_Suc_conv_app_nth)
  have "utf8_encode us = utf8_encode (take (Suc k) us) @ utf8_encode (drop (Suc k) us)"
    by (metis append_take_drop_id utf8_encode_simps(3))
  then have "take (length (utf8_encode (take (Suc k) us))) (utf8_encode us) =
      utf8_encode (take k us) @ utf8_fromunicode (us ! k)"
    "length (utf8_encode (take (Suc k) us)) \<le> length (utf8_encode us)"
    using t by simp_all
  moreover have "0 < length (utf8_encode (take (Suc k) us))" using t fromunicode_len [of "us ! k"] by auto
  ultimately have "utf8_prev_len (utf8_encode us) (length (utf8_encode (take (Suc k) us)))
      (length (utf8_encode (take (Suc k) us))) = Some (length (utf8_fromunicode (us ! k)))"
    using prev_len_encode t by simp
  then show ?thesis
    using strlen_loop_encode [of 0 "utf8_encode us" us "[]" 0]
      index_loop_encode [of 0 "utf8_encode us" us "[]" k] index_loop_encode [of 0 "utf8_encode us" us "[]" "Suc k"]
      assms t by (simp add: utf8_strlen_def utf8_index_def del: utf8_index_loop.simps)
qed

theorem utf8_string_functions_witness:
  "utf8_strlen (utf8_encode [0x41, 0xe9, 0x20ac]) 6 = Some 3 \<and>
   utf8_index (utf8_encode [0x41, 0xe9, 0x20ac]) 2 = Some 3"
  using utf8_string_functions [of 2 "[0x41, 0xe9, 0x20ac]"]
  by (simp add: utf8_fromunicode_def)

section \<open>Two corner cases\<close>

text \<open>Without a start byte in reach \<open>utf8_prev_len\<close> returns \<open>len\<close>, not \<open>-len\<close>.\<close>

lemma utf8_prev_len_no_start: "utf8_prev_len [0x80, 0x80] 2 2 = Some 2"
  by (simp add: utf8_prev_len_def)

text \<open>A byte length that ends inside a character makes \<open>utf8_strlen\<close> read behind the string.\<close>

lemma utf8_strlen_overrun: "utf8_strlen [0xc3, 0xa9] 1 = None"
proof -
  have t: "utf8_tounicode [0xc3, 0xa9] 0 = Some (0xe9, 2)" "utf8_tounicode [0xc3, 0xa9] 2 = Some (0, 1)"
    "utf8_tounicode [0xc3, 0xa9] 3 = None"
    by (simp_all add: utf8_tounicode_def rd_def)
  have "utf8_strlen_loop [0xc3, 0xa9] 3 (-2) 2 = None" by (subst utf8_strlen_loop.simps) (simp add: t)
  then have "utf8_strlen_loop [0xc3, 0xa9] 2 (-1) 1 = None"
    by (subst utf8_strlen_loop.simps) (simp add: t numeral_3_eq_3 [symmetric])
  then have "utf8_strlen_loop [0xc3, 0xa9] 0 1 0 = None" by (subst utf8_strlen_loop.simps) (simp add: t)
  then show ?thesis by (simp add: utf8_strlen_def)
qed

end
