(* ===== verification/Jim_String.thy ===== *)
theory Jim_String
  imports Jim_Utf8
begin

text \<open>
  String functions of the Jim interpreter (\<open>src/test2/jim.c\<close>): glob matching, comparison, search,
  the check after a numeric conversion and integer powers. The upper-case mapping, which reads a
  table generated by the build, is the argument \<open>upper\<close>. A string is its bytes followed by a
  terminator, a pointer an index; \<open>None\<close> is an access behind the terminator.
\<close>

section \<open>Characters and sets of characters\<close>

definition utf8_tounicode_case :: "(u32 \<Rightarrow> u32) \<Rightarrow> byte list \<Rightarrow> nat \<Rightarrow> bool \<Rightarrow> (u32 \<times> nat) option" where
  "utf8_tounicode_case upper s i up = do {
     (c, l) \<leftarrow> utf8_tounicode s i;
     Some (if up then upper c else c, l)
   }"

lemma utf8_tounicode_case_len: "utf8_tounicode_case upper s i up = Some (c, l) \<Longrightarrow> 1 \<le> l \<and> i \<le> length s"
  by (auto simp: utf8_tounicode_case_def split: bind_splits dest!: utf8_tounicode_len)

text \<open>Code points are of type \<open>int\<close>: they compare as signed numbers.\<close>

fun in_range :: "u32 \<Rightarrow> u32 \<times> u32 \<Rightarrow> bool" where
  "in_range c (start, end) \<longleftrightarrow> sint start \<le> sint c \<and> sint c \<le> sint end \<or> sint end \<le> sint c \<and> sint c \<le> sint start"

text \<open>
  The loop over a set: \<open>at_first\<close> is the jump to \<open>first\<close>, which takes the next character even when
  it is a bracket. The result is where it stops and whether the character was found.
\<close>

function charset_loop :: "(u32 \<Rightarrow> u32) \<Rightarrow> byte list \<Rightarrow> u32 \<Rightarrow> bool \<Rightarrow> nat \<Rightarrow> bool \<Rightarrow> bool \<Rightarrow> (nat \<times> bool) option" where
  "charset_loop upper pattern c nocase i at_first match = do {
     p0 \<leftarrow> rd pattern i;
     if \<not> at_first \<and> (p0 = 0 \<or> p0 = c_rbrack) then Some (i, match)
     else if at_first \<or> p0 = c_bslash then do {
       (pchar, l) \<leftarrow> utf8_tounicode_case upper pattern i nocase;
       charset_loop upper pattern c nocase (i + l) False (match \<or> pchar = c)
     }
     else do {
       (start, l) \<leftarrow> utf8_tounicode_case upper pattern i nocase;
       q0 \<leftarrow> rd pattern (i + l);
       q1 \<leftarrow> (if q0 = c_minus then rd pattern (i + l + 1) else Some 0);
       if q0 = c_minus \<and> q1 \<noteq> 0 then do {
         (_, l2) \<leftarrow> utf8_tounicode pattern (i + l);
         (end, l3) \<leftarrow> utf8_tounicode_case upper pattern (i + l + l2) nocase;
         charset_loop upper pattern c nocase (i + l + l2 + l3) False
           (match \<or> in_range c (start, end))
       }
       else charset_loop upper pattern c nocase (i + l) False (match \<or> start = c)
     }
   }"
  by pat_completeness auto
termination
  by (relation "measure (\<lambda>(upper, pattern, c, nocase, i, at_first, match). Suc (length pattern) - i)")
    (auto dest!: utf8_tounicode_case_len utf8_tounicode_len)

declare charset_loop.simps [simp del]

text \<open>The index of the closing bracket (or the terminator) on a match.\<close>

definition JimCharsetMatch :: "(u32 \<Rightarrow> u32) \<Rightarrow> byte list \<Rightarrow> nat \<Rightarrow> u32 \<Rightarrow> bool \<Rightarrow> bool \<Rightarrow> nat option option" where
  "JimCharsetMatch upper pattern i c nocase scan = do {
     let c = (if nocase then upper c else c);
     p0 \<leftarrow> (if scan then rd pattern i else Some 0);
     let neg = (scan \<and> p0 = c_caret);
     let i = (if neg then i + 1 else i);
     p1 \<leftarrow> (if scan then rd pattern i else Some 0);
     (j, match) \<leftarrow> charset_loop upper pattern c nocase i (scan \<and> p1 = c_rbrack) False;
     Some (if match \<noteq> neg then Some j else None)
   }"

section \<open>Glob matching\<close>

function skip_stars :: "byte list \<Rightarrow> nat \<Rightarrow> nat option" where
  "skip_stars pattern p = do {
     c \<leftarrow> rd pattern p;
     if c = c_star then skip_stars pattern (p + 1) else Some p
   }"
  by pat_completeness auto
termination
  by (relation "measure (\<lambda>(pattern, p). Suc (length pattern) - p)") (auto dest: rd_SomeD)

declare skip_stars.simps [simp del]

text \<open>One character of the string against the pattern at \<open>p\<close>.\<close>

datatype glob_step = No_match | Ran_out nat nat | Matched nat nat

definition glob_char :: "(u32 \<Rightarrow> u32) \<Rightarrow> byte list \<Rightarrow> byte list \<Rightarrow> bool \<Rightarrow> nat \<Rightarrow> nat \<Rightarrow> glob_step option" where
  "glob_char upper pattern string nocase p t = do {
     p0 \<leftarrow> rd pattern p;
     if p0 = c_qmark then do {
       (_, l) \<leftarrow> utf8_tounicode string t;
       Some (Matched p (t + l))
     }
     else if p0 = c_lbrack then do {
       (c, l) \<leftarrow> utf8_tounicode string t;
       r \<leftarrow> JimCharsetMatch upper pattern (p + 1) c nocase False;
       case r of None \<Rightarrow> Some No_match
       | Some q \<Rightarrow> do {
           q0 \<leftarrow> rd pattern q;
           Some (if q0 = 0 then Ran_out q (t + l) else Matched q (t + l))
         }
     }
     else do {
       p1 \<leftarrow> (if p0 = c_bslash then rd pattern (p + 1) else Some 0);
       let p = (if p0 = c_bslash \<and> p1 \<noteq> 0 then p + 1 else p);
       (c, l) \<leftarrow> utf8_tounicode_case upper string t nocase;
       (pchar, _) \<leftarrow> utf8_tounicode_case upper pattern p nocase;
       Some (if pchar \<noteq> c then No_match else Matched p (t + l))
     }
   }"

lemma charset_loop_ge:
  "charset_loop upper pattern c nocase i f m = Some (j, b) \<Longrightarrow> i \<le> j"
proof (induction "Suc (length pattern) - i" arbitrary: i f m rule: less_induct)
  case less
  have step: "i \<le> j" if "charset_loop upper pattern c nocase (i + l) f' m' = Some (j, b)" "1 \<le> l" "i \<le> length pattern"
    for l f' m'
  proof -
    have "Suc (length pattern) - (i + l) < Suc (length pattern) - i" using that(2,3) by simp
    from less.hyps [OF this that(1)] show ?thesis by simp
  qed
  note run = less.prems [unfolded charset_loop.simps [of upper pattern c nocase i f m]]
  then obtain p0 where p0: "rd pattern i = Some p0" by (cases "rd pattern i") simp_all
  then have i: "i \<le> length pattern" by (rule rd_SomeD)
  show ?case
  proof (cases "\<not> f \<and> (p0 = 0 \<or> p0 = c_rbrack)")
    case True
    with run p0 show ?thesis by simp
  next
    case set: False
    then have "utf8_tounicode_case upper pattern i nocase \<noteq> None"
      using run p0 by (intro notI) (auto split: if_splits)
    then obtain start l where u: "utf8_tounicode_case upper pattern i nocase = Some (start, l)" by auto
    then have l: "1 \<le> l" using utf8_tounicode_case_len by blast
    show ?thesis
    proof (cases "f \<or> p0 = c_bslash")
      case True
      with run p0 u set have "charset_loop upper pattern c nocase (i + l) False (m \<or> start = c) = Some (j, b)" by auto
      from step [OF this l i] show ?thesis .
    next
      case False
      with run p0 u set obtain k f' m' where "charset_loop upper pattern c nocase (i + (l + k)) f' m' = Some (j, b)"
        apply (auto split: bind_splits if_splits prod.splits simp: add.assoc)
        apply (metis add_0_right)+
        done
      from step [OF this _ i] l show ?thesis by simp
    qed
  qed
qed

lemma JimCharsetMatch_ge: "JimCharsetMatch upper pattern i c nocase scan = Some (Some j) \<Longrightarrow> i \<le> j"
  by (auto simp: JimCharsetMatch_def Let_def split: if_splits bind_splits prod.splits dest!: charset_loop_ge)

lemma glob_char_bounds:
  "glob_char upper pattern string nocase p t = Some (Matched p' t') \<Longrightarrow> p \<le> p'"
  "glob_char upper pattern string nocase p t = Some (Ran_out p' t') \<Longrightarrow> p < p'"
  by (auto simp: glob_char_def Let_def split: if_splits bind_splits option.splits prod.splits dest!: JimCharsetMatch_ge)

lemma skip_stars_ge: "skip_stars pattern p = Some q \<Longrightarrow> p \<le> q"
  by (induction pattern p rule: skip_stars.induct, subst (asm) (2) skip_stars.simps)
    (fastforce split: if_splits bind_splits)

lemma skip_stars_gt: "skip_stars pattern p = Some q \<Longrightarrow> rd pattern p = Some c_star \<Longrightarrow> p < q"
  using skip_stars_ge [of pattern "p + 1" q] by (simp add: skip_stars.simps [of pattern p])

text \<open>The test behind the loop.\<close>

definition glob_end :: "byte list \<Rightarrow> nat \<Rightarrow> byte list \<Rightarrow> nat \<Rightarrow> bool option" where
  "glob_end pattern p string t = do {
     p0 \<leftarrow> rd pattern p;
     c \<leftarrow> (if p0 = 0 then rd string t else Some 0);
     Some (p0 = 0 \<and> c = 0)
   }"

text \<open>
  The loop over the pattern and the loop over the string behind an asterisk, which tries the rest
  of the pattern at every character left.
\<close>

function glob_loop :: "(u32 \<Rightarrow> u32) \<Rightarrow> byte list \<Rightarrow> byte list \<Rightarrow> bool \<Rightarrow> nat \<Rightarrow> nat \<Rightarrow> bool option"
  and star_loop :: "(u32 \<Rightarrow> u32) \<Rightarrow> byte list \<Rightarrow> byte list \<Rightarrow> bool \<Rightarrow> nat \<Rightarrow> nat \<Rightarrow> bool option" where
  "glob_loop upper pattern string nocase p t = do {
     p0 \<leftarrow> rd pattern p;
     if p0 = 0 then glob_end pattern p string t
     else if p0 = c_star then do {
       q \<leftarrow> skip_stars pattern p;
       q0 \<leftarrow> rd pattern q;
       if q0 = 0 then Some True else star_loop upper pattern string nocase q t
     }
     else do {
       r \<leftarrow> glob_char upper pattern string nocase p t;
       case r of No_match \<Rightarrow> Some False
       | Ran_out q t' \<Rightarrow> glob_loop upper pattern string nocase q t'
       | Matched q t' \<Rightarrow> do {
           (_, l) \<leftarrow> utf8_tounicode_case upper pattern q nocase;
           c \<leftarrow> rd string t';
           if c = 0 then do {
             q' \<leftarrow> skip_stars pattern (q + l);
             glob_end pattern q' string t'
           }
           else glob_loop upper pattern string nocase (q + l) t'
         }
     }
   }"
| "star_loop upper pattern string nocase q t = do {
     c \<leftarrow> rd string t;
     if c = 0 then Some False
     else do {
       found \<leftarrow> glob_loop upper pattern string nocase q t;
       if found then Some True
       else do {
         (_, l) \<leftarrow> utf8_tounicode string t;
         star_loop upper pattern string nocase q (t + l)
       }
     }
   }"
  by pat_completeness auto
termination
  by (relation "inv_image (less_than <*lex*> less_than <*lex*> less_than)
      (case_sum (\<lambda>(upper, pattern, string, nocase, p, t). (Suc (length pattern) - p, Suc (length string) - t, 0::nat))
        (\<lambda>(upper, pattern, string, nocase, p, t). (Suc (length pattern) - p, Suc (length string) - t, 1)))")
    (auto dest: rd_SomeD dest!: skip_stars_gt glob_char_bounds utf8_tounicode_case_len utf8_tounicode_len)

declare glob_loop.simps [simp del] star_loop.simps [simp del]

definition GlobMatch :: "(u32 \<Rightarrow> u32) \<Rightarrow> byte list \<Rightarrow> byte list \<Rightarrow> bool \<Rightarrow> bool option" where
  "GlobMatch upper pattern string nocase = glob_loop upper pattern string nocase 0 0"

text \<open>A question mark against the empty string reads behind the terminator.\<close>

lemma question_mark_overrun: "GlobMatch id [c_qmark] [] False = None"
  by code_simp

section \<open>What a glob pattern means\<close>

text \<open>
  A pattern is a list of items and a string a list of characters, both in upper case when case is
  ignored; a set is a list of ranges and matches a character in one of them.
\<close>

datatype glob_item = Any_String | Any_Char | Char_Set "(u32 \<times> u32) list" | Exact u32

fun item_matches :: "glob_item \<Rightarrow> u32 \<Rightarrow> bool" where
  "item_matches Any_String c = False"
| "item_matches Any_Char c = True"
| "item_matches (Char_Set rs) c = list_ex (in_range c) rs"
| "item_matches (Exact a) c = (a = c)"

fun glob_spec :: "glob_item list \<Rightarrow> u32 list \<Rightarrow> bool" where
  "glob_spec [] cs = (cs = [])"
| "glob_spec (Any_String # items) [] = glob_spec items []"
| "glob_spec (Any_String # items) (c # cs) = (glob_spec items (c # cs) \<or> glob_spec (Any_String # items) cs)"
| "glob_spec (item # items) [] = False"
| "glob_spec (item # items) (c # cs) = (item_matches item c \<and> glob_spec items cs)"

lemma glob_spec_item:
  "item \<noteq> Any_String \<Longrightarrow> glob_spec (item # items) (c # cs) = (item_matches item c \<and> glob_spec items cs)"
  "item \<noteq> Any_String \<Longrightarrow> \<not> glob_spec (item # items) []"
  by (cases item; simp)+

lemma glob_spec_stars: "glob_spec (Any_String # Any_String # items) cs = glob_spec (Any_String # items) cs"
  by (induction cs) auto

lemma glob_spec_any [simp]: "glob_spec [Any_String] cs"
  by (induction cs) auto

text \<open>Reading the characters of a string and the items of a pattern.\<close>

function glob_chars :: "(u32 \<Rightarrow> u32) \<Rightarrow> byte list \<Rightarrow> bool \<Rightarrow> nat \<Rightarrow> u32 list option" where
  "glob_chars upper string nocase t = (if t < length string then do {
       (c, l) \<leftarrow> utf8_tounicode_case upper string t nocase;
       cs \<leftarrow> glob_chars upper string nocase (t + l);
       Some (c # cs)
     } else Some [])"
  by pat_completeness auto
termination
  by (relation "measure (\<lambda>(upper, string, nocase, t). length string - t)")
    (auto dest!: utf8_tounicode_case_len)

declare glob_chars.simps [simp del]

text \<open>One element of a set: its bounds and where it ends.\<close>

definition set_element :: "(u32 \<Rightarrow> u32) \<Rightarrow> byte list \<Rightarrow> bool \<Rightarrow> nat \<Rightarrow> ((u32 \<times> u32) \<times> nat) option" where
  "set_element upper pattern nocase i = do {
     p0 \<leftarrow> rd pattern i;
     (start, l) \<leftarrow> utf8_tounicode_case upper pattern i nocase;
     q0 \<leftarrow> rd pattern (i + l);
     q1 \<leftarrow> (if q0 = c_minus then rd pattern (i + l + 1) else Some 0);
     if p0 \<noteq> c_bslash \<and> q0 = c_minus \<and> q1 \<noteq> 0 then do {
       (end, l') \<leftarrow> utf8_tounicode_case upper pattern (i + l + 1) nocase;
       Some ((start, end), i + l + 1 + l')
     }
     else Some ((start, start), i + l)
   }"

function set_ranges :: "(u32 \<Rightarrow> u32) \<Rightarrow> byte list \<Rightarrow> bool \<Rightarrow> nat \<Rightarrow> ((u32 \<times> u32) list \<times> nat) option" where
  "set_ranges upper pattern nocase i = do {
     p0 \<leftarrow> rd pattern i;
     if p0 = 0 \<or> p0 = c_rbrack then Some ([], i)
     else do {
       (r, i') \<leftarrow> set_element upper pattern nocase i;
       (rs, j) \<leftarrow> set_ranges upper pattern nocase i';
       Some (r # rs, j)
     }
   }"
  by pat_completeness auto
termination
  by (relation "measure (\<lambda>(upper, pattern, nocase, i). Suc (length pattern) - i)")
    (auto simp: set_element_def split: bind_splits if_splits prod.splits dest!: utf8_tounicode_case_len)

declare set_ranges.simps [simp del]

text \<open>The item at an index and the index behind it.\<close>

definition glob_item_at :: "(u32 \<Rightarrow> u32) \<Rightarrow> byte list \<Rightarrow> bool \<Rightarrow> nat \<Rightarrow> (glob_item \<times> nat) option" where
  "glob_item_at upper pattern nocase p = do {
     p0 \<leftarrow> rd pattern p;
     if p0 = c_star then Some (Any_String, p + 1)
     else if p0 = c_qmark then Some (Any_Char, p + 1)
     else if p0 = c_lbrack then do {
       (rs, j) \<leftarrow> set_ranges upper pattern nocase (p + 1);
       Some (Char_Set rs, if j < length pattern then j + 1 else j)
     }
     else do {
       let p = (if p0 = c_bslash \<and> p + 1 < length pattern then p + 1 else p);
       (a, l) \<leftarrow> utf8_tounicode_case upper pattern p nocase;
       Some (Exact a, p + l)
     }
   }"

lemma set_ranges_ge: "set_ranges upper pattern nocase i = Some (rs, j) \<Longrightarrow> i \<le> j"
proof (induction upper pattern nocase i arbitrary: rs j rule: set_ranges.induct)
  case (1 upper pattern nocase i)
  from 1(2) obtain p0 where p0: "rd pattern i = Some p0"
    by (cases "rd pattern i") (simp_all add: set_ranges.simps [of upper pattern nocase i])
  show ?case
  proof (cases "p0 = 0 \<or> p0 = c_rbrack")
    case True
    with 1(2) p0 show ?thesis by (simp add: set_ranges.simps [of upper pattern nocase i])
  next
    case False
    with 1(2) p0 obtain r i' rs' where e: "set_element upper pattern nocase i = Some (r, i')"
        "set_ranges upper pattern nocase i' = Some (rs', j)"
      by (auto simp: set_ranges.simps [of upper pattern nocase i] split: bind_splits)
    from 1(1) [OF p0 False e(1) refl e(2)] e(1) show ?thesis
      by (auto simp: set_element_def split: bind_splits if_splits prod.splits dest!: utf8_tounicode_case_len)
  qed
qed

lemma glob_item_at_gt: "glob_item_at upper pattern nocase p = Some (item, p') \<Longrightarrow> p < p'"
  by (auto simp: glob_item_at_def Let_def split: bind_splits if_splits prod.splits
      dest!: utf8_tounicode_case_len set_ranges_ge)

function glob_items :: "(u32 \<Rightarrow> u32) \<Rightarrow> byte list \<Rightarrow> bool \<Rightarrow> nat \<Rightarrow> glob_item list option" where
  "glob_items upper pattern nocase p = (if p < length pattern then do {
       (item, p') \<leftarrow> glob_item_at upper pattern nocase p;
       items \<leftarrow> glob_items upper pattern nocase p';
       Some (item # items)
     } else Some [])"
  by pat_completeness auto
termination
  by (relation "measure (\<lambda>(upper, pattern, nocase, p). length pattern - p)") (auto dest!: glob_item_at_gt)

declare glob_items.simps [simp del]

section \<open>The matcher implements the meaning\<close>

lemma tounicode_in:
  assumes "i < length s"
  shows "\<exists>c l. utf8_tounicode s i = Some (c, l) \<and> 1 \<le> l \<and> i + l \<le> length s"
proof -
  obtain b where b: "rd s (i + 1) = Some b" using rd_le [of "i + 1" s] assms by auto
  have b0: "i + 1 < length s" if "b AND 0xc0 = 0x80"
  proof -
    have "b \<noteq> 0" using that by (intro notI) simp
    with b show ?thesis using rd_nonzeroD by blast
  qed
  have two: "\<exists>d. rd s (i + 2) = Some d \<and> (d AND 0xc0 = 0x80 \<longrightarrow> i + 2 < length s)" if cont: "b AND 0xc0 = 0x80"
  proof -
    obtain d where d: "rd s (i + 2) = Some d" using rd_le [of "i + 2" s] b0 [OF cont] by auto
    moreover have "i + 2 < length s" if "d AND 0xc0 = 0x80"
    proof -
      have "d \<noteq> 0" using that by (intro notI) simp
      with d show ?thesis using rd_nonzeroD by blast
    qed
    ultimately show ?thesis by blast
  qed
  show ?thesis
  proof (cases "b AND 0xc0 = 0x80")
    case True
    with two obtain d where "rd s (i + 2) = Some d" "d AND 0xc0 = 0x80 \<longrightarrow> i + 2 < length s" by blast
    with True assms b b0 show ?thesis by (auto simp: utf8_tounicode_def)
  next
    case False
    with assms b show ?thesis by (auto simp: utf8_tounicode_def)
  qed
qed

lemma tounicode_case_in:
  assumes "i < length s"
  obtains c l where "utf8_tounicode s i = Some (c, l)"
    "utf8_tounicode_case upper s i nocase = Some (if nocase then upper c else c, l)" "1 \<le> l" "i + l \<le> length s"
  using tounicode_in [OF assms] by (auto simp: utf8_tounicode_case_def)

lemma tounicode_ascii: "rd s i = Some c \<Longrightarrow> c < 0x80 \<Longrightarrow> utf8_tounicode s i = Some (ucast c, 1)"
  by (simp add: utf8_tounicode_def word_less_nat_alt)

lemma in_range_same [simp]: "in_range c (a, a) \<longleftrightarrow> a = c"
  unfolding in_range.simps by (metis order.antisym order_refl signed_word_eqI)

declare in_range.simps [simp del]

lemma charset_loop_ranges:
  "set_ranges upper pattern nocase i = Some (rs, j) \<Longrightarrow>
    charset_loop upper pattern c nocase i False m = Some (j, m \<or> list_ex (in_range c) rs)"
proof (induction upper pattern nocase i arbitrary: rs j m rule: set_ranges.induct)
  case (1 upper pattern nocase i)
  from 1(2) obtain p0 where p0: "rd pattern i = Some p0"
    by (cases "rd pattern i") (simp_all add: set_ranges.simps [of upper pattern nocase i])
  note un = charset_loop.simps [of upper pattern c nocase i False m]
  show ?case
  proof (cases "p0 = 0 \<or> p0 = c_rbrack")
    case True
    with 1(2) p0 have "rs = []" "j = i" by (auto simp: set_ranges.simps [of upper pattern nocase i])
    with True p0 show ?thesis by (simp add: un)
  next
    case False
    with 1(2) p0 obtain r i' rs' where e: "set_element upper pattern nocase i = Some (r, i')"
        "set_ranges upper pattern nocase i' = Some (rs', j)" "rs = r # rs'"
      by (auto simp: set_ranges.simps [of upper pattern nocase i] split: bind_splits)
    have IH: "charset_loop upper pattern c nocase i' False m' = Some (j, m' \<or> list_ex (in_range c) rs')" for m'
      using 1(1) [OF p0 False e(1) refl e(2)] .
    from e(1) obtain start l q0 q1 where u: "utf8_tounicode_case upper pattern i nocase = Some (start, l)"
      "rd pattern (i + l) = Some q0" "(if q0 = c_minus then rd pattern (i + l + 1) else Some 0) = Some q1"
      by (auto simp: set_element_def split: bind_splits)
    show ?thesis
    proof (cases "p0 \<noteq> c_bslash \<and> q0 = c_minus \<and> q1 \<noteq> 0")
      case range: True
      then have minus: "utf8_tounicode pattern (i + l) = Some (0x2d, 1)"
        using tounicode_ascii [OF u(2)] by simp
      from range e(1) u p0 obtain "end" l' where
        "utf8_tounicode_case upper pattern (i + l + 1) nocase = Some (end, l')" "r = (start, end)" "i' = i + l + 1 + l'"
        by (auto simp: set_element_def split: bind_splits)
      with range False p0 u minus IH e(3) show ?thesis by (simp add: un disj_assoc)
    next
      case exact: False
      with e(1) u p0 have r: "r = (start, start)" "i' = i + l" by (auto simp: set_element_def split: if_splits)
      show ?thesis
      proof (cases "p0 = c_bslash")
        case True
        with False p0 u(1) IH e(3) r show ?thesis by (simp add: un disj_assoc)
      next
        case ne: False
        with exact have "\<not> (q0 = c_minus \<and> q1 \<noteq> 0)" by simp
        with ne False p0 u IH e(3) r show ?thesis by (auto simp: un disj_assoc)
      qed
    qed
  qed
qed

lemma set_element_ok:
  assumes "i < length pattern"
  shows "\<exists>r i'. set_element upper pattern nocase i = Some (r, i') \<and> i < i' \<and> i' \<le> length pattern"
proof -
  obtain start l where u: "utf8_tounicode_case upper pattern i nocase = Some (start, l)" "1 \<le> l" "i + l \<le> length pattern"
    using tounicode_case_in [OF assms] by metis
  obtain q0 where q0: "rd pattern (i + l) = Some q0" using rd_le [OF u(3)] by blast
  have lt: "i + l < length pattern" if "q0 = c_minus" using q0 that rd_nonzeroD by fastforce
  then obtain q1 where q1: "(if q0 = c_minus then rd pattern (i + l + 1) else Some 0) = Some q1"
    using rd_le [of "i + l + 1" pattern] by (cases "q0 = c_minus") auto
  show ?thesis
  proof (cases "pattern ! i \<noteq> c_bslash \<and> q0 = c_minus \<and> q1 \<noteq> 0")
    case True
    with q1 have "i + l + 1 < length pattern" using rd_nonzeroD by auto
    then obtain c l' where "utf8_tounicode_case upper pattern (i + l + 1) nocase = Some (c, l')" "1 \<le> l'"
      "i + l + 1 + l' \<le> length pattern" using tounicode_case_in by metis
    with True assms u q0 q1 show ?thesis by (simp add: set_element_def)
  next
    case False
    with assms u q0 q1 show ?thesis by (auto simp: set_element_def split: if_splits)
  qed
qed

lemma set_ranges_ok:
  assumes "0 \<notin> set pattern" and "i \<le> length pattern"
  shows "\<exists>rs j. set_ranges upper pattern nocase i = Some (rs, j) \<and> i \<le> j \<and> j \<le> length pattern \<and>
    (j < length pattern \<longrightarrow> pattern ! j = c_rbrack)"
  using assms(2)
proof (induction "length pattern - i" arbitrary: i rule: less_induct)
  case less
  show ?case
  proof (cases "i < length pattern \<and> pattern ! i \<noteq> c_rbrack")
    case False
    then have "rd pattern i = Some 0 \<or> rd pattern i = Some c_rbrack"
      using less.prems by (cases "i = length pattern") auto
    then have "set_ranges upper pattern nocase i = Some ([], i)"
      by (auto simp: set_ranges.simps [of upper pattern nocase i])
    then show ?thesis using False less.prems by auto
  next
    case True
    then obtain r i' where e: "set_element upper pattern nocase i = Some (r, i')" "i < i'" "i' \<le> length pattern"
      using set_element_ok by blast
    with less.hyps [of i'] True obtain rs j where "set_ranges upper pattern nocase i' = Some (rs, j)" "i' \<le> j" "j \<le> length pattern"
      "j < length pattern \<longrightarrow> pattern ! j = c_rbrack" by (auto simp: diff_less_mono2)
    moreover have "pattern ! i \<noteq> 0" using assms(1) True by (metis nth_mem)
    ultimately show ?thesis using e True by (simp add: set_ranges.simps [of upper pattern nocase i])
  qed
qed

text \<open>What one item of the pattern does with the first character of the string.\<close>

definition item_step :: "(u32 \<Rightarrow> u32) \<Rightarrow> byte list \<Rightarrow> bool \<Rightarrow> nat \<Rightarrow> bool \<Rightarrow> glob_step option \<Rightarrow> nat \<Rightarrow> bool" where
  "item_step upper pattern nocase p' matches r t' \<longleftrightarrow>
     (if \<not> matches then r = Some No_match
      else r = Some (Ran_out p' t') \<and> p' = length pattern \<or>
        (\<exists>q a l. r = Some (Matched q t') \<and> utf8_tounicode_case upper pattern q nocase = Some (a, l) \<and> p' = q + l))"

lemma glob_char_item:
  assumes "0 \<notin> set pattern" and p: "p < length pattern" "pattern ! p \<noteq> c_star"
    and t: "utf8_tounicode string t = Some (c, l)"
  shows "\<exists>item p'. glob_item_at upper pattern nocase p = Some (item, p') \<and> item \<noteq> Any_String \<and> p < p' \<and> p' \<le> length pattern \<and>
    item_step upper pattern nocase p' (item_matches item (if nocase then upper c else c))
      (glob_char upper pattern string nocase p t) (t + l)"
proof -
  have tc: "utf8_tounicode_case upper string t nocase = Some (if nocase then upper c else c, l)"
    using t by (simp add: utf8_tounicode_case_def)
  have p0: "rd pattern p = Some (pattern ! p)" using p(1) by simp
  consider (any) "pattern ! p = c_qmark" | (set) "pattern ! p = c_lbrack"
    | (char) "pattern ! p \<noteq> c_qmark" "pattern ! p \<noteq> c_lbrack" by blast
  then show ?thesis
  proof cases
    case any
    then have "utf8_tounicode_case upper pattern p nocase = Some (if nocase then upper 0x3f else 0x3f, 1)"
      using tounicode_ascii [OF p0] by (simp add: utf8_tounicode_case_def)
    with any p t show ?thesis by (auto simp: glob_item_at_def glob_char_def item_step_def)
  next
    case set
    obtain rs j where rs: "set_ranges upper pattern nocase (p + 1) = Some (rs, j)" "p + 1 \<le> j" "j \<le> length pattern"
      "j < length pattern \<longrightarrow> pattern ! j = c_rbrack" using set_ranges_ok [OF assms(1)] p(1) by (metis Suc_eq_plus1 Suc_leI)
    have m: "JimCharsetMatch upper pattern (p + 1) c nocase False =
        Some (if list_ex (in_range (if nocase then upper c else c)) rs then Some j else None)"
      using charset_loop_ranges [OF rs(1), of "if nocase then upper c else c" False] by (simp add: JimCharsetMatch_def Let_def)
    have it: "glob_item_at upper pattern nocase p = Some (Char_Set rs, if j < length pattern then j + 1 else j)"
      using p set rs by (simp add: glob_item_at_def)
    show ?thesis
    proof (cases "j < length pattern")
      case True
      then have j: "rd pattern j = Some c_rbrack" using rs(4) by simp
      then have "utf8_tounicode_case upper pattern j nocase = Some (if nocase then upper 0x5d else 0x5d, 1)"
        using tounicode_ascii [OF j] by (simp add: utf8_tounicode_case_def)
      with True j it m rs p set t show ?thesis by (simp add: glob_char_def item_step_def)
    next
      case False
      then have "rd pattern j = Some 0" "j = length pattern" using rs(3) by simp_all
      with it m rs p set t show ?thesis by (simp add: glob_char_def item_step_def)
    qed
  next
    case char
    define b where "b = (pattern ! p = c_bslash \<and> p + 1 < length pattern)"
    have nz: "pattern ! (p + 1) \<noteq> 0" if "p + 1 < length pattern" using assms(1) that by (metis nth_mem)
    define q where "q = (if b then p + 1 else p)"
    have "q < length pattern" using p(1) by (simp add: q_def b_def)
    then obtain a l' where a: "utf8_tounicode_case upper pattern q nocase = Some (a, l')" "1 \<le> l'" "q + l' \<le> length pattern"
      using tounicode_case_in by metis
    have it: "glob_item_at upper pattern nocase p = Some (Exact a, q + l')"
      using p char a(1) by (simp add: glob_item_at_def q_def b_def Let_def)
    have end0: "rd pattern (p + 1) = Some 0" if "\<not> p + 1 < length pattern"
    proof -
      have "p + 1 = length pattern" using that p(1) by simp
      then show ?thesis using rd_end by metis
    qed
    have "glob_char upper pattern string nocase p t =
        Some (if a \<noteq> (if nocase then upper c else c) then No_match else Matched q (t + l))"
      using p char a(1) tc nz end0 by (auto simp: glob_char_def q_def b_def Let_def)
    with it a p(1) show ?thesis by (auto simp: item_step_def q_def)
  qed
qed

lemma glob_chars_step:
  assumes "t < length string"
  obtains c l cs where "utf8_tounicode string t = Some (c, l)" "1 \<le> l" "t + l \<le> length string"
    "glob_chars upper string nocase (t + l) = Some cs"
    "glob_chars upper string nocase t = Some ((if nocase then upper c else c) # cs)"
proof -
  have total: "\<exists>cs. glob_chars upper string nocase t = Some cs" if "t \<le> length string" for t
    using that
  proof (induction "length string - t" arbitrary: t rule: less_induct)
    case less
    show ?case
    proof (cases "t < length string")
      case True
      then obtain c l where "utf8_tounicode_case upper string t nocase = Some (c, l)" "1 \<le> l" "t + l \<le> length string"
        using tounicode_case_in by metis
      moreover from this have "length string - (t + l) < length string - t" using True by arith
      ultimately show ?thesis
        using True less.hyps [of "t + l"] by (auto simp: glob_chars.simps [of upper string nocase t])
    qed (simp add: glob_chars.simps [of upper string nocase t])
  qed
  obtain c l where u: "utf8_tounicode string t = Some (c, l)" "1 \<le> l" "t + l \<le> length string"
    "utf8_tounicode_case upper string t nocase = Some (if nocase then upper c else c, l)"
    using tounicode_case_in [OF assms] by metis
  moreover obtain cs where "glob_chars upper string nocase (t + l) = Some cs" using total [OF u(3)] by blast
  ultimately show thesis using assms that by (simp add: glob_chars.simps [of upper string nocase t])
qed

lemma glob_chars_end [simp]: "glob_chars upper string nocase (length string) = Some []"
  by (simp add: glob_chars.simps)

lemma glob_items_end [simp]: "glob_items upper pattern nocase (length pattern) = Some []"
  by (simp add: glob_items.simps)

lemma glob_items_star:
  "p < length pattern \<Longrightarrow> pattern ! p = c_star \<Longrightarrow>
    glob_items upper pattern nocase p = map_option ((#) Any_String) (glob_items upper pattern nocase (p + 1))"
  by (cases "glob_items upper pattern nocase (p + 1)")
    (simp_all add: glob_items.simps [of upper pattern nocase p] glob_item_at_def)

lemma skip_stars_ok:
  assumes "p \<le> length pattern"
  shows "\<exists>q. skip_stars pattern p = Some q \<and> p \<le> q \<and> q \<le> length pattern \<and> (q < length pattern \<longrightarrow> pattern ! q \<noteq> c_star) \<and>
    (\<forall>js. glob_items upper pattern nocase q = Some js \<longrightarrow>
      (\<exists>items. glob_items upper pattern nocase p = Some items \<and> glob_spec items [] = glob_spec js [] \<and>
        (\<forall>cs. glob_spec (Any_String # items) cs = glob_spec (Any_String # js) cs)))"
  using assms
proof (induction "length pattern - p" arbitrary: p rule: less_induct)
  case less
  show ?case
  proof (cases "p < length pattern \<and> pattern ! p = c_star")
    case True
    then have "p + 1 \<le> length pattern" "length pattern - (p + 1) < length pattern - p" by arith+
    from less.hyps [OF this(2,1)] obtain q where q: "skip_stars pattern (p + 1) = Some q" "p + 1 \<le> q" "q \<le> length pattern"
      "q < length pattern \<longrightarrow> pattern ! q \<noteq> c_star"
      "\<forall>js. glob_items upper pattern nocase q = Some js \<longrightarrow>
        (\<exists>items. glob_items upper pattern nocase (p + 1) = Some items \<and> glob_spec items [] = glob_spec js [] \<and>
        (\<forall>cs. glob_spec (Any_String # items) cs = glob_spec (Any_String # js) cs))" by blast
    have "skip_stars pattern p = Some q" using True q(1) by (simp add: skip_stars.simps [of pattern p])
    moreover have "\<exists>items. glob_items upper pattern nocase p = Some items \<and> glob_spec items [] = glob_spec js [] \<and>
        (\<forall>cs. glob_spec (Any_String # items) cs = glob_spec (Any_String # js) cs)"
      if "glob_items upper pattern nocase q = Some js" for js
      using q(5) that glob_items_star [of p pattern upper nocase] True by (auto simp: glob_spec_stars)
    ultimately show ?thesis using q(2-4) by auto
  next
    case False
    then have "rd pattern p = Some 0 \<or> rd pattern p = Some (pattern ! p) \<and> pattern ! p \<noteq> c_star"
      using less.prems by (cases "p = length pattern") auto
    then have "skip_stars pattern p = Some p" by (auto simp: skip_stars.simps [of pattern p])
    with False less.prems show ?thesis by auto
  qed
qed

lemma star_loop_spec:
  assumes "0 \<notin> set string" and t: "t \<le> length string" and "items = item # rest" and "item \<noteq> Any_String"
    and loop: "\<And>t cs. t < length string \<Longrightarrow> glob_chars upper string nocase t = Some cs \<Longrightarrow>
      glob_loop upper pattern string nocase q t = Some (glob_spec items cs)"
    and "glob_chars upper string nocase t = Some cs"
  shows "star_loop upper pattern string nocase q t = Some (glob_spec (Any_String # items) cs)"
  using t assms(6)
proof (induction "length string - t" arbitrary: t cs rule: less_induct)
  case less
  note un = star_loop.simps [of upper pattern string nocase q t]
  show ?case
  proof (cases "t < length string")
    case True
    from glob_chars_step [OF this, of upper nocase] obtain c l cs' where c: "utf8_tounicode string t = Some (c, l)" "1 \<le> l"
      "t + l \<le> length string" "glob_chars upper string nocase (t + l) = Some cs'"
      "glob_chars upper string nocase t = Some ((if nocase then upper c else c) # cs')" .
    from less.hyps [OF _ c(3,4)] True c(2) have
      IH: "star_loop upper pattern string nocase q (t + l) = Some (glob_spec (Any_String # items) cs')" by simp
    have "string ! t \<noteq> 0" using assms(1) True by (metis nth_mem)
    with True IH c less.prems(2) loop [OF True c(5)] show ?thesis by (auto simp: un)
  next
    case False
    then have "t = length string" using less.prems(1) by simp
    then have "cs = []" "rd string t = Some 0" using less.prems(2) by simp_all
    then show ?thesis using assms(3,4) by (simp add: un glob_spec_item)
  qed
qed

lemma glob_item_total:
  assumes "0 \<notin> set pattern" and "p < length pattern" and "pattern ! p \<noteq> c_star"
  shows "\<exists>item p'. glob_item_at upper pattern nocase p = Some (item, p') \<and> item \<noteq> Any_String \<and> p < p' \<and> p' \<le> length pattern"
proof -
  have "utf8_tounicode [0] 0 = Some (0, 1)" by (simp add: utf8_tounicode_def)
  from glob_char_item [OF assms this] show ?thesis by blast
qed

text \<open>What the loop does with the result for one character.\<close>

definition after_char :: "(u32 \<Rightarrow> u32) \<Rightarrow> byte list \<Rightarrow> byte list \<Rightarrow> bool \<Rightarrow> glob_step \<Rightarrow> bool option" where
  "after_char upper pattern string nocase r = (case r of No_match \<Rightarrow> Some False
     | Ran_out q t' \<Rightarrow> glob_loop upper pattern string nocase q t'
     | Matched q t' \<Rightarrow> do {
         (_, l) \<leftarrow> utf8_tounicode_case upper pattern q nocase;
         c \<leftarrow> rd string t';
         if c = 0 then do {
           q' \<leftarrow> skip_stars pattern (q + l);
           glob_end pattern q' string t'
         }
         else glob_loop upper pattern string nocase (q + l) t'
       })"

lemma glob_items_total:
  assumes "0 \<notin> set pattern"
  shows "p \<le> length pattern \<Longrightarrow> \<exists>items. glob_items upper pattern nocase p = Some items"
proof (induction "length pattern - p" arbitrary: p rule: less_induct)
  case less
  show ?case
  proof (cases "p < length pattern")
    case True
    have "\<exists>item p'. glob_item_at upper pattern nocase p = Some (item, p') \<and> p < p' \<and> p' \<le> length pattern"
    proof (cases "pattern ! p = c_star")
      case True
      with \<open>p < length pattern\<close> show ?thesis by (simp add: glob_item_at_def)
    next
      case False
      with glob_item_total [OF assms True] show ?thesis by blast
    qed
    then obtain item p' where i: "glob_item_at upper pattern nocase p = Some (item, p')" "p < p'" "p' \<le> length pattern" by blast
    moreover have "length pattern - p' < length pattern - p" using i(2) True by arith
    ultimately show ?thesis
      using True less.hyps [of p'] by (auto simp: glob_items.simps [of upper pattern nocase p])
  qed (simp add: glob_items.simps [of upper pattern nocase p])
qed

lemma glob_items_nil:
  assumes "0 \<notin> set pattern" and "q \<le> length pattern" and "q < length pattern \<longrightarrow> pattern ! q \<noteq> c_star"
    and "glob_items upper pattern nocase q = Some js"
  shows "glob_spec js [] \<longleftrightarrow> q = length pattern"
proof (cases "q < length pattern")
  case True
  with glob_item_total [OF assms(1) True, of upper nocase] assms(3,4) obtain item rest where
    "js = item # rest" "item \<noteq> Any_String"
    by (auto simp: glob_items.simps [of upper pattern nocase q] split: bind_splits)
  with True show ?thesis by (simp add: glob_spec_item)
next
  case False
  with assms(2) have "q = length pattern" by simp
  with assms(4) show ?thesis by simp
qed

lemma after_char_spec:
  assumes "0 \<notin> set pattern" "0 \<notin> set string" and p': "p' \<le> length pattern"
    and js: "glob_items upper pattern nocase p' = Some js"
      "\<And>t cs. t < length string \<Longrightarrow> glob_chars upper string nocase t = Some cs \<Longrightarrow>
        glob_loop upper pattern string nocase p' t = Some (glob_spec js cs)"
    and t: "t' \<le> length string" "glob_chars upper string nocase t' = Some cs"
    and st: "item_step upper pattern nocase p' m r t'"
  shows "(case r of None \<Rightarrow> None | Some r \<Rightarrow> after_char upper pattern string nocase r) = Some (m \<and> glob_spec js cs)"
proof -
  have tail: "(if t' < length string then glob_loop upper pattern string nocase p' t'
      else do { q' \<leftarrow> skip_stars pattern p'; glob_end pattern q' string t' }) = Some (glob_spec js cs)"
  proof (cases "t' < length string")
    case True
    then show ?thesis using js(2) t(2) by simp
  next
    case False
    then have at_end: "t' = length string" "cs = []" using t by simp_all
    obtain q where q: "skip_stars pattern p' = Some q" "q \<le> length pattern" "q < length pattern \<longrightarrow> pattern ! q \<noteq> c_star"
      "\<forall>ks. glob_items upper pattern nocase q = Some ks \<longrightarrow>
        (\<exists>items. glob_items upper pattern nocase p' = Some items \<and> glob_spec items [] = glob_spec ks [])"
      using skip_stars_ok [OF p', of upper nocase] by blast
    obtain ks where ks: "glob_items upper pattern nocase q = Some ks" using glob_items_total [OF assms(1) q(2)] by blast
    have "glob_spec js [] \<longleftrightarrow> q = length pattern"
      using q(4) ks js(1) glob_items_nil [OF assms(1) q(2,3) ks] by auto
    moreover have "glob_end pattern q string t' = Some (q = length pattern)"
    proof (cases "q = length pattern")
      case False
      with q(2) have "q < length pattern" by simp
      moreover from this have "pattern ! q \<noteq> 0" using assms(1) by (metis nth_mem)
      ultimately show ?thesis by (simp add: glob_end_def)
    qed (simp add: glob_end_def at_end)
    ultimately show ?thesis using False q(1) at_end by simp
  qed
  have c: "rd string t' = Some (if t' < length string then string ! t' else 0)"
    using t(1) by (cases "t' = length string") auto
  have c0: "t' < length string \<Longrightarrow> string ! t' \<noteq> 0" using assms(2) by (metis nth_mem)
  show ?thesis
  proof (cases m)
    case False
    with st show ?thesis by (simp add: item_step_def after_char_def)
  next
    case m: True
    with st consider (out) "r = Some (Ran_out p' t')" "p' = length pattern"
      | (go) q a l where "r = Some (Matched q t')" "utf8_tounicode_case upper pattern q nocase = Some (a, l)" "p' = q + l"
      by (auto simp: item_step_def)
    then show ?thesis
    proof cases
      case out
      have "js = []" using js(1) out(2) by simp
      moreover have "glob_spec [] cs = (t' = length string)"
      proof (cases "t' < length string")
        case True
        from glob_chars_step [OF this, of upper nocase] t(2) True show ?thesis by force
      qed (use t in simp)
      moreover have "glob_loop upper pattern string nocase p' t' = Some (t' = length string)"
      proof -
        have "rd pattern p' = Some 0" using out(2) by simp
        then show ?thesis
          using c c0 t(1) by (auto simp: glob_loop.simps [of upper pattern string nocase p'] glob_end_def)
      qed
      ultimately show ?thesis using out(1) m by (simp add: after_char_def)
    next
      case go
      then have "(case r of None \<Rightarrow> None | Some r \<Rightarrow> after_char upper pattern string nocase r) =
          (if t' < length string then glob_loop upper pattern string nocase p' t'
           else do { q' \<leftarrow> skip_stars pattern p'; glob_end pattern q' string t' })"
        using c c0 by (simp add: after_char_def)
      with tail m show ?thesis by simp
    qed
  qed
qed

lemma glob_loop_spec:
  assumes "0 \<notin> set pattern" and "0 \<notin> set string"
  shows "p \<le> length pattern \<Longrightarrow> \<exists>items. glob_items upper pattern nocase p = Some items \<and>
    (\<forall>t cs. t < length string \<longrightarrow> glob_chars upper string nocase t = Some cs \<longrightarrow>
      glob_loop upper pattern string nocase p t = Some (glob_spec items cs))"
proof (induction "length pattern - p" arbitrary: p rule: less_induct)
  case less
  note un = glob_loop.simps [of upper pattern string nocase p]
  have cs_ne: "cs \<noteq> []" "string ! t \<noteq> 0" if "t < length string" "glob_chars upper string nocase t = Some cs" for t cs
  proof -
    from glob_chars_step [OF that(1), of upper nocase] that(2) show "cs \<noteq> []" by force
    from assms(2) that(1) show "string ! t \<noteq> 0" by (metis nth_mem)
  qed
  consider (stop) "p = length pattern" | (star) "p < length pattern" "pattern ! p = c_star"
    | (item) "p < length pattern" "pattern ! p \<noteq> c_star" using less.prems by force
  then show ?case
  proof cases
    case stop
    then have "rd pattern p = Some 0" by simp
    then have "glob_loop upper pattern string nocase p t = Some False" if "t < length string" "glob_chars upper string nocase t = Some cs" for t cs
      using that cs_ne [OF that] by (simp add: un glob_end_def)
    with stop show ?thesis using cs_ne by auto
  next
    case star
    note prem = less.prems
    obtain q where q: "skip_stars pattern (p + 1) = Some q" "p + 1 \<le> q" "q \<le> length pattern"
      "q < length pattern \<longrightarrow> pattern ! q \<noteq> c_star"
      "\<forall>js. glob_items upper pattern nocase q = Some js \<longrightarrow>
        (\<exists>items. glob_items upper pattern nocase (p + 1) = Some items \<and> glob_spec items [] = glob_spec js [] \<and>
        (\<forall>cs. glob_spec (Any_String # items) cs = glob_spec (Any_String # js) cs))"
      using skip_stars_ok [of "p + 1" pattern upper nocase] star(1) by auto
    have skip: "skip_stars pattern p = Some q" using star q(1) by (simp add: skip_stars.simps [of pattern p])
    have "length pattern - q < length pattern - p" using q(2) star(1) by arith
    from less.hyps [OF this q(3)] obtain js where js: "glob_items upper pattern nocase q = Some js"
      "\<forall>t cs. t < length string \<longrightarrow> glob_chars upper string nocase t = Some cs \<longrightarrow>
        glob_loop upper pattern string nocase q t = Some (glob_spec js cs)" by blast
    obtain items where items: "glob_items upper pattern nocase p = Some (Any_String # items)"
      "\<forall>cs. glob_spec (Any_String # items) cs = glob_spec (Any_String # js) cs"
      using q(5) js(1) glob_items_star [OF star, of upper nocase] by auto
    show ?thesis
    proof (cases "q < length pattern")
      case True
      have "pattern ! q \<noteq> 0" using assms(1) True by (metis nth_mem)
      then have run: "glob_loop upper pattern string nocase p t = star_loop upper pattern string nocase q t" for t
        using star skip True by (simp add: un)
      have "glob_loop upper pattern string nocase p t = Some (glob_spec (Any_String # items) cs)"
        if t: "t < length string" "glob_chars upper string nocase t = Some cs" for t cs
      proof -
        from glob_chars_step [OF t(1)] obtain c l where "utf8_tounicode string t = Some (c, l)" by metis
        from glob_char_item [OF assms(1) True _ this, of upper nocase] q(4) True js(1) obtain item rest where
          "js = item # rest" "item \<noteq> Any_String"
          by (auto simp: glob_items.simps [of upper pattern nocase q] split: bind_splits)
        from star_loop_spec [OF assms(2) _ this _ t(2)] js(2) t(1) items(2) show ?thesis by (simp add: run)
      qed
      with items(1) show ?thesis by blast
    next
      case False
      then have "q = length pattern" using q(3) by simp
      then have "js = []" "rd pattern q = Some 0" using js(1) by simp_all
      then have "glob_loop upper pattern string nocase p t = Some True" for t using star skip by (simp add: un)
      with items \<open>js = []\<close> show ?thesis by simp
    qed
  next
    case item
    note prem = less.prems
    have nz: "pattern ! p \<noteq> 0" using assms(1) item(1) by (metis nth_mem)
    obtain i p' where i: "glob_item_at upper pattern nocase p = Some (i, p')"
      using glob_item_total [OF assms(1) item] by blast
    have p': "p < p'" "p' \<le> length pattern" "i \<noteq> Any_String"
      using glob_item_total [OF assms(1) item, of upper nocase] i by auto
    have "length pattern - p' < length pattern - p" using p'(1) item(1) by arith
    from less.hyps [OF this p'(2)] obtain js where js: "glob_items upper pattern nocase p' = Some js"
      "\<And>t cs. t < length string \<Longrightarrow> glob_chars upper string nocase t = Some cs \<Longrightarrow>
        glob_loop upper pattern string nocase p' t = Some (glob_spec js cs)" by blast
    have items: "glob_items upper pattern nocase p = Some (i # js)"
      using i js(1) item(1) by (simp add: glob_items.simps [of upper pattern nocase p])
    have "glob_loop upper pattern string nocase p t = Some (glob_spec (i # js) cs)"
      if t: "t < length string" "glob_chars upper string nocase t = Some cs" for t cs
    proof -
      from glob_chars_step [OF t(1), of upper nocase] obtain c l cs' where c: "utf8_tounicode string t = Some (c, l)" "1 \<le> l"
        "t + l \<le> length string" "glob_chars upper string nocase (t + l) = Some cs'"
        "glob_chars upper string nocase t = Some ((if nocase then upper c else c) # cs')" .
      let ?c = "if nocase then upper c else c"
      have cs: "cs = ?c # cs'" using c(5) t(2) by simp
      have st: "item_step upper pattern nocase p' (item_matches i ?c) (glob_char upper pattern string nocase p t) (t + l)"
        using glob_char_item [OF assms(1) item c(1), of upper nocase] i by auto
      have run: "glob_loop upper pattern string nocase p t = (case glob_char upper pattern string nocase p t of
          None \<Rightarrow> None | Some r \<Rightarrow> after_char upper pattern string nocase r)"
        using item nz by (simp add: un after_char_def split: option.split)
      show ?thesis
        unfolding run cs glob_spec_item(1) [OF p'(3)]
        using after_char_spec [OF assms p'(2) js c(3,4) st] by blast
    qed
    with items show ?thesis by blast
  qed
qed

section \<open>Comparison\<close>

text \<open>The sign of \<open>memcmp\<close> over blocks of the same length.\<close>

fun memcmp :: "byte list \<Rightarrow> byte list \<Rightarrow> int" where
  "memcmp (x # xs) (y # ys) = (if x = y then memcmp xs ys else if x < y then -1 else 1)"
| "memcmp _ _ = 0"

definition JimSign :: "int \<Rightarrow> int" where
  "JimSign w = (if w = 0 then 0 else if w < 0 then -1 else 1)"

definition JimStringCompare :: "byte list \<Rightarrow> byte list \<Rightarrow> int" where
  "JimStringCompare s1 s2 =
     (let l1 = length s1; l2 = length s2 in
      if l1 < l2 then (if memcmp s1 (take l1 s2) \<le> 0 then -1 else 1)
      else if l2 < l1 then (if memcmp (take l2 s1) s2 \<ge> 0 then 1 else -1)
      else JimSign (memcmp s1 s2))"

text \<open>A negative \<open>maxchars\<close> is no limit.\<close>

function nocase_loop :: "(u32 \<Rightarrow> u32) \<Rightarrow> byte list \<Rightarrow> byte list \<Rightarrow> nat \<Rightarrow> nat \<Rightarrow> int \<Rightarrow> int option" where
  "nocase_loop upper s1 s2 i j maxchars = do {
     a \<leftarrow> rd s1 i;
     b \<leftarrow> rd s2 j;
     if a \<noteq> 0 \<and> b \<noteq> 0 \<and> maxchars \<noteq> 0 then do {
       (c1, l1) \<leftarrow> utf8_tounicode_case upper s1 i True;
       (c2, l2) \<leftarrow> utf8_tounicode_case upper s2 j True;
       if c1 \<noteq> c2 then Some (JimSign (sint c1 - sint c2))
       else nocase_loop upper s1 s2 (i + l1) (j + l2) (maxchars - 1)
     }
     else Some (if maxchars = 0 then 0 else if a \<noteq> 0 then 1 else if b \<noteq> 0 then -1 else 0)
   }"
  by pat_completeness auto
termination
  by (relation "measure (\<lambda>(upper, s1, s2, i, j, maxchars). Suc (length s1) - i)")
    (auto dest!: utf8_tounicode_case_len)

declare nocase_loop.simps [simp del]

definition JimStringCompareNoCase :: "(u32 \<Rightarrow> u32) \<Rightarrow> byte list \<Rightarrow> byte list \<Rightarrow> int \<Rightarrow> int option" where
  "JimStringCompareNoCase upper s1 s2 maxchars = nocase_loop upper s1 s2 0 0 maxchars"

section \<open>Search\<close>

text \<open>
  The bytes from an index on that \<open>memcmp\<close> may look at; the terminator is one of them. Lengths and
  indices in characters, as the callers give them.
\<close>

definition equal_at :: "byte list \<Rightarrow> nat \<Rightarrow> byte list \<Rightarrow> bool option" where
  "equal_at s i bs = map_option (\<lambda>z. z = bs) (slice (s @ [0]) i (length bs))"

fun first_loop :: "byte list \<Rightarrow> byte list \<Rightarrow> nat \<Rightarrow> nat \<Rightarrow> int \<Rightarrow> int option" where
  "first_loop needle s2 p 0 i = Some (-1)"
| "first_loop needle s2 p (Suc n) i = do {
     e \<leftarrow> equal_at s2 p needle;
     if e then Some i
     else do {
       (_, l) \<leftarrow> utf8_tounicode s2 p;
       first_loop needle s2 (p + l) n (i + 1)
     }
   }"

definition JimStringFirst :: "byte list \<Rightarrow> int \<Rightarrow> byte list \<Rightarrow> int \<Rightarrow> int \<Rightarrow> int option" where
  "JimStringFirst s1 l1 s2 l2 idx =
     (if l1 = 0 \<or> l2 = 0 \<or> l1 > l2 then Some (-1)
      else do {
        let idx = (if idx < 0 then 0 else idx);
        p \<leftarrow> utf8_index s2 (nat idx);
        l1bytelen \<leftarrow> utf8_index s1 (nat l1);
        needle \<leftarrow> slice s1 0 l1bytelen;
        first_loop needle s2 p (nat (l2 - l1 - idx + 1)) idx
      })"

text \<open>From the last byte of \<open>s2\<close> down; lengths in bytes.\<close>

fun last_loop :: "byte list \<Rightarrow> byte list \<Rightarrow> nat \<Rightarrow> int option" where
  "last_loop needle s2 0 = Some (-1)"
| "last_loop needle s2 (Suc p) = do {
     c \<leftarrow> rd s2 p;
     d \<leftarrow> rd needle 0;
     e \<leftarrow> (if c = d then equal_at s2 p needle else Some False);
     if e then Some (int p) else last_loop needle s2 p
   }"

definition JimStringLast :: "byte list \<Rightarrow> nat \<Rightarrow> byte list \<Rightarrow> nat \<Rightarrow> int option" where
  "JimStringLast s1 l1 s2 l2 = (if l1 = 0 \<or> l2 = 0 \<or> l1 > l2 then Some (-1)
     else do {
       needle \<leftarrow> slice (s1 @ [0]) 0 l1;
       last_loop needle s2 l2
     })"

definition JimStringLastUtf8 :: "byte list \<Rightarrow> int \<Rightarrow> byte list \<Rightarrow> int \<Rightarrow> int option" where
  "JimStringLastUtf8 s1 l1 s2 l2 = do {
     b1 \<leftarrow> utf8_index s1 (nat l1);
     b2 \<leftarrow> utf8_index s2 (nat l2);
     n \<leftarrow> JimStringLast s1 b1 s2 b2;
     if n > 0 then utf8_strlen s2 n else Some n
   }"

text \<open>
  Both searches compare the whole needle at positions where less than its length is left, and
  read behind the terminator; the terminator itself counts as a byte of the string searched.
\<close>

lemma first_overrun: "JimStringFirst [0xe2, 0x82, 0xac] 1 [c_b] 1 0 = None"
  by code_simp

lemma last_overrun: "JimStringLast [c_a, c_b, c_f] 3 [c_x, c_z, c_a] 3 = None"
  by code_simp

lemma last_terminator: "JimStringLast [c_a, 0] 2 [c_x, c_a] 2 = Some 1"
  by code_simp

section \<open>Numbers\<close>

text \<open>
  \<open>endp\<close> is the index where a conversion of the standard library stopped.
\<close>

function check_loop :: "byte list \<Rightarrow> nat \<Rightarrow> jim_code option" where
  "check_loop str endp = do {
     c \<leftarrow> rd str endp;
     if c = 0 then Some JIM_OK
     else if \<not> isspace c then Some JIM_ERR
     else check_loop str (endp + 1)
   }"
  by pat_completeness auto
termination
  by (relation "measure (\<lambda>(str, endp). Suc (length str) - endp)") (auto dest: rd_SomeD)

declare check_loop.simps [simp del]

definition JimCheckConversion :: "byte list \<Rightarrow> nat \<Rightarrow> jim_code option" where
  "JimCheckConversion str endp = do {
     c \<leftarrow> rd str 0;
     if c = 0 \<or> endp = 0 then Some JIM_ERR else check_loop str endp
   }"

text \<open>The loop of the power: an overflow of \<open>jim_wide\<close> is undefined (\<open>None\<close>).\<close>

fun pow_loop :: "int \<Rightarrow> nat \<Rightarrow> int \<Rightarrow> int option" where
  "pow_loop b 0 res = Some res"
| "pow_loop b (Suc n) res = (if to_int64 (res * b) = res * b then pow_loop b n (res * b) else None)"

definition JimPowWide :: "int \<Rightarrow> int \<Rightarrow> int option" where
  "JimPowWide b e = (if b = 0 \<and> e \<noteq> 0 \<or> e < 0 then Some 0 else pow_loop b (nat e) 1)"

section \<open>Facts about comparison and numbers\<close>

lemma memcmp_lexord:
  "length xs = length ys \<Longrightarrow> memcmp xs ys = (if xs = ys then 0 else if (xs, ys) \<in> lexord {(a, b). a < b} then -1 else 1)"
  by (induction xs ys rule: memcmp.induct) auto

lemma lexord_take_less:
  "length xs < length ys \<Longrightarrow> (xs, ys) \<in> lexord r \<longleftrightarrow> xs = take (length xs) ys \<or> (xs, take (length xs) ys) \<in> lexord r"
  by (induction xs ys rule: list_induct2') auto

lemma lexord_take_greater:
  "length ys < length xs \<Longrightarrow> (xs, ys) \<in> lexord r \<longleftrightarrow> (take (length ys) xs, ys) \<in> lexord r"
  by (induction xs ys rule: list_induct2') auto

lemma check_loop_spaces:
  "endp \<le> length str \<Longrightarrow> 0 \<notin> set str \<Longrightarrow>
    check_loop str endp = Some (if list_all isspace (drop endp str) then JIM_OK else JIM_ERR)"
proof (induction "length str - endp" arbitrary: endp rule: less_induct)
  case less
  show ?case
  proof (cases "endp < length str")
    case True
    then have d: "drop endp str = str ! endp # drop (endp + 1) str" by (simp add: Cons_nth_drop_Suc)
    have "str ! endp \<noteq> 0" using less.prems(2) True by (metis nth_mem)
    moreover have "length str - (endp + 1) < length str - endp" using True by arith
    ultimately show ?thesis
      using True less.hyps [of "endp + 1"] less.prems(2) unfolding d by (auto simp: check_loop.simps [of str endp])
  next
    case False
    then have "endp = length str" using less.prems(1) by simp
    then have "rd str endp = Some 0" by simp
    with False show ?thesis by (simp add: check_loop.simps [of str endp])
  qed
qed

section \<open>Properties\<close>

text \<open>
  C16: Glob matching of a string that is not empty ends, reads nothing behind the terminators, and
  tells whether the string has the form the items of the pattern describe.
\<close>

theorem GlobMatch_matches:
  assumes "0 \<notin> set pattern" and "0 \<notin> set string" and "string \<noteq> []"
  shows "\<exists>items cs. glob_items upper pattern nocase 0 = Some items \<and> glob_chars upper string nocase 0 = Some cs \<and>
    GlobMatch upper pattern string nocase = Some (glob_spec items cs)"
proof -
  obtain cs where cs: "glob_chars upper string nocase 0 = Some cs"
    using glob_chars_step [of 0 string upper nocase] assms(3) by auto
  with glob_loop_spec [OF assms(1,2), of 0 upper nocase] assms(3) show ?thesis
    by (auto simp: GlobMatch_def)
qed

theorem GlobMatch_matches_witness:
  "\<exists>items cs. glob_items id (bytes_of ''a*[b-d]?'') False 0 = Some items \<and> glob_chars id (bytes_of ''axxcz'') False 0 = Some cs \<and>
    GlobMatch id (bytes_of ''a*[b-d]?'') (bytes_of ''axxcz'') False = Some (glob_spec items cs)"
  by (rule GlobMatch_matches) simp_all

text \<open>
  String comparison is the lexicographic order of the bytes as unsigned numbers, a proper
  prefix coming first, with results -1, 0 and 1.
\<close>

theorem JimStringCompare_lexicographic:
  "JimStringCompare s1 s2 = (if s1 = s2 then 0 else if (s1, s2) \<in> lexord {(a, b). a < b} then -1 else 1)"
proof (cases "length s1" "length s2" rule: linorder_cases)
  case less
  let ?t = "take (length s1) s2"
  have "memcmp s1 ?t \<le> 0 \<longleftrightarrow> (s1, s2) \<in> lexord {(a, b). a < b}"
    using memcmp_lexord [of s1 ?t] lexord_take_less [OF less, of "{(a, b). a < b}"] less by simp
  with less show ?thesis by (auto simp: JimStringCompare_def)
next
  case equal
  then show ?thesis using memcmp_lexord [of s1 s2] by (simp add: JimStringCompare_def JimSign_def)
next
  case greater
  let ?t = "take (length s2) s1"
  have "memcmp ?t s2 \<ge> 0 \<longleftrightarrow> \<not> (s1, s2) \<in> lexord {(a, b). a < b}"
    using memcmp_lexord [of ?t s2] lexord_take_greater [OF greater, of "{(a, b). a < b}"] greater
      lexord_irreflexive [of "{(a, b). a < b}" s2] by auto
  with greater show ?thesis by (auto simp: JimStringCompare_def)
qed

end
