(* ===== verification/Jim_Parser.thy ===== *)
theory Jim_Parser
  imports Prelude_C
begin

text \<open>
  The script parser of the Jim interpreter (\<open>src/test2/jim.c\<close>): separators, comments, braces,
  quotes, bracketed commands, variables and words, \<open>JimParseScript\<close> which picks the next token,
  and \<open>Jim_ScriptIsComplete\<close>. The text is a byte list followed by its terminator, a pointer into
  it an index. \<open>None\<close> is a read outside of the text (or fuel that ran out, which the theorems
  exclude). The functions that always return \<open>JIM_OK\<close> return the parser only.
\<close>

section \<open>Token types and the parser context\<close>

datatype token_type = JIM_TT_NONE | JIM_TT_STR | JIM_TT_ESC | JIM_TT_VAR | JIM_TT_DICTSUGAR | JIM_TT_CMD
  | JIM_TT_SEP | JIM_TT_EOL | JIM_TT_EOF | JIM_TT_LINE | JIM_TT_WORD | JIM_TT_SUBEXPR_START
  | JIM_TT_SUBEXPR_END | JIM_TT_EXPR_INT | JIM_TT_EXPR_DOUBLE | JIM_TT_EXPRSUGAR | JIM_TT_EXPR_OP

datatype parser_state = JIM_PS_DEF | JIM_PS_QUOTE | JIM_PS_DICTSUGAR

record parser =
  pp :: nat
  plen :: int
  linenr :: int
  tstart :: nat
  tend :: int
  tline :: int
  ptt :: token_type
  peof :: bool
  pstate :: parser_state
  pcomment :: bool
  missing :: byte
  missingline :: int

definition JimParserInit :: "int \<Rightarrow> int \<Rightarrow> parser" where
  "JimParserInit n line = \<lparr>pp = 0, plen = n, linenr = line, tstart = 0, tend = 0, tline = 0,
     ptt = JIM_TT_NONE, peof = False, pstate = JIM_PS_DEF, pcomment = True, missing = c_sp,
     missingline = line\<rparr>"

text \<open>\<open>p += n; len -= n\<close>, and counting a line when a byte is a newline.\<close>

definition adv :: "nat \<Rightarrow> parser \<Rightarrow> parser" where
  "adv n pc = pc\<lparr>pp := pp pc + n, plen := plen pc - int n\<rparr>"

definition newline :: "byte \<Rightarrow> parser \<Rightarrow> parser" where
  "newline c pc = (if c = c_nl then pc\<lparr>linenr := linenr pc + 1\<rparr> else pc)"

text \<open>Setting \<open>tend = p - 1\<close>.\<close>

definition end_token :: "parser \<Rightarrow> parser" where
  "end_token pc = pc\<lparr>tend := int (pp pc) - 1\<rparr>"

section \<open>Separators, line ends and comments\<close>

function sep_loop :: "byte list \<Rightarrow> parser \<Rightarrow> parser option" where
  "sep_loop s pc = do {
     c \<leftarrow> rd s (pp pc);
     if c = c_sp \<or> c = c_tab \<or> c = c_cr then sep_loop s (adv 1 pc)
     else if c = c_bslash then do {
       d \<leftarrow> rd s (pp pc + 1);
       if d = c_nl then sep_loop s (adv 1 ((adv 1 pc)\<lparr>linenr := linenr pc + 1\<rparr>)) else Some pc
     }
     else Some pc
   }"
  by pat_completeness auto
termination
  by (relation "measure (\<lambda>(s, pc). Suc (length s) - pp pc)") (auto simp: adv_def dest: rd_SomeD)

declare sep_loop.simps [simp del]

definition JimParseSep :: "byte list \<Rightarrow> parser \<Rightarrow> parser option" where
  "JimParseSep s pc = do {
     pc \<leftarrow> sep_loop s (pc\<lparr>tstart := pp pc, tline := linenr pc\<rparr>);
     Some ((end_token pc)\<lparr>ptt := JIM_TT_SEP\<rparr>)
   }"

function eol_loop :: "byte list \<Rightarrow> parser \<Rightarrow> parser option" where
  "eol_loop s pc = do {
     c \<leftarrow> rd s (pp pc);
     if c = c_sp \<or> c = c_nl \<or> c = c_tab \<or> c = c_cr \<or> c = c_semi then eol_loop s (adv 1 (newline c pc))
     else Some pc
   }"
  by pat_completeness auto
termination
  by (relation "measure (\<lambda>(s, pc). Suc (length s) - pp pc)") (auto simp: adv_def newline_def dest: rd_SomeD)

declare eol_loop.simps [simp del]

definition JimParseEol :: "byte list \<Rightarrow> parser \<Rightarrow> parser option" where
  "JimParseEol s pc = do {
     pc \<leftarrow> eol_loop s (pc\<lparr>tstart := pp pc, tline := linenr pc\<rparr>);
     Some ((end_token pc)\<lparr>ptt := JIM_TT_EOL\<rparr>)
   }"

function JimParseComment :: "byte list \<Rightarrow> parser \<Rightarrow> parser option" where
  "JimParseComment s pc = do {
     c \<leftarrow> rd s (pp pc);
     if c = 0 then Some pc
     else if c = c_nl then do {
       d \<leftarrow> (if pp pc = 0 then None else rd s (pp pc - 1));
       if d \<noteq> c_bslash then Some (adv 1 (newline c pc)) else JimParseComment s (adv 1 (newline c pc))
     }
     else JimParseComment s (adv 1 pc)
   }"
  by pat_completeness auto
termination
  by (relation "measure (\<lambda>(s, pc). Suc (length s) - pp pc)") (auto simp: adv_def newline_def dest: rd_SomeD)

declare JimParseComment.simps [simp del]

section \<open>Braces, quotes and brackets\<close>

text \<open>The backslash case of the three loops: the next byte is skipped when there is one.\<close>

definition skip_escape :: "byte list \<Rightarrow> parser \<Rightarrow> parser option" where
  "skip_escape s pc = (if plen pc > 1 then do {
       d \<leftarrow> rd s (pp pc + 1);
       Some (adv 1 (newline d pc))
     } else Some pc)"

lemma skip_escape_pp: "skip_escape s pc = Some pc' \<Longrightarrow> pp pc \<le> pp pc'"
  by (auto simp: skip_escape_def adv_def newline_def split: if_splits bind_splits)

definition missing_token :: "byte \<Rightarrow> int \<Rightarrow> parser \<Rightarrow> parser" where
  "missing_token c line pc = end_token (pc\<lparr>missing := c, missingline := line\<rparr>)"

function sub_brace_loop :: "byte list \<Rightarrow> int \<Rightarrow> parser \<Rightarrow> parser option" where
  "sub_brace_loop s level pc = (if plen pc = 0 then Some (missing_token c_lbrace (tline pc) pc)
     else do {
       c \<leftarrow> rd s (pp pc);
       if c = c_bslash then do {
         pc1 \<leftarrow> skip_escape s pc;
         sub_brace_loop s level (adv 1 pc1)
       }
       else if c = c_lbrace then sub_brace_loop s (level + 1) (adv 1 pc)
       else if c = c_rbrace then
         (if level - 1 = 0 then Some (adv 1 (end_token pc)) else sub_brace_loop s (level - 1) (adv 1 pc))
       else sub_brace_loop s level (adv 1 (newline c pc))
     })"
  by pat_completeness auto
termination
  by (relation "measure (\<lambda>(s, level, pc). Suc (length s) - pp pc)")
    (auto simp: adv_def newline_def dest!: rd_SomeD skip_escape_pp)

declare sub_brace_loop.simps [simp del]

definition JimParseSubBrace :: "byte list \<Rightarrow> parser \<Rightarrow> parser option" where
  "JimParseSubBrace s pc = sub_brace_loop s 1 (adv 1 pc)"

text \<open>
  Quotes and brackets nest in each other. Every iteration and every nested call takes one unit of
  fuel; one unit more than the bytes left is enough.
\<close>

fun sub_quote_loop :: "nat \<Rightarrow> byte list \<Rightarrow> int \<Rightarrow> token_type \<Rightarrow> parser \<Rightarrow> (parser \<times> token_type) option"
  and sub_cmd_loop :: "nat \<Rightarrow> byte list \<Rightarrow> int \<Rightarrow> int \<Rightarrow> bool \<Rightarrow> parser \<Rightarrow> parser option" where
  "sub_quote_loop 0 s line tt pc = None"
| "sub_quote_loop (Suc f) s line tt pc = (if plen pc = 0 then Some (missing_token c_dquote line pc, tt)
     else do {
       c \<leftarrow> rd s (pp pc);
       if c = c_bslash then do {
         pc1 \<leftarrow> skip_escape s pc;
         sub_quote_loop f s line (if plen pc > 1 then JIM_TT_ESC else tt) (adv 1 pc1)
       }
       else if c = c_dquote then Some (adv 1 (end_token pc), tt)
       else if c = c_lbrack then do {
         pc1 \<leftarrow> sub_cmd_loop f s (tline pc) 1 True (adv 1 pc);
         sub_quote_loop f s line JIM_TT_ESC pc1
       }
       else sub_quote_loop f s line (if c = c_dollar then JIM_TT_ESC else tt) (adv 1 (newline c pc))
     })"
| "sub_cmd_loop 0 s line level startofword pc = None"
| "sub_cmd_loop (Suc f) s line level startofword pc =
     (if plen pc = 0 then Some (missing_token c_lbrack line pc)
     else do {
       c \<leftarrow> rd s (pp pc);
       if c = c_bslash then do {
         pc1 \<leftarrow> skip_escape s pc;
         d \<leftarrow> rd s (pp pc1);
         sub_cmd_loop f s line level (isspace d) (adv 1 pc1)
       }
       else if c = c_lbrack then sub_cmd_loop f s line (level + 1) (isspace c) (adv 1 pc)
       else if c = c_rbrack then
         (if level - 1 = 0 then Some (adv 1 (end_token pc))
          else sub_cmd_loop f s line (level - 1) (isspace c) (adv 1 pc))
       else if c = c_dquote \<and> startofword then do {
         (pc1, tt) \<leftarrow> sub_quote_loop f s (tline pc) JIM_TT_STR (adv 1 pc);
         sub_cmd_loop f s line level startofword pc1
       }
       else if c = c_lbrace then do {
         pc1 \<leftarrow> JimParseSubBrace s pc;
         sub_cmd_loop f s line level False pc1
       }
       else sub_cmd_loop f s line level (isspace c) (adv 1 (newline c pc))
     })"

definition JimParseSubQuote :: "byte list \<Rightarrow> parser \<Rightarrow> (parser \<times> token_type) option" where
  "JimParseSubQuote s pc = sub_quote_loop (Suc (nat (plen pc))) s (tline pc) JIM_TT_STR (adv 1 pc)"

definition JimParseSubCmd :: "byte list \<Rightarrow> parser \<Rightarrow> parser option" where
  "JimParseSubCmd s pc = sub_cmd_loop (Suc (nat (plen pc))) s (tline pc) 1 True (adv 1 pc)"

definition JimParseBrace :: "byte list \<Rightarrow> parser \<Rightarrow> parser option" where
  "JimParseBrace s pc = JimParseSubBrace s (pc\<lparr>tstart := pp pc + 1, tline := linenr pc, ptt := JIM_TT_STR\<rparr>)"

definition JimParseCmd :: "byte list \<Rightarrow> parser \<Rightarrow> parser option" where
  "JimParseCmd s pc = JimParseSubCmd s (pc\<lparr>tstart := pp pc + 1, tline := linenr pc, ptt := JIM_TT_CMD\<rparr>)"

definition JimParseQuote :: "byte list \<Rightarrow> parser \<Rightarrow> parser option" where
  "JimParseQuote s pc = do {
     (pc, tt) \<leftarrow> JimParseSubQuote s (pc\<lparr>tstart := pp pc + 1, tline := linenr pc\<rparr>);
     Some (pc\<lparr>ptt := tt\<rparr>)
   }"

section \<open>Variables\<close>

function var_brace_loop :: "byte list \<Rightarrow> parser \<Rightarrow> parser option" where
  "var_brace_loop s pc = (if plen pc = 0 then Some pc
     else do {
       c \<leftarrow> rd s (pp pc);
       if c = c_rbrace then Some pc else var_brace_loop s (adv 1 (newline c pc))
     })"
  by pat_completeness auto
termination
  by (relation "measure (\<lambda>(s, pc). Suc (length s) - pp pc)") (auto simp: adv_def newline_def dest: rd_SomeD)

declare var_brace_loop.simps [simp del]

function var_name_loop :: "byte list \<Rightarrow> parser \<Rightarrow> parser option" where
  "var_name_loop s pc = do {
     c \<leftarrow> rd s (pp pc);
     d \<leftarrow> (if c = c_colon then rd s (pp pc + 1) else Some 0);
     if c = c_colon \<and> d = c_colon then var_name_loop s (adv 2 pc)
     else if isalnum c \<or> c = c_uscore then var_name_loop s (adv 1 pc)
     else Some pc
   }"
  by pat_completeness auto
termination
  by (relation "measure (\<lambda>(s, pc). Suc (length s) - pp pc)") (auto simp: adv_def dest: rd_SomeD)

declare var_name_loop.simps [simp del]

text \<open>The index in parentheses; \<open>paren\<close> is the last closing parenthesis seen.\<close>

function var_paren_loop :: "byte list \<Rightarrow> nat \<Rightarrow> nat option \<Rightarrow> parser \<Rightarrow> (parser \<times> nat \<times> nat option) option" where
  "var_paren_loop s cnt paren pc = (if cnt = 0 \<or> plen pc = 0 then Some (pc, cnt, paren)
     else do {
       c \<leftarrow> rd s (pp pc + 1);
       let pc = adv 1 pc;
       if c = c_bslash \<and> plen pc \<ge> 1 then var_paren_loop s cnt paren (adv 1 pc)
       else if c = c_lparen then var_paren_loop s (cnt + 1) paren pc
       else if c = c_rparen then var_paren_loop s (cnt - 1) (Some (pp pc)) pc
       else var_paren_loop s cnt paren pc
     })"
  by pat_completeness auto
termination
  by (relation "measure (\<lambda>(s, cnt, paren, pc). Suc (length s) - pp pc)") (auto simp: adv_def dest: rd_SomeD)

declare var_paren_loop.simps [simp del]

definition var_index :: "byte list \<Rightarrow> parser \<Rightarrow> parser option" where
  "var_index s pc = do {
     (pc, cnt, paren) \<leftarrow> var_paren_loop s 1 None (pc\<lparr>ptt := JIM_TT_DICTSUGAR\<rparr>);
     let pc = (if cnt = 0 then adv 1 pc
       else case paren of None \<Rightarrow> pc
         | Some q \<Rightarrow> pc\<lparr>plen := plen pc + (int (pp pc) - int (q + 1)), pp := q + 1\<rparr>);
     d \<leftarrow> rd s (tstart pc);
     Some (if d = c_lparen then pc\<lparr>ptt := JIM_TT_EXPRSUGAR\<rparr> else pc)
   }"

definition JimParseVar :: "byte list \<Rightarrow> parser \<Rightarrow> (parser \<times> jim_code) option" where
  "JimParseVar s pc = do {
     let pc = adv 1 pc;
     let pc = pc\<lparr>tstart := pp pc, ptt := JIM_TT_VAR, tline := linenr pc\<rparr>;
     c \<leftarrow> rd s (pp pc);
     pc \<leftarrow> (if c = c_lbrace then do {
         let pc = adv 1 pc;
         pc \<leftarrow> var_brace_loop s (pc\<lparr>tstart := pp pc\<rparr>);
         let pc = end_token pc;
         Some (if plen pc \<noteq> 0 then adv 1 pc else pc)
       }
       else do {
         pc \<leftarrow> var_name_loop s pc;
         c \<leftarrow> rd s (pp pc);
         pc \<leftarrow> (if c = c_lparen then var_index s pc else Some pc);
         Some (end_token pc)
       });
     if tstart pc = pp pc then Some (pc\<lparr>pp := pp pc - 1, plen := plen pc + 1\<rparr>, JIM_ERR)
     else Some (pc, JIM_OK)
   }"

section \<open>Words\<close>

text \<open>
  The loop over a word; the token type of the previous token is still in \<open>ptt\<close> and decides
  whether a closing parenthesis ends the token.
\<close>

function str_loop :: "byte list \<Rightarrow> parser \<Rightarrow> parser option" where
  "str_loop s pc = (if plen pc = 0
     then Some ((end_token (if pstate pc = JIM_PS_QUOTE then pc\<lparr>missing := c_dquote\<rparr> else pc))\<lparr>ptt := JIM_TT_ESC\<rparr>)
     else do {
       c \<leftarrow> rd s (pp pc);
       if c = c_bslash then do {
         d \<leftarrow> (if pstate pc = JIM_PS_DEF then rd s (pp pc + 1) else Some 0);
         if pstate pc = JIM_PS_DEF \<and> d = c_nl then Some ((end_token pc)\<lparr>ptt := JIM_TT_ESC\<rparr>)
         else if plen pc \<ge> 2 then do {
           d \<leftarrow> rd s (pp pc + 1);
           str_loop s (adv 1 (adv 1 (newline d pc)))
         }
         else str_loop s (adv 1 pc)
       }
       else if c = c_lparen \<or> c = c_rparen then do {
         d \<leftarrow> (if c = c_lparen \<and> plen pc > 1 then rd s (pp pc + 1) else Some c_dollar);
         if d \<noteq> c_dollar then str_loop s (adv 1 pc)
         else if c = c_lparen \<or> ptt pc = JIM_TT_VAR then
           Some ((end_token (if pp pc = tstart pc then adv 1 pc else pc))\<lparr>ptt := JIM_TT_ESC\<rparr>)
         else str_loop s (adv 1 pc)
       }
       else if c = c_dollar \<or> c = c_lbrack then Some ((end_token pc)\<lparr>ptt := JIM_TT_ESC\<rparr>)
       else if c = c_sp \<or> c = c_tab \<or> c = c_nl \<or> c = c_cr \<or> c = c_semi then
         (if pstate pc = JIM_PS_DEF then Some ((end_token pc)\<lparr>ptt := JIM_TT_ESC\<rparr>)
          else str_loop s (adv 1 (newline c pc)))
       else if c = c_dquote \<and> pstate pc = JIM_PS_QUOTE then
         Some ((adv 1 (end_token pc))\<lparr>ptt := JIM_TT_ESC, pstate := JIM_PS_DEF\<rparr>)
       else str_loop s (adv 1 pc)
     })"
  by pat_completeness auto
termination
  by (relation "measure (\<lambda>(s, pc). Suc (length s) - pp pc)") (auto simp: adv_def newline_def dest!: rd_SomeD)

declare str_loop.simps [simp del]

definition JimParseStr :: "byte list \<Rightarrow> parser \<Rightarrow> parser option" where
  "JimParseStr s pc = do {
     let newword = ptt pc \<in> {JIM_TT_SEP, JIM_TT_EOL, JIM_TT_NONE, JIM_TT_STR};
     c \<leftarrow> rd s (pp pc);
     if newword \<and> c = c_lbrace then JimParseBrace s pc
     else do {
       let pc = (if newword \<and> c = c_dquote
         then (adv 1 pc)\<lparr>pstate := JIM_PS_QUOTE, missingline := tline pc\<rparr> else pc);
       str_loop s (pc\<lparr>tstart := pp pc, tline := linenr pc\<rparr>)
     }
   }"

section \<open>Scripts\<close>

lemma JimParseComment_pp: "JimParseComment s pc = Some pc' \<Longrightarrow> pp pc \<le> pp pc'"
proof (induction s pc rule: JimParseComment.induct)
  case (1 s pc)
  have adv: "pp pc \<le> pp (adv 1 pc)" "pp pc \<le> pp (adv 1 (newline c pc))" for c
    by (simp_all add: adv_def newline_def)
  from 1(3) obtain c where c: "rd s (pp pc) = Some c"
    unfolding JimParseComment.simps [of s pc] by (cases "rd s (pp pc)") simp_all
  note IH = 1(1,2) [OF c] and run = 1(3) [unfolded JimParseComment.simps [of s pc] c, simplified]
  show ?case
  proof (cases "c = c_nl")
    case True
    then show ?thesis
      using run IH(1) adv(2) [of c] by (auto split: if_splits bind_splits)
  next
    case False
    then show ?thesis
      using run IH(2) adv(1) by (auto split: if_splits)
  qed
qed

lemma JimParseComment_progress:
  assumes "JimParseComment s pc = Some pc'" and "rd s (pp pc) = Some c_hash"
  shows "pp pc < pp pc'"
proof -
  from assms have "JimParseComment s (adv 1 pc) = Some pc'"
    by (simp add: JimParseComment.simps [of s pc])
  from JimParseComment_pp [OF this] show ?thesis by (simp add: adv_def)
qed

function JimParseScript :: "byte list \<Rightarrow> parser \<Rightarrow> parser option" where
  "JimParseScript s pc = (if plen pc = 0
     then Some ((end_token pc)\<lparr>tstart := pp pc, tline := linenr pc, ptt := JIM_TT_EOL, peof := True\<rparr>)
     else do {
       c \<leftarrow> rd s (pp pc);
       if c = c_bslash then do {
         d \<leftarrow> rd s (pp pc + 1);
         if d = c_nl \<and> pstate pc = JIM_PS_DEF then JimParseSep s pc
         else JimParseStr s (pc\<lparr>pcomment := False\<rparr>)
       }
       else if c = c_sp \<or> c = c_tab \<or> c = c_cr then
         (if pstate pc = JIM_PS_DEF then JimParseSep s pc else JimParseStr s (pc\<lparr>pcomment := False\<rparr>))
       else if c = c_nl \<or> c = c_semi then
         (if pstate pc = JIM_PS_DEF then JimParseEol s (pc\<lparr>pcomment := True\<rparr>)
          else JimParseStr s (pc\<lparr>pcomment := True\<rparr>))
       else if c = c_lbrack then JimParseCmd s (pc\<lparr>pcomment := False\<rparr>)
       else if c = c_dollar then do {
         (pc, rc) \<leftarrow> JimParseVar s (pc\<lparr>pcomment := False\<rparr>);
         Some (if rc = JIM_ERR
           then (adv 1 pc)\<lparr>tstart := pp pc, tend := int (pp pc), tline := linenr pc, ptt := JIM_TT_STR\<rparr>
           else pc)
       }
       else if c = c_hash then
         (if pcomment pc then do {
            pc1 \<leftarrow> JimParseComment s pc;
            JimParseScript s pc1
          }
          else JimParseStr s pc)
       else JimParseStr s (pc\<lparr>pcomment := False\<rparr>)
     })"
  by pat_completeness auto
termination
  by (relation "measure (\<lambda>(s, pc). Suc (length s) - pp pc)")
    (simp, simp, frule (1) JimParseComment_progress, drule rd_SomeD, simp)

declare JimParseScript.simps [simp del]

partial_function (option) complete_loop :: "byte list \<Rightarrow> parser \<Rightarrow> parser option" where
  "complete_loop s pc = (if peof pc then Some pc
     else do { pc1 \<leftarrow> JimParseScript s pc; complete_loop s pc1 })"

declare complete_loop.simps [code]

definition Jim_ScriptIsComplete :: "byte list \<Rightarrow> (bool \<times> byte) option" where
  "Jim_ScriptIsComplete s = do {
     pc \<leftarrow> complete_loop s (JimParserInit (int (length s)) 1);
     Some (missing pc = c_sp, missing pc)
   }"

section \<open>Positions stay inside the text\<close>

definition pos_ok :: "byte list \<Rightarrow> parser \<Rightarrow> bool" where
  "pos_ok s pc \<longleftrightarrow> 0 \<le> plen pc \<and> int (pp pc) + plen pc = int (length s)"

text \<open>What a loop keeps: the position moves forward, the start and type of the token stay.\<close>

definition moved :: "byte list \<Rightarrow> parser \<Rightarrow> parser \<Rightarrow> bool" where
  "moved s pc pc' \<longleftrightarrow> pos_ok s pc' \<and> pp pc \<le> pp pc' \<and> tstart pc' = tstart pc \<and>
     ptt pc' = ptt pc \<and> peof pc' = peof pc \<and>
     missing pc' \<in> {missing pc, c_lbrace, c_lbrack, c_dquote}"

text \<open>The end of the token is set as well, between the two positions.\<close>

definition closed :: "byte list \<Rightarrow> parser \<Rightarrow> parser \<Rightarrow> bool" where
  "closed s pc pc' \<longleftrightarrow> moved s pc pc' \<and> int (pp pc) - 1 \<le> tend pc' \<and> tend pc' < int (pp pc')"

lemma adv_simps [simp]:
  "pp (adv n pc) = pp pc + n" "plen (adv n pc) = plen pc - int n" "tstart (adv n pc) = tstart pc"
  "tend (adv n pc) = tend pc" "tline (adv n pc) = tline pc" "linenr (adv n pc) = linenr pc"
  "ptt (adv n pc) = ptt pc" "peof (adv n pc) = peof pc" "pstate (adv n pc) = pstate pc"
  "pcomment (adv n pc) = pcomment pc" "missing (adv n pc) = missing pc" "missingline (adv n pc) = missingline pc"
  by (simp_all add: adv_def)

lemma newline_simps [simp]:
  "pp (newline c pc) = pp pc" "plen (newline c pc) = plen pc" "tstart (newline c pc) = tstart pc"
  "tend (newline c pc) = tend pc" "tline (newline c pc) = tline pc" "ptt (newline c pc) = ptt pc"
  "peof (newline c pc) = peof pc" "pstate (newline c pc) = pstate pc" "missing (newline c pc) = missing pc"
  "pcomment (newline c pc) = pcomment pc" "missingline (newline c pc) = missingline pc"
  by (simp_all add: newline_def)

lemma end_token_simps [simp]:
  "pp (end_token pc) = pp pc" "plen (end_token pc) = plen pc" "tstart (end_token pc) = tstart pc"
  "tend (end_token pc) = int (pp pc) - 1" "tline (end_token pc) = tline pc" "ptt (end_token pc) = ptt pc"
  "peof (end_token pc) = peof pc" "pstate (end_token pc) = pstate pc" "missing (end_token pc) = missing pc"
  by (simp_all add: end_token_def)

lemma pos_ok_cong: "pp pc' = pp pc \<Longrightarrow> plen pc' = plen pc \<Longrightarrow> pos_ok s pc' = pos_ok s pc"
  by (simp add: pos_ok_def)

lemma pos_ok_read: "pos_ok s pc \<Longrightarrow> \<exists>c. rd s (pp pc) = Some c"
  by (rule rd_le) (simp add: pos_ok_def)

lemma pos_ok_nonzero: "pos_ok s pc \<Longrightarrow> rd s (pp pc) = Some c \<Longrightarrow> c \<noteq> 0 \<Longrightarrow> 0 < plen pc"
  by (auto simp: pos_ok_def dest: rd_nonzeroD)

lemma pos_ok_nonzero2: "pos_ok s pc \<Longrightarrow> rd s (pp pc + 1) = Some c \<Longrightarrow> c \<noteq> 0 \<Longrightarrow> 1 < plen pc"
  by (auto simp: pos_ok_def dest: rd_nonzeroD)

lemma pos_ok_read2: "pos_ok s pc \<Longrightarrow> 0 < plen pc \<Longrightarrow> \<exists>c. rd s (pp pc + 1) = Some c"
  by (rule rd_le) (simp add: pos_ok_def)

lemma pos_ok_adv: "pos_ok s pc \<Longrightarrow> int n \<le> plen pc \<Longrightarrow> pos_ok s (adv n pc)"
  by (simp add: pos_ok_def)

lemma pos_ok_adv_newline: "pos_ok s pc \<Longrightarrow> 0 < plen pc \<Longrightarrow> pos_ok s (adv 1 (newline c pc))"
  by (simp add: pos_ok_def)

lemma moved_refl: "pos_ok s pc \<Longrightarrow> moved s pc pc"
  by (simp add: moved_def)

text \<open>The end of a move, of the steps it starts with.\<close>

lemma moved_adv: "moved s (adv n pc) pc' \<Longrightarrow> moved s pc pc'" "moved s (adv n (newline c pc)) pc' \<Longrightarrow> moved s pc pc'"
  by (auto simp: moved_def)

lemma moved_linenr [simp]: "moved s (pc\<lparr>linenr := n\<rparr>) pc' = moved s pc pc'"
  by (simp add: moved_def)

lemma closed_adv: "closed s (adv n pc) pc' \<Longrightarrow> closed s pc pc'" "closed s (adv n (newline c pc)) pc' \<Longrightarrow> closed s pc pc'"
  by (auto simp: closed_def moved_def)

lemma closed_moved: "moved s pc pc1 \<Longrightarrow> closed s pc1 pc' \<Longrightarrow> closed s pc pc'"
  by (auto simp: closed_def moved_def)

lemma sep_loop_ok: "pos_ok s pc \<Longrightarrow> \<exists>pc'. sep_loop s pc = Some pc' \<and> moved s pc pc'"
proof (induction s pc rule: sep_loop.induct)
  case (1 s pc)
  obtain c where c: "rd s (pp pc) = Some c" using pos_ok_read [OF 1(3)] by blast
  consider "c = c_sp \<or> c = c_tab \<or> c = c_cr" | "c = c_bslash" | "\<not> (c = c_sp \<or> c = c_tab \<or> c = c_cr)" "c \<noteq> c_bslash"
    by blast
  then show ?case
  proof cases
    case a: 1
    then have "0 < plen pc" using pos_ok_nonzero [OF 1(3) c] by auto
    then have "pos_ok s (adv 1 pc)" using 1(3) by (simp add: pos_ok_adv)
    from 1(1) [OF c a this] obtain pc' where "sep_loop s (adv 1 pc) = Some pc'" "moved s (adv 1 pc) pc'" by blast
    then show ?thesis
      unfolding sep_loop.simps [of s pc] using c a by (auto dest: moved_adv)
  next
    case a: 2
    then have p: "0 < plen pc" using pos_ok_nonzero [OF 1(3) c] by simp
    then obtain d where d: "rd s (pp pc + 1) = Some d" using pos_ok_read2 [OF 1(3)] by blast
    show ?thesis
    proof (cases "d = c_nl")
      case True
      then have "1 < plen pc" using pos_ok_nonzero2 [OF 1(3) d] by simp
      then have "pos_ok s (adv 1 ((adv 1 pc)\<lparr>linenr := linenr pc + 1\<rparr>))" using 1(3) by (simp add: pos_ok_def)
      from 1(2) [OF c _ a d True this] a obtain pc' where
        "sep_loop s (adv 1 ((adv 1 pc)\<lparr>linenr := linenr pc + 1\<rparr>)) = Some pc'"
        "moved s (adv 1 ((adv 1 pc)\<lparr>linenr := linenr pc + 1\<rparr>)) pc'" by auto
      then show ?thesis
        unfolding sep_loop.simps [of s pc] using c a d True by (auto dest!: moved_adv)
    next
      case False
      then show ?thesis
        unfolding sep_loop.simps [of s pc] using c a d 1(3) by (simp add: moved_refl)
    qed
  next
    case 3
    then show ?thesis
      unfolding sep_loop.simps [of s pc] using c 1(3) by (simp add: moved_refl)
  qed
qed

lemma eol_loop_ok: "pos_ok s pc \<Longrightarrow> \<exists>pc'. eol_loop s pc = Some pc' \<and> moved s pc pc'"
proof (induction s pc rule: eol_loop.induct)
  case (1 s pc)
  obtain c where c: "rd s (pp pc) = Some c" using pos_ok_read [OF 1(2)] by blast
  show ?case
  proof (cases "c = c_sp \<or> c = c_nl \<or> c = c_tab \<or> c = c_cr \<or> c = c_semi")
    case True
    then have "0 < plen pc" using pos_ok_nonzero [OF 1(2) c] by auto
    from 1(1) [OF c True pos_ok_adv_newline [OF 1(2) this]] obtain pc' where
      "eol_loop s (adv 1 (newline c pc)) = Some pc'" "moved s (adv 1 (newline c pc)) pc'" by blast
    then show ?thesis
      unfolding eol_loop.simps [of s pc] using c True by (auto dest: moved_adv)
  next
    case False
    then show ?thesis
      unfolding eol_loop.simps [of s pc] using c 1(2) by (simp add: moved_refl)
  qed
qed

lemma skip_escape_ok:
  assumes "pos_ok s pc" and "0 < plen pc"
  shows "\<exists>pc'. skip_escape s pc = Some pc' \<and> moved s pc pc' \<and> 0 < plen pc' \<and> plen pc' \<le> plen pc"
proof (cases "plen pc > 1")
  case True
  obtain d where "rd s (pp pc + 1) = Some d" using pos_ok_read2 [OF assms] by blast
  with True assms show ?thesis by (simp add: skip_escape_def moved_def pos_ok_def)
next
  case False
  with assms show ?thesis by (simp add: skip_escape_def moved_refl)
qed

lemma missing_token_ok: "pos_ok s pc \<Longrightarrow> c \<in> {c_lbrace, c_lbrack, c_dquote} \<Longrightarrow> closed s pc (missing_token c line pc)"
  by (simp add: closed_def moved_def missing_token_def pos_ok_def)

lemma close_token_ok: "pos_ok s pc \<Longrightarrow> 0 < plen pc \<Longrightarrow> closed s pc (adv 1 (end_token pc))"
  by (simp add: closed_def moved_def pos_ok_def)

lemma sub_brace_loop_ok: "pos_ok s pc \<Longrightarrow> \<exists>pc'. sub_brace_loop s level pc = Some pc' \<and> closed s pc pc'"
proof (induction s level pc rule: sub_brace_loop.induct)
  case (1 s level pc)
  show ?case
  proof (cases "plen pc = 0")
    case True
    then show ?thesis
      unfolding sub_brace_loop.simps [of s level pc] using missing_token_ok [OF 1(5)] by simp
  next
    case False
    then have pos: "0 < plen pc" using 1(5) by (simp add: pos_ok_def)
    have adv: "pos_ok s (adv 1 pc)" using 1(5) pos by (simp add: pos_ok_def)
    obtain c where c: "rd s (pp pc) = Some c" using pos_ok_read [OF 1(5)] by blast
    note un = sub_brace_loop.simps [of s level pc]
    consider "c = c_bslash" | "c = c_lbrace" | "c = c_rbrace" | "c \<noteq> c_bslash" "c \<noteq> c_lbrace" "c \<noteq> c_rbrace" by blast
    then show ?thesis
    proof cases
      case a: 1
      obtain pc1 where p1: "skip_escape s pc = Some pc1" "moved s pc pc1" "0 < plen pc1"
        using skip_escape_ok [OF 1(5) pos] by blast
      then have "pos_ok s (adv 1 pc1)" by (simp add: moved_def pos_ok_def)
      from 1(1) [OF False c a p1(1) this] obtain pc' where
        "sub_brace_loop s level (adv 1 pc1) = Some pc'" "closed s (adv 1 pc1) pc'" by blast
      then show ?thesis unfolding un using c a p1 False by (auto dest: closed_adv intro: closed_moved)
    next
      case a: 2
      from 1(2) [OF False c _ a adv] a show ?thesis
        unfolding un using c False by (auto dest: closed_adv)
    next
      case a: 3
      from 1(3) [OF False c _ _ a _ adv] a show ?thesis
        unfolding un using c False close_token_ok [OF 1(5) pos] by (auto dest: closed_adv)
    next
      case a: 4
      from 1(4) [OF False c a pos_ok_adv_newline [OF 1(5) pos]] a show ?thesis
        unfolding un using c False by (auto dest: closed_adv)
    qed
  qed
qed

lemma JimParseSubBrace_ok:
  assumes "pos_ok s pc" and "0 < plen pc"
  shows "\<exists>pc'. JimParseSubBrace s pc = Some pc' \<and> closed s (adv 1 pc) pc'"
  unfolding JimParseSubBrace_def using assms by (intro sub_brace_loop_ok) (simp add: pos_ok_def)


lemma closed_plen: "closed s pc pc' \<Longrightarrow> pos_ok s pc \<Longrightarrow> pos_ok s pc' \<and> nat (plen pc') \<le> nat (plen pc)"
  by (simp add: closed_def moved_def pos_ok_def nat_le_eq_zle)

lemma closed_trans: "closed s pc pc1 \<Longrightarrow> closed s pc1 pc' \<Longrightarrow> closed s pc pc'"
  by (auto simp: closed_def moved_def)

text \<open>The two nested loops, by induction on the fuel.\<close>

lemma sub_loops_ok:
  "\<And>pc line tt. \<lbrakk>pos_ok s pc; nat (plen pc) < f\<rbrakk> \<Longrightarrow>
     \<exists>pc' tt'. sub_quote_loop f s line tt pc = Some (pc', tt') \<and> closed s pc pc'"
  "\<And>pc line level w. \<lbrakk>pos_ok s pc; nat (plen pc) < f\<rbrakk> \<Longrightarrow>
     \<exists>pc'. sub_cmd_loop f s line level w pc = Some pc' \<and> closed s pc pc'"
proof (induction f)
  case (Suc f)
  {
    case (1 pc line tt)
    show ?case
    proof (cases "plen pc = 0")
      case True
      then show ?thesis using missing_token_ok [OF 1(1)] by simp
    next
      case False
      then have pos: "0 < plen pc" using 1(1) by (simp add: pos_ok_def)
      have adv: "pos_ok s (adv 1 pc)" "nat (plen (adv 1 pc)) < f"
        and advn: "pos_ok s (adv 1 (newline c pc))" "nat (plen (adv 1 (newline c pc))) < f" for c
        using 1 pos by (simp_all add: pos_ok_def)
      obtain c where c: "rd s (pp pc) = Some c" using pos_ok_read [OF 1(1)] by blast
      consider "c = c_bslash" | "c = c_dquote" | "c = c_lbrack" | "c \<noteq> c_bslash" "c \<noteq> c_dquote" "c \<noteq> c_lbrack"
        by blast
      then show ?thesis
      proof cases
        case a: 1
        obtain pc1 where p1: "skip_escape s pc = Some pc1" "moved s pc pc1" "0 < plen pc1" "plen pc1 \<le> plen pc"
          using skip_escape_ok [OF 1(1) pos] by blast
        then have "pos_ok s (adv 1 pc1)" "nat (plen (adv 1 pc1)) < f"
          using 1(2) by (simp_all add: moved_def pos_ok_def)
        from Suc.IH(1) [OF this] show ?thesis
          using c a p1 False by (fastforce dest: closed_adv intro: closed_moved)
      next
        case a: 2
        then show ?thesis using c False close_token_ok [OF 1(1) pos] by simp
      next
        case a: 3
        from Suc.IH(2) [OF adv] obtain pc1 where p1:
          "sub_cmd_loop f s (tline pc) 1 True (adv 1 pc) = Some pc1" "closed s (adv 1 pc) pc1" by blast
        from closed_plen [OF p1(2) adv(1)] adv(2) have "pos_ok s pc1" "nat (plen pc1) < f" by simp_all
        from Suc.IH(1) [OF this] p1 c a False show ?thesis
          by (fastforce dest: closed_adv intro: closed_trans)
      next
        case a: 4
        from Suc.IH(1) [OF advn] a c False show ?thesis by (fastforce dest: closed_adv)
      qed
    qed
  next
    case (2 pc line level w)
    show ?case
    proof (cases "plen pc = 0")
      case True
      then show ?thesis using missing_token_ok [OF 2(1)] by simp
    next
      case False
      then have pos: "0 < plen pc" using 2(1) by (simp add: pos_ok_def)
      have adv: "pos_ok s (adv 1 pc)" "nat (plen (adv 1 pc)) < f"
        and advn: "pos_ok s (adv 1 (newline c pc))" "nat (plen (adv 1 (newline c pc))) < f" for c
        using 2 pos by (simp_all add: pos_ok_def)
      obtain c where c: "rd s (pp pc) = Some c" using pos_ok_read [OF 2(1)] by blast
      consider "c = c_bslash" | "c = c_lbrack" | "c = c_rbrack" | "c = c_dquote" "w" | "c = c_lbrace"
        | "c \<noteq> c_bslash" "c \<noteq> c_lbrack" "c \<noteq> c_rbrack" "\<not> (c = c_dquote \<and> w)" "c \<noteq> c_lbrace"
        by blast
      then show ?thesis
      proof cases
        case a: 1
        obtain pc1 where p1: "skip_escape s pc = Some pc1" "moved s pc pc1" "0 < plen pc1" "plen pc1 \<le> plen pc"
          using skip_escape_ok [OF 2(1) pos] by blast
        then have ok: "pos_ok s (adv 1 pc1)" "nat (plen (adv 1 pc1)) < f" "pos_ok s pc1"
          using 2(2) by (simp_all add: moved_def pos_ok_def)
        obtain d where d: "rd s (pp pc1) = Some d" using pos_ok_read [OF ok(3)] by blast
        from Suc.IH(2) [OF ok(1,2)] show ?thesis
          using c a p1 d False by (fastforce dest: closed_adv intro: closed_moved)
      next
        case a: 2
        from Suc.IH(2) [OF adv] a c False show ?thesis by (fastforce dest: closed_adv)
      next
        case a: 3
        from Suc.IH(2) [OF adv] a c False close_token_ok [OF 2(1) pos] show ?thesis
          by (fastforce dest: closed_adv)
      next
        case a: 4
        from Suc.IH(1) [OF adv] obtain pc1 tt1 where p1:
          "sub_quote_loop f s (tline pc) JIM_TT_STR (adv 1 pc) = Some (pc1, tt1)" "closed s (adv 1 pc) pc1" by blast
        from closed_plen [OF p1(2) adv(1)] adv(2) have "pos_ok s pc1" "nat (plen pc1) < f" by simp_all
        from Suc.IH(2) [OF this] p1 c a False show ?thesis
          by (fastforce dest: closed_adv intro: closed_trans)
      next
        case a: 5
        from JimParseSubBrace_ok [OF 2(1) pos] obtain pc1 where p1:
          "JimParseSubBrace s pc = Some pc1" "closed s (adv 1 pc) pc1" by blast
        from closed_plen [OF p1(2) adv(1)] adv(2) have "pos_ok s pc1" "nat (plen pc1) < f" by simp_all
        from Suc.IH(2) [OF this] p1 c a False show ?thesis
          by (fastforce dest: closed_adv intro: closed_trans)
      next
        case a: 6
        from Suc.IH(2) [OF advn] a c False show ?thesis by (fastforce dest: closed_adv)
      qed
    qed
  }
qed simp_all


section \<open>Tokens\<close>

text \<open>A token: its bytes lie between the two positions, in order; the end of the text is a line end.\<close>

definition script_types :: "token_type set" where
  "script_types = {JIM_TT_STR, JIM_TT_ESC, JIM_TT_VAR, JIM_TT_DICTSUGAR, JIM_TT_CMD, JIM_TT_EXPRSUGAR,
     JIM_TT_SEP, JIM_TT_EOL}"

lemma script_types_simps [simp]:
  "JIM_TT_STR \<in> script_types" "JIM_TT_ESC \<in> script_types" "JIM_TT_VAR \<in> script_types"
  "JIM_TT_DICTSUGAR \<in> script_types" "JIM_TT_CMD \<in> script_types" "JIM_TT_EXPRSUGAR \<in> script_types"
  "JIM_TT_SEP \<in> script_types" "JIM_TT_EOL \<in> script_types"
  by (simp_all add: script_types_def)

definition token_ok :: "byte list \<Rightarrow> parser \<Rightarrow> parser \<Rightarrow> bool" where
  "token_ok s pc pc' \<longleftrightarrow> pos_ok s pc' \<and> pp pc \<le> tstart pc' \<and> int (tstart pc') \<le> tend pc' + 1 \<and>
     tend pc' < int (pp pc') \<and> missing pc' \<in> {missing pc, c_lbrace, c_lbrack, c_dquote} \<and>
     ptt pc' \<in> script_types \<and> (peof pc' \<longrightarrow> peof pc \<or> ptt pc' = JIM_TT_EOL)"

lemma closed_token:
  assumes "closed s pc1 pc'" and "pp pc \<le> tstart pc1" and "tstart pc1 \<le> pp pc1" and "missing pc1 = missing pc"
    and "peof pc1 = peof pc"
  shows "t \<in> script_types \<Longrightarrow> token_ok s pc (pc'\<lparr>ptt := t\<rparr>)" and "ptt pc1 \<in> script_types \<Longrightarrow> token_ok s pc pc'"
  using assms by (auto simp: token_ok_def closed_def moved_def pos_ok_def)

lemma JimParseBrace_ok:
  assumes "pos_ok s pc" and "0 < plen pc"
  shows "\<exists>pc'. JimParseBrace s pc = Some pc' \<and> token_ok s pc pc' \<and> pp pc < pp pc'"
proof -
  let ?pc = "pc\<lparr>tstart := pp pc + 1, tline := linenr pc, ptt := JIM_TT_STR\<rparr>"
  have "pos_ok s ?pc" "0 < plen ?pc" using assms by (simp_all add: pos_ok_def)
  from JimParseSubBrace_ok [OF this] obtain pc' where r: "JimParseSubBrace s ?pc = Some pc'" "closed s (adv 1 ?pc) pc'"
    by blast
  have "token_ok s pc pc'" by (rule closed_token(2) [OF r(2)]) simp_all
  moreover have "pp pc < pp pc'" using r(2) by (simp add: closed_def moved_def)
  ultimately show ?thesis using r(1) by (simp add: JimParseBrace_def)
qed

lemma JimParseCmd_ok:
  assumes "pos_ok s pc" and "0 < plen pc"
  shows "\<exists>pc'. JimParseCmd s pc = Some pc' \<and> token_ok s pc pc' \<and> pp pc < pp pc'"
proof -
  let ?pc = "pc\<lparr>tstart := pp pc + 1, tline := linenr pc, ptt := JIM_TT_CMD\<rparr>"
  have "pos_ok s (adv 1 ?pc)" "nat (plen (adv 1 ?pc)) < Suc (nat (plen ?pc))"
    using assms by (simp_all add: pos_ok_def)
  from sub_loops_ok(2) [OF this] obtain pc' where r: "JimParseSubCmd s ?pc = Some pc'" "closed s (adv 1 ?pc) pc'"
    unfolding JimParseSubCmd_def by blast
  have "token_ok s pc pc'" by (rule closed_token(2) [OF r(2)]) simp_all
  moreover have "pp pc < pp pc'" using r(2) by (simp add: closed_def moved_def)
  ultimately show ?thesis using r(1) by (simp add: JimParseCmd_def)
qed

lemma sub_quote_type: "sub_quote_loop f s line tt pc = Some (pc', tt') \<Longrightarrow> tt' \<in> {tt, JIM_TT_ESC}"
proof (induction f arbitrary: tt pc)
  case (Suc f)
  from Suc.prems show ?case
    by (auto split: if_splits bind_splits dest: Suc.IH)
qed simp

lemma JimParseQuote_ok:
  assumes "pos_ok s pc" and "0 < plen pc"
  shows "\<exists>pc'. JimParseQuote s pc = Some pc' \<and> token_ok s pc pc' \<and> pp pc < pp pc'"
proof -
  let ?pc = "pc\<lparr>tstart := pp pc + 1, tline := linenr pc\<rparr>"
  have "pos_ok s (adv 1 ?pc)" "nat (plen (adv 1 ?pc)) < Suc (nat (plen ?pc))"
    using assms by (simp_all add: pos_ok_def)
  from sub_loops_ok(1) [OF this] obtain pc' tt where r: "JimParseSubQuote s ?pc = Some (pc', tt)" "closed s (adv 1 ?pc) pc'"
    unfolding JimParseSubQuote_def by blast
  have "tt \<in> {JIM_TT_STR, JIM_TT_ESC}"
    using r(1) unfolding JimParseSubQuote_def by (rule sub_quote_type)
  then have "token_ok s pc (pc'\<lparr>ptt := tt\<rparr>)" by (intro closed_token(1) [OF r(2)]) auto
  moreover have "pp pc < pp pc'" using r(2) by (simp add: closed_def moved_def)
  ultimately show ?thesis using r(1) by (simp add: JimParseQuote_def)
qed

lemma JimParseSep_ok:
  assumes "pos_ok s pc"
  shows "\<exists>pc'. JimParseSep s pc = Some pc' \<and> token_ok s pc pc' \<and> pp pc \<le> pp pc'"
proof -
  have "pos_ok s (pc\<lparr>tstart := pp pc, tline := linenr pc\<rparr>)" using assms by (simp add: pos_ok_def)
  from sep_loop_ok [OF this] obtain p1 where "sep_loop s (pc\<lparr>tstart := pp pc, tline := linenr pc\<rparr>) = Some p1"
    "moved s (pc\<lparr>tstart := pp pc, tline := linenr pc\<rparr>) p1" by blast
  then show ?thesis
    by (auto simp: JimParseSep_def token_ok_def moved_def pos_ok_def)
qed

lemma JimParseEol_ok:
  assumes "pos_ok s pc"
  shows "\<exists>pc'. JimParseEol s pc = Some pc' \<and> token_ok s pc pc' \<and> pp pc \<le> pp pc'"
proof -
  have "pos_ok s (pc\<lparr>tstart := pp pc, tline := linenr pc\<rparr>)" using assms by (simp add: pos_ok_def)
  from eol_loop_ok [OF this] obtain p1 where "eol_loop s (pc\<lparr>tstart := pp pc, tline := linenr pc\<rparr>) = Some p1"
    "moved s (pc\<lparr>tstart := pp pc, tline := linenr pc\<rparr>) p1" by blast
  then show ?thesis
    by (auto simp: JimParseEol_def token_ok_def moved_def pos_ok_def)
qed

lemma JimParseComment_ok: "\<lbrakk>pos_ok s pc; 0 < pp pc\<rbrakk> \<Longrightarrow> \<exists>pc'. JimParseComment s pc = Some pc' \<and> moved s pc pc'"
proof (induction s pc rule: JimParseComment.induct)
  case (1 s pc)
  obtain c where c: "rd s (pp pc) = Some c" using pos_ok_read [OF 1(3)] by blast
  note un = JimParseComment.simps [of s pc]
  show ?case
  proof (cases "c = 0")
    case True
    then show ?thesis unfolding un using c 1(3) by (simp add: moved_refl)
  next
    case nz: False
    then have pos: "0 < plen pc" using pos_ok_nonzero [OF 1(3) c] by simp
    note adv = pos_ok_adv_newline [OF 1(3) pos]
    have adv1: "pos_ok s (adv 1 pc)" using 1(3) pos by (simp add: pos_ok_def)
    show ?thesis
    proof (cases "c = c_nl")
      case True
      have "pp pc - 1 \<le> length s" using 1(3) unfolding pos_ok_def by linarith
      then obtain d where d: "rd s (pp pc - 1) = Some d" using rd_le by blast
      show ?thesis
      proof (cases "d = c_bslash")
        case b: True
        have "\<exists>pc'. JimParseComment s (adv 1 (newline c pc)) = Some pc' \<and> moved s (adv 1 (newline c pc)) pc'"
          by (rule 1(1) [OF c nz True]) (use d b 1(4) adv in simp_all)
        then show ?thesis unfolding un using c nz True d b 1(4) by (auto dest: moved_adv)
      next
        case False
        then show ?thesis unfolding un using c nz True d 1(4) adv by (simp add: moved_def)
      qed
    next
      case False
      have "\<exists>pc'. JimParseComment s (adv 1 pc) = Some pc' \<and> moved s (adv 1 pc) pc'"
        by (rule 1(2) [OF c nz False adv1]) simp
      then show ?thesis unfolding un using c nz False by (auto dest: moved_adv)
    qed
  qed
qed


lemma var_brace_loop_ok: "pos_ok s pc \<Longrightarrow> \<exists>pc'. var_brace_loop s pc = Some pc' \<and> moved s pc pc'"
proof (induction s pc rule: var_brace_loop.induct)
  case (1 s pc)
  note un = var_brace_loop.simps [of s pc]
  show ?case
  proof (cases "plen pc = 0")
    case True
    then show ?thesis unfolding un using 1(2) by (simp add: moved_refl)
  next
    case False
    then have pos: "0 < plen pc" using 1(2) by (simp add: pos_ok_def)
    obtain c where c: "rd s (pp pc) = Some c" using pos_ok_read [OF 1(2)] by blast
    show ?thesis
    proof (cases "c = c_rbrace")
      case True
      then show ?thesis unfolding un using c False 1(2) by (simp add: moved_refl)
    next
      case b: False
      from 1(1) [OF False c b pos_ok_adv_newline [OF 1(2) pos]] show ?thesis
        unfolding un using c False b by (auto dest: moved_adv)
    qed
  qed
qed

lemma var_name_loop_ok: "pos_ok s pc \<Longrightarrow> \<exists>pc'. var_name_loop s pc = Some pc' \<and> moved s pc pc'"
proof (induction s pc rule: var_name_loop.induct)
  case (1 s pc)
  note un = var_name_loop.simps [of s pc]
  obtain c where c: "rd s (pp pc) = Some c" using pos_ok_read [OF 1(3)] by blast
  have pos: "0 < plen pc" if "c \<noteq> 0" using pos_ok_nonzero [OF 1(3) c that] .
  obtain d where d: "(if c = c_colon then rd s (pp pc + 1) else Some 0) = Some d"
    using pos pos_ok_read2 [OF 1(3)] by (cases "c = c_colon") auto
  show ?case
  proof (cases "c = c_colon \<and> d = c_colon")
    case True
    then have "1 < plen pc" using d pos_ok_nonzero2 [OF 1(3)] by simp
    then have "pos_ok s (adv 2 pc)" using 1(3) by (simp add: pos_ok_def)
    from 1(1) [OF c d True this] show ?thesis
      unfolding un c bind.bind_lunit d using True by (auto dest: moved_adv)
  next
    case False
    show ?thesis
    proof (cases "isalnum c \<or> c = c_uscore")
      case True
      then have "c \<noteq> 0" by (auto simp: isalnum_def)
      with pos 1(3) have "pos_ok s (adv 1 pc)" by (simp add: pos_ok_def)
      from 1(2) [OF c d False True this] show ?thesis
        unfolding un c bind.bind_lunit d using False True by (auto dest: moved_adv)
    next
      case f: False
      then show ?thesis unfolding un c bind.bind_lunit d using False 1(3) by (auto intro: moved_refl)
    qed
  qed
qed

text \<open>What the loop over an index in parentheses returns.\<close>

definition paren_ok :: "byte list \<Rightarrow> parser \<Rightarrow> nat \<Rightarrow> nat option \<Rightarrow> parser \<times> nat \<times> nat option \<Rightarrow> bool" where
  "paren_ok s pc cnt paren r = (case r of (pc', cnt', paren') \<Rightarrow> moved s pc pc' \<and>
     (cnt' = 0 \<longrightarrow> 0 < cnt \<longrightarrow> 0 < plen pc') \<and>
     (\<forall>q. paren' = Some q \<longrightarrow> paren = Some q \<or> pp pc \<le> q \<and> q < length s))"

lemma paren_ok_adv: "paren_ok s (adv n pc) cnt paren r \<Longrightarrow> paren_ok s pc cnt paren r"
  by (cases r) (fastforce simp: paren_ok_def dest: moved_adv)

lemma paren_ok_open: "paren_ok s pc (cnt + 1) paren r \<Longrightarrow> paren_ok s pc cnt paren r"
  by (cases r) (simp add: paren_ok_def)

lemma paren_ok_close: "\<lbrakk>paren_ok s pc (cnt - 1) (Some q) r; cnt \<noteq> 1; pp pc \<le> q; q < length s\<rbrakk> \<Longrightarrow> paren_ok s pc cnt paren r"
  by (cases r) (auto simp: paren_ok_def)

lemma var_paren_loop_ok: "pos_ok s pc \<Longrightarrow> \<exists>r. var_paren_loop s cnt paren pc = Some r \<and> paren_ok s pc cnt paren r"
proof (induction s cnt paren pc rule: var_paren_loop.induct)
  case (1 s cnt paren pc)
  note un = var_paren_loop.simps [of s cnt paren pc]
  show ?case
  proof (cases "cnt = 0 \<or> plen pc = 0")
    case True
    then show ?thesis unfolding un using 1(5) by (auto simp: paren_ok_def intro: moved_refl)
  next
    case False
    then have pos: "0 < plen pc" using 1(5) by (simp add: pos_ok_def)
    have adv: "pos_ok s (adv 1 pc)" using 1(5) pos by (simp add: pos_ok_def)
    obtain c where c: "rd s (pp pc + 1) = Some c" using pos_ok_read2 [OF 1(5) pos] by blast
    note un = un [unfolded if_not_P [OF False] c bind.bind_lunit Let_def]
    let ?E = "c = c_bslash \<and> plen (adv 1 pc) \<ge> 1"
    consider "?E" | "\<not> ?E" "c = c_lparen" | "\<not> ?E" "c = c_rparen" | "\<not> ?E" "c \<noteq> c_lparen" "c \<noteq> c_rparen" by blast
    then show ?thesis
    proof cases
      case a: 1
      have "pos_ok s (adv 1 (adv 1 pc))" using a adv by (simp add: pos_ok_def)
      from 1(1) [OF False c refl a this] show ?thesis
        unfolding un if_P [OF a] by (blast dest: paren_ok_adv)
    next
      case a: 2
      from 1(2) [OF False c refl a adv] show ?thesis
        unfolding un if_not_P [OF a(1)] if_P [OF a(2)] by (blast dest: paren_ok_adv paren_ok_open)
    next
      case a: 3
      have ne: "c \<noteq> c_lparen" using a by simp
      from pos_ok_nonzero2 [OF 1(5) c] a have lt: "1 < plen pc" by simp
      from 1(3) [OF False c refl a(1) ne a(2) adv] obtain r where r:
        "var_paren_loop s (cnt - 1) (Some (pp (adv 1 pc))) (adv 1 pc) = Some r"
        "paren_ok s (adv 1 pc) (cnt - 1) (Some (pp (adv 1 pc))) r" by blast
      have "paren_ok s (adv 1 pc) cnt paren r"
      proof (cases "cnt = 1")
        case True
        with r(1) have "r = (adv 1 pc, 0, Some (pp (adv 1 pc)))" by (simp add: var_paren_loop.simps [of s 0])
        with lt adv show ?thesis by (simp add: paren_ok_def moved_def pos_ok_def)
      next
        case n: False
        with r(2) adv lt show ?thesis by (intro paren_ok_close [OF r(2) n]) (simp_all add: pos_ok_def)
      qed
      with r(1) show ?thesis
        unfolding un if_not_P [OF a(1)] if_not_P [OF ne] if_P [OF a(2)] by (blast dest: paren_ok_adv)
    next
      case a: 4
      from 1(4) [OF False c refl a adv] show ?thesis
        unfolding un if_not_P [OF a(1)] if_not_P [OF a(2)] if_not_P [OF a(3)] by (blast dest: paren_ok_adv)
    qed
  qed
qed

text \<open>The index in parentheses, from an opening parenthesis on.\<close>

lemma var_index_ok:
  assumes "pos_ok s pc" and "rd s (pp pc) = Some c_lparen" and "tstart pc \<le> pp pc"
  shows "\<exists>pc'. var_index s pc = Some pc' \<and> moved s (pc\<lparr>ptt := ptt pc'\<rparr>) pc' \<and> ptt pc' \<in> {JIM_TT_DICTSUGAR, JIM_TT_EXPRSUGAR}"
proof -
  have "pos_ok s (pc\<lparr>ptt := JIM_TT_DICTSUGAR\<rparr>)" using assms(1) by (simp add: pos_ok_def)
  from var_paren_loop_ok [OF this, of 1 None] obtain pc1 cnt paren where r:
    "var_paren_loop s 1 None (pc\<lparr>ptt := JIM_TT_DICTSUGAR\<rparr>) = Some (pc1, cnt, paren)"
    "moved s (pc\<lparr>ptt := JIM_TT_DICTSUGAR\<rparr>) pc1" "cnt = 0 \<longrightarrow> 0 < plen pc1"
    "\<forall>q. paren = Some q \<longrightarrow> pp pc \<le> q \<and> q < length s" by (auto simp: paren_ok_def)
  define pc2 where "pc2 = (if cnt = 0 then adv 1 pc1
       else case paren of None \<Rightarrow> pc1
         | Some q \<Rightarrow> pc1\<lparr>plen := plen pc1 + (int (pp pc1) - int (q + 1)), pp := q + 1\<rparr>)"
  have m: "moved s (pc\<lparr>ptt := JIM_TT_DICTSUGAR\<rparr>) pc2"
    using r(2,3,4) unfolding pc2_def moved_def pos_ok_def by (cases paren) auto
  then have "tstart pc2 \<le> length s" using assms(3) by (auto simp: moved_def pos_ok_def)
  then obtain d where d: "rd s (tstart pc2) = Some d" using rd_le by blast
  have "var_index s pc = Some (if d = c_lparen then pc2\<lparr>ptt := JIM_TT_EXPRSUGAR\<rparr> else pc2)"
    unfolding var_index_def r(1) bind.bind_lunit prod.case pc2_def [symmetric] Let_def d ..
  then show ?thesis using m by (auto simp: moved_def pos_ok_def)
qed

lemma JimParseVar_ok:
  assumes "pos_ok s pc" and "0 < plen pc"
  shows "\<exists>pc' rc. JimParseVar s pc = Some (pc', rc) \<and>
    (if rc = JIM_OK then token_ok s pc pc' \<and> pp pc < pp pc'
     else pos_ok s pc' \<and> pp pc \<le> pp pc' \<and> 0 < plen pc' \<and>
       missing pc' \<in> {missing pc, c_lbrace, c_lbrack, c_dquote} \<and> peof pc' = peof pc)"
proof -
  let ?p0 = "(adv 1 pc)\<lparr>tstart := pp (adv 1 pc), ptt := JIM_TT_VAR, tline := linenr (adv 1 pc)\<rparr>"
  have p0: "pos_ok s ?p0" using assms by (simp add: pos_ok_def)
  obtain c where c: "rd s (pp ?p0) = Some c" using pos_ok_read [OF p0] by blast
  show ?thesis
  proof (cases "c = c_lbrace")
    case True
    then have lt: "0 < plen ?p0" using pos_ok_nonzero [OF p0 c] by simp
    let ?p1 = "(adv 1 ?p0)\<lparr>tstart := pp (adv 1 ?p0)\<rparr>"
    have "pos_ok s ?p1" using p0 lt by (simp add: pos_ok_def)
    from var_brace_loop_ok [OF this] obtain p2 where p2: "var_brace_loop s ?p1 = Some p2" "moved s ?p1 p2" by blast
    let ?p3 = "if plen p2 \<noteq> 0 then adv 1 (end_token p2) else end_token p2"
    have "JimParseVar s pc = Some (if tstart ?p3 = pp ?p3 then (?p3\<lparr>pp := pp ?p3 - 1, plen := plen ?p3 + 1\<rparr>, JIM_ERR)
        else (?p3, JIM_OK))"
      unfolding JimParseVar_def Let_def c bind.bind_lunit if_P [OF True] p2(1) by simp
    then show ?thesis
      using p2(2) by (auto simp: moved_def pos_ok_def token_ok_def split: if_splits)
  next
    case False
    obtain p1 where p1: "var_name_loop s ?p0 = Some p1" "moved s ?p0 p1"
      using var_name_loop_ok [OF p0] by blast
    then have ok1: "pos_ok s p1" "tstart p1 \<le> pp p1" by (simp_all add: moved_def)
    obtain d where d: "rd s (pp p1) = Some d" using pos_ok_read [OF ok1(1)] by blast
    obtain p2 where p2: "(if d = c_lparen then var_index s p1 else Some p1) = Some p2" "moved s (p1\<lparr>ptt := ptt p2\<rparr>) p2"
      "ptt p2 \<in> script_types"
    proof (cases "d = c_lparen")
      case True
      with var_index_ok [OF ok1(1) _ ok1(2)] d that show thesis by auto
    next
      case False
      moreover have "ptt p1 \<in> script_types" using p1(2) by (simp add: moved_def)
    ultimately show thesis using that [of p1] moved_refl [OF ok1(1)] by simp
    qed
    let ?p3 = "end_token p2"
    have "JimParseVar s pc = Some (if tstart ?p3 = pp ?p3 then (?p3\<lparr>pp := pp ?p3 - 1, plen := plen ?p3 + 1\<rparr>, JIM_ERR)
        else (?p3, JIM_OK))"
      unfolding JimParseVar_def Let_def c bind.bind_lunit if_not_P [OF False] p1(1) d p2(1) by simp
    then show ?thesis
      using p1(2) p2(2,3) by (auto simp: moved_def pos_ok_def token_ok_def split: if_splits)
  qed
qed


text \<open>A byte at which the loop over a word stops without taking it.\<close>

definition str_stop :: "byte list \<Rightarrow> parser \<Rightarrow> byte \<Rightarrow> bool" where
  "str_stop s pc c \<longleftrightarrow> c = c_dollar \<or> c = c_lbrack \<or> pstate pc = JIM_PS_DEF \<and>
     (c \<in> {c_sp, c_tab, c_nl, c_cr, c_semi} \<or> c = c_bslash \<and> rd s (pp pc + 1) = Some c_nl)"

definition word_closed :: "byte list \<Rightarrow> parser \<Rightarrow> parser \<Rightarrow> bool" where
  "word_closed s pc pc' \<longleftrightarrow> closed s (pc\<lparr>ptt := JIM_TT_ESC\<rparr>) pc' \<and> int (tstart pc) - 1 \<le> tend pc' \<and>
     (\<forall>c. tstart pc = pp pc \<longrightarrow> 0 < plen pc \<longrightarrow> rd s (pp pc) = Some c \<longrightarrow> \<not> str_stop s pc c \<longrightarrow> pp pc < pp pc')"

lemma word_closed_adv:
  "word_closed s (adv n pc) pc' \<Longrightarrow> 0 < n \<Longrightarrow> word_closed s pc pc'"
  "word_closed s (adv n (newline c pc)) pc' \<Longrightarrow> 0 < n \<Longrightarrow> word_closed s pc pc'"
  by (auto simp: word_closed_def closed_def moved_def)

lemma word_closed_adv2:
  "word_closed s (adv 1 (adv 1 (newline c pc))) pc' \<Longrightarrow> word_closed s pc pc'"
  by (auto simp: word_closed_def closed_def moved_def)

lemma str_loop_ok:
  "\<lbrakk>pos_ok s pc; tstart pc \<le> pp pc\<rbrakk> \<Longrightarrow> \<exists>pc'. str_loop s pc = Some pc' \<and> word_closed s pc pc'"
proof (induction s pc rule: str_loop.induct)
  case (1 s pc)
  note ok = 1(7) and ts = 1(8)
  note un = str_loop.simps [of s pc]
  have here: "word_closed s pc ((end_token pc)\<lparr>ptt := JIM_TT_ESC\<rparr>)"
    if "\<And>c. rd s (pp pc) = Some c \<Longrightarrow> 0 < plen pc \<Longrightarrow> str_stop s pc c"
    using ok ts that by (auto simp: word_closed_def closed_def moved_def pos_ok_def)
  show ?case
  proof (cases "plen pc = 0")
    case True
    then show ?thesis
      unfolding un if_P [OF True] using ok ts
      by (auto simp: word_closed_def closed_def moved_def pos_ok_def)
  next
    case False
    then have pos: "0 < plen pc" using ok by (simp add: pos_ok_def)
    have adv: "pos_ok s (adv 1 pc)" "tstart (adv 1 pc) \<le> pp (adv 1 pc)" using ok pos ts by (simp_all add: pos_ok_def)
    have advn: "pos_ok s (adv 1 (newline c pc))" "tstart (adv 1 (newline c pc)) \<le> pp (adv 1 (newline c pc))" for c
      using ok pos ts by (simp_all add: pos_ok_def)
    obtain c where c: "rd s (pp pc) = Some c" using pos_ok_read [OF ok] by blast
    obtain d where d: "rd s (pp pc + 1) = Some d" using pos_ok_read2 [OF ok pos] by blast
    note un = un [unfolded if_not_P [OF False] c bind.bind_lunit]
    show ?thesis
    proof (cases "c = c_bslash")
      case bs: True
      note un = un [unfolded if_P [OF bs]]
      let ?e = "if pstate pc = JIM_PS_DEF then d else 0"
      have e: "(if pstate pc = JIM_PS_DEF then rd s (pp pc + 1) else Some 0) = Some ?e" using d by simp
      note un = un [unfolded e bind.bind_lunit]
      show ?thesis
      proof (cases "pstate pc = JIM_PS_DEF \<and> ?e = c_nl")
        case True
        with c d bs show ?thesis unfolding un if_P [OF True] by (auto intro!: here simp: str_stop_def)
      next
        case n1: False
        show ?thesis
        proof (cases "plen pc \<ge> 2")
          case True
          have "pos_ok s (adv 1 (adv 1 (newline d pc)))" "tstart (adv 1 (adv 1 (newline d pc))) \<le> pp (adv 1 (adv 1 (newline d pc)))"
            using True ok ts by (simp_all add: pos_ok_def)
          from 1(1) [OF False c bs e n1 True d this] show ?thesis
            unfolding un if_not_P [OF n1] if_P [OF True] d bind.bind_lunit by (blast dest: word_closed_adv2)
        next
          case n2: False
          from 1(2) [OF False c bs e n1 n2 adv] show ?thesis
            unfolding un if_not_P [OF n1] if_not_P [OF n2] by (blast dest: word_closed_adv(1) [OF _ zero_less_one])
        qed
      qed
    next
      case nb: False
      note un = un [unfolded if_not_P [OF nb]]
      show ?thesis
      proof (cases "c = c_lparen \<or> c = c_rparen")
        case par: True
        note un = un [unfolded if_P [OF par]]
        let ?e = "if c = c_lparen \<and> plen pc > 1 then d else c_dollar"
        have e: "(if c = c_lparen \<and> plen pc > 1 then rd s (pp pc + 1) else Some c_dollar) = Some ?e" using d by simp
        note un = un [unfolded e bind.bind_lunit]
        show ?thesis
        proof (cases "?e \<noteq> c_dollar")
          case True
          from 1(3) [OF False c nb par e True adv] show ?thesis
            unfolding un if_P [OF True] by (blast dest: word_closed_adv(1) [OF _ zero_less_one])
        next
          case n1: False
          show ?thesis
          proof (cases "c = c_lparen \<or> ptt pc = JIM_TT_VAR")
            case True
            have "word_closed s pc ((end_token (if pp pc = tstart pc then adv 1 pc else pc))\<lparr>ptt := JIM_TT_ESC\<rparr>)"
              using ok ts pos by (auto simp: word_closed_def closed_def moved_def pos_ok_def)
            then show ?thesis unfolding un if_not_P [OF n1] if_P [OF True] by blast
          next
            case n2: False
            from 1(4) [OF False c nb par e n1 n2 adv] show ?thesis
              unfolding un if_not_P [OF n1] if_not_P [OF n2] by (blast dest: word_closed_adv(1) [OF _ zero_less_one])
          qed
        qed
      next
        case np: False
        note un = un [unfolded if_not_P [OF np]]
        show ?thesis
        proof (cases "c = c_dollar \<or> c = c_lbrack")
          case True
          with c show ?thesis unfolding un if_P [OF True] by (auto intro!: here simp: str_stop_def)
        next
          case nd: False
          note un = un [unfolded if_not_P [OF nd]]
          show ?thesis
          proof (cases "c = c_sp \<or> c = c_tab \<or> c = c_nl \<or> c = c_cr \<or> c = c_semi")
            case sep: True
            show ?thesis
            proof (cases "pstate pc = JIM_PS_DEF")
              case True
              with c sep show ?thesis unfolding un if_P [OF sep] if_P [OF True] by (auto intro!: here simp: str_stop_def)
            next
              case q: False
              from 1(5) [OF False c nb np nd sep q advn] show ?thesis
                unfolding un if_P [OF sep] if_not_P [OF q] by (blast dest: word_closed_adv(2) [OF _ zero_less_one])
            qed
          next
            case ns: False
            show ?thesis
            proof (cases "c = c_dquote \<and> pstate pc = JIM_PS_QUOTE")
              case True
              have "word_closed s pc ((adv 1 (end_token pc))\<lparr>ptt := JIM_TT_ESC, pstate := JIM_PS_DEF\<rparr>)"
                using ok ts pos by (auto simp: word_closed_def closed_def moved_def pos_ok_def)
              then show ?thesis unfolding un if_not_P [OF ns] if_P [OF True] by blast
            next
              case nq: False
              from 1(6) [OF False c nb np nd ns nq adv] show ?thesis
                unfolding un if_not_P [OF ns] if_not_P [OF nq] by (blast dest: word_closed_adv(1) [OF _ zero_less_one])
            qed
          qed
        qed
      qed
    qed
  qed
qed


lemma JimParseStr_ok:
  assumes "pos_ok s pc" and "rd s (pp pc) = Some c" and "0 < plen pc" and "\<not> str_stop s pc c"
  shows "\<exists>pc'. JimParseStr s pc = Some pc' \<and> token_ok s pc pc' \<and> pp pc < pp pc'"
proof -
  let ?nw = "ptt pc \<in> {JIM_TT_SEP, JIM_TT_EOL, JIM_TT_NONE, JIM_TT_STR}"
  show ?thesis
  proof (cases "?nw \<and> c = c_lbrace")
    case True
    then show ?thesis
      using JimParseBrace_ok [OF assms(1,3)] assms(2) by (auto simp: JimParseStr_def Let_def)
  next
    case False
    note un = JimParseStr_def [of s pc, unfolded Let_def assms(2) bind.bind_lunit if_not_P [OF False]]
    show ?thesis
    proof (cases "?nw \<and> c = c_dquote")
      case True
      let ?p1 = "(adv 1 pc)\<lparr>pstate := JIM_PS_QUOTE, missingline := tline pc\<rparr>"
      let ?p2 = "?p1\<lparr>tstart := pp ?p1, tline := linenr ?p1\<rparr>"
      have "pos_ok s ?p2" "tstart ?p2 \<le> pp ?p2" using assms(1,3) by (simp_all add: pos_ok_def)
      from str_loop_ok [OF this] obtain pc' where r: "str_loop s ?p2 = Some pc'" "word_closed s ?p2 pc'" by blast
      then have "closed s (?p2\<lparr>ptt := JIM_TT_ESC\<rparr>) pc'" unfolding word_closed_def by blast
      then have "token_ok s pc pc'" "pp pc < pp pc'"
        by (auto simp: token_ok_def closed_def moved_def)
      then show ?thesis using r(1) unfolding un if_P [OF True] by blast
    next
      case f: False
      let ?p2 = "pc\<lparr>tstart := pp pc, tline := linenr pc\<rparr>"
      have p2: "pos_ok s ?p2" "tstart ?p2 \<le> pp ?p2" using assms(1,3) by (simp_all add: pos_ok_def)
      from str_loop_ok [OF this] obtain pc' where r: "str_loop s ?p2 = Some pc'" "word_closed s ?p2 pc'" by blast
      have "\<not> str_stop s ?p2 c" using assms(4) by (simp add: str_stop_def)
      with r(2) assms(2,3) have "closed s (?p2\<lparr>ptt := JIM_TT_ESC\<rparr>) pc'" "pp pc < pp pc'"
        by (auto simp: word_closed_def)
      then have "token_ok s pc pc'" "pp pc < pp pc'"
        by (auto simp: token_ok_def closed_def moved_def)
      then show ?thesis using r(1) unfolding un if_not_P [OF f] by blast
    qed
  qed
qed

lemma JimParseSep_progress:
  assumes "pos_ok s pc" and "rd s (pp pc) = Some c" and "0 < plen pc"
    and "c = c_sp \<or> c = c_tab \<or> c = c_cr \<or> c = c_bslash \<and> rd s (pp pc + 1) = Some c_nl"
  shows "\<exists>pc'. JimParseSep s pc = Some pc' \<and> token_ok s pc pc' \<and> pp pc < pp pc'"
proof -
  let ?p = "pc\<lparr>tstart := pp pc, tline := linenr pc\<rparr>"
  obtain p1 where p1: "sep_loop s ?p = sep_loop s p1" "pos_ok s p1" "pp pc < pp p1"
    "tstart p1 = pp pc" "missing p1 = missing pc" "peof p1 = peof pc"
  proof (cases "c = c_bslash")
    case True
    then have "rd s (pp pc + 1) = Some c_nl" using assms(4) by auto
    moreover from this have "1 < plen pc" using pos_ok_nonzero2 [OF assms(1)] by simp
    ultimately show thesis
      using that [of "adv 1 ((adv 1 ?p)\<lparr>linenr := linenr ?p + 1\<rparr>)"] True assms(1,2)
      by (simp add: sep_loop.simps [of s ?p] pos_ok_def)
  next
    case False
    then show thesis
      using that [of "adv 1 ?p"] assms by (simp add: sep_loop.simps [of s ?p] pos_ok_def)
  qed
  from sep_loop_ok [OF p1(2)] obtain p2 where "sep_loop s p1 = Some p2" "moved s p1 p2" by blast
  then show ?thesis
    using p1 by (auto simp: JimParseSep_def token_ok_def moved_def pos_ok_def)
qed

lemma JimParseEol_progress:
  assumes "pos_ok s pc" and "rd s (pp pc) = Some c" and "0 < plen pc" and "c = c_nl \<or> c = c_semi"
  shows "\<exists>pc'. JimParseEol s pc = Some pc' \<and> token_ok s pc pc' \<and> pp pc < pp pc'"
proof -
  let ?p = "pc\<lparr>tstart := pp pc, tline := linenr pc\<rparr>"
  let ?p1 = "adv 1 (newline c ?p)"
  have "eol_loop s ?p = eol_loop s ?p1" using assms(2,4) by (auto simp: eol_loop.simps [of s ?p])
  moreover have "pos_ok s ?p1" using assms by (simp add: pos_ok_def)
  from eol_loop_ok [OF this] obtain p2 where "eol_loop s ?p1 = Some p2" "moved s ?p1 p2" by blast
  ultimately show ?thesis
    by (auto simp: JimParseEol_def token_ok_def moved_def pos_ok_def)
qed

text \<open>The next token: inside the text, behind the previous one, and each call moves forward.\<close>

lemma token_ok_pcomment [simp]: "token_ok s (pc\<lparr>pcomment := b\<rparr>) pc' = token_ok s pc pc'"
  by (simp add: token_ok_def)

lemma str_stop_pcomment [simp]: "str_stop s (pc\<lparr>pcomment := b\<rparr>) c = str_stop s pc c"
  by (simp add: str_stop_def)

lemma JimParseScript_ok:
  "pos_ok s pc \<Longrightarrow> \<exists>pc'. JimParseScript s pc = Some pc' \<and> token_ok s pc pc' \<and> (peof pc' \<or> pp pc < pp pc')"
proof (induction s pc rule: JimParseScript.induct)
  case (1 s pc)
  note ok = 1(2) and un = JimParseScript.simps [of s pc]
  show ?case
  proof (cases "plen pc = 0")
    case True
    then show ?thesis unfolding un if_P [OF True] using ok by (simp add: token_ok_def pos_ok_def)
  next
    case False
    then have pos: "0 < plen pc" using ok by (simp add: pos_ok_def)
    obtain c where c: "rd s (pp pc) = Some c" using pos_ok_read [OF ok] by blast
    obtain d where d: "rd s (pp pc + 1) = Some d" using pos_ok_read2 [OF ok pos] by blast
    have okc: "pos_ok s (pc\<lparr>pcomment := b\<rparr>)" for b using ok by (simp add: pos_ok_def)
    have str: "\<exists>pc'. JimParseStr s (pc\<lparr>pcomment := b\<rparr>) = Some pc' \<and> token_ok s pc pc' \<and> pp pc < pp pc'"
      if "\<not> str_stop s pc c" for b
      using JimParseStr_ok [OF okc [of b], of c] c pos that by simp
    note un = un [unfolded if_not_P [OF False] c bind.bind_lunit d]
    consider "c = c_bslash" | "c = c_sp \<or> c = c_tab \<or> c = c_cr" | "c = c_nl \<or> c = c_semi" | "c = c_lbrack"
      | "c = c_dollar" | "c = c_hash"
      | "c \<notin> {c_bslash, c_sp, c_tab, c_cr, c_nl, c_semi, c_lbrack, c_dollar, c_hash}" by blast
    then show ?thesis
    proof cases
      case a: 1
      show ?thesis
      proof (cases "d = c_nl \<and> pstate pc = JIM_PS_DEF")
        case True
        then show ?thesis
          using JimParseSep_progress [OF ok c pos] a d unfolding un by auto
      next
        case b: False
        then have "\<not> str_stop s pc c" using a d by (auto simp: str_stop_def)
        from str [OF this, of False] show ?thesis unfolding un if_P [OF a] if_not_P [OF b] by blast
      qed
    next
      case a: 2
      have na: "c \<noteq> c_bslash" using a by auto
      show ?thesis
      proof (cases "pstate pc = JIM_PS_DEF")
        case True
        then show ?thesis
          using JimParseSep_progress [OF ok c pos] a unfolding un by auto
      next
        case b: False
        then have "\<not> str_stop s pc c" using a by (auto simp: str_stop_def)
        from str [OF this, of False] show ?thesis unfolding un if_not_P [OF na] if_P [OF a] if_not_P [OF b] by blast
      qed
    next
      case a: 3
      have na: "c \<noteq> c_bslash" "\<not> (c = c_sp \<or> c = c_tab \<or> c = c_cr)" using a by auto
      show ?thesis
      proof (cases "pstate pc = JIM_PS_DEF")
        case True
        from JimParseEol_progress [OF okc [of True], of c] c pos a obtain pc' where
          "JimParseEol s (pc\<lparr>pcomment := True\<rparr>) = Some pc'" "token_ok s pc pc'" "pp pc < pp pc'"
          by auto
        with True a show ?thesis unfolding un by auto
      next
        case b: False
        then have "\<not> str_stop s pc c" using a by (auto simp: str_stop_def)
        from str [OF this, of True] show ?thesis
          unfolding un if_not_P [OF na(1)] if_not_P [OF na(2)] if_P [OF a] if_not_P [OF b] by blast
      qed
    next
      case a: 4
      from JimParseCmd_ok [OF okc [of False]] pos show ?thesis
        unfolding un using a by auto
    next
      case a: 5
      have "0 < plen (pc\<lparr>pcomment := False\<rparr>)" using pos by simp
      from JimParseVar_ok [OF okc [of False] this] obtain p1 rc where v:
        "JimParseVar s (pc\<lparr>pcomment := False\<rparr>) = Some (p1, rc)"
        "if rc = JIM_OK then token_ok s (pc\<lparr>pcomment := False\<rparr>) p1 \<and> pp (pc\<lparr>pcomment := False\<rparr>) < pp p1
         else pos_ok s p1 \<and> pp (pc\<lparr>pcomment := False\<rparr>) \<le> pp p1 \<and> 0 < plen p1 \<and>
           missing p1 \<in> {missing (pc\<lparr>pcomment := False\<rparr>), c_lbrace, c_lbrack, c_dquote} \<and>
           peof p1 = peof (pc\<lparr>pcomment := False\<rparr>)" by blast
      show ?thesis
      proof (cases rc)
        case JIM_OK
        with v a show ?thesis unfolding un by simp
      next
        case JIM_ERR
        with v a show ?thesis unfolding un by (simp add: token_ok_def pos_ok_def)
      qed
    next
      case a: 6
      show ?thesis
      proof (cases "pcomment pc")
        case True
        have "JimParseComment s pc = JimParseComment s (adv 1 pc)"
          using c a by (simp add: JimParseComment.simps [of s pc])
        moreover have "pos_ok s (adv 1 pc)" "0 < pp (adv 1 pc)" using ok pos by (simp_all add: pos_ok_def)
        from JimParseComment_ok [OF this] obtain p1 where
          "JimParseComment s (adv 1 pc) = Some p1" "moved s (adv 1 pc) p1" by blast
        ultimately have p1: "JimParseComment s pc = Some p1" "moved s (adv 1 pc) p1" by simp_all
        then have "pos_ok s p1" by (simp add: moved_def)
        with 1(1) [OF False c _ _ _ _ _ a True p1(1)] a obtain pc' where
          "JimParseScript s p1 = Some pc'" "token_ok s p1 pc'" "peof pc' \<or> pp p1 < pp pc'" by auto
        then show ?thesis
          unfolding un using a True p1 by (auto simp: token_ok_def moved_def)
      next
        case b: False
        then have pe: "pc\<lparr>pcomment := False\<rparr> = pc" by simp
        have "\<not> str_stop s pc c" using a by (auto simp: str_stop_def)
        from str [OF this, of False] show ?thesis unfolding un pe using a b by auto
      qed
    next
      case a: 7
      then have "\<not> str_stop s pc c" by (auto simp: str_stop_def)
      from str [OF this, of False] show ?thesis unfolding un using a by auto
    qed
  qed
qed

lemma complete_loop_ok:
  "\<lbrakk>pos_ok s pc; missing pc \<in> {c_sp, c_lbrace, c_lbrack, c_dquote}\<rbrakk> \<Longrightarrow>
   \<exists>pc'. complete_loop s pc = Some pc' \<and> missing pc' \<in> {c_sp, c_lbrace, c_lbrack, c_dquote}"
proof (induction "nat (plen pc)" arbitrary: pc rule: less_induct)
  case less
  show ?case
  proof (cases "peof pc")
    case True
    with less.prems show ?thesis by (auto simp: complete_loop.simps [of s pc])
  next
    case False
    obtain p1 where p1: "JimParseScript s pc = Some p1" "token_ok s pc p1" "peof p1 \<or> pp pc < pp p1"
      using JimParseScript_ok [OF less.prems(1)] by blast
    have m: "missing p1 \<in> {c_sp, c_lbrace, c_lbrack, c_dquote}"
      using p1(2) less.prems(2) by (auto simp: token_ok_def)
    have run: "complete_loop s pc = complete_loop s p1"
      using False p1(1) by (simp add: complete_loop.simps [of s pc])
    show ?thesis
    proof (cases "peof p1")
      case True
      with m run show ?thesis by (auto simp: complete_loop.simps [of s p1])
    next
      case False
      with p1 less.prems have "nat (plen p1) < nat (plen pc)" "pos_ok s p1"
        by (auto simp: token_ok_def pos_ok_def)
      from less.hyps [OF this m] show ?thesis unfolding run .
    qed
  qed
qed

section \<open>What a braced word contains\<close>

text \<open>
  Reading a list of bytes as the inside of braces: the depth after it when it starts at depth
  \<open>k\<close>, nothing when a brace closes more than was opened or the last byte is a lone backslash.
\<close>

fun brace_scan :: "nat \<Rightarrow> byte list \<Rightarrow> nat option" where
  "brace_scan k [] = Some k"
| "brace_scan k (c # s) = (if c = c_bslash then (case s of [] \<Rightarrow> None | d # s' \<Rightarrow> brace_scan k s')
     else if c = c_lbrace then brace_scan (k + 1) s
     else if c = c_rbrace then (if k = 0 then None else brace_scan (k - 1) s)
     else brace_scan k s)"

definition newlines :: "byte list \<Rightarrow> int" where
  "newlines s = int (count_list s c_nl)"

lemma newlines_simps [simp]:
  "newlines [] = 0" "newlines (c # s) = (if c = c_nl then 1 else 0) + newlines s"
  "newlines (s @ t) = newlines s + newlines t"
  by (simp_all add: newlines_def)

text \<open>The parser after bytes that were only counted.\<close>

definition past :: "byte list \<Rightarrow> parser \<Rightarrow> parser" where
  "past body pc = pc\<lparr>pp := pp pc + length body, plen := plen pc - int (length body),
     linenr := linenr pc + newlines body\<rparr>"

lemma past_Nil [simp]: "past [] pc = pc"
  by (simp add: past_def)

lemma past_Cons: "past (c # body) pc = past body (adv 1 (newline c pc))"
  by (simp add: past_def adv_def newline_def)

lemma adv_newline: "c \<noteq> c_nl \<Longrightarrow> newline c pc = pc"
  by (simp add: newline_def)

text \<open>The rest of the text at the position, with the length to match.\<close>

definition rest :: "byte list \<Rightarrow> parser \<Rightarrow> byte list \<Rightarrow> bool" where
  "rest s pc r \<longleftrightarrow> drop (pp pc) s = r \<and> pp pc \<le> length s \<and> plen pc = int (length r)"

lemma rest_pos_ok: "rest s pc r \<Longrightarrow> pos_ok s pc"
  by (auto simp: rest_def pos_ok_def)

lemma rest_Cons:
  assumes "rest s pc (c # r)"
  shows "rd s (pp pc) = Some c" "plen pc \<noteq> 0" "0 < plen pc" "rest s (adv 1 pc) r" "rest s (adv 1 (newline d pc)) r"
  using assms drop_ConsD [of "pp pc" s c r] by (auto simp: rest_def)

lemma rest_Cons2: "rest s pc (c # d # r) \<Longrightarrow> rd s (pp pc + 1) = Some d \<and> 1 < plen pc"
  using rest_Cons(1) [OF rest_Cons(4), of s pc c d r] by (simp add: rest_def)

lemma rest_Nil: "rest s pc [] \<Longrightarrow> plen pc = 0 \<and> rd s (pp pc) = Some 0"
  by (auto simp: rest_def rd_def)

lemma sub_brace_loop_scan:
  assumes "brace_scan k body = Some 0" and "rest s pc (body @ c_rbrace # post)"
  shows "sub_brace_loop s (int k + 1) pc = Some (adv 1 (end_token (past body pc)))"
  using assms
proof (induction k body arbitrary: pc rule: brace_scan.induct)
  case (1 k)
  then show ?case
    unfolding sub_brace_loop.simps [of s "int k + 1" pc] using rest_Cons [of s pc c_rbrace post] by simp
next
  case (2 k c t)
  note un = sub_brace_loop.simps [of s "int k + 1" pc]
  have r: "rest s pc (c # (t @ c_rbrace # post))" using 2(6) by simp
  note h = rest_Cons [OF r]
  consider "c = c_bslash" | "c = c_lbrace" | "c = c_rbrace" | "c \<noteq> c_bslash" "c \<noteq> c_lbrace" "c \<noteq> c_rbrace" by blast
  then show ?case
  proof cases
    case a: 1
    with 2(5) obtain d t' where t: "t = d # t'" "brace_scan k t' = Some 0" by (cases t) auto
    have "rest s pc (c # d # (t' @ c_rbrace # post))" using r t by simp
    from rest_Cons2 [OF this] have d: "rd s (pp pc + 1) = Some d" "1 < plen pc" by auto
    have "rest s (adv 1 (newline d (adv 1 pc))) (t' @ c_rbrace # post)"
      using rest_Cons(5) [OF h(4) [unfolded t append_Cons]] .
    moreover have eq: "adv 1 (newline d (adv 1 pc)) = adv 1 (adv 1 (newline d pc))"
      by (simp add: adv_def newline_def)
    ultimately have "sub_brace_loop s (int k + 1) (adv 1 (adv 1 (newline d pc))) =
        Some (adv 1 (end_token (past t' (adv 1 (adv 1 (newline d pc))))))"
      using 2(1) [OF a t(1,2)] by simp
    moreover have "past (c # t) pc = past t' (adv 1 (newline d (adv 1 pc)))"
      using a t by (simp add: past_Cons adv_newline)
    then have "past (c # t) pc = past t' (adv 1 (adv 1 (newline d pc)))" unfolding eq .
    ultimately show ?thesis
      unfolding un using h a d by (simp add: skip_escape_def)
  next
    case a: 2
    with 2(5) have "brace_scan (k + 1) t = Some 0" by simp
    have "int (k + 1) + 1 = int k + 1 + 1" by simp
    with 2(2) [OF _ a \<open>brace_scan (k + 1) t = Some 0\<close> h(4)] a show ?thesis
      unfolding un using h by (simp add: past_Cons adv_newline)
  next
    case a: 3
    with 2(5) have k: "k \<noteq> 0" "brace_scan (k - 1) t = Some 0" by (auto split: if_splits)
    from 2(3) [OF _ _ a k(1,2) h(4)] a k(1) show ?thesis
      unfolding un using h by (simp add: past_Cons adv_newline of_nat_diff)
  next
    case a: 4
    with 2(5) have "brace_scan k t = Some 0" by simp
    from 2(4) [OF a this h(5)] a show ?thesis
      unfolding un using h by (simp add: past_Cons)
  qed
qed

lemma JimParseBrace_scan:
  assumes "brace_scan 0 body = Some 0" and "rest s pc (c_lbrace # body @ c_rbrace # post)"
  shows "JimParseBrace s pc = Some (adv 1 (end_token (past body
    (adv 1 (pc\<lparr>tstart := pp pc + 1, tline := linenr pc, ptt := JIM_TT_STR\<rparr>)))))"
proof -
  let ?pc = "pc\<lparr>tstart := pp pc + 1, tline := linenr pc, ptt := JIM_TT_STR\<rparr>"
  have "rest s (adv 1 ?pc) (body @ c_rbrace # post)"
    using rest_Cons(4) [OF assms(2)] by (simp add: rest_def)
  from sub_brace_loop_scan [OF assms(1) this] show ?thesis
    by (simp add: JimParseBrace_def JimParseSubBrace_def)
qed

text \<open>
  C27: Reading a word in braces takes exactly the bytes up to the brace that balances the first
  one (braces behind a backslash do not count), as one token without the braces, and counts its
  lines.
\<close>

theorem JimParseBrace_balanced:
  assumes "brace_scan 0 body = Some 0" and "s = pre @ c_lbrace # body @ c_rbrace # post"
    and "pp pc = length pre" and "plen pc = int (length s) - int (length pre)"
  shows "\<exists>pc'. JimParseBrace s pc = Some pc' \<and> ptt pc' = JIM_TT_STR \<and>
    take (nat (tend pc' + 1 - int (tstart pc'))) (drop (tstart pc') s) = body \<and>
    drop (pp pc') s = post \<and> linenr pc' = linenr pc + newlines body \<and> tline pc' = linenr pc"
proof -
  have "rest s pc (c_lbrace # body @ c_rbrace # post)"
    using assms(2-4) by (simp add: rest_def)
  from JimParseBrace_scan [OF assms(1) this] show ?thesis
    using assms(2,3) by (simp add: past_def adv_def end_token_def)
qed

theorem JimParseBrace_balanced_witness:
  "\<exists>pc'. JimParseBrace (bytes_of ''{a {b} c}x'') (JimParserInit 10 1) = Some pc' \<and> ptt pc' = JIM_TT_STR \<and>
    drop (pp pc') (bytes_of ''{a {b} c}x'') = bytes_of ''x''"
  using JimParseBrace_balanced [of "bytes_of ''a {b} c''" "bytes_of ''{a {b} c}x''" "[]" "bytes_of ''x''" "JimParserInit 10 1"]
  by (auto simp: JimParserInit_def)

text \<open>
  C28: Whether a script is complete is decided for every text without a read outside of it, and
  the state character is a blank or the opening character that is missing its end.
\<close>

theorem Jim_ScriptIsComplete_total:
  "\<exists>b c. Jim_ScriptIsComplete s = Some (b, c) \<and> c \<in> {c_sp, c_lbrace, c_lbrack, c_dquote} \<and> (b \<longleftrightarrow> c = c_sp)"
proof -
  have "pos_ok s (JimParserInit (int (length s)) 1)" by (simp add: pos_ok_def JimParserInit_def)
  from complete_loop_ok [OF this] show ?thesis
    by (auto simp: Jim_ScriptIsComplete_def JimParserInit_def)
qed

text \<open>A dollar sign at the end of a quoted word makes a complete script look incomplete.\<close>

lemma quoted_dollar_incomplete: "Jim_ScriptIsComplete (bytes_of ''\"$\"'') = Some (False, c_dquote)"
  by code_simp

end
