(* ===== verification/Jim_Escape.thy ===== *)
theory Jim_Escape
  imports Jim_Parser Jim_Utf8
begin

text \<open>
  Backslash substitution of the Jim interpreter (\<open>src/test2/jim.c\<close>): \<open>JimEscape\<close> and the
  functions that make a string from a token. The source is the memory from the first byte on,
  with its terminator (\<open>None\<close> is a read behind it), the result the bytes written to the
  destination; that they fit is a theorem.
\<close>

section \<open>Digits\<close>

definition xdigitval :: "byte \<Rightarrow> u32 option" where
  "xdigitval c = (if c_0 \<le> c \<and> c \<le> c_9 then Some (ucast (c - c_0))
     else if c_a \<le> c \<and> c \<le> c_f then Some (ucast (c - c_a) + 10)
     else if c_A \<le> c \<and> c \<le> c_F then Some (ucast (c - c_A) + 10)
     else None)"

definition odigitval :: "byte \<Rightarrow> u32 option" where
  "odigitval c = (if c_0 \<le> c \<and> c \<le> c_7 then Some (ucast (c - c_0)) else None)"

section \<open>One substitution\<close>

text \<open>At most \<open>n\<close> hexadecimal digits from index \<open>j\<close> on: their number and value.\<close>

fun hex_loop :: "byte list \<Rightarrow> nat \<Rightarrow> nat \<Rightarrow> nat \<Rightarrow> u32 \<Rightarrow> (nat \<times> u32) option" where
  "hex_loop s j 0 k val = Some (k, val)"
| "hex_loop s j (Suc n) k val = do {
     c \<leftarrow> rd s j;
     case xdigitval c of None \<Rightarrow> Some (k, val)
     | Some d \<Rightarrow> hex_loop s (j + 1) n (k + 1) (push_bit 4 val OR d)
   }"

text \<open>The blanks after a backslash and a newline: the last index that is skipped.\<close>

function blank_loop :: "byte list \<Rightarrow> nat \<Rightarrow> nat option" where
  "blank_loop s i = do {
     c \<leftarrow> rd s (i + 1);
     if c = c_sp \<or> c = c_tab then blank_loop s (i + 1) else Some i
   }"
  by pat_completeness auto
termination
  by (relation "measure (\<lambda>(s, i). length s - i)") (auto dest: rd_SomeD)

declare blank_loop.simps [simp del]

text \<open>The digits of an octal escape: the value and how many there are.\<close>

definition octal_escape :: "byte list \<Rightarrow> nat \<Rightarrow> u32 \<Rightarrow> (u32 \<times> nat) option" where
  "octal_escape s i val = do {
     c \<leftarrow> rd s (i + 2);
     case odigitval c of None \<Rightarrow> Some (val, 1)
     | Some d \<Rightarrow> do {
         let val = val * 8 + d;
         c \<leftarrow> rd s (i + 3);
         case odigitval c of None \<Rightarrow> Some (val, 2) | Some d \<Rightarrow> Some (val * 8 + d, 3)
       }
   }"

text \<open>The bytes for what stands at index \<open>i\<close> and the index of its last byte.\<close>

definition escape_step :: "byte list \<Rightarrow> nat \<Rightarrow> (byte list \<times> nat) option" where
  "escape_step s i = do {
     c \<leftarrow> rd s i;
     if c \<noteq> c_bslash then Some ([c], i)
     else do {
       d \<leftarrow> rd s (i + 1);
       if d = c_a then Some ([0x7], i + 1)
       else if d = c_b then Some ([0x8], i + 1)
       else if d = c_f then Some ([0xc], i + 1)
       else if d = c_n then Some ([0xa], i + 1)
       else if d = c_r then Some ([0xd], i + 1)
       else if d = c_t then Some ([0x9], i + 1)
       else if d = c_u \<or> d = c_x then do {
         (k, val) \<leftarrow> hex_loop s (i + 2) (if d = c_u then 4 else 2) 0 0;
         Some (if k > 0 then (if d = c_u then utf8_fromunicode (ucast val) else [ucast val], i + 1 + k)
           else ([d], i + 1))
       }
       else if d = c_v then Some ([0xb], i + 1)
       else if d = 0 then Some ([c_bslash], i + 1)
       else if d = c_nl then do {
         j \<leftarrow> blank_loop s (i + 1);
         Some ([c_sp], j)
       }
       else case odigitval d of
         Some val \<Rightarrow> do {
           (val, k) \<leftarrow> octal_escape s i val;
           Some ([ucast val], i + k)
         }
       | None \<Rightarrow> Some ([d], i + 1)
     }
   }"

lemma blank_loop_ge: "blank_loop s i = Some j \<Longrightarrow> i \<le> j"
  by (induction s i rule: blank_loop.induct, subst (asm) (2) blank_loop.simps)
    (auto split: if_splits bind_splits)

lemma escape_step_ge: "escape_step s i = Some (bs, j) \<Longrightarrow> i \<le> j"
  by (auto simp: escape_step_def octal_escape_def Let_def dest: blank_loop_ge
      split: if_splits bind_splits option.splits)

lemma escape_step_le: "escape_step s i = Some (bs, j) \<Longrightarrow> i \<le> length s"
  by (auto simp: escape_step_def dest: rd_SomeD split: bind_splits)

section \<open>Whole strings\<close>

function escape_loop :: "byte list \<Rightarrow> nat \<Rightarrow> nat \<Rightarrow> byte list \<Rightarrow> byte list option" where
  "escape_loop s slen i out = (if i < slen then do {
       (bs, j) \<leftarrow> escape_step s i;
       escape_loop s slen (j + 1) (out @ bs)
     } else Some out)"
  by pat_completeness auto
termination
  by (relation "measure (\<lambda>(s, slen, i, out). slen - i)") (auto dest: escape_step_ge)

declare escape_loop.simps [simp del]

definition JimEscape :: "byte list \<Rightarrow> int \<Rightarrow> byte list option" where
  "JimEscape s slen = escape_loop s (if slen = -1 then length (cstr s) else nat slen) 0 []"

text \<open>The string of the current token of the parser.\<close>

definition JimParserGetTokenObj :: "byte list \<Rightarrow> parser \<Rightarrow> byte list option" where
  "JimParserGetTokenObj s pc = (if int (tstart pc) > tend pc then Some []
     else do {
       let len = nat (tend pc - int (tstart pc) + 1);
       if ptt pc \<noteq> JIM_TT_ESC then slice s (tstart pc) len
       else JimEscape (drop (tstart pc) s) (int len)
     })"

section \<open>Reads stay inside the string\<close>

lemma hex_loop_ok: "j \<le> length s \<Longrightarrow> \<exists>k' val'. hex_loop s j n k val = Some (k', val') \<and> k \<le> k' \<and> j + (k' - k) \<le> length s"
proof (induction n arbitrary: j k val)
  case (Suc n)
  obtain c where c: "rd s j = Some c" using rd_le [OF Suc.prems] by blast
  show ?case
  proof (cases "xdigitval c")
    case None
    with c Suc.prems show ?thesis by simp
  next
    case (Some d)
    then have "c \<noteq> 0" by (auto simp: xdigitval_def)
    with c have "j + 1 \<le> length s" using rd_nonzeroD by fastforce
    from Suc.IH [OF this, of "k + 1" "push_bit 4 val OR d"] obtain k' val' where
      "hex_loop s (j + 1) n (k + 1) (push_bit 4 val OR d) = Some (k', val')" "k + 1 \<le> k'"
      "j + 1 + (k' - (k + 1)) \<le> length s" by blast
    then show ?thesis using c Some by (intro exI [of _ k'] exI [of _ val']) simp
  qed
qed simp

lemma blank_loop_ok: "i < length s \<Longrightarrow> \<exists>j. blank_loop s i = Some j \<and> i \<le> j \<and> j < length s"
proof (induction s i rule: blank_loop.induct)
  case (1 s i)
  obtain c where c: "rd s (i + 1) = Some c" using rd_le [of "i + 1" s] 1(2) by auto
  show ?case
  proof (cases "c = c_sp \<or> c = c_tab")
    case True
    then have "c \<noteq> 0" by auto
    with c have "i + 1 < length s" using rd_nonzeroD by blast
    from 1(1) [OF c True this] show ?thesis
      using c True by (auto simp: blank_loop.simps [of s i])
  next
    case False
    with c 1(2) show ?thesis by (simp add: blank_loop.simps [of s i])
  qed
qed

lemma octal_escape_ok:
  assumes "i + 1 < length s"
  shows "\<exists>v k. octal_escape s i val = Some (v, k) \<and> 1 \<le> k \<and> i + k < length s"
proof -
  obtain c where c: "rd s (i + 2) = Some c" using rd_le [of "i + 2" s] assms by auto
  show ?thesis
  proof (cases "odigitval c")
    case None
    with c assms show ?thesis by (simp add: octal_escape_def)
  next
    case (Some d)
    then have "c \<noteq> 0" by (auto simp: odigitval_def)
    with c have lt: "i + 2 < length s" using rd_nonzeroD by blast
    then obtain e where e: "rd s (i + 3) = Some e" using rd_le [of "i + 3" s] by auto
    show ?thesis
    proof (cases "odigitval e")
      case None
      with c e Some lt show ?thesis by (simp add: octal_escape_def Let_def)
    next
      case (Some d')
      then have "e \<noteq> 0" by (auto simp: odigitval_def)
      with e have "i + 3 < length s" using rd_nonzeroD by blast
      with c e Some \<open>odigitval c = Some d\<close> show ?thesis by (simp add: octal_escape_def Let_def)
    qed
  qed
qed

text \<open>
  One substitution reads inside the string, writes at most as many bytes as it takes, and takes
  at most the terminator in addition to the bytes of the string.
\<close>

lemma escape_step_ok:
  assumes "i < length s"
  shows "\<exists>bs j. escape_step s i = Some (bs, j) \<and> i \<le> j \<and> j \<le> length s \<and>
    i + length bs \<le> min (j + 1) (length s)"
proof -
  obtain c where c: "rd s i = Some c" using assms by simp
  obtain d where d: "rd s (i + 1) = Some d" using rd_le [of "i + 1" s] assms by auto
  have in1: "i + 1 < length s" if "d \<noteq> 0" using d that rd_nonzeroD by blast
  consider "c \<noteq> c_bslash" | "c = c_bslash" "d = c_u \<or> d = c_x" | "c = c_bslash" "d = c_nl"
    | "c = c_bslash" "odigitval d \<noteq> None"
    | "c = c_bslash" "d \<noteq> c_u" "d \<noteq> c_x" "d \<noteq> c_nl" "odigitval d = None" by blast
  then show ?thesis
  proof cases
    case 1
    with c assms show ?thesis by (simp add: escape_step_def)
  next
    case 2
    then have dz: "d \<noteq> 0" by auto
    from hex_loop_ok [of "i + 2" s "if d = c_u then 4 else 2" 0 0] in1 [OF dz] obtain k val where h:
      "hex_loop s (i + 2) (if d = c_u then 4 else 2) 0 0 = Some (k, val)" "i + 2 + k \<le> length s" by auto
    have "escape_step s i = Some (if k > 0 then (if d = c_u then utf8_fromunicode (ucast val) else [ucast val], i + 1 + k)
           else ([d], i + 1))"
      using 2 c d h(1) by (auto simp: escape_step_def)
    then show ?thesis
      using h(2) in1 [OF dz] fromunicode_len [of "ucast val"] by auto
  next
    case 3
    then obtain j where "blank_loop s (i + 1) = Some j" "i + 1 \<le> j" "j < length s"
      using blank_loop_ok [of "i + 1" s] in1 by auto
    with 3 c d show ?thesis by (simp add: escape_step_def)
  next
    case 4
    then obtain val where val: "odigitval d = Some val" by auto
    then have dz: "c_0 \<le> d" "d \<le> c_7" by (auto simp: odigitval_def split: if_splits)
    then have "d \<noteq> 0" by auto
    from octal_escape_ok [OF in1 [OF this], of val] obtain v k where
      o: "octal_escape s i val = Some (v, k)" "1 \<le> k" "i + k < length s" by blast
    have "d \<notin> {c_a, c_b, c_f, c_n, c_r, c_t, c_u, c_x, c_v, 0, c_nl}" using dz by auto
    then have "escape_step s i = Some ([ucast v], i + k)"
      using 4 c d val o(1) by (simp add: escape_step_def)
    with o(2,3) show ?thesis by simp
  next
    case 5
    show ?thesis
    proof (cases "d = 0")
      case True
      with 5 c d assms show ?thesis by (simp add: escape_step_def)
    next
      case False
      with 5 c d in1 [OF False] show ?thesis by (simp add: escape_step_def)
    qed
  qed
qed

lemma escape_loop_ok:
  assumes "slen \<le> length s"
  shows "\<exists>out'. escape_loop s slen i out = Some out'"
proof (induction "slen - i" arbitrary: i out rule: less_induct)
  case less
  show ?case
  proof (cases "i < slen")
    case True
    then obtain bs j where "escape_step s i = Some (bs, j)" "i \<le> j"
      using escape_step_ok [of i s] assms by auto
    with less [of "j + 1" "out @ bs"] True show ?thesis by (simp add: escape_loop.simps [of s slen i])
  next
    case False
    then show ?thesis by (simp add: escape_loop.simps [of s slen i])
  qed
qed

lemma escape_loop_length:
  assumes "length out \<le> i" and "i \<le> length s \<or> i = Suc (length s) \<and> length out \<le> length s"
  shows "\<exists>out'. escape_loop s (length s) i out = Some out' \<and> length out' \<le> length s"
  using assms
proof (induction "length s - i" arbitrary: i out rule: less_induct)
  case less
  show ?case
  proof (cases "i < length s")
    case True
    then obtain bs j where st: "escape_step s i = Some (bs, j)" "i \<le> j" "j \<le> length s"
      "i + length bs \<le> min (j + 1) (length s)" using escape_step_ok [of i s] by blast
    have "length s - (j + 1) < length s - i" "length (out @ bs) \<le> j + 1"
      "j + 1 \<le> length s \<or> j + 1 = Suc (length s) \<and> length (out @ bs) \<le> length s"
      using less.prems(1) True st by auto
    from less.hyps [OF this] show ?thesis
      unfolding escape_loop.simps [of s "length s" i] using st(1) True by simp
  next
    case False
    with less.prems show ?thesis by (auto simp: escape_loop.simps [of s "length s" i])
  qed
qed

lemma JimEscape_in: "n \<le> length s \<Longrightarrow> \<exists>out. JimEscape s (int n) = Some out"
  using escape_loop_ok [of n s 0 "[]"] by (simp add: JimEscape_def)

lemma JimParserGetTokenObj_ok:
  assumes "tend pc < int (length s)"
  shows "\<exists>t. JimParserGetTokenObj s pc = Some t"
proof (cases "int (tstart pc) > tend pc")
  case False
  let ?len = "nat (tend pc - int (tstart pc) + 1)"
  have "tstart pc + ?len \<le> length s" using assms False by linarith
  then have "slice s (tstart pc) ?len \<noteq> None" "JimEscape (drop (tstart pc) s) (int ?len) \<noteq> None"
    using JimEscape_in [of ?len "drop (tstart pc) s"] by auto
  then show ?thesis
    using False by (auto simp: JimParserGetTokenObj_def Let_def simp del: slice_in)
qed (simp add: JimParserGetTokenObj_def)

section \<open>Properties\<close>

text \<open>
  C38: Backslash substitution of a whole string reads nothing behind its terminator, and its
  result is never longer than the string, so it fits the buffer of that size the callers allocate.
\<close>

theorem JimEscape_fits:
  assumes "slen = -1 \<longrightarrow> 0 \<notin> set s" and "slen \<noteq> -1 \<longrightarrow> slen = int (length s)"
  shows "\<exists>out. JimEscape s slen = Some out \<and> length out \<le> length s"
proof -
  have "(if slen = -1 then length (cstr s) else nat slen) = length s" using assms by auto
  then show ?thesis
    using escape_loop_length [of "[]" 0 s] by (simp add: JimEscape_def)
qed

theorem JimEscape_fits_witness:
  "\<exists>out. JimEscape [c_bslash, c_u, 0x32, 0x30, c_a, 0x63, c_bslash, c_q, c_bslash] (-1) = Some out \<and>
     length out \<le> 9"
proof -
  let ?s = "[c_bslash, c_u, 0x32, 0x30, c_a, 0x63, c_bslash, c_q, c_bslash]"
  have "\<exists>out. JimEscape ?s (-1) = Some out \<and> length out \<le> length ?s"
    by (rule JimEscape_fits) simp_all
  moreover have "length ?s = 9" by simp
  ultimately show ?thesis by (simp only:)
qed

end
