(* ===== verification/Jim_Script.thy ===== *)
theory Jim_Script
  imports Jim_Escape
begin

text \<open>
  The compiler of scripts of the Jim interpreter (\<open>src/test2/jim.c\<close>): the list of parsed
  tokens, \<open>ScriptObjAddTokens\<close> which turns it into the array of script tokens with \<open>LINE\<close> and
  \<open>WORD\<close> entries, \<open>SubstObjAddTokens\<close> and \<open>SetScriptFromAny\<close>. Objects stand for what they hold:
  a string with its line, a line with its number of arguments, or an integer. \<open>None\<close> is an access
  outside of the text, the token list or the array that was allocated.
\<close>

section \<open>Parsed tokens\<close>

record parse_token =
  pt_token :: nat
  pt_len :: int
  pt_type :: token_type
  pt_line :: int

record token_list =
  tl_list :: "parse_token list"
  tl_size :: nat

definition ScriptTokenListInit :: token_list where
  "ScriptTokenListInit = \<lparr>tl_list = [], tl_size = 20\<rparr>"

text \<open>The entries used are the list; the array has room for \<open>tl_size\<close> of them.\<close>

definition ScriptAddToken :: "token_list \<Rightarrow> nat \<Rightarrow> int \<Rightarrow> token_type \<Rightarrow> int \<Rightarrow> token_list option" where
  "ScriptAddToken tks token len type line = (let
     tks = (if length (tl_list tks) = tl_size tks then tks\<lparr>tl_size := tl_size tks * 2\<rparr> else tks)
   in if length (tl_list tks) < tl_size tks
     then Some (tks\<lparr>tl_list := tl_list tks @ [\<lparr>pt_token = token, pt_len = len, pt_type = type, pt_line = line\<rparr>]\<rparr>)
     else None)"

definition TOKEN_IS_SEP :: "token_type \<Rightarrow> bool" where
  "TOKEN_IS_SEP type \<longleftrightarrow> type = JIM_TT_SEP \<or> type = JIM_TT_EOL \<or> type = JIM_TT_EOF"

section \<open>Words\<close>

text \<open>Whether the word is an asterisk or \<open>expand\<close>.\<close>

definition is_expand :: "byte list \<Rightarrow> parse_token \<Rightarrow> bool option" where
  "is_expand s t = (if pt_len t = 1 then map_option (\<lambda>c. c = c_star) (rd s (pt_token t))
     else if pt_len t = 6 then map_option (\<lambda>w. w = bytes_of ''expand'') (slice s (pt_token t) 6)
     else Some False)"

function count_loop :: "parse_token list \<Rightarrow> nat \<Rightarrow> int \<Rightarrow> int option" where
  "count_loop ts i cnt = do {
     t \<leftarrow> peek ts i;
     if TOKEN_IS_SEP (pt_type t) then Some cnt else count_loop ts (i + 1) (cnt + 1)
   }"
  by pat_completeness auto
termination
  by (relation "measure (\<lambda>(ts, i, cnt). length ts - i)") (auto dest: peek_SomeD)

declare count_loop.simps [simp del]

definition JimCountWordTokens :: "byte list \<Rightarrow> parse_token list \<Rightarrow> nat \<Rightarrow> int option" where
  "JimCountWordTokens s ts i = do {
     t \<leftarrow> peek ts i;
     e \<leftarrow> (if pt_type t = JIM_TT_STR then do {
         t1 \<leftarrow> peek ts (i + 1);
         if TOKEN_IS_SEP (pt_type t1) then Some False else is_expand s t
       } else Some False);
     cnt \<leftarrow> count_loop ts (if e then i + 1 else i) 0;
     Some (cnt * (if e then -1 else 1))
   }"

section \<open>Script tokens\<close>

datatype script_obj = Obj_String "byte list" int | Obj_Line int int | Obj_Int int

record script_token =
  st_type :: token_type
  st_obj :: script_obj

definition JimMakeScriptObj :: "byte list \<Rightarrow> parse_token \<Rightarrow> byte list option" where
  "JimMakeScriptObj s t = do {
     bs \<leftarrow> slice s (pt_token t) (nat (pt_len t));
     if pt_type t = JIM_TT_ESC \<and> c_bslash \<in> set bs
     then JimEscape (drop (pt_token t) s) (pt_len t)
     else Some bs
   }"

text \<open>The state of the loop: the array allocated, the index of the next entry and of the line's.\<close>

record add_state =
  as_array :: "script_token option list"
  as_token :: nat
  as_linefirst :: nat
  as_lineargs :: int
  as_linenr :: int

text \<open>Writing the next entry.\<close>

definition put_token :: "token_type \<Rightarrow> script_obj \<Rightarrow> add_state \<Rightarrow> add_state option" where
  "put_token type obj st = do {
     a \<leftarrow> poke (as_array st) (as_token st) (Some \<lparr>st_type = type, st_obj = obj\<rparr>);
     Some (st\<lparr>as_array := a, as_token := as_token st + 1\<rparr>)
   }"

function skip_seps :: "parse_token list \<Rightarrow> nat \<Rightarrow> nat option" where
  "skip_seps ts i = do {
     t \<leftarrow> peek ts i;
     if pt_type t = JIM_TT_SEP then skip_seps ts (i + 1) else Some i
   }"
  by pat_completeness auto
termination
  by (relation "measure (\<lambda>(ts, i). length ts - i)") (auto dest: peek_SomeD)

declare skip_seps.simps [simp del]

lemma skip_seps_ge: "skip_seps ts i = Some j \<Longrightarrow> i \<le> j"
  by (induction ts i rule: skip_seps.induct, subst (asm) (2) skip_seps.simps)
    (fastforce split: if_splits bind_splits)

text \<open>The end of a line: its entry gets the number of words, if there were any.\<close>

definition end_line :: "add_state \<Rightarrow> add_state option" where
  "end_line st = (if as_lineargs st = 0 then Some st
     else do {
       a \<leftarrow> poke (as_array st) (as_linefirst st)
         (Some \<lparr>st_type = JIM_TT_LINE, st_obj = Obj_Line (as_lineargs st) (as_linenr st)\<rparr>);
       Some (st\<lparr>as_array := a, as_lineargs := 0, as_linefirst := as_token st, as_token := as_token st + 1\<rparr>)
     })"

text \<open>The tokens of a word, each as a string object.\<close>

fun add_words :: "byte list \<Rightarrow> parse_token list \<Rightarrow> nat \<Rightarrow> nat \<Rightarrow> add_state \<Rightarrow> add_state option" where
  "add_words s ts i 0 st = Some st"
| "add_words s ts i (Suc n) st = do {
     t \<leftarrow> peek ts i;
     bs \<leftarrow> JimMakeScriptObj s t;
     st \<leftarrow> put_token (pt_type t) (Obj_String bs (pt_line t)) st;
     add_words s ts (i + 1) n st
   }"

definition start_line :: "parse_token list \<Rightarrow> nat \<Rightarrow> add_state \<Rightarrow> add_state option" where
  "start_line ts i st = do {
     st \<leftarrow> (if as_lineargs st = 0
       then map_option (\<lambda>t. st\<lparr>as_linenr := pt_line t\<rparr>) (peek ts i) else Some st);
     Some (st\<lparr>as_lineargs := as_lineargs st + 1\<rparr>)
   }"

function add_tokens_loop :: "byte list \<Rightarrow> parse_token list \<Rightarrow> nat \<Rightarrow> add_state \<Rightarrow> add_state option" where
  "add_tokens_loop s ts i st = (if i < length ts then do {
       i1 \<leftarrow> skip_seps ts i;
       w \<leftarrow> JimCountWordTokens s ts i1;
       if w = 0 then do {
         st \<leftarrow> end_line st;
         add_tokens_loop s ts (i1 + 1) st
       } else do {
         st \<leftarrow> (if w \<noteq> 1 then put_token JIM_TT_WORD (Obj_Int w) st else Some st);
         let (i2, n, st) = (if w < 0 then (i1 + 1, nat (- w - 1), st\<lparr>as_lineargs := as_lineargs st - 1\<rparr>)
           else (i1, nat w, st));
         st \<leftarrow> start_line ts i2 st;
         st \<leftarrow> add_words s ts i2 n st;
         add_tokens_loop s ts (i2 + n) st
       }
     } else Some st)"
  by pat_completeness auto
termination
  by (relation "measure (\<lambda>(s, ts, i, st). length ts - i)") (auto dest!: skip_seps_ge split: if_splits)

declare add_tokens_loop.simps [simp del]

text \<open>
  The whole array; the result also tells the line of the first token. The assertion that the
  array was not filled up is checked: \<open>None\<close> when it fails, or when an entry was not written.
\<close>

definition ScriptObjAddTokens :: "byte list \<Rightarrow> parse_token list \<Rightarrow> (script_token list \<times> int) option" where
  "ScriptObjAddTokens s ts = do {
     let cnt = length ts + length (filter (\<lambda>t. pt_type t = JIM_TT_EOL) ts);
     t0 \<leftarrow> peek ts 0;
     st \<leftarrow> add_tokens_loop s ts 0 \<lparr>as_array = replicate cnt None, as_token = 1, as_linefirst = 0,
       as_lineargs = 0, as_linenr = pt_line t0\<rparr>;
     let n = (if as_lineargs st = 0 then as_token st - 1 else as_token st);
     if n < cnt then do {
       toks \<leftarrow> those (take n (as_array st));
       Some (toks, pt_line t0)
     } else None
   }"

text \<open>Tokens of a string to be substituted: one entry each.\<close>

definition SubstObjAddTokens :: "byte list \<Rightarrow> parse_token list \<Rightarrow> script_token list option" where
  "SubstObjAddTokens s ts = those (map (\<lambda>t. map_option (\<lambda>bs. \<lparr>st_type = pt_type t, st_obj = Obj_String bs (pt_line t)\<rparr>)
     (JimMakeScriptObj s t)) ts)"

section \<open>Scripts\<close>

partial_function (option) script_tokens_loop ::
  "byte list \<Rightarrow> parser \<Rightarrow> token_list \<Rightarrow> (parser \<times> token_list) option" where
  "script_tokens_loop s pc tks = (if peof pc then Some (pc, tks)
     else do {
       pc \<leftarrow> JimParseScript s pc;
       tks \<leftarrow> ScriptAddToken tks (tstart pc) (tend pc - int (tstart pc) + 1) (ptt pc) (tline pc);
       script_tokens_loop s pc tks
     })"

declare script_tokens_loop.simps [code]

text \<open>
  \<open>Inl\<close> is the parse result of a script that is missing an end (\<open>JIM_ERR\<close>), reported when the
  caller asks for it.
\<close>

definition SetScriptFromAny :: "byte list \<Rightarrow> int \<Rightarrow> bool \<Rightarrow> (byte \<times> int + script_token list \<times> int) option" where
  "SetScriptFromAny s line result = do {
     (pc, tks) \<leftarrow> script_tokens_loop s (JimParserInit (int (length s)) line) ScriptTokenListInit;
     if result \<and> missing pc \<noteq> c_sp then Some (Inl (missing pc, missingline pc))
     else do {
       tks \<leftarrow> ScriptAddToken tks (length s) 0 JIM_TT_EOF 0;
       r \<leftarrow> ScriptObjAddTokens s (tl_list tks);
       Some (Inr r)
     }
   }"

section \<open>The tokens of a script\<close>

definition span_ok :: "byte list \<Rightarrow> parse_token \<Rightarrow> bool" where
  "span_ok s t \<longleftrightarrow> 0 \<le> pt_len t \<and> int (pt_token t) + pt_len t \<le> int (length s)"

definition before :: "parse_token \<Rightarrow> parse_token \<Rightarrow> bool" where
  "before a b \<longleftrightarrow> int (pt_token a) + pt_len a \<le> int (pt_token b)"

definition tokens_ok :: "byte list \<Rightarrow> parse_token list \<Rightarrow> bool" where
  "tokens_ok s ts \<longleftrightarrow> (\<forall>t \<in> set ts. span_ok s t \<and> pt_type t \<in> script_types) \<and> sorted_wrt before ts"

definition list_ok :: "token_list \<Rightarrow> bool" where
  "list_ok tks \<longleftrightarrow> length (tl_list tks) \<le> tl_size tks \<and> 0 < tl_size tks"

lemma ScriptAddToken_ok:
  assumes "list_ok tks"
  shows "\<exists>tks'. ScriptAddToken tks a n ty l = Some tks' \<and> list_ok tks' \<and>
    tl_list tks' = tl_list tks @ [\<lparr>pt_token = a, pt_len = n, pt_type = ty, pt_line = l\<rparr>]"
  using assms by (auto simp: ScriptAddToken_def list_ok_def Let_def)

lemma script_tokens_loop_ok:
  assumes "pos_ok s pc" and "\<not> peof pc" and "list_ok tks" and "tokens_ok s (tl_list tks)"
    and "\<forall>t \<in> set (tl_list tks). int (pt_token t) + pt_len t \<le> int (pp pc)"
  shows "\<exists>pc' tks' init t. script_tokens_loop s pc tks = Some (pc', tks') \<and> list_ok tks' \<and>
    tokens_ok s (tl_list tks') \<and> tl_list tks' = init @ [t] \<and> pt_type t = JIM_TT_EOL"
  using assms
proof (induction "nat (plen pc)" arbitrary: pc tks rule: less_induct)
  case less
  obtain p1 where p1: "JimParseScript s pc = Some p1" "token_ok s pc p1" "peof p1 \<or> pp pc < pp p1"
    using JimParseScript_ok [OF less.prems(1)] by blast
  let ?t = "\<lparr>pt_token = tstart p1, pt_len = tend p1 - int (tstart p1) + 1, pt_type = ptt p1, pt_line = tline p1\<rparr>"
  obtain l1 where l1: "ScriptAddToken tks (tstart p1) (tend p1 - int (tstart p1) + 1) (ptt p1) (tline p1) = Some l1"
    "list_ok l1" "tl_list l1 = tl_list tks @ [?t]"
    using ScriptAddToken_ok [OF less.prems(3)] by blast
  have ok1: "tokens_ok s (tl_list l1)"
    using less.prems(4,5) p1(2) unfolding l1(3) tokens_ok_def
    by (auto simp: sorted_wrt_append span_ok_def before_def token_ok_def pos_ok_def)
  have end1: "\<forall>t \<in> set (tl_list l1). int (pt_token t) + pt_len t \<le> int (pp p1)"
    using less.prems(5) p1(2) unfolding l1(3) by (fastforce simp: token_ok_def)
  have run: "script_tokens_loop s pc tks = script_tokens_loop s p1 l1"
    using less.prems(2) p1(1) l1(1) by (simp add: script_tokens_loop.simps [of s pc])
  show ?case
  proof (cases "peof p1")
    case True
    then have "script_tokens_loop s p1 l1 = Some (p1, l1)" by (simp add: script_tokens_loop.simps [of s p1])
    moreover have "ptt p1 = JIM_TT_EOL" using True p1(2) less.prems(2) by (simp add: token_ok_def)
    ultimately show ?thesis
      using run l1 ok1 by (intro exI [of _ p1] exI [of _ l1] exI [of _ "tl_list tks"] exI [of _ ?t]) simp
  next
    case False
    have "nat (plen p1) < nat (plen pc)" "pos_ok s p1"
      using False p1(2,3) less.prems(1) by (auto simp: token_ok_def pos_ok_def)
    from less.hyps [OF this(1,2) False l1(2) ok1 end1] show ?thesis unfolding run .
  qed
qed

section \<open>Filling the array\<close>

definition eols :: "parse_token list \<Rightarrow> nat" where
  "eols ts = length (filter (\<lambda>t. pt_type t = JIM_TT_EOL) ts)"

definition sep_at :: "parse_token list \<Rightarrow> nat \<Rightarrow> bool" where
  "sep_at ts i \<longleftrightarrow> TOKEN_IS_SEP (pt_type (ts ! i))"

lemma eols_Suc: "i < length ts \<Longrightarrow> eols (take (Suc i) ts) = eols (take i ts) + (if pt_type (ts ! i) = JIM_TT_EOL then 1 else 0)"
  by (simp add: eols_def take_Suc_conv_app_nth)

lemma eols_le: "eols (take i ts) \<le> eols ts"
proof -
  have "eols ts = eols (take i ts) + eols (drop i ts)"
    unfolding eols_def by (simp flip: length_append filter_append)
  then show ?thesis by simp
qed

text \<open>The token lists of scripts: a line end and the end of the text come last.\<close>

definition script_list :: "byte list \<Rightarrow> parse_token list \<Rightarrow> bool" where
  "script_list s ts \<longleftrightarrow> (\<exists>body a z. ts = body @ [a, z] \<and> tokens_ok s (body @ [a]) \<and>
     pt_type a = JIM_TT_EOL \<and> pt_type z = JIM_TT_EOF)"

lemma script_list_nth:
  assumes "script_list s ts" and "i < length ts"
  shows "pt_type (ts ! i) \<in> script_types \<or> i = length ts - 1 \<and> pt_type (ts ! i) = JIM_TT_EOF"
    and "i < length ts - 1 \<Longrightarrow> span_ok s (ts ! i)"
    and "2 \<le> length ts" and "pt_type (ts ! (length ts - 2)) = JIM_TT_EOL" and "pt_type (ts ! (length ts - 1)) = JIM_TT_EOF"
proof -
  obtain body a z where b: "ts = body @ [a, z]" "tokens_ok s (body @ [a])" "pt_type a = JIM_TT_EOL" "pt_type z = JIM_TT_EOF"
    using assms(1) unfolding script_list_def by blast
  have in_body: "ts ! i \<in> set (body @ [a])" if "i < length ts - 1"
    using that b(1) by (auto simp: nth_append nth_Cons')
  show "2 \<le> length ts" "pt_type (ts ! (length ts - 2)) = JIM_TT_EOL" "pt_type (ts ! (length ts - 1)) = JIM_TT_EOF"
    using b by (simp_all add: nth_append)
  show "i < length ts - 1 \<Longrightarrow> span_ok s (ts ! i)"
    using in_body b(2) by (auto simp: tokens_ok_def)
  show "pt_type (ts ! i) \<in> script_types \<or> i = length ts - 1 \<and> pt_type (ts ! i) = JIM_TT_EOF"
  proof (cases "i < length ts - 1")
    case True
    with in_body b(2) show ?thesis by (auto simp: tokens_ok_def)
  next
    case False
    with assms(2) b show ?thesis by (simp add: nth_append)
  qed
qed

text \<open>The next separator.\<close>

definition next_sep :: "parse_token list \<Rightarrow> nat \<Rightarrow> nat \<Rightarrow> bool" where
  "next_sep ts i j \<longleftrightarrow> i \<le> j \<and> j < length ts \<and> sep_at ts j \<and> (\<forall>k. i \<le> k \<longrightarrow> k < j \<longrightarrow> \<not> sep_at ts k)"

lemma count_loop_ok:
  assumes "next_sep ts i j"
  shows "count_loop ts i cnt = Some (cnt + int (j - i))"
  using assms
proof (induction ts i cnt rule: count_loop.induct)
  case (1 ts i cnt)
  then have i: "i < length ts" by (simp add: next_sep_def)
  show ?case
  proof (cases "sep_at ts i")
    case True
    with 1(2) have "j = i" unfolding next_sep_def by (cases "i < j") auto
    with True i show ?thesis by (simp add: count_loop.simps [of ts i] sep_at_def)
  next
    case False
    then have "i \<noteq> j" using 1(2) by (auto simp: next_sep_def)
    then have j: "next_sep ts (i + 1) j" "i < j" using 1(2) by (auto simp: next_sep_def)
    from 1(1) [OF _ _ j(1)] i False have "count_loop ts (i + 1) (cnt + 1) = Some (cnt + 1 + int (j - (i + 1)))"
      by (simp add: sep_at_def)
    with i False j(2) show ?thesis by (simp add: count_loop.simps [of ts i] sep_at_def of_nat_diff)
  qed
qed

lemma next_sep_ex:
  assumes "script_list s ts" and "i < length ts"
  shows "\<exists>j. next_sep ts i j"
proof -
  let ?P = "\<lambda>j. i \<le> j \<and> j < length ts \<and> sep_at ts j"
  have "?P (length ts - 1)"
    using script_list_nth(5) [OF assms] assms(2) by (auto simp: sep_at_def TOKEN_IS_SEP_def)
  then have l: "?P (LEAST j. ?P j)" by (rule LeastI)
  have "\<not> sep_at ts k" if "i \<le> k" "k < (LEAST j. ?P j)" for k
    using not_less_Least [OF that(2)] that l by auto
  with l show ?thesis unfolding next_sep_def by blast
qed

lemma skip_seps_ok:
  assumes "script_list s ts" and "i < length ts"
  shows "\<exists>j. skip_seps ts i = Some j \<and> i \<le> j \<and> j < length ts \<and> pt_type (ts ! j) \<noteq> JIM_TT_SEP \<and>
    (\<forall>k. i \<le> k \<longrightarrow> k < j \<longrightarrow> pt_type (ts ! k) = JIM_TT_SEP)"
  using assms
proof (induction "length ts - i" arbitrary: i)
  case (Suc d)
  show ?case
  proof (cases "pt_type (ts ! i) = JIM_TT_SEP")
    case True
    with script_list_nth(5) [OF Suc.prems] have "i \<noteq> length ts - 1" by auto
    then have "i + 1 < length ts" using Suc.prems(2) by simp
    moreover have "d = length ts - (i + 1)" using Suc.hyps(2) by simp
    ultimately obtain j where
      "skip_seps ts (i + 1) = Some j" "i + 1 \<le> j" "j < length ts" "pt_type (ts ! j) \<noteq> JIM_TT_SEP"
      "\<forall>k. i + 1 \<le> k \<longrightarrow> k < j \<longrightarrow> pt_type (ts ! k) = JIM_TT_SEP"
      using Suc.hyps(1) [of "i + 1"] Suc.prems(1) by blast
    with True Suc.prems(2) show ?thesis
      by (intro exI [of _ j]) (auto simp: skip_seps.simps [of ts i] dest: le_imp_less_or_eq)
  next
    case False
    with Suc.prems(2) show ?thesis by (auto simp: skip_seps.simps [of ts i])
  qed
qed simp


definition simple :: "script_token \<Rightarrow> bool" where
  "simple t \<longleftrightarrow> st_type t \<in> script_types - {JIM_TT_SEP, JIM_TT_EOL}"

text \<open>
  What the array holds: a word is one token or a \<open>WORD\<close> entry with its number of tokens (negative
  for an expanded word) and that many tokens; a command is a \<open>LINE\<close> entry with its number of words.
\<close>

definition word_tokens :: "script_token list \<Rightarrow> bool" where
  "word_tokens w \<longleftrightarrow> (\<exists>t. w = [t] \<and> simple t) \<or>
     (\<exists>k vs. w = \<lparr>st_type = JIM_TT_WORD, st_obj = Obj_Int k\<rparr> # vs \<and> k \<notin> {0, 1} \<and>
        int (length vs) = \<bar>k\<bar> \<and> (\<forall>v \<in> set vs. simple v))"

inductive words :: "nat \<Rightarrow> script_token list \<Rightarrow> bool" where
  words_Nil: "words 0 []"
| words_add: "\<lbrakk>words n ws; word_tokens w\<rbrakk> \<Longrightarrow> words (Suc n) (ws @ w)"

inductive commands :: "script_token list \<Rightarrow> bool" where
  commands_Nil: "commands []"
| commands_add: "\<lbrakk>commands cs; words n ws; 0 < n\<rbrakk> \<Longrightarrow>
    commands (cs @ \<lparr>st_type = JIM_TT_LINE, st_obj = Obj_Line (int n) l\<rparr> # ws)"

text \<open>The entries written so far.\<close>

definition arr_is :: "add_state \<Rightarrow> script_token option list \<Rightarrow> bool" where
  "arr_is st P \<longleftrightarrow> as_token st = length P \<and> take (length P) (as_array st) = P \<and> length P \<le> length (as_array st)"

text \<open>Two states that differ in the entries only.\<close>

definition same_line :: "add_state \<Rightarrow> add_state \<Rightarrow> bool" where
  "same_line st st' \<longleftrightarrow> as_linefirst st' = as_linefirst st \<and> as_lineargs st' = as_lineargs st \<and>
     as_linenr st' = as_linenr st \<and> length (as_array st') = length (as_array st)"

lemma put_token_ok:
  assumes "arr_is st P" and "length P < length (as_array st)"
  shows "\<exists>st'. put_token ty ob st = Some st' \<and> arr_is st' (P @ [Some \<lparr>st_type = ty, st_obj = ob\<rparr>]) \<and> same_line st st'"
  using assms by (auto simp: put_token_def arr_is_def same_line_def take_Suc_update)

lemma JimMakeScriptObj_ok:
  assumes "span_ok s t"
  shows "\<exists>bs. JimMakeScriptObj s t = Some bs"
proof -
  have "pt_token t + nat (pt_len t) \<le> length s" using assms unfolding span_ok_def by linarith
  moreover from this have "nat (pt_len t) \<le> length (drop (pt_token t) s)" by simp
  from JimEscape_in [OF this] obtain out where "JimEscape (drop (pt_token t) s) (int (nat (pt_len t))) = Some out" ..
  ultimately show ?thesis using assms by (simp add: JimMakeScriptObj_def span_ok_def)
qed

lemma add_words_ok:
  assumes "script_list s ts" and "arr_is st P" and "length P + n \<le> length (as_array st)" and "i + n < length ts"
    and "\<forall>k. i \<le> k \<longrightarrow> k < i + n \<longrightarrow> \<not> sep_at ts k"
  shows "\<exists>st' vs. add_words s ts i n st = Some st' \<and> arr_is st' (P @ map Some vs) \<and> same_line st st' \<and>
    length vs = n \<and> (\<forall>v \<in> set vs. simple v)"
  using assms
proof (induction n arbitrary: i st P)
  case 0
  then show ?case by (intro exI [of _ st] exI [of _ "[]"]) (simp add: same_line_def)
next
  case (Suc n)
  have i: "i < length ts" "i < length ts - 1" using Suc.prems(4) by simp_all
  obtain bs where bs: "JimMakeScriptObj s (ts ! i) = Some bs"
    using JimMakeScriptObj_ok script_list_nth(2) [OF Suc.prems(1) i] by blast
  let ?v = "\<lparr>st_type = pt_type (ts ! i), st_obj = Obj_String bs (pt_line (ts ! i))\<rparr>"
  have "length P < length (as_array st)" using Suc.prems(3) by simp
  from put_token_ok [OF Suc.prems(2) this] obtain st1 where st1:
    "put_token (pt_type (ts ! i)) (Obj_String bs (pt_line (ts ! i))) st = Some st1"
    "arr_is st1 (P @ [Some ?v])" "same_line st st1" by blast
  have "simple ?v"
    using script_list_nth(1) [OF Suc.prems(1) i(1)] i(2) Suc.prems(5)
    by (auto simp: simple_def sep_at_def TOKEN_IS_SEP_def)
  moreover have "length (P @ [Some ?v]) + n \<le> length (as_array st1)" "i + 1 + n < length ts"
    "\<forall>k. i + 1 \<le> k \<longrightarrow> k < i + 1 + n \<longrightarrow> \<not> sep_at ts k"
    using Suc.prems(3-5) st1(3) by (auto simp: same_line_def)
  from Suc.IH [OF Suc.prems(1) st1(2) this] obtain st' vs where
    "add_words s ts (i + 1) n st1 = Some st'" "arr_is st' ((P @ [Some ?v]) @ map Some vs)" "same_line st1 st'"
    "length vs = n" "\<forall>v \<in> set vs. simple v" by blast
  ultimately show ?case
    using i bs st1 by (intro exI [of _ st'] exI [of _ "?v # vs"]) (simp add: same_line_def)
qed


text \<open>
  The array with the finished commands, the entry for the current line and its \<open>n\<close> words; and the
  room that is left for it before the token at index \<open>i\<close>.
\<close>

definition filled :: "add_state \<Rightarrow> nat \<Rightarrow> nat \<Rightarrow> bool" where
  "filled st cnt n \<longleftrightarrow> (\<exists>cs x ws. arr_is st (map Some cs @ x # map Some ws) \<and>
     as_linefirst st = length cs \<and> as_lineargs st = int n \<and> commands cs \<and> words n ws \<and>
     length (as_array st) = cnt)"

definition room :: "parse_token list \<Rightarrow> nat \<Rightarrow> nat" where
  "room ts i = (if i = length ts then length ts + eols ts
     else 1 + i + eols (take i ts) + (if 0 < i \<and> \<not> sep_at ts (i - 1) then 1 else 0))"

definition at_token :: "parse_token list \<Rightarrow> nat \<Rightarrow> nat \<Rightarrow> nat \<Rightarrow> bool" where
  "at_token ts i tok n \<longleftrightarrow> tok \<le> room ts i \<and>
     (0 < i \<longrightarrow> pt_type (ts ! (i - 1)) \<in> {JIM_TT_EOL, JIM_TT_EOF} \<longrightarrow> n = 0) \<and>
     (0 < i \<longrightarrow> i < length ts \<longrightarrow> \<not> sep_at ts (i - 1) \<longrightarrow> sep_at ts i)"

lemma eols_mono: "i \<le> j \<Longrightarrow> eols (take i ts) \<le> eols (take j ts)"
  using eols_le [of i "take j ts"] by (simp add: min_def)

lemma at_token_skip:
  assumes "at_token ts i tok n" and "i \<le> j" and "j < length ts"
    and "\<forall>k. i \<le> k \<longrightarrow> k < j \<longrightarrow> pt_type (ts ! k) = JIM_TT_SEP"
  shows "at_token ts j tok n"
proof (cases "i = j")
  case True
  with assms show ?thesis by simp
next
  case False
  with assms(2) have lt: "i \<le> j - 1" "j - 1 < j" "0 < j" by auto
  then have sep: "pt_type (ts ! (j - 1)) = JIM_TT_SEP" using assms(4) by blast
  then have "sep_at ts (j - 1)" by (simp add: sep_at_def TOKEN_IS_SEP_def)
  moreover from this have "room ts i \<le> room ts j"
    using eols_mono [OF assms(2), of ts] False assms(2,3) by (auto simp: room_def)
  then have "tok \<le> room ts j" using assms(1) by (simp add: at_token_def)
  ultimately show ?thesis using sep by (simp add: at_token_def)
qed

lemma end_line_ok:
  assumes "filled st cnt n" and "n \<noteq> 0 \<Longrightarrow> as_token st < cnt"
  shows "\<exists>st'. end_line st = Some st' \<and> filled st' cnt 0 \<and> as_token st' = as_token st + (if n = 0 then 0 else 1)"
proof (cases "n = 0")
  case True
  with assms(1) show ?thesis by (auto simp: end_line_def filled_def)
next
  case False
  obtain cs x ws where f: "arr_is st (map Some cs @ x # map Some ws)" "as_linefirst st = length cs"
    "as_lineargs st = int n" "commands cs" "words n ws" "length (as_array st) = cnt"
    using assms(1) unfolding filled_def by blast
  let ?L = "\<lparr>st_type = JIM_TT_LINE, st_obj = Obj_Line (int n) (as_linenr st)\<rparr>"
  let ?P = "map Some cs @ x # map Some ws"
  let ?a = "(as_array st)[length cs := Some ?L]"
  have lt: "as_token st < cnt" using assms(2) False by simp
  have tk: "as_token st = length ?P" "take (length ?P) (as_array st) = ?P" using f(1) by (simp_all add: arr_is_def)
  have "length cs < length (as_array st)" using tk(1) lt f(6) by simp
  then have run: "end_line st = Some (st\<lparr>as_array := ?a, as_lineargs := 0, as_linefirst := as_token st,
      as_token := as_token st + 1\<rparr>)"
    using False f(2,3) by (simp add: end_line_def)
  have "take (length ?P) ?a = map Some (cs @ ?L # ws)"
    unfolding take_update_swap tk(2) by (simp add: list_update_append)
  moreover have "length ?P < length ?a" using lt tk(1) f(6) by simp
  ultimately have "take (Suc (length ?P)) ?a = map Some (cs @ ?L # ws) @ [?a ! length ?P]"
    by (simp only: take_Suc_conv_app_nth)
  moreover have "commands (cs @ ?L # ws)" using f(4,5) False by (intro commands_add) simp_all
  ultimately have "filled (st\<lparr>as_array := ?a, as_lineargs := 0, as_linefirst := as_token st,
      as_token := as_token st + 1\<rparr>) cnt 0"
    unfolding filled_def using tk(1) f(6) lt
    by (intro exI [of _ "cs @ ?L # ws"] exI [of _ "?a ! length ?P"] exI [of _ "[]"])
      (simp add: arr_is_def words_Nil)
  with run False show ?thesis by auto
qed

lemma start_line_ok:
  assumes "i < length ts"
  shows "\<exists>st'. start_line ts i st = Some st' \<and> as_array st' = as_array st \<and> as_token st' = as_token st \<and>
    as_linefirst st' = as_linefirst st \<and> as_lineargs st' = as_lineargs st + 1"
  using assms by (simp add: start_line_def)

lemma filled_word:
  assumes "arr_is st P" and "P = map Some cs @ x # map Some ws" and "arr_is st' (P @ map Some w)" and "word_tokens w"
    and "as_linefirst st' = length cs" "commands cs" "words n ws" "as_lineargs st' = int (Suc n)" "length (as_array st') = cnt"
  shows "filled st' cnt (Suc n)" and "as_token st' = as_token st + length w"
proof -
  have "P @ map Some w = map Some cs @ x # map Some (ws @ w)" using assms(2) by simp
  then show "filled st' cnt (Suc n)"
    unfolding filled_def using assms words_add [OF assms(7,4)] by metis
  show "as_token st' = as_token st + length w" using assms(1,3) by (simp add: arr_is_def)
qed


lemma is_expand_ok: "span_ok s t \<Longrightarrow> \<exists>e. is_expand s t = Some e"
proof -
  assume sp: "span_ok s t"
  have "\<exists>c. rd s (pt_token t) = Some c" by (rule rd_le) (use sp in \<open>simp add: span_ok_def\<close>)
  moreover have "pt_len t = 6 \<Longrightarrow> pt_token t + 6 \<le> length s" using sp by (simp add: span_ok_def)
  ultimately show ?thesis by (auto simp: is_expand_def)
qed

text \<open>The number of tokens of the word that starts at \<open>i\<close>, negative for an expanded one.\<close>

lemma JimCountWordTokens_ok:
  assumes "script_list s ts" and "next_sep ts i j"
  shows "\<exists>e. JimCountWordTokens s ts i = Some (if e then - int (j - (i + 1)) else int (j - i)) \<and> (e \<longrightarrow> i + 2 \<le> j)"
proof -
  have i: "i < length ts" using assms(2) by (simp add: next_sep_def)
  show ?thesis
  proof (cases "pt_type (ts ! i) = JIM_TT_STR")
    case False
    with i count_loop_ok [OF assms(2), of 0] show ?thesis by (intro exI [of _ False]) (simp add: JimCountWordTokens_def)
  next
    case True
    then have ns: "\<not> sep_at ts i" by (simp add: sep_at_def TOKEN_IS_SEP_def)
    from assms(2) have "i \<le> j" "sep_at ts j" "j < length ts" by (simp_all add: next_sep_def)
    with ns have ij: "i < j" "j < length ts" by (cases "i = j"; simp)+
    then have i1: "i + 1 < length ts" "i < length ts - 1" by simp_all
    show ?thesis
    proof (cases "sep_at ts (i + 1)")
      case sep: True
      then show ?thesis
        using i i1 True count_loop_ok [OF assms(2), of 0]
        by (intro exI [of _ False]) (simp add: JimCountWordTokens_def sep_at_def)
    next
      case False
      obtain e where e: "is_expand s (ts ! i) = Some e"
        using is_expand_ok script_list_nth(2) [OF assms(1) i i1(2)] by blast
      have "i + 1 \<noteq> j" using False assms(2) by (auto simp: next_sep_def)
      with ij have "i + 2 \<le> j" by simp
      moreover have "next_sep ts (i + 1) j" using assms(2) ij by (simp add: next_sep_def)
      ultimately show ?thesis
        using i i1 True False e count_loop_ok [OF assms(2), of 0] count_loop_ok [of ts "i + 1" j 0]
        by (intro exI [of _ e]) (simp add: JimCountWordTokens_def sep_at_def)
    qed
  qed
qed

text \<open>One word written: after a \<open>WORD\<close> entry when it has several tokens.\<close>

lemma plain_word_ok:
  assumes sl: "script_list s ts" and fl: "filled st cnt n" and ns: "next_sep ts i j" and ij: "i < j"
    and fit: "as_token st + (j - i) + 1 \<le> cnt"
  shows "\<exists>st0 st1 st'. (if int (j - i) \<noteq> 1 then put_token JIM_TT_WORD (Obj_Int (int (j - i))) st else Some st) = Some st0 \<and>
    start_line ts i st0 = Some st1 \<and> add_words s ts i (j - i) st1 = Some st' \<and> filled st' cnt (Suc n) \<and>
    as_token st' \<le> as_token st + (j - i) + 1"
proof -
  have jl: "i + (j - i) < length ts" "i < length ts" using ns ij by (simp_all add: next_sep_def)
  have nos: "\<forall>k. i \<le> k \<longrightarrow> k < i + (j - i) \<longrightarrow> \<not> sep_at ts k" using ns ij by (simp add: next_sep_def)
  obtain cs x ws where f: "arr_is st (map Some cs @ x # map Some ws)" "as_linefirst st = length cs"
    "as_lineargs st = int n" "commands cs" "words n ws" "length (as_array st) = cnt"
    using fl unfolding filled_def by blast
  let ?P = "map Some cs @ x # map Some ws"
  let ?W = "if int (j - i) \<noteq> 1 then [\<lparr>st_type = JIM_TT_WORD, st_obj = Obj_Int (int (j - i))\<rparr>] else []"
  have tk: "as_token st = length ?P" using f(1) by (simp add: arr_is_def)
  have "\<exists>st0. (if int (j - i) \<noteq> 1 then put_token JIM_TT_WORD (Obj_Int (int (j - i))) st else Some st) = Some st0 \<and>
      arr_is st0 (?P @ map Some ?W) \<and> same_line st st0"
  proof (cases "int (j - i) = 1")
    case True
    with f(1) show ?thesis by (simp add: same_line_def)
  next
    case False
    have "length ?P < length (as_array st)" using fit ij tk f(6) by simp
    from put_token_ok [OF f(1) this, of JIM_TT_WORD "Obj_Int (int (j - i))"] False show ?thesis by simp
  qed
  then obtain st0 where st0: "(if int (j - i) \<noteq> 1 then put_token JIM_TT_WORD (Obj_Int (int (j - i))) st else Some st) = Some st0"
    "arr_is st0 (?P @ map Some ?W)" "same_line st st0" by blast
  obtain st1 where st1: "start_line ts i st0 = Some st1" "as_array st1 = as_array st0" "as_token st1 = as_token st0"
    "as_linefirst st1 = as_linefirst st0" "as_lineargs st1 = as_lineargs st0 + 1"
    using start_line_ok [OF jl(2)] by blast
  have a1: "arr_is st1 (?P @ map Some ?W)" using st0(2) st1(2,3) by (simp add: arr_is_def)
  have "length (?P @ map Some ?W) + (j - i) \<le> length (as_array st1)"
    using fit tk st1(2) st0(3) f(6) by (auto simp: same_line_def)
  from add_words_ok [OF sl a1 this jl(1) nos] obtain st' vs where w:
    "add_words s ts i (j - i) st1 = Some st'" "arr_is st' ((?P @ map Some ?W) @ map Some vs)" "same_line st1 st'"
    "length vs = j - i" "\<forall>v \<in> set vs. simple v" by blast
  have wt: "word_tokens (?W @ vs)"
  proof (cases "int (j - i) = 1")
    case True
    then have "j - i = 1" by linarith
    with w(4) obtain v where "vs = [v]" by (cases vs) auto
    with True w(5) show ?thesis by (auto simp: word_tokens_def)
  next
    case False
    with w(4,5) ij show ?thesis by (auto simp: word_tokens_def)
  qed
  have a': "arr_is st' (?P @ map Some (?W @ vs))" using w(2) by (simp only: map_append append_assoc)
  have "as_linefirst st' = length cs" "as_lineargs st' = int (Suc n)" "length (as_array st') = cnt"
    using w(3) st0(3) st1 f by (simp_all add: same_line_def)
  note fw = filled_word [OF f(1) refl a' wt this(1) f(4,5) this(2,3)]
  have "as_token st' \<le> as_token st + (j - i) + 1" using fw(2) w(4) by simp
  with st0(1) st1(1) w(1) fw(1) show ?thesis by blast
qed


text \<open>
  An expanded word: its \<open>WORD\<close> entry and all its tokens but the last, and in the next round of the
  loop, which takes it for a word of its own, the last one.
\<close>

lemma expand_word_ok:
  assumes sl: "script_list s ts" and fl: "filled st cnt n" and ns: "next_sep ts i j" and ij: "i + 2 \<le> j"
    and fit: "as_token st + (j - i) \<le> cnt"
  shows "\<exists>st0 st1 st2 st3 st'. put_token JIM_TT_WORD (Obj_Int (- int (j - (i + 1)))) st = Some st0 \<and>
    start_line ts (i + 1) (st0\<lparr>as_lineargs := as_lineargs st0 - 1\<rparr>) = Some st1 \<and>
    add_words s ts (i + 1) (j - (i + 2)) st1 = Some st2 \<and> start_line ts (j - 1) st2 = Some st3 \<and>
    add_words s ts (j - 1) 1 st3 = Some st' \<and> filled st' cnt (Suc n) \<and> as_token st' = as_token st + (j - i)"
proof -
  have "j < length ts" using ns by (simp add: next_sep_def)
  then have jl: "i + 1 + (j - (i + 2)) < length ts" "i + 1 < length ts" "j - 1 + 1 < length ts" "j - 1 < length ts"
    using ij by arith+
  have nos: "\<forall>k. i + 1 \<le> k \<longrightarrow> k < i + 1 + (j - (i + 2)) \<longrightarrow> \<not> sep_at ts k"
    "\<forall>k. j - 1 \<le> k \<longrightarrow> k < j - 1 + 1 \<longrightarrow> \<not> sep_at ts k" using ns ij by (simp_all add: next_sep_def)
  obtain cs x ws where f: "arr_is st (map Some cs @ x # map Some ws)" "as_linefirst st = length cs"
    "as_lineargs st = int n" "commands cs" "words n ws" "length (as_array st) = cnt"
    using fl unfolding filled_def by blast
  let ?P = "map Some cs @ x # map Some ws"
  let ?W = "\<lparr>st_type = JIM_TT_WORD, st_obj = Obj_Int (- int (j - (i + 1)))\<rparr>"
  have tk: "as_token st = length ?P" using f(1) by (simp add: arr_is_def)
  have "length ?P < length (as_array st)" using fit ij tk f(6) by simp
  from put_token_ok [OF f(1) this] obtain st0 where st0:
    "put_token JIM_TT_WORD (Obj_Int (- int (j - (i + 1)))) st = Some st0" "arr_is st0 (?P @ [Some ?W])"
    "same_line st st0" by blast
  obtain st1 where st1: "start_line ts (i + 1) (st0\<lparr>as_lineargs := as_lineargs st0 - 1\<rparr>) = Some st1"
    "as_array st1 = as_array st0" "as_token st1 = as_token st0" "as_linefirst st1 = as_linefirst st0"
    "as_lineargs st1 = as_lineargs st0"
    using start_line_ok [OF jl(2), of "st0\<lparr>as_lineargs := as_lineargs st0 - 1\<rparr>"] by auto
  have a1: "arr_is st1 (?P @ [Some ?W])" using st0(2) st1(2,3) by (simp add: arr_is_def)
  have "length (?P @ [Some ?W]) + (j - (i + 2)) \<le> length (as_array st1)"
    using fit ij tk st1(2) st0(3) f(6) by (simp add: same_line_def)
  from add_words_ok [OF sl a1 this jl(1) nos(1)] obtain st2 vs where w:
    "add_words s ts (i + 1) (j - (i + 2)) st1 = Some st2" "arr_is st2 ((?P @ [Some ?W]) @ map Some vs)"
    "same_line st1 st2" "length vs = j - (i + 2)" "\<forall>v \<in> set vs. simple v" by blast
  obtain st3 where st3: "start_line ts (j - 1) st2 = Some st3"
    "as_array st3 = as_array st2" "as_token st3 = as_token st2" "as_linefirst st3 = as_linefirst st2"
    "as_lineargs st3 = as_lineargs st2 + 1"
    using start_line_ok [OF jl(4)] by blast
  have a3: "arr_is st3 ((?P @ [Some ?W]) @ map Some vs)" using w(2) st3(2,3) by (simp add: arr_is_def)
  have "length ((?P @ [Some ?W]) @ map Some vs) + 1 \<le> length (as_array st3)"
    using fit ij tk st1(2) st0(3) st3(2) w(3,4) f(6) by (simp add: same_line_def)
  from add_words_ok [OF sl a3 this jl(3) nos(2)] obtain st' us where u:
    "add_words s ts (j - 1) 1 st3 = Some st'" "arr_is st' (((?P @ [Some ?W]) @ map Some vs) @ map Some us)"
    "same_line st3 st'" "length us = 1" "\<forall>v \<in> set us. simple v" by blast
  have "length (vs @ us) = j - (i + 1)" "\<forall>v \<in> set (vs @ us). simple v" using w(4,5) u(4,5) ij by auto
  then have wt: "word_tokens (?W # vs @ us)" using ij by (auto simp: word_tokens_def)
  have a': "arr_is st' (?P @ map Some (?W # vs @ us))" using u(2) by simp
  have "as_linefirst st' = length cs" "as_lineargs st' = int (Suc n)" "length (as_array st') = cnt"
    using u(3) w(3) st0(3) st1 st3 f by (simp_all add: same_line_def)
  note fw = filled_word [OF f(1) refl a' wt this(1) f(4,5) this(2,3)]
  have "as_token st' = as_token st + (j - i)" using fw(2) w(4) u(4) ij by simp
  with st0(1) st1(1) w(1) st3(1) u(1) fw(1) show ?thesis by blast
qed

lemma room_le: "i < length ts \<Longrightarrow> room ts i \<le> 2 + i + eols ts"
  using eols_le [of i ts] by (simp add: room_def)

lemma next_sep_bound:
  assumes "script_list s ts" and "next_sep ts i j" and "i < j"
  shows "j + 2 \<le> length ts"
proof (rule ccontr)
  assume a: "\<not> j + 2 \<le> length ts"
  have i: "i < length ts" "j < length ts" using assms(2,3) by (simp_all add: next_sep_def)
  with a have j: "j = length ts - 1" by simp
  note e = script_list_nth(3,4) [OF assms(1) i(1)]
  then have "sep_at ts (length ts - 2)" by (simp add: sep_at_def TOKEN_IS_SEP_def)
  moreover have "i \<le> length ts - 2" "length ts - 2 < j" using assms(3) j e(1) by auto
  ultimately show False using assms(2) by (simp add: next_sep_def)
qed

text \<open>Behind the word: the room that is left.\<close>

lemma at_token_word:
  assumes "at_token ts i tok n" and "next_sep ts i j" and "i < j" and "tok' \<le> tok + (j - i) + 1" and "\<not> sep_at ts i"
    and "j + 2 \<le> length ts"
  shows "at_token ts j tok' m" and "tok + (j - i) + 1 \<le> length ts + eols ts"
proof -
  have sp: "\<not> sep_at ts (j - 1)" "sep_at ts j" using assms(2,3) by (auto simp: next_sep_def)
  have "0 < i \<longrightarrow> sep_at ts (i - 1)" using assms(1,5,3,6) by (auto simp: at_token_def)
  then have "room ts i = 1 + i + eols (take i ts)" using assms(3,6) by (auto simp: room_def)
  then have t: "tok \<le> 1 + i + eols (take i ts)" using assms(1) by (simp add: at_token_def)
  moreover have "room ts j = 2 + j + eols (take j ts)" using sp(1) assms(3,6) by (simp add: room_def)
  moreover have "eols (take i ts) \<le> eols (take j ts)" using assms(3) by (intro eols_mono) simp
  ultimately have "tok' \<le> room ts j" using assms(3,4) by simp
  moreover have "pt_type (ts ! (j - 1)) \<notin> {JIM_TT_EOL, JIM_TT_EOF}" using sp(1) by (auto simp: sep_at_def TOKEN_IS_SEP_def)
  ultimately show "at_token ts j tok' m" using sp by (simp add: at_token_def)
  show "tok + (j - i) + 1 \<le> length ts + eols ts"
    using t assms(3,6) eols_le [of i ts] by simp
qed


text \<open>A separator that is not skipped: the end of a line or of the text.\<close>

lemma sep_step_ok:
  assumes "script_list s ts" and "at_token ts i tok n" and "i < length ts" and "sep_at ts i" and "pt_type (ts ! i) \<noteq> JIM_TT_SEP"
  shows "(n \<noteq> 0 \<longrightarrow> tok < length ts + eols ts) \<and> at_token ts (i + 1) (tok + (if n = 0 then 0 else 1)) 0"
proof -
  note sn = script_list_nth [OF assms(1,3)]
  consider "pt_type (ts ! i) = JIM_TT_EOF" | "pt_type (ts ! i) = JIM_TT_EOL"
    using assms(4,5) by (auto simp: sep_at_def TOKEN_IS_SEP_def)
  then show ?thesis
  proof cases
    case 1
    with sn(1) have i: "i = length ts - 1" by (auto simp: script_types_def)
    then have "0 < i" "pt_type (ts ! (i - 1)) = JIM_TT_EOL" using sn(3,4) by (auto simp: numeral_2_eq_2)
    moreover from this have "n = 0" "sep_at ts (i - 1)" using assms(2) by (auto simp: at_token_def sep_at_def TOKEN_IS_SEP_def)
    moreover have "eols (take i ts) \<le> eols ts" by (rule eols_le)
    ultimately show ?thesis
      using assms(2,3) i by (auto simp: at_token_def room_def)
  next
    case 2
    then have i: "i + 1 < length ts" using sn(5) assms(3) by (cases "i = length ts - 1") auto
    have "eols (take (i + 1) ts) = eols (take i ts) + 1" using eols_Suc [OF assms(3)] 2 by simp
    moreover have "eols (take (i + 1) ts) \<le> eols ts" by (rule eols_le)
    moreover have "tok \<le> 2 + i + eols (take i ts)" using assms(2) i by (auto simp: at_token_def room_def split: if_splits)
    ultimately show ?thesis using i assms(4) by (simp add: at_token_def room_def)
  qed
qed

text \<open>The round for the last token of an expanded word.\<close>

lemma last_word_step:
  assumes "script_list s ts" and "next_sep ts i j" and "i < j"
    and "start_line ts (j - 1) st = Some st1" and "add_words s ts (j - 1) 1 st1 = Some st2"
  shows "add_tokens_loop s ts (j - 1) st = add_tokens_loop s ts j st2"
proof -
  have lt: "j - 1 < length ts" using assms(2) by (auto simp: next_sep_def)
  have ns: "\<not> sep_at ts (j - 1)" "next_sep ts (j - 1) j" using assms(2,3) by (auto simp: next_sep_def)
  then have sk: "skip_seps ts (j - 1) = Some (j - 1)"
    unfolding skip_seps.simps [of ts "j - 1"] using lt by (simp add: sep_at_def TOKEN_IS_SEP_def)
  have w1: "JimCountWordTokens s ts (j - 1) = Some 1"
    using JimCountWordTokens_ok [OF assms(1) ns(2)] assms(3) by auto
  show ?thesis
    unfolding add_tokens_loop.simps [of s ts "j - 1"] if_P [OF lt] sk w1 bind.bind_lunit
    using assms(3-5) by (simp add: Let_def del: add_words.simps)
qed

text \<open>The loop: it stays inside the array, and all it leaves is complete commands.\<close>

lemma add_tokens_loop_ok:
  assumes "script_list s ts" and "i \<le> length ts" and "filled st (length ts + eols ts) n" and "at_token ts i (as_token st) n"
  shows "\<exists>st'. add_tokens_loop s ts i st = Some st' \<and> filled st' (length ts + eols ts) 0 \<and>
    as_token st' \<le> length ts + eols ts"
  using assms(2-4)
proof (induction "length ts - i" arbitrary: i st n rule: less_induct)
  case less
  note sl = assms(1)
  show ?case
  proof (cases "i < length ts")
    case False
    then have i: "i = length ts" using less.prems(1) by simp
    have "2 \<le> length ts" "pt_type (ts ! (length ts - 1)) = JIM_TT_EOF"
      using sl script_list_nth(3,5) [OF sl, of 0] by (auto simp: script_list_def)
    then have "n = 0" using less.prems(3) i by (auto simp: at_token_def)
    with less.prems i show ?thesis
      unfolding add_tokens_loop.simps [of s ts i] by (simp add: at_token_def room_def)
  next
    case True
    obtain i1 where i1: "skip_seps ts i = Some i1" "i \<le> i1" "i1 < length ts" "pt_type (ts ! i1) \<noteq> JIM_TT_SEP"
      "\<forall>k. i \<le> k \<longrightarrow> k < i1 \<longrightarrow> pt_type (ts ! k) = JIM_TT_SEP"
      using skip_seps_ok [OF sl True] by blast
    have at1: "at_token ts i1 (as_token st) n" using at_token_skip [OF less.prems(3) i1(2,3,5)] .
    obtain j where j: "next_sep ts i1 j" using next_sep_ex [OF sl i1(3)] by blast
    obtain e where e: "JimCountWordTokens s ts i1 = Some (if e then - int (j - (i1 + 1)) else int (j - i1))"
      "e \<longrightarrow> i1 + 2 \<le> j" using JimCountWordTokens_ok [OF sl j] by blast
    note un = add_tokens_loop.simps [of s ts i st, unfolded if_P [OF True] i1(1) e(1) bind.bind_lunit]
    show ?thesis
    proof (cases "sep_at ts i1")
      case sep: True
      then have ji: "j = i1" using j unfolding next_sep_def by (cases "i1 < j") auto
      with e(2) have ne: "\<not> e" by auto
      have lt: "n \<noteq> 0 \<Longrightarrow> as_token st < length ts + eols ts" and at2: "at_token ts (i1 + 1) (as_token st + (if n = 0 then 0 else 1)) 0"
        using sep_step_ok [OF sl at1 i1(3) sep i1(4)] by auto
      obtain st2 where st2: "end_line st = Some st2" "filled st2 (length ts + eols ts) 0"
        "as_token st2 = as_token st + (if n = 0 then 0 else 1)"
        using end_line_ok [OF less.prems(2) lt] by blast
      have "add_tokens_loop s ts i st = add_tokens_loop s ts (i1 + 1) st2"
        unfolding un using ne ji st2(1) by simp
      moreover have "length ts - (i1 + 1) < length ts - i" "i1 + 1 \<le> length ts" using i1(2,3) True by auto
      ultimately show ?thesis
        using less.hyps [of "i1 + 1" st2 0] st2(2,3) at2 by simp
    next
      case ns: False
      then have ij: "i1 < j" using j unfolding next_sep_def by (cases "i1 = j") auto
      have jl: "j + 2 \<le> length ts" using next_sep_bound [OF sl j ij] .
      note fit = at_token_word(2) [OF at1 j ij le_refl ns jl]
      have dec: "length ts - j < length ts - i" "j \<le> length ts" using i1(2) ij jl by auto
      show ?thesis
      proof (cases e)
        case False
        obtain st0 st1 st2 where w:
          "(if int (j - i1) \<noteq> 1 then put_token JIM_TT_WORD (Obj_Int (int (j - i1))) st else Some st) = Some st0"
          "start_line ts i1 st0 = Some st1" "add_words s ts i1 (j - i1) st1 = Some st2"
          "filled st2 (length ts + eols ts) (Suc n)" "as_token st2 \<le> as_token st + (j - i1) + 1"
          using plain_word_ok [OF sl less.prems(2) j ij fit] by blast
        have nz: "int (j - i1) \<noteq> 0" "\<not> int (j - i1) < 0" "i1 + (j - i1) = j" using ij by auto
        have "add_tokens_loop s ts i st = add_tokens_loop s ts j st2"
          unfolding un if_not_P [OF False] if_not_P [OF nz(1)] w(1) bind.bind_lunit if_not_P [OF nz(2)] Let_def
            prod.case nat_int w(2,3) nz(3) ..
        with less.hyps [OF dec w(4) at_token_word(1) [OF at1 j ij w(5) ns jl]] show ?thesis by simp
      next
        case True
        with e(2) have ij2: "i1 + 2 \<le> j" by simp
        have "as_token st + (j - i1) \<le> length ts + eols ts" using fit by simp
        from expand_word_ok [OF sl less.prems(2) j ij2 this] obtain st0 st1 st2 st3 st4 where w:
          "put_token JIM_TT_WORD (Obj_Int (- int (j - (i1 + 1)))) st = Some st0"
          "start_line ts (i1 + 1) (st0\<lparr>as_lineargs := as_lineargs st0 - 1\<rparr>) = Some st1"
          "add_words s ts (i1 + 1) (j - (i1 + 2)) st1 = Some st2" "start_line ts (j - 1) st2 = Some st3"
          "add_words s ts (j - 1) 1 st3 = Some st4" "filled st4 (length ts + eols ts) (Suc n)"
          "as_token st4 = as_token st + (j - i1)" by blast
        have arith: "- int (j - (i1 + 1)) \<noteq> 0" "- int (j - (i1 + 1)) \<noteq> 1" "- int (j - (i1 + 1)) < 0"
          "nat (- (- int (j - (i1 + 1))) - 1) = j - (i1 + 2)" "i1 + 1 + (j - (i1 + 2)) = j - 1" "j - 1 < length ts"
          "j - 1 + 1 = j"
          using ij2 jl by auto
        have "add_tokens_loop s ts i st = add_tokens_loop s ts (j - 1) st2"
          unfolding un if_P [OF True] if_not_P [OF arith(1)] if_P [OF arith(2)] w(1) bind.bind_lunit
            if_P [OF arith(3)] Let_def prod.case arith(4) w(2,3) arith(5) ..
        moreover have "add_tokens_loop s ts (j - 1) st2 = add_tokens_loop s ts j st4"
          using last_word_step [OF sl j _ w(4,5)] ij2 by simp
        moreover have t4: "as_token st4 \<le> as_token st + (j - i1) + 1" using w(7) by simp
        ultimately show ?thesis
          using less.hyps [OF dec w(6) at_token_word(1) [OF at1 j ij t4 ns jl]] by simp
      qed
    qed
  qed
qed


section \<open>Properties\<close>

lemma arr_is_those:
  assumes "take n a = map Some xs"
  shows "those (take n a) = Some xs"
proof -
  have "those (map Some xs) = Some xs" by (induction xs) simp_all
  with assms show ?thesis by simp
qed

lemma ScriptObjAddTokens_ok:
  assumes "script_list s ts"
  shows "\<exists>toks. ScriptObjAddTokens s ts = Some (toks, pt_line (ts ! 0)) \<and> commands toks"
proof -
  have len: "2 \<le> length ts" using assms by (auto simp: script_list_def)
  let ?st = "\<lparr>as_array = replicate (length ts + eols ts) None, as_token = 1, as_linefirst = 0,
       as_lineargs = 0, as_linenr = pt_line (ts ! 0)\<rparr>"
  have "arr_is ?st (map Some [] @ None # map Some [])"
    using len by (simp add: arr_is_def take_Suc hd_replicate)
  then have "filled ?st (length ts + eols ts) 0"
    unfolding filled_def using commands_Nil words_Nil by fastforce
  moreover have "at_token ts 0 (as_token ?st) 0" using len by (auto simp: at_token_def room_def)
  ultimately obtain st where st: "add_tokens_loop s ts 0 ?st = Some st" "filled st (length ts + eols ts) 0"
    "as_token st \<le> length ts + eols ts"
    using add_tokens_loop_ok [OF assms, of 0 ?st 0] by auto
  obtain cs x ws where f: "arr_is st (map Some cs @ x # map Some ws)" "as_lineargs st = 0" "commands cs" "words 0 ws"
    using st(2) unfolding filled_def by auto
  from f(4) have "ws = []" by (cases rule: words.cases) auto
  with f(1) have tk: "as_token st = length cs + 1" "take (length cs + 1) (as_array st) = map Some cs @ [x]"
    by (simp_all add: arr_is_def)
  have "take (length cs) (as_array st) = map Some cs"
    using arg_cong [OF tk(2), of "take (length cs)"] by (simp add: min_def)
  moreover have "peek ts 0 = Some (ts ! 0)" using len by (intro peek_in) linarith
  ultimately have "ScriptObjAddTokens s ts = Some (cs, pt_line (ts ! 0))"
    using st(1,3) tk(1) f(2) arr_is_those [of "length cs" "as_array st" cs]
    by (simp add: ScriptObjAddTokens_def eols_def Let_def)
  with f(3) show ?thesis by blast
qed

lemma script_tokens_init:
  "\<exists>pc' tks' init t. script_tokens_loop s (JimParserInit (int (length s)) line) ScriptTokenListInit = Some (pc', tks') \<and>
    list_ok tks' \<and> tokens_ok s (tl_list tks') \<and> tl_list tks' = init @ [t] \<and> pt_type t = JIM_TT_EOL"
  by (rule script_tokens_loop_ok) (simp_all add: pos_ok_def JimParserInit_def list_ok_def ScriptTokenListInit_def tokens_ok_def)

text \<open>
  The tokens of every text come in order, do not overlap, lie inside the text, and end with a
  line end; reading them takes no access outside of the text.
\<close>

theorem script_tokens_partition:
  "\<exists>pc tks. script_tokens_loop s (JimParserInit (int (length s)) line) ScriptTokenListInit = Some (pc, tks) \<and>
    list_all (\<lambda>t. span_ok s t \<and> pt_type t \<in> script_types) (tl_list tks) \<and>
    sorted_wrt before (tl_list tks) \<and> tl_list tks \<noteq> [] \<and> pt_type (last (tl_list tks)) = JIM_TT_EOL"
proof -
  obtain pc' tks' init t where t: "script_tokens_loop s (JimParserInit (int (length s)) line) ScriptTokenListInit = Some (pc', tks')"
    "tokens_ok s (tl_list tks')" "tl_list tks' = init @ [t]" "pt_type t = JIM_TT_EOL"
    using script_tokens_init by blast
  then show ?thesis by (intro exI [of _ pc'] exI [of _ tks']) (simp add: tokens_ok_def list_all_iff)
qed

text \<open>
  C12: Compiling any text as a script stays inside the text, the token list and the array it
  allocates, never fails its assertion, and gives complete commands: each a \<open>LINE\<close> entry with its
  number of words, each word one token or a \<open>WORD\<close> entry with that many. Only a text with an
  opening character without its end is refused, and only when the caller asks for the check.
\<close>

theorem SetScriptFromAny_commands:
  "\<exists>r. SetScriptFromAny s line result = Some r \<and>
     (case r of Inl (c, _) \<Rightarrow> result \<and> c \<noteq> c_sp | Inr (toks, _) \<Rightarrow> commands toks)"
proof -
  obtain pc tks init t where t: "script_tokens_loop s (JimParserInit (int (length s)) line) ScriptTokenListInit = Some (pc, tks)"
    "list_ok tks" "tokens_ok s (tl_list tks)" "tl_list tks = init @ [t]" "pt_type t = JIM_TT_EOL"
    using script_tokens_init by blast
  show ?thesis
  proof (cases "result \<and> missing pc \<noteq> c_sp")
    case True
    then show ?thesis unfolding SetScriptFromAny_def t(1) by simp
  next
    case False
    obtain l where l: "ScriptAddToken tks (length s) 0 JIM_TT_EOF 0 = Some l"
      "tl_list l = tl_list tks @ [\<lparr>pt_token = length s, pt_len = 0, pt_type = JIM_TT_EOF, pt_line = 0\<rparr>]"
      using ScriptAddToken_ok [OF t(2)] by blast
    have "script_list s (tl_list l)"
      using t(3-5) unfolding script_list_def l(2)
      by (intro exI [of _ init] exI [of _ t] exI [of _ "\<lparr>pt_token = length s, pt_len = 0, pt_type = JIM_TT_EOF, pt_line = 0\<rparr>"]) simp
    from ScriptObjAddTokens_ok [OF this] obtain toks where
      "ScriptObjAddTokens s (tl_list l) = Some (toks, pt_line (tl_list l ! 0))" "commands toks" by blast
    then show ?thesis unfolding SetScriptFromAny_def t(1) using False l(1) by simp
  qed
qed

end
