(* ===== verification/Jim_List.thy ===== *)
theory Jim_List
  imports Jim_Escape
begin

text \<open>
  Lists of the Jim interpreter (\<open>src/test2/jim.c\<close>): the list parser and \<open>SetListFromAny\<close>, which
  reads a string as a list, and \<open>UpdateStringOfList\<close>, which writes a list as a string, with the
  choice of quoting. The string of an element is its bytes, with a terminator. Writes behind the
  space that was estimated for the string give \<open>None\<close>.
\<close>

section \<open>The list parser\<close>

function list_sep_loop :: "byte list \<Rightarrow> parser \<Rightarrow> parser option" where
  "list_sep_loop s pc = do {
     c \<leftarrow> rd s (pp pc);
     if c = c_sp \<or> c = c_tab \<or> c = c_cr \<or> c = c_nl then list_sep_loop s (adv 1 (newline c pc)) else Some pc
   }"
  by pat_completeness auto
termination
  by (relation "measure (\<lambda>(s, pc). Suc (length s) - pp pc)") (auto dest: rd_SomeD)

declare list_sep_loop.simps [simp del]

definition JimParseListSep :: "byte list \<Rightarrow> parser \<Rightarrow> parser option" where
  "JimParseListSep s pc = do {
     pc \<leftarrow> list_sep_loop s (pc\<lparr>tstart := pp pc, tline := linenr pc\<rparr>);
     Some ((end_token pc)\<lparr>ptt := JIM_TT_SEP\<rparr>)
   }"

text \<open>A trailing backslash: the length runs out, the position stays at the backslash.\<close>

definition trailing_backslash :: "parser \<Rightarrow> parser" where
  "trailing_backslash pc = pc\<lparr>plen := plen pc - 1, tend := int (pp pc)\<rparr>"

function list_quote_loop :: "byte list \<Rightarrow> parser \<Rightarrow> parser option" where
  "list_quote_loop s pc = (if plen pc = 0 then Some (end_token pc)
     else do {
       c \<leftarrow> rd s (pp pc);
       if c = c_bslash then (let pc = pc\<lparr>ptt := JIM_TT_ESC\<rparr> in
         if plen pc - 1 = 0 then Some (trailing_backslash pc) else list_quote_loop s (adv 2 pc))
       else if c = c_dquote then Some (adv 1 (end_token pc))
       else list_quote_loop s (adv 1 (newline c pc))
     })"
  by pat_completeness auto
termination
  by (relation "measure (\<lambda>(s, pc). Suc (length s) - pp pc)") (auto dest: rd_SomeD)

declare list_quote_loop.simps [simp del]

definition JimParseListQuote :: "byte list \<Rightarrow> parser \<Rightarrow> parser option" where
  "JimParseListQuote s pc = (let pc = adv 1 pc in
     list_quote_loop s (pc\<lparr>tstart := pp pc, tline := linenr pc, ptt := JIM_TT_STR\<rparr>))"

function list_str_loop :: "byte list \<Rightarrow> parser \<Rightarrow> parser option" where
  "list_str_loop s pc = (if plen pc = 0 then Some (end_token pc)
     else do {
       c \<leftarrow> rd s (pp pc);
       if c = c_bslash then
         (if plen pc - 1 = 0 then Some (trailing_backslash pc)
          else list_str_loop s (adv 2 (pc\<lparr>ptt := JIM_TT_ESC\<rparr>)))
       else if c = c_sp \<or> c = c_tab \<or> c = c_nl \<or> c = c_cr then Some (end_token pc)
       else list_str_loop s (adv 1 pc)
     })"
  by pat_completeness auto
termination
  by (relation "measure (\<lambda>(s, pc). Suc (length s) - pp pc)") (auto dest: rd_SomeD)

declare list_str_loop.simps [simp del]

definition JimParseListStr :: "byte list \<Rightarrow> parser \<Rightarrow> parser option" where
  "JimParseListStr s pc = list_str_loop s (pc\<lparr>tstart := pp pc, tline := linenr pc, ptt := JIM_TT_STR\<rparr>)"

definition JimParseList :: "byte list \<Rightarrow> parser \<Rightarrow> parser option" where
  "JimParseList s pc = do {
     c \<leftarrow> rd s (pp pc);
     if c = c_sp \<or> c = c_nl \<or> c = c_tab \<or> c = c_cr then JimParseListSep s pc
     else if c = c_dquote then JimParseListQuote s pc
     else if c = c_lbrace then JimParseBrace s pc
     else if plen pc \<noteq> 0 then JimParseListStr s pc
     else Some (pc\<lparr>tstart := pp pc, tend := int (pp pc), tline := linenr pc, ptt := JIM_TT_EOL, peof := True\<rparr>)
   }"

text \<open>The elements with their lines, in the order they are appended to the list.\<close>

partial_function (option) list_loop :: "byte list \<Rightarrow> parser \<Rightarrow> (byte list \<times> int) list \<Rightarrow>
    (byte list \<times> int) list option" where
  "list_loop s pc els = (if peof pc then Some els
     else do {
       pc \<leftarrow> JimParseList s pc;
       if ptt pc \<noteq> JIM_TT_STR \<and> ptt pc \<noteq> JIM_TT_ESC then list_loop s pc els
       else do {
         t \<leftarrow> JimParserGetTokenObj s pc;
         list_loop s pc (els @ [(t, tline pc)])
       }
     })"

declare list_loop.simps [code]

definition SetListFromAny :: "byte list \<Rightarrow> int \<Rightarrow> (byte list \<times> int) list option" where
  "SetListFromAny s line = list_loop s (JimParserInit (int (length s)) line) []"

section \<open>Quoting\<close>

datatype quoting = JIM_ELESTR_SIMPLE | JIM_ELESTR_BRACE | JIM_ELESTR_QUOTE

text \<open>The bytes that rule out an element without quotes.\<close>

definition list_special :: "byte \<Rightarrow> bool" where
  "list_special c \<longleftrightarrow> c \<in> {c_sp, c_dollar, c_dquote, c_lbrack, c_rbrack, c_semi, c_bslash, c_cr, c_nl,
     c_tab, c_ff, c_vt}"

text \<open>
  The first loop: \<open>None\<close> when it runs to the end, otherwise it goes on with \<open>testbrace\<close> and tells
  whether a plain element is still possible.
\<close>

fun simple_loop :: "byte list \<Rightarrow> bool option" where
  "simple_loop [] = None"
| "simple_loop (c # s) = (if list_special c then Some False
     else if c = c_lbrace \<or> c = c_rbrace then Some True else simple_loop s)"

text \<open>The loop of \<open>testbrace\<close> from index \<open>i\<close> on: \<open>None\<close> is the early \<open>JIM_ELESTR_QUOTE\<close>.\<close>

function brace_loop :: "byte list \<Rightarrow> nat \<Rightarrow> int \<Rightarrow> int \<Rightarrow> (int \<times> int) option option" where
  "brace_loop s i level blevel = (if i < length s then do {
       c \<leftarrow> rd s i;
       if c = c_lbrace then brace_loop s (i + 1) (level + 1) blevel
       else if c = c_rbrace then
         (if level - 1 < 0 then Some None else brace_loop s (i + 1) (level - 1) blevel)
       else if c = c_lbrack then brace_loop s (i + 1) level (blevel + 1)
       else if c = c_rbrack then brace_loop s (i + 1) level (blevel - 1)
       else if c = c_bslash then do {
         d \<leftarrow> rd s (i + 1);
         if d = c_nl then Some None
         else brace_loop s (if d \<noteq> 0 then i + 2 else i + 1) level blevel
       }
       else brace_loop s (i + 1) level blevel
     } else Some (Some (level, blevel)))"
  by pat_completeness auto
termination
  by (relation "measure (\<lambda>(s, i, level, blevel). length s - i)") auto

declare brace_loop.simps [simp del]

definition testbrace :: "byte list \<Rightarrow> bool \<Rightarrow> quoting option" where
  "testbrace s trySimple = (if last s = c_bslash then Some JIM_ELESTR_QUOTE
     else do {
       r \<leftarrow> brace_loop s 0 0 0;
       case r of None \<Rightarrow> Some JIM_ELESTR_QUOTE
       | Some (level, blevel) \<Rightarrow> Some (if blevel < 0 then JIM_ELESTR_QUOTE
           else if level = 0 then
             (if \<not> trySimple then JIM_ELESTR_BRACE
              else if list_ex list_special s then JIM_ELESTR_BRACE else JIM_ELESTR_SIMPLE)
           else JIM_ELESTR_QUOTE)
     })"

definition ListElementQuotingType :: "byte list \<Rightarrow> quoting option" where
  "ListElementQuotingType s = (case s of [] \<Rightarrow> Some JIM_ELESTR_BRACE
     | c # _ \<Rightarrow> if c = c_hash then Some JIM_ELESTR_BRACE
         else if c = c_dquote \<or> c = c_lbrace then testbrace s False
         else case simple_loop s of None \<Rightarrow> Some JIM_ELESTR_SIMPLE | Some simple \<Rightarrow> testbrace s simple)"

text \<open>The bytes for one byte behind backslashes; the string ends at its first NUL.\<close>

definition backslash_byte :: "byte \<Rightarrow> byte list" where
  "backslash_byte c =
     (if c \<in> {c_sp, c_dollar, c_dquote, c_lbrack, c_rbrack, c_lbrace, c_rbrace, c_semi, c_bslash} then [c_bslash, c]
      else if c = c_nl then [c_bslash, c_n]
      else if c = c_cr then [c_bslash, c_r]
      else if c = c_tab then [c_bslash, c_t]
      else if c = c_ff then [c_bslash, c_f]
      else if c = c_vt then [c_bslash, c_v]
      else [c])"

text \<open>Writing into a buffer of a given size.\<close>

definition emit :: "nat \<Rightarrow> byte list \<Rightarrow> byte list \<Rightarrow> byte list option" where
  "emit cap out bs = (if length out + length bs \<le> cap then Some (out @ bs) else None)"

fun backslash_loop :: "nat \<Rightarrow> byte list \<Rightarrow> byte list \<Rightarrow> byte list option" where
  "backslash_loop cap [] out = Some out"
| "backslash_loop cap (c # s) out = (if c = 0 then Some out
     else do { out \<leftarrow> emit cap out (backslash_byte c); backslash_loop cap s out })"

definition BackslashQuoteString :: "byte list \<Rightarrow> byte list option" where
  "BackslashQuoteString s = do {
     let cap = length s * 2 + 1;
     q \<leftarrow> backslash_loop cap s [];
     _ \<leftarrow> emit cap q [0];
     Some q
   }"

section \<open>The string of a list\<close>

definition quoted_space :: "quoting \<Rightarrow> byte list \<Rightarrow> nat" where
  "quoted_space q s = (case q of JIM_ELESTR_SIMPLE \<Rightarrow> length s | JIM_ELESTR_BRACE \<Rightarrow> length s + 2
     | JIM_ELESTR_QUOTE \<Rightarrow> length s * 2)"

fun quoting_types :: "byte list list \<Rightarrow> nat \<Rightarrow> (quoting list \<times> nat) option" where
  "quoting_types [] bufLen = Some ([], bufLen)"
| "quoting_types (e # els) bufLen = do {
     q \<leftarrow> ListElementQuotingType e;
     (qs, bufLen) \<leftarrow> quoting_types els (bufLen + quoted_space q e + 1);
     Some (q # qs, bufLen)
   }"

definition put_element :: "nat \<Rightarrow> quoting \<Rightarrow> byte list \<Rightarrow> byte list \<Rightarrow> byte list option" where
  "put_element cap q e out = (case q of
     JIM_ELESTR_SIMPLE \<Rightarrow> emit cap out e
   | JIM_ELESTR_BRACE \<Rightarrow> do {
       out \<leftarrow> emit cap out [c_lbrace];
       out \<leftarrow> emit cap out e;
       emit cap out [c_rbrace]
     }
   | JIM_ELESTR_QUOTE \<Rightarrow> do { b \<leftarrow> BackslashQuoteString e; emit cap out b })"

fun put_elements :: "nat \<Rightarrow> (quoting \<times> byte list) list \<Rightarrow> byte list \<Rightarrow> byte list option" where
  "put_elements cap [] out = Some out"
| "put_elements cap ((q, e) # els) out = do {
     out \<leftarrow> put_element cap q e out;
     out \<leftarrow> (if els \<noteq> [] then emit cap out [c_sp] else Some out);
     put_elements cap els out
   }"

definition UpdateStringOfList :: "byte list list \<Rightarrow> byte list option" where
  "UpdateStringOfList els = do {
     (qs, bufLen) \<leftarrow> quoting_types els 0;
     let cap = bufLen + 1 + 1;
     out \<leftarrow> put_elements cap (zip qs els) [];
     _ \<leftarrow> emit cap out [0];
     Some out
   }"

section \<open>What the writer puts down for an element\<close>

definition element_repr :: "quoting \<Rightarrow> byte list \<Rightarrow> byte list" where
  "element_repr q e = (case q of JIM_ELESTR_SIMPLE \<Rightarrow> e | JIM_ELESTR_BRACE \<Rightarrow> c_lbrace # e @ [c_rbrace]
     | JIM_ELESTR_QUOTE \<Rightarrow> concat (map backslash_byte e))"

fun list_repr :: "byte list list \<Rightarrow> byte list" where
  "list_repr [] = []"
| "list_repr [r] = r"
| "list_repr (r # rs) = r @ c_sp # list_repr rs"

lemma backslash_byte_length: "length (backslash_byte c) \<le> 2"
  by (simp add: backslash_byte_def)

lemma backslash_length: "length (concat (map backslash_byte s)) \<le> length s * 2"
proof (induction s)
  case (Cons c s)
  then show ?case using backslash_byte_length [of c] by simp
qed simp

lemma backslash_loop_eq:
  assumes "0 \<notin> set s" and "length out + length s * 2 \<le> cap"
  shows "backslash_loop cap s out = Some (out @ concat (map backslash_byte s))"
  using assms
proof (induction s arbitrary: out)
  case (Cons c s)
  then show ?case using backslash_byte_length [of c] by (auto simp: emit_def)
qed simp

lemma BackslashQuoteString_eq: "0 \<notin> set s \<Longrightarrow> BackslashQuoteString s = Some (concat (map backslash_byte s))"
  using backslash_length [of s] by (simp add: BackslashQuoteString_def backslash_loop_eq emit_def Let_def)

lemma element_repr_length: "length (element_repr q e) \<le> quoted_space q e"
  using backslash_length [of e] by (cases q) (simp_all add: element_repr_def quoted_space_def)

lemma brace_loop_total: "\<exists>r. brace_loop s i level blevel = Some r"
proof (induction s i level blevel rule: brace_loop.induct)
  case (1 s i level blevel)
  show ?case
  proof (cases "i < length s")
    case True
    obtain d where d: "rd s (i + 1) = Some d" using rd_le [of "i + 1" s] True by auto
    show ?thesis
      unfolding brace_loop.simps [of s i] if_P [OF True]
      using 1 [OF True] True d by (auto split: if_splits)
  next
    case False
    then show ?thesis by (simp add: brace_loop.simps [of s i])
  qed
qed

lemma ListElementQuotingType_total: "\<exists>q. ListElementQuotingType e = Some q"
proof -
  have "\<exists>q. testbrace s t = Some q" for s t
    using brace_loop_total [of s 0 0 0] by (auto simp: testbrace_def split: option.splits prod.splits)
  then show ?thesis
    by (cases e) (auto simp: ListElementQuotingType_def split: option.splits)
qed

definition etype :: "byte list \<Rightarrow> quoting" where
  "etype e = the (ListElementQuotingType e)"

lemma etype: "ListElementQuotingType e = Some (etype e)"
  using ListElementQuotingType_total [of e] by (auto simp: etype_def)

definition needed :: "byte list list \<Rightarrow> nat" where
  "needed els = sum_list (map (\<lambda>e. quoted_space (etype e) e + 1) els)"

lemma quoting_types_eq: "quoting_types els n = Some (map etype els, n + needed els)"
  by (induction els arbitrary: n) (simp_all add: etype needed_def)

lemma put_element_eq:
  assumes "0 \<notin> set e" and "length out + quoted_space q e \<le> cap"
  shows "put_element cap q e out = Some (out @ element_repr q e)"
  using assms backslash_length [of e]
  by (cases q) (simp_all add: put_element_def element_repr_def quoted_space_def emit_def BackslashQuoteString_eq)

definition repr :: "byte list \<Rightarrow> byte list" where
  "repr e = element_repr (etype e) e"

lemma put_elements_eq:
  assumes "\<forall>e \<in> set els. 0 \<notin> set e" and "length out + needed els \<le> cap"
  shows "put_elements cap (zip (map etype els) els) out = Some (out @ list_repr (map repr els))"
  using assms
proof (induction els arbitrary: out)
  case (Cons e els)
  have l: "length (element_repr (etype e) e) \<le> quoted_space (etype e) e" by (rule element_repr_length)
  have p: "put_element cap (etype e) e out = Some (out @ repr e)"
    using Cons.prems put_element_eq [of e out "etype e" cap] by (simp add: needed_def repr_def)
  show ?case
  proof (cases els)
    case Nil
    with p show ?thesis by simp
  next
    case (Cons e' els')
    have "length (out @ repr e @ [c_sp]) + needed els \<le> cap"
      using Cons.prems(2) l by (simp add: needed_def repr_def)
    with Cons.IH [of "out @ repr e @ [c_sp]"] Cons.prems(1) p Cons show ?thesis
      using Cons.prems(2) l by (simp add: emit_def needed_def repr_def)
  qed
qed simp

lemma list_repr_length: "length (list_repr (map repr els)) \<le> needed els"
proof (induction els rule: list_repr.induct [of "\<lambda>els. length (list_repr (map repr els)) \<le> needed els" for els])
  case (2 e)
  then show ?case using element_repr_length [of "etype e" e] by (simp add: needed_def repr_def)
next
  case (3 e e' els)
  then show ?case using element_repr_length [of "etype e" e] by (simp add: needed_def repr_def)
qed simp

lemma UpdateStringOfList_eq:
  assumes "\<forall>e \<in> set els. 0 \<notin> set e"
  shows "UpdateStringOfList els = Some (list_repr (map repr els))"
  using put_elements_eq [OF assms, of "[]" "needed els + 1 + 1"] list_repr_length [of els]
  by (simp add: UpdateStringOfList_def quoting_types_eq emit_def Let_def)


section \<open>What the reader makes of it\<close>

text \<open>
  Pieces of a word: a byte that stands for itself, or a backslash and a byte; and the bytes that
  pieces are read as.
\<close>

definition piece_ok :: "byte \<Rightarrow> byte list \<Rightarrow> bool" where
  "piece_ok c p \<longleftrightarrow> p = [c] \<and> c \<notin> {c_bslash, c_sp, c_tab, c_nl, c_cr} \<or> (\<exists>d. p = [c_bslash, d]) \<and> p = backslash_byte c"

lemma backslash_piece: "c \<noteq> 0 \<Longrightarrow> piece_ok c (backslash_byte c)"
  by (auto simp: piece_ok_def backslash_byte_def)

lemma rest_adv2: "rest s pc (c # d # r) \<Longrightarrow> rest s (adv 2 (pc\<lparr>ptt := t\<rparr>)) r"
proof -
  assume r: "rest s pc (c # d # r)"
  have "rest s (adv 1 (adv 1 pc)) r" using rest_Cons(4) [OF rest_Cons(4) [OF r]] .
  then show ?thesis by (simp add: rest_def)
qed

text \<open>The word up to a blank or the end of the text.\<close>

lemma list_str_loop_pieces:
  assumes "list_all2 piece_ok e ps" and "rest s pc (concat ps @ post)" and "post = [] \<or> hd post = c_sp"
  shows "\<exists>t. list_str_loop s pc = Some (end_token (pc\<lparr>pp := pp pc + length (concat ps),
     plen := plen pc - int (length (concat ps)), ptt := t\<rparr>)) \<and>
     (t = ptt pc \<and> concat ps = e \<or> t = JIM_TT_ESC)"
  using assms(1,2)
proof (induction arbitrary: pc rule: list_all2_induct)
  case Nil
  show ?case
  proof (cases post)
    case Nil
    with Nil.prems rest_Nil [of s pc] have h: "plen pc = 0" by simp
    show ?thesis
      unfolding list_str_loop.simps [of s pc] if_P [OF h] by (intro exI [of _ "ptt pc"]) simp
  next
    case (Cons c r)
    with assms(3) have "rest s pc (c_sp # r)" using \<open>rest s pc (concat [] @ post)\<close> by simp
    from rest_Cons [OF this] show ?thesis
      by (intro exI [of _ "ptt pc"]) (simp add: list_str_loop.simps [of s pc])
  qed
next
  case (Cons c e p ps)
  from Cons.hyps(1) consider (plain) "p = [c]" "c \<notin> {c_bslash, c_sp, c_tab, c_nl, c_cr}" | (esc) d where "p = [c_bslash, d]"
    by (auto simp: piece_ok_def)
  then show ?case
  proof cases
    case plain
    with Cons.prems have r: "rest s pc (c # (concat ps @ post))" by simp
    from Cons.IH [OF rest_Cons(4) [OF r]] obtain t where t:
      "list_str_loop s (adv 1 pc) = Some (end_token ((adv 1 pc)\<lparr>pp := pp (adv 1 pc) + length (concat ps),
         plen := plen (adv 1 pc) - int (length (concat ps)), ptt := t\<rparr>))"
      "t = ptt (adv 1 pc) \<and> concat ps = e \<or> t = JIM_TT_ESC" by blast
    have "list_str_loop s pc = list_str_loop s (adv 1 pc)"
      using rest_Cons [OF r] plain by (simp add: list_str_loop.simps [of s pc])
    with t plain show ?thesis by (intro exI [of _ t]) (auto simp: adv_def end_token_def)
  next
    case (esc d)
    with Cons.prems have r: "rest s pc (c_bslash # d # (concat ps @ post))" by simp
    let ?p1 = "adv 2 (pc\<lparr>ptt := JIM_TT_ESC\<rparr>)"
    from Cons.IH [OF rest_adv2 [OF r]] obtain t where t:
      "list_str_loop s ?p1 = Some (end_token (?p1\<lparr>pp := pp ?p1 + length (concat ps),
         plen := plen ?p1 - int (length (concat ps)), ptt := t\<rparr>))"
      "t = ptt ?p1 \<and> concat ps = e \<or> t = JIM_TT_ESC" by blast
    have "list_str_loop s pc = list_str_loop s ?p1"
      using rest_Cons [OF r] rest_Cons2 [OF r] by (simp add: list_str_loop.simps [of s pc])
    with t esc show ?thesis by (intro exI [of _ JIM_TT_ESC]) (auto simp: adv_def end_token_def)
  qed
qed

text \<open>Substitution of the pieces.\<close>

lemma escape_step_piece:
  assumes "piece_ok c p" and "drop i s = p @ r"
  shows "escape_step s i = Some ([c], i + length p - 1)" and "p \<noteq> []"
proof -
  from assms(1) consider (plain) "p = [c]" "c \<noteq> c_bslash" | (esc) d where "p = [c_bslash, d]" "backslash_byte c = [c_bslash, d]"
    by (auto simp: piece_ok_def)
  then have "escape_step s i = Some ([c], i + length p - 1) \<and> p \<noteq> []"
  proof cases
    case plain
    with assms(2) drop_ConsD [of i s c r] show ?thesis by (simp add: escape_step_def)
  next
    case (esc d)
    with assms(2) have "drop i s = c_bslash # d # r" by simp
    from drop_ConsD [OF this] drop_ConsD [of "Suc i" s d r] have "rd s i = Some c_bslash" "rd s (i + 1) = Some d" by auto
    with esc show ?thesis
      by (auto simp: escape_step_def backslash_byte_def odigitval_def split: if_splits)
  qed
  then show "escape_step s i = Some ([c], i + length p - 1)" "p \<noteq> []" by simp_all
qed

lemma escape_loop_pieces:
  assumes "list_all2 piece_ok e ps" and "drop i s = concat ps @ r"
  shows "escape_loop s (i + length (concat ps)) i out = Some (out @ e)"
  using assms
proof (induction arbitrary: i out rule: list_all2_induct)
  case Nil
  then show ?case by (simp add: escape_loop.simps [of s i i])
next
  case (Cons c e p ps)
  have d: "drop i s = p @ (concat ps @ r)" using Cons.prems by simp
  note st = escape_step_piece [OF Cons.hyps(1) d]
  have "drop (i + length p) s = concat ps @ r"
    using d by (metis add.commute append_eq_conv_conj drop_drop)
  from Cons.IH [OF this, of "out @ [c]"] st show ?case
    by (simp add: escape_loop.simps [of s _ i] add.assoc)
qed


lemma JimParseListStr_pieces:
  assumes "list_all2 piece_ok e ps" and "rest s pc (concat ps @ post)" and "post = [] \<or> hd post = c_sp" and "e \<noteq> []"
  shows "\<exists>pc'. JimParseListStr s pc = Some pc' \<and> ptt pc' \<in> {JIM_TT_STR, JIM_TT_ESC} \<and>
    JimParserGetTokenObj s pc' = Some e \<and> rest s pc' post \<and> peof pc' = peof pc"
proof -
  let ?p = "pc\<lparr>tstart := pp pc, tline := linenr pc, ptt := JIM_TT_STR\<rparr>" and ?n = "length (concat ps)"
  have "rest s ?p (concat ps @ post)" using assms(2) by (simp add: rest_def)
  from list_str_loop_pieces [OF assms(1) this assms(3)] obtain t where t:
    "list_str_loop s ?p = Some (end_token (?p\<lparr>pp := pp pc + ?n, plen := plen pc - int ?n, ptt := t\<rparr>))"
    "t = JIM_TT_STR \<and> concat ps = e \<or> t = JIM_TT_ESC" by auto
  let ?q = "end_token (?p\<lparr>pp := pp pc + ?n, plen := plen pc - int ?n, ptt := t\<rparr>)"
  have d: "drop (pp pc) s = concat ps @ post" and l: "plen pc = int ?n + int (length post)" "pp pc \<le> length s"
    using assms(2) by (simp_all add: rest_def)
  have len: "pp pc + ?n \<le> length s" using arg_cong [OF d, of length] l(2) by simp
  have "concat ps \<noteq> []" using assms(1,4) by (cases rule: list.rel_cases) (auto simp: piece_ok_def)
  then have n: "0 < ?n" by blast
  have tok: "JimParserGetTokenObj s ?q = Some e"
  proof (cases "t = JIM_TT_ESC")
    case False
    with t(2) have "t = JIM_TT_STR" "concat ps = e" by auto
    then show ?thesis using n d len by (simp add: JimParserGetTokenObj_def Let_def)
  next
    case True
    have "escape_loop (drop (pp pc) s) (0 + ?n) 0 [] = Some ([] @ e)"
      by (rule escape_loop_pieces [OF assms(1), of _ _ post]) (simp add: d)
    then show ?thesis using True n by (auto simp: JimParserGetTokenObj_def JimEscape_def Let_def)
  qed
  have "rest s ?q post"
    using d l len by (simp add: rest_def) (metis add.commute append_eq_conv_conj drop_drop length_concat)
  with tok t show ?thesis by (intro exI [of _ ?q]) (auto simp: JimParseListStr_def)
qed

section \<open>The quoting types\<close>

lemma simple_loop_None: "simple_loop s = None \<Longrightarrow> \<forall>c \<in> set s. \<not> list_special c \<and> c \<noteq> c_lbrace \<and> c \<noteq> c_rbrace"
  by (induction s) (auto split: if_splits)

lemma brace_loop_scan:
  assumes "brace_loop s i (int k) blevel = Some (Some (level, bl))" and "0 \<notin> set s" and "last s \<noteq> c_bslash" and "i \<le> length s"
  shows "0 \<le> level \<and> brace_scan k (drop i s) = Some (nat level)"
  using assms
proof (induction "length s - i" arbitrary: i k blevel rule: less_induct)
  case less
  show ?case
  proof (cases "i < length s")
    case False
    with less.prems show ?thesis by (auto simp: brace_loop.simps [of s i])
  next
    case True
    let ?c = "s ! i"
    have d: "drop i s = ?c # drop (Suc i) s" by (rule Cons_nth_drop_Suc [symmetric, OF True])
    note un = less.prems(1) [unfolded brace_loop.simps [of s i] if_P [OF True] rd_in [OF True] bind.bind_lunit]
    have dec: "length s - (i + 1) < length s - i" "i + 1 \<le> length s" using True by auto
    note IH = less.hyps [OF dec(1) _ less.prems(2,3) dec(2)]
    consider "?c = c_lbrace" | "?c = c_rbrace" | "?c = c_bslash" | "?c \<notin> {c_lbrace, c_rbrace, c_bslash}" by blast
    then show ?thesis
    proof cases
      case a: 1
      with un have "brace_loop s (i + 1) (int (k + 1)) blevel = Some (Some (level, bl))" by (simp add: add.commute)
      from IH [OF this] a show ?thesis unfolding d by simp
    next
      case a: 2
      with un have "int k - 1 \<ge> 0" "brace_loop s (i + 1) (int k - 1) blevel = Some (Some (level, bl))" by (auto split: if_splits)
      then have k: "k \<noteq> 0" "brace_loop s (i + 1) (int (k - 1)) blevel = Some (Some (level, bl))" by (auto simp: of_nat_diff)
      from IH [OF k(2)] a k(1) show ?thesis unfolding d by simp
    next
      case a: 3
      have i2: "i + 1 < length s"
      proof (rule ccontr)
        assume "\<not> i + 1 < length s"
        with True have "i = length s - 1" by simp
        with a True less.prems(3) show False by (metis last_conv_nth length_0_conv not_less_zero)
      qed
      have nz: "s ! (i + 1) \<noteq> 0" using less.prems(2) i2 by (metis nth_mem)
      have d2: "drop (Suc i) s = s ! (i + 1) # drop (i + 2) s"
        using Cons_nth_drop_Suc [OF i2] by simp
      from un a nz i2 have "brace_loop s (i + 2) (int k) blevel = Some (Some (level, bl))"
        by (auto split: if_splits)
      from less.hyps [OF _ this less.prems(2,3)] i2 have "0 \<le> level \<and> brace_scan k (drop (i + 2) s) = Some (nat level)" by simp
      with a show ?thesis unfolding d d2 by simp
    next
      case a: 4
      with un obtain b' where "brace_loop s (i + 1) (int k) b' = Some (Some (level, bl))" by (auto split: if_splits)
      from IH [OF this] a show ?thesis unfolding d by simp
    qed
  qed
qed

lemma brace_scan_plain: "set e \<inter> {c_lbrace, c_rbrace, c_bslash} = {} \<Longrightarrow> brace_scan k e = Some k"
  by (induction e) auto

text \<open>Elements that survive: no NUL bytes, and nothing to balance behind a leading number sign.\<close>

definition element_ok :: "byte list \<Rightarrow> bool" where
  "element_ok e \<longleftrightarrow> 0 \<notin> set e \<and> (e \<noteq> [] \<and> hd e = c_hash \<longrightarrow> set e \<inter> {c_lbrace, c_rbrace, c_bslash} = {})"

lemma testbrace_types:
  assumes "testbrace s t = Some q" and "0 \<notin> set s" 
  shows "q = JIM_ELESTR_BRACE \<Longrightarrow> brace_scan 0 s = Some 0"
    and "q = JIM_ELESTR_SIMPLE \<Longrightarrow> t \<and> (\<forall>c \<in> set s. \<not> list_special c)"
  using assms brace_loop_scan [of s 0 0 0]
  by (auto simp: testbrace_def list_ex_iff split: if_splits option.splits bind_splits)

lemma etype_BRACE:
  assumes "etype e = JIM_ELESTR_BRACE" and "element_ok e"
  shows "brace_scan 0 e = Some 0"
proof (cases e)
  case (Cons c r)
  show ?thesis
  proof (cases "c = c_hash")
    case True
    with Cons assms(2) have "set e \<inter> {c_lbrace, c_rbrace, c_bslash} = {}" by (simp add: element_ok_def)
    then show ?thesis by (rule brace_scan_plain)
  next
    case False
    with Cons etype [of e] assms have "\<exists>t. testbrace e t = Some JIM_ELESTR_BRACE"
      by (auto simp: ListElementQuotingType_def split: if_splits option.splits)
    with assms(2) show ?thesis using testbrace_types(1) by (auto simp: element_ok_def)
  qed
qed simp

lemma etype_SIMPLE:
  assumes "etype e = JIM_ELESTR_SIMPLE" and "0 \<notin> set e"
  shows "e \<noteq> [] \<and> hd e \<noteq> c_lbrace \<and> (\<forall>c \<in> set e. \<not> list_special c)"
proof (cases e)
  case Nil
  with etype [of e] assms show ?thesis by (simp add: ListElementQuotingType_def)
next
  case (Cons c r)
  have "c \<noteq> c_lbrace"
    using etype [of e] assms Cons testbrace_types(2) [of e False JIM_ELESTR_SIMPLE]
    by (auto simp: ListElementQuotingType_def)
  moreover have "\<forall>c \<in> set e. \<not> list_special c"
  proof (cases "simple_loop e")
    case None
    then show ?thesis using simple_loop_None by blast
  next
    case (Some t)
    with etype [of e] assms Cons have "\<exists>t. testbrace e t = Some JIM_ELESTR_SIMPLE"
      by (auto simp: ListElementQuotingType_def split: if_splits)
    with assms(2) show ?thesis using testbrace_types(2) by blast
  qed
  ultimately show ?thesis using Cons by simp
qed


section \<open>One element written and read\<close>

lemma piece_first:
  assumes "c \<noteq> 0" and "backslash_byte c = p"
  shows "hd p \<notin> {c_sp, c_nl, c_tab, c_cr, c_dquote, c_lbrace}" and "p \<noteq> []"
  using assms by (auto simp: backslash_byte_def split: if_splits)

text \<open>A word that is neither quoted nor in braces.\<close>

lemma JimParseList_word:
  assumes "list_all2 piece_ok e ps" and "rest s pc (concat ps @ post)" and "post = [] \<or> hd post = c_sp"
    and "e \<noteq> []" and "hd (concat ps) \<notin> {c_sp, c_nl, c_tab, c_cr, c_dquote, c_lbrace}"
  shows "\<exists>pc'. JimParseList s pc = Some pc' \<and> ptt pc' \<in> {JIM_TT_STR, JIM_TT_ESC} \<and>
    JimParserGetTokenObj s pc' = Some e \<and> rest s pc' post \<and> peof pc' = peof pc"
proof -
  have "concat ps \<noteq> []" using assms(1,4) by (cases rule: list.rel_cases) (auto simp: piece_ok_def)
  then obtain c r where c: "concat ps = c # r" by (cases "concat ps") auto
  then have "rest s pc (c # (r @ post))" using assms(2) by simp
  note h = rest_Cons(1,2) [OF this]
  have "JimParseList s pc = JimParseListStr s pc"
    using h c assms(5) by (simp add: JimParseList_def)
  with JimParseListStr_pieces [OF assms(1-4)] show ?thesis by simp
qed

lemma JimParseList_element:
  assumes ok: "element_ok e" and r: "rest s pc (repr e @ post)" and post: "post = [] \<or> hd post = c_sp"
  shows "\<exists>pc'. JimParseList s pc = Some pc' \<and> ptt pc' \<in> {JIM_TT_STR, JIM_TT_ESC} \<and>
    JimParserGetTokenObj s pc' = Some e \<and> rest s pc' post \<and> peof pc' = peof pc"
proof (cases "etype e")
  case JIM_ELESTR_SIMPLE
  have nz: "0 \<notin> set e" using ok by (simp add: element_ok_def)
  note sim = etype_SIMPLE [OF JIM_ELESTR_SIMPLE nz]
  have "list_all2 piece_ok e (map (\<lambda>c. [c]) e)"
    using sim by (auto simp: list_all2_map2 list_all2_same piece_ok_def list_special_def)
  moreover have cc: "concat (map (\<lambda>c. [c]) e) = e" by simp
  moreover have "hd e \<in> set e" using sim by simp
  then have "hd e \<notin> {c_sp, c_nl, c_tab, c_cr, c_dquote, c_lbrace}" using sim by (auto simp: list_special_def)
  ultimately show ?thesis
    using JimParseList_word [of e "map (\<lambda>c. [c]) e" s pc post] r post sim JIM_ELESTR_SIMPLE
    by (simp add: repr_def element_repr_def)
next
  case JIM_ELESTR_QUOTE
  have nz: "0 \<notin> set e" using ok by (simp add: element_ok_def)
  have ne: "e \<noteq> []"
    using JIM_ELESTR_QUOTE etype [of e] by (auto simp: ListElementQuotingType_def)
  have "\<forall>c \<in> set e. piece_ok c (backslash_byte c)" using nz backslash_piece by metis
  then have "list_all2 piece_ok e (map backslash_byte e)"
    by (simp add: list_all2_map2 list_all2_same)
  moreover have "hd (concat (map backslash_byte e)) \<notin> {c_sp, c_nl, c_tab, c_cr, c_dquote, c_lbrace}"
  proof -
    obtain c t where e: "e = c # t" using ne by (cases e) auto
    then have "c \<noteq> 0" using nz by auto
    from piece_first [OF this refl] show ?thesis using e by simp
  qed
  ultimately show ?thesis
    using JimParseList_word [of e "map backslash_byte e" s pc post] r post ne JIM_ELESTR_QUOTE
    by (simp add: repr_def element_repr_def)
next
  case JIM_ELESTR_BRACE
  have r': "rest s pc (c_lbrace # e @ c_rbrace # post)"
    using r JIM_ELESTR_BRACE by (simp add: repr_def element_repr_def)
  note run = JimParseBrace_scan [OF etype_BRACE [OF JIM_ELESTR_BRACE ok] r']
  let ?q = "adv 1 (end_token (past e (adv 1 (pc\<lparr>tstart := pp pc + 1, tline := linenr pc, ptt := JIM_TT_STR\<rparr>))))"
  have d: "drop (pp pc) s = c_lbrace # e @ c_rbrace # post" "pp pc \<le> length s" "plen pc = int (length e) + int (length post) + 2"
    using r' by (simp_all add: rest_def)
  have d1: "drop (Suc (pp pc)) s = e @ c_rbrace # post" using drop_ConsD [OF d(1)] by simp
  have len: "pp pc + length e + 2 \<le> length s" using arg_cong [OF d(1), of length] d(2) by simp
  have d2: "drop (pp pc + length e + 2) s = post"
    using arg_cong [OF d1, of "drop (length e + 1)"] by (simp add: add.commute add.left_commute)
  have "JimParseList s pc = Some ?q"
    using run rest_Cons(1) [OF r'] by (simp add: JimParseList_def)
  moreover have "JimParserGetTokenObj s ?q = Some e"
    using d1 len by (auto simp: JimParserGetTokenObj_def past_def adv_def end_token_def Let_def)
  moreover have "rest s ?q post"
    using d2 d(3) len by (simp add: rest_def past_def)
  moreover have "ptt ?q = JIM_TT_STR" "peof ?q = peof pc" by (simp_all add: past_def)
  ultimately show ?thesis by auto
qed

lemma repr_first:
  assumes "element_ok e"
  shows "repr e \<noteq> []" and "hd (repr e) \<notin> {c_sp, c_nl, c_tab, c_cr}"
proof -
  have nz: "0 \<notin> set e" using assms by (simp add: element_ok_def)
  have "repr e \<noteq> [] \<and> hd (repr e) \<notin> {c_sp, c_nl, c_tab, c_cr}"
  proof (cases "etype e")
    case JIM_ELESTR_SIMPLE
    note sim = etype_SIMPLE [OF this nz]
    then have "hd e \<in> set e" by simp
    with sim JIM_ELESTR_SIMPLE show ?thesis by (auto simp: repr_def element_repr_def list_special_def)
  next
    case JIM_ELESTR_BRACE
    then show ?thesis by (simp add: repr_def element_repr_def)
  next
    case JIM_ELESTR_QUOTE
    then have "e \<noteq> []" using etype [of e] by (auto simp: ListElementQuotingType_def)
    then obtain c t where e: "e = c # t" by (cases e) auto
    then have "c \<noteq> 0" using nz by auto
    from piece_first [OF this refl] JIM_ELESTR_QUOTE e show ?thesis by (simp add: repr_def element_repr_def)
  qed
  then show "repr e \<noteq> []" and "hd (repr e) \<notin> {c_sp, c_nl, c_tab, c_cr}" by simp_all
qed

text \<open>The separator between two elements.\<close>

lemma JimParseList_space:
  assumes "rest s pc (c_sp # c # r)" and "c \<notin> {c_sp, c_nl, c_tab, c_cr}"
  shows "\<exists>pc'. JimParseList s pc = Some pc' \<and> ptt pc' = JIM_TT_SEP \<and> rest s pc' (c # r) \<and> peof pc' = peof pc"
proof -
  let ?p = "pc\<lparr>tstart := pp pc, tline := linenr pc\<rparr>"
  have r1: "rest s (adv 1 (newline c_sp ?p)) (c # r)" using rest_Cons(5) [OF assms(1), of c_sp] by (simp add: rest_def)
  have "list_sep_loop s ?p = list_sep_loop s (adv 1 (newline c_sp ?p))"
    using rest_Cons(1) [OF assms(1)] by (simp add: list_sep_loop.simps [of s ?p])
  also have "\<dots> = Some (adv 1 (newline c_sp ?p))"
    unfolding list_sep_loop.simps [of s "adv 1 (newline c_sp ?p)"] using rest_Cons(1) [OF r1] assms(2) by simp
  finally show ?thesis
    using rest_Cons(1) [OF assms(1)] r1 by (simp add: JimParseList_def JimParseListSep_def rest_def)
qed

lemma list_loop_end:
  assumes "rest s pc []" and "\<not> peof pc"
  shows "list_loop s pc acc = Some acc"
proof -
  let ?q = "pc\<lparr>tstart := pp pc, tend := int (pp pc), tline := linenr pc, ptt := JIM_TT_EOL, peof := True\<rparr>"
  have "JimParseList s pc = Some ?q" using rest_Nil [OF assms(1)] by (simp add: JimParseList_def)
  moreover have "list_loop s ?q acc = Some acc" by (subst list_loop.simps) simp
  ultimately show ?thesis using assms(2) by (simp add: list_loop.simps [of s pc])
qed

lemma list_loop_element:
  assumes "element_ok e" and "rest s pc (repr e @ post)" and "post = [] \<or> hd post = c_sp" and "\<not> peof pc"
  shows "\<exists>pc' l. list_loop s pc acc = list_loop s pc' (acc @ [(e, l)]) \<and> rest s pc' post \<and> \<not> peof pc'"
proof -
  obtain pc' where p: "JimParseList s pc = Some pc'" "ptt pc' \<in> {JIM_TT_STR, JIM_TT_ESC}"
    "JimParserGetTokenObj s pc' = Some e" "rest s pc' post" "peof pc' = peof pc"
    using JimParseList_element [OF assms(1-3)] by blast
  then have "list_loop s pc acc = list_loop s pc' (acc @ [(e, tline pc')])"
    using assms(4) by (auto simp: list_loop.simps [of s pc])
  with p(4,5) assms(4) show ?thesis by blast
qed

lemma list_repr_Cons: "\<exists>t. list_repr (r # rs) = r @ t"
  by (cases rs) auto

lemma list_loop_reads:
  assumes "\<forall>e \<in> set els. element_ok e" and "rest s pc (list_repr (map repr els))" and "\<not> peof pc"
  shows "\<exists>res. list_loop s pc acc = Some (acc @ res) \<and> map fst res = els"
  using assms
proof (induction els arbitrary: pc acc rule: induct_list012)
  case 1
  then show ?case using list_loop_end by simp
next
  case (2 e)
  then obtain pc' l where "list_loop s pc acc = list_loop s pc' (acc @ [(e, l)])" "rest s pc' []" "\<not> peof pc'"
    using list_loop_element [of e s pc "[]" acc] by auto
  with list_loop_end [of s pc' "acc @ [(e, l)]"] show ?case by (intro exI [of _ "[(e, l)]"]) simp
next
  case (3 e e' els)
  let ?r = "list_repr (map repr (e' # els))"
  from 3 obtain pc1 l where p1: "list_loop s pc acc = list_loop s pc1 (acc @ [(e, l)])" "rest s pc1 (c_sp # ?r)" "\<not> peof pc1"
    using list_loop_element [of e s pc "c_sp # ?r" acc] by auto
  note f = repr_first [of e']
  obtain t where t: "?r = repr e' @ t" using list_repr_Cons by fastforce
  obtain c r where c: "?r = c # r" "c \<notin> {c_sp, c_nl, c_tab, c_cr}"
    using f 3(3) t by (cases "repr e'") auto
  have "rest s pc1 (c_sp # c # r)" using p1(2) c(1) by simp
  from JimParseList_space [OF this c(2)] obtain pc2 where p2:
    "JimParseList s pc1 = Some pc2" "ptt pc2 = JIM_TT_SEP" "rest s pc2 (c # r)" "peof pc2 = peof pc1" by blast
  have "list_loop s pc1 (acc @ [(e, l)]) = list_loop s pc2 (acc @ [(e, l)])"
    using p1(3) p2(1,2) by (simp add: list_loop.simps [of s pc1])
  moreover have "\<forall>x \<in> set (e' # els). element_ok x" using 3(3) by simp
  moreover have "rest s pc2 ?r" unfolding c(1) by (rule p2(3))
  moreover have "\<not> peof pc2" using p2(4) p1(3) by simp
  ultimately obtain res where
    "list_loop s pc1 (acc @ [(e, l)]) = Some ((acc @ [(e, l)]) @ res)" "map fst res = e' # els"
    using 3(2) [of pc2 "acc @ [(e, l)]"] by auto
  then show ?case using p1(1) by (intro exI [of _ "(e, l) # res"]) simp
qed

lemma SetListFromAny_reads:
  assumes "\<forall>e \<in> set els. element_ok e"
  shows "\<exists>res. SetListFromAny (list_repr (map repr els)) line = Some res \<and> map fst res = els"
  using list_loop_reads [OF assms, of "list_repr (map repr els)" "JimParserInit (int (length (list_repr (map repr els)))) line" "[]"]
  by (simp add: SetListFromAny_def rest_def JimParserInit_def)

section \<open>Reading never fails\<close>

text \<open>A position that is in order, or behind a trailing backslash.\<close>

definition lpos_ok :: "byte list \<Rightarrow> parser \<Rightarrow> bool" where
  "lpos_ok s pc \<longleftrightarrow> pos_ok s pc \<or> plen pc = 0 \<and> rd s (pp pc) = Some c_bslash"

lemma list_sep_loop_ok: "pos_ok s pc \<Longrightarrow> \<exists>pc'. list_sep_loop s pc = Some pc' \<and> moved s pc pc'"
proof (induction s pc rule: list_sep_loop.induct)
  case (1 s pc)
  obtain c where c: "rd s (pp pc) = Some c" using pos_ok_read [OF 1(2)] by blast
  show ?case
  proof (cases "c = c_sp \<or> c = c_tab \<or> c = c_cr \<or> c = c_nl")
    case True
    then have "0 < plen pc" using pos_ok_nonzero [OF 1(2) c] by auto
    from 1(1) [OF c True pos_ok_adv_newline [OF 1(2) this]] show ?thesis
      unfolding list_sep_loop.simps [of s pc] using c True by (auto dest: moved_adv)
  next
    case False
    then show ?thesis
      unfolding list_sep_loop.simps [of s pc] using c 1(2) by (simp add: moved_refl)
  qed
qed

text \<open>The bytes of the element that was read lie inside the text.\<close>

definition ltoken_ok :: "byte list \<Rightarrow> parser \<Rightarrow> parser \<Rightarrow> bool" where
  "ltoken_ok s pc pc' \<longleftrightarrow> lpos_ok s pc' \<and> tend pc' < int (length s) \<and> nat (plen pc') \<le> nat (plen pc)"

lemma ltoken_adv:
  "\<lbrakk>ltoken_ok s (adv n (newline c pc)) pc'; 0 < n; 0 < plen pc\<rbrakk> \<Longrightarrow> ltoken_ok s pc pc' \<and> nat (plen pc') < nat (plen pc)"
  "\<lbrakk>ltoken_ok s (adv n pc) pc'; 0 < n; 0 < plen pc\<rbrakk> \<Longrightarrow> ltoken_ok s pc pc' \<and> nat (plen pc') < nat (plen pc)"
  "\<lbrakk>ltoken_ok s (adv n (pc\<lparr>ptt := t\<rparr>)) pc'; 0 < n; 0 < plen pc\<rbrakk> \<Longrightarrow> ltoken_ok s pc pc' \<and> nat (plen pc') < nat (plen pc)"
  by (auto simp: ltoken_ok_def)

lemma ltoken_end: "pos_ok s pc \<Longrightarrow> ltoken_ok s pc (end_token pc)"
  by (simp add: ltoken_ok_def lpos_ok_def pos_ok_def)

lemma ltoken_trailing:
  assumes "pos_ok s pc" and "rd s (pp pc) = Some c_bslash" and "plen pc = 1"
  shows "ltoken_ok s pc (trailing_backslash (pc\<lparr>ptt := t\<rparr>)) \<and> plen (trailing_backslash (pc\<lparr>ptt := t\<rparr>)) = 0"
    and "ltoken_ok s pc (trailing_backslash pc) \<and> plen (trailing_backslash pc) = 0"
  using assms by (auto simp: ltoken_ok_def lpos_ok_def pos_ok_def trailing_backslash_def)

lemma list_str_loop_ok:
  "pos_ok s pc \<Longrightarrow> \<exists>pc'. list_str_loop s pc = Some pc' \<and> ltoken_ok s pc pc' \<and>
     (0 < plen pc \<longrightarrow> rd s (pp pc) \<notin> Some ` {c_sp, c_tab, c_nl, c_cr} \<longrightarrow> nat (plen pc') < nat (plen pc))"
proof (induction s pc rule: list_str_loop.induct)
  case (1 s pc)
  note ok = 1(3) and un = list_str_loop.simps [of s pc]
  show ?case
  proof (cases "plen pc = 0")
    case True
    then show ?thesis unfolding un if_P [OF True] using ltoken_end [OF ok] by simp
  next
    case False
    then have pos: "0 < plen pc" using ok by (simp add: pos_ok_def)
    obtain c where c: "rd s (pp pc) = Some c" using pos_ok_read [OF ok] by blast
    note un = un [unfolded if_not_P [OF False] c bind.bind_lunit]
    consider "c = c_bslash" | "c \<noteq> c_bslash" "c = c_sp \<or> c = c_tab \<or> c = c_nl \<or> c = c_cr"
      | "c \<noteq> c_bslash" "\<not> (c = c_sp \<or> c = c_tab \<or> c = c_nl \<or> c = c_cr)" by blast
    then show ?thesis
    proof cases
      case a: 1
      show ?thesis
      proof (cases "plen pc - 1 = 0")
        case True
        then show ?thesis using ltoken_trailing(2) [OF ok] c a unfolding un by simp
      next
        case n: False
        then have "pos_ok s (adv 2 (pc\<lparr>ptt := JIM_TT_ESC\<rparr>))" using ok pos by (simp add: pos_ok_def)
        from 1(1) [OF False c a n this] obtain pc' where
          "list_str_loop s (adv 2 (pc\<lparr>ptt := JIM_TT_ESC\<rparr>)) = Some pc'" "ltoken_ok s (adv 2 (pc\<lparr>ptt := JIM_TT_ESC\<rparr>)) pc'" by blast
        then show ?thesis
          unfolding un if_P [OF a] if_not_P [OF n] using ltoken_adv(3) [where s = s and n = 2] pos by simp
      qed
    next
      case a: 2
      then show ?thesis using ltoken_end [OF ok] c unfolding un by auto
    next
      case a: 3
      have "pos_ok s (adv 1 pc)" using ok pos by (simp add: pos_ok_def)
      from 1(2) [OF False c a this] obtain pc' where
        "list_str_loop s (adv 1 pc) = Some pc'" "ltoken_ok s (adv 1 pc) pc'" by blast
      then show ?thesis
        unfolding un if_not_P [OF a(1)] if_not_P [OF a(2)] using ltoken_adv(2) [of s 1] pos by simp
    qed
  qed
qed

lemma list_quote_loop_ok:
  "pos_ok s pc \<Longrightarrow> \<exists>pc'. list_quote_loop s pc = Some pc' \<and> ltoken_ok s pc pc'"
proof (induction s pc rule: list_quote_loop.induct)
  case (1 s pc)
  note ok = 1(3) and un = list_quote_loop.simps [of s pc]
  show ?case
  proof (cases "plen pc = 0")
    case True
    then show ?thesis unfolding un if_P [OF True] using ltoken_end [OF ok] by simp
  next
    case False
    then have pos: "0 < plen pc" using ok by (simp add: pos_ok_def)
    obtain c where c: "rd s (pp pc) = Some c" using pos_ok_read [OF ok] by blast
    note un = un [unfolded if_not_P [OF False] c bind.bind_lunit Let_def]
    consider "c = c_bslash" | "c \<noteq> c_bslash" "c = c_dquote" | "c \<noteq> c_bslash" "c \<noteq> c_dquote" by blast
    then show ?thesis
    proof cases
      case a: 1
      show ?thesis
      proof (cases "plen (pc\<lparr>ptt := JIM_TT_ESC\<rparr>) - 1 = 0")
        case True
        then show ?thesis using ltoken_trailing(1) [OF ok, of JIM_TT_ESC] c a unfolding un by simp
      next
        case n: False
        then have "pos_ok s (adv 2 (pc\<lparr>ptt := JIM_TT_ESC\<rparr>))" using ok pos by (simp add: pos_ok_def)
        from 1(1) [OF False c a refl n this] obtain pc' where
          "list_quote_loop s (adv 2 (pc\<lparr>ptt := JIM_TT_ESC\<rparr>)) = Some pc'" "ltoken_ok s (adv 2 (pc\<lparr>ptt := JIM_TT_ESC\<rparr>)) pc'" by blast
        then show ?thesis
          unfolding un if_P [OF a] if_not_P [OF n] using ltoken_adv(3) [where s = s and n = 2] pos by simp
      qed
    next
      case a: 2
      have "ltoken_ok s pc (adv 1 (end_token pc))" using ok pos by (simp add: ltoken_ok_def lpos_ok_def pos_ok_def)
      then show ?thesis unfolding un using a by simp
    next
      case a: 3
      from 1(2) [OF False c a pos_ok_adv_newline [OF ok pos]] obtain pc' where
        "list_quote_loop s (adv 1 (newline c pc)) = Some pc'" "ltoken_ok s (adv 1 (newline c pc)) pc'" by blast
      then show ?thesis
        unfolding un if_not_P [OF a(1)] if_not_P [OF a(2)] using ltoken_adv(1) [of s 1 c] pos by simp
    qed
  qed
qed

lemma JimParseList_ok:
  assumes "lpos_ok s pc"
  shows "\<exists>pc'. JimParseList s pc = Some pc' \<and>
    (peof pc' \<and> ptt pc' = JIM_TT_EOL \<or> ltoken_ok s pc pc' \<and> nat (plen pc') < nat (plen pc))"
proof -
  obtain c where c: "rd s (pp pc) = Some c" using assms pos_ok_read by (auto simp: lpos_ok_def)
  note un = JimParseList_def [of s pc, unfolded c bind.bind_lunit]
  consider "plen pc = 0" "c \<notin> {c_sp, c_nl, c_tab, c_cr, c_dquote, c_lbrace}" | "pos_ok s pc" "0 < plen pc"
    using assms c pos_ok_nonzero [of s pc c] by (fastforce simp: lpos_ok_def pos_ok_def)
  then show ?thesis
  proof cases
    case 1
    then show ?thesis unfolding un by auto
  next
    case ok: 2
    consider "c \<in> {c_sp, c_nl, c_tab, c_cr}" | "c = c_dquote" | "c = c_lbrace" | "c \<notin> {c_sp, c_nl, c_tab, c_cr, c_dquote, c_lbrace}"
      by blast
    then show ?thesis
    proof cases
      case a: 1
      let ?p = "pc\<lparr>tstart := pp pc, tline := linenr pc\<rparr>"
      have p1: "pos_ok s (adv 1 (newline c ?p))" using ok by (simp add: pos_ok_def)
      from list_sep_loop_ok [OF this] obtain p2 where p2:
        "list_sep_loop s (adv 1 (newline c ?p)) = Some p2" "moved s (adv 1 (newline c ?p)) p2" by blast
      have "list_sep_loop s ?p = list_sep_loop s (adv 1 (newline c ?p))"
        using c a by (auto simp: list_sep_loop.simps [of s ?p])
      then have "JimParseList s pc = Some ((end_token p2)\<lparr>ptt := JIM_TT_SEP\<rparr>)"
        unfolding un using a p2(1) by (auto simp: JimParseListSep_def)
      moreover have "ltoken_ok s pc ((end_token p2)\<lparr>ptt := JIM_TT_SEP\<rparr>) \<and> nat (plen p2) < nat (plen pc)"
        using p2(2) ok by (auto simp: ltoken_ok_def lpos_ok_def moved_def pos_ok_def)
      ultimately show ?thesis by simp
    next
      case a: 2
      let ?q = "(adv 1 pc)\<lparr>tstart := pp (adv 1 pc), tline := linenr (adv 1 pc), ptt := JIM_TT_STR\<rparr>"
      have "pos_ok s ?q" using ok by (simp add: pos_ok_def)
      from list_quote_loop_ok [OF this] obtain p2 where p2: "list_quote_loop s ?q = Some p2" "ltoken_ok s ?q p2" by blast
      then have "JimParseList s pc = Some p2" unfolding un using a by (simp add: JimParseListQuote_def Let_def)
      moreover have "ltoken_ok s pc p2 \<and> nat (plen p2) < nat (plen pc)" using p2(2) ok(2) by (auto simp: ltoken_ok_def)
      ultimately show ?thesis by blast
    next
      case a: 3
      from JimParseBrace_ok [OF ok] obtain p2 where p2: "JimParseBrace s pc = Some p2" "token_ok s pc p2" "pp pc < pp p2" by blast
      then have "JimParseList s pc = Some p2" unfolding un using a by simp
      moreover have "ltoken_ok s pc p2 \<and> nat (plen p2) < nat (plen pc)"
        using p2(2,3) ok by (auto simp: ltoken_ok_def lpos_ok_def token_ok_def pos_ok_def)
      ultimately show ?thesis by blast
    next
      case a: 4
      let ?q = "pc\<lparr>tstart := pp pc, tline := linenr pc, ptt := JIM_TT_STR\<rparr>"
      have q: "pos_ok s ?q" "0 < plen ?q" using ok by (simp_all add: pos_ok_def)
      from list_str_loop_ok [OF q(1)] c a q(2) obtain p2 where p2: "list_str_loop s ?q = Some p2" "ltoken_ok s ?q p2"
        "nat (plen p2) < nat (plen pc)" by auto
      then have "JimParseList s pc = Some p2" unfolding un using a ok(2) by (simp add: JimParseListStr_def)
      moreover have "ltoken_ok s pc p2" using p2(2) by (simp add: ltoken_ok_def)
      ultimately show ?thesis using p2(3) by blast
    qed
  qed
qed

lemma list_loop_ok: "lpos_ok s pc \<Longrightarrow> \<exists>els. list_loop s pc acc = Some els"
proof (induction "nat (plen pc)" arbitrary: pc acc rule: less_induct)
  case less
  show ?case
  proof (cases "peof pc")
    case True
    then show ?thesis by (simp add: list_loop.simps [of s pc])
  next
    case False
    obtain p1 where p1: "JimParseList s pc = Some p1"
      "peof p1 \<and> ptt p1 = JIM_TT_EOL \<or> ltoken_ok s pc p1 \<and> nat (plen p1) < nat (plen pc)"
      using JimParseList_ok [OF less.prems] by blast
    from p1(2) show ?thesis
    proof
      assume "peof p1 \<and> ptt p1 = JIM_TT_EOL"
      then have "list_loop s pc acc = list_loop s p1 acc" "list_loop s p1 acc = Some acc"
        using False p1(1) by (simp_all add: list_loop.simps [of s pc] list_loop.simps [of s p1])
      then show ?thesis by simp
    next
      assume a: "ltoken_ok s pc p1 \<and> nat (plen p1) < nat (plen pc)"
      then obtain t where t: "JimParserGetTokenObj s p1 = Some t"
        using JimParserGetTokenObj_ok by (auto simp: ltoken_ok_def)
      have "list_loop s pc acc = list_loop s p1 (if ptt p1 \<noteq> JIM_TT_STR \<and> ptt p1 \<noteq> JIM_TT_ESC then acc else acc @ [(t, tline p1)])"
        using False p1(1) t by (simp add: list_loop.simps [of s pc])
      moreover have "lpos_ok s p1" using a by (simp add: ltoken_ok_def)
      ultimately show ?thesis using less.hyps [of p1] a by auto
    qed
  qed
qed

text \<open>The string of a list and the list of a string are a codec.\<close>

definition read_list :: "byte list \<Rightarrow> byte list list option" where
  "read_list str = map_option (map fst) (SetListFromAny str 1)"

definition write_list :: "byte list list \<Rightarrow> byte list" where
  "write_list els = the (UpdateStringOfList els)"

interpretation tcl_list: codec write_list read_list "\<lambda>els. \<forall>e \<in> set els. element_ok e"
proof unfold_locales
  fix els :: "byte list list" assume ok: "\<forall>e \<in> set els. element_ok e"
  then have "\<forall>e \<in> set els. 0 \<notin> set e" by (simp add: element_ok_def)
  from UpdateStringOfList_eq [OF this] SetListFromAny_reads [OF ok, of 1]
  show "read_list (write_list els) = Some els" by (auto simp: read_list_def write_list_def)
qed

section \<open>Properties\<close>

text \<open>
  C22: Writing a list and reading it back gives the list, for elements without NUL bytes that do not
  start with a number sign or have no braces and backslashes behind it; and what is written fits
  the space that was estimated.
\<close>

theorem list_roundtrip:
  assumes "\<forall>e \<in> set els. element_ok e"
  shows "\<exists>str res. UpdateStringOfList els = Some str \<and> SetListFromAny str line = Some res \<and> map fst res = els"
proof -
  have "\<forall>e \<in> set els. 0 \<notin> set e" using assms by (simp add: element_ok_def)
  from UpdateStringOfList_eq [OF this] SetListFromAny_reads [OF assms, of line] show ?thesis by blast
qed

theorem list_roundtrip_witness:
  "\<exists>str res. UpdateStringOfList [bytes_of ''a b'', [], bytes_of ''}$x'', bytes_of ''{'', [c_hash, c_nl], [c_bslash]] = Some str \<and>
     SetListFromAny str 1 = Some res \<and>
     map fst res = [bytes_of ''a b'', [], bytes_of ''}$x'', bytes_of ''{'', [c_hash, c_nl], [c_bslash]]"
  by (rule list_roundtrip) (simp add: element_ok_def)

text \<open>
  Reading a string as a list never fails and reads nothing outside of the string, whatever
  the string is.
\<close>

theorem SetListFromAny_total: "\<exists>res. SetListFromAny s line = Some res"
proof -
  have "lpos_ok s (JimParserInit (int (length s)) line)"
    by (simp add: lpos_ok_def pos_ok_def JimParserInit_def)
  from list_loop_ok [OF this] show ?thesis by (simp add: SetListFromAny_def)
qed

text \<open>
  An element that starts with a number sign is put in braces without a look at the braces inside.
\<close>

lemma hash_brace_element_lost:
  "UpdateStringOfList [[c_hash, c_lbrace], [c_a]] = Some (bytes_of ''{#{} a'')"
  "map_option (map fst) (SetListFromAny (bytes_of ''{#{} a'') 1) = Some [bytes_of ''#{} a'']"
  by code_simp+

text \<open>An element that needs backslashes ends at its first NUL byte.\<close>

lemma nul_element_cut:
  "UpdateStringOfList [[c_lbrace, 0, c_a]] = Some [c_bslash, c_lbrace]"
  by code_simp

end
