(* ===== verification/Jim_Expr.thy ===== *)
theory Jim_Expr
  imports Jim_Parser
begin

text \<open>
  The expression compiler of the Jim interpreter (\<open>src/test2/jim.c\<close>): the table of operators, the
  tokens of an expression, the conversion to the code of a stack machine with its lazy operators and
  ternaries, and the check of the code. The mathematical functions that \<open>JIM_MATH_FUNCTIONS\<close> adds are
  left out, as in the default build. \<open>None\<close> is an access outside of the text, of the tokens or of the
  code; a result that is \<open>None\<close> inside is \<open>JIM_ERR\<close>.
\<close>

section \<open>The operators\<close>

datatype lazy_kind = LAZY_NONE | LAZY_OP | LAZY_LEFT | LAZY_RIGHT

text \<open>The codes in the order of their values.\<close>

datatype expr_op = JIM_EXPROP_MUL | JIM_EXPROP_DIV | JIM_EXPROP_MOD | JIM_EXPROP_SUB | JIM_EXPROP_ADD | JIM_EXPROP_LSHIFT
  | JIM_EXPROP_RSHIFT | JIM_EXPROP_ROTL | JIM_EXPROP_ROTR | JIM_EXPROP_LT | JIM_EXPROP_GT | JIM_EXPROP_LTE
  | JIM_EXPROP_GTE | JIM_EXPROP_NUMEQ | JIM_EXPROP_NUMNE | JIM_EXPROP_BITAND | JIM_EXPROP_BITXOR
  | JIM_EXPROP_BITOR | JIM_EXPROP_LOGICAND | JIM_EXPROP_LOGICAND_LEFT | JIM_EXPROP_LOGICAND_RIGHT
  | JIM_EXPROP_LOGICOR | JIM_EXPROP_LOGICOR_LEFT | JIM_EXPROP_LOGICOR_RIGHT | JIM_EXPROP_TERNARY
  | JIM_EXPROP_TERNARY_LEFT | JIM_EXPROP_TERNARY_RIGHT | JIM_EXPROP_COLON | JIM_EXPROP_COLON_LEFT
  | JIM_EXPROP_COLON_RIGHT | JIM_EXPROP_POW | JIM_EXPROP_STREQ | JIM_EXPROP_STRNE | JIM_EXPROP_STRIN
  | JIM_EXPROP_STRNI | JIM_EXPROP_NOT | JIM_EXPROP_BITNOT | JIM_EXPROP_UNARYMINUS | JIM_EXPROP_UNARYPLUS
  | JIM_EXPROP_FUNC_INT | JIM_EXPROP_FUNC_ABS | JIM_EXPROP_FUNC_DOUBLE | JIM_EXPROP_FUNC_ROUND
  | JIM_EXPROP_FUNC_RAND | JIM_EXPROP_FUNC_SRAND

definition expr_ops :: "expr_op list" where
  "expr_ops = [JIM_EXPROP_MUL, JIM_EXPROP_DIV, JIM_EXPROP_MOD, JIM_EXPROP_SUB, JIM_EXPROP_ADD, JIM_EXPROP_LSHIFT,
     JIM_EXPROP_RSHIFT, JIM_EXPROP_ROTL, JIM_EXPROP_ROTR, JIM_EXPROP_LT, JIM_EXPROP_GT, JIM_EXPROP_LTE,
     JIM_EXPROP_GTE, JIM_EXPROP_NUMEQ, JIM_EXPROP_NUMNE, JIM_EXPROP_BITAND, JIM_EXPROP_BITXOR, JIM_EXPROP_BITOR,
     JIM_EXPROP_LOGICAND, JIM_EXPROP_LOGICAND_LEFT, JIM_EXPROP_LOGICAND_RIGHT, JIM_EXPROP_LOGICOR,
     JIM_EXPROP_LOGICOR_LEFT, JIM_EXPROP_LOGICOR_RIGHT, JIM_EXPROP_TERNARY, JIM_EXPROP_TERNARY_LEFT,
     JIM_EXPROP_TERNARY_RIGHT, JIM_EXPROP_COLON, JIM_EXPROP_COLON_LEFT, JIM_EXPROP_COLON_RIGHT, JIM_EXPROP_POW,
     JIM_EXPROP_STREQ, JIM_EXPROP_STRNE, JIM_EXPROP_STRIN, JIM_EXPROP_STRNI, JIM_EXPROP_NOT, JIM_EXPROP_BITNOT,
     JIM_EXPROP_UNARYMINUS, JIM_EXPROP_UNARYPLUS, JIM_EXPROP_FUNC_INT, JIM_EXPROP_FUNC_ABS, JIM_EXPROP_FUNC_DOUBLE,
     JIM_EXPROP_FUNC_ROUND, JIM_EXPROP_FUNC_RAND, JIM_EXPROP_FUNC_SRAND]"

text \<open>An entry of the table. The functions that execute the operators are called by their names.\<close>

record Jim_ExprOperator =
  xname :: "string option"
  precedence :: nat
  arity :: nat
  lazy :: lazy_kind

definition expr_operator :: "string option \<Rightarrow> nat \<Rightarrow> nat \<Rightarrow> lazy_kind \<Rightarrow> Jim_ExprOperator" where
  "expr_operator n p a l = \<lparr>xname = n, precedence = p, arity = a, lazy = l\<rparr>"

fun Jim_ExprOperators :: "expr_op \<Rightarrow> Jim_ExprOperator" where
  "Jim_ExprOperators JIM_EXPROP_MUL = expr_operator (Some ''*'') 200 2 LAZY_NONE"
| "Jim_ExprOperators JIM_EXPROP_DIV = expr_operator (Some ''/'') 200 2 LAZY_NONE"
| "Jim_ExprOperators JIM_EXPROP_MOD = expr_operator (Some ''%'') 200 2 LAZY_NONE"
| "Jim_ExprOperators JIM_EXPROP_SUB = expr_operator (Some ''-'') 100 2 LAZY_NONE"
| "Jim_ExprOperators JIM_EXPROP_ADD = expr_operator (Some ''+'') 100 2 LAZY_NONE"
| "Jim_ExprOperators JIM_EXPROP_LSHIFT = expr_operator (Some ''<<'') 90 2 LAZY_NONE"
| "Jim_ExprOperators JIM_EXPROP_RSHIFT = expr_operator (Some ''>>'') 90 2 LAZY_NONE"
| "Jim_ExprOperators JIM_EXPROP_ROTL = expr_operator (Some ''<<<'') 90 2 LAZY_NONE"
| "Jim_ExprOperators JIM_EXPROP_ROTR = expr_operator (Some ''>>>'') 90 2 LAZY_NONE"
| "Jim_ExprOperators JIM_EXPROP_LT = expr_operator (Some ''<'') 80 2 LAZY_NONE"
| "Jim_ExprOperators JIM_EXPROP_GT = expr_operator (Some ''>'') 80 2 LAZY_NONE"
| "Jim_ExprOperators JIM_EXPROP_LTE = expr_operator (Some ''<='') 80 2 LAZY_NONE"
| "Jim_ExprOperators JIM_EXPROP_GTE = expr_operator (Some ''>='') 80 2 LAZY_NONE"
| "Jim_ExprOperators JIM_EXPROP_NUMEQ = expr_operator (Some ''=='') 70 2 LAZY_NONE"
| "Jim_ExprOperators JIM_EXPROP_NUMNE = expr_operator (Some ''!='') 70 2 LAZY_NONE"
| "Jim_ExprOperators JIM_EXPROP_BITAND = expr_operator (Some ''&'') 50 2 LAZY_NONE"
| "Jim_ExprOperators JIM_EXPROP_BITXOR = expr_operator (Some ''^'') 49 2 LAZY_NONE"
| "Jim_ExprOperators JIM_EXPROP_BITOR = expr_operator (Some ''|'') 48 2 LAZY_NONE"
| "Jim_ExprOperators JIM_EXPROP_LOGICAND = expr_operator (Some ''&&'') 10 2 LAZY_OP"
| "Jim_ExprOperators JIM_EXPROP_LOGICAND_LEFT = expr_operator None 10 2 LAZY_LEFT"
| "Jim_ExprOperators JIM_EXPROP_LOGICAND_RIGHT = expr_operator None 10 2 LAZY_RIGHT"
| "Jim_ExprOperators JIM_EXPROP_LOGICOR = expr_operator (Some ''||'') 9 2 LAZY_OP"
| "Jim_ExprOperators JIM_EXPROP_LOGICOR_LEFT = expr_operator None 9 2 LAZY_LEFT"
| "Jim_ExprOperators JIM_EXPROP_LOGICOR_RIGHT = expr_operator None 9 2 LAZY_RIGHT"
| "Jim_ExprOperators JIM_EXPROP_TERNARY = expr_operator (Some ''?'') 5 2 LAZY_OP"
| "Jim_ExprOperators JIM_EXPROP_TERNARY_LEFT = expr_operator None 5 2 LAZY_LEFT"
| "Jim_ExprOperators JIM_EXPROP_TERNARY_RIGHT = expr_operator None 5 2 LAZY_RIGHT"
| "Jim_ExprOperators JIM_EXPROP_COLON = expr_operator (Some '':'') 5 2 LAZY_OP"
| "Jim_ExprOperators JIM_EXPROP_COLON_LEFT = expr_operator None 5 2 LAZY_LEFT"
| "Jim_ExprOperators JIM_EXPROP_COLON_RIGHT = expr_operator None 5 2 LAZY_RIGHT"
| "Jim_ExprOperators JIM_EXPROP_POW = expr_operator (Some ''**'') 250 2 LAZY_NONE"
| "Jim_ExprOperators JIM_EXPROP_STREQ = expr_operator (Some ''eq'') 60 2 LAZY_NONE"
| "Jim_ExprOperators JIM_EXPROP_STRNE = expr_operator (Some ''ne'') 60 2 LAZY_NONE"
| "Jim_ExprOperators JIM_EXPROP_STRIN = expr_operator (Some ''in'') 55 2 LAZY_NONE"
| "Jim_ExprOperators JIM_EXPROP_STRNI = expr_operator (Some ''ni'') 55 2 LAZY_NONE"
| "Jim_ExprOperators JIM_EXPROP_NOT = expr_operator (Some ''!'') 300 1 LAZY_NONE"
| "Jim_ExprOperators JIM_EXPROP_BITNOT = expr_operator (Some ''~'') 300 1 LAZY_NONE"
| "Jim_ExprOperators JIM_EXPROP_UNARYMINUS = expr_operator None 300 1 LAZY_NONE"
| "Jim_ExprOperators JIM_EXPROP_UNARYPLUS = expr_operator None 300 1 LAZY_NONE"
| "Jim_ExprOperators JIM_EXPROP_FUNC_INT = expr_operator (Some ''int'') 400 1 LAZY_NONE"
| "Jim_ExprOperators JIM_EXPROP_FUNC_ABS = expr_operator (Some ''abs'') 400 1 LAZY_NONE"
| "Jim_ExprOperators JIM_EXPROP_FUNC_DOUBLE = expr_operator (Some ''double'') 400 1 LAZY_NONE"
| "Jim_ExprOperators JIM_EXPROP_FUNC_ROUND = expr_operator (Some ''round'') 400 1 LAZY_NONE"
| "Jim_ExprOperators JIM_EXPROP_FUNC_RAND = expr_operator (Some ''rand'') 400 0 LAZY_NONE"
| "Jim_ExprOperators JIM_EXPROP_FUNC_SRAND = expr_operator (Some ''srand'') 400 1 LAZY_NONE"

text \<open>
  A token type is one of the parser, or the code of an operator, which is greater. The entries of
  the table below the first operator are zero.
\<close>

datatype expr_type = TT token_type | OP expr_op

fun JimExprOperatorInfoByOpcode :: "expr_type \<Rightarrow> Jim_ExprOperator" where
  "JimExprOperatorInfoByOpcode (OP x) = Jim_ExprOperators x"
| "JimExprOperatorInfoByOpcode (TT t) = expr_operator None 0 0 LAZY_NONE"

section \<open>Tokens\<close>

definition isdigit :: "byte \<Rightarrow> bool" where
  "isdigit c \<longleftrightarrow> c_0 \<le> c \<and> c \<le> c_9"

definition isxdigit :: "byte \<Rightarrow> bool" where
  "isxdigit c \<longleftrightarrow> isdigit c \<or> c_A \<le> c \<and> c \<le> c_F \<or> c_a \<le> c \<and> c \<le> c_f"

text \<open>\<open>strncmp(w, s + i, strlen(w)) == 0\<close>.\<close>

fun starts_at :: "byte list \<Rightarrow> byte list \<Rightarrow> nat \<Rightarrow> bool option" where
  "starts_at s [] i = Some True"
| "starts_at s (c # w) i = do {
     d \<leftarrow> rd s i;
     if d = c then starts_at s w (i + 1) else Some False
   }"

text \<open>The token from \<open>pp\<close> of \<open>n\<close> bytes.\<close>

definition take_token :: "nat \<Rightarrow> parser \<Rightarrow> parser" where
  "take_token n pc = adv n (pc\<lparr>tstart := pp pc, tend := int (pp pc) + int n - 1, tline := linenr pc\<rparr>)"

text \<open>The number: \<open>dbl\<close> is that its type is \<open>JIM_TT_EXPR_DOUBLE\<close>.\<close>

function number_loop :: "byte list \<Rightarrow> parser \<Rightarrow> bool \<Rightarrow> bool \<Rightarrow> bool \<Rightarrow> (parser \<times> bool) option" where
  "number_loop s pc allowdot allowhex dbl = do {
     c \<leftarrow> rd s (pp pc);
     c0 \<leftarrow> rd s (tstart pc);
     if isdigit c \<or> allowhex \<and> isxdigit c \<or> allowdot \<and> c = c_dot \<or>
        pp pc - tstart pc = 1 \<and> c0 = c_0 \<and> (c = c_x \<or> c = 0x58)
     then do {
       let allowhex = (if c = c_x \<or> c = 0x58 then True else allowhex);
       let allowdot = (if c = c_x \<or> c = 0x58 \<or> c = c_dot then False else allowdot);
       let dbl = (if c = c_dot then True else dbl);
       let pc = adv 1 pc;
       d \<leftarrow> rd s (pp pc);
       f \<leftarrow> (if \<not> allowhex \<and> (d = 0x65 \<or> d = 0x45) then rd s (pp pc + 1) else Some 0);
       if \<not> allowhex \<and> (d = 0x65 \<or> d = 0x45) \<and> (f = c_minus \<or> f = c_plus \<or> isdigit f)
       then number_loop s (adv 2 pc) allowdot allowhex True
       else number_loop s pc allowdot allowhex dbl
     } else Some (pc, dbl)
   }"
  by pat_completeness auto
termination
  by (relation "measure (\<lambda>(s, pc, allowdot, allowhex, dbl). Suc (length s) - pp pc)") (auto simp: adv_def dest!: rd_SomeD)

declare number_loop.simps [simp del]

definition JimParseExprNumber :: "byte list \<Rightarrow> parser \<Rightarrow> (parser \<times> expr_type) option" where
  "JimParseExprNumber s pc = do {
     (pc, dbl) \<leftarrow> number_loop s (pc\<lparr>tstart := pp pc, tline := linenr pc\<rparr>) True False False;
     Some (end_token pc, TT (if dbl then JIM_TT_EXPR_DOUBLE else JIM_TT_EXPR_INT))
   }"

fun irrational_loop :: "byte list \<Rightarrow> byte list list \<Rightarrow> parser \<Rightarrow> parser option option" where
  "irrational_loop s [] pc = Some None"
| "irrational_loop s (w # ws) pc = do {
     e \<leftarrow> starts_at s w (pp pc);
     if e then Some (Some (take_token (length w) pc)) else irrational_loop s ws pc
   }"

definition JimParseExprIrrational :: "byte list \<Rightarrow> parser \<Rightarrow> parser option option" where
  "JimParseExprIrrational s pc =
     irrational_loop s (map bytes_of [''NaN'', ''nan'', ''NAN'', ''Inf'', ''inf'', ''INF'']) pc"

text \<open>The longest operator at \<open>p\<close>, with its length.\<close>

fun best_operator :: "byte list \<Rightarrow> nat \<Rightarrow> expr_op list \<Rightarrow> expr_op option \<Rightarrow> nat \<Rightarrow> (expr_op option \<times> nat) option" where
  "best_operator s p [] best n = Some (best, n)"
| "best_operator s p (x # xs) best n = (case xname (Jim_ExprOperators x) of
       None \<Rightarrow> best_operator s p xs best n
     | Some w \<Rightarrow> do {
         e \<leftarrow> starts_at s (bytes_of w) p;
         if e \<and> length w > n then best_operator s p xs (Some x) (length w) else best_operator s p xs best n
       })"

function paren_after :: "byte list \<Rightarrow> nat \<Rightarrow> int \<Rightarrow> bool option" where
  "paren_after s p len = do {
     c \<leftarrow> rd s p;
     if len \<noteq> 0 \<and> isspace c then paren_after s (p + 1) (len - 1) else Some (c = c_lparen)
   }"
  by pat_completeness auto
termination
  by (relation "measure (\<lambda>(s, p, len). Suc (length s) - p)") (auto dest: rd_SomeD)

declare paren_after.simps [simp del]

definition is_function :: "expr_op \<Rightarrow> bool" where
  "is_function x \<longleftrightarrow> x \<in> set (dropWhile (\<lambda>y. y \<noteq> JIM_EXPROP_FUNC_INT) expr_ops)"

definition JimParseExprOperator :: "byte list \<Rightarrow> parser \<Rightarrow> (parser \<times> expr_type) option option" where
  "JimParseExprOperator s pc = do {
     (best, n) \<leftarrow> best_operator s (pp pc) expr_ops None 0;
     case best of None \<Rightarrow> Some None
     | Some x \<Rightarrow> do {
         ok \<leftarrow> (if is_function x then paren_after s (pp pc + n) (plen pc - int n) else Some True);
         Some (if ok then Some (take_token n pc, OP x) else None)
       }
   }"

function expr_blank :: "byte list \<Rightarrow> parser \<Rightarrow> parser option" where
  "expr_blank s pc = do {
     c \<leftarrow> rd s (pp pc);
     d \<leftarrow> (if c = c_bslash then rd s (pp pc + 1) else Some 0);
     if isspace c \<or> c = c_bslash \<and> d = c_nl then expr_blank s (adv 1 (newline c pc)) else Some pc
   }"
  by pat_completeness auto
termination
  by (relation "measure (\<lambda>(s, pc). Suc (length s) - pp pc)") (auto simp: adv_def dest!: rd_SomeD)

declare expr_blank.simps [simp del]

text \<open>A parser of the script parser, with the type of its token.\<close>

definition with_type :: "parser \<Rightarrow> (parser \<times> expr_type) option" where
  "with_type pc = Some (pc, TT (ptt pc))"

definition paren_token :: "token_type \<Rightarrow> parser \<Rightarrow> (parser \<times> expr_type) option" where
  "paren_token t pc = Some (adv 1 (pc\<lparr>tstart := pp pc, tend := int (pp pc), tline := linenr pc\<rparr>), TT t)"

definition JimParseExpression :: "byte list \<Rightarrow> parser \<Rightarrow> (parser \<times> expr_type) option option" where
  "JimParseExpression s pc = do {
     pc \<leftarrow> expr_blank s pc;
     if plen pc = 0 then Some (Some (pc\<lparr>tstart := pp pc, tend := int (pp pc), tline := linenr pc, peof := True\<rparr>, TT JIM_TT_EOL))
     else do {
       c \<leftarrow> rd s (pp pc);
       if c = c_lparen then Some (paren_token JIM_TT_SUBEXPR_START pc)
       else if c = c_rparen then Some (paren_token JIM_TT_SUBEXPR_END pc)
       else if c = c_lbrack then map_option with_type (JimParseCmd s pc)
       else if c = c_dollar then do {
         (pc, rc) \<leftarrow> JimParseVar s pc;
         if rc = JIM_ERR then JimParseExprOperator s pc
         else if ptt pc = JIM_TT_EXPRSUGAR then Some None
         else Some (with_type pc)
       }
       else if isdigit c \<or> c = c_dot then map_option Some (JimParseExprNumber s pc)
       else if c = c_dquote then map_option with_type (JimParseQuote s pc)
       else if c = c_lbrace then map_option with_type (JimParseBrace s pc)
       else if c \<in> {0x4e, 0x49, 0x6e, 0x69} then do {
         r \<leftarrow> JimParseExprIrrational s pc;
         case r of None \<Rightarrow> JimParseExprOperator s pc | Some pc \<Rightarrow> Some (Some (pc, TT JIM_TT_EXPR_DOUBLE))
       }
       else JimParseExprOperator s pc
     }
   }"

text \<open>The token list: where the text of a token starts and its length.\<close>

record expr_token =
  xt_token :: nat
  xt_len :: int
  xt_type :: expr_type
  xt_line :: int

partial_function (option) expr_tokens :: "byte list \<Rightarrow> parser \<Rightarrow> expr_token list \<Rightarrow> expr_token list option option" where
  "expr_tokens s pc ts = (if peof pc then Some (Some ts)
     else do {
       r \<leftarrow> JimParseExpression s pc;
       case r of None \<Rightarrow> Some None
       | Some (pc, t) \<Rightarrow> expr_tokens s pc
           (ts @ [\<lparr>xt_token = tstart pc, xt_len = tend pc - int (tstart pc) + 1, xt_type = t, xt_line = tline pc\<rparr>])
     })"

section \<open>Code\<close>

text \<open>
  The object of a code token: a text (with its source line when it is a command), an integer, the
  text of a floating-point number, or the empty object.
\<close>

datatype expr_obj = Expr_Str "byte list" | Expr_Source "byte list" int | Expr_Int int | Expr_Double "byte list" | Expr_Empty

record expr_code =
  xc_type :: expr_type
  xc_obj :: expr_obj

text \<open>\<open>strtoull(s, NULL, 0)\<close> of a text that starts with a digit, read as \<open>jim_wide\<close>.\<close>

definition digit_value :: "byte \<Rightarrow> int" where
  "digit_value c = (if isdigit c then uint c - 48 else if c_a \<le> c \<and> c \<le> c_z then uint c - 87
     else if c_A \<le> c \<and> c \<le> c_Z then uint c - 55 else 99)"

fun read_digits :: "int \<Rightarrow> byte list \<Rightarrow> int \<Rightarrow> int" where
  "read_digits base [] n = n"
| "read_digits base (c # s) n = (if digit_value c < base then read_digits base s (n * base + digit_value c) else n)"

definition strtoull_0 :: "byte list \<Rightarrow> int" where
  "strtoull_0 s = (let n = (case s of
       c # d # e # r \<Rightarrow> if c = c_0 \<and> (d = c_x \<or> d = 0x58) \<and> isxdigit e then read_digits 16 (e # r) 0
         else read_digits (if c = c_0 then 8 else 10) s 0
     | c # r \<Rightarrow> read_digits (if c = c_0 then 8 else 10) s 0
     | [] \<Rightarrow> 0)
   in to_int64 (min n (2 ^ 64 - 1)))"

definition is_op :: "expr_type \<Rightarrow> bool" where
  "is_op t \<longleftrightarrow> (case t of OP x \<Rightarrow> True | TT t \<Rightarrow> False)"

declare expr_tokens.simps [code]

text \<open>The search for the start of the second operand: \<open>leftindex\<close> and \<open>arity\<close>; the inner \<open>None\<close> is \<open>JIM_ERR\<close>.\<close>

function find_left :: "expr_code list \<Rightarrow> int \<Rightarrow> int \<Rightarrow> int option option" where
  "find_left code leftindex ar = (if ar = 0 then Some (Some leftindex)
     else if leftindex < 0 \<or> leftindex \<ge> int (length code) then None
     else let tt = xc_type (code ! nat leftindex);
              ar = (if is_op tt then ar + int (arity (JimExprOperatorInfoByOpcode tt)) else ar) - 1
       in if leftindex - 1 < 0 then Some None else find_left code (leftindex - 1) ar)"
  by pat_completeness auto
termination
  by (relation "measure (\<lambda>(code, leftindex, ar). nat leftindex)") auto

declare find_left.simps [simp del]

fun lazy_left :: "expr_op \<Rightarrow> expr_op" where
  "lazy_left JIM_EXPROP_LOGICAND = JIM_EXPROP_LOGICAND_LEFT"
| "lazy_left JIM_EXPROP_LOGICOR = JIM_EXPROP_LOGICOR_LEFT"
| "lazy_left JIM_EXPROP_TERNARY = JIM_EXPROP_TERNARY_LEFT"
| "lazy_left JIM_EXPROP_COLON = JIM_EXPROP_COLON_LEFT"
| "lazy_left x = x"

fun lazy_right :: "expr_op \<Rightarrow> expr_op" where
  "lazy_right JIM_EXPROP_LOGICAND = JIM_EXPROP_LOGICAND_RIGHT"
| "lazy_right JIM_EXPROP_LOGICOR = JIM_EXPROP_LOGICOR_RIGHT"
| "lazy_right JIM_EXPROP_TERNARY = JIM_EXPROP_TERNARY_RIGHT"
| "lazy_right JIM_EXPROP_COLON = JIM_EXPROP_COLON_RIGHT"
| "lazy_right x = x"

text \<open>\<open>JimWideValue(code[i].objPtr) += n\<close>; the object has to be an integer.\<close>

definition wide_value :: "expr_code list \<Rightarrow> nat \<Rightarrow> int option" where
  "wide_value code i = do {
     t \<leftarrow> peek code i;
     case xc_obj t of Expr_Int n \<Rightarrow> Some n | _ \<Rightarrow> None
   }"

definition add_wide :: "expr_code list \<Rightarrow> nat \<Rightarrow> int \<Rightarrow> expr_code list option" where
  "add_wide code i n = do {
     v \<leftarrow> wide_value code i;
     Some (code[i := (code ! i)\<lparr>xc_obj := Expr_Int (v + n)\<rparr>])
   }"

text \<open>The skip counts of the left operand, from the last token down to token 1.\<close>

fun adjust_skips :: "expr_code list \<Rightarrow> nat \<Rightarrow> nat \<Rightarrow> expr_code list option" where
  "adjust_skips code leftindex 0 = Some code"
| "adjust_skips code leftindex (Suc i) = do {
     t \<leftarrow> peek code (Suc i);
     code \<leftarrow> (if lazy (JimExprOperatorInfoByOpcode (xc_type t)) = LAZY_LEFT then do {
         v \<leftarrow> wide_value code i;
         if v + int i \<ge> int leftindex then add_wide code i 2 else Some code
       } else Some code);
     adjust_skips code leftindex i
   }"

definition ExprAddLazyOperator :: "expr_code list \<Rightarrow> expr_op \<Rightarrow> expr_code list option option" where
  "ExprAddLazyOperator code x = do {
     r \<leftarrow> find_left code (int (length code) - 1) 1;
     case r of None \<Rightarrow> Some None
     | Some l \<Rightarrow> do {
         let leftindex = nat (l + 1);
         let offset = int (length code + 2 - leftindex) - 1;
         code \<leftarrow> adjust_skips (take leftindex code @
             [\<lparr>xc_type = TT JIM_TT_EXPR_INT, xc_obj = Expr_Int offset\<rparr>, \<lparr>xc_type = OP (lazy_left x), xc_obj = Expr_Empty\<rparr>] @
             drop leftindex code @ [\<lparr>xc_type = OP (lazy_right x), xc_obj = Expr_Empty\<rparr>]) leftindex (leftindex - 1);
         Some (Some code)
       }
   }"

definition ExprAddOperator :: "expr_code list \<Rightarrow> expr_type \<Rightarrow> expr_code list option option" where
  "ExprAddOperator code t = (case t of
       OP x \<Rightarrow> if lazy (Jim_ExprOperators x) = LAZY_OP then ExprAddLazyOperator code x
         else Some (Some (code @ [\<lparr>xc_type = t, xc_obj = Expr_Empty\<rparr>]))
     | TT _ \<Rightarrow> Some (Some (code @ [\<lparr>xc_type = t, xc_obj = Expr_Empty\<rparr>])))"

section \<open>The order of ternaries\<close>

fun colon_left_loop :: "expr_code list \<Rightarrow> nat \<Rightarrow> int \<Rightarrow> int option" where
  "colon_left_loop code 0 cnt = Some (-1)"
| "colon_left_loop code (Suc r) cnt = (if r = 0 then Some (-1)
     else do {
       t \<leftarrow> peek code (Suc r);
       if xc_type t = OP JIM_EXPROP_TERNARY_LEFT then colon_left_loop code r (cnt - 1)
       else if xc_type t = OP JIM_EXPROP_COLON_RIGHT then colon_left_loop code r (cnt + 1)
       else if xc_type t = OP JIM_EXPROP_COLON_LEFT \<and> cnt = 1 then Some (int (Suc r))
       else colon_left_loop code r cnt
     })"

definition ExprTernaryGetColonLeftIndex :: "expr_code list \<Rightarrow> nat \<Rightarrow> int option" where
  "ExprTernaryGetColonLeftIndex code right_index = colon_left_loop code (right_index - 1) 1"

fun move_indices_loop :: "expr_code list \<Rightarrow> nat \<Rightarrow> int \<Rightarrow> (nat \<times> int) option option" where
  "move_indices_loop code 0 cnt = Some None"
| "move_indices_loop code (Suc i) cnt = (if i = 0 then Some None
     else do {
       t \<leftarrow> peek code (Suc i);
       if xc_type t = OP JIM_EXPROP_TERNARY_LEFT then do {
         t2 \<leftarrow> peek code (i - 1);
         if cnt - 1 = 0 \<and> xc_type t2 = OP JIM_EXPROP_COLON_RIGHT then do {
           l \<leftarrow> ExprTernaryGetColonLeftIndex code (i - 1);
           Some (Some (i - 1, l))
         } else move_indices_loop code i (cnt - 1)
       }
       else if xc_type t = OP JIM_EXPROP_COLON_RIGHT then
         (if cnt = 0 then Some None else move_indices_loop code i (cnt + 1))
       else move_indices_loop code i cnt
     })"

definition ExprTernaryGetMoveIndices :: "expr_code list \<Rightarrow> nat \<Rightarrow> (nat \<times> int) option option" where
  "ExprTernaryGetMoveIndices code right_index = move_indices_loop code (right_index - 1) 1"

text \<open>The token at \<open>j\<close> moves to \<open>i\<close>, the tokens behind it move down.\<close>

definition rotate_down :: "expr_code list \<Rightarrow> nat \<Rightarrow> nat \<Rightarrow> expr_code list" where
  "rotate_down code j i = take j code @ take (i - j) (drop (j + 1) code) @ [code ! j] @ drop (i + 1) code"

partial_function (option) reorder_loop :: "expr_code list \<Rightarrow> nat \<Rightarrow> expr_code list option" where
  "reorder_loop code i = (if i \<le> 1 then Some code
     else do {
       t \<leftarrow> peek code i;
       if xc_type t \<noteq> OP JIM_EXPROP_COLON_RIGHT then reorder_loop code (i - 1)
       else do {
         r \<leftarrow> ExprTernaryGetMoveIndices code i;
         case r of None \<Rightarrow> reorder_loop code (i - 1)
         | Some (prev_right, prev_left) \<Rightarrow> do {
             code \<leftarrow> (if prev_left - 1 < 0 then None
               else add_wide (rotate_down code prev_right i) (nat (prev_left - 1)) (int (i - prev_right)));
             reorder_loop code i
           }
       }
     })"

declare reorder_loop.simps [code]

definition ExprTernaryReorderExpression :: "expr_code list \<Rightarrow> expr_code list option" where
  "ExprTernaryReorderExpression code = reorder_loop code (length code - 1)"

section \<open>The conversion of the tokens\<close>

text \<open>The rest \<open>f\<close> of a function after a call that may return \<open>JIM_ERR\<close>.\<close>

definition and_then :: "'a option option \<Rightarrow> ('a \<Rightarrow> 'b option option) \<Rightarrow> 'b option option" where
  "and_then r f = (case r of None \<Rightarrow> None | Some None \<Rightarrow> Some None | Some (Some x) \<Rightarrow> f x)"

lemma and_then_simps [simp]:
  "and_then None f = None" "and_then (Some None) f = Some None" "and_then (Some (Some x)) f = f x"
  by (simp_all add: and_then_def)

text \<open>The room allocated for the code.\<close>

definition expr_alloc :: "expr_token list \<Rightarrow> int" where
  "expr_alloc ts = int (length ts) - 1 +
     2 * int (length (filter (\<lambda>t. lazy (JimExprOperatorInfoByOpcode (xt_type t)) = LAZY_OP) ts))"

definition operand_types :: "token_type list" where
  "operand_types = [JIM_TT_STR, JIM_TT_ESC, JIM_TT_VAR, JIM_TT_DICTSUGAR, JIM_TT_EXPRSUGAR, JIM_TT_CMD,
     JIM_TT_EXPR_INT, JIM_TT_EXPR_DOUBLE]"

definition expr_operand :: "byte list \<Rightarrow> expr_token \<Rightarrow> expr_code option" where
  "expr_operand s t = (let z = drop (xt_token t) s in
     if xt_type t = TT JIM_TT_EXPR_INT then Some \<lparr>xc_type = xt_type t, xc_obj = Expr_Int (strtoull_0 z)\<rparr>
     else if xt_type t = TT JIM_TT_EXPR_DOUBLE then Some \<lparr>xc_type = xt_type t, xc_obj = Expr_Double z\<rparr>
     else do {
       w \<leftarrow> bytes_at z (xt_len t);
       Some \<lparr>xc_type = xt_type t, xc_obj = (if xt_type t = TT JIM_TT_CMD then Expr_Source w (xt_line t) else Expr_Str w)\<rparr>
     })"

text \<open>
  The three loops over the stack of operators, its top first: a closing parenthesis, an operator,
  and the end. The inner \<open>None\<close> is the jump to \<open>err\<close>, after which there is no code.
\<close>

fun close_paren :: "expr_type list \<Rightarrow> expr_code list \<Rightarrow> (expr_type list \<times> expr_code list) option option" where
  "close_paren [] code = Some None"
| "close_paren (tt # stack) code = (if tt = TT JIM_TT_SUBEXPR_START then Some (Some (stack, code))
     else and_then (ExprAddOperator code tt) (close_paren stack))"

fun reduce_stack :: "expr_type \<Rightarrow> expr_type list \<Rightarrow> expr_code list \<Rightarrow> (expr_type list \<times> expr_code list) option option" where
  "reduce_stack t [] code = Some (Some ([], code))"
| "reduce_stack t (tt # stack) code =
     (if arity (JimExprOperatorInfoByOpcode t) \<noteq> 1 \<and>
         precedence (JimExprOperatorInfoByOpcode tt) \<ge> precedence (JimExprOperatorInfoByOpcode t)
      then and_then (ExprAddOperator code tt) (reduce_stack t stack)
      else Some (Some (tt # stack, code)))"

fun finish_stack :: "expr_type list \<Rightarrow> expr_code list \<Rightarrow> expr_code list option option" where
  "finish_stack [] code = Some (Some code)"
| "finish_stack (tt # stack) code = (if tt = TT JIM_TT_SUBEXPR_START then Some None
     else and_then (ExprAddOperator code tt) (finish_stack stack))"

text \<open>A minus or plus at the start of an operand is unary.\<close>

definition unary_type :: "expr_type \<Rightarrow> expr_type \<Rightarrow> expr_type" where
  "unary_type prevtt t = (if prevtt = TT JIM_TT_NONE \<or> is_op prevtt then
       (if t = OP JIM_EXPROP_SUB then OP JIM_EXPROP_UNARYMINUS
        else if t = OP JIM_EXPROP_ADD then OP JIM_EXPROP_UNARYPLUS else t)
     else t)"

fun create_loop :: "byte list \<Rightarrow> expr_token list \<Rightarrow> expr_type list \<Rightarrow> expr_code list \<Rightarrow> expr_type \<Rightarrow>
    (expr_type list \<times> expr_code list) option option" where
  "create_loop s [] stack code prevtt = Some (Some (stack, code))"
| "create_loop s (t # ts) stack code prevtt = (if xt_type t = TT JIM_TT_EOL then Some (Some (stack, code))
     else if xt_type t \<in> TT ` set operand_types then do {
       c \<leftarrow> expr_operand s t;
       create_loop s ts stack (code @ [c]) (xt_type t)
     }
     else if xt_type t = TT JIM_TT_SUBEXPR_START then create_loop s ts (xt_type t # stack) code (TT JIM_TT_NONE)
     else if xt_type t = TT JIM_TT_SUBEXPR_END then
       and_then (close_paren stack code) (\<lambda>(stack, code). create_loop s ts stack code (xt_type t))
     else let tt = unary_type prevtt (xt_type t) in
       and_then (reduce_stack tt stack code) (\<lambda>(stack, code). create_loop s ts (tt # stack) code tt))"

definition ExprCreateByteCode :: "byte list \<Rightarrow> expr_token list \<Rightarrow> expr_code list option option" where
  "ExprCreateByteCode s ts = and_then (create_loop s ts [] [] (TT JIM_TT_NONE)) (\<lambda>(stack, code).
     and_then (finish_stack stack code) (\<lambda>code.
       if list_ex (\<lambda>t. xt_type t = OP JIM_EXPROP_TERNARY) ts
       then map_option Some (ExprTernaryReorderExpression code) else Some (Some code)))"

section \<open>The check of the code\<close>

fun check_stack :: "expr_code list \<Rightarrow> int \<Rightarrow> int \<Rightarrow> int \<times> int" where
  "check_stack [] stacklen ternary = (stacklen, ternary)"
| "check_stack (t # code) stacklen ternary = (let sl = stacklen - int (arity (JimExprOperatorInfoByOpcode (xc_type t)))
     in if sl < 0 then (sl, ternary)
     else check_stack code (sl + 1)
       (if xc_type t = OP JIM_EXPROP_TERNARY \<or> xc_type t = OP JIM_EXPROP_TERNARY_LEFT then ternary + 1
        else if xc_type t = OP JIM_EXPROP_COLON \<or> xc_type t = OP JIM_EXPROP_COLON_LEFT then ternary - 1 else ternary))"

definition ExprCheckCorrectness :: "expr_code list \<Rightarrow> jim_code" where
  "ExprCheckCorrectness code = (if check_stack code 0 0 = (1, 0) then JIM_OK else JIM_ERR)"

definition SetExprFromAny :: "byte list \<Rightarrow> int \<Rightarrow> expr_code list option option" where
  "SetExprFromAny s line = and_then (expr_tokens s (JimParserInit (int (length s)) line) [])
     (\<lambda>ts. and_then (ExprCreateByteCode s ts)
       (\<lambda>code. Some (if ExprCheckCorrectness code = JIM_OK then Some code else None)))"

section \<open>The tokens lie inside of the text\<close>

lemma starts_at_ok: "i \<le> length s \<Longrightarrow> 0 \<notin> set w \<Longrightarrow> \<exists>b. starts_at s w i = Some b \<and> (b \<longrightarrow> i + length w \<le> length s)"
proof (induction w arbitrary: i)
  case (Cons c w)
  from rd_le [OF Cons.prems(1)] obtain d where d: "rd s i = Some d" by blast
  show ?case
  proof (cases "d = c")
    case True
    with Cons.prems d have "i < length s" by (auto dest: rd_nonzeroD)
    with Cons.IH [of "i + 1"] Cons.prems d True show ?thesis by auto
  qed (use d in auto)
qed auto

lemma operator_name: "xname (Jim_ExprOperators x) = Some w \<Longrightarrow> 0 \<notin> set (bytes_of w) \<and> w \<noteq> []"
  by (cases x) (auto simp: expr_operator_def)

lemma best_operator_ok:
  assumes "p \<le> length s" and "best \<noteq> None \<longrightarrow> 0 < n \<and> p + n \<le> length s"
  shows "\<exists>best' n'. best_operator s p xs best n = Some (best', n') \<and> (best' \<noteq> None \<longrightarrow> 0 < n' \<and> p + n' \<le> length s)"
  using assms(2)
proof (induction xs arbitrary: best n)
  case (Cons x xs)
  show ?case
  proof (cases "xname (Jim_ExprOperators x)")
    case (Some w)
    from starts_at_ok [OF assms(1), of "bytes_of w"] operator_name [OF Some] obtain b where
      w: "0 < length w" and b: "starts_at s (bytes_of w) p = Some b" "b \<longrightarrow> p + length w \<le> length s" by (auto simp: bytes_of_def)
    show ?thesis
    proof (cases "b \<and> length w > n")
      case True
      with b w Cons.IH [of "Some x" "length w"] Some show ?thesis by simp
    next
      case False
      with b Cons.IH [OF Cons.prems] Some show ?thesis by auto
    qed
  qed (use Cons in simp)
qed simp

lemma paren_after_ok: "p \<le> length s \<Longrightarrow> \<exists>b. paren_after s p len = Some b"
proof (induction s p len rule: paren_after.induct)
  case (1 s p len)
  from rd_le [OF 1(2)] obtain c where c: "rd s p = Some c" by blast
  show ?case
  proof (cases "len \<noteq> 0 \<and> isspace c")
    case True
    with c have "p < length s" by (auto simp: isspace_def dest: rd_nonzeroD)
    with 1(1) [OF c True] True c show ?thesis by (subst paren_after.simps) simp
  qed (use c in \<open>subst paren_after.simps; auto\<close>)
qed

text \<open>What the parser of a token gives: a position behind it and a token between the two.\<close>

definition expr_token_ok :: "byte list \<Rightarrow> parser \<Rightarrow> parser \<Rightarrow> bool" where
  "expr_token_ok s pc pc' \<longleftrightarrow> pos_ok s pc' \<and> pp pc < pp pc' \<and> pp pc \<le> tstart pc' \<and>
     int (tstart pc') \<le> tend pc' + 1 \<and> tend pc' < int (pp pc') \<and> peof pc' = peof pc"

lemma take_token_ok: "pos_ok s pc \<Longrightarrow> 0 < n \<Longrightarrow> pp pc + n \<le> length s \<Longrightarrow> expr_token_ok s pc (take_token n pc)"
  by (auto simp: expr_token_ok_def take_token_def pos_ok_def)

lemma JimParseExprOperator_ok:
  assumes "pos_ok s pc"
  shows "\<exists>r. JimParseExprOperator s pc = Some r \<and> (\<forall>pc' t. r = Some (pc', t) \<longrightarrow> expr_token_ok s pc pc' \<and> is_op t)"
proof -
  from assms have p: "pp pc \<le> length s" by (simp add: pos_ok_def)
  from best_operator_ok [OF p, of None 0 expr_ops] obtain best n where
    b: "best_operator s (pp pc) expr_ops None 0 = Some (best, n)" "best \<noteq> None \<longrightarrow> 0 < n \<and> pp pc + n \<le> length s" by blast
  show ?thesis
  proof (cases best)
    case (Some x)
    with b(2) have n: "0 < n" "pp pc + n \<le> length s" by auto
    from paren_after_ok [OF n(2)] obtain ok where "paren_after s (pp pc + n) (plen pc - int n) = Some ok" by blast
    then show ?thesis using b(1) Some take_token_ok [OF assms n] by (auto simp: JimParseExprOperator_def is_op_def)
  qed (use b(1) in \<open>simp add: JimParseExprOperator_def\<close>)
qed

lemma irrational_loop_ok:
  "pos_ok s pc \<Longrightarrow> list_all (\<lambda>w. w \<noteq> [] \<and> 0 \<notin> set w) ws \<Longrightarrow>
    \<exists>r. irrational_loop s ws pc = Some r \<and> (\<forall>pc'. r = Some pc' \<longrightarrow> expr_token_ok s pc pc')"
proof (induction ws)
  case (Cons w ws)
  then have "pp pc \<le> length s" "0 \<notin> set w" "0 < length w" by (auto simp: pos_ok_def)
  from starts_at_ok [OF this(1,2)] obtain b where b: "starts_at s w (pp pc) = Some b" "b \<longrightarrow> pp pc + length w \<le> length s" by blast
  then show ?case using Cons take_token_ok [OF Cons.prems(1) \<open>0 < length w\<close>] by (cases b) auto
qed simp

lemma number_loop_ok:
  "pos_ok s pc \<Longrightarrow> tstart pc \<le> length s \<Longrightarrow>
    \<exists>pc' dbl'. number_loop s pc allowdot allowhex dbl = Some (pc', dbl') \<and> moved s pc pc' \<and>
      (\<forall>c. rd s (pp pc) = Some c \<and> (isdigit c \<or> allowdot \<and> c = c_dot) \<longrightarrow> pp pc < pp pc')"
proof (induction s pc allowdot allowhex dbl rule: number_loop.induct)
  case (1 s pc allowdot allowhex dbl)
  from pos_ok_read [OF 1(3)] obtain c where c: "rd s (pp pc) = Some c" by blast
  from rd_le [OF 1(4)] obtain c0 where c0: "rd s (tstart pc) = Some c0" by blast
  let ?cond = "isdigit c \<or> allowhex \<and> isxdigit c \<or> allowdot \<and> c = c_dot \<or> pp pc - tstart pc = 1 \<and> c0 = c_0 \<and> (c = c_x \<or> c = 0x58)"
  show ?case
  proof (cases ?cond)
    case True
    then have "c \<noteq> 0" by (auto simp: isdigit_def isxdigit_def)
    with pos_ok_nonzero [OF 1(3) c] have len: "0 < plen pc" by simp
    define hex where "hex = (if c = c_x \<or> c = 0x58 then True else allowhex)"
    define dot where "dot = (if c = c_x \<or> c = 0x58 \<or> c = c_dot then False else allowdot)"
    define dbl1 where "dbl1 = (if c = c_dot then True else dbl)"
    let ?pc = "adv 1 pc"
    have ok: "pos_ok s ?pc" using 1(3) len by (simp add: pos_ok_def)
    from pos_ok_read [OF ok] obtain d where d: "rd s (pp ?pc) = Some d" by blast
    let ?exp = "\<not> hex \<and> (d = 0x65 \<or> d = 0x45)"
    obtain f where f: "(if ?exp then rd s (pp ?pc + 1) else Some 0) = Some f"
    proof (cases ?exp)
      case True
      with pos_ok_nonzero [OF ok d] have "0 < plen ?pc" by auto
      from pos_ok_read2 [OF ok this] True that show thesis by auto
    qed simp
    let ?two = "\<not> hex \<and> (d = 0x65 \<or> d = 0x45) \<and> (f = c_minus \<or> f = c_plus \<or> isdigit f)"
    have step: "number_loop s pc allowdot allowhex dbl =
      (if ?two then number_loop s (adv 2 ?pc) dot hex True else number_loop s ?pc dot hex dbl1)"
      by (subst number_loop.simps)
        (simp only: c c0 bind.bind_lunit if_P [OF True] Let_def hex_def [symmetric] dot_def [symmetric] dbl1_def [symmetric] d f)
    note IH = 1(1,2) [OF c c0 True hex_def dot_def dbl1_def refl d f]
    show ?thesis
    proof (cases ?two)
      case two: True
      then have "rd s (pp ?pc + 1) = Some f" "f \<noteq> 0" using f by (auto simp: isdigit_def)
      from pos_ok_nonzero2 [OF ok this] have "1 < plen ?pc" .
      then have "pos_ok s (adv 2 ?pc)" using ok by (simp add: pos_ok_def)
      with IH(1) [OF two] 1(4) show ?thesis unfolding step if_P [OF two] by (fastforce simp: moved_def)
    next
      case False
      from IH(2) [OF this ok] 1(4) show ?thesis unfolding step if_not_P [OF False] by (fastforce simp: moved_def)
    qed
  next
    case False
    then have "number_loop s pc allowdot allowhex dbl = Some (pc, dbl)"
      by (subst number_loop.simps) (simp only: c c0 bind.bind_lunit False if_False)
    with moved_refl [OF 1(3)] c False show ?thesis by auto
  qed
qed

lemma JimParseExprNumber_ok:
  assumes "pos_ok s pc" and "rd s (pp pc) = Some c" and "isdigit c \<or> c = c_dot"
  shows "\<exists>pc' t. JimParseExprNumber s pc = Some (pc', t) \<and> expr_token_ok s pc pc' \<and>
    t \<in> {TT JIM_TT_EXPR_INT, TT JIM_TT_EXPR_DOUBLE}"
proof -
  let ?p0 = "pc\<lparr>tstart := pp pc, tline := linenr pc\<rparr>"
  have p0: "pos_ok s ?p0" "tstart ?p0 \<le> length s" using assms(1) by (simp_all add: pos_ok_def)
  from number_loop_ok [OF this, of True False False] obtain pc' dbl where r: "number_loop s ?p0 True False False = Some (pc', dbl)"
    "moved s ?p0 pc'" "pp pc < pp pc'" using assms(2,3) by auto
  then show ?thesis by (auto simp: JimParseExprNumber_def expr_token_ok_def moved_def is_op_def pos_ok_def)
qed

lemma expr_blank_ok: "pos_ok s pc \<Longrightarrow> \<exists>pc'. expr_blank s pc = Some pc' \<and> moved s pc pc'"
proof (induction s pc rule: expr_blank.induct)
  case (1 s pc)
  from pos_ok_read [OF 1(2)] obtain c where c: "rd s (pp pc) = Some c" by blast
  obtain d where d: "(if c = c_bslash then rd s (pp pc + 1) else Some 0) = Some d"
  proof (cases "c = c_bslash")
    case True
    with pos_ok_nonzero [OF 1(2) c] have "0 < plen pc" by auto
    from pos_ok_read2 [OF 1(2) this] True that show thesis by auto
  qed simp
  show ?case
  proof (cases "isspace c \<or> c = c_bslash \<and> d = c_nl")
    case True
    then have "c \<noteq> 0" by (auto simp: isspace_def)
    with pos_ok_nonzero [OF 1(2) c] have "pos_ok s (adv 1 (newline c pc))" by (intro pos_ok_adv_newline [OF 1(2)]) simp
    from 1(1) [OF c d True this] show ?thesis
      by (subst expr_blank.simps) (auto simp: c d if_P [OF True] dest!: moved_adv(2))
  next
    case False
    then have "expr_blank s pc = Some pc" by (subst expr_blank.simps) (simp only: c d bind.bind_lunit False if_False)
    with moved_refl [OF 1(2)] show ?thesis by blast
  qed
qed

text \<open>The types of the tokens of an expression.\<close>

definition expr_types :: "expr_type \<Rightarrow> bool" where
  "expr_types t \<longleftrightarrow> is_op t \<or> t \<in> TT ` {JIM_TT_STR, JIM_TT_ESC, JIM_TT_VAR, JIM_TT_DICTSUGAR, JIM_TT_CMD, JIM_TT_EXPR_INT,
     JIM_TT_EXPR_DOUBLE, JIM_TT_SUBEXPR_START, JIM_TT_SUBEXPR_END}"

definition expression_ok :: "byte list \<Rightarrow> parser \<Rightarrow> (parser \<times> expr_type) option \<Rightarrow> bool" where
  "expression_ok s pc r \<longleftrightarrow> (case r of None \<Rightarrow> True | Some (pc', t) \<Rightarrow> \<not> peof pc \<longrightarrow>
     (if peof pc' then pos_ok s pc' \<and> t = TT JIM_TT_EOL \<and> tstart pc' = length s \<and> tend pc' = int (length s)
      else expr_token_ok s pc pc' \<and> expr_types t))"

lemma expression_ok_None [simp]: "expression_ok s pc None"
  by (simp add: expression_ok_def)

lemma script_token_expression:
  assumes "token_ok s pc pc'" and "pp pc < pp pc'" and "ptt pc' \<in> {JIM_TT_STR, JIM_TT_ESC, JIM_TT_VAR, JIM_TT_DICTSUGAR, JIM_TT_CMD}"
  shows "expression_ok s pc (with_type pc')"
  using assms by (auto simp: expression_ok_def with_type_def token_ok_def expr_token_ok_def expr_types_def)

lemma expression_ok_from:
  "moved s pc pc1 \<Longrightarrow> expression_ok s pc1 r \<Longrightarrow> expression_ok s pc r"
  by (auto simp: expression_ok_def moved_def expr_token_ok_def split: option.splits if_splits)

lemma op_expression:
  assumes "pos_ok s pc"
  shows "\<exists>r. JimParseExprOperator s pc = Some r \<and> expression_ok s pc r"
  using JimParseExprOperator_ok [OF assms] by (fastforce simp: expression_ok_def expr_types_def expr_token_ok_def split: option.splits)

text \<open>The parsers of the script parser keep the type that they set first.\<close>

lemma cmd_type: "JimParseCmd s pc = Some pc' \<Longrightarrow> 0 < plen pc \<Longrightarrow> pos_ok s pc \<Longrightarrow> ptt pc' = JIM_TT_CMD"
  using sub_loops_ok(2) [of s "adv 1 (pc\<lparr>tstart := pp pc + 1, tline := linenr pc, ptt := JIM_TT_CMD\<rparr>)" "Suc (nat (plen pc))" "linenr pc" 1 True]
  by (auto simp: JimParseCmd_def JimParseSubCmd_def pos_ok_def closed_def moved_def)

lemma brace_type: "JimParseBrace s pc = Some pc' \<Longrightarrow> 0 < plen pc \<Longrightarrow> pos_ok s pc \<Longrightarrow> ptt pc' = JIM_TT_STR"
  using sub_brace_loop_ok [of s "adv 1 (pc\<lparr>tstart := pp pc + 1, tline := linenr pc, ptt := JIM_TT_STR\<rparr>)" 1]
  by (auto simp: JimParseBrace_def JimParseSubBrace_def pos_ok_def closed_def moved_def)

lemma quote_type: "JimParseQuote s pc = Some pc' \<Longrightarrow> ptt pc' \<in> {JIM_TT_STR, JIM_TT_ESC}"
  by (auto simp: JimParseQuote_def JimParseSubQuote_def simp del: sub_quote_loop.simps split: bind_splits dest!: sub_quote_type)

lemma var_brace_type: "var_brace_loop s pc = Some pc' \<Longrightarrow> ptt pc' = ptt pc"
  by (induction s pc rule: var_brace_loop.induct, subst (asm) (2) var_brace_loop.simps) (auto split: if_splits bind_splits)

lemma var_name_type: "pos_ok s pc \<Longrightarrow> var_name_loop s pc = Some pc' \<Longrightarrow> ptt pc' = ptt pc \<and> pos_ok s pc'"
  using var_name_loop_ok [of s pc] by (auto simp: moved_def)

lemma var_index_type:
  assumes "pos_ok s pc" and "var_index s pc = Some pc'"
  shows "ptt pc' \<in> {JIM_TT_DICTSUGAR, JIM_TT_EXPRSUGAR}"
proof -
  have "pos_ok s (pc\<lparr>ptt := JIM_TT_DICTSUGAR\<rparr>)" using assms(1) by (simp add: pos_ok_def)
  from var_paren_loop_ok [OF this, of 1 None] assms(2) show ?thesis
    by (auto simp: var_index_def Let_def paren_ok_def moved_def split: if_splits bind_splits option.splits)
qed

lemma var_type:
  assumes "JimParseVar s pc = Some (pc', rc)" and "pos_ok s pc" and "0 < plen pc"
  shows "ptt pc' \<in> {JIM_TT_VAR, JIM_TT_DICTSUGAR, JIM_TT_EXPRSUGAR}"
proof -
  have "pos_ok s ((adv 1 pc)\<lparr>tstart := pp (adv 1 pc), ptt := JIM_TT_VAR, tline := linenr (adv 1 pc)\<rparr>)"
    using assms(2,3) by (simp add: pos_ok_def)
  note name = var_name_type [OF this]
  from assms(1) show ?thesis
    by (auto simp: JimParseVar_def Let_def split: if_splits bind_splits dest!: var_brace_type name [simplified] dest: var_index_type)
qed

lemma JimParseExpression_ok:
  assumes "pos_ok s pc"
  shows "\<exists>r. JimParseExpression s pc = Some r \<and> expression_ok s pc r"
proof -
  from expr_blank_ok [OF assms] obtain p1 where p1: "expr_blank s pc = Some p1" "moved s pc p1" by blast
  then have ok: "pos_ok s p1" by (simp add: moved_def)
  have "\<exists>r. JimParseExpression s pc = Some r \<and> expression_ok s p1 r"
  proof (cases "plen p1 = 0")
    case True
    then show ?thesis using p1(1) ok by (auto simp: JimParseExpression_def expression_ok_def pos_ok_def)
  next
    case False
    with ok have len: "0 < plen p1" by (simp add: pos_ok_def)
    from pos_ok_read [OF ok] obtain c where c: "rd s (pp p1) = Some c" by blast
    note step = JimParseExpression_def p1(1) c
    have paren: "expression_ok s p1 (paren_token t p1)" if "t \<in> {JIM_TT_SUBEXPR_START, JIM_TT_SUBEXPR_END}" for t
      using that ok len by (auto simp: paren_token_def expression_ok_def expr_token_ok_def expr_types_def pos_ok_def)
    consider "c = c_lparen" | "c = c_rparen" | "c = c_lbrack" | "c = c_dollar" | "isdigit c \<or> c = c_dot" | "c = c_dquote"
      | "c = c_lbrace" | "c \<in> {0x4e, 0x49, 0x6e, 0x69}"
      | "c \<notin> {c_lparen, c_rparen, c_lbrack, c_dollar, c_dot, c_dquote, c_lbrace, 0x4e, 0x49, 0x6e, 0x69}" "\<not> isdigit c" by blast
    then show ?thesis
    proof cases
      case 1
      then show ?thesis using paren False by (simp add: step)
    next
      case 2
      then show ?thesis using paren False by (simp add: step)
    next
      case 3
      from JimParseCmd_ok [OF ok len] obtain p2 where "JimParseCmd s p1 = Some p2" "token_ok s p1 p2" "pp p1 < pp p2" by blast
      then show ?thesis using 3 False script_token_expression cmd_type [OF _ len ok] by (simp add: step)
    next
      case 4
      from JimParseVar_ok [OF ok len] obtain p2 rc where v: "JimParseVar s p1 = Some (p2, rc)"
        "if rc = JIM_OK then token_ok s p1 p2 \<and> pp p1 < pp p2
         else pos_ok s p2 \<and> pp p1 \<le> pp p2 \<and> 0 < plen p2 \<and> missing p2 \<in> {missing p1, c_lbrace, c_lbrack, c_dquote} \<and> peof p2 = peof p1"
        by blast
      show ?thesis
      proof (cases "rc = JIM_OK")
        case True
        then show ?thesis using v 4 False var_type [OF v(1) ok len] script_token_expression [of s p1 p2]
          by (auto simp: step)
      next
        case False
        with v(2) have p2: "pos_ok s p2" "pp p1 \<le> pp p2" "peof p2 = peof p1" "rc = JIM_ERR" by (cases rc; simp)+
        from op_expression [OF p2(1)] obtain r where r: "JimParseExprOperator s p2 = Some r" "expression_ok s p2 r" by blast
        have "expression_ok s p1 r"
          using r(2) p2(2,3) by (auto simp: expression_ok_def expr_token_ok_def split: option.splits if_splits)
        with r(1) p2(4) show ?thesis using v(1) 4 \<open>plen p1 \<noteq> 0\<close> by (simp add: step)
      qed
    next
      case 5
      then have "c \<notin> {c_lparen, c_rparen, c_lbrack, c_dollar}" by (auto simp: isdigit_def)
      moreover from JimParseExprNumber_ok [OF ok c 5] obtain p2 t where "JimParseExprNumber s p1 = Some (p2, t)" "expr_token_ok s p1 p2"
        "t \<in> {TT JIM_TT_EXPR_INT, TT JIM_TT_EXPR_DOUBLE}"
        by blast
      ultimately show ?thesis using 5 False by (auto simp: step expression_ok_def expr_token_ok_def expr_types_def)
    next
      case 6
      from JimParseQuote_ok [OF ok len] obtain p2 where "JimParseQuote s p1 = Some p2" "token_ok s p1 p2" "pp p1 < pp p2" by blast
      then show ?thesis using 6 False script_token_expression [of s p1 p2] quote_type by (fastforce simp: step isdigit_def)
    next
      case 7
      from JimParseBrace_ok [OF ok len] obtain p2 where "JimParseBrace s p1 = Some p2" "token_ok s p1 p2" "pp p1 < pp p2" by blast
      then show ?thesis using 7 False script_token_expression [of s p1 p2] brace_type [OF _ len ok] by (auto simp: step isdigit_def)
    next
      case 8
      have "list_all (\<lambda>w. w \<noteq> [] \<and> 0 \<notin> set w) (map bytes_of [''NaN'', ''nan'', ''NAN'', ''Inf'', ''inf'', ''INF''])" by simp
      from irrational_loop_ok [OF ok this] obtain r where r: "JimParseExprIrrational s p1 = Some r"
        "\<forall>pc'. r = Some pc' \<longrightarrow> expr_token_ok s p1 pc'" unfolding JimParseExprIrrational_def by blast
      have "\<not> isdigit c" "c \<notin> {c_lparen, c_rparen, c_lbrack, c_dollar, c_dot, c_dquote, c_lbrace}" using 8 by (auto simp: isdigit_def)
      then show ?thesis using r 8 False op_expression [OF ok]
        by (cases r) (auto simp: step expression_ok_def expr_token_ok_def expr_types_def)
    next
      case 9
      with op_expression [OF ok] False show ?thesis by (simp add: step)
    qed
  qed
  then show ?thesis using expression_ok_from [OF p1(2)] by blast
qed

text \<open>Every token is inside of the text and behind the one before; the last one is the end of the text.\<close>

definition tokens_before :: "byte list \<Rightarrow> nat \<Rightarrow> expr_token list \<Rightarrow> bool" where
  "tokens_before s p ts \<longleftrightarrow> sorted_wrt (\<lambda>a b. int (xt_token a) + xt_len a \<le> int (xt_token b)) ts \<and>
     list_all (\<lambda>t. expr_types (xt_type t) \<and> 0 \<le> xt_len t \<and> int (xt_token t) + xt_len t \<le> int p) ts"

definition tokens_inside :: "byte list \<Rightarrow> expr_token list \<Rightarrow> bool" where
  "tokens_inside s ts \<longleftrightarrow> ts \<noteq> [] \<and> tokens_before s (length s) (butlast ts) \<and>
     xt_type (last ts) = TT JIM_TT_EOL \<and> xt_token (last ts) = length s"

lemma tokens_before_snoc:
  assumes "tokens_before s (pp pc) ts" and "expr_token_ok s pc pc'" and "expr_types t"
  shows "tokens_before s (pp pc') (ts @ [\<lparr>xt_token = tstart pc', xt_len = tend pc' - int (tstart pc') + 1, xt_type = t, xt_line = l\<rparr>])"
  using assms by (fastforce simp: tokens_before_def expr_token_ok_def sorted_wrt_append list_all_iff)

lemma expr_tokens_ok:
  "pos_ok s pc \<Longrightarrow> \<not> peof pc \<Longrightarrow> tokens_before s (pp pc) ts \<Longrightarrow>
    \<exists>r. expr_tokens s pc ts = Some r \<and> (case r of None \<Rightarrow> True | Some ts' \<Rightarrow> tokens_inside s ts')"
proof (induction "length s - pp pc" arbitrary: pc ts rule: less_induct)
  case less
  from JimParseExpression_ok [OF less.prems(1)] obtain r where r: "JimParseExpression s pc = Some r" "expression_ok s pc r" by blast
  show ?case
  proof (cases r)
    case None
    with r(1) less.prems(2) show ?thesis by (subst expr_tokens.simps) simp
  next
    case (Some pt)
    obtain pc' t where pt: "pt = (pc', t)" by (cases pt)
    let ?ts = "ts @ [\<lparr>xt_token = tstart pc', xt_len = tend pc' - int (tstart pc') + 1, xt_type = t, xt_line = tline pc'\<rparr>]"
    have step: "expr_tokens s pc ts = expr_tokens s pc' ?ts"
      using r(1) Some pt less.prems(2) by (subst expr_tokens.simps) simp
    show ?thesis
    proof (cases "peof pc'")
      case True
      then have "expr_tokens s pc' ?ts = Some (Some ?ts)" by (subst expr_tokens.simps) simp
      moreover have "tokens_before s (length s) ts"
        using less.prems(1,3) by (auto simp: tokens_before_def list_all_iff pos_ok_def)
      ultimately show ?thesis using r(2) Some pt True less.prems(2) step by (simp add: expression_ok_def tokens_inside_def)
    next
      case False
      with r(2) Some pt less.prems(2) have ok: "expr_token_ok s pc pc'" "expr_types t" by (simp_all add: expression_ok_def)
      then have "length s - pp pc' < length s - pp pc" "pos_ok s pc'" by (auto simp: expr_token_ok_def pos_ok_def)
      from less.hyps [OF this False tokens_before_snoc [OF less.prems(3) ok]] step show ?thesis by simp
    qed
  qed
qed

text \<open>
  C21: Every text is split into the tokens of an expression, or refused, without a read outside of it. Every
  token but the last is an operand, an operator or a parenthesis inside of the text, behind the token
  before; the last one is the end of the text.
\<close>

theorem expr_tokens_inside:
  "\<exists>r. expr_tokens s (JimParserInit (int (length s)) line) [] = Some r \<and>
    (case r of None \<Rightarrow> True | Some ts \<Rightarrow> tokens_inside s ts)"
  by (rule expr_tokens_ok) (simp_all add: JimParserInit_def pos_ok_def tokens_before_def)

end
