(* ===== verification/Jim_Expr_Compile.thy ===== *)
theory Jim_Expr_Compile
  imports Jim_Expr
begin

text \<open>
  What the expression compiler of Jim does: the grammar of expressions over their tokens, the code that the
  syntax tree of an expression stands for, and that the tokens of an expression are converted to it.
\<close>

section \<open>Expressions\<close>

datatype expr = Operand expr_token | Prefix expr_op expr | Binary expr_op expr expr | Ternary expr expr expr

abbreviation prec :: "expr_op \<Rightarrow> nat" where
  "prec x \<equiv> precedence (Jim_ExprOperators x)"

text \<open>
  The tokens of an expression whose operators outside of parentheses have at least the precedence \<open>n\<close>. Operators of the same
  precedence associate to the left, the ternary to the right; a prefix operator binds closer than any other.
\<close>

inductive expr_at :: "nat \<Rightarrow> expr \<Rightarrow> expr_token list \<Rightarrow> bool" where
  operand: "xt_type t \<in> TT ` set operand_types \<Longrightarrow> expr_at n (Operand t) [t]"
| paren: "xt_type t = TT JIM_TT_SUBEXPR_START \<Longrightarrow> expr_at 1 e ts \<Longrightarrow> xt_type u = TT JIM_TT_SUBEXPR_END \<Longrightarrow>
    expr_at n e (t # ts @ [u])"
| prefix: "unary_type (TT JIM_TT_NONE) (xt_type t) = OP x \<Longrightarrow> arity (Jim_ExprOperators x) = 1 \<Longrightarrow> expr_at 300 e ts \<Longrightarrow> n \<le> 300 \<Longrightarrow>
    expr_at n (Prefix x e) (t # ts)"
| binary: "xt_type t = OP x \<Longrightarrow> xname (Jim_ExprOperators x) \<noteq> None \<Longrightarrow> arity (Jim_ExprOperators x) = 2 \<Longrightarrow> prec x \<noteq> 5 \<Longrightarrow>
    n \<le> prec x \<Longrightarrow> expr_at (prec x) l ls \<Longrightarrow> expr_at (prec x + 1) r rs \<Longrightarrow> expr_at n (Binary x l r) (ls @ t # rs)"
| ternary: "xt_type t = OP JIM_EXPROP_TERNARY \<Longrightarrow> xt_type u = OP JIM_EXPROP_COLON \<Longrightarrow> n \<le> 5 \<Longrightarrow>
    expr_at 6 c cs \<Longrightarrow> expr_at 6 a as \<Longrightarrow> expr_at 5 b bs \<Longrightarrow> expr_at n (Ternary c a b) (cs @ t # as @ u # bs)"

text \<open>No condition of a ternary is itself a ternary.\<close>

fun plain :: "expr \<Rightarrow> bool" where
  "plain (Operand t) = True"
| "plain (Prefix x e) = plain e"
| "plain (Binary x l r) = (plain l \<and> plain r)"
| "plain (Ternary c a b) = (plain c \<and> plain a \<and> plain b \<and> (case c of Ternary _ _ _ \<Rightarrow> False | _ \<Rightarrow> True))"

text \<open>
  The stack reads the same tokens with ternaries that associate to the left, as all operators do.
\<close>

inductive parsed :: "nat \<Rightarrow> expr \<Rightarrow> expr_token list \<Rightarrow> bool" where
  operand: "xt_type t \<in> TT ` set operand_types \<Longrightarrow> parsed n (Operand t) [t]"
| paren: "xt_type t = TT JIM_TT_SUBEXPR_START \<Longrightarrow> parsed 1 e ts \<Longrightarrow> xt_type u = TT JIM_TT_SUBEXPR_END \<Longrightarrow>
    parsed n e (t # ts @ [u])"
| prefix: "unary_type (TT JIM_TT_NONE) (xt_type t) = OP x \<Longrightarrow> arity (Jim_ExprOperators x) = 1 \<Longrightarrow> parsed 300 e ts \<Longrightarrow> n \<le> 300 \<Longrightarrow>
    parsed n (Prefix x e) (t # ts)"
| binary: "xt_type t = OP x \<Longrightarrow> xname (Jim_ExprOperators x) \<noteq> None \<Longrightarrow> arity (Jim_ExprOperators x) = 2 \<Longrightarrow> prec x \<noteq> 5 \<Longrightarrow>
    n \<le> prec x \<Longrightarrow> parsed (prec x) l ls \<Longrightarrow> parsed (prec x + 1) r rs \<Longrightarrow> parsed n (Binary x l r) (ls @ t # rs)"
| ternary: "xt_type t = OP JIM_EXPROP_TERNARY \<Longrightarrow> xt_type u = OP JIM_EXPROP_COLON \<Longrightarrow> n \<le> 5 \<Longrightarrow>
    parsed 5 c cs \<Longrightarrow> parsed 6 a as \<Longrightarrow> parsed 6 b bs \<Longrightarrow> parsed n (Ternary c a b) (cs @ t # as @ u # bs)"

text \<open>The operators of an expression have the arities of their places, its operands are inside of the text.\<close>

fun expr_wf :: "byte list \<Rightarrow> expr \<Rightarrow> bool" where
  "expr_wf s (Operand t) = (expr_operand s t \<noteq> None \<and> xt_type t \<in> TT ` set operand_types)"
| "expr_wf s (Prefix x e) = (arity (Jim_ExprOperators x) = 1 \<and> expr_wf s e)"
| "expr_wf s (Binary x l r) = (xname (Jim_ExprOperators x) \<noteq> None \<and> arity (Jim_ExprOperators x) = 2 \<and> prec x \<noteq> 5 \<and> expr_wf s l \<and> expr_wf s r)"
| "expr_wf s (Ternary c a b) = (expr_wf s c \<and> expr_wf s a \<and> expr_wf s b)"

text \<open>The code of an expression. The right operand of a lazy operator is between a jump over it and the right half of the operator.\<close>

definition op_code :: "expr_op \<Rightarrow> expr_code" where
  "op_code x = \<lparr>xc_type = OP x, xc_obj = Expr_Empty\<rparr>"

definition int_code :: "int \<Rightarrow> expr_code" where
  "int_code n = \<lparr>xc_type = TT JIM_TT_EXPR_INT, xc_obj = Expr_Int n\<rparr>"

definition lazy_code :: "expr_op \<Rightarrow> expr_code list \<Rightarrow> expr_code list" where
  "lazy_code x r = [int_code (int (length r) + 1), op_code (lazy_left x)] @ r @ [op_code (lazy_right x)]"

fun compile :: "byte list \<Rightarrow> expr \<Rightarrow> expr_code list" where
  "compile s (Operand t) = [the (expr_operand s t)]"
| "compile s (Prefix x e) = compile s e @ [op_code x]"
| "compile s (Binary x l r) = (if lazy (Jim_ExprOperators x) = LAZY_OP then compile s l @ lazy_code x (compile s r)
     else compile s l @ compile s r @ [op_code x])"
| "compile s (Ternary c a b) = compile s c @ lazy_code JIM_EXPROP_TERNARY (compile s a) @ lazy_code JIM_EXPROP_COLON (compile s b)"

lemma compile_nonempty [simp]: "compile s e \<noteq> []"
  by (cases e) (simp_all add: lazy_code_def)

lemma code_simps [simp]:
  "xc_type (op_code x) = OP x" "xc_obj (op_code x) = Expr_Empty" "xc_type (int_code n) = TT JIM_TT_EXPR_INT" "xc_obj (int_code n) = Expr_Int n"
  by (simp_all add: op_code_def int_code_def)

lemma expr_operator_simps [simp]:
  "xname (expr_operator w p a l) = w" "precedence (expr_operator w p a l) = p" "arity (expr_operator w p a l) = a"
  "lazy (expr_operator w p a l) = l"
  by (simp_all add: expr_operator_def)

lemma is_op_simps [simp]: "is_op (OP x)" "\<not> is_op (TT t)"
  by (simp_all add: is_op_def)

lemma type_operand: "expr_operand s t = Some c \<Longrightarrow> xc_type c = xt_type t"
  by (auto simp: expr_operand_def Let_def split: if_splits bind_splits)

text \<open>Facts about the table.\<close>

lemma lazy_op_cases:
  "lazy (Jim_ExprOperators x) = LAZY_OP \<longleftrightarrow> x \<in> {JIM_EXPROP_LOGICAND, JIM_EXPROP_LOGICOR, JIM_EXPROP_TERNARY, JIM_EXPROP_COLON}"
  by (cases x) (simp_all add: expr_operator_def)

lemma lazy_arity:
  assumes "lazy (Jim_ExprOperators x) = LAZY_OP"
  shows "arity (Jim_ExprOperators (lazy_left x)) = 2" "arity (Jim_ExprOperators (lazy_right x)) = 2"
    "lazy (Jim_ExprOperators (lazy_left x)) = LAZY_LEFT" "lazy (Jim_ExprOperators (lazy_right x)) = LAZY_RIGHT"
  using assms unfolding lazy_op_cases by (auto simp: expr_operator_def)

lemma binary_op:
  assumes "xname (Jim_ExprOperators x) \<noteq> None" and "arity (Jim_ExprOperators x) = 2"
  shows "prec x \<le> 250" "1 \<le> prec x" "lazy (Jim_ExprOperators x) \<in> {LAZY_NONE, LAZY_OP}"
  using assms by (cases x; simp add: expr_operator_def)+

lemma prefix_op:
  assumes "arity (Jim_ExprOperators x) = 1"
  shows "300 \<le> prec x" "lazy (Jim_ExprOperators x) = LAZY_NONE"
  using assms by (cases x; simp add: expr_operator_def)+

section \<open>Lazy operators\<close>

text \<open>A search for the start of an operand steps over the code of an expression.\<close>

lemma find_left_step:
  assumes "code = out @ c # post" and "out \<noteq> []" and "0 \<le> k" and "i = int (length out)"
  shows "find_left code i (k + 1) = find_left code (i - 1)
      (if is_op (xc_type c) then k + int (arity (JimExprOperatorInfoByOpcode (xc_type c))) else k)"
  using assms by (subst find_left.simps) (auto simp: Let_def nth_append Suc_le_eq)

definition is_operand :: "expr_code list \<Rightarrow> bool" where
  "is_operand r \<longleftrightarrow> (\<forall>code out post k. code = out @ r @ post \<longrightarrow> out \<noteq> [] \<longrightarrow> 0 \<le> k \<longrightarrow>
     find_left code (int (length out) + int (length r) - 1) (k + 1) = find_left code (int (length out) - 1) k)"

lemma is_operandD:
  "is_operand r \<Longrightarrow> code = out @ r @ post \<Longrightarrow> out \<noteq> [] \<Longrightarrow> 0 \<le> k \<Longrightarrow> i = int (length out) + int (length r) - 1 \<Longrightarrow>
    find_left code i (k + 1) = find_left code (int (length out) - 1) k"
  by (simp add: is_operand_def)

lemma operand_leaf: "\<not> is_op (xc_type c) \<Longrightarrow> is_operand [c]"
  unfolding is_operand_def using find_left_step by fastforce

lemma operand_prefix:
  assumes "is_operand e" and "arity (Jim_ExprOperators x) = 1"
  shows "is_operand (e @ [op_code x])"
  unfolding is_operand_def
proof (intro allI impI)
  fix code out post :: "expr_code list" and k :: int
  assume c: "code = out @ (e @ [op_code x]) @ post" "out \<noteq> []" "0 \<le> k"
  have "find_left code (int (length out) + int (length (e @ [op_code x])) - 1) (k + 1) =
    find_left code (int (length out) + int (length e) - 1) (k + 1)"
    using find_left_step [of code "out @ e" "op_code x" post k "int (length out) + int (length e)"] c assms(2) by simp
  also have "\<dots> = find_left code (int (length out) - 1) k"
    by (rule is_operandD [OF assms(1), of _ _ "op_code x # post"]) (use c in simp_all)
  finally show "find_left code (int (length out) + int (length (e @ [op_code x])) - 1) (k + 1) =
    find_left code (int (length out) - 1) k" .
qed

lemma operand_binary:
  assumes "is_operand l" and "is_operand r" and "arity (Jim_ExprOperators x) = 2"
  shows "is_operand (l @ r @ [op_code x])"
  unfolding is_operand_def
proof (intro allI impI)
  fix code out post :: "expr_code list" and k :: int
  assume c: "code = out @ (l @ r @ [op_code x]) @ post" "out \<noteq> []" "0 \<le> k"
  have "find_left code (int (length out) + int (length (l @ r @ [op_code x])) - 1) (k + 1) =
    find_left code (int (length (out @ l)) + int (length r) - 1) (k + 1 + 1)"
    using find_left_step [of code "out @ l @ r" "op_code x" post k "int (length (out @ l @ r))"] c assms(3) by (simp add: algebra_simps)
  also have "\<dots> = find_left code (int (length (out @ l)) - 1) (k + 1)"
    by (rule is_operandD [OF assms(2), of _ _ "op_code x # post"]) (use c in simp_all)
  also have "\<dots> = find_left code (int (length out) - 1) k"
    by (rule is_operandD [OF assms(1), of _ _ "r @ op_code x # post"]) (use c in simp_all)
  finally show "find_left code (int (length out) + int (length (l @ r @ [op_code x])) - 1) (k + 1) =
    find_left code (int (length out) - 1) k" .
qed

text \<open>A jump and a left operator count as a binary operator with its second operand, as the jump is an operand.\<close>

lemma operand_lazy:
  assumes "is_operand l" and "is_operand r" and "lazy (Jim_ExprOperators x) = LAZY_OP"
  shows "is_operand (l @ lazy_code x r)"
proof -
  have "is_operand (l @ [int_code n] @ [op_code (lazy_left x)])" for n
    by (rule operand_binary [OF assms(1) operand_leaf lazy_arity(1) [OF assms(3)]]) simp
  from operand_binary [OF this assms(2) lazy_arity(2) [OF assms(3)]] show ?thesis by (simp add: lazy_code_def)
qed

lemma leaf_code: "expr_wf s (Operand t) \<Longrightarrow> expr_operand s t = Some (the (expr_operand s t)) \<and> xc_type (the (expr_operand s t)) \<in> TT ` set operand_types"
  by (cases "expr_operand s t") (auto simp: type_operand)

lemma compile_operand: "expr_wf s e \<Longrightarrow> is_operand (compile s e)"
proof (induction e)
  case (Operand t)
  from leaf_code [OF this] show ?case by (auto intro!: operand_leaf)
next
  case (Binary x l r)
  then show ?case using operand_lazy operand_binary by simp
next
  case (Ternary c a b)
  then show ?case using operand_lazy [of "compile s c @ lazy_code JIM_EXPROP_TERNARY (compile s a)" "compile s b" JIM_EXPROP_COLON]
      operand_lazy [of "compile s c" "compile s a" JIM_EXPROP_TERNARY] by (simp add: lazy_op_cases)
qed (simp_all add: operand_prefix)

text \<open>All jumps end inside of the code, so inserting code behind it leaves them as they are.\<close>

definition closed_code :: "expr_code list \<Rightarrow> bool" where
  "closed_code code \<longleftrightarrow> (\<forall>i < length code. lazy (JimExprOperatorInfoByOpcode (xc_type (code ! i))) = LAZY_LEFT \<longrightarrow>
     0 < i \<and> (\<exists>n. xc_obj (code ! (i - 1)) = Expr_Int n \<and> n + int i < int (length code)))"

lemma closed_Nil [simp]: "closed_code []"
  by (simp add: closed_code_def)

lemma closed_append: "closed_code a \<Longrightarrow> closed_code b \<Longrightarrow> closed_code (a @ b)"
proof (unfold closed_code_def, intro allI impI)
  fix i
  assume ab: "\<forall>i < length a. lazy (JimExprOperatorInfoByOpcode (xc_type (a ! i))) = LAZY_LEFT \<longrightarrow>
      0 < i \<and> (\<exists>n. xc_obj (a ! (i - 1)) = Expr_Int n \<and> n + int i < int (length a))"
    "\<forall>i < length b. lazy (JimExprOperatorInfoByOpcode (xc_type (b ! i))) = LAZY_LEFT \<longrightarrow>
      0 < i \<and> (\<exists>n. xc_obj (b ! (i - 1)) = Expr_Int n \<and> n + int i < int (length b))"
    and i: "i < length (a @ b)" "lazy (JimExprOperatorInfoByOpcode (xc_type ((a @ b) ! i))) = LAZY_LEFT"
  show "0 < i \<and> (\<exists>n. xc_obj ((a @ b) ! (i - 1)) = Expr_Int n \<and> n + int i < int (length (a @ b)))"
  proof (cases "i < length a")
    case True
    with ab(1) i show ?thesis by (fastforce simp: nth_append)
  next
    case False
    with i have "i - length a < length b" "lazy (JimExprOperatorInfoByOpcode (xc_type (b ! (i - length a)))) = LAZY_LEFT"
      by (simp_all add: nth_append)
    with ab(2) have "0 < i - length a" "\<exists>n. xc_obj (b ! (i - length a - 1)) = Expr_Int n \<and> n + int (i - length a) < int (length b)"
      by blast+
    moreover have "(a @ b) ! (i - 1) = b ! (i - length a - 1)" using calculation(1) by (auto simp: nth_append diff_commute)
    ultimately show ?thesis using False by auto
  qed
qed

lemma closed_one: "lazy (JimExprOperatorInfoByOpcode (xc_type c)) \<noteq> LAZY_LEFT \<Longrightarrow> closed_code [c]"
  by (simp add: closed_code_def)

lemma closed_lazy: "closed_code r \<Longrightarrow> lazy (Jim_ExprOperators x) = LAZY_OP \<Longrightarrow> closed_code (lazy_code x r)"
proof (unfold closed_code_def, intro allI impI)
  fix i
  assume r: "\<forall>i < length r. lazy (JimExprOperatorInfoByOpcode (xc_type (r ! i))) = LAZY_LEFT \<longrightarrow>
      0 < i \<and> (\<exists>n. xc_obj (r ! (i - 1)) = Expr_Int n \<and> n + int i < int (length r))"
    and x: "lazy (Jim_ExprOperators x) = LAZY_OP"
    and i: "i < length (lazy_code x r)" "lazy (JimExprOperatorInfoByOpcode (xc_type (lazy_code x r ! i))) = LAZY_LEFT"
  consider "i = 0" | "i = 1" | j where "i = Suc (Suc j)" "j < length r" | "i = Suc (Suc (length r))"
    using i(1) by (cases i; cases "i - 1") (auto simp: lazy_code_def less_Suc_eq)
  then show "0 < i \<and> (\<exists>n. xc_obj (lazy_code x r ! (i - 1)) = Expr_Int n \<and> n + int i < int (length (lazy_code x r)))"
  proof cases
    case 1
    with i(2) show ?thesis by (simp add: lazy_code_def expr_operator_def)
  next
    case (3 j)
    with i(2) have "lazy (JimExprOperatorInfoByOpcode (xc_type (r ! j))) = LAZY_LEFT" by (simp add: lazy_code_def nth_append)
    with r 3(2) have "0 < j" "\<exists>n. xc_obj (r ! (j - 1)) = Expr_Int n \<and> n + int j < int (length r)" by blast+
    with 3 show ?thesis by (cases j) (auto simp: lazy_code_def nth_append)
  next
    case 4
    with i(2) lazy_arity(4) [OF x] show ?thesis by (simp add: lazy_code_def nth_append)
  qed (simp add: lazy_code_def)
qed

lemma closed_compile: "expr_wf s e \<Longrightarrow> closed_code (compile s e)"
proof (induction e)
  case (Operand t)
  from leaf_code [OF this] show ?case by (auto intro!: closed_one)
next
  case (Binary x l r)
  then show ?case using binary_op(3) [of x] by (auto intro!: closed_append closed_lazy closed_one)
next
  case (Prefix x e)
  then show ?case using prefix_op(2) [of x] by (auto intro!: closed_append closed_one)
qed (auto intro!: closed_append closed_lazy simp: lazy_op_cases)

lemma adjust_skips_closed:
  "closed_code out \<Longrightarrow> i < length out \<or> i = 0 \<Longrightarrow> adjust_skips (out @ ys) (length out) i = Some (out @ ys)"
proof (induction i)
  case (Suc i)
  then have i: "Suc i < length out" by simp
  show ?case
  proof (cases "lazy (JimExprOperatorInfoByOpcode (xc_type (out ! Suc i))) = LAZY_LEFT")
    case True
    with Suc.prems(1) i obtain n where n: "xc_obj (out ! i) = Expr_Int n" "n + int (Suc i) < int (length out)"
      unfolding closed_code_def by fastforce
    then have "wide_value (out @ ys) i = Some n" using i by (simp add: wide_value_def nth_append)
    then show ?thesis using Suc i n(2) True by (simp add: nth_append)
  next
    case False
    then show ?thesis using Suc i by (simp add: nth_append)
  qed
qed simp

lemma ExprAddLazyOperator_ok:
  assumes "closed_code out" and "out \<noteq> []" and "is_operand r" and "lazy (Jim_ExprOperators x) = LAZY_OP"
  shows "ExprAddOperator (out @ r) (OP x) = Some (Some (out @ lazy_code x r))"
proof -
  have "find_left (out @ r) (int (length (out @ r)) - 1) (0 + 1) = find_left (out @ r) (int (length out) - 1) 0"
    by (rule is_operandD [OF assms(3), of _ _ "[]"]) (use assms(2) in simp_all)
  also have "\<dots> = Some (Some (int (length out) - 1))" by (subst find_left.simps) simp
  finally have f: "find_left (out @ r) (int (length (out @ r)) - 1) 1 = Some (Some (int (length out) - 1))" by simp
  have "adjust_skips (out @ lazy_code x r) (length out) (length out - 1) = Some (out @ lazy_code x r)"
    by (rule adjust_skips_closed [OF assms(1)]) (use assms(2) in \<open>cases out; simp\<close>)
  then show ?thesis using f assms(4)
    by (simp add: ExprAddOperator_def ExprAddLazyOperator_def lazy_code_def int_code_def op_code_def Let_def algebra_simps)
qed

section \<open>The tokens become the code\<close>

text \<open>Adding all operators of a list.\<close>

fun drain_ops :: "expr_type list \<Rightarrow> expr_code list \<Rightarrow> expr_code list option option" where
  "drain_ops [] code = Some (Some code)"
| "drain_ops (t # pend) code = and_then (ExprAddOperator code t) (drain_ops pend)"

text \<open>Operators that are waiting for the end of their operand, with precedences of at least \<open>n\<close>.\<close>

definition waiting :: "nat \<Rightarrow> expr_type list \<Rightarrow> bool" where
  "waiting n pend \<longleftrightarrow> list_all (\<lambda>t. is_op t \<and> n \<le> precedence (JimExprOperatorInfoByOpcode t)) pend"

lemma waiting_simps [simp]:
  "waiting n []" "waiting n (t # pend) \<longleftrightarrow> is_op t \<and> n \<le> precedence (JimExprOperatorInfoByOpcode t) \<and> waiting n pend"
  "waiting n (p @ q) \<longleftrightarrow> waiting n p \<and> waiting n q"
  by (auto simp: waiting_def)

lemma waiting_le: "waiting n pend \<Longrightarrow> m \<le> n \<Longrightarrow> waiting m pend"
  by (auto simp: waiting_def list_all_iff)

lemma drain_append: "drain_ops (p @ q) code = and_then (drain_ops p code) (drain_ops q)"
  by (induction p arbitrary: code) (auto simp: and_then_def split: option.splits)

lemma close_paren_drain:
  "waiting n pend \<Longrightarrow> drain_ops pend code = Some (Some code') \<Longrightarrow> close_paren (pend @ stack) code = close_paren stack code'"
  by (induction pend arbitrary: code) (auto simp: and_then_def split: option.splits)

lemma finish_stack_drain:
  "waiting n pend \<Longrightarrow> drain_ops pend code = Some (Some code') \<Longrightarrow> finish_stack (pend @ stack) code = finish_stack stack code'"
  by (induction pend arbitrary: code) (auto simp: and_then_def split: option.splits)

lemma reduce_stack_drain:
  "waiting n pend \<Longrightarrow> drain_ops pend code = Some (Some code') \<Longrightarrow> arity (Jim_ExprOperators x) \<noteq> 1 \<Longrightarrow> prec x \<le> n \<Longrightarrow>
    reduce_stack (OP x) (pend @ stack) code = reduce_stack (OP x) stack code'"
  by (induction pend arbitrary: code) (auto simp: and_then_def split: option.splits)

text \<open>No binary operator of precedence \<open>n\<close> or more takes an operator off the stack.\<close>

definition base_ok :: "nat \<Rightarrow> expr_type list \<Rightarrow> bool" where
  "base_ok n stack \<longleftrightarrow> stack = [] \<or> precedence (JimExprOperatorInfoByOpcode (hd stack)) < n \<or> 250 < n"

lemma reduce_base: "base_ok n stack \<Longrightarrow> n \<le> prec x \<Longrightarrow> prec x \<le> 250 \<Longrightarrow> reduce_stack (OP x) stack code = Some (Some (stack, code))"
  by (cases stack) (auto simp: base_ok_def)

lemma base_ok_mono: "base_ok n stack \<Longrightarrow> n \<le> m \<Longrightarrow> base_ok m stack"
  by (auto simp: base_ok_def)

lemma add_plain:
  "lazy (Jim_ExprOperators x) \<noteq> LAZY_OP \<Longrightarrow> ExprAddOperator code (OP x) = Some (Some (code @ [op_code x]))"
  by (simp add: ExprAddOperator_def op_code_def)

lemma unary_type_cong: "is_op prevtt \<Longrightarrow> unary_type prevtt t = unary_type (TT JIM_TT_NONE) t"
  by (simp add: unary_type_def)

text \<open>What the tokens of an expression do to the stack and to the code.\<close>

definition reads_expr :: "byte list \<Rightarrow> nat \<Rightarrow> expr \<Rightarrow> expr_token list \<Rightarrow> bool" where
  "reads_expr s n e ts \<longleftrightarrow> (\<forall>us stack out prevtt. prevtt = TT JIM_TT_NONE \<or> is_op prevtt \<longrightarrow> base_ok n stack \<longrightarrow> closed_code out \<longrightarrow>
     (\<exists>pend out' tt. create_loop s (ts @ us) stack out prevtt = create_loop s us (pend @ stack) out' (TT tt) \<and>
        tt \<noteq> JIM_TT_NONE \<and> waiting n pend \<and> drain_ops pend out' = Some (Some (out @ compile s e))))"

lemma reads_exprD:
  assumes "reads_expr s n e ts" and "prevtt = TT JIM_TT_NONE \<or> is_op prevtt" and "base_ok n stack" and "closed_code out"
  obtains pend out' tt where "create_loop s (ts @ us) stack out prevtt = create_loop s us (pend @ stack) out' (TT tt)"
    "tt \<noteq> JIM_TT_NONE" "waiting n pend" "drain_ops pend out' = Some (Some (out @ compile s e))"
  using assms unfolding reads_expr_def by blast

lemma operand_no_paren: "t \<in> TT ` set operand_types \<Longrightarrow> t \<notin> {TT JIM_TT_EOL, TT JIM_TT_SUBEXPR_START, TT JIM_TT_SUBEXPR_END, TT JIM_TT_NONE}"
  by (auto simp: operand_types_def)

lemma reads_operand: "xt_type t \<in> TT ` set operand_types \<Longrightarrow> expr_wf s (Operand t) \<Longrightarrow> reads_expr s n (Operand t) [t]"
  unfolding reads_expr_def
proof (intro allI impI)
  fix us stack out prevtt
  assume t: "xt_type t \<in> TT ` set operand_types" "expr_wf s (Operand t)"
  then obtain tt where tt: "xt_type t = TT tt" "tt \<noteq> JIM_TT_NONE" using operand_no_paren by fastforce
  have "create_loop s ([t] @ us) stack out prevtt = create_loop s us ([] @ stack) (out @ [the (expr_operand s t)]) (TT tt)"
  proof -
    obtain c where "expr_operand s t = Some c" using leaf_code [OF t(2)] by metis
    then show ?thesis using t(1) operand_no_paren [OF t(1)] tt by simp
  qed
  then show "\<exists>pend out' tt. create_loop s ([t] @ us) stack out prevtt = create_loop s us (pend @ stack) out' (TT tt) \<and>
      tt \<noteq> JIM_TT_NONE \<and> waiting n pend \<and> drain_ops pend out' = Some (Some (out @ compile s (Operand t)))"
    using tt(2) by (intro exI [of _ "[]"] exI [of _ "out @ [the (expr_operand s t)]"] exI [of _ tt]) simp
qed

text \<open>An operator token after the operators of its left operand have been added.\<close>

lemma op_token:
  assumes "xt_type t = OP x" and "tt \<noteq> JIM_TT_NONE" and "arity (Jim_ExprOperators x) \<noteq> 1"
    and "waiting n pend" and "prec x \<le> n" and "drain_ops pend out' = Some (Some code)"
  shows "create_loop s (t # us) (pend @ stack) out' (TT tt) =
    and_then (reduce_stack (OP x) stack code) (\<lambda>(stack, code). create_loop s us (OP x # stack) code (OP x))"
  using assms reduce_stack_drain [OF assms(4,6,3,5)] by (simp add: unary_type_def image_iff Let_def)

lemma reads_paren:
  assumes "xt_type t = TT JIM_TT_SUBEXPR_START" and "reads_expr s 1 e ts" and "xt_type u = TT JIM_TT_SUBEXPR_END"
  shows "reads_expr s n e (t # ts @ [u])"
  unfolding reads_expr_def
proof (intro allI impI)
  fix us stack out prevtt
  assume out: "closed_code out"
  obtain pend out' tt where r: "create_loop s (ts @ u # us) (TT JIM_TT_SUBEXPR_START # stack) out (TT JIM_TT_NONE) =
      create_loop s (u # us) (pend @ TT JIM_TT_SUBEXPR_START # stack) out' (TT tt)"
    "waiting 1 pend" "drain_ops pend out' = Some (Some (out @ compile s e))"
    by (rule reads_exprD [OF assms(2), of "TT JIM_TT_NONE" "TT JIM_TT_SUBEXPR_START # stack" out "u # us"]) (use out in \<open>simp_all add: base_ok_def\<close>)
  have "create_loop s ((t # ts @ [u]) @ us) stack out prevtt = create_loop s us ([] @ stack) (out @ compile s e) (TT JIM_TT_SUBEXPR_END)"
    using assms(1,3) r close_paren_drain [OF r(2,3)] by (simp add: image_iff operand_types_def)
  then show "\<exists>pend out' tt. create_loop s ((t # ts @ [u]) @ us) stack out prevtt = create_loop s us (pend @ stack) out' (TT tt) \<and>
      tt \<noteq> JIM_TT_NONE \<and> waiting n pend \<and> drain_ops pend out' = Some (Some (out @ compile s e))"
    by (intro exI [of _ "[]"] exI [of _ "out @ compile s e"] exI [of _ JIM_TT_SUBEXPR_END]) simp
qed

lemma reads_prefix:
  assumes "unary_type (TT JIM_TT_NONE) (xt_type t) = OP x" and "arity (Jim_ExprOperators x) = 1" and "reads_expr s 300 e ts" and "n \<le> 300"
  shows "reads_expr s n (Prefix x e) (t # ts)"
  unfolding reads_expr_def
proof (intro allI impI)
  fix us stack out prevtt
  assume prev: "prevtt = TT JIM_TT_NONE \<or> is_op prevtt" and out: "closed_code out"
  obtain pend out' tt where r: "create_loop s (ts @ us) (OP x # stack) out (OP x) = create_loop s us (pend @ OP x # stack) out' (TT tt)"
    "tt \<noteq> JIM_TT_NONE" "waiting 300 pend" "drain_ops pend out' = Some (Some (out @ compile s e))"
    by (rule reads_exprD [OF assms(3), of "OP x" "OP x # stack" out us]) (use out in \<open>simp_all add: base_ok_def\<close>)
  have "xt_type t \<notin> TT ` UNIV" using assms(1) by (auto simp: unary_type_def split: if_splits)
  then have t: "xt_type t \<notin> TT ` set operand_types" "xt_type t \<noteq> TT JIM_TT_EOL" "xt_type t \<noteq> TT JIM_TT_SUBEXPR_START"
    "xt_type t \<noteq> TT JIM_TT_SUBEXPR_END" by auto
  have "unary_type prevtt (xt_type t) = OP x" using prev assms(1) unary_type_cong by auto
  moreover have "reduce_stack (OP x) stack out = Some (Some (stack, out))" using assms(2) by (cases stack) simp_all
  ultimately have "create_loop s ((t # ts) @ us) stack out prevtt = create_loop s us ((pend @ [OP x]) @ stack) out' (TT tt)"
    using r(1) t by (simp add: Let_def)
  moreover have "drain_ops (pend @ [OP x]) out' = Some (Some (out @ compile s (Prefix x e)))"
    using r(4) prefix_op(2) [OF assms(2)] by (simp add: drain_append add_plain)
  moreover have "waiting n (pend @ [OP x])" using waiting_le [OF r(3)] assms(4) prefix_op(1) [OF assms(2)] by simp
  ultimately show "\<exists>pend out' tt. create_loop s ((t # ts) @ us) stack out prevtt = create_loop s us (pend @ stack) out' (TT tt) \<and>
      tt \<noteq> JIM_TT_NONE \<and> waiting n pend \<and> drain_ops pend out' = Some (Some (out @ compile s (Prefix x e)))"
    using r(2) by blast
qed

lemma reads_binary:
  assumes "xt_type t = OP x" and "xname (Jim_ExprOperators x) \<noteq> None" and "arity (Jim_ExprOperators x) = 2" and "prec x \<noteq> 5"
    and "n \<le> prec x" and l: "reads_expr s (prec x) l ls" "closed_code (compile s l)"
    and r: "reads_expr s (prec x + 1) r rs" "is_operand (compile s r)"
  shows "reads_expr s n (Binary x l r) (ls @ t # rs)"
  unfolding reads_expr_def
proof (intro allI impI)
  fix us stack out prevtt
  assume prev: "prevtt = TT JIM_TT_NONE \<or> is_op prevtt" and base: "base_ok n stack" and out: "closed_code out"
  note x = binary_op [OF assms(2,3)]
  obtain p1 out1 t1 where l1: "create_loop s (ls @ t # rs @ us) stack out prevtt = create_loop s (t # rs @ us) (p1 @ stack) out1 (TT t1)"
    "t1 \<noteq> JIM_TT_NONE" "waiting (prec x) p1" "drain_ops p1 out1 = Some (Some (out @ compile s l))"
    by (rule reads_exprD [OF l(1) prev base_ok_mono [OF base assms(5)] out])
  have "create_loop s (t # rs @ us) (p1 @ stack) out1 (TT t1) = create_loop s (rs @ us) (OP x # stack) (out @ compile s l) (OP x)"
    using op_token [OF assms(1) l1(2) _ l1(3) _ l1(4), where us = "rs @ us" and stack = stack] assms(3) reduce_base [OF base assms(5) x(1)] by simp
  moreover obtain p2 out2 t2 where r1: "create_loop s (rs @ us) (OP x # stack) (out @ compile s l) (OP x) =
      create_loop s us (p2 @ OP x # stack) out2 (TT t2)"
    "t2 \<noteq> JIM_TT_NONE" "waiting (prec x + 1) p2" "drain_ops p2 out2 = Some (Some ((out @ compile s l) @ compile s r))"
    by (rule reads_exprD [OF r(1), of "OP x" "OP x # stack" "out @ compile s l" us])
      (use closed_append [OF out l(2)] in \<open>simp_all add: base_ok_def\<close>)
  ultimately have loop: "create_loop s ((ls @ t # rs) @ us) stack out prevtt = create_loop s us ((p2 @ [OP x]) @ stack) out2 (TT t2)"
    using l1(1) by simp
  have "ExprAddOperator ((out @ compile s l) @ compile s r) (OP x) = Some (Some (out @ compile s (Binary x l r)))"
  proof (cases "lazy (Jim_ExprOperators x) = LAZY_OP")
    case True
    with ExprAddLazyOperator_ok [OF closed_append [OF out l(2)] _ r(2) True] show ?thesis by simp
  qed (simp add: add_plain)
  then have "drain_ops (p2 @ [OP x]) out2 = Some (Some (out @ compile s (Binary x l r)))" using r1(4) by (simp add: drain_append)
  moreover have "waiting n (p2 @ [OP x])" using waiting_le [OF r1(3), of n] assms(5) by simp
  ultimately show "\<exists>pend out' tt. create_loop s ((ls @ t # rs) @ us) stack out prevtt = create_loop s us (pend @ stack) out' (TT tt) \<and>
      tt \<noteq> JIM_TT_NONE \<and> waiting n pend \<and> drain_ops pend out' = Some (Some (out @ compile s (Binary x l r)))"
    using loop r1(2) by blast
qed

lemma reads_ternary:
  assumes "xt_type t = OP JIM_EXPROP_TERNARY" and "xt_type u = OP JIM_EXPROP_COLON" and "n \<le> 5"
    and c: "reads_expr s 5 c cs" "closed_code (compile s c)" and a: "reads_expr s 6 a as" "closed_code (compile s a)" "is_operand (compile s a)"
    and b: "reads_expr s 6 b bs" "is_operand (compile s b)"
  shows "reads_expr s n (Ternary c a b) (cs @ t # as @ u # bs)"
  unfolding reads_expr_def
proof (intro allI impI)
  fix us stack out prevtt
  assume prev: "prevtt = TT JIM_TT_NONE \<or> is_op prevtt" and base: "base_ok n stack" and out: "closed_code out"
  let ?q = "OP JIM_EXPROP_TERNARY" and ?k = "OP JIM_EXPROP_COLON"
  let ?out1 = "out @ compile s c" and ?out2 = "out @ compile s c @ lazy_code JIM_EXPROP_TERNARY (compile s a)"
  have red: "reduce_stack (OP x) stack code = Some (Some (stack, code))" if "prec x = 5" for x code
    by (rule reduce_base [OF base]) (use that assms(3) in simp_all)
  obtain p1 o1 t1 where l1: "create_loop s (cs @ t # as @ u # bs @ us) stack out prevtt = create_loop s (t # as @ u # bs @ us) (p1 @ stack) o1 (TT t1)"
    "t1 \<noteq> JIM_TT_NONE" "waiting 5 p1" "drain_ops p1 o1 = Some (Some ?out1)"
    by (rule reads_exprD [OF c(1) prev base_ok_mono [OF base] out]) (use assms(3) in simp)
  have s1: "create_loop s (t # as @ u # bs @ us) (p1 @ stack) o1 (TT t1) = create_loop s (as @ u # bs @ us) (?q # stack) ?out1 ?q"
    using op_token [OF assms(1) l1(2) _ l1(3) _ l1(4), where us = "as @ u # bs @ us" and stack = stack] red by simp
  note cl1 = closed_append [OF out c(2)]
  obtain p2 o2 t2 where l2: "create_loop s (as @ u # bs @ us) (?q # stack) ?out1 ?q =
      create_loop s (u # bs @ us) (p2 @ ?q # stack) o2 (TT t2)"
    "t2 \<noteq> JIM_TT_NONE" "waiting 6 p2" "drain_ops p2 o2 = Some (Some (?out1 @ compile s a))"
    by (rule reads_exprD [OF a(1), of ?q "?q # stack" ?out1 "u # bs @ us"]) (use cl1 in \<open>simp_all add: base_ok_def\<close>)
  have add: "ExprAddOperator (?out1 @ compile s a) ?q = Some (Some ?out2)"
    using ExprAddLazyOperator_ok [OF cl1 _ a(3), of JIM_EXPROP_TERNARY] by (simp add: lazy_op_cases)
  have s2: "create_loop s (u # bs @ us) (p2 @ ?q # stack) o2 (TT t2) = create_loop s (bs @ us) (?k # stack) ?out2 ?k"
    using op_token [OF assms(2) l2(2) _ l2(3) _ l2(4), where us = "bs @ us" and stack = "?q # stack"] red add by simp
  have cl2: "closed_code ?out2" using closed_append [OF cl1 closed_lazy [OF a(2)], of JIM_EXPROP_TERNARY] by (simp add: lazy_op_cases)
  obtain p3 o3 t3 where l3: "create_loop s (bs @ us) (?k # stack) ?out2 ?k = create_loop s us (p3 @ ?k # stack) o3 (TT t3)"
    "t3 \<noteq> JIM_TT_NONE" "waiting 6 p3" "drain_ops p3 o3 = Some (Some (?out2 @ compile s b))"
    by (rule reads_exprD [OF b(1), of ?k "?k # stack" ?out2 us]) (use cl2 in \<open>simp_all add: base_ok_def\<close>)
  have "ExprAddOperator (?out2 @ compile s b) ?k = Some (Some (out @ compile s (Ternary c a b)))"
    using ExprAddLazyOperator_ok [OF cl2 _ b(2), of JIM_EXPROP_COLON] by (simp add: lazy_op_cases)
  then have "drain_ops (p3 @ [?k]) o3 = Some (Some (out @ compile s (Ternary c a b)))" using l3(4) by (simp add: drain_append)
  moreover have "waiting n (p3 @ [?k])" using waiting_le [OF l3(3), of n] assms(3) by simp
  moreover have "create_loop s ((cs @ t # as @ u # bs) @ us) stack out prevtt = create_loop s us ((p3 @ [?k]) @ stack) o3 (TT t3)"
    using l1(1) s1 l2(1) s2 l3(1) by simp
  ultimately show "\<exists>pend out' tt. create_loop s ((cs @ t # as @ u # bs) @ us) stack out prevtt = create_loop s us (pend @ stack) out' (TT tt) \<and>
      tt \<noteq> JIM_TT_NONE \<and> waiting n pend \<and> drain_ops pend out' = Some (Some (out @ compile s (Ternary c a b)))"
    using l3(2) by blast
qed

lemma reads_parsed: "parsed n e ts \<Longrightarrow> expr_wf s e \<Longrightarrow> reads_expr s n e ts"
proof (induction n e ts rule: parsed.induct)
  case (operand t n)
  then show ?case by (intro reads_operand)
next
  case (binary t x n l ls r rs)
  then show ?case using closed_compile [of s l] compile_operand [of s r] by (intro reads_binary) simp_all
next
  case (ternary t u n c cs a as b bs)
  then show ?case using closed_compile [of s c] closed_compile [of s a] compile_operand [of s a] compile_operand [of s b]
    by (intro reads_ternary) simp_all
qed (simp_all add: reads_paren reads_prefix)

section \<open>The check and the order of ternaries\<close>

definition ternary_ops :: "expr_op set" where
  "ternary_ops = {JIM_EXPROP_TERNARY, JIM_EXPROP_TERNARY_LEFT, JIM_EXPROP_TERNARY_RIGHT, JIM_EXPROP_COLON, JIM_EXPROP_COLON_LEFT,
     JIM_EXPROP_COLON_RIGHT}"

lemma not_ternary: "prec x \<noteq> 5 \<Longrightarrow> x \<notin> ternary_ops"
  by (auto simp: ternary_ops_def)

lemma check_compile: "expr_wf s e \<Longrightarrow> 0 \<le> k \<Longrightarrow> check_stack (compile s e @ us) k m = check_stack us (k + 1) m"
proof (induction e arbitrary: k m us)
  case (Operand t)
  from leaf_code [OF Operand(1)] Operand(2) show ?case by (auto simp: Let_def)
next
  case (Binary x l r)
  then have x: "x \<notin> ternary_ops" by (intro not_ternary) simp
  show ?case
  proof (cases "lazy (Jim_ExprOperators x) = LAZY_OP")
    case True
    with x have "lazy_left x \<notin> ternary_ops" "lazy_right x \<notin> ternary_ops" by (auto simp: lazy_op_cases ternary_ops_def)
    with True Binary lazy_arity(1,2) [OF True] show ?thesis by (simp add: lazy_code_def Let_def ternary_ops_def)
  qed (use Binary x in \<open>simp add: Let_def ternary_ops_def\<close>)
next
  case (Ternary c a b)
  then show ?case by (simp add: lazy_code_def Let_def)
next
  case (Prefix x e)
  then have "x \<notin> ternary_ops" by (auto simp: ternary_ops_def)
  with Prefix show ?case by (simp add: Let_def ternary_ops_def)
qed

lemma compile_length:
  "parsed n e ts \<Longrightarrow> length (compile s e) \<le> length ts + 2 * length (filter (\<lambda>t. lazy (JimExprOperatorInfoByOpcode (xt_type t)) = LAZY_OP) ts)"
  by (induction n e ts rule: parsed.induct) (auto simp: lazy_code_def)

section \<open>Ternaries associate to the right\<close>

text \<open>The ternary of the last branch of \<open>c\<close> with \<open>a\<close> and \<open>b\<close>, and all ternaries of an expression turned to the right.\<close>

fun graft :: "expr \<Rightarrow> expr \<Rightarrow> expr \<Rightarrow> expr" where
  "graft (Ternary p q r) a b = Ternary p q (graft r a b)"
| "graft c a b = Ternary c a b"

fun right :: "expr \<Rightarrow> expr" where
  "right (Operand t) = Operand t"
| "right (Prefix x e) = Prefix x (right e)"
| "right (Binary x l r) = Binary x (right l) (right r)"
| "right (Ternary c a b) = graft (right c) (right a) (right b)"

lemma graft_graft: "graft (graft p q r) a b = graft p q (graft r a b)"
  by (induction p q r rule: graft.induct) auto

lemma graft_wf [simp]: "expr_wf s (graft c a b) = (expr_wf s c \<and> expr_wf s a \<and> expr_wf s b)"
  by (induction c a b rule: graft.induct) auto

lemma right_wf [simp]: "expr_wf s (right e) = expr_wf s e"
  by (induction e) auto

lemma length_graft: "length (compile s (graft c a b)) = length (compile s (Ternary c a b))"
  by (induction c a b rule: graft.induct) (auto simp: lazy_code_def)

lemma length_right [simp]: "length (compile s (right e)) = length (compile s e)"
  by (induction e) (auto simp: lazy_code_def length_graft)

lemma right_ternary: "right (Ternary (Ternary p q r) a b) = right (Ternary p q (Ternary r a b))"
  by (simp add: graft_graft)

text \<open>
  The loops of the reordering, from the last of the first \<open>n\<close> tokens down, each by the step that one token makes.
\<close>

definition moves :: "expr_code list \<Rightarrow> nat \<Rightarrow> int \<Rightarrow> (nat \<times> int) option option" where
  "moves code n k = move_indices_loop code (n - 1) k"

definition colons :: "expr_code list \<Rightarrow> nat \<Rightarrow> int \<Rightarrow> int option" where
  "colons code n k = colon_left_loop code (n - 1) k"

definition reorders :: "expr_code list \<Rightarrow> nat \<Rightarrow> expr_code list option" where
  "reorders code n = reorder_loop code (n - 1)"

abbreviation is_type :: "expr_code \<Rightarrow> expr_op \<Rightarrow> bool" where
  "is_type c x \<equiv> xc_type c = OP x"

lemma moves_step:
  assumes "code = out @ c # post" and "k \<ge> 1 \<and> (is_type c JIM_EXPROP_TERNARY_LEFT \<longrightarrow> k \<noteq> 1)" and "n = Suc (length out)"
  shows "moves code n k = moves code (length out)
    (if is_type c JIM_EXPROP_TERNARY_LEFT then k - 1 else if is_type c JIM_EXPROP_COLON_RIGHT then k + 1 else k)"
proof (cases "length out")
  case (Suc m)
  show ?thesis
  proof (cases m)
    case (Suc j)
    then have "out \<noteq> []" "j < length code" using \<open>length out = Suc m\<close> assms(1) by auto
    then show ?thesis using assms Suc \<open>length out = Suc m\<close> by (auto simp: moves_def nth_append)
  qed (use assms Suc in \<open>simp add: moves_def\<close>)
qed (use assms in \<open>simp add: moves_def\<close>)

lemma colons_step:
  assumes "code = out @ c # post" and "k \<ge> 1 \<and> (is_type c JIM_EXPROP_COLON_LEFT \<longrightarrow> k \<noteq> 1)" and "n = Suc (length out)"
  shows "colons code n k = colons code (length out)
    (if is_type c JIM_EXPROP_TERNARY_LEFT then k - 1 else if is_type c JIM_EXPROP_COLON_RIGHT then k + 1 else k)"
proof (cases "length out")
  case (Suc m)
  then show ?thesis using assms by (cases m) (auto simp: colons_def nth_append)
qed (use assms in \<open>simp add: colons_def\<close>)

lemma reorders_step:
  assumes "code = out @ c # post" and "\<not> is_type c JIM_EXPROP_COLON_RIGHT \<or> moves code (length out) 1 = Some None" and "n = Suc (length out)"
  shows "reorders code n = reorders code (length out)"
proof (cases "length out")
  case (Suc m)
  show ?thesis
  proof (cases m)
    case (Suc j)
    have "reorder_loop code (Suc m) = reorder_loop code m"
      by (subst reorder_loop.simps)
        (use assms Suc \<open>length out = Suc m\<close> in \<open>auto simp: nth_append ExprTernaryGetMoveIndices_def moves_def\<close>)
    then show ?thesis using assms(3) \<open>length out = Suc m\<close> by (simp add: reorders_def)
  next
    case 0
    then show ?thesis using Suc assms(3) reorder_loop.simps [of code 1] reorder_loop.simps [of code 0] by (simp add: reorders_def)
  qed
qed (use assms in \<open>simp add: reorders_def\<close>)

text \<open>After the left half of its own ternary, a search that did not stop finds nothing.\<close>

lemma moves_none: "i < length code \<Longrightarrow> k \<le> 0 \<Longrightarrow> move_indices_loop code i k = Some None"
proof (induction i arbitrary: k)
  case (Suc i)
  then show ?case by (cases "i = 0") simp_all
qed simp

text \<open>The count of both searches over a piece of code, its last token first; \<open>None\<close> where one of them stops.\<close>

fun backward :: "expr_code list \<Rightarrow> int \<Rightarrow> int option" where
  "backward [] k = Some k"
| "backward (c # cs) k = (if is_type c JIM_EXPROP_TERNARY_LEFT then (if k = 1 then None else backward cs (k - 1))
     else if is_type c JIM_EXPROP_COLON_RIGHT then backward cs (k + 1)
     else if is_type c JIM_EXPROP_COLON_LEFT \<and> k = 1 then None else backward cs k)"

lemma back_append [simp]: "backward (cs @ ds) k = backward cs k \<bind> backward ds"
  by (induction cs arbitrary: k) auto

lemma back_compile: "expr_wf s e \<Longrightarrow> 1 \<le> k \<Longrightarrow> backward (rev (compile s e)) k = Some k"
proof (induction e arbitrary: k)
  case (Operand t)
  from leaf_code [OF Operand(1)] show ?case by auto
next
  case (Prefix x e)
  then have "x \<notin> ternary_ops" by (auto simp: ternary_ops_def)
  with Prefix show ?case by (simp add: ternary_ops_def)
next
  case (Binary x l r)
  then have x: "x \<notin> ternary_ops" by (intro not_ternary) simp
  show ?case
  proof (cases "lazy (Jim_ExprOperators x) = LAZY_OP")
    case True
    with x have "lazy_left x \<notin> ternary_ops" "lazy_right x \<notin> ternary_ops" by (auto simp: lazy_op_cases ternary_ops_def)
    with True Binary show ?thesis by (simp add: lazy_code_def ternary_ops_def)
  qed (use Binary x in \<open>simp add: ternary_ops_def\<close>)
qed (simp add: lazy_code_def)

lemma moves_back:
  "backward (rev r) k = Some k' \<Longrightarrow> 1 \<le> k \<Longrightarrow> code = out @ r @ post \<Longrightarrow> n = length out + length r \<Longrightarrow> moves code n k = moves code (length out) k'"
proof (induction r arbitrary: k n post rule: rev_induct)
  case (snoc c r)
  then have step: "moves code n k = moves code (length (out @ r))
      (if is_type c JIM_EXPROP_TERNARY_LEFT then k - 1 else if is_type c JIM_EXPROP_COLON_RIGHT then k + 1 else k)"
    by (intro moves_step [of code "out @ r" c post]) (auto split: if_splits)
  also have "\<dots> = moves code (length out) k'"
    by (rule snoc.IH [of _ "c # post"]) (use snoc.prems in \<open>auto split: if_splits\<close>)
  finally show ?case .
qed simp

lemma colons_back:
  "backward (rev r) k = Some k' \<Longrightarrow> 1 \<le> k \<Longrightarrow> code = out @ r @ post \<Longrightarrow> n = length out + length r \<Longrightarrow> colons code n k = colons code (length out) k'"
proof (induction r arbitrary: k n post rule: rev_induct)
  case (snoc c r)
  then have step: "colons code n k = colons code (length (out @ r))
      (if is_type c JIM_EXPROP_TERNARY_LEFT then k - 1 else if is_type c JIM_EXPROP_COLON_RIGHT then k + 1 else k)"
    by (intro colons_step [of code "out @ r" c post]) (auto split: if_splits)
  also have "\<dots> = colons code (length out) k'"
    by (rule snoc.IH [of _ "c # post"]) (use snoc.prems in \<open>auto split: if_splits\<close>)
  finally show ?case .
qed simp

lemma last_compile:
  "expr_wf s e \<Longrightarrow> is_type (last (compile s e)) JIM_EXPROP_COLON_RIGHT \<longleftrightarrow> (case e of Ternary _ _ _ \<Rightarrow> True | _ \<Rightarrow> False)"
proof (cases e)
  case (Operand t)
  assume "expr_wf s e"
  with leaf_code [of s t] Operand show ?thesis by auto
next
  case (Binary x l r)
  assume "expr_wf s e"
  with Binary have x: "x \<notin> ternary_ops" by (intro not_ternary) simp
  then have "lazy (Jim_ExprOperators x) = LAZY_OP \<Longrightarrow> lazy_right x \<notin> ternary_ops" by (auto simp: lazy_op_cases ternary_ops_def)
  with Binary x show ?thesis by (auto simp: lazy_code_def ternary_ops_def)
next
  case (Prefix x d)
  assume "expr_wf s e"
  with Prefix have "x \<notin> ternary_ops" by (auto simp: ternary_ops_def)
  with Prefix show ?thesis by (simp add: ternary_ops_def)
qed (simp add: lazy_code_def)

text \<open>The step that ends a search of \<open>moves\<close>.\<close>

lemma moves_end:
  assumes "code = out @ [d, i, op_code JIM_EXPROP_TERNARY_LEFT] @ post" and "\<not> is_type d JIM_EXPROP_COLON_RIGHT"
    and "n = length out + 3"
  shows "moves code n 1 = Some None"
  using assms moves_none [of "Suc (length out)" code 0] by (simp add: moves_def nth_append)

lemma moves_found:
  assumes "code = out @ [d, i, op_code JIM_EXPROP_TERNARY_LEFT] @ post" and "is_type d JIM_EXPROP_COLON_RIGHT"
    and "n = length out + 3" and "colons code (length out) 1 = Some l"
  shows "moves code n 1 = Some (Some (length out, l))"
  using assms by (simp add: moves_def nth_append ExprTernaryGetColonLeftIndex_def colons_def)

lemma reorder_move:
  "\<not> i \<le> 1 \<Longrightarrow> peek code i = Some c \<Longrightarrow> is_type c JIM_EXPROP_COLON_RIGHT \<Longrightarrow>
    ExprTernaryGetMoveIndices code i = Some (Some (pr, int (Suc m))) \<Longrightarrow>
    reorder_loop code i = add_wide (rotate_down code pr i) m (int (i - pr)) \<bind> (\<lambda>code. reorder_loop code i)"
  by (subst reorder_loop.simps) simp

lemma rotate_down_mid: "rotate_down (x @ c # m @ d # post) (length x) (length (x @ c # m)) = x @ m @ d # c # post"
  by (simp add: rotate_down_def nth_append)

text \<open>Two ternaries that associate to the left are turned around.\<close>

lemma reorders_rotate:
  assumes wf: "expr_wf s (Ternary (Ternary p q r) a b)" and n: "n = length pre + length (compile s (Ternary (Ternary p q r) a b))"
  shows "reorders (pre @ compile s (Ternary (Ternary p q r) a b) @ post) n =
    reorders (pre @ compile s (Ternary p q (Ternary r a b)) @ post) n"
proof -
  let ?R = "compile s r" and ?A = "compile s a" and ?B = "compile s b"
  let ?w = "pre @ compile s p @ lazy_code JIM_EXPROP_TERNARY (compile s q)"
  let ?x = "?w @ [int_code (int (length ?R) + 1), op_code JIM_EXPROP_COLON_LEFT] @ ?R"
  let ?j = "[int_code (int (length ?A) + 1), op_code JIM_EXPROP_TERNARY_LEFT]"
  let ?k = "[op_code JIM_EXPROP_TERNARY_RIGHT, int_code (int (length ?B) + 1), op_code JIM_EXPROP_COLON_LEFT]"
  let ?cr = "op_code JIM_EXPROP_COLON_RIGHT"
  let ?m = "?j @ ?A @ ?k @ ?B"
  let ?code = "?x @ ?cr # ?m @ ?cr # post"
  have code: "pre @ compile s (Ternary (Ternary p q r) a b) @ post = ?code" by (simp add: lazy_code_def)
  have n': "n = Suc (length (?x @ ?cr # ?m))" unfolding n by (simp add: lazy_code_def)
  have len: "2 \<le> length ?w" by (cases "compile s p") (simp_all add: lazy_code_def)
  have col: "colons ?code (length ?x) 1 = Some (int (Suc (length ?w)))"
  proof -
    have "colons ?code (length ?x) 1 = colons ?code (length (?w @ [int_code (int (length ?R) + 1), op_code JIM_EXPROP_COLON_LEFT])) 1"
      by (rule colons_back [OF back_compile]) (use wf in \<open>simp_all add: lazy_code_def\<close>)
    also have "\<dots> = Some (int (Suc (length ?w)))"
    proof -
      have "?code ! Suc (length ?w) = op_code JIM_EXPROP_COLON_LEFT" by (simp add: nth_append)
      then show ?thesis using len by (simp add: colons_def)
    qed
    finally show ?thesis .
  qed
  have mv: "moves ?code (length (?x @ ?cr # ?m)) 1 = Some (Some (length ?x, int (Suc (length ?w))))"
  proof -
    have "moves ?code (length (?x @ ?cr # ?m)) 1 = moves ?code (length (?x @ ?cr # ?j @ ?A @ ?k)) 1"
      by (rule moves_back [OF back_compile, where post = "?cr # post"]) (use wf in simp_all)
    also have "\<dots> = moves ?code (length (?x @ ?cr # ?j @ ?A @ take 2 ?k)) 1"
      by (subst moves_step [of _ "?x @ ?cr # ?j @ ?A @ take 2 ?k" "op_code JIM_EXPROP_COLON_LEFT" "?B @ ?cr # post"]) simp_all
    also have "\<dots> = moves ?code (length (?x @ ?cr # ?j @ ?A @ take 1 ?k)) 1"
      by (subst moves_step [of _ "?x @ ?cr # ?j @ ?A @ take 1 ?k" "int_code (int (length ?B) + 1)" "op_code JIM_EXPROP_COLON_LEFT # ?B @ ?cr # post"]) simp_all
    also have "\<dots> = moves ?code (length (?x @ ?cr # ?j @ ?A)) 1"
      by (subst moves_step [of _ "?x @ ?cr # ?j @ ?A" "op_code JIM_EXPROP_TERNARY_RIGHT" "tl ?k @ ?B @ ?cr # post"]) simp_all
    also have "\<dots> = moves ?code (length (?x @ ?cr # ?j)) 1"
      by (rule moves_back [OF back_compile, where post = "?k @ ?B @ ?cr # post"]) (use wf in simp_all)
    also have "\<dots> = Some (Some (length ?x, int (Suc (length ?w))))"
      by (rule moves_found [where d = ?cr and i = "int_code (int (length ?A) + 1)"]) (use col in simp_all)
    finally show ?thesis .
  qed
  define i where "i = length (?x @ ?cr # ?m)"
  have "reorder_loop ?code i = add_wide (rotate_down ?code (length ?x) i) (length ?w) (int (i - length ?x)) \<bind> (\<lambda>code. reorder_loop code i)"
  proof -
    have "\<not> i \<le> 1" using len by (simp add: i_def)
    moreover have "peek ?code i = Some ?cr" by (simp add: i_def nth_append)
    moreover have "ExprTernaryGetMoveIndices ?code i = Some (Some (length ?x, int (Suc (length ?w))))"
      using mv by (simp only: moves_def ExprTernaryGetMoveIndices_def i_def)
    ultimately show ?thesis by (rule reorder_move [OF _ _ code_simps(1)])
  qed
  also have "rotate_down ?code (length ?x) i = ?x @ ?m @ ?cr # ?cr # post"
    unfolding i_def by (rule rotate_down_mid)
  also have "add_wide (?x @ ?m @ ?cr # ?cr # post) (length ?w) (int (i - length ?x)) =
      Some (pre @ compile s (Ternary p q (Ternary r a b)) @ post)"
    by (simp add: add_wide_def wide_value_def nth_append list_update_append i_def lazy_code_def int_code_def op_code_def)
  finally show ?thesis unfolding code reorders_def n' i_def by simp
qed

fun weight :: "expr \<Rightarrow> nat" where
  "weight (Operand t) = 1"
| "weight (Prefix x e) = 1 + weight e"
| "weight (Binary x l r) = 1 + weight l + weight r"
| "weight (Ternary c a b) = 1 + 2 * weight c + weight a + weight b"

lemma reorders_plain:
  "code = out @ ts @ post \<Longrightarrow> list_all (\<lambda>c. \<not> is_type c JIM_EXPROP_COLON_RIGHT) ts \<Longrightarrow> n = length out + length ts \<Longrightarrow>
    reorders code n = reorders code (length out)"
proof (induction ts arbitrary: n post rule: rev_induct)
  case (snoc c ts)
  then have "reorders code n = reorders code (length (out @ ts))" by (intro reorders_step [of code "out @ ts" c post]) auto
  with snoc.IH [of "c # post"] snoc.prems show ?case by simp
qed simp

text \<open>The end of a ternary whose condition is none stays where it is.\<close>

lemma ternary_stays:
  assumes "expr_wf s (Ternary c a b)" and "case c of Ternary _ _ _ \<Rightarrow> False | _ \<Rightarrow> True"
    and "code = pre @ compile s c @ lazy_code JIM_EXPROP_TERNARY (compile s a) @ lazy_code JIM_EXPROP_COLON (compile s b) @ post"
  shows "moves code (length (pre @ compile s c @ lazy_code JIM_EXPROP_TERNARY (compile s a)) + 2 + length (compile s b)) 1 = Some None"
proof -
  let ?A = "compile s a" and ?B = "compile s b" and ?c = "pre @ compile s c"
  let ?j = "[int_code (int (length ?A) + 1), op_code JIM_EXPROP_TERNARY_LEFT]"
  let ?k = "[op_code JIM_EXPROP_TERNARY_RIGHT, int_code (int (length ?B) + 1), op_code JIM_EXPROP_COLON_LEFT]"
  let ?p = "op_code JIM_EXPROP_COLON_RIGHT # post"
  have code: "code = ?c @ ?j @ ?A @ ?k @ ?B @ ?p" unfolding assms(3) by (simp add: lazy_code_def)
  have "moves code (length (?c @ ?j @ ?A @ ?k) + length ?B) 1 = moves code (length (?c @ ?j @ ?A @ ?k)) 1"
    by (rule moves_back [OF back_compile, where post = ?p]) (use assms(1) code in simp_all)
  also have "\<dots> = moves code (length (?c @ ?j @ ?A @ take 2 ?k)) 1"
    by (subst moves_step [of _ "?c @ ?j @ ?A @ take 2 ?k" "op_code JIM_EXPROP_COLON_LEFT" "?B @ ?p"]) (simp_all add: code)
  also have "\<dots> = moves code (length (?c @ ?j @ ?A @ take 1 ?k)) 1"
    by (subst moves_step [of _ "?c @ ?j @ ?A @ take 1 ?k" "int_code (int (length ?B) + 1)" "op_code JIM_EXPROP_COLON_LEFT # ?B @ ?p"]) (simp_all add: code)
  also have "\<dots> = moves code (length (?c @ ?j @ ?A)) 1"
    by (subst moves_step [of _ "?c @ ?j @ ?A" "op_code JIM_EXPROP_TERNARY_RIGHT" "tl ?k @ ?B @ ?p"]) (simp_all add: code)
  also have "\<dots> = moves code (length (?c @ ?j)) 1"
    by (rule moves_back [OF back_compile, where post = "?k @ ?B @ ?p"]) (use assms(1) code in simp_all)
  also have "\<dots> = Some None"
  proof (rule moves_end [where d = "last (compile s c)" and i = "int_code (int (length ?A) + 1)" and out = "pre @ butlast (compile s c)"])
    have "compile s c = butlast (compile s c) @ [last (compile s c)]" by simp
    then show "code = (pre @ butlast (compile s c)) @ [last (compile s c), int_code (int (length ?A) + 1), op_code JIM_EXPROP_TERNARY_LEFT] @ ?A @ ?k @ ?B @ ?p"
      unfolding code by simp
    show "\<not> is_type (last (compile s c)) JIM_EXPROP_COLON_RIGHT" using assms(1,2) last_compile [of s c] by (auto split: expr.splits)
    show "length (?c @ ?j) = length (pre @ butlast (compile s c)) + 3"
      using compile_nonempty [of s c] by (cases "compile s c" rule: rev_cases) (simp_all del: compile_nonempty)
  qed
  finally show ?thesis by (simp add: lazy_code_def)
qed

text \<open>Reordering the code of \<open>d\<close> makes it the code of \<open>e\<close>, wherever it is.\<close>

definition settles :: "byte list \<Rightarrow> expr \<Rightarrow> expr \<Rightarrow> bool" where
  "settles s d e \<longleftrightarrow> length (compile s d) = length (compile s e) \<and> (\<forall>out us. reorders (out @ compile s d @ us) (length (out @ compile s d)) =
     reorders (out @ compile s e @ us) (length out))"

lemma settlesD:
  "settles s d e \<Longrightarrow> reorders (out @ compile s d @ us) (length (out @ compile s d)) = reorders (out @ compile s e @ us) (length out)"
  "settles s d e \<Longrightarrow> length (compile s d) = length (compile s e)"
  unfolding settles_def by blast+

lemma settles_first:
  assumes "\<And>out us. reorders (out @ compile s d @ us) (length (out @ compile s d)) = reorders (out @ compile s e @ us) (length (out @ compile s d))"
    and "length (compile s d) = length (compile s e)" and "settles s e f"
  shows "settles s d f"
  using assms(1,2) settlesD(1) [OF assms(3)] settlesD(2) [OF assms(3)] unfolding settles_def by (metis length_append)

lemma settles_operand: "expr_wf s (Operand t) \<Longrightarrow> settles s (Operand t) (Operand t)"
proof -
  assume "expr_wf s (Operand t)"
  with leaf_code [of s t] have "\<not> is_type (the (expr_operand s t)) JIM_EXPROP_COLON_RIGHT" by auto
  then show ?thesis unfolding settles_def using reorders_plain [of _ _ "[the (expr_operand s t)]"] by simp
qed

lemma settles_prefix:
  assumes "settles s d e" and "x \<notin> ternary_ops"
  shows "settles s (Prefix x d) (Prefix x e)"
  unfolding settles_def
proof (intro conjI allI)
  fix out us
  have "reorders (out @ compile s d @ op_code x # us) (length (out @ compile s d @ [op_code x])) =
      reorders (out @ compile s d @ op_code x # us) (length (out @ compile s d))"
    using reorders_plain [of _ "out @ compile s d" "[op_code x]" us] assms(2) by (simp add: ternary_ops_def)
  also have "\<dots> = reorders (out @ compile s e @ op_code x # us) (length out)" by (rule settlesD(1) [OF assms(1)])
  finally show "reorders (out @ compile s (Prefix x d) @ us) (length (out @ compile s (Prefix x d))) =
      reorders (out @ compile s (Prefix x e) @ us) (length out)" by simp
qed (use settlesD(2) [OF assms(1)] in simp)

lemma settles_strict:
  assumes l: "settles s l l'" and r: "settles s r r'" and x: "x \<notin> ternary_ops" "lazy (Jim_ExprOperators x) \<noteq> LAZY_OP"
  shows "settles s (Binary x l r) (Binary x l' r')"
  unfolding settles_def
proof (intro conjI allI)
  fix out us
  have "reorders (out @ compile s l @ compile s r @ op_code x # us) (length (out @ compile s l @ compile s r @ [op_code x])) =
      reorders ((out @ compile s l) @ compile s r @ op_code x # us) (length ((out @ compile s l) @ compile s r))"
    using reorders_plain [of "out @ compile s l @ compile s r @ op_code x # us" "out @ compile s l @ compile s r" "[op_code x]" us] x(1)
    by (simp add: ternary_ops_def)
  also have "\<dots> = reorders ((out @ compile s l) @ compile s r' @ op_code x # us) (length (out @ compile s l))" by (rule settlesD(1) [OF r])
  also have "\<dots> = reorders (out @ compile s l' @ compile s r' @ op_code x # us) (length out)" using settlesD(1) [OF l] by simp
  finally show "reorders (out @ compile s (Binary x l r) @ us) (length (out @ compile s (Binary x l r))) =
      reorders (out @ compile s (Binary x l' r') @ us) (length out)" using x(2) by simp
qed (use x(2) settlesD(2) [OF l] settlesD(2) [OF r] in simp)

lemma settles_lazy:
  assumes l: "settles s l l'" and r: "settles s r r'" and x: "x \<notin> ternary_ops" "lazy (Jim_ExprOperators x) = LAZY_OP"
  shows "settles s (Binary x l r) (Binary x l' r')"
  unfolding settles_def
proof (intro conjI allI)
  fix out us
  from x have lz: "lazy_left x \<noteq> JIM_EXPROP_COLON_RIGHT" "lazy_right x \<noteq> JIM_EXPROP_COLON_RIGHT" by (auto simp: lazy_op_cases ternary_ops_def)
  let ?j = "[int_code (int (length (compile s r)) + 1), op_code (lazy_left x)]" and ?p = "op_code (lazy_right x) # us"
  have "reorders (out @ compile s l @ ?j @ compile s r @ ?p) (length (out @ compile s l @ ?j @ compile s r @ [op_code (lazy_right x)])) =
      reorders ((out @ compile s l @ ?j) @ compile s r @ ?p) (length ((out @ compile s l @ ?j) @ compile s r))"
    using reorders_plain [of "out @ compile s l @ ?j @ compile s r @ ?p" "out @ compile s l @ ?j @ compile s r" "[op_code (lazy_right x)]" us] lz
    by simp
  also have "\<dots> = reorders ((out @ compile s l @ ?j) @ compile s r' @ ?p) (length (out @ compile s l @ ?j))" by (rule settlesD(1) [OF r])
  also have "\<dots> = reorders (out @ compile s l @ ?j @ compile s r' @ ?p) (length (out @ compile s l))"
    using reorders_plain [of _ "out @ compile s l" ?j "compile s r' @ ?p"] lz by simp
  also have "\<dots> = reorders (out @ compile s l' @ ?j @ compile s r' @ ?p) (length out)" by (rule settlesD(1) [OF l])
  finally show "reorders (out @ compile s (Binary x l r) @ us) (length (out @ compile s (Binary x l r))) =
      reorders (out @ compile s (Binary x l' r') @ us) (length out)" using x(2) settlesD(2) [OF r] by (simp add: lazy_code_def)
qed (use x(2) settlesD(2) [OF l] settlesD(2) [OF r] in \<open>simp add: lazy_code_def\<close>)

lemma settles_ternary:
  assumes wf: "expr_wf s (Ternary c a b)" and plain: "case c of Ternary _ _ _ \<Rightarrow> False | _ \<Rightarrow> True"
    and c: "settles s c c'" and a: "settles s a a'" and b: "settles s b b'"
  shows "settles s (Ternary c a b) (Ternary c' a' b')"
  unfolding settles_def
proof (intro conjI allI)
  fix out us
  let ?C = "compile s c" and ?A = "compile s a" and ?B = "compile s b"
  let ?j = "[int_code (int (length ?A) + 1), op_code JIM_EXPROP_TERNARY_LEFT]"
  let ?k = "[op_code JIM_EXPROP_TERNARY_RIGHT, int_code (int (length ?B) + 1), op_code JIM_EXPROP_COLON_LEFT]"
  let ?p = "op_code JIM_EXPROP_COLON_RIGHT # us"
  let ?code = "out @ ?C @ ?j @ ?A @ ?k @ ?B @ ?p"
  have len: "length (out @ ?C @ ?j @ ?A @ ?k @ ?B) = length (out @ ?C @ lazy_code JIM_EXPROP_TERNARY ?A) + 2 + length ?B"
    by (simp add: lazy_code_def)
  have "moves ?code (length (out @ ?C @ ?j @ ?A @ ?k @ ?B)) 1 = Some None"
    unfolding len by (rule ternary_stays [OF wf plain]) (simp add: lazy_code_def)
  then have "reorders ?code (length (out @ compile s (Ternary c a b))) = reorders ((out @ ?C @ ?j @ ?A @ ?k) @ ?B @ ?p) (length ((out @ ?C @ ?j @ ?A @ ?k) @ ?B))"
    using reorders_step [of ?code "out @ ?C @ ?j @ ?A @ ?k @ ?B" "op_code JIM_EXPROP_COLON_RIGHT" us] by (simp add: lazy_code_def)
  also have "\<dots> = reorders ((out @ ?C @ ?j @ ?A @ ?k) @ compile s b' @ ?p) (length (out @ ?C @ ?j @ ?A @ ?k))" by (rule settlesD(1) [OF b])
  also have "\<dots> = reorders ((out @ ?C @ ?j) @ ?A @ ?k @ compile s b' @ ?p) (length ((out @ ?C @ ?j) @ ?A))"
    using reorders_plain [of _ "out @ ?C @ ?j @ ?A" ?k "compile s b' @ ?p"] by simp
  also have "\<dots> = reorders ((out @ ?C @ ?j) @ compile s a' @ ?k @ compile s b' @ ?p) (length (out @ ?C @ ?j))" by (rule settlesD(1) [OF a])
  also have "\<dots> = reorders (out @ ?C @ ?j @ compile s a' @ ?k @ compile s b' @ ?p) (length (out @ ?C))"
    using reorders_plain [of _ "out @ ?C" ?j "compile s a' @ ?k @ compile s b' @ ?p"] by simp
  also have "\<dots> = reorders (out @ compile s c' @ ?j @ compile s a' @ ?k @ compile s b' @ ?p) (length out)" by (rule settlesD(1) [OF c])
  finally show "reorders (out @ compile s (Ternary c a b) @ us) (length (out @ compile s (Ternary c a b))) =
      reorders (out @ compile s (Ternary c' a' b') @ us) (length out)"
    using settlesD(2) [OF a] settlesD(2) [OF b] by (simp add: lazy_code_def)
qed (use settlesD(2) [OF a] settlesD(2) [OF b] settlesD(2) [OF c] in \<open>simp add: lazy_code_def\<close>)

lemma settles_right: "expr_wf s e \<Longrightarrow> settles s e (right e)"
proof (induction "weight e" arbitrary: e rule: less_induct)
  case less
  show ?case
  proof (cases e)
    case (Operand t)
    with less.prems show ?thesis by (simp add: settles_operand)
  next
    case (Prefix x d)
    moreover from this less.prems have "x \<notin> ternary_ops" by (auto simp: ternary_ops_def)
    ultimately show ?thesis using less.prems less.hyps [of d] by (simp add: settles_prefix)
  next
    case (Binary x l r)
    then have "x \<notin> ternary_ops" using less.prems by (intro not_ternary) simp
    moreover have "settles s l (right l)" "settles s r (right r)" using less.hyps less.prems Binary by simp_all
    ultimately show ?thesis using Binary settles_strict settles_lazy by (cases "lazy (Jim_ExprOperators x) = LAZY_OP") auto
  next
    case (Ternary c a b)
    show ?thesis
    proof (cases "case c of Ternary _ _ _ \<Rightarrow> False | _ \<Rightarrow> True")
      case True
      moreover have "settles s c (right c)" "settles s a (right a)" "settles s b (right b)" using less.hyps less.prems Ternary by simp_all
      ultimately have "settles s e (Ternary (right c) (right a) (right b))" using less.prems Ternary by (simp add: settles_ternary)
      moreover have "graft (right c) (right a) (right b) = Ternary (right c) (right a) (right b)" using True by (cases c) simp_all
      ultimately show ?thesis using Ternary by simp
    next
      case False
      then obtain p q r where c: "c = Ternary p q r" by (cases c) simp_all
      let ?e = "Ternary p q (Ternary r a b)"
      have "settles s ?e (right ?e)" by (rule less.hyps) (use less.prems Ternary c in simp_all)
      moreover have "reorders (out @ compile s e @ us) (length (out @ compile s e)) = reorders (out @ compile s ?e @ us) (length (out @ compile s e))" for out us
        using reorders_rotate [of s p q r a b "length (out @ compile s e)" out us] less.prems Ternary c by simp
      moreover have "length (compile s e) = length (compile s ?e)" using Ternary c by (simp add: lazy_code_def)
      ultimately have "settles s e (right ?e)" by (intro settles_first [of s e ?e])
      then show ?thesis unfolding Ternary c right_ternary .
    qed
  qed
qed

lemma ExprTernaryReorderExpression_right:
  "expr_wf s e \<Longrightarrow> ExprTernaryReorderExpression (compile s e) = Some (compile s (right e))"
  using settlesD(1) [OF settles_right, of s e "[]" "[]"] reorder_loop.simps [of "compile s (right e)" 0]
  by (simp add: ExprTernaryReorderExpression_def reorders_def)

section \<open>The code of an expression\<close>

lemma parsed_le: "parsed n e ts \<Longrightarrow> m \<le> n \<Longrightarrow> parsed m e ts"
  by (induction n e ts arbitrary: m rule: parsed.induct) (auto intro: parsed.intros)

text \<open>A ternary in front of a chain of ternaries.\<close>

lemma parsed_chain:
  assumes "xt_type t = OP JIM_EXPROP_TERNARY" and "xt_type u = OP JIM_EXPROP_COLON" and "parsed 6 c cs" and "parsed 6 a as"
  shows "parsed n b bs \<Longrightarrow> \<exists>d. (\<forall>m \<le> 5. parsed m d (cs @ t # as @ u # bs)) \<and> right d = graft (right c) (right a) (right b)"
proof (induction n b bs rule: parsed.induct)
  case (ternary t' u' n' c' cs' a' as' b' bs')
  then obtain d where d: "parsed 5 d (cs @ t # as @ u # cs')" "right d = graft (right c) (right a) (right c')" by auto
  have "parsed m (Ternary d a' b') ((cs @ t # as @ u # cs') @ t' # as' @ u' # bs')" if "m \<le> 5" for m
    by (rule parsed.ternary) (use ternary d that in auto)
  then show ?case using d(2) by (intro exI [of _ "Ternary d a' b'"]) (simp add: graft_graft)
next
  case (binary t' x n' l ls r rs)
  then have "6 \<le> prec x" by (cases x) simp_all
  then have "parsed 6 (Binary x l r) (ls @ t' # rs)" using binary by (intro parsed.binary)
  then show ?case using assms parsed_le [OF assms(3), of 5] by (intro exI [of _ "Ternary c a (Binary x l r)"]) (auto intro: parsed.ternary)
next
  case (operand t' n')
  then show ?case using assms parsed_le [OF assms(3), of 5] by (intro exI [of _ "Ternary c a (Operand t')"]) (auto intro!: parsed.intros)
next
  case (paren t' e ts u' n')
  then have "parsed 6 e (t' # ts @ [u'])" by (intro parsed.paren)
  then show ?case using assms parsed_le [OF assms(3), of 5] by (intro exI [of _ "Ternary c a e"]) (auto intro: parsed.ternary)
next
  case (prefix t' x e ts n')
  then have "parsed 6 (Prefix x e) (t' # ts)" by (intro parsed.prefix) simp_all
  then show ?case using assms parsed_le [OF assms(3), of 5] by (intro exI [of _ "Ternary c a (Prefix x e)"]) (auto intro: parsed.ternary)
qed

lemma expr_at_parsed: "expr_at n e ts \<Longrightarrow> \<exists>d. parsed n d ts \<and> right d = right e"
proof (induction n e ts rule: expr_at.induct)
  case (ternary t u n c cs a as b bs)
  then obtain c' a' b' where d: "parsed 6 c' cs" "right c' = right c" "parsed 6 a' as" "right a' = right a" "parsed 5 b' bs" "right b' = right b"
    by auto
  from parsed_chain [OF ternary(1,2) d(1,3,5)] d(2,4,6) ternary(3) show ?case by auto
next
  case (paren t e ts u n)
  from paren.IH obtain d where d: "parsed 1 d ts" "right d = right e" by blast
  from parsed.paren [OF paren(1) d(1) paren(3)] d(2) show ?case by blast
next
  case (prefix t x e ts n)
  then obtain d where "parsed 300 d ts" "right d = right e" by auto
  with prefix show ?case by (intro exI [of _ "Prefix x d"]) (simp add: parsed.prefix)
next
  case (binary t x n l ls r rs)
  then obtain d d' where "parsed (prec x) d ls" "right d = right l" "parsed (prec x + 1) d' rs" "right d' = right r" by auto
  with binary show ?case by (intro exI [of _ "Binary x d d'"]) (simp add: parsed.binary)
next
  case (operand t n)
  then show ?case by (intro exI [of _ "Operand t"]) (simp add: parsed.operand)
qed

lemma plain_right: "plain e \<Longrightarrow> right e = e"
proof (induction e)
  case (Ternary c a b)
  then show ?case by (cases c) simp_all
qed simp_all

lemma no_ternary_right: "parsed n e ts \<Longrightarrow> \<not> list_ex (\<lambda>t. xt_type t = OP JIM_EXPROP_TERNARY) ts \<Longrightarrow> right e = e"
  by (induction n e ts rule: parsed.induct) simp_all

lemma operand_inside: "0 \<le> xt_len t \<Longrightarrow> int (xt_token t) + xt_len t \<le> int (length s) \<Longrightarrow> expr_operand s t \<noteq> None"
  by (auto simp: expr_operand_def Let_def bytes_at_def)

lemma parsed_wf: "parsed n e ts \<Longrightarrow> list_all (\<lambda>t. expr_operand s t \<noteq> None) ts \<Longrightarrow> expr_wf s e"
  by (induction n e ts rule: parsed.induct) auto

text \<open>The code of any expression has its ternaries turned to the right.\<close>

lemma ExprCreateByteCode_right:
  assumes "tokens_inside s (ts @ [eol])" and "expr_at 1 e ts"
  shows "ExprCreateByteCode s (ts @ [eol]) = Some (Some (compile s (right e))) \<and> expr_wf s (right e) \<and>
    int (length (compile s (right e))) \<le> expr_alloc (ts @ [eol])"
proof -
  have eol: "xt_type eol = TT JIM_TT_EOL" using assms(1) by (simp add: tokens_inside_def)
  from expr_at_parsed [OF assms(2)] obtain d where d: "parsed 1 d ts" "right d = right e" by blast
  have "list_all (\<lambda>t. expr_operand s t \<noteq> None) ts"
    using assms(1) operand_inside by (fastforce simp: tokens_inside_def tokens_before_def list_all_iff)
  then have wf: "expr_wf s d" by (rule parsed_wf [OF d(1)])
  obtain pend out tt where r: "create_loop s (ts @ [eol]) [] [] (TT JIM_TT_NONE) = create_loop s [eol] (pend @ []) out (TT tt)"
    "waiting 1 pend" "drain_ops pend out = Some (Some ([] @ compile s d))"
    by (rule reads_exprD [OF reads_parsed [OF d(1) wf], of "TT JIM_TT_NONE" "[]" "[]" "[eol]"]) (simp_all add: base_ok_def)
  have "finish_stack pend out = Some (Some (compile s d))" using finish_stack_drain [OF r(2,3), of "[]"] by simp
  then have "ExprCreateByteCode s (ts @ [eol]) = Some (Some (compile s (right d)))"
    using r(1) eol ExprTernaryReorderExpression_right [OF wf] no_ternary_right [OF d(1)] by (auto simp: ExprCreateByteCode_def)
  moreover have "int (length (compile s (right d))) \<le> expr_alloc (ts @ [eol])"
    using compile_length [OF d(1), of s] by (simp add: expr_alloc_def eol)
  ultimately show ?thesis using d(2) wf right_wf [of s d] by simp
qed



end
