(* ===== verification/Jim_Expr_Eval.thy ===== *)
theory Jim_Expr_Eval
  imports Jim_Expr_Compile Jim_String
begin

text \<open>
  The evaluator of the expressions of Jim (\<open>src/test2/jim.c\<close>): the stack machine, the functions of the
  operators and the shortcuts for common expressions; and that it computes what an expression means. What the evaluator calls in
  the interpreter (variables, commands, substitution, the random numbers, the conversion of texts to numbers and to lists), and the
  arithmetic of \<open>double\<close>, are arguments. \<open>None\<close> is undefined: a read below the stack, a write
  above it, an overflow of a signed integer, a shift by its width or more, a \<open>double\<close> outside of the range of the integer that it is converted to.
  A negative integer is shifted left as its bits, which is what compilers do.
\<close>

unbundle bit_operations_syntax

section \<open>Values and what is called\<close>

text \<open>An object is a wide integer, a \<open>double\<close> without a text, or a text.\<close>

datatype 'd jim_obj = Int_Obj int | Double_Obj 'd | String_Obj "byte list"

text \<open>A return code that is not \<open>JIM_OK\<close>, or a value.\<close>

datatype 'a outcome = Failed int | Result 'a

record 'd float_ops =
  f_of_wide :: "int \<Rightarrow> 'd"
  f_to_wide :: "'d \<Rightarrow> int option"
  f_strtod :: "byte list \<Rightarrow> 'd"
  f_add :: "'d \<Rightarrow> 'd \<Rightarrow> 'd"
  f_sub :: "'d \<Rightarrow> 'd \<Rightarrow> 'd"
  f_mul :: "'d \<Rightarrow> 'd \<Rightarrow> 'd"
  f_div :: "'d \<Rightarrow> 'd \<Rightarrow> 'd"
  f_neg :: "'d \<Rightarrow> 'd"
  f_lt :: "'d \<Rightarrow> 'd \<Rightarrow> bool"
  f_eq :: "'d \<Rightarrow> 'd \<Rightarrow> bool"
  f_zero :: 'd
  f_half :: 'd
  f_inf :: 'd

record ('st, 'd) interp =
  floats :: "'d float_ops"
  string_to_wide :: "byte list \<Rightarrow> int option"
  string_to_double :: "byte list \<Rightarrow> 'd option"
  string_of :: "'d jim_obj \<Rightarrow> byte list"
  list_of :: "'d jim_obj \<Rightarrow> 'd jim_obj list"
  get_variable :: "'st \<Rightarrow> byte list \<Rightarrow> 'd jim_obj option"
  expand_dict_sugar :: "byte list \<Rightarrow> 'st \<Rightarrow> 'd jim_obj option \<times> 'st"
  subst_obj :: "byte list \<Rightarrow> 'st \<Rightarrow> 'd jim_obj outcome \<times> 'st"
  eval_obj :: "expr_obj \<Rightarrow> 'st \<Rightarrow> 'd jim_obj outcome \<times> 'st"
  random :: "'st \<Rightarrow> 'd \<times> 'st"
  seed :: "int \<Rightarrow> 'st \<Rightarrow> 'st"

abbreviation jim_err :: "'a outcome" where
  "jim_err \<equiv> Failed 1"

definition Jim_GetWide :: "('st, 'd) interp \<Rightarrow> 'd jim_obj \<Rightarrow> int option" where
  "Jim_GetWide I obj = (case obj of Int_Obj w \<Rightarrow> Some w | Double_Obj d \<Rightarrow> None | String_Obj z \<Rightarrow> string_to_wide I z)"

definition Jim_GetDouble :: "('st, 'd) interp \<Rightarrow> 'd jim_obj \<Rightarrow> 'd option" where
  "Jim_GetDouble I obj = (case obj of Int_Obj w \<Rightarrow> Some (f_of_wide (floats I) w) | Double_Obj d \<Rightarrow> Some d
     | String_Obj z \<Rightarrow> string_to_double I z)"

text \<open>\<open>None\<close> is the result \<open>-1\<close>.\<close>

definition ExprBool :: "('st, 'd) interp \<Rightarrow> 'd jim_obj \<Rightarrow> bool option" where
  "ExprBool I obj = (case Jim_GetWide I obj of Some l \<Rightarrow> Some (l \<noteq> 0)
     | None \<Rightarrow> (case Jim_GetDouble I obj of Some d \<Rightarrow> Some (\<not> f_eq (floats I) d (f_zero (floats I))) | None \<Rightarrow> None))"

definition truth :: "bool \<Rightarrow> int" where
  "truth b = (if b then 1 else 0)"

section \<open>The functions of the operators\<close>

text \<open>The value that a function computes from its operands, or its return code.\<close>

definition num_unary_wide :: "('st, 'd) interp \<Rightarrow> expr_op \<Rightarrow> int \<Rightarrow> 'd jim_obj option" where
  "num_unary_wide I x wA = (if x = JIM_EXPROP_FUNC_INT \<or> x = JIM_EXPROP_FUNC_ROUND \<or> x = JIM_EXPROP_UNARYPLUS then Some (Int_Obj wA)
     else if x = JIM_EXPROP_FUNC_DOUBLE then Some (Double_Obj (f_of_wide (floats I) wA))
     else if x = JIM_EXPROP_FUNC_ABS then map_option Int_Obj (if wA \<ge> 0 then Some wA else c_wide (- wA))
     else if x = JIM_EXPROP_UNARYMINUS then map_option Int_Obj (c_wide (- wA))
     else if x = JIM_EXPROP_NOT then Some (Int_Obj (truth (wA = 0)))
     else None)"

definition num_unary_double :: "('st, 'd) interp \<Rightarrow> expr_op \<Rightarrow> 'd \<Rightarrow> 'd jim_obj option" where
  "num_unary_double I x dA = (let F = floats I in
     if x = JIM_EXPROP_FUNC_INT then map_option Int_Obj (f_to_wide F dA)
     else if x = JIM_EXPROP_FUNC_ROUND then
       map_option Int_Obj (f_to_wide F (if f_lt F dA (f_zero F) then f_sub F dA (f_half F) else f_add F dA (f_half F)))
     else if x = JIM_EXPROP_FUNC_DOUBLE \<or> x = JIM_EXPROP_UNARYPLUS then Some (Double_Obj dA)
     else if x = JIM_EXPROP_FUNC_ABS then
       Some (Double_Obj (if f_lt F (f_zero F) dA \<or> f_eq F dA (f_zero F) then dA else f_neg F dA))
     else if x = JIM_EXPROP_UNARYMINUS then Some (Double_Obj (f_neg F dA))
     else if x = JIM_EXPROP_NOT then Some (Int_Obj (truth (f_eq F dA (f_zero F))))
     else None)"

definition is_double :: "'d jim_obj \<Rightarrow> bool" where
  "is_double obj = (case obj of Double_Obj d \<Rightarrow> True | _ \<Rightarrow> False)"

definition num_unary :: "('st, 'd) interp \<Rightarrow> expr_op \<Rightarrow> 'd jim_obj \<Rightarrow> 'd jim_obj outcome option" where
  "num_unary I x A = (case (if is_double A then None else Jim_GetWide I A) of
       Some wA \<Rightarrow> map_option Result (num_unary_wide I x wA)
     | None \<Rightarrow> (case Jim_GetDouble I A of Some dA \<Rightarrow> map_option Result (num_unary_double I x dA) | None \<Rightarrow> Some jim_err))"

definition int_unary :: "('st, 'd) interp \<Rightarrow> expr_op \<Rightarrow> 'd jim_obj \<Rightarrow> 'st \<Rightarrow> ('d jim_obj outcome \<times> 'st) option" where
  "int_unary I x A st = (case Jim_GetWide I A of None \<Rightarrow> Some (jim_err, st)
     | Some wA \<Rightarrow> if x = JIM_EXPROP_BITNOT then Some (Result (Int_Obj (NOT wA)), st)
         else if x = JIM_EXPROP_FUNC_SRAND then (case random I (seed I wA st) of (d, st) \<Rightarrow> Some (Result (Double_Obj d), st))
         else None)"

text \<open>The remainder and the quotient have the signs that Tcl gives them.\<close>

definition wide_mod :: "int \<Rightarrow> int \<Rightarrow> int option" where
  "wide_mod wA wB = do {
     let negative = wB < 0;
     wB \<leftarrow> (if negative then c_wide (- wB) else Some wB);
     wA \<leftarrow> (if negative then c_wide (- wA) else Some wA);
     let wC = wA smod wB;
     let wC = (if wC < 0 then wC + wB else wC);
     Some (if negative then - wC else wC)
   }"

definition wide_div :: "int \<Rightarrow> int \<Rightarrow> int option" where
  "wide_div wA wB = do {
     let negative = wB < 0;
     wB \<leftarrow> (if negative then c_wide (- wB) else Some wB);
     wA \<leftarrow> (if negative then c_wide (- wA) else Some wA);
     let wC = wA sdiv wB;
     Some (if wA smod wB < 0 then wC - 1 else wC)
   }"

text \<open>A shift of an unsigned integer of 64 bits, and the rotation.\<close>

definition shl64 :: "int \<Rightarrow> int \<Rightarrow> int option" where
  "shl64 a n = (if 0 \<le> n \<and> n < 64 then Some (take_bit 64 (push_bit (nat n) a)) else None)"

definition shr64 :: "int \<Rightarrow> int \<Rightarrow> int option" where
  "shr64 a n = (if 0 \<le> n \<and> n < 64 then Some (drop_bit (nat n) a) else None)"

definition wide_rotate :: "expr_op \<Rightarrow> int \<Rightarrow> int \<Rightarrow> int option" where
  "wide_rotate x wA wB = do {
     let uA = take_bit 64 wA;
     let uB = take_bit 64 wB mod 64;
     let uB = (if x = JIM_EXPROP_ROTR then 64 - uB else uB);
     l \<leftarrow> shl64 uA uB;
     r \<leftarrow> shr64 uA (64 - uB);
     Some (to_int64 (l OR r))
   }"

text \<open>The result and whether the return code is \<open>JIM_OK\<close>; a remainder by zero pushes its result as well.\<close>

definition int_binary :: "expr_op \<Rightarrow> int \<Rightarrow> int \<Rightarrow> (int \<times> bool) option" where
  "int_binary x wA wB =
    (if x = JIM_EXPROP_LSHIFT then (if 0 \<le> wB \<and> wB < 64 then Some (to_int64 (push_bit (nat wB) wA), True) else None)
     else if x = JIM_EXPROP_RSHIFT then (if 0 \<le> wB \<and> wB < 64 then Some (drop_bit (nat wB) wA, True) else None)
     else if x = JIM_EXPROP_BITAND then Some (wA AND wB, True)
     else if x = JIM_EXPROP_BITXOR then Some (wA XOR wB, True)
     else if x = JIM_EXPROP_BITOR then Some (wA OR wB, True)
     else if x = JIM_EXPROP_MOD then (if wB = 0 then Some (0, False) else map_option (\<lambda>w. (w, True)) (wide_mod wA wB))
     else if x = JIM_EXPROP_ROTL \<or> x = JIM_EXPROP_ROTR then map_option (\<lambda>w. (w, True)) (wide_rotate x wA wB)
     else None)"

text \<open>\<open>None\<close> inside: the operator does not compare.\<close>

definition compare_op :: "expr_op \<Rightarrow> bool \<Rightarrow> bool \<Rightarrow> bool option" where
  "compare_op x lt eq =
    (if x = JIM_EXPROP_LT then Some lt else if x = JIM_EXPROP_GT then Some (\<not> lt \<and> \<not> eq)
     else if x = JIM_EXPROP_LTE then Some (lt \<or> eq) else if x = JIM_EXPROP_GTE then Some (\<not> lt)
     else if x = JIM_EXPROP_NUMEQ then Some eq else if x = JIM_EXPROP_NUMNE then Some (\<not> eq) else None)"

definition bin_wide :: "expr_op \<Rightarrow> int \<Rightarrow> int \<Rightarrow> 'd jim_obj outcome option" where
  "bin_wide x wA wB =
    (if x = JIM_EXPROP_POW then map_option (Result \<circ> Int_Obj) (JimPowWide wA wB)
     else if x = JIM_EXPROP_ADD then map_option (Result \<circ> Int_Obj) (c_wide (wA + wB))
     else if x = JIM_EXPROP_SUB then map_option (Result \<circ> Int_Obj) (c_wide (wA - wB))
     else if x = JIM_EXPROP_MUL then map_option (Result \<circ> Int_Obj) (c_wide (wA * wB))
     else if x = JIM_EXPROP_DIV then (if wB = 0 then Some jim_err else map_option (Result \<circ> Int_Obj) (wide_div wA wB))
     else map_option (Result \<circ> Int_Obj \<circ> truth) (compare_op x (wA < wB) (wA = wB)))"

text \<open>Comparisons with a NaN are all false but \<open>!=\<close>.\<close>

definition bin_double :: "('st, 'd) interp \<Rightarrow> expr_op \<Rightarrow> 'd \<Rightarrow> 'd \<Rightarrow> 'd jim_obj outcome option" where
  "bin_double I x dA dB = (let F = floats I; result = (\<lambda>d. Some (Result (Double_Obj d))); cmp = (\<lambda>b. Some (Result (Int_Obj (truth b)))) in
     if x = JIM_EXPROP_POW then Some jim_err
     else if x = JIM_EXPROP_ADD then result (f_add F dA dB)
     else if x = JIM_EXPROP_SUB then result (f_sub F dA dB)
     else if x = JIM_EXPROP_MUL then result (f_mul F dA dB)
     else if x = JIM_EXPROP_DIV then (if f_eq F dB (f_zero F) then result (if f_lt F dA (f_zero F) then f_neg F (f_inf F) else f_inf F)
       else result (f_div F dA dB))
     else if x = JIM_EXPROP_LT then cmp (f_lt F dA dB) else if x = JIM_EXPROP_GT then cmp (f_lt F dB dA)
     else if x = JIM_EXPROP_LTE then cmp (f_lt F dA dB \<or> f_eq F dA dB) else if x = JIM_EXPROP_GTE then cmp (f_lt F dB dA \<or> f_eq F dA dB)
     else if x = JIM_EXPROP_NUMEQ then cmp (f_eq F dA dB) else if x = JIM_EXPROP_NUMNE then cmp (\<not> f_eq F dA dB)
     else None)"

definition bin_string :: "expr_op \<Rightarrow> int \<Rightarrow> 'd jim_obj outcome" where
  "bin_string x i = (case compare_op x (i < 0) (i = 0) of Some b \<Rightarrow> Result (Int_Obj (truth b)) | None \<Rightarrow> jim_err)"

definition bin_value :: "('st, 'd) interp \<Rightarrow> expr_op \<Rightarrow> 'd jim_obj \<Rightarrow> 'd jim_obj \<Rightarrow> 'd jim_obj outcome option" where
  "bin_value I x A B = (case (if is_double A \<or> is_double B then None else
         (case Jim_GetWide I A of None \<Rightarrow> None | Some wA \<Rightarrow> map_option (\<lambda>wB. (wA, wB)) (Jim_GetWide I B))) of
       Some (wA, wB) \<Rightarrow> bin_wide x wA wB
     | None \<Rightarrow> (case Jim_GetDouble I A of
         Some dA \<Rightarrow> (case Jim_GetDouble I B of Some dB \<Rightarrow> bin_double I x dA dB
           | None \<Rightarrow> Some (bin_string x (JimStringCompare (string_of I A) (string_of I B))))
       | None \<Rightarrow> Some (bin_string x (JimStringCompare (string_of I A) (string_of I B)))))"

definition JimSearchList :: "('st, 'd) interp \<Rightarrow> 'd jim_obj \<Rightarrow> 'd jim_obj \<Rightarrow> bool" where
  "JimSearchList I listObj valObj = list_ex (\<lambda>obj. string_of I obj = string_of I valObj) (list_of I listObj)"

definition str_value :: "('st, 'd) interp \<Rightarrow> expr_op \<Rightarrow> 'd jim_obj \<Rightarrow> 'd jim_obj \<Rightarrow> int option" where
  "str_value I x A B =
    (if x = JIM_EXPROP_STREQ then Some (truth (string_of I A = string_of I B))
     else if x = JIM_EXPROP_STRNE then Some (truth (string_of I A \<noteq> string_of I B))
     else if x = JIM_EXPROP_STRIN then Some (truth (JimSearchList I B A))
     else if x = JIM_EXPROP_STRNI then Some (truth (\<not> JimSearchList I B A))
     else None)"

section \<open>The stack\<close>

text \<open>The top of the stack is first; there is room for \<open>cap\<close> objects.\<close>

definition ExprPush :: "nat \<Rightarrow> 'd jim_obj list \<Rightarrow> 'd jim_obj \<Rightarrow> 'd jim_obj list option" where
  "ExprPush cap stack obj = (if length stack < cap then Some (obj # stack) else None)"

definition ExprPop :: "'d jim_obj list \<Rightarrow> ('d jim_obj \<times> 'd jim_obj list) option" where
  "ExprPop stack = (case stack of [] \<Rightarrow> None | obj # stack \<Rightarrow> Some (obj, stack))"

text \<open>What an operator leaves: its return code when that is not \<open>JIM_OK\<close>, the stack, the number of tokens to skip and the interpreter.\<close>

record ('st, 'd) op_state =
  os_rc :: "int option"
  os_stack :: "'d jim_obj list"
  os_skip :: int
  os_st :: 'st

definition push_outcome :: "nat \<Rightarrow> 'd jim_obj list \<Rightarrow> 'd jim_obj outcome \<times> 'st \<Rightarrow> ('st, 'd) op_state option" where
  "push_outcome cap stack r = (case r of
       (Failed rc, st) \<Rightarrow> Some \<lparr>os_rc = Some rc, os_stack = stack, os_skip = 0, os_st = st\<rparr>
     | (Result obj, st) \<Rightarrow> do {
         stack \<leftarrow> ExprPush cap stack obj;
         Some \<lparr>os_rc = None, os_stack = stack, os_skip = 0, os_st = st\<rparr>
       })"

definition JimExprOpNumUnary :: "('st, 'd) interp \<Rightarrow> nat \<Rightarrow> expr_op \<Rightarrow> 'd jim_obj list \<Rightarrow> 'st \<Rightarrow> ('st, 'd) op_state option" where
  "JimExprOpNumUnary I cap x stack st = do {
     (A, stack) \<leftarrow> ExprPop stack;
     r \<leftarrow> num_unary I x A;
     push_outcome cap stack (r, st)
   }"

definition JimExprOpIntUnary :: "('st, 'd) interp \<Rightarrow> nat \<Rightarrow> expr_op \<Rightarrow> 'd jim_obj list \<Rightarrow> 'st \<Rightarrow> ('st, 'd) op_state option" where
  "JimExprOpIntUnary I cap x stack st = do {
     (A, stack) \<leftarrow> ExprPop stack;
     r \<leftarrow> int_unary I x A st;
     push_outcome cap stack r
   }"

definition JimExprOpNone :: "('st, 'd) interp \<Rightarrow> nat \<Rightarrow> expr_op \<Rightarrow> 'd jim_obj list \<Rightarrow> 'st \<Rightarrow> ('st, 'd) op_state option" where
  "JimExprOpNone I cap x stack st = push_outcome cap stack (case random I st of (d, st) \<Rightarrow> (Result (Double_Obj d), st))"

definition JimExprOpIntBin :: "('st, 'd) interp \<Rightarrow> nat \<Rightarrow> expr_op \<Rightarrow> 'd jim_obj list \<Rightarrow> 'st \<Rightarrow> ('st, 'd) op_state option" where
  "JimExprOpIntBin I cap x stack st = do {
     (B, stack) \<leftarrow> ExprPop stack;
     (A, stack) \<leftarrow> ExprPop stack;
     case (Jim_GetWide I A, Jim_GetWide I B) of
       (Some wA, Some wB) \<Rightarrow> do {
         (wC, ok) \<leftarrow> int_binary x wA wB;
         e \<leftarrow> push_outcome cap stack (Result (Int_Obj wC), st);
         Some (if ok then e else e\<lparr>os_rc := Some 1\<rparr>)
       }
     | _ \<Rightarrow> push_outcome cap stack (jim_err, st)
   }"

definition JimExprOpBin :: "('st, 'd) interp \<Rightarrow> nat \<Rightarrow> expr_op \<Rightarrow> 'd jim_obj list \<Rightarrow> 'st \<Rightarrow> ('st, 'd) op_state option" where
  "JimExprOpBin I cap x stack st = do {
     (B, stack) \<leftarrow> ExprPop stack;
     (A, stack) \<leftarrow> ExprPop stack;
     r \<leftarrow> bin_value I x A B;
     push_outcome cap stack (r, st)
   }"

definition JimExprOpStrBin :: "('st, 'd) interp \<Rightarrow> nat \<Rightarrow> expr_op \<Rightarrow> 'd jim_obj list \<Rightarrow> 'st \<Rightarrow> ('st, 'd) op_state option" where
  "JimExprOpStrBin I cap x stack st = do {
     (B, stack) \<leftarrow> ExprPop stack;
     (A, stack) \<leftarrow> ExprPop stack;
     wC \<leftarrow> str_value I x A B;
     push_outcome cap stack (Result (Int_Obj wC), st)
   }"

text \<open>\<open>e->skip = JimWideValue(skip)\<close>, from a \<open>jim_wide\<close> to an \<open>int\<close>.\<close>

definition skip_value :: "'d jim_obj \<Rightarrow> int option" where
  "skip_value obj = (case obj of Int_Obj w \<Rightarrow> Some (to_int32 w) | _ \<Rightarrow> None)"

definition op_done :: "'d jim_obj list \<Rightarrow> int \<Rightarrow> 'st \<Rightarrow> ('st, 'd) op_state option" where
  "op_done stack skip st = Some \<lparr>os_rc = None, os_stack = stack, os_skip = skip, os_st = st\<rparr>"

definition JimExprOpAndLeft :: "('st, 'd) interp \<Rightarrow> nat \<Rightarrow> 'd jim_obj list \<Rightarrow> 'st \<Rightarrow> ('st, 'd) op_state option" where
  "JimExprOpAndLeft I cap stack st = do {
     (skip, stack) \<leftarrow> ExprPop stack;
     (A, stack) \<leftarrow> ExprPop stack;
     case ExprBool I A of
       Some False \<Rightarrow> do {
         n \<leftarrow> skip_value skip;
         stack \<leftarrow> ExprPush cap stack (Int_Obj 0);
         op_done stack n st
       }
     | Some True \<Rightarrow> op_done stack 0 st
     | None \<Rightarrow> push_outcome cap stack (jim_err, st)
   }"

definition JimExprOpOrLeft :: "('st, 'd) interp \<Rightarrow> nat \<Rightarrow> 'd jim_obj list \<Rightarrow> 'st \<Rightarrow> ('st, 'd) op_state option" where
  "JimExprOpOrLeft I cap stack st = do {
     (skip, stack) \<leftarrow> ExprPop stack;
     (A, stack) \<leftarrow> ExprPop stack;
     case ExprBool I A of
       Some False \<Rightarrow> op_done stack 0 st
     | Some True \<Rightarrow> do {
         n \<leftarrow> skip_value skip;
         stack \<leftarrow> ExprPush cap stack (Int_Obj 1);
         op_done stack n st
       }
     | None \<Rightarrow> push_outcome cap stack (jim_err, st)
   }"

definition JimExprOpAndOrRight :: "('st, 'd) interp \<Rightarrow> nat \<Rightarrow> 'd jim_obj list \<Rightarrow> 'st \<Rightarrow> ('st, 'd) op_state option" where
  "JimExprOpAndOrRight I cap stack st = do {
     (A, stack) \<leftarrow> ExprPop stack;
     push_outcome cap stack (case ExprBool I A of Some b \<Rightarrow> Result (Int_Obj (truth b)) | None \<Rightarrow> jim_err, st)
   }"

definition JimExprOpTernaryLeft :: "('st, 'd) interp \<Rightarrow> nat \<Rightarrow> 'd jim_obj list \<Rightarrow> 'st \<Rightarrow> ('st, 'd) op_state option" where
  "JimExprOpTernaryLeft I cap stack st = do {
     (skip, stack) \<leftarrow> ExprPop stack;
     (A, stack) \<leftarrow> ExprPop stack;
     stack \<leftarrow> ExprPush cap stack A;
     case ExprBool I A of
       Some False \<Rightarrow> do {
         n \<leftarrow> skip_value skip;
         stack \<leftarrow> ExprPush cap stack (Int_Obj 0);
         op_done stack n st
       }
     | Some True \<Rightarrow> op_done stack 0 st
     | None \<Rightarrow> push_outcome cap stack (jim_err, st)
   }"

text \<open>A condition that is not a boolean counts as true here.\<close>

definition JimExprOpColonLeft :: "('st, 'd) interp \<Rightarrow> nat \<Rightarrow> 'd jim_obj list \<Rightarrow> 'st \<Rightarrow> ('st, 'd) op_state option" where
  "JimExprOpColonLeft I cap stack st = do {
     (skip, stack) \<leftarrow> ExprPop stack;
     (B, stack) \<leftarrow> ExprPop stack;
     (A, stack) \<leftarrow> ExprPop stack;
     if ExprBool I A \<noteq> Some False then do {
       n \<leftarrow> skip_value skip;
       stack \<leftarrow> ExprPush cap stack B;
       op_done stack n st
     }
     else op_done stack 0 st
   }"

definition JimExprOpNull :: "'d jim_obj list \<Rightarrow> 'st \<Rightarrow> ('st, 'd) op_state option" where
  "JimExprOpNull stack st = op_done stack 0 st"

text \<open>The function of an operator in the table; two entries have none.\<close>

definition funcop :: "('st, 'd) interp \<Rightarrow> nat \<Rightarrow> expr_op \<Rightarrow> 'd jim_obj list \<Rightarrow> 'st \<Rightarrow> ('st, 'd) op_state option" where
  "funcop I cap x stack st = (case x of
       JIM_EXPROP_MUL \<Rightarrow> JimExprOpBin I cap x stack st | JIM_EXPROP_DIV \<Rightarrow> JimExprOpBin I cap x stack st
     | JIM_EXPROP_MOD \<Rightarrow> JimExprOpIntBin I cap x stack st
     | JIM_EXPROP_SUB \<Rightarrow> JimExprOpBin I cap x stack st | JIM_EXPROP_ADD \<Rightarrow> JimExprOpBin I cap x stack st
     | JIM_EXPROP_LSHIFT \<Rightarrow> JimExprOpIntBin I cap x stack st | JIM_EXPROP_RSHIFT \<Rightarrow> JimExprOpIntBin I cap x stack st
     | JIM_EXPROP_ROTL \<Rightarrow> JimExprOpIntBin I cap x stack st | JIM_EXPROP_ROTR \<Rightarrow> JimExprOpIntBin I cap x stack st
     | JIM_EXPROP_LT \<Rightarrow> JimExprOpBin I cap x stack st | JIM_EXPROP_GT \<Rightarrow> JimExprOpBin I cap x stack st
     | JIM_EXPROP_LTE \<Rightarrow> JimExprOpBin I cap x stack st | JIM_EXPROP_GTE \<Rightarrow> JimExprOpBin I cap x stack st
     | JIM_EXPROP_NUMEQ \<Rightarrow> JimExprOpBin I cap x stack st | JIM_EXPROP_NUMNE \<Rightarrow> JimExprOpBin I cap x stack st
     | JIM_EXPROP_BITAND \<Rightarrow> JimExprOpIntBin I cap x stack st | JIM_EXPROP_BITXOR \<Rightarrow> JimExprOpIntBin I cap x stack st
     | JIM_EXPROP_BITOR \<Rightarrow> JimExprOpIntBin I cap x stack st
     | JIM_EXPROP_LOGICAND \<Rightarrow> None | JIM_EXPROP_LOGICAND_LEFT \<Rightarrow> JimExprOpAndLeft I cap stack st
     | JIM_EXPROP_LOGICAND_RIGHT \<Rightarrow> JimExprOpAndOrRight I cap stack st
     | JIM_EXPROP_LOGICOR \<Rightarrow> None | JIM_EXPROP_LOGICOR_LEFT \<Rightarrow> JimExprOpOrLeft I cap stack st
     | JIM_EXPROP_LOGICOR_RIGHT \<Rightarrow> JimExprOpAndOrRight I cap stack st
     | JIM_EXPROP_TERNARY \<Rightarrow> JimExprOpNull stack st | JIM_EXPROP_TERNARY_LEFT \<Rightarrow> JimExprOpTernaryLeft I cap stack st
     | JIM_EXPROP_TERNARY_RIGHT \<Rightarrow> JimExprOpNull stack st
     | JIM_EXPROP_COLON \<Rightarrow> JimExprOpNull stack st | JIM_EXPROP_COLON_LEFT \<Rightarrow> JimExprOpColonLeft I cap stack st
     | JIM_EXPROP_COLON_RIGHT \<Rightarrow> JimExprOpNull stack st
     | JIM_EXPROP_POW \<Rightarrow> JimExprOpBin I cap x stack st
     | JIM_EXPROP_STREQ \<Rightarrow> JimExprOpStrBin I cap x stack st | JIM_EXPROP_STRNE \<Rightarrow> JimExprOpStrBin I cap x stack st
     | JIM_EXPROP_STRIN \<Rightarrow> JimExprOpStrBin I cap x stack st | JIM_EXPROP_STRNI \<Rightarrow> JimExprOpStrBin I cap x stack st
     | JIM_EXPROP_NOT \<Rightarrow> JimExprOpNumUnary I cap x stack st | JIM_EXPROP_BITNOT \<Rightarrow> JimExprOpIntUnary I cap x stack st
     | JIM_EXPROP_UNARYMINUS \<Rightarrow> JimExprOpNumUnary I cap x stack st | JIM_EXPROP_UNARYPLUS \<Rightarrow> JimExprOpNumUnary I cap x stack st
     | JIM_EXPROP_FUNC_INT \<Rightarrow> JimExprOpNumUnary I cap x stack st | JIM_EXPROP_FUNC_ABS \<Rightarrow> JimExprOpNumUnary I cap x stack st
     | JIM_EXPROP_FUNC_DOUBLE \<Rightarrow> JimExprOpNumUnary I cap x stack st | JIM_EXPROP_FUNC_ROUND \<Rightarrow> JimExprOpNumUnary I cap x stack st
     | JIM_EXPROP_FUNC_RAND \<Rightarrow> JimExprOpNone I cap x stack st | JIM_EXPROP_FUNC_SRAND \<Rightarrow> JimExprOpIntUnary I cap x stack st)"

section \<open>The machine\<close>

text \<open>The value of an operand: its token is not an operator.\<close>

definition expr_text :: "expr_obj \<Rightarrow> byte list" where
  "expr_text obj = (case obj of Expr_Str z \<Rightarrow> z | Expr_Source z n \<Rightarrow> z | _ \<Rightarrow> [])"

definition token_obj :: "('st, 'd) interp \<Rightarrow> expr_obj \<Rightarrow> 'd jim_obj" where
  "token_obj I obj = (case obj of Expr_Int n \<Rightarrow> Int_Obj n | Expr_Double z \<Rightarrow> Double_Obj (f_strtod (floats I) z)
     | _ \<Rightarrow> String_Obj (expr_text obj))"

definition or_err :: "'a option \<Rightarrow> 'a outcome" where
  "or_err r = (case r of Some v \<Rightarrow> Result v | None \<Rightarrow> jim_err)"

definition fetch :: "('st, 'd) interp \<Rightarrow> expr_code \<Rightarrow> 'st \<Rightarrow> ('d jim_obj outcome \<times> 'st) option" where
  "fetch I c st = (let t = xc_type c; obj = xc_obj c in
     if t = TT JIM_TT_EXPR_INT \<or> t = TT JIM_TT_EXPR_DOUBLE \<or> t = TT JIM_TT_STR then Some (Result (token_obj I obj), st)
     else if t = TT JIM_TT_VAR then Some (or_err (get_variable I st (expr_text obj)), st)
     else if t = TT JIM_TT_DICTSUGAR then Some (case expand_dict_sugar I (expr_text obj) st of (r, st) \<Rightarrow> (or_err r, st))
     else if t = TT JIM_TT_ESC then Some (subst_obj I (expr_text obj) st)
     else if t = TT JIM_TT_CMD then Some (eval_obj I obj st)
     else None)"

partial_function (option) vm_loop ::
    "('st, 'd) interp \<Rightarrow> expr_code list \<Rightarrow> nat \<Rightarrow> int \<Rightarrow> 'd jim_obj list \<Rightarrow> 'st \<Rightarrow> ('d jim_obj outcome \<times> 'st) option" where
  "vm_loop I code cap i stack st = (if i \<ge> int (length code) then do {
         (v, stack) \<leftarrow> ExprPop stack;
         Some (Result v, st)
       }
     else if i < 0 then None
     else let c = code ! nat i in do {
       e \<leftarrow> (case xc_type c of
           OP x \<Rightarrow> funcop I cap x stack st
         | TT t \<Rightarrow> fetch I c st \<bind> push_outcome cap stack);
       case os_rc e of None \<Rightarrow> vm_loop I code cap (i + os_skip e + 1) (os_stack e) (os_st e) | Some rc \<Rightarrow> Some (Failed rc, os_st e)
     })"

declare vm_loop.simps [code]

text \<open>The room of the stack: \<open>JIM_EE_STATICSTACK_LEN\<close>, or the length of the code.\<close>

definition run_code :: "('st, 'd) interp \<Rightarrow> expr_code list \<Rightarrow> 'st \<Rightarrow> ('d jim_obj outcome \<times> 'st) option" where
  "run_code I code st = vm_loop I code (if length code > 10 then length code else 10) 0 [] st"

text \<open>The shortcuts of \<open>JIM_OPTIMIZATION\<close>: a constant, a variable, its negation and the comparison of two integers.\<close>

definition int_variable :: "('st, 'd) interp \<Rightarrow> 'st \<Rightarrow> expr_code \<Rightarrow> int option" where
  "int_variable I st c = (case get_variable I st (expr_text (xc_obj c)) of Some (Int_Obj w) \<Rightarrow> Some w | _ \<Rightarrow> None)"

definition shortcut :: "('st, 'd) interp \<Rightarrow> expr_code list \<Rightarrow> 'st \<Rightarrow> 'd jim_obj option" where
  "shortcut I code st = (case code of
       [c] \<Rightarrow> if xc_type c = TT JIM_TT_EXPR_INT then Some (token_obj I (xc_obj c))
         else if xc_type c = TT JIM_TT_VAR then get_variable I st (expr_text (xc_obj c)) else None
     | [c, d] \<Rightarrow> if xc_type d = OP JIM_EXPROP_NOT \<and> xc_type c = TT JIM_TT_VAR
         then map_option (\<lambda>w. Int_Obj (truth (w = 0))) (int_variable I st c) else None
     | [c, d, e] \<Rightarrow> if xc_type c = TT JIM_TT_VAR \<and> (xc_type d = TT JIM_TT_EXPR_INT \<or> xc_type d = TT JIM_TT_VAR) then
           (case xc_type e of OP x \<Rightarrow>
              (case int_variable I st c of None \<Rightarrow> None
               | Some wA \<Rightarrow> (case (if xc_type d = TT JIM_TT_VAR then int_variable I st d
                     else case token_obj I (xc_obj d) of Int_Obj w \<Rightarrow> Some w | _ \<Rightarrow> None) of None \<Rightarrow> None
                   | Some wB \<Rightarrow> map_option (Int_Obj \<circ> truth) (compare_op x (wA < wB) (wA = wB))))
            | TT _ \<Rightarrow> None)
         else None
     | _ \<Rightarrow> None)"

definition eval_code :: "('st, 'd) interp \<Rightarrow> expr_code list \<Rightarrow> 'st \<Rightarrow> ('d jim_obj outcome \<times> 'st) option" where
  "eval_code I code st = (case shortcut I code st of Some v \<Rightarrow> Some (Result v, st) | None \<Rightarrow> run_code I code st)"

definition Jim_EvalExpression :: "('st, 'd) interp \<Rightarrow> byte list \<Rightarrow> int \<Rightarrow> 'st \<Rightarrow> ('d jim_obj outcome \<times> 'st) option" where
  "Jim_EvalExpression I s line st = (case SetExprFromAny s line of
       None \<Rightarrow> None | Some None \<Rightarrow> Some (jim_err, st) | Some (Some code) \<Rightarrow> eval_code I code st)"

section \<open>What an expression means\<close>

text \<open>The rest \<open>f\<close> of an evaluation after a part that may fail.\<close>

definition and_value :: "('d jim_obj outcome \<times> 'st) option \<Rightarrow> ('d jim_obj \<Rightarrow> 'st \<Rightarrow> ('d jim_obj outcome \<times> 'st) option) \<Rightarrow>
    ('d jim_obj outcome \<times> 'st) option" where
  "and_value r f = (case r of None \<Rightarrow> None | Some (Failed rc, st) \<Rightarrow> Some (Failed rc, st) | Some (Result v, st) \<Rightarrow> f v st)"

lemma and_value_simps [simp]:
  "and_value None f = None" "and_value (Some (Failed rc, st)) f = Some (Failed rc, st)" "and_value (Some (Result v, st)) f = f v st"
  by (simp_all add: and_value_def)

lemma and_value_assoc: "and_value (and_value r f) g = and_value r (\<lambda>v st. and_value (f v st) g)"
  by (auto simp: and_value_def split: option.splits outcome.splits)

lemma and_value_cong: "(\<And>v st. r = Some (Result v, st) \<Longrightarrow> f v st = g v st) \<Longrightarrow> and_value r f = and_value r g"
  by (auto simp: and_value_def split: option.splits outcome.splits)

definition apply_unary :: "('st, 'd) interp \<Rightarrow> expr_op \<Rightarrow> 'd jim_obj \<Rightarrow> 'st \<Rightarrow> ('d jim_obj outcome \<times> 'st) option" where
  "apply_unary I x A st = (if x = JIM_EXPROP_BITNOT \<or> x = JIM_EXPROP_FUNC_SRAND then int_unary I x A st
     else map_option (\<lambda>r. (r, st)) (num_unary I x A))"

definition int_ops :: "expr_op list" where
  "int_ops = [JIM_EXPROP_MOD, JIM_EXPROP_LSHIFT, JIM_EXPROP_RSHIFT, JIM_EXPROP_ROTL, JIM_EXPROP_ROTR, JIM_EXPROP_BITAND,
     JIM_EXPROP_BITXOR, JIM_EXPROP_BITOR]"

definition string_ops :: "expr_op list" where
  "string_ops = [JIM_EXPROP_STREQ, JIM_EXPROP_STRNE, JIM_EXPROP_STRIN, JIM_EXPROP_STRNI]"

definition apply_binary :: "('st, 'd) interp \<Rightarrow> expr_op \<Rightarrow> 'd jim_obj \<Rightarrow> 'd jim_obj \<Rightarrow> 'st \<Rightarrow> ('d jim_obj outcome \<times> 'st) option" where
  "apply_binary I x A B st = map_option (\<lambda>r. (r, st))
     (if x \<in> set int_ops then (case (Jim_GetWide I A, Jim_GetWide I B) of
          (Some wA, Some wB) \<Rightarrow> map_option (\<lambda>(wC, ok). if ok then Result (Int_Obj wC) else jim_err) (int_binary x wA wB)
        | _ \<Rightarrow> Some jim_err)
      else if x \<in> set string_ops then map_option (Result \<circ> Int_Obj) (str_value I x A B)
      else bin_value I x A B)"

definition truth_of :: "('st, 'd) interp \<Rightarrow> 'd jim_obj \<Rightarrow> 'd jim_obj outcome" where
  "truth_of I B = (case ExprBool I B of Some b \<Rightarrow> Result (Int_Obj (truth b)) | None \<Rightarrow> jim_err)"

fun eval :: "('st, 'd) interp \<Rightarrow> byte list \<Rightarrow> expr \<Rightarrow> 'st \<Rightarrow> ('d jim_obj outcome \<times> 'st) option" where
  "eval I s (Operand t) st = fetch I (the (expr_operand s t)) st"
| "eval I s (Prefix x e) st = and_value (eval I s e st) (apply_unary I x)"
| "eval I s (Binary x l r) st = and_value (eval I s l st) (\<lambda>A st.
     if x = JIM_EXPROP_LOGICAND then (case ExprBool I A of None \<Rightarrow> Some (jim_err, st) | Some False \<Rightarrow> Some (Result (Int_Obj 0), st)
       | Some True \<Rightarrow> and_value (eval I s r st) (\<lambda>B st. Some (truth_of I B, st)))
     else if x = JIM_EXPROP_LOGICOR then (case ExprBool I A of None \<Rightarrow> Some (jim_err, st) | Some True \<Rightarrow> Some (Result (Int_Obj 1), st)
       | Some False \<Rightarrow> and_value (eval I s r st) (\<lambda>B st. Some (truth_of I B, st)))
     else and_value (eval I s r st) (apply_binary I x A))"
| "eval I s (Ternary c a b) st = and_value (eval I s c st) (\<lambda>v st.
     case ExprBool I v of None \<Rightarrow> Some (jim_err, st) | Some True \<Rightarrow> eval I s a st | Some False \<Rightarrow> eval I s b st)"

section \<open>The machine computes the meaning\<close>

lemma push_ok [simp]: "length stack < cap \<Longrightarrow> ExprPush cap stack v = Some (v # stack)"
  by (simp add: ExprPush_def)

lemma pop_simps [simp]: "ExprPop (v # stack) = Some (v, stack)" "ExprPop [] = None"
  by (simp_all add: ExprPop_def)

text \<open>The machine goes on at \<open>j\<close> after an operation.\<close>

definition continue :: "('st, 'd) interp \<Rightarrow> expr_code list \<Rightarrow> nat \<Rightarrow> int \<Rightarrow> ('st, 'd) op_state option \<Rightarrow> ('d jim_obj outcome \<times> 'st) option" where
  "continue I code cap i r = (case r of None \<Rightarrow> None | Some e \<Rightarrow>
     (case os_rc e of None \<Rightarrow> vm_loop I code cap (i + os_skip e + 1) (os_stack e) (os_st e) | Some rc \<Rightarrow> Some (Failed rc, os_st e)))"

lemma vm_op: "code = pre @ op_code x # post \<Longrightarrow> i = int (length pre) \<Longrightarrow>
    vm_loop I code cap i stack st = continue I code cap i (funcop I cap x stack st)"
  by (subst vm_loop.simps) (auto simp: nth_append continue_def split: option.splits)

lemma continue_push:
  "length stack < cap \<Longrightarrow> continue I code cap i (r \<bind> push_outcome cap stack) = and_value r (\<lambda>v st. vm_loop I code cap (i + 1) (v # stack) st)"
  by (auto simp: continue_def push_outcome_def and_value_def split: option.splits outcome.splits bind_splits)

lemma continue_done [simp]: "continue I code cap i (op_done stack n st) = vm_loop I code cap (i + n + 1) stack st"
  by (simp add: continue_def op_done_def)

lemma vm_operand:
  assumes "code = pre @ c # post" and "xc_type c = TT t" and "i = int (length pre)" and "length stack < cap"
  shows "vm_loop I code cap i stack st = and_value (fetch I c st) (\<lambda>v st. vm_loop I code cap (i + 1) (v # stack) st)"
proof -
  have "vm_loop I code cap i stack st = continue I code cap i (fetch I c st \<bind> push_outcome cap stack)"
    using assms(1-3) by (subst vm_loop.simps) (auto simp: nth_append continue_def split: option.splits bind_splits)
  then show ?thesis by (simp add: continue_push [OF assms(4)])
qed

lemma fetch_int [simp]: "fetch I (int_code n) st = Some (Result (Int_Obj n), st)"
  by (simp add: fetch_def int_code_def token_obj_def)

lemma funcop_unary:
  assumes "arity (Jim_ExprOperators x) = 1"
  shows "funcop I cap x (A # stack) st = apply_unary I x A st \<bind> push_outcome cap stack"
  using assms by (cases x) (auto simp: funcop_def JimExprOpNumUnary_def JimExprOpIntUnary_def apply_unary_def split: option.splits bind_splits)

lemma funcop_kind:
  assumes "arity (Jim_ExprOperators x) = 2" and "xname (Jim_ExprOperators x) \<noteq> None" and "prec x \<noteq> 5"
    and "x \<noteq> JIM_EXPROP_LOGICAND" and "x \<noteq> JIM_EXPROP_LOGICOR"
  shows "funcop I cap x stack st = (if x \<in> set int_ops then JimExprOpIntBin I cap x stack st
    else if x \<in> set string_ops then JimExprOpStrBin I cap x stack st else JimExprOpBin I cap x stack st)"
  using assms by (cases x) (simp_all add: funcop_def int_ops_def string_ops_def)

lemma funcop_binary:
  assumes "arity (Jim_ExprOperators x) = 2" and "xname (Jim_ExprOperators x) \<noteq> None" and "prec x \<noteq> 5"
    and "x \<noteq> JIM_EXPROP_LOGICAND" and "x \<noteq> JIM_EXPROP_LOGICOR" and "length stack < cap"
  shows "continue I code cap i (funcop I cap x (B # A # stack) st) =
    and_value (apply_binary I x A B st) (\<lambda>v st. vm_loop I code cap (i + 1) (v # stack) st)"
proof -
  have int: "continue I code cap i (JimExprOpIntBin I cap x (B # A # stack) st) =
    and_value (map_option (\<lambda>r. (r, st)) (case (Jim_GetWide I A, Jim_GetWide I B) of
          (Some wA, Some wB) \<Rightarrow> map_option (\<lambda>(wC, ok). if ok then Result (Int_Obj wC) else jim_err) (int_binary x wA wB)
        | _ \<Rightarrow> Some jim_err)) (\<lambda>v st. vm_loop I code cap (i + 1) (v # stack) st)"
    using assms(6)
    by (auto simp: JimExprOpIntBin_def continue_def push_outcome_def and_value_def split: option.splits bind_splits)
  have bin: "continue I code cap i (JimExprOpBin I cap x (B # A # stack) st) =
    and_value (map_option (\<lambda>r. (r, st)) (bin_value I x A B)) (\<lambda>v st. vm_loop I code cap (i + 1) (v # stack) st)"
    using continue_push [OF assms(6), of I code i "map_option (\<lambda>r. (r, st)) (bin_value I x A B)"]
    by (cases "bin_value I x A B") (simp_all add: JimExprOpBin_def)
  have str: "continue I code cap i (JimExprOpStrBin I cap x (B # A # stack) st) =
    and_value (map_option (\<lambda>r. (r, st)) (map_option (Result \<circ> Int_Obj) (str_value I x A B))) (\<lambda>v st. vm_loop I code cap (i + 1) (v # stack) st)"
    using continue_push [OF assms(6), of I code i "map_option (\<lambda>r. (r, st)) (map_option (Result \<circ> Int_Obj) (str_value I x A B))"]
    by (cases "str_value I x A B") (simp_all add: JimExprOpStrBin_def)
  show ?thesis unfolding funcop_kind [OF assms(1-5)] apply_binary_def using int bin str by simp
qed

lemma bool_option_cases: "(\<And>b. r = Some b \<Longrightarrow> b \<Longrightarrow> P) \<Longrightarrow> (\<And>b. r = Some b \<Longrightarrow> \<not> b \<Longrightarrow> P) \<Longrightarrow> (r = None \<Longrightarrow> P) \<Longrightarrow> P"
  by (cases r) auto

text \<open>The left half of a lazy operator, at the jump before it.\<close>

lemma vm_jump:
  assumes "code = pre @ int_code n # op_code x # post" and "i = int (length pre)" and "Suc (length stack) < cap"
  shows "vm_loop I code cap i (A # stack) st = continue I code cap (i + 1) (funcop I cap x (Int_Obj n # A # stack) st)"
  using vm_operand [OF assms(1) _ assms(2), of "JIM_TT_EXPR_INT" "A # stack" cap I st] assms(3)
    vm_op [of code "pre @ [int_code n]" x post "i + 1" I cap "Int_Obj n # A # stack" st] assms(1,2) by simp

text \<open>Where an operation of the machine goes on after a lazy operator.\<close>

lemma and_left:
  assumes "0 \<le> n" and "n < 2 ^ 31" and "length stack < cap"
  shows "continue I code cap i (funcop I cap JIM_EXPROP_LOGICAND_LEFT (Int_Obj n # A # stack) st) = (case ExprBool I A of
    None \<Rightarrow> Some (jim_err, st) | Some False \<Rightarrow> vm_loop I code cap (i + n + 1) (Int_Obj 0 # stack) st
    | Some True \<Rightarrow> vm_loop I code cap (i + 1) stack st)"
  using assms by (cases "ExprBool I A" rule: bool_option_cases)
    (simp_all add: funcop_def JimExprOpAndLeft_def skip_value_def to_int32_id push_outcome_def continue_def op_done_def)

lemma or_left:
  assumes "0 \<le> n" and "n < 2 ^ 31" and "length stack < cap"
  shows "continue I code cap i (funcop I cap JIM_EXPROP_LOGICOR_LEFT (Int_Obj n # A # stack) st) = (case ExprBool I A of
    None \<Rightarrow> Some (jim_err, st) | Some True \<Rightarrow> vm_loop I code cap (i + n + 1) (Int_Obj 1 # stack) st
    | Some False \<Rightarrow> vm_loop I code cap (i + 1) stack st)"
  using assms by (cases "ExprBool I A" rule: bool_option_cases)
    (simp_all add: funcop_def JimExprOpOrLeft_def skip_value_def to_int32_id push_outcome_def continue_def op_done_def)

lemma and_or_right:
  assumes "x \<in> {JIM_EXPROP_LOGICAND_RIGHT, JIM_EXPROP_LOGICOR_RIGHT}" and "length stack < cap"
  shows "continue I code cap i (funcop I cap x (B # stack) st) =
    and_value (Some (truth_of I B, st)) (\<lambda>v st. vm_loop I code cap (i + 1) (v # stack) st)"
  using assms by (cases "ExprBool I B")
    (auto simp: funcop_def JimExprOpAndOrRight_def truth_of_def push_outcome_def continue_def)

lemma ternary_left:
  assumes "0 \<le> n" and "n < 2 ^ 31" and "Suc (length stack) < cap"
  shows "continue I code cap i (funcop I cap JIM_EXPROP_TERNARY_LEFT (Int_Obj n # A # stack) st) = (case ExprBool I A of
    None \<Rightarrow> Some (jim_err, st) | Some False \<Rightarrow> vm_loop I code cap (i + n + 1) (Int_Obj 0 # A # stack) st
    | Some True \<Rightarrow> vm_loop I code cap (i + 1) (A # stack) st)"
  using assms by (cases "ExprBool I A" rule: bool_option_cases)
    (simp_all add: funcop_def JimExprOpTernaryLeft_def skip_value_def to_int32_id push_outcome_def continue_def op_done_def)

lemma colon_left:
  assumes "0 \<le> n" and "n < 2 ^ 31" and "length stack < cap" and "ExprBool I A = Some b"
  shows "continue I code cap i (funcop I cap JIM_EXPROP_COLON_LEFT (Int_Obj n # B # A # stack) st) =
    (if b then vm_loop I code cap (i + n + 1) (B # stack) st else vm_loop I code cap (i + 1) stack st)"
  using assms by (simp add: funcop_def JimExprOpColonLeft_def skip_value_def to_int32_id)

lemma null_op:
  assumes "x \<in> {JIM_EXPROP_TERNARY_RIGHT, JIM_EXPROP_COLON_RIGHT}"
  shows "continue I code cap i (funcop I cap x stack st) = vm_loop I code cap (i + 1) stack st"
  using assms by (auto simp: funcop_def JimExprOpNull_def)

text \<open>What the code of an expression does from its first token on, with a stack that is not higher than the code before it.\<close>

definition computes :: "('st, 'd) interp \<Rightarrow> byte list \<Rightarrow> expr \<Rightarrow> bool" where
  "computes I s e \<longleftrightarrow> (\<forall>code pre post cap stack st. code = pre @ compile s e @ post \<longrightarrow> length stack \<le> length pre \<longrightarrow> length code \<le> cap \<longrightarrow>
     length code < 2 ^ 31 \<longrightarrow> vm_loop I code cap (int (length pre)) stack st =
       and_value (eval I s e st) (\<lambda>v st. vm_loop I code cap (int (length pre + length (compile s e))) (v # stack) st))"

lemma computesD:
  "computes I s e \<Longrightarrow> code = pre @ compile s e @ post \<Longrightarrow> length stack \<le> length pre \<Longrightarrow> length code \<le> cap \<Longrightarrow> length code < 2 ^ 31 \<Longrightarrow>
    i = int (length pre) \<Longrightarrow> j = int (length pre + length (compile s e)) \<Longrightarrow>
    vm_loop I code cap i stack st = and_value (eval I s e st) (\<lambda>v st. vm_loop I code cap j (v # stack) st)"
  by (simp add: computes_def)

lemma length_compile_pos: "1 \<le> length (compile s e)"
  using compile_nonempty [of s e] by (cases "compile s e") (simp_all del: compile_nonempty)

lemma computes_prefix:
  fixes I :: "('st, 'd) interp"
  assumes "computes I s e" and "arity (Jim_ExprOperators x) = 1"
  shows "computes I s (Prefix x e)"
  unfolding computes_def
proof (intro allI impI)
  fix code pre post cap and stack :: "'d jim_obj list" and st :: 'st
  assume c: "code = pre @ compile s (Prefix x e) @ post" and len: "length stack \<le> length pre" "length code \<le> cap" "length code < 2 ^ 31"
  have "vm_loop I code cap (int (length pre)) stack st = and_value (eval I s e st) (\<lambda>v st. vm_loop I code cap (int (length (pre @ compile s e))) (v # stack) st)"
    by (rule computesD [OF assms(1) _ len(1) len(2) len(3)]) (use c in simp_all)
  also have "\<dots> = and_value (eval I s e st) (\<lambda>v st. and_value (apply_unary I x v st)
      (\<lambda>v st. vm_loop I code cap (int (length (pre @ compile s e)) + 1) (v # stack) st))"
  proof (rule and_value_cong)
    fix v st
    have "length stack < cap" using c len length_compile_pos [of s e] by simp
    then show "vm_loop I code cap (int (length (pre @ compile s e))) (v # stack) st =
        and_value (apply_unary I x v st) (\<lambda>v st. vm_loop I code cap (int (length (pre @ compile s e)) + 1) (v # stack) st)"
      using vm_op [of code "pre @ compile s e" x post _ I cap "v # stack" st] c funcop_unary [OF assms(2), of I cap v stack st]
      by (simp add: continue_push)
  qed
  finally show "vm_loop I code cap (int (length pre)) stack st =
      and_value (eval I s (Prefix x e) st) (\<lambda>v st. vm_loop I code cap (int (length pre + length (compile s (Prefix x e)))) (v # stack) st)"
    by (simp add: and_value_assoc algebra_simps)
qed

lemma computes_strict:
  fixes I :: "('st, 'd) interp"
  assumes l: "computes I s l" and r: "computes I s r"
    and x: "arity (Jim_ExprOperators x) = 2" "xname (Jim_ExprOperators x) \<noteq> None" "prec x \<noteq> 5" "x \<noteq> JIM_EXPROP_LOGICAND" "x \<noteq> JIM_EXPROP_LOGICOR"
  shows "computes I s (Binary x l r)"
  unfolding computes_def
proof (intro allI impI)
  fix code pre post cap and stack :: "'d jim_obj list" and st :: 'st
  assume c: "code = pre @ compile s (Binary x l r) @ post" and len: "length stack \<le> length pre" "length code \<le> cap" "length code < 2 ^ 31"
  have "\<not> lazy (Jim_ExprOperators x) = LAZY_OP" using x(3-5) by (auto simp: lazy_op_cases)
  then have code: "code = pre @ compile s l @ compile s r @ op_code x # post" using c by simp
  let ?p = "pre @ compile s l" and ?q = "pre @ compile s l @ compile s r"
  have "vm_loop I code cap (int (length pre)) stack st = and_value (eval I s l st) (\<lambda>A st. vm_loop I code cap (int (length ?p)) (A # stack) st)"
    by (rule computesD [OF l _ len(1) len(2) len(3)]) (use code in simp_all)
  also have "\<dots> = and_value (eval I s l st) (\<lambda>A st. and_value (eval I s r st) (\<lambda>B st.
      and_value (apply_binary I x A B st) (\<lambda>v st. vm_loop I code cap (int (length ?q) + 1) (v # stack) st)))"
  proof (intro and_value_cong)
    fix A st
    have "vm_loop I code cap (int (length ?p)) (A # stack) st = and_value (eval I s r st) (\<lambda>B st. vm_loop I code cap (int (length ?q)) (B # A # stack) st)"
      by (rule computesD [OF r _ _ len(2) len(3), where pre = ?p]) (use code len length_compile_pos [of s l] in simp_all)
    also have "\<dots> = and_value (eval I s r st) (\<lambda>B st. and_value (apply_binary I x A B st) (\<lambda>v st. vm_loop I code cap (int (length ?q) + 1) (v # stack) st))"
    proof (rule and_value_cong)
      fix B st
      have "length stack < cap" using code len by simp
      from funcop_binary [OF x this] show "vm_loop I code cap (int (length ?q)) (B # A # stack) st =
          and_value (apply_binary I x A B st) (\<lambda>v st. vm_loop I code cap (int (length ?q) + 1) (v # stack) st)"
        using vm_op [of code ?q x post _ I cap "B # A # stack" st] code by simp
    qed
    finally show "vm_loop I code cap (int (length ?p)) (A # stack) st = and_value (eval I s r st) (\<lambda>B st.
        and_value (apply_binary I x A B st) (\<lambda>v st. vm_loop I code cap (int (length ?q) + 1) (v # stack) st))" .
  qed
  finally show "vm_loop I code cap (int (length pre)) stack st =
      and_value (eval I s (Binary x l r) st) (\<lambda>v st. vm_loop I code cap (int (length pre + length (compile s (Binary x l r)))) (v # stack) st)"
    using x(3-5) \<open>\<not> lazy (Jim_ExprOperators x) = LAZY_OP\<close> by (simp add: and_value_assoc algebra_simps)
qed

text \<open>The right operand of \<open>&&\<close> and \<open>||\<close>, from the left half of the operator on.\<close>

definition lazy_rest :: "('st, 'd) interp \<Rightarrow> byte list \<Rightarrow> expr \<Rightarrow> 'st \<Rightarrow> ('d jim_obj outcome \<times> 'st) option" where
  "lazy_rest I s r st = and_value (eval I s r st) (\<lambda>B st. Some (truth_of I B, st))"

lemma lazy_right_half:
  fixes I :: "('st, 'd) interp"
  assumes r: "computes I s r" and x: "x \<in> {JIM_EXPROP_LOGICAND, JIM_EXPROP_LOGICOR}"
    and code: "code = pre @ compile s r @ op_code (lazy_right x) # post" and len: "length stack \<le> length pre" "length code \<le> cap" "length code < 2 ^ 31"
    and i: "i = int (length pre)" and j: "j = int (length (pre @ compile s r)) + 1"
  shows "vm_loop I code cap i stack st = and_value (lazy_rest I s r st) (\<lambda>v st. vm_loop I code cap j (v # stack) st)"
proof -
  have "vm_loop I code cap i stack st = and_value (eval I s r st) (\<lambda>B st. vm_loop I code cap (int (length (pre @ compile s r))) (B # stack) st)"
    by (rule computesD [OF r _ len(1) len(2) len(3)]) (use code i in simp_all)
  also have "\<dots> = and_value (eval I s r st) (\<lambda>B st. and_value (Some (truth_of I B, st)) (\<lambda>v st. vm_loop I code cap j (v # stack) st))"
  proof (rule and_value_cong)
    fix B st
    have "length stack < cap" using code len by simp
    moreover have "lazy_right x \<in> {JIM_EXPROP_LOGICAND_RIGHT, JIM_EXPROP_LOGICOR_RIGHT}" using x by auto
    ultimately show "vm_loop I code cap (int (length (pre @ compile s r))) (B # stack) st =
        and_value (Some (truth_of I B, st)) (\<lambda>v st. vm_loop I code cap j (v # stack) st)"
      using vm_op [of code "pre @ compile s r" "lazy_right x" post _ I cap "B # stack" st] and_or_right [of "lazy_right x" stack cap I code _ B st] code j
      by simp
  qed
  finally show ?thesis by (simp add: lazy_rest_def and_value_assoc)
qed

lemma computes_lazy:
  fixes I :: "('st, 'd) interp"
  assumes l: "computes I s l" and r: "computes I s r" and x: "x \<in> {JIM_EXPROP_LOGICAND, JIM_EXPROP_LOGICOR}"
  shows "computes I s (Binary x l r)"
  unfolding computes_def
proof (intro allI impI)
  fix code pre post cap and stack :: "'d jim_obj list" and st :: 'st
  assume c: "code = pre @ compile s (Binary x l r) @ post" and len: "length stack \<le> length pre" "length code \<le> cap" "length code < 2 ^ 31"
  let ?n = "int (length (compile s r)) + 1"
  let ?p = "pre @ compile s l"
  let ?e = "int (length ?p) + ?n + 2"
  have code: "code = ?p @ int_code ?n # op_code (lazy_left x) # compile s r @ op_code (lazy_right x) # post"
    using c x by (auto simp: lazy_code_def)
  have n: "0 \<le> ?n" "?n < 2 ^ 31" "Suc (length stack) < cap" "length stack < cap" using code len by auto
  have jump: "vm_loop I code cap (int (length ?p)) (A # stack) st =
      continue I code cap (int (length ?p) + 1) (funcop I cap (lazy_left x) (Int_Obj ?n # A # stack) st)" for A st
    by (rule vm_jump [OF code refl n(3)])
  have rest: "vm_loop I code cap (int (length ?p) + 2) stack st = and_value (lazy_rest I s r st) (\<lambda>v st. vm_loop I code cap ?e (v # stack) st)" for st
    by (rule lazy_right_half [OF r x, where pre = "?p @ [int_code ?n, op_code (lazy_left x)]"]) (use code len in simp_all)
  have "vm_loop I code cap (int (length pre)) stack st = and_value (eval I s l st) (\<lambda>A st. vm_loop I code cap (int (length ?p)) (A # stack) st)"
    by (rule computesD [OF l _ len(1) len(2) len(3)]) (use code in simp_all)
  also have "\<dots> = and_value (eval I s (Binary x l r) st) (\<lambda>v st. vm_loop I code cap ?e (v # stack) st)"
    unfolding eval.simps and_value_assoc
  proof (rule and_value_cong)
    fix A st
    show "vm_loop I code cap (int (length ?p)) (A # stack) st = and_value (if x = JIM_EXPROP_LOGICAND then (case ExprBool I A of None \<Rightarrow> Some (jim_err, st)
         | Some False \<Rightarrow> Some (Result (Int_Obj 0), st) | Some True \<Rightarrow> and_value (eval I s r st) (\<lambda>B st. Some (truth_of I B, st)))
       else if x = JIM_EXPROP_LOGICOR then (case ExprBool I A of None \<Rightarrow> Some (jim_err, st) | Some True \<Rightarrow> Some (Result (Int_Obj 1), st)
         | Some False \<Rightarrow> and_value (eval I s r st) (\<lambda>B st. Some (truth_of I B, st)))
       else and_value (eval I s r st) (apply_binary I x A)) (\<lambda>v st. vm_loop I code cap ?e (v # stack) st)"
      unfolding jump using x and_left [OF n(1,2,4), of I code _ A st] or_left [OF n(1,2,4), of I code _ A st] rest [of st, unfolded lazy_rest_def]
      by (cases "ExprBool I A" rule: bool_option_cases) (auto simp: algebra_simps)
  qed
  finally show "vm_loop I code cap (int (length pre)) stack st =
      and_value (eval I s (Binary x l r) st) (\<lambda>v st. vm_loop I code cap (int (length pre + length (compile s (Binary x l r)))) (v # stack) st)"
    using x by (auto simp: lazy_code_def algebra_simps)
qed

text \<open>The code behind the left half of a ternary, for both values of the condition.\<close>

lemma ternary_branches:
  fixes I :: "('st, 'd) interp"
  assumes a: "computes I s a" and b: "computes I s b"
    and code: "code = pre @ compile s a @ [op_code JIM_EXPROP_TERNARY_RIGHT, int_code n, op_code JIM_EXPROP_COLON_LEFT] @ compile s b @
      op_code JIM_EXPROP_COLON_RIGHT # post"
    and n: "n = int (length (compile s b)) + 1" and len: "Suc (length stack) \<le> length pre" "length code \<le> cap" "length code < 2 ^ 31"
    and k: "k = int (length (pre @ compile s a)) + 1" and j: "j = k + n + 2" and v: "ExprBool I v = Some t"
  shows "t \<Longrightarrow> vm_loop I code cap (int (length pre)) (v # stack) st = and_value (eval I s a st) (\<lambda>w st. vm_loop I code cap j (w # stack) st)"
    and "\<not> t \<Longrightarrow> vm_loop I code cap k (u # v # stack) st = and_value (eval I s b st) (\<lambda>w st. vm_loop I code cap j (w # stack) st)"
proof -
  let ?q = "pre @ compile s a @ [op_code JIM_EXPROP_TERNARY_RIGHT]"
  have n': "0 \<le> n" "n < 2 ^ 31" "length stack < cap" "Suc (length (v # stack)) < cap" using code len n by auto
  have colon: "vm_loop I code cap k (w # v # stack) st =
      (if t then vm_loop I code cap j (w # stack) st else vm_loop I code cap (k + 2) stack st)" for w st
    using vm_jump [of code ?q n JIM_EXPROP_COLON_LEFT "compile s b @ op_code JIM_EXPROP_COLON_RIGHT # post" k "v # stack" cap I w st]
      colon_left [OF n'(1-3) v, of code "k + 1" w st] code k j n'(4) by (simp add: algebra_simps)
  {
    assume t
    have "vm_loop I code cap (int (length pre)) (v # stack) st =
        and_value (eval I s a st) (\<lambda>w st. vm_loop I code cap (int (length (pre @ compile s a))) (w # v # stack) st)"
      by (rule computesD [OF a _ _ len(2) len(3)]) (use code len in simp_all)
    also have "\<dots> = and_value (eval I s a st) (\<lambda>w st. vm_loop I code cap j (w # stack) st)"
    proof (rule and_value_cong)
      fix w st
      show "vm_loop I code cap (int (length (pre @ compile s a))) (w # v # stack) st = vm_loop I code cap j (w # stack) st"
        using vm_op [of code "pre @ compile s a" JIM_EXPROP_TERNARY_RIGHT _ _ I cap "w # v # stack" st] null_op [of JIM_EXPROP_TERNARY_RIGHT I code cap]
          colon [of w st] \<open>t\<close> code k by simp
    qed
    finally show "vm_loop I code cap (int (length pre)) (v # stack) st = and_value (eval I s a st) (\<lambda>w st. vm_loop I code cap j (w # stack) st)" .
  next
    assume "\<not> t"
    let ?r = "?q @ [int_code n, op_code JIM_EXPROP_COLON_LEFT]"
    have "vm_loop I code cap (k + 2) stack st = and_value (eval I s b st) (\<lambda>w st. vm_loop I code cap (int (length (?r @ compile s b))) (w # stack) st)"
      by (rule computesD [OF b _ _ len(2) len(3), where pre = ?r]) (use code len k in simp_all)
    also have "\<dots> = and_value (eval I s b st) (\<lambda>w st. vm_loop I code cap j (w # stack) st)"
    proof (rule and_value_cong)
      fix w st
      show "vm_loop I code cap (int (length (?r @ compile s b))) (w # stack) st = vm_loop I code cap j (w # stack) st"
        using vm_op [of code "?r @ compile s b" JIM_EXPROP_COLON_RIGHT post _ I cap "w # stack" st] null_op [of JIM_EXPROP_COLON_RIGHT I code cap]
          code k j n by (simp add: algebra_simps)
    qed
    finally show "vm_loop I code cap k (u # v # stack) st = and_value (eval I s b st) (\<lambda>w st. vm_loop I code cap j (w # stack) st)"
      using colon [of u st] \<open>\<not> t\<close> by simp
  }
qed

lemma computes_ternary:
  fixes I :: "('st, 'd) interp"
  assumes c: "computes I s c" and a: "computes I s a" and b: "computes I s b"
  shows "computes I s (Ternary c a b)"
  unfolding computes_def
proof (intro allI impI)
  fix code pre post cap and stack :: "'d jim_obj list" and st :: 'st
  assume code: "code = pre @ compile s (Ternary c a b) @ post" and len: "length stack \<le> length pre" "length code \<le> cap" "length code < 2 ^ 31"
  let ?n = "int (length (compile s a)) + 1" and ?m = "int (length (compile s b)) + 1" and ?p = "pre @ compile s c"
  let ?q = "?p @ [int_code ?n, op_code JIM_EXPROP_TERNARY_LEFT]"
  let ?k = "int (length (?q @ compile s a)) + 1"
  let ?e = "?k + ?m + 2"
  have code': "code = ?p @ int_code ?n # op_code JIM_EXPROP_TERNARY_LEFT # compile s a @ [op_code JIM_EXPROP_TERNARY_RIGHT, int_code ?m,
      op_code JIM_EXPROP_COLON_LEFT] @ compile s b @ op_code JIM_EXPROP_COLON_RIGHT # post"
    unfolding code by (simp add: lazy_code_def)
  have n: "0 \<le> ?n" "?n < 2 ^ 31" "Suc (length stack) < cap" using code' len by auto
  have jump: "vm_loop I code cap (int (length ?p)) (v # stack) st =
      continue I code cap (int (length ?p) + 1) (funcop I cap JIM_EXPROP_TERNARY_LEFT (Int_Obj ?n # v # stack) st)" for v st
    by (rule vm_jump [OF code' refl n(3)])
  have branches: "t \<Longrightarrow> vm_loop I code cap (int (length ?q)) (v # stack) st = and_value (eval I s a st) (\<lambda>w st. vm_loop I code cap ?e (w # stack) st)"
      "\<not> t \<Longrightarrow> vm_loop I code cap ?k (u # v # stack) st = and_value (eval I s b st) (\<lambda>w st. vm_loop I code cap ?e (w # stack) st)"
    if "ExprBool I v = Some t" for t u v st
    by (rule ternary_branches [OF a b _ refl _ len(2,3) refl refl that, where pre = ?q and post = post]; use code' len in simp)+
  have "vm_loop I code cap (int (length pre)) stack st = and_value (eval I s c st) (\<lambda>v st. vm_loop I code cap (int (length ?p)) (v # stack) st)"
    by (rule computesD [OF c _ len(1) len(2) len(3)]) (use code' in simp_all)
  also have "\<dots> = and_value (eval I s (Ternary c a b) st) (\<lambda>v st. vm_loop I code cap ?e (v # stack) st)"
    unfolding eval.simps and_value_assoc
  proof (rule and_value_cong)
    fix v st
    have "int (length ?p) + 1 + ?n + 1 = ?k" "int (length ?p) + 1 + 1 = int (length ?q)" by simp_all
    then show "vm_loop I code cap (int (length ?p)) (v # stack) st = and_value (case ExprBool I v of None \<Rightarrow> Some (jim_err, st)
        | Some True \<Rightarrow> eval I s a st | Some False \<Rightarrow> eval I s b st) (\<lambda>v st. vm_loop I code cap ?e (v # stack) st)"
      unfolding jump ternary_left [OF n] using branches(1) [of v True st] branches(2) [of v False "Int_Obj 0" st]
      by (cases "ExprBool I v" rule: bool_option_cases) (simp_all only: option.case if_True if_False bool.case and_value_simps simp_thms)
  qed
  finally show "vm_loop I code cap (int (length pre)) stack st =
      and_value (eval I s (Ternary c a b) st) (\<lambda>v st. vm_loop I code cap (int (length pre + length (compile s (Ternary c a b)))) (v # stack) st)"
    by (simp add: lazy_code_def algebra_simps)
qed

lemma computes_operand:
  fixes I :: "('st, 'd) interp"
  assumes "expr_wf s (Operand t)"
  shows "computes I s (Operand t)"
  unfolding computes_def
proof (intro allI impI)
  fix code pre post cap and stack :: "'d jim_obj list" and st :: 'st
  assume c: "code = pre @ compile s (Operand t) @ post" and len: "length stack \<le> length pre" "length code \<le> cap"
  from leaf_code [OF assms] obtain k where "xc_type (the (expr_operand s t)) = TT k" by auto
  then show "vm_loop I code cap (int (length pre)) stack st =
      and_value (eval I s (Operand t) st) (\<lambda>v st. vm_loop I code cap (int (length pre + length (compile s (Operand t)))) (v # stack) st)"
    using vm_operand [of code pre "the (expr_operand s t)" post k _ stack cap I st] c len by (simp add: algebra_simps)
qed

lemma computes_expr: "expr_wf s e \<Longrightarrow> computes I s e"
proof (induction e)
  case (Operand t)
  then show ?case by (rule computes_operand)
next
  case (Prefix x e)
  then show ?case by (intro computes_prefix) simp_all
next
  case (Binary x l r)
  then have "computes I s l" "computes I s r" by simp_all
  then show ?case
    using computes_lazy [of I s l r x] computes_strict [of I s l r x] Binary.prems by (cases "x \<in> {JIM_EXPROP_LOGICAND, JIM_EXPROP_LOGICOR}") auto
next
  case (Ternary c a b)
  then show ?case by (intro computes_ternary) simp_all
qed

lemma run_compile:
  assumes "expr_wf s e" and "length (compile s e) < 2 ^ 31"
  shows "run_code I (compile s e) st = eval I s e st"
proof -
  let ?cap = "if length (compile s e) > 10 then length (compile s e) else 10"
  have "vm_loop I (compile s e) ?cap 0 [] st =
      and_value (eval I s e st) (\<lambda>v st. vm_loop I (compile s e) ?cap (int (length (compile s e))) [v] st)"
    by (rule computesD [OF computes_expr [OF assms(1)], where pre = "[]" and post = "[]"]) (use assms(2) in simp_all)
  also have "\<dots> = and_value (eval I s e st) (\<lambda>v st. Some (Result v, st))"
    by (rule and_value_cong) (simp add: vm_loop.simps [of I _ _ "int (length (compile s e))"])
  also have "\<dots> = eval I s e st"
    by (auto simp: and_value_def split: option.splits outcome.splits)
  finally show ?thesis by (simp add: run_code_def)
qed

section \<open>The shortcuts\<close>

lemma get_wide_int [simp]: "Jim_GetWide I (Int_Obj w) = Some w" "\<not> is_double (Int_Obj w)"
  by (simp_all add: Jim_GetWide_def is_double_def)

lemma int_variable_cases: "int_variable I st c = Some w \<Longrightarrow> get_variable I st (expr_text (xc_obj c)) = Some (Int_Obj w)"
  by (auto simp: int_variable_def split: option.splits jim_obj.splits)

lemma fetch_variable: "xc_type c = TT JIM_TT_VAR \<Longrightarrow> get_variable I st (expr_text (xc_obj c)) = Some v \<Longrightarrow> fetch I c st = Some (Result v, st)"
  by (simp add: fetch_def or_err_def)

lemma fetch_integer: "xc_type c = TT JIM_TT_EXPR_INT \<Longrightarrow> fetch I c st = Some (Result (token_obj I (xc_obj c)), st)"
  by (simp add: fetch_def)

lemma vm_end: "i = int (length code) \<Longrightarrow> vm_loop I code cap i [v] st = Some (Result v, st)"
  by (simp add: vm_loop.simps)

lemma vm_fetch:
  assumes "i < length code" and "xc_type (code ! i) = TT t" and "fetch I (code ! i) st = Some (Result v, st)" and "length stack < cap"
  shows "vm_loop I code cap (int i) stack st = vm_loop I code cap (int (Suc i)) (v # stack) st"
  using vm_operand [OF id_take_nth_drop [OF assms(1)] assms(2) _ assms(4), of "int i" I st] assms(1,3) by (simp add: algebra_simps)

lemma vm_funcop:
  assumes "i < length code" and "xc_type (code ! i) = OP x"
  shows "vm_loop I code cap (int i) stack st = continue I code cap (int i) (funcop I cap x stack st)"
  using assms by (subst vm_loop.simps) (auto simp: continue_def split: option.splits)

lemma compare_funcop:
  assumes "compare_op x (wA < wB) (wA = wB) = Some b" and "length stack < cap"
  shows "continue I code cap i (funcop I cap x (Int_Obj wB # Int_Obj wA # stack) st) =
    vm_loop I code cap (i + 1) (Int_Obj (truth b) # stack) st"
  using assms(1)
  by (cases x) (simp_all add: compare_op_def funcop_def JimExprOpBin_def bin_value_def bin_wide_def push_outcome_def continue_def assms(2))

lemma shortcut_one: "shortcut I [c] st = Some v \<Longrightarrow> run_code I [c] st = Some (Result v, st)"
  using vm_fetch [of 0 "[c]" _ I st v "[]" 10] vm_end [of "int (Suc 0)" "[c]" I 10 v st]
  by (auto simp: shortcut_def run_code_def fetch_integer fetch_variable split: if_splits)

lemma shortcut_two:
  assumes "shortcut I [c, d] st = Some v"
  shows "run_code I [c, d] st = Some (Result v, st)"
proof -
  from assms obtain w where d: "xc_type d = OP JIM_EXPROP_NOT" "xc_type c = TT JIM_TT_VAR" "int_variable I st c = Some w"
      "v = Int_Obj (truth (w = 0))"
    by (auto simp: shortcut_def split: if_splits)
  have "vm_loop I [c, d] 10 (int (Suc 0)) [Int_Obj w] st = Some (Result v, st)"
    using vm_funcop [of "Suc 0" "[c, d]" JIM_EXPROP_NOT I 10 "[Int_Obj w]" st] d(1,4) vm_end [of 2 "[c, d]" I 10 v st]
    by (simp add: funcop_def JimExprOpNumUnary_def num_unary_def num_unary_wide_def push_outcome_def continue_def)
  then show ?thesis
    using vm_fetch [of 0 "[c, d]" JIM_TT_VAR I st "Int_Obj w" "[]" 10] d(2) fetch_variable [OF d(2) int_variable_cases [OF d(3)]]
    by (simp add: run_code_def)
qed

lemma shortcut_three:
  assumes "shortcut I [c, d, e] st = Some v"
  shows "run_code I [c, d, e] st = Some (Result v, st)"
proof -
  let ?l = "[c, d, e]"
  from assms obtain x wA wB b where c: "xc_type c = TT JIM_TT_VAR" "int_variable I st c = Some wA" and e: "xc_type e = OP x"
      and d: "xc_type d = TT JIM_TT_EXPR_INT \<and> token_obj I (xc_obj d) = Int_Obj wB \<or> xc_type d = TT JIM_TT_VAR \<and> int_variable I st d = Some wB"
      and b: "compare_op x (wA < wB) (wA = wB) = Some b" "v = Int_Obj (truth b)"
    by (auto simp: shortcut_def split: if_splits expr_type.splits option.splits jim_obj.splits)
  from d have "fetch I d st = Some (Result (Int_Obj wB), st)" "\<exists>t. xc_type d = TT t"
    using fetch_integer [of d I st] fetch_variable [of d I st "Int_Obj wB"] int_variable_cases [of I st d wB] by auto
  then have "vm_loop I ?l 10 (int (Suc 0)) [Int_Obj wA] st = vm_loop I ?l 10 (int 2) [Int_Obj wB, Int_Obj wA] st"
    using vm_fetch [of "Suc 0" ?l _ I st "Int_Obj wB" "[Int_Obj wA]" 10] by (auto simp: numeral_2_eq_2)
  also have "\<dots> = vm_loop I ?l 10 3 [v] st"
    using vm_funcop [of 2 ?l x I 10 "[Int_Obj wB, Int_Obj wA]" st] compare_funcop [OF b(1), of "[]" 10 I ?l 2 st] e b(2) by simp
  finally show ?thesis
    using vm_fetch [of 0 ?l JIM_TT_VAR I st "Int_Obj wA" "[]" 10] c(1) fetch_variable [OF c(1) int_variable_cases [OF c(2)]]
      vm_end [of 3 ?l I 10 v st] by (simp add: run_code_def)
qed

lemma shortcut_run:
  assumes "shortcut I code st = Some v"
  shows "run_code I code st = Some (Result v, st)"
proof (cases "length code \<le> 3 \<and> code \<noteq> []")
  case True
  then obtain c d e where "code = [c] \<or> code = [c, d] \<or> code = [c, d, e]"
    by (cases code rule: list.exhaust; cases "drop 1 code"; cases "drop 2 code") (auto simp: Suc_le_eq numeral_3_eq_3)
  with assms shortcut_one shortcut_two shortcut_three show ?thesis by fastforce
next
  case False
  with assms show ?thesis by (auto simp: shortcut_def numeral_3_eq_3 split: list.splits)
qed

text \<open>
  C20: The shortcuts for common expressions have no effect but speed: for any code, in any state of the interpreter, the
  result is that of the stack machine. This includes a variable that is not set and one that is not an integer,
  where the machine runs after all.
\<close>

theorem eval_code_shortcuts: "eval_code I code st = run_code I code st"
  by (cases "shortcut I code st") (simp_all add: eval_code_def shortcut_run)

section \<open>From the text to the value\<close>

lemma SetExprFromAny_compile:
  assumes "expr_tokens s (JimParserInit (int (length s)) line) [] = Some (Some (ts @ [eol]))" and "expr_at 1 e ts" and "plain e"
  shows "SetExprFromAny s line = Some (Some (compile s e)) \<and> expr_wf s e \<and> int (length (compile s e)) \<le> expr_alloc (ts @ [eol])"
proof -
  have "tokens_inside s (ts @ [eol])"
    using expr_tokens_ok [of s "JimParserInit (int (length s)) line" "[]"] assms(1)
    by (simp add: JimParserInit_def pos_ok_def tokens_before_def)
  note code = ExprCreateByteCode_right [OF this assms(2), unfolded plain_right [OF assms(3)]]
  then have "ExprCheckCorrectness (compile s e) = JIM_OK"
    using check_compile [of s e 0 "[]" 0] by (simp add: ExprCheckCorrectness_def)
  with code assms(1) show ?thesis by (simp add: SetExprFromAny_def and_then_def)
qed


abbreviation char_token :: "nat \<Rightarrow> expr_type \<Rightarrow> expr_token" where
  "char_token k t \<equiv> \<lparr>xt_token = k, xt_len = 1, xt_type = t, xt_line = 1\<rparr>"

text \<open>An interpreter with one variable, and integers in the place of floating-point numbers.\<close>

definition one_variable :: "byte list \<Rightarrow> int \<Rightarrow> (unit, int) interp" where
  "one_variable z n = \<lparr>floats = \<lparr>f_of_wide = id, f_to_wide = c_wide, f_strtod = (\<lambda>z. 0), f_add = (+), f_sub = (-), f_mul = (*), f_div = (div),
       f_neg = uminus, f_lt = (<), f_eq = (=), f_zero = 0, f_half = 0, f_inf = 2 ^ 64\<rparr>,
     string_to_wide = (\<lambda>z. None), string_to_double = (\<lambda>z. None), string_of = (\<lambda>v. []), list_of = (\<lambda>v. []),
     get_variable = (\<lambda>st y. if y = z then Some (Int_Obj n) else None), expand_dict_sugar = (\<lambda>z st. (None, st)),
     subst_obj = (\<lambda>z st. (Result (String_Obj z), st)), eval_obj = (\<lambda>z st. (jim_err, st)), random = (\<lambda>st. (0, st)), seed = (\<lambda>n st. st)\<rparr>"


section \<open>Division and rotation\<close>

lemma floor_positive:
  fixes a b :: int
  assumes "0 < b"
  shows "a div b = (if a smod b < 0 then a sdiv b - 1 else a sdiv b)" and "a mod b = (if a smod b < 0 then a smod b + b else a smod b)"
proof -
  have r: "- b < a smod b" "a smod b < b" using smod_int_range [of b a] assms by auto
  have a: "a = b * (a sdiv b) + a smod b" by (simp add: mult_sdiv_smod_eq)
  then have "a = b * (a sdiv b - 1) + (a smod b + b)" by (simp add: algebra_simps)
  with r a show "a div b = (if a smod b < 0 then a sdiv b - 1 else a sdiv b)" "a mod b = (if a smod b < 0 then a smod b + b else a smod b)"
    by (auto intro!: int_div_pos_eq int_mod_pos_eq)
qed

definition wide :: "int \<Rightarrow> bool" where
  "wide w \<longleftrightarrow> - (2 ^ 63) \<le> w \<and> w < 2 ^ 63"

lemma c_wide_wide: "wide w \<Longrightarrow> c_wide w = Some w"
  by (simp add: c_wide_def wide_def to_int64_id)

lemma wide_div_mod:
  assumes "wide a" and "wide b" and "b \<noteq> 0" and "0 \<le> b \<or> wide (- a) \<and> wide (- b)"
  shows "wide_div a b = Some (a div b)" and "wide_mod a b = Some (a mod b)"
proof -
  consider (pos) "0 < b" | (neg) "b < 0" "wide (- a)" "wide (- b)" using assms(3,4) by fastforce
  then show "wide_div a b = Some (a div b)"
  proof cases
    case neg
    then show ?thesis using floor_positive(1) [of "- b" "- a"] by (simp add: wide_div_def c_wide_wide Let_def)
  qed (simp add: wide_div_def floor_positive(1) Let_def)
  from \<open>wide a\<close> consider (pos) "0 < b" | (neg) "b < 0" "wide (- a)" "wide (- b)" using assms(3,4) by fastforce
  then show "wide_mod a b = Some (a mod b)"
  proof cases
    case neg
    then show ?thesis using floor_positive(2) [of "- b" "- a"] zmod_zminus2_not_zero by (auto simp: wide_mod_def c_wide_wide Let_def mod_minus_minus)
  qed (simp add: wide_mod_def floor_positive(2) Let_def)
qed

text \<open>
  Quotients are rounded down and remainders have the sign of the divisor, as Tcl has it, although C rounds towards zero: for
  integers of 64 bits whose negations are integers of 64 bits too when the divisor is negative. The result of the
  division by zero is an error, for both operators.
\<close>

theorem division_floor:
  assumes "wide a" and "wide b" and "0 \<le> b \<or> wide (- a) \<and> wide (- b)"
  shows "apply_binary I JIM_EXPROP_DIV (Int_Obj a) (Int_Obj b) st = Some (if b = 0 then jim_err else Result (Int_Obj (a div b)), st) \<and>
    apply_binary I JIM_EXPROP_MOD (Int_Obj a) (Int_Obj b) st = Some (if b = 0 then jim_err else Result (Int_Obj (a mod b)), st)"
  using wide_div_mod [of a b] assms
  by (cases "b = 0") (simp_all add: apply_binary_def int_ops_def string_ops_def bin_value_def bin_wide_def int_binary_def)

lemma division_floor_witness:
  "apply_binary (one_variable [] 0) JIM_EXPROP_DIV (Int_Obj (-7)) (Int_Obj 2) () = Some (Result (Int_Obj (-4)), ())"
  using division_floor [of "-7" 2 "one_variable [] 0" "()"] by (simp add: wide_def)

text \<open>A rotation by a multiple of 64 shifts by the width of the integer.\<close>

lemma wide_rotate_undefined: "wide_rotate JIM_EXPROP_ROTL w (64 * k) = None" "wide_rotate JIM_EXPROP_ROTR w (64 * k) = None"
proof -
  have "take_bit 64 (64 * k) mod 64 = 0" by (simp add: take_bit_eq_mod mod_mod_cancel)
  then show "wide_rotate JIM_EXPROP_ROTL w (64 * k) = None" "wide_rotate JIM_EXPROP_ROTR w (64 * k) = None"
    by (simp_all add: wide_rotate_def shl64_def shr64_def Let_def)
qed

section \<open>Expressions that go wrong\<close>

text \<open>An operator without a left operand: the search for it reads below the code.\<close>

lemma lazy_without_operand: "SetExprFromAny (bytes_of ''&&'') 1 = None"
  by code_simp

text \<open>A colon before any question mark: the ternaries are turned before the code is checked, with a write below the code.\<close>

lemma reorder_without_condition: "SetExprFromAny (bytes_of ''1:(2?3)?4:5'') 1 = None"
  by code_simp

text \<open>The check of the code does not see a colon before its question mark: the machine takes a value from an empty stack.\<close>

lemma colon_first: "SetExprFromAny (bytes_of ''1:2?3'') 1 \<noteq> None" "Jim_EvalExpression (one_variable [] 0) (bytes_of ''1:2?3'') 1 () = None"
  by code_simp+

text \<open>The parentheses around a ternary that is a condition have no effect.\<close>

lemma condition_regrouped:
  "SetExprFromAny (bytes_of ''(1?0:1)?2:3'') 1 = SetExprFromAny (bytes_of ''1?0:1?2:3'') 1"
  "Jim_EvalExpression (one_variable [] 0) (bytes_of ''(1?0:1)?2:3'') 1 () = Some (Result (Int_Obj 0), ())"
  by code_simp+

text \<open>A ternary in the first branch without parentheses: the branch that is not selected is evaluated too, here a command that fails.\<close>

lemma unselected_branch:
  "Jim_EvalExpression (one_variable [] 0) (bytes_of ''0?(1?2:[x]):4'') 1 () = Some (Result (Int_Obj 4), ())"
  "Jim_EvalExpression (one_variable [] 0) (bytes_of ''0?1?2:[x]:4'') 1 () = Some (jim_err, ())"
  by code_simp+

end
