(* ===== verification/Mdns_Name.thy ===== *)
theory Mdns_Name
  imports Prelude_C
begin

text \<open>
  Domain names of the mDNS responder (\<open>src/test5/mDNSCore/DNSCommon.c\<close>). A \<open>domainname\<close> is a buffer
  of 256 bytes that holds labels, each behind a byte with its length, and a zero byte; a pointer
  into it is an index. \<open>None\<close> is an access outside of a buffer; the functions that can fail return
  the buffer as they leave it and an index, which is \<open>None\<close> for the null pointer.
\<close>

section \<open>Bytes at a place of a buffer\<close>

definition holds :: "'a list \<Rightarrow> nat \<Rightarrow> 'a list \<Rightarrow> bool" where
  "holds z i bs \<longleftrightarrow> take (length bs) (drop i z) = bs"

lemma holds_Nil [simp]: "holds z i []"
  by (simp add: holds_def)

lemma holds_Cons [simp]: "holds z i (b # bs) \<longleftrightarrow> i < length z \<and> z ! i = b \<and> holds z (Suc i) bs"
proof (cases "i < length z")
  case True
  then show ?thesis by (simp add: holds_def flip: Cons_nth_drop_Suc)
qed (simp add: holds_def)

lemma holds_append [simp]: "holds z i (as @ bs) \<longleftrightarrow> holds z i as \<and> holds z (i + length as) bs"
  by (induction as arbitrary: i) auto

lemma holds_length: "holds z i bs \<Longrightarrow> bs \<noteq> [] \<Longrightarrow> i + length bs \<le> length z"
proof -
  assume "holds z i bs" "bs \<noteq> []"
  then have "min (length z - i) (length bs) = length bs" "0 < length bs"
    unfolding holds_def by (metis length_take length_drop min.commute, simp)
  then show ?thesis by linarith
qed

lemma holds_slice: "holds z i bs \<Longrightarrow> i + length bs \<le> length z \<Longrightarrow> slice z i (length bs) = Some bs"
  by (simp add: holds_def)

lemma holds_nth: "holds z i bs \<Longrightarrow> k < length bs \<Longrightarrow> z ! (i + k) = bs ! k"
proof (induction bs arbitrary: i k)
  case (Cons b bs)
  from Cons.IH [of "Suc i"] Cons.prems show ?case by (cases k) auto
qed simp

lemma holds_update [simp]: "j < i \<or> i + length bs \<le> j \<Longrightarrow> holds (z[j := v]) i bs \<longleftrightarrow> holds z i bs"
  by (induction bs arbitrary: i) auto

lemma holds_take: "holds z 0 bs \<longleftrightarrow> take (length bs) z = bs"
  by (simp add: holds_def)

section \<open>Characters\<close>

abbreviation (input) MAX_DOMAIN_LABEL :: nat where "MAX_DOMAIN_LABEL \<equiv> 63"
abbreviation (input) MAX_DOMAIN_NAME :: nat where "MAX_DOMAIN_NAME \<equiv> 255"

definition mdnsIsDigit :: "byte \<Rightarrow> bool" where
  "mdnsIsDigit c \<longleftrightarrow> c_0 \<le> c \<and> c \<le> c_9"

definition mDNSIsUpperCase :: "byte \<Rightarrow> bool" where
  "mDNSIsUpperCase c \<longleftrightarrow> c_A \<le> c \<and> c \<le> c_Z"

definition mDNSIsLowerCase :: "byte \<Rightarrow> bool" where
  "mDNSIsLowerCase c \<longleftrightarrow> c_a \<le> c \<and> c \<le> c_z"

definition mdnsIsLetter :: "byte \<Rightarrow> bool" where
  "mdnsIsLetter c \<longleftrightarrow> mDNSIsUpperCase c \<or> mDNSIsLowerCase c"

text \<open>Adding \<open>'a' - 'A'\<close> to an upper-case letter.\<close>

definition lower :: "byte \<Rightarrow> byte" where
  "lower c = (if mDNSIsUpperCase c then c + 0x20 else c)"

section \<open>Comparison\<close>

fun same_label_loop :: "byte list \<Rightarrow> nat \<Rightarrow> byte list \<Rightarrow> nat \<Rightarrow> nat \<Rightarrow> bool option" where
  "same_label_loop a i b j 0 = Some True"
| "same_label_loop a i b j (Suc n) = do {
     ac \<leftarrow> peek a i;
     bc \<leftarrow> peek b j;
     if lower ac \<noteq> lower bc then Some False else same_label_loop a (i + 1) b (j + 1) n
   }"

definition SameDomainLabel :: "byte list \<Rightarrow> nat \<Rightarrow> byte list \<Rightarrow> nat \<Rightarrow> bool option" where
  "SameDomainLabel a i b j = do {
     len \<leftarrow> peek a i;
     if unat len > MAX_DOMAIN_LABEL then Some False
     else do {
       len_b \<leftarrow> peek b j;
       if len \<noteq> len_b then Some False else same_label_loop a (i + 1) b (j + 1) (unat len)
     }
   }"

text \<open>From index \<open>i\<close> and \<open>j\<close> on, with the limit \<open>lim\<close> for the first name.\<close>

function same_name_loop :: "byte list \<Rightarrow> nat \<Rightarrow> byte list \<Rightarrow> nat \<Rightarrow> nat \<Rightarrow> bool option" where
  "same_name_loop a i b j lim = do {
     x \<leftarrow> peek a i;
     y \<leftarrow> (if x \<noteq> 0 then Some 0 else peek b j);
     if x \<noteq> 0 \<or> y \<noteq> 0 then
       (if i + 1 + unat x \<ge> lim then Some False
        else do {
          same \<leftarrow> SameDomainLabel a i b j;
          if \<not> same then Some False
          else do {
            y \<leftarrow> peek b j;
            same_name_loop a (i + 1 + unat x) b (j + 1 + unat y) lim
          }
        })
     else Some True
   }"
  by pat_completeness auto
termination
  by (relation "measure (\<lambda>(a, i, b, j, lim). length a - i)") (auto dest: peek_SomeD)

declare same_name_loop.simps [simp del]

definition SameDomainName :: "byte list \<Rightarrow> nat \<Rightarrow> byte list \<Rightarrow> nat \<Rightarrow> bool option" where
  "SameDomainName a i b j = same_name_loop a i b j (i + MAX_DOMAIN_NAME)"

section \<open>Length\<close>

function length_loop :: "byte list \<Rightarrow> nat \<Rightarrow> nat option" where
  "length_loop name src = do {
     len \<leftarrow> peek name src;
     if len \<noteq> 0 then
       (if unat len > MAX_DOMAIN_LABEL then Some (MAX_DOMAIN_NAME + 1)
        else let src = src + 1 + unat len in
          if src \<ge> MAX_DOMAIN_NAME then Some (MAX_DOMAIN_NAME + 1) else length_loop name src)
     else Some (src + 1)
   }"
  by pat_completeness auto
termination
  by (relation "measure (\<lambda>(name, src). length name - src)") (auto dest: peek_SomeD)

declare length_loop.simps [simp del]

definition DomainNameLength :: "byte list \<Rightarrow> nat option" where
  "DomainNameLength name = length_loop name 0"

text \<open>The null pointer as parent is \<open>None\<close>.\<close>

function compressed_loop :: "byte list \<Rightarrow> byte list option \<Rightarrow> nat \<Rightarrow> nat option" where
  "compressed_loop name parent src = do {
     len \<leftarrow> peek name src;
     if len \<noteq> 0 then
       (if unat len > MAX_DOMAIN_LABEL then Some (MAX_DOMAIN_NAME + 1)
        else do {
          same \<leftarrow> (case parent of None \<Rightarrow> Some False | Some p \<Rightarrow> SameDomainName name src p 0);
          if same then Some (src + 2)
          else let src = src + 1 + unat len in
            if src \<ge> MAX_DOMAIN_NAME then Some (MAX_DOMAIN_NAME + 1) else compressed_loop name parent src
        })
     else Some (src + 1)
   }"
  by pat_completeness auto
termination
  by (relation "measure (\<lambda>(name, parent, src). length name - src)") (auto dest: peek_SomeD)

declare compressed_loop.simps [simp del]

definition CompressedDomainNameLength :: "byte list \<Rightarrow> byte list option \<Rightarrow> nat option" where
  "CompressedDomainNameLength name parent = do {
     parent \<leftarrow> (case parent of None \<Rightarrow> Some None
       | Some p \<Rightarrow> map_option (\<lambda>c. if c = 0 then None else Some p) (peek p 0));
     compressed_loop name parent 0
   }"

section \<open>Appending\<close>

text \<open>Copying characters up to the limit: the buffer, the index in the string and the next place.\<close>

function literal_loop :: "byte list \<Rightarrow> byte list \<Rightarrow> nat \<Rightarrow> nat \<Rightarrow> nat \<Rightarrow> (byte list \<times> nat \<times> nat) option" where
  "literal_loop name cs i ptr lim = do {
     c \<leftarrow> rd cs i;
     if c \<noteq> 0 \<and> ptr < lim then do {
       name \<leftarrow> poke name ptr c;
       literal_loop name cs (i + 1) (ptr + 1) lim
     } else Some (name, i, ptr)
   }"
  by pat_completeness auto
termination
  by (relation "measure (\<lambda>(name, cs, i, ptr, lim). lim - ptr)") auto

declare literal_loop.simps [simp del]

definition AppendLiteralLabelString :: "byte list \<Rightarrow> byte list \<Rightarrow> (byte list \<times> nat option) option" where
  "AppendLiteralLabelString name cs = do {
     n \<leftarrow> DomainNameLength name;
     let lengthbyte = n - 1;
     (name, i, ptr) \<leftarrow> literal_loop name cs 0 (lengthbyte + 1)
       (min (MAX_DOMAIN_NAME - 1) (lengthbyte + 1 + MAX_DOMAIN_LABEL));
     name \<leftarrow> poke name lengthbyte (of_nat (ptr - lengthbyte - 1));
     name \<leftarrow> poke name ptr 0;
     c \<leftarrow> rd cs i;
     Some (name, if c \<noteq> 0 then None else Some (ptr + 1))
   }"

text \<open>One character of the text, behind a backslash as it is or as three decimal digits.\<close>

definition dns_char :: "byte list \<Rightarrow> nat \<Rightarrow> (byte \<times> nat) option" where
  "dns_char cs i = do {
     c \<leftarrow> rd cs i;
     if c \<noteq> c_bslash then Some (c, i + 1)
     else do {
       d0 \<leftarrow> rd cs (i + 1);
       d1 \<leftarrow> (if mdnsIsDigit d0 then rd cs (i + 2) else Some 0);
       d2 \<leftarrow> (if mdnsIsDigit d0 \<and> mdnsIsDigit d1 then rd cs (i + 3) else Some 0);
       let val = unat (d0 - c_0) * 100 + unat (d1 - c_0) * 10 + unat (d2 - c_0);
       Some (if mdnsIsDigit d0 \<and> mdnsIsDigit d1 \<and> mdnsIsDigit d2 \<and> val \<le> 255 then (of_nat val, i + 4) else (d0, i + 2))
     }
   }"

function label_loop :: "byte list \<Rightarrow> byte list \<Rightarrow> nat \<Rightarrow> nat \<Rightarrow> (byte list \<times> nat \<times> nat) option" where
  "label_loop name cs i ptr = do {
     c \<leftarrow> rd cs i;
     if c \<noteq> 0 \<and> c \<noteq> c_dot \<and> ptr < MAX_DOMAIN_NAME - 1 then do {
       (b, i) \<leftarrow> dns_char cs i;
       name \<leftarrow> poke name ptr b;
       label_loop name cs i (ptr + 1)
     } else Some (name, i, ptr)
   }"
  by pat_completeness auto
termination
  by (relation "measure (\<lambda>(name, cs, i, ptr). MAX_DOMAIN_NAME - ptr)") auto

declare label_loop.simps [simp del]

lemma label_loop_ge: "label_loop name cs i ptr = Some (name', i', ptr') \<Longrightarrow> ptr \<le> ptr'"
  by (induction name cs i ptr rule: label_loop.induct, subst (asm) (2) label_loop.simps)
    (fastforce split: if_splits bind_splits)

function names_loop :: "byte list \<Rightarrow> byte list \<Rightarrow> nat \<Rightarrow> nat \<Rightarrow> (byte list \<times> nat option) option" where
  "names_loop name cs i ptr = do {
     c \<leftarrow> rd cs i;
     if c \<noteq> 0 \<and> ptr < MAX_DOMAIN_NAME - 1 then
       (if c = c_dot then Some (name, None)
        else do {
          (name, i, q) \<leftarrow> label_loop name cs i (ptr + 1);
          c \<leftarrow> rd cs i;
          let i = (if c \<noteq> 0 then i + 1 else i);
          if q - ptr - 1 > MAX_DOMAIN_LABEL then Some (name, None)
          else do {
            name \<leftarrow> poke name ptr (of_nat (q - ptr - 1));
            names_loop name cs i q
          }
        })
     else do {
       name \<leftarrow> poke name ptr 0;
       c \<leftarrow> rd cs i;
       Some (name, if c \<noteq> 0 then None else Some (ptr + 1))
     }
   }"
  by pat_completeness auto
termination
  by (relation "measure (\<lambda>(name, cs, i, ptr). MAX_DOMAIN_NAME - ptr)") (auto dest!: label_loop_ge)

declare names_loop.simps [simp del]

definition AppendDNSNameString :: "byte list \<Rightarrow> byte list \<Rightarrow> (byte list \<times> nat option) option" where
  "AppendDNSNameString name cs = do {
     n \<leftarrow> DomainNameLength name;
     names_loop name cs 0 (n - 1)
   }"

definition MakeDomainNameFromDNSNameString :: "byte list \<Rightarrow> byte list \<Rightarrow> (byte list \<times> nat option) option" where
  "MakeDomainNameFromDNSNameString name cs = do {
     name \<leftarrow> poke name 0 0;
     AppendDNSNameString name cs
   }"

definition AppendDomainLabel :: "byte list \<Rightarrow> byte list \<Rightarrow> (byte list \<times> nat option) option" where
  "AppendDomainLabel name label = do {
     n \<leftarrow> DomainNameLength name;
     let ptr = n - 1;
     len \<leftarrow> peek label 0;
     if unat len > MAX_DOMAIN_LABEL then Some (name, None)
     else if ptr + 1 + unat len + 1 > MAX_DOMAIN_NAME then Some (name, None)
     else do {
       bs \<leftarrow> slice label 0 (unat len + 1);
       name \<leftarrow> blit name ptr bs;
       name \<leftarrow> poke name (ptr + unat len + 1) 0;
       Some (name, Some (ptr + unat len + 2))
     }
   }"

function append_name_loop :: "byte list \<Rightarrow> byte list \<Rightarrow> nat \<Rightarrow> nat \<Rightarrow> (byte list \<times> nat option) option" where
  "append_name_loop name src i ptr = do {
     len \<leftarrow> peek src i;
     if len \<noteq> 0 then
       (if ptr + 1 + unat len > MAX_DOMAIN_NAME - 1 then Some (name, None)
        else do {
          bs \<leftarrow> slice src i (unat len + 1);
          name \<leftarrow> blit name ptr bs;
          name \<leftarrow> poke name (ptr + unat len + 1) 0;
          append_name_loop name src (i + unat len + 1) (ptr + unat len + 1)
        })
     else Some (name, Some ptr)
   }"
  by pat_completeness auto
termination
  by (relation "measure (\<lambda>(name, src, i, ptr). length src - i)") (auto dest: peek_SomeD)

declare append_name_loop.simps [simp del]

definition AppendDomainName :: "byte list \<Rightarrow> byte list \<Rightarrow> (byte list \<times> nat option) option" where
  "AppendDomainName name append_name = do {
     n \<leftarrow> DomainNameLength name;
     append_name_loop name append_name 0 (n - 1)
   }"

text \<open>A label buffer of 64 bytes; the result tells whether the whole string was taken.\<close>

definition MakeDomainLabelFromLiteralString :: "byte list \<Rightarrow> byte list \<Rightarrow> (byte list \<times> bool) option" where
  "MakeDomainLabelFromLiteralString label cs = do {
     (label, i, ptr) \<leftarrow> literal_loop label cs 0 1 (1 + MAX_DOMAIN_LABEL);
     label \<leftarrow> poke label 0 (of_nat (ptr - 1));
     c \<leftarrow> rd cs i;
     Some (label, c = 0)
   }"

section \<open>Text\<close>

text \<open>One character; no escape character is 0.\<close>

definition escape_char :: "byte \<Rightarrow> byte \<Rightarrow> byte list" where
  "escape_char esc c = (if esc = 0 then [c]
     else if c = c_dot \<or> c = esc then [esc, c]
     else if c \<le> c_sp then [esc, c_0 + c div 100, c_0 + (c div 10) mod 10, c_0 + c mod 10]
     else [c])"

definition ConvertDomainLabelToCString_withescape :: "byte list \<Rightarrow> nat \<Rightarrow> byte \<Rightarrow> byte list option option" where
  "ConvertDomainLabelToCString_withescape label src esc = do {
     len \<leftarrow> peek label src;
     if unat len > MAX_DOMAIN_LABEL then Some None
     else do {
       bs \<leftarrow> slice label (src + 1) (unat len);
       Some (Some (concat (map (escape_char esc) bs)))
     }
   }"

function convert_loop :: "byte list \<Rightarrow> nat \<Rightarrow> byte \<Rightarrow> byte list \<Rightarrow> byte list option option" where
  "convert_loop name src esc out = do {
     len \<leftarrow> peek name src;
     if len \<noteq> 0 then
       (if src + 1 + unat len \<ge> MAX_DOMAIN_NAME then Some None
        else do {
          r \<leftarrow> ConvertDomainLabelToCString_withescape name src esc;
          case r of None \<Rightarrow> Some None
          | Some text \<Rightarrow> convert_loop name (src + 1 + unat len) esc (out @ text @ [c_dot])
        })
     else Some (Some out)
   }"
  by pat_completeness auto
termination
  by (relation "measure (\<lambda>(name, src, esc, out). length name - src)") (auto dest: peek_SomeD)

declare convert_loop.simps [simp del]

text \<open>The text without its terminator.\<close>

definition ConvertDomainNameToCString_withescape :: "byte list \<Rightarrow> byte \<Rightarrow> byte list option option" where
  "ConvertDomainNameToCString_withescape name esc = do {
     c \<leftarrow> peek name 0;
     convert_loop name 0 esc (if c = 0 then [c_dot] else [])
   }"

section \<open>Names as lists of labels\<close>

fun wire_labels :: "byte list list \<Rightarrow> byte list" where
  "wire_labels [] = []"
| "wire_labels (l # ls) = of_nat (length l) # l @ wire_labels ls"

definition wire :: "byte list list \<Rightarrow> byte list" where
  "wire ls = wire_labels ls @ [0]"

definition label_ok :: "byte list \<Rightarrow> bool" where
  "label_ok l \<longleftrightarrow> 1 \<le> length l \<and> length l \<le> MAX_DOMAIN_LABEL"

definition labels_ok :: "byte list list \<Rightarrow> bool" where
  "labels_ok ls \<longleftrightarrow> list_all label_ok ls"

definition name_ok :: "byte list list \<Rightarrow> bool" where
  "name_ok ls \<longleftrightarrow> labels_ok ls \<and> length (wire ls) \<le> MAX_DOMAIN_NAME"

lemma labels_ok_simps [simp]:
  "labels_ok []" "labels_ok (l # ls) \<longleftrightarrow> label_ok l \<and> labels_ok ls" "labels_ok (ls @ ms) \<longleftrightarrow> labels_ok ls \<and> labels_ok ms"
  by (simp_all add: labels_ok_def)

lemma wire_simps [simp]: "wire [] = [0]" "wire (l # ls) = of_nat (length l) # l @ wire ls"
  by (simp_all add: wire_def)

lemma wire_labels_append [simp]: "wire_labels (ls @ ms) = wire_labels ls @ wire_labels ms"
  by (induction ls) auto

lemma wire_append: "wire (ls @ ms) = wire_labels ls @ wire ms"
  by (simp add: wire_def)

lemma wire_length [simp]: "length (wire ls) = Suc (length (wire_labels ls))"
  by (simp add: wire_def)

lemma label_length [simp]:
  assumes "label_ok l"
  shows "unat (of_nat (length l) :: byte) = length l" "(of_nat (length l) :: byte) \<noteq> 0" "0 < length l" "l \<noteq> []"
    "\<not> MAX_DOMAIN_LABEL < length l"
proof -
  have l: "1 \<le> length l" "length l \<le> 63" using assms by (simp_all add: label_ok_def)
  then show u: "unat (of_nat (length l) :: byte) = length l" by (simp add: unsigned_of_nat take_bit_nat_eq_self)
  then show "(of_nat (length l) :: byte) \<noteq> 0" using l(1) by force
  show "0 < length l" "l \<noteq> []" "\<not> 63 < length l" using l by auto
qed

lemma holds_wire_length: "holds z i (wire ls) \<Longrightarrow> i + length (wire ls) \<le> length z"
  by (rule holds_length) (auto simp: wire_def)

text \<open>Reading a label where the name is known.\<close>

lemma holds_label:
  assumes "holds z i (wire (l # ls))" and "label_ok l"
  shows "peek z i = Some (of_nat (length l))" "slice z i (length l + 1) = Some (of_nat (length l) # l)"
    "slice z (i + 1) (length l) = Some l" "holds z (i + length l + 1) (wire ls)" "holds z (i + 1) l"
proof -
  have le: "i + 1 + length l \<le> length z" using holds_wire_length [OF assms(1)] by simp
  show "peek z i = Some (of_nat (length l))" using assms(1) by simp
  show "holds z (i + 1) l" "holds z (i + length l + 1) (wire ls)" using assms(1) by (simp_all add: add.commute)
  then show "slice z (i + 1) (length l) = Some l" using le by (intro holds_slice) simp_all
  have "holds z i (of_nat (length l) # l)" using assms(1) by simp
  from holds_slice [OF this] le show "slice z i (length l + 1) = Some (of_nat (length l) # l)" by simp
qed

lemma holds_end: "holds z i (wire []) \<Longrightarrow> peek z i = Some 0"
  by simp

section \<open>Comparison is equality up to case\<close>

lemma same_label_loop_eq:
  "holds a i l \<Longrightarrow> holds b j m \<Longrightarrow> length l = length m \<Longrightarrow>
    same_label_loop a i b j (length l) = Some (map lower l = map lower m)"
proof (induction l arbitrary: i j m)
  case (Cons x l)
  then obtain y m' where "m = y # m'" by (cases m) auto
  with Cons show ?case by auto
qed simp

lemma SameDomainLabel_eq:
  assumes "holds a i (wire (l # ls))" "holds b j (wire (m # ms))" "label_ok l" "label_ok m"
  shows "SameDomainLabel a i b j = Some (map lower l = map lower m)"
proof -
  have "(of_nat (length l) :: byte) = of_nat (length m) \<longleftrightarrow> length l = length m"
    using label_length(1) [OF assms(3)] label_length(1) [OF assms(4)] by metis
  then show ?thesis
    using assms same_label_loop_eq [OF holds_label(5) holds_label(5), OF assms(1,3,2,4)]
    by (auto simp: SameDomainLabel_def holds_label(1) simp del: holds_Cons wire_simps dest: map_eq_imp_length_eq)
qed

lemma same_name_loop_eq:
  "holds a i (wire ls) \<Longrightarrow> holds b j (wire ms) \<Longrightarrow> labels_ok ls \<Longrightarrow> labels_ok ms \<Longrightarrow> i + length (wire ls) \<le> lim \<Longrightarrow>
    same_name_loop a i b j lim = Some (map (map lower) ls = map (map lower) ms)"
proof (induction ls arbitrary: i j ms)
  case Nil
  note a = holds_end [OF Nil(1)]
  note un = same_name_loop.simps [of a i b j lim]
  show ?case
  proof (cases ms)
    case Nil
    then have "peek b j = Some 0" using holds_end [of b j] Nil.prems(2) by simp
    then show ?thesis using a Nil by (simp add: un)
  next
    case (Cons m ms')
    then have m: "peek b j = Some (of_nat (length m))" "label_ok m"
      using holds_label(1) [of b j m ms'] Nil.prems(2,4) by simp_all
    then have "SameDomainLabel a i b j = Some False"
      using a label_length(2) [OF m(2)] by (simp add: SameDomainLabel_def)
    with a m Cons show ?thesis by (auto simp: un)
  qed
next
  case (Cons l ls)
  note l = holds_label [OF Cons.prems(1)]
  have lok: "label_ok l" using Cons.prems(3) by simp
  have lim: "\<not> lim \<le> i + 1 + length l" using Cons.prems(5) by simp
  note un = same_name_loop.simps [of a i b j lim]
  show ?case
  proof (cases ms)
    case Nil
    then have b: "peek b j = Some 0" using holds_end [of b j] Cons.prems(2) by simp
    then have "SameDomainLabel a i b j = Some False"
      using l(1) [OF lok] lok label_length(2) [OF lok] by (simp add: SameDomainLabel_def)
    then show ?thesis using l(1) [OF lok] lok lim Nil by (simp add: un)
  next
    case ms: (Cons m ms')
    have mok: "label_ok m" "labels_ok ms'" using ms Cons.prems(4) by simp_all
    note m = holds_label [OF Cons.prems(2) [unfolded ms] mok(1)]
    have same: "SameDomainLabel a i b j = Some (map lower l = map lower m)"
      using SameDomainLabel_eq [OF Cons.prems(1) Cons.prems(2) [unfolded ms] lok mok(1)] .
    have "same_name_loop a (i + 1 + length l) b (j + 1 + length m) lim = Some (map (map lower) ls = map (map lower) ms')"
      using Cons.IH [OF l(4) [OF lok] m(4)] Cons.prems(3,5) mok(2) by (simp add: add.commute add.left_commute)
    then show ?thesis using l(1) [OF lok] m(1) lok mok(1) lim same ms by (simp add: un)
  qed
qed

section \<open>The length tells valid names\<close>

lemma length_loop_wire:
  "holds name i (wire ls) \<Longrightarrow> labels_ok ls \<Longrightarrow> i + length (wire ls) \<le> MAX_DOMAIN_NAME \<Longrightarrow>
    length_loop name i = Some (i + length (wire ls))"
proof (induction ls arbitrary: i)
  case Nil
  then show ?case by (simp add: length_loop.simps [of name i])
next
  case (Cons l ls)
  have lok: "label_ok l" "labels_ok ls" using Cons.prems(2) by simp_all
  note l = holds_label [OF Cons.prems(1) lok(1)]
  have "\<not> MAX_DOMAIN_NAME \<le> i + 1 + length l" using Cons.prems(3) by simp
  moreover have "length_loop name (i + 1 + length l) = Some (i + length (wire (l # ls)))"
    using Cons.IH [OF _ lok(2), of "i + 1 + length l"] l(4) Cons.prems(3) by (simp add: add.commute add.left_commute)
  ultimately show ?case using l(1) lok(1) by (simp add: length_loop.simps [of name i] Let_def)
qed

lemma length_loop_cases:
  assumes "length name = 256" and "i < MAX_DOMAIN_NAME"
  shows "(\<exists>ls. labels_ok ls \<and> holds name i (wire ls) \<and> i + length (wire ls) \<le> MAX_DOMAIN_NAME \<and>
      length_loop name i = Some (i + length (wire ls))) \<or> length_loop name i = Some (MAX_DOMAIN_NAME + 1)"
  using assms(2)
proof (induction "MAX_DOMAIN_NAME - i" arbitrary: i rule: less_induct)
  case less
  have at: "peek name i = Some (name ! i)" using assms(1) less.prems by simp
  let ?n = "unat (name ! i)"
  consider (stop) "name ! i = 0" | (bad) "name ! i \<noteq> 0" "?n > 63 \<or> i + 1 + ?n \<ge> 255"
    | (step) "name ! i \<noteq> 0" "?n \<le> 63" "i + 1 + ?n < 255" by linarith
  then show ?case
  proof cases
    case stop
    have "labels_ok []" "holds name i (wire [])" using stop assms(1) less.prems by simp_all
    moreover have "length_loop name i = Some (i + length (wire []))" using stop at by (simp add: length_loop.simps [of name i])
    moreover have "i + length (wire []) \<le> 255" using less.prems by simp
    ultimately show ?thesis by blast
  next
    case bad
    with at show ?thesis by (auto simp: length_loop.simps [of name i] Let_def)
  next
    case step
    define l where "l = take ?n (drop (i + 1) name)"
    have len: "length l = ?n" using step assms(1) by (simp add: l_def)
    have "1 \<le> ?n" using step(1) by (metis One_nat_def Suc_leI neq0_conv unsigned_0 unsigned_word_eqI)
    then have l: "label_ok l" "holds name (i + 1) l" "of_nat (length l) = name ! i"
      using step len by (simp_all add: label_ok_def holds_def l_def)
    have run: "length_loop name i = length_loop name (i + 1 + ?n)"
      using step at by (simp add: length_loop.simps [of name i] Let_def)
    have "255 - (i + 1 + ?n) < 255 - i" using step(3) by linarith
    from less.hyps [OF this step(3)] consider
      ls where "labels_ok ls" "holds name (i + 1 + ?n) (wire ls)" "i + 1 + ?n + length (wire ls) \<le> 255"
        "length_loop name (i + 1 + ?n) = Some (i + 1 + ?n + length (wire ls))"
      | "length_loop name (i + 1 + ?n) = Some 256" by auto
    then show ?thesis
    proof cases
      case 1
      then have "labels_ok (l # ls)" "holds name i (wire (l # ls))" "i + length (wire (l # ls)) \<le> 255"
        "length_loop name i = Some (i + length (wire (l # ls)))"
        using l len run assms(1) less.prems by (simp_all add: add.commute add.left_commute)
      then show ?thesis by blast
    qed (simp add: run)
  qed
qed

lemma DomainNameLength_wire: "holds name 0 (wire ls) \<Longrightarrow> name_ok ls \<Longrightarrow> DomainNameLength name = Some (length (wire ls))"
  using length_loop_wire [of name 0 ls] by (simp add: DomainNameLength_def name_ok_def)

section \<open>Appending keeps names valid\<close>

lemma holds_blit_same: "i + length bs \<le> length z \<Longrightarrow> holds (take i z @ bs @ drop (i + length bs) z) i bs"
  by (simp add: holds_def)

lemma holds_prefix: "holds z 0 as \<Longrightarrow> take (length as) z' = take (length as) z \<Longrightarrow> holds z' 0 as"
  by (simp add: holds_def)

lemma append_name_loop_step:
  assumes "length name = 256" "holds name 0 (wire ls)" "holds src i (wire (m # ms))" "label_ok m"
    and "length (wire (ls @ [m])) \<le> MAX_DOMAIN_NAME"
  shows "\<exists>name'. append_name_loop name src i (length (wire_labels ls)) =
      append_name_loop name' src (i + length m + 1) (length (wire_labels (ls @ [m]))) \<and>
    length name' = 256 \<and> holds name' 0 (wire (ls @ [m]))"
proof -
  let ?p = "length (wire_labels ls)"
  let ?lb = "of_nat (length m) # m"
  note m = holds_label [OF assms(3,4)]
  have le: "?p + length m + 2 \<le> 255" using assms(5) by simp
  define name1 where "name1 = take ?p name @ ?lb @ drop (?p + length ?lb) name"
  have n1: "blit name ?p ?lb = Some name1" "length name1 = 256"
    using le assms(1) by (simp_all add: name1_def)
  define name' where "name' = name1[?p + length m + 1 := 0]"
  have n': "poke name1 (?p + length m + 1) 0 = Some name'" "length name' = 256"
    using le n1(2) by (simp_all add: name'_def)
  have "holds name1 0 (wire_labels ls)"
    using assms(1,2) le by (auto simp: wire_def holds_def name1_def dest: take_butlast)
  moreover have "holds name1 ?p ?lb"
    unfolding name1_def by (rule holds_blit_same) (use le assms(1) in simp)
  ultimately have "holds name1 0 (wire_labels ls @ ?lb)" by (simp only: holds_append) simp
  then have "holds name1 0 (wire_labels (ls @ [m]))" by simp
  then have "holds name' 0 (wire (ls @ [m]))"
    using le n1(2) by (simp add: wire_def name'_def)
  moreover have "append_name_loop name src i ?p = append_name_loop name' src (i + length m + 1) (length (wire_labels (ls @ [m])))"
    using m(1,2) n1(1) n'(1) le assms(4) by (simp add: append_name_loop.simps [of name src i])
  ultimately show ?thesis using n'(2) by blast
qed

lemma append_name_loop_ok:
  "length name = 256 \<Longrightarrow> holds name 0 (wire ls) \<Longrightarrow> holds src i (wire ms) \<Longrightarrow> labels_ok ms \<Longrightarrow>
    length (wire ls) \<le> MAX_DOMAIN_NAME \<Longrightarrow>
    \<exists>name' k. length name' = 256 \<and> holds name' 0 (wire (ls @ take k ms)) \<and> length (wire (ls @ take k ms)) \<le> MAX_DOMAIN_NAME \<and>
      append_name_loop name src i (length (wire_labels ls)) = Some (name',
        if length (wire (ls @ ms)) \<le> MAX_DOMAIN_NAME then Some (length (wire_labels (ls @ ms))) else None) \<and>
      (length (wire (ls @ ms)) \<le> MAX_DOMAIN_NAME \<longrightarrow> k = length ms)"
proof (induction ms arbitrary: name ls i)
  case Nil
  then show ?case by (auto intro!: exI [of _ name] simp: append_name_loop.simps [of name src i] simp del: wire_simps holds_Cons dest: holds_end)
next
  case (Cons m ms)
  have mok: "label_ok m" "labels_ok ms" using Cons.prems(4) by simp_all
  note m = holds_label [OF Cons.prems(3) mok(1)]
  show ?case
  proof (cases "length (wire (ls @ [m])) \<le> 255")
    case True
    from append_name_loop_step [OF Cons.prems(1-3) mok(1) this] obtain name1 where n1:
      "append_name_loop name src i (length (wire_labels ls)) =
        append_name_loop name1 src (i + length m + 1) (length (wire_labels (ls @ [m])))"
      "length name1 = 256" "holds name1 0 (wire (ls @ [m]))" by blast
    from Cons.IH [OF n1(2,3) m(4) mok(2) True] obtain name' k where IH: "length name' = 256"
      "holds name' 0 (wire ((ls @ [m]) @ take k ms))" "length (wire ((ls @ [m]) @ take k ms)) \<le> 255"
      "append_name_loop name1 src (i + length m + 1) (length (wire_labels (ls @ [m]))) = Some (name',
        if length (wire ((ls @ [m]) @ ms)) \<le> 255 then Some (length (wire_labels ((ls @ [m]) @ ms))) else None)"
      "length (wire ((ls @ [m]) @ ms)) \<le> 255 \<longrightarrow> k = length ms" by blast
    show ?thesis
      by (rule exI [of _ name'], rule exI [of _ "Suc k"]) (use IH n1(1) in simp)
  next
    case False
    then have "\<not> length (wire (ls @ m # ms)) \<le> 255" by simp
    moreover have "append_name_loop name src i (length (wire_labels ls)) = Some (name, None)"
      using False m(1) mok(1) by (simp add: append_name_loop.simps [of name src i])
    ultimately show ?thesis using Cons.prems(1,2,5) by (intro exI [of _ name] exI [of _ 0]) simp
  qed
qed

lemma AppendDomainName_ok:
  assumes "length name = 256" "holds name 0 (wire ls)" "name_ok ls" "holds src 0 (wire ms)" "labels_ok ms"
  shows "\<exists>name' k. length name' = 256 \<and> holds name' 0 (wire (ls @ take k ms)) \<and> name_ok (ls @ take k ms) \<and>
      AppendDomainName name src = Some (name',
        if length (wire (ls @ ms)) \<le> MAX_DOMAIN_NAME then Some (length (wire (ls @ ms)) - 1) else None) \<and>
      (length (wire (ls @ ms)) \<le> MAX_DOMAIN_NAME \<longrightarrow> k = length ms)"
proof -
  have "length (wire ls) \<le> 255" using assms(3) by (simp add: name_ok_def)
  from append_name_loop_ok [OF assms(1,2,4,5) this] obtain name' k where r: "length name' = 256"
    "holds name' 0 (wire (ls @ take k ms))" "length (wire (ls @ take k ms)) \<le> 255"
    "append_name_loop name src 0 (length (wire_labels ls)) = Some (name',
        if length (wire (ls @ ms)) \<le> 255 then Some (length (wire_labels (ls @ ms))) else None)"
    "length (wire (ls @ ms)) \<le> 255 \<longrightarrow> k = length ms" by blast
  have "labels_ok (take k ms)" using assms(5) by (auto simp: labels_ok_def list_all_iff dest: in_set_takeD)
  then show ?thesis
    using r assms(3) DomainNameLength_wire [OF assms(2,3)]
    by (intro exI [of _ name'] exI [of _ k]) (simp add: AppendDomainName_def name_ok_def)
qed

section \<open>Text and back\<close>

definition text_of :: "byte list list \<Rightarrow> byte list" where
  "text_of ls = concat (map (\<lambda>l. concat (map (escape_char c_bslash) l) @ [c_dot]) ls)"

lemma text_of_simps [simp]: "text_of [] = []"
  "text_of (l # ls) = concat (map (escape_char c_bslash) l) @ c_dot # text_of ls"
  by (simp_all add: text_of_def)

lemma convert_loop_wire:
  "holds name src (wire ls) \<Longrightarrow> labels_ok ls \<Longrightarrow> src + length (wire ls) \<le> MAX_DOMAIN_NAME \<Longrightarrow>
    convert_loop name src c_bslash out = Some (Some (out @ text_of ls))"
proof (induction ls arbitrary: src out)
  case Nil
  then show ?case by (simp add: convert_loop.simps [of name src c_bslash out])
next
  case (Cons l ls)
  have lok: "label_ok l" "labels_ok ls" using Cons.prems(2) by simp_all
  note l = holds_label [OF Cons.prems(1) lok(1)]
  have "\<not> MAX_DOMAIN_NAME \<le> src + 1 + length l" using Cons.prems(3) by simp
  moreover have "convert_loop name (src + 1 + length l) c_bslash (out @ concat (map (escape_char c_bslash) l) @ [c_dot]) =
      Some (Some (out @ text_of (l # ls)))"
    using Cons.IH [OF _ lok(2), of "src + 1 + length l"] l(4) Cons.prems(3) by (simp add: add.commute add.left_commute)
  ultimately show ?case
    using l(1,3) lok(1) by (simp add: convert_loop.simps [of name src c_bslash out] ConvertDomainLabelToCString_withescape_def)
qed

text \<open>What an escaped character looks like, by the value of the character.\<close>

lemma escape_low:
  assumes "c \<le> c_sp"
  shows "unat (c_0 + c div 100 - c_0) * 100 + unat (c_0 + c div 10 mod 10 - c_0) * 10 + unat (c_0 + c mod 10 - c_0) = unat c \<and>
    mdnsIsDigit (c_0 + c div 100) \<and> mdnsIsDigit (c_0 + c div 10 mod 10) \<and> mdnsIsDigit (c_0 + c mod 10)"
proof -
  have "\<forall>n \<in> set [0..<33]. let c = (of_nat n :: byte) in
      unat (c_0 + c div 100 - c_0) * 100 + unat (c_0 + c div 10 mod 10 - c_0) * 10 + unat (c_0 + c mod 10 - c_0) = unat c \<and>
      mdnsIsDigit (c_0 + c div 100) \<and> mdnsIsDigit (c_0 + c div 10 mod 10) \<and> mdnsIsDigit (c_0 + c mod 10)"
    by code_simp
  moreover have "unat c \<in> set [0..<33]" using assms by (simp add: word_le_nat_alt)
  ultimately show ?thesis by (auto simp: Let_def dest: bspec [of _ _ "unat c"])
qed

lemma escape_head:
  obtains h t where "escape_char c_bslash c = h # t" "h \<noteq> 0" "h \<noteq> c_dot"
proof (cases "c = c_dot \<or> c = c_bslash \<or> c \<le> c_sp")
  case True
  then show ?thesis by (intro that [of c_bslash "tl (escape_char c_bslash c)"]) (auto simp: escape_char_def)
next
  case False
  then have "c \<noteq> 0" by auto
  with False show ?thesis by (intro that [of c "[]"]) (auto simp: escape_char_def)
qed

lemma rd_drop: "drop i cs = c # r \<Longrightarrow> rd cs i = Some c \<and> drop (i + 1) cs = r"
  using drop_ConsD [of i cs c r] by simp

lemma rd_drop_at: "drop i cs = c # r \<Longrightarrow> Suc i = j \<Longrightarrow> rd cs i = Some c \<and> drop j cs = r"
  using drop_ConsD [of i cs c r] by simp

lemma dns_char_escape:
  assumes "drop i cs = escape_char c_bslash c @ r"
  shows "dns_char cs i = Some (c, i + length (escape_char c_bslash c)) \<and> drop (i + length (escape_char c_bslash c)) cs = r"
proof -
  consider (dot) "c = c_dot \<or> c = c_bslash" | (low) "c \<noteq> c_dot" "c \<noteq> c_bslash" "c \<le> c_sp"
    | (plain) "c \<noteq> c_dot" "c \<noteq> c_bslash" "\<not> c \<le> c_sp" by blast
  then show ?thesis
  proof cases
    case dot
    then have "drop i cs = c_bslash # c # r" using assms by (auto simp: escape_char_def)
    from rd_drop [OF this] have d: "rd cs i = Some c_bslash" "drop (i + 1) cs = c # r" by simp_all
    from rd_drop [OF d(2)] have "rd cs (i + 1) = Some c" "drop (i + 2) cs = r" by simp_all
    moreover have "\<not> mdnsIsDigit c" using dot by (auto simp: mdnsIsDigit_def)
    ultimately show ?thesis using d(1) dot by (auto simp: dns_char_def escape_char_def)
  next
    case low
    let ?d0 = "c_0 + c div 100" and ?d1 = "c_0 + (c div 10) mod 10" and ?d2 = "c_0 + c mod 10"
    have esc: "escape_char c_bslash c = [c_bslash, ?d0, ?d1, ?d2]" using low by (simp add: escape_char_def)
    with assms have "drop i cs = c_bslash # ?d0 # ?d1 # ?d2 # r" by simp
    from rd_drop [OF this] have d: "rd cs i = Some c_bslash" "drop (i + 1) cs = ?d0 # ?d1 # ?d2 # r" by simp_all
    from rd_drop [OF d(2)] have d0: "rd cs (i + 1) = Some ?d0" "drop (i + 2) cs = ?d1 # ?d2 # r" by simp_all
    have "Suc (i + 2) = i + 3" "Suc (i + 3) = i + 4" by simp_all
    from rd_drop_at [OF d0(2) this(1)] rd_drop_at [OF _ this(2)] have
      d1: "rd cs (i + 2) = Some ?d1" "drop (i + 3) cs = ?d2 # r" and d2: "rd cs (i + 3) = Some ?d2" "drop (i + 4) cs = r"
      by blast+
    have c: "unat c \<le> 32" using low(3) by (simp add: word_le_nat_alt)
    have "dns_char cs i = Some (c, i + 4)"
      unfolding dns_char_def using c d(1) d0(1) d1(1) d2(1) escape_low [OF low(3)] by (simp add: Let_def del: add_diff_cancel_left')
    moreover have "length (escape_char c_bslash c) = 4" unfolding esc by simp
    ultimately show ?thesis using d2(2) by (simp only:)
  next
    case plain
    then have esc: "escape_char c_bslash c = [c]" by (simp add: escape_char_def)
    with assms have "drop i cs = c # r" by simp
    from rd_drop [OF this] plain esc show ?thesis by (simp add: dns_char_def)
  qed
qed

lemma label_loop_escape:
  "drop i cs = concat (map (escape_char c_bslash) l) @ c_dot # r \<Longrightarrow> ptr + length l \<le> 254 \<Longrightarrow>
    length name = 256 \<Longrightarrow>
    \<exists>i'. label_loop name cs i ptr = Some (take ptr name @ l @ drop (ptr + length l) name, i', ptr + length l) \<and>
      drop i' cs = c_dot # r"
proof (induction l arbitrary: name i ptr)
  case Nil
  then have "drop i cs = c_dot # r" by simp
  from rd_drop [OF this] Nil show ?case by (simp add: label_loop.simps [of name cs i ptr])
next
  case (Cons c l)
  let ?n = "length (escape_char c_bslash c)"
  have at: "drop i cs = escape_char c_bslash c @ concat (map (escape_char c_bslash) l) @ c_dot # r"
    using Cons.prems(1) by simp
  obtain h t where h: "escape_char c_bslash c = h # t" "h \<noteq> 0" "h \<noteq> c_dot" using escape_head by blast
  have rd: "rd cs i = Some h" using rd_drop [of i cs h] at h(1) by simp
  note c = dns_char_escape [OF at]
  have len: "ptr < 254" "ptr < length name" using Cons.prems(2,3) by simp_all
  let ?name = "name[ptr := c]"
  have "ptr + 1 + length l \<le> 254" "length ?name = 256" using Cons.prems(2,3) by simp_all
  from Cons.IH [OF _ this] c obtain i' where
    IH: "label_loop ?name cs (i + ?n) (ptr + 1) =
        Some (take (ptr + 1) ?name @ l @ drop (ptr + 1 + length l) ?name, i', ptr + 1 + length l)"
      "drop i' cs = c_dot # r" by blast
  have "label_loop name cs i ptr = label_loop ?name cs (i + ?n) (ptr + 1)"
    using rd h(2,3) len c by (simp add: label_loop.simps [of name cs i ptr])
  moreover have "take (ptr + 1) ?name @ l @ drop (ptr + 1 + length l) ?name = take ptr name @ (c # l) @ drop (ptr + length (c # l)) name"
    using len take_Suc_update [of ptr name c] by simp
  ultimately show ?case using IH by simp
qed

lemma names_loop_text:
  "drop i cs = text_of ls \<Longrightarrow> labels_ok ls \<Longrightarrow> ptr + length (wire ls) \<le> MAX_DOMAIN_NAME \<Longrightarrow> length name = 256 \<Longrightarrow>
    i \<le> length cs \<Longrightarrow>
    names_loop name cs i ptr = Some (take ptr name @ wire ls @ drop (ptr + length (wire ls)) name, Some (ptr + length (wire ls)))"
proof (induction ls arbitrary: name i ptr)
  case Nil
  then have "i = length cs" by simp
  then have "rd cs i = Some 0" by simp
  with Nil show ?case by (simp add: names_loop.simps [of name cs i ptr] upd_conv_take_nth_drop)
next
  case (Cons l ls)
  have lok: "label_ok l" "labels_ok ls" using Cons.prems(2) by simp_all
  have at: "drop i cs = concat (map (escape_char c_bslash) l) @ c_dot # text_of ls" using Cons.prems(1) by simp
  obtain c l' where "l = c # l'" using label_length(4) [OF lok(1)] by (cases l) auto
  moreover obtain h t where "escape_char c_bslash c = h # t" "h \<noteq> 0" "h \<noteq> c_dot" using escape_head by blast
  ultimately have h: "rd cs i = Some h" "h \<noteq> 0" "h \<noteq> c_dot" using rd_drop [of i cs h] at by simp_all
  have fit: "ptr + 1 + length l \<le> 254" "ptr + 1 + length l + length (wire ls) \<le> 255" using Cons.prems(3) by simp_all
  let ?n1 = "take (ptr + 1) name @ l @ drop (ptr + 1 + length l) name"
  obtain i' where l: "label_loop name cs i (ptr + 1) = Some (?n1, i', ptr + 1 + length l)" "drop i' cs = c_dot # text_of ls"
    using label_loop_escape [OF at fit(1) Cons.prems(4)] by blast
  note dot = rd_drop [OF l(2)]
  let ?n2 = "?n1[ptr := of_nat (length l)]"
  have n2: "length ?n2 = 256" "ptr < length ?n1" using fit(1) Cons.prems(4) by simp_all
  have i': "i' + 1 \<le> length cs" using l(2) drop_ConsD [OF l(2)] by simp
  have IH: "names_loop ?n2 cs (i' + 1) (ptr + 1 + length l) = Some (take (ptr + 1 + length l) ?n2 @ wire ls @
      drop (ptr + 1 + length l + length (wire ls)) ?n2, Some (ptr + 1 + length l + length (wire ls)))"
    by (rule Cons.IH) (use dot lok fit n2 i' in simp_all)
  have "\<not> MAX_DOMAIN_LABEL < ptr + 1 + length l - ptr - 1" using label_length(5) [OF lok(1)] by simp
  then have "names_loop name cs i ptr = names_loop ?n2 cs (i' + 1) (ptr + 1 + length l)"
    using h l dot fit(1) n2(2) by (simp add: names_loop.simps [of name cs i ptr])
  moreover have "take (ptr + 1 + length l) ?n2 = take ptr name @ of_nat (length l) # l"
    using fit(1) Cons.prems(4) n2(2) by (simp add: take_update_swap list_update_append take_Suc_conv_app_nth)
  moreover have "drop (ptr + 1 + length l + length (wire ls)) ?n2 = drop (ptr + length (wire (l # ls))) name"
    using fit Cons.prems(4) by (simp add: add.commute add.left_commute)
  ultimately show ?case using IH by (simp add: add.commute add.left_commute)
qed

text \<open>
  How long the text gets: four bytes for a byte and a dot for a label. With at most 63 bytes in a
  label, 254 bytes of labels make at least four labels when the text would be longest.
\<close>

lemma escape_length: "length (escape_char esc c) \<le> 4"
  by (simp add: escape_char_def)

lemma text_of_length: "length (text_of ls) + 3 * length ls \<le> 4 * length (wire_labels ls)"
proof (induction ls)
  case (Cons l ls)
  have "length (concat (map (escape_char c_bslash) l)) \<le> 4 * length l"
  proof (induction l)
    case (Cons c l)
    with escape_length [of c_bslash c] show ?case by simp
  qed simp
  with Cons show ?case by simp
qed simp

lemma wire_labels_length: "labels_ok ls \<Longrightarrow> length (wire_labels ls) \<le> 64 * length ls"
  by (induction ls) (auto simp: label_ok_def)

lemma text_of_bound:
  assumes "name_ok ls"
  shows "length (text_of ls) \<le> 1004"
proof (cases "length ls \<le> 3")
  case True
  with assms wire_labels_length [of ls] text_of_length [of ls] show ?thesis by (simp add: name_ok_def)
next
  case False
  with assms text_of_length [of ls] show ?thesis by (simp add: name_ok_def)
qed

section \<open>Properties\<close>

text \<open>
  C39: The length of a domain name is found for every buffer without an access outside of it: the
  number of its bytes when the buffer holds a valid name, and 256 exactly when it does not.
\<close>

theorem DomainNameLength_valid:
  assumes "length name = 256"
  shows "\<exists>n. DomainNameLength name = Some n \<and>
    (if \<exists>ls. name_ok ls \<and> holds name 0 (wire ls)
     then \<exists>ls. name_ok ls \<and> holds name 0 (wire ls) \<and> n = length (wire ls) else n = 256)"
proof -
  have "(0::nat) < 255" by simp
  from length_loop_cases [OF assms this] show ?thesis
  proof
    assume "\<exists>ls. labels_ok ls \<and> holds name 0 (wire ls) \<and> 0 + length (wire ls) \<le> 255 \<and>
      length_loop name 0 = Some (0 + length (wire ls))"
    then show ?thesis by (auto simp: DomainNameLength_def name_ok_def)
  next
    assume bad: "length_loop name 0 = Some (255 + 1)"
    have "\<not> (name_ok ls \<and> holds name 0 (wire ls))" for ls
    proof
      assume "name_ok ls \<and> holds name 0 (wire ls)"
      with DomainNameLength_wire [of name ls] bad show False by (simp add: DomainNameLength_def name_ok_def)
    qed
    with bad show ?thesis by (auto simp: DomainNameLength_def)
  qed
qed

theorem DomainNameLength_valid_witness:
  "\<exists>n. DomainNameLength (replicate 256 1) = Some n \<and>
    (if \<exists>ls. name_ok ls \<and> holds (replicate 256 1) 0 (wire ls)
     then \<exists>ls. name_ok ls \<and> holds (replicate 256 1) 0 (wire ls) \<and> n = length (wire ls) else n = 256)"
  by (rule DomainNameLength_valid) simp

text \<open>
  C40: Two valid names are the same exactly when their labels are equal up to the case of letters,
  wherever the names stand.
\<close>

theorem SameDomainName_iff:
  assumes "holds a i (wire ls)" and "holds b j (wire ms)" and "name_ok ls" and "name_ok ms"
  shows "SameDomainName a i b j = Some (map (map lower) ls = map (map lower) ms)"
  using same_name_loop_eq [OF assms(1,2), of "i + 255"] assms(3,4) by (simp add: SameDomainName_def name_ok_def)

theorem SameDomainName_iff_witness:
  "SameDomainName (wire [bytes_of ''Www'', bytes_of ''Org'']) 0 (0 # wire [bytes_of ''wWW'', bytes_of ''org'']) 1 = Some True"
proof -
  let ?a = "[bytes_of ''Www'', bytes_of ''Org'']" and ?b = "[bytes_of ''wWW'', bytes_of ''org'']"
  have "SameDomainName (wire ?a) 0 (0 # wire ?b) 1 = Some (map (map lower) ?a = map (map lower) ?b)"
    by (rule SameDomainName_iff) (simp_all add: name_ok_def label_ok_def)
  then show ?thesis by (simp add: lower_def mDNSIsUpperCase_def)
qed

text \<open>
  C25: A valid name other than the root is written as text of at most 1005 bytes with the
  terminator, and making a name from that text gives the name back.
\<close>

theorem name_text_roundtrip:
  assumes "name_ok ls" and "ls \<noteq> []" and "holds name 0 (wire ls)" and "length buf = 256"
  shows "\<exists>text buf'. ConvertDomainNameToCString_withescape name c_bslash = Some (Some text) \<and> length text + 1 \<le> 1005 \<and>
    MakeDomainNameFromDNSNameString buf text = Some (buf', Some (length (wire ls))) \<and> holds buf' 0 (wire ls)"
proof -
  obtain l ls' where ls: "ls = l # ls'" using assms(2) by (cases ls) auto
  have "peek name 0 \<noteq> Some 0" "peek name 0 \<noteq> None"
    using holds_label(1) [of name 0 l ls'] assms(1,3) ls by (simp_all add: name_ok_def)
  then have conv: "ConvertDomainNameToCString_withescape name c_bslash = Some (Some (text_of ls))"
    using convert_loop_wire [OF assms(3), of "[]"] assms(1)
    by (auto simp: ConvertDomainNameToCString_withescape_def name_ok_def simp del: wire_length)
  let ?buf = "buf[0 := 0]" and ?n = "length (wire ls)"
  have buf: "length ?buf = 256" "poke buf 0 0 = Some ?buf" "holds ?buf 0 (wire [])" using assms(4) by simp_all
  have "DomainNameLength ?buf = Some 1" using DomainNameLength_wire [OF buf(3)] by (simp add: name_ok_def)
  moreover have "names_loop ?buf (text_of ls) 0 0 = Some (take 0 ?buf @ wire ls @ drop (0 + ?n) ?buf, Some (0 + ?n))"
    by (rule names_loop_text) (use assms(1) buf(1) in \<open>simp_all add: name_ok_def\<close>)
  ultimately have "MakeDomainNameFromDNSNameString buf (text_of ls) = Some (wire ls @ drop ?n ?buf, Some ?n)"
    using buf(2) by (simp add: MakeDomainNameFromDNSNameString_def AppendDNSNameString_def)
  moreover have "holds (wire ls @ drop ?n ?buf) 0 (wire ls)" by (simp add: holds_take)
  ultimately show ?thesis using conv text_of_bound [OF assms(1)] by auto
qed

theorem name_text_roundtrip_witness:
  "\<exists>text buf'. ConvertDomainNameToCString_withescape (wire [bytes_of ''a b.c'', bytes_of ''local'']) c_bslash = Some (Some text) \<and>
    length text + 1 \<le> 1005 \<and> MakeDomainNameFromDNSNameString (replicate 256 7) text =
      Some (buf', Some (length (wire [bytes_of ''a b.c'', bytes_of ''local'']))) \<and>
    holds buf' 0 (wire [bytes_of ''a b.c'', bytes_of ''local''])"
  by (rule name_text_roundtrip) (simp_all add: name_ok_def label_ok_def)

text \<open>
  Appending a name to a valid name in its buffer always leaves a valid name: the labels of
  both when they fit 255 bytes, otherwise the null pointer and some of the labels.
\<close>

theorem AppendDomainName_valid:
  assumes "length name = 256" and "holds name 0 (wire ls)" and "name_ok ls" and "holds src 0 (wire ms)" and "labels_ok ms"
  shows "\<exists>name' k. length name' = 256 \<and> holds name' 0 (wire (ls @ take k ms)) \<and> name_ok (ls @ take k ms) \<and>
    AppendDomainName name src = Some (name',
      if length (wire (ls @ ms)) \<le> MAX_DOMAIN_NAME then Some (length (wire (ls @ ms)) - 1) else None) \<and>
    (length (wire (ls @ ms)) \<le> MAX_DOMAIN_NAME \<longrightarrow> k = length ms)"
  by (rule AppendDomainName_ok) (fact assms)+

theorem AppendDomainName_valid_witness:
  "\<exists>name' k. length name' = 256 \<and> holds name' 0 (wire ([bytes_of ''a''] @ take k [bytes_of ''b''])) \<and>
    name_ok ([bytes_of ''a''] @ take k [bytes_of ''b'']) \<and>
    AppendDomainName (wire [bytes_of ''a''] @ replicate 253 0) (wire [bytes_of ''b'']) = Some (name',
      if length (wire ([bytes_of ''a''] @ [bytes_of ''b''])) \<le> 255 then Some (length (wire ([bytes_of ''a''] @ [bytes_of ''b''])) - 1) else None) \<and>
    (length (wire ([bytes_of ''a''] @ [bytes_of ''b''])) \<le> 255 \<longrightarrow> k = length [bytes_of ''b''])"
  by (rule AppendDomainName_valid) (simp_all add: name_ok_def label_ok_def)

text \<open>
  The text of the root, a single dot, is refused as a name; and a text that ends in a backslash is
  read behind its terminator.
\<close>

lemma root_text_refused:
  "ConvertDomainNameToCString_withescape [0] c_bslash = Some (Some [c_dot])"
  "map_option snd (MakeDomainNameFromDNSNameString (replicate 256 0) [c_dot]) = Some None"
  by code_simp+

lemma trailing_backslash_overrun: "MakeDomainNameFromDNSNameString (replicate 256 0) [c_a, c_bslash] = None"
  by code_simp

end

