(* ===== verification/Mdns_Packet.thy ===== *)
theory Mdns_Packet
  imports Mdns_Name
begin

text \<open>
  Domain names in DNS messages (\<open>src/test5/mDNSCore/DNSCommon.c\<close>): reading and skipping a name with
  compression pointers, the search for a name that is in the message already, writing names and
  questions, and finding the sections of a message. A message is its bytes from the header on, as
  large as its buffer; \<open>end\<close> is the index behind the bytes in use. \<open>None\<close> is an access outside of a
  buffer, an inner \<open>None\<close> the null pointer.
\<close>

section \<open>Reading names\<close>

text \<open>The index a compression pointer stands for.\<close>

definition pointer_target :: "byte \<Rightarrow> byte \<Rightarrow> nat" where
  "pointer_target hi lo = unat (push_bit 8 (ucast (hi AND 0x3f)) OR ucast lo :: u16)"

text \<open>A byte that starts a compression pointer: the second component of the measure below.\<close>

definition is_pointer :: "byte list \<Rightarrow> nat \<Rightarrow> bool" where
  "is_pointer pkt p \<longleftrightarrow> (case peek pkt p of None \<Rightarrow> False | Some b \<Rightarrow> b AND 0xc0 = 0xc0)"

lemma and_c0_zero: "b AND 0xc0 = (0::byte) \<Longrightarrow> b AND 0xc0 \<noteq> 0xc0"
  by simp

function get_labels :: "byte list \<Rightarrow> nat \<Rightarrow> nat \<Rightarrow> byte list \<Rightarrow> nat option \<Rightarrow> (nat option \<times> byte list) option" where
  "get_labels pkt end ptr np nextbyte = do {
     len \<leftarrow> peek pkt ptr;
     let ptr = ptr + 1;
     if len = 0 then Some (Some (case nextbyte of None \<Rightarrow> ptr | Some n \<Rightarrow> n), np @ [0])
     else if len AND 0xc0 = 0 then
       (if ptr + unat len \<ge> end then Some (None, np @ [0])
        else if length np + 1 + unat len \<ge> MAX_DOMAIN_NAME then Some (None, np @ [0])
        else do {
          bs \<leftarrow> slice pkt ptr (unat len);
          get_labels pkt end (ptr + unat len) (np @ len # bs) nextbyte
        })
     else if len AND 0xc0 = 0xc0 then do {
       lo \<leftarrow> peek pkt ptr;
       let offset = pointer_target len lo;
       let nextbyte = (case nextbyte of None \<Rightarrow> Some (ptr + 1) | Some n \<Rightarrow> Some n);
       if offset \<ge> end then Some (None, np @ [0])
       else do {
         b \<leftarrow> peek pkt offset;
         if b AND 0xc0 \<noteq> 0 then Some (None, np @ [0])
         else get_labels pkt end offset np nextbyte
       }
     }
     else Some (None, np @ [0])
   }"
  by pat_completeness auto
termination
  by (relation "inv_image (less_than <*lex*> less_than)
      (\<lambda>(pkt, end, ptr, np, nextbyte). (256 - length np, if is_pointer pkt ptr then 1 else 0 :: nat))")
    (auto simp: is_pointer_def dest: slice_SomeD)

declare get_labels.simps [simp del]

text \<open>\<open>name\<close> is what the buffer for the name held before.\<close>

definition getDomainName :: "byte list \<Rightarrow> nat \<Rightarrow> nat \<Rightarrow> byte list \<Rightarrow> (nat option \<times> byte list) option" where
  "getDomainName pkt ptr end name = (if ptr \<ge> end then Some (None, name) else get_labels pkt end ptr [] None)"

function skip_loop :: "byte list \<Rightarrow> nat \<Rightarrow> nat \<Rightarrow> u16 \<Rightarrow> nat option option" where
  "skip_loop pkt end ptr total1 = do {
     len \<leftarrow> peek pkt ptr;
     let ptr = ptr + 1;
     if len = 0 then Some (Some ptr)
     else if len AND 0xc0 = 0 then
       (if ptr + unat len \<ge> end then Some None
        else if unat total1 + 1 + unat len \<ge> MAX_DOMAIN_NAME then Some None
        else skip_loop pkt end (ptr + unat len) (total1 + (1 + ucast len)))
     else if len AND 0xc0 = 0xc0 then Some (Some (ptr + 1))
     else Some None
   }"
  by pat_completeness auto
termination
  by (relation "measure (\<lambda>(pkt, end, ptr, total1). length pkt - ptr)") (auto dest: peek_SomeD)

declare skip_loop.simps [simp del]

text \<open>The null pointer lies before the message and is refused like a pointer behind it.\<close>

definition skipDomainName :: "byte list \<Rightarrow> nat option \<Rightarrow> nat \<Rightarrow> nat option option" where
  "skipDomainName pkt ptr end = (case ptr of None \<Rightarrow> Some None
     | Some p \<Rightarrow> if p \<ge> end then Some None else skip_loop pkt end p 0)"

section \<open>Sections of a message\<close>

definition skipResourceRecord :: "byte list \<Rightarrow> nat option \<Rightarrow> nat \<Rightarrow> nat option option" where
  "skipResourceRecord pkt ptr end = do {
     ptr \<leftarrow> skipDomainName pkt ptr end;
     case ptr of None \<Rightarrow> Some None
     | Some p \<Rightarrow> if p + 10 > end then Some None
       else do {
         b8 \<leftarrow> peek pkt (p + 8);
         b9 \<leftarrow> peek pkt (p + 9);
         let pktrdlength = unat (push_bit 8 (ucast b8) OR ucast b9 :: u16);
         Some (if p + 10 + pktrdlength > end then None else Some (p + 10 + pktrdlength))
       }
   }"

definition skipQuestion :: "byte list \<Rightarrow> nat option \<Rightarrow> nat \<Rightarrow> nat option option" where
  "skipQuestion pkt ptr end = do {
     ptr \<leftarrow> skipDomainName pkt ptr end;
     Some (case ptr of None \<Rightarrow> None | Some p \<Rightarrow> if p + 4 > end then None else Some (p + 4))
   }"

text \<open>The counts in the header are in the byte order of a little-endian host.\<close>

definition host16 :: "byte list \<Rightarrow> nat \<Rightarrow> nat option" where
  "host16 pkt i = do {
     lo \<leftarrow> peek pkt i;
     hi \<leftarrow> peek pkt (i + 1);
     Some (unat (push_bit 8 (ucast hi) OR ucast lo :: u16))
   }"

text \<open>Skipping \<open>n\<close> items, up to the first one that is malformed.\<close>

fun skip_items :: "(nat option \<Rightarrow> nat option option) \<Rightarrow> nat \<Rightarrow> nat option \<Rightarrow> nat option option" where
  "skip_items skip 0 ptr = Some ptr"
| "skip_items skip (Suc n) ptr = (if ptr = None then Some None
     else do { ptr \<leftarrow> skip ptr; skip_items skip n ptr })"

text \<open>The same without the test for the null pointer.\<close>

fun skip_all :: "(nat option \<Rightarrow> nat option option) \<Rightarrow> nat \<Rightarrow> nat option \<Rightarrow> nat option option" where
  "skip_all skip 0 ptr = Some ptr"
| "skip_all skip (Suc n) ptr = do { ptr \<leftarrow> skip ptr; skip_all skip n ptr }"

definition LocateAnswers :: "byte list \<Rightarrow> nat \<Rightarrow> nat option option" where
  "LocateAnswers pkt end = do {
     n \<leftarrow> host16 pkt 4;
     skip_items (\<lambda>p. skipQuestion pkt p end) n (Some 12)
   }"

definition LocateAuthorities :: "byte list \<Rightarrow> nat \<Rightarrow> nat option option" where
  "LocateAuthorities pkt end = do {
     ptr \<leftarrow> LocateAnswers pkt end;
     n \<leftarrow> host16 pkt 6;
     skip_items (\<lambda>p. skipResourceRecord pkt p end) n ptr
   }"

definition LocateAdditionals :: "byte list \<Rightarrow> nat \<Rightarrow> nat option option" where
  "LocateAdditionals pkt end = do {
     ptr \<leftarrow> LocateAuthorities pkt end;
     n \<leftarrow> host16 pkt 8;
     skip_all (\<lambda>p. skipResourceRecord pkt p end) n ptr
   }"

section \<open>Compression\<close>

text \<open>The bytes \<open>targ[i]\<close> and \<open>name[i]\<close> up to the first difference.\<close>

fun bytes_match :: "byte list \<Rightarrow> nat \<Rightarrow> byte list \<Rightarrow> nat \<Rightarrow> nat \<Rightarrow> bool option" where
  "bytes_match pkt targ name n 0 = Some True"
| "bytes_match pkt targ name n (Suc k) = do {
     a \<leftarrow> peek pkt targ;
     b \<leftarrow> peek name n;
     if a \<noteq> b then Some False else bytes_match pkt (targ + 1) name (n + 1) k
   }"

function match_loop :: "byte list \<Rightarrow> nat \<Rightarrow> byte list \<Rightarrow> nat \<Rightarrow> nat \<Rightarrow> bool option" where
  "match_loop pkt end name n targ = do {
     len \<leftarrow> peek name n;
     if targ + unat len < end then do {
       same \<leftarrow> bytes_match pkt targ name n (unat len + 1);
       if \<not> same then Some False
       else do {
         let targ = targ + 1 + unat len;
         let n = n + 1 + unat len;
         x \<leftarrow> peek name n;
         t \<leftarrow> peek pkt targ;
         if x = 0 then Some (t = 0)
         else if t < 0x40 then match_loop pkt end name n targ
         else if t < 0xc0 then Some False
         else if targ + 1 \<ge> end then Some False
         else do {
           lo \<leftarrow> peek pkt (targ + 1);
           let pointertarget = unat (t AND 0x3f) * 256 + unat lo;
           if targ < pointertarget then Some False
           else do {
             b \<leftarrow> peek pkt pointertarget;
             if b \<ge> 0x40 then Some False else match_loop pkt end name n pointertarget
           }
         }
       }
     }
     else Some False
   }"
  by pat_completeness auto
termination
  by (relation "measure (\<lambda>(pkt, end, name, n, targ). length name - n)") (auto dest: peek_SomeD)

declare match_loop.simps [simp del]

text \<open>From the candidate below \<open>r\<close> down to the start of the message.\<close>

fun search_loop :: "byte list \<Rightarrow> nat \<Rightarrow> byte list \<Rightarrow> nat \<Rightarrow> nat \<Rightarrow> nat option option" where
  "search_loop pkt end name n 0 = Some None"
| "search_loop pkt end name n (Suc r) = do {
     two \<leftarrow> bytes_match pkt r name n 2;
     found \<leftarrow> (if two then match_loop pkt end name n r else Some False);
     if found then Some (Some r) else search_loop pkt end name n r
   }"

definition FindCompressionPointer :: "byte list \<Rightarrow> nat \<Rightarrow> byte list \<Rightarrow> nat \<Rightarrow> nat option option" where
  "FindCompressionPointer pkt end name n = do {
     len \<leftarrow> peek name n;
     if len = 0 then Some None else search_loop pkt end name n (end - unat len)
   }"

section \<open>Writing names\<close>

text \<open>
  \<open>msg\<close> tells whether there is a message to point into; \<open>start\<close> is where the name begins, the end
  of the bytes that are searched.
\<close>

function put_loop :: "bool \<Rightarrow> byte list \<Rightarrow> nat \<Rightarrow> nat \<Rightarrow> nat \<Rightarrow> byte list \<Rightarrow> nat \<Rightarrow> (byte list \<times> nat option) option" where
  "put_loop msg pkt start ptr limit name np = do {
     len \<leftarrow> peek name np;
     if len \<noteq> 0 \<and> ptr + 1 < limit then
       (if unat len > MAX_DOMAIN_LABEL then Some (pkt, None)
        else if np + 1 + unat len \<ge> MAX_DOMAIN_NAME then Some (pkt, None)
        else do {
          pointer \<leftarrow> (if msg then FindCompressionPointer pkt start name np else Some None);
          case pointer of
            Some r \<Rightarrow> do {
              let offset = (of_nat r :: u16);
              pkt \<leftarrow> poke pkt ptr (ucast (0xc0 OR drop_bit 8 offset));
              pkt \<leftarrow> poke pkt (ptr + 1) (ucast (offset AND 0xff));
              Some (pkt, Some (ptr + 2))
            }
          | None \<Rightarrow>
              if ptr + 1 + unat len \<ge> limit then Some (pkt, None)
              else do {
                bs \<leftarrow> slice name np (unat len + 1);
                pkt \<leftarrow> blit pkt ptr bs;
                put_loop msg pkt start (ptr + 1 + unat len) limit name (np + 1 + unat len)
              }
        })
     else if ptr < limit then do {
       pkt \<leftarrow> poke pkt ptr 0;
       Some (pkt, Some (ptr + 1))
     }
     else Some (pkt, None)
   }"
  by pat_completeness auto
termination
  by (relation "measure (\<lambda>(msg, pkt, start, ptr, limit, name, np). length name - np)") (auto dest: peek_SomeD)

declare put_loop.simps [simp del]

definition putDomainNameAsLabels :: "bool \<Rightarrow> byte list \<Rightarrow> nat \<Rightarrow> nat \<Rightarrow> byte list \<Rightarrow> (byte list \<times> nat option) option" where
  "putDomainNameAsLabels msg pkt ptr limit name = put_loop msg pkt ptr ptr limit name 0"

section \<open>The grammar of names in a message\<close>

text \<open>
  A name of labels that starts at \<open>p\<close> in the first \<open>e\<close> bytes; \<open>q\<close> is where the bytes behind it start.
\<close>

inductive name_at :: "byte list \<Rightarrow> nat \<Rightarrow> nat \<Rightarrow> nat \<Rightarrow> byte list list \<Rightarrow> bool" for pkt e where
  root: "p < e \<Longrightarrow> pkt ! p = 0 \<Longrightarrow> name_at pkt e p (p + 1) []"
| label: "label_ok l \<Longrightarrow> holds pkt p (of_nat (length l) # l) \<Longrightarrow> p + 1 + length l < e \<Longrightarrow>
    name_at pkt e (p + 1 + length l) q ls \<Longrightarrow> name_at pkt e p q (l # ls)"
| pointer: "p + 1 < e \<Longrightarrow> pkt ! p AND 0xc0 = 0xc0 \<Longrightarrow> t = pointer_target (pkt ! p) (pkt ! (p + 1)) \<Longrightarrow>
    t < e \<Longrightarrow> pkt ! t AND 0xc0 = 0 \<Longrightarrow> name_at pkt e t q ls \<Longrightarrow> name_at pkt e p (p + 2) ls"

lemma name_at_bounds: "name_at pkt e p q ls \<Longrightarrow> p < e \<and> labels_ok ls"
  by (induction rule: name_at.induct) auto

lemma name_at_end: "name_at pkt e p q ls \<Longrightarrow> p < q \<and> q \<le> e"
  by (induction rule: name_at.induct) auto

text \<open>A name only depends on the bytes before the end.\<close>

lemma holds_prefix_iff:
  assumes "take e pkt' = take e pkt" and "p + length bs \<le> e"
  shows "holds pkt' p bs = holds pkt p bs"
proof -
  have "take (length bs) (drop p z) = take (length bs) (drop p (take e z))" for z :: "'a list"
    using assms(2) by (simp add: drop_take min_def)
  from this [of pkt'] this [of pkt] show ?thesis unfolding holds_def assms(1) by simp
qed

lemma nth_prefix: "take e pkt' = take e pkt \<Longrightarrow> i < e \<Longrightarrow> pkt' ! i = pkt ! i"
  by (metis nth_take)

lemma name_at_mono:
  "name_at pkt e p q ls \<Longrightarrow> take e pkt' = take e pkt \<Longrightarrow> e \<le> e' \<Longrightarrow> name_at pkt' e' p q ls"
proof (induction rule: name_at.induct)
  case (root p)
  then show ?case using nth_prefix [OF root(3)] by (intro name_at.root) auto
next
  case (label l p q ls)
  then show ?case using holds_prefix_iff [OF label(6), of p "of_nat (length l) # l"] by (intro name_at.label) auto
next
  case (pointer p t q ls)
  then show ?case using nth_prefix [OF pointer(8)] by (intro name_at.pointer [of p e' pkt' t q ls]) auto
qed

text \<open>Bytes that are lengths and bytes that start pointers.\<close>

lemma all_bytes:
  assumes "\<forall>n \<in> set [0..<256]. P (of_nat n :: byte)"
  shows "P b"
proof -
  have "unat b < 2 ^ LENGTH(8)" by (rule unsigned_less)
  then have "unat b < 256" by simp
  then have "unat b \<in> set [0..<256]" by simp
  from bspec [OF assms this] have "P (of_nat (unat b))" .
  then show ?thesis by simp
qed

lemma and_c0:
  fixes b :: byte
  shows "b AND 0xc0 = 0 \<longleftrightarrow> unat b < 64" and "b AND 0xc0 = 0xc0 \<longleftrightarrow> 0xc0 \<le> b" and "b < 0x40 \<longleftrightarrow> unat b < 64"
proof -
  show "b AND 0xc0 = 0 \<longleftrightarrow> unat b < 64" by (rule all_bytes [of _ b], code_simp)
  show "b AND 0xc0 = 0xc0 \<longleftrightarrow> 0xc0 \<le> b" by (rule all_bytes [of _ b], code_simp)
  show "b < 0x40 \<longleftrightarrow> unat b < 64" by (simp add: word_less_nat_alt)
qed

lemma label_length_c0 [simp]: "label_ok l \<Longrightarrow> (of_nat (length l) :: byte) AND 0xc0 = 0"
  using label_length(1) [of l] by (auto simp: and_c0 label_ok_def)

section \<open>Reading follows the grammar\<close>

lemma get_labels_complete:
  "name_at pkt e p q ls \<Longrightarrow> e \<le> length pkt \<Longrightarrow> length np + length (wire ls) \<le> MAX_DOMAIN_NAME \<Longrightarrow>
    get_labels pkt e p np nb = Some (Some (case nb of None \<Rightarrow> q | Some n \<Rightarrow> n), np @ wire ls)"
proof (induction arbitrary: np nb rule: name_at.induct)
  case (root p)
  then show ?case by (simp add: get_labels.simps [of pkt e p np nb] split: option.split)
next
  case (label l p q ls)
  note un = get_labels.simps [of pkt e p np nb]
  have at: "peek pkt p = Some (of_nat (length l))" "slice pkt (p + 1) (length l) = Some l"
    using label.hyps(2,3) label.prems(1) holds_slice [of pkt "p + 1" l] by simp_all
  have "\<not> e \<le> p + 1 + length l" "\<not> 255 \<le> length np + 1 + length l" using label.hyps(3) label.prems(2) by simp_all
  with at label.hyps(1) label.IH [of "np @ of_nat (length l) # l" nb] label.prems show ?case
    by (simp add: un Let_def)
next
  case (pointer p t q ls)
  have at: "peek pkt p = Some (pkt ! p)" "peek pkt (p + 1) = Some (pkt ! (p + 1))" "peek pkt t = Some (pkt ! t)"
    using pointer.hyps(1,4) pointer.prems(1) by simp_all
  have "pkt ! p \<noteq> 0" "pkt ! p AND 0xc0 \<noteq> 0" using pointer.hyps(2) by auto
  then have "get_labels pkt e p np nb = get_labels pkt e t np (case nb of None \<Rightarrow> Some (p + 2) | Some n \<Rightarrow> Some n)"
    using at pointer.hyps by (simp add: get_labels.simps [of pkt e p np nb] Let_def split: option.split)
  with pointer.IH [OF pointer.prems, of "case nb of None \<Rightarrow> Some (p + 2) | Some n \<Rightarrow> Some n"] show ?case
    by (simp split: option.splits)
qed

lemma get_labels_sound:
  "get_labels pkt e p np nb = Some (Some q', nm) \<Longrightarrow> p < e \<Longrightarrow> e \<le> length pkt \<Longrightarrow> pkt ! (e - 1) < 0xc0 \<Longrightarrow>
    length np < MAX_DOMAIN_NAME \<Longrightarrow>
    \<exists>ls q. name_at pkt e p q ls \<and> nm = np @ wire ls \<and> length nm \<le> MAX_DOMAIN_NAME \<and>
      q' = (case nb of None \<Rightarrow> q | Some n \<Rightarrow> n)"
proof (induction pkt e p np nb rule: get_labels.induct)
  case (1 pkt e p np nb)
  note run = 1(3) [unfolded get_labels.simps [of pkt e p np nb]]
  have at: "peek pkt p = Some (pkt ! p)" using 1(4,5) by simp
  let ?n = "unat (pkt ! p)"
  consider (stop) "pkt ! p = 0" | (label) "pkt ! p \<noteq> 0" "pkt ! p AND 0xc0 = 0" | (pointer) "pkt ! p \<noteq> 0" "pkt ! p AND 0xc0 = 0xc0"
    | (bad) "pkt ! p \<noteq> 0" "pkt ! p AND 0xc0 \<noteq> 0" "pkt ! p AND 0xc0 \<noteq> 0xc0" by blast
  then show ?case
  proof cases
    case stop
    with run at have "nm = np @ wire []" "q' = (case nb of None \<Rightarrow> p + 1 | Some n \<Rightarrow> n)" by (auto split: option.splits)
    moreover have "name_at pkt e p (p + 1) []" using stop 1(4) by (intro name_at.root)
    ultimately show ?thesis using 1(7) by (intro exI [of _ "[]"] exI [of _ "p + 1"]) simp
  next
    case label
    with run at have lim: "\<not> e \<le> p + 1 + ?n" "\<not> 255 \<le> length np + 1 + ?n" by (auto simp: Let_def split: if_splits)
    define l where "l = take ?n (drop (p + 1) pkt)"
    have sl: "slice pkt (p + 1) ?n = Some l" using lim(1) 1(5) by (simp add: l_def)
    have len: "length l = ?n" "of_nat (length l) = pkt ! p" using lim(1) 1(5) by (simp_all add: l_def)
    have l: "label_ok l" "holds pkt p (of_nat (length l) # l)"
    proof -
      have "0 < ?n" "?n < 64" using label by (auto simp: and_c0 unat_gt_0)
      then show "label_ok l" using len(1) by (simp add: label_ok_def)
      have "holds pkt (Suc p) l" unfolding holds_def len(1) by (simp add: l_def)
      then show "holds pkt p (of_nat (length l) # l)" using len(2) 1(4,5) by simp
    qed
    have rec: "get_labels pkt e (p + 1 + ?n) (np @ pkt ! p # l) nb = Some (Some q', nm)"
      using run at label lim sl by (simp add: Let_def)
    from 1(1) [OF at refl label(1,2) _ _ sl rec] lim 1(5-7) len obtain ls q where
      "name_at pkt e (p + 1 + ?n) q ls" "nm = (np @ pkt ! p # l) @ wire ls" "length nm \<le> 255"
      "q' = (case nb of None \<Rightarrow> q | Some n \<Rightarrow> n)" by auto
    moreover from this(1) have "name_at pkt e p q (l # ls)"
      using l lim(1) len(1) by (intro name_at.label) simp_all
    ultimately show ?thesis using len(2) by (intro exI [of _ "l # ls"]) auto
  next
    case pointer
    have "p \<noteq> e - 1" using pointer(2) 1(6) by (auto simp: and_c0 not_less [symmetric])
    then have p1: "p + 1 < e" "peek pkt (p + 1) = Some (pkt ! (p + 1))" using 1(4,5) by simp_all
    let ?t = "pointer_target (pkt ! p) (pkt ! (p + 1))"
    let ?nb = "case nb of None \<Rightarrow> Some (p + 2) | Some n \<Rightarrow> Some n"
    have nz: "pkt ! p AND 0xc0 \<noteq> 0" using pointer(2) by simp
    with run at p1 pointer have t: "\<not> e \<le> ?t" by (auto simp: Let_def split: if_splits)
    then have pt: "peek pkt ?t = Some (pkt ! ?t)" using 1(5) by simp
    with run at p1 pointer nz t have c0: "pkt ! ?t AND 0xc0 = 0" by (auto simp: Let_def split: if_splits)
    with run at p1 pointer nz t pt have rec: "get_labels pkt e ?t np ?nb = Some (Some q', nm)"
      by (cases nb) (simp_all add: Let_def)
    have t': "?t < e" using t by simp
    have "\<exists>ls q. name_at pkt e ?t q ls \<and> nm = np @ wire ls \<and> length nm \<le> 255 \<and> q' = (case ?nb of None \<Rightarrow> q | Some n \<Rightarrow> n)"
      by (rule 1(2) [OF at refl pointer(1) nz pointer(2) p1(2) refl _ t pt _ _ t' 1(5-7)]) (use c0 rec in \<open>simp_all split: option.split\<close>)
    then obtain ls q where ls: "name_at pkt e ?t q ls" "nm = np @ wire ls" "length nm \<le> 255"
      "q' = (case ?nb of None \<Rightarrow> q | Some n \<Rightarrow> n)" by blast
    have "name_at pkt e p (p + 2) ls" using ls(1) p1 pointer(2) t' c0 by (intro name_at.pointer) simp_all
    with ls(2-4) show ?thesis by (intro exI [of _ ls] exI [of _ "p + 2"]) (auto split: option.splits)
  next
    case bad
    with run at show ?thesis by (auto simp: Let_def)
  qed
qed

lemma get_labels_total:
  "p < e \<Longrightarrow> e < length pkt \<Longrightarrow> np = wire_labels ls \<Longrightarrow> labels_ok ls \<Longrightarrow> length np < MAX_DOMAIN_NAME \<Longrightarrow>
    (\<forall>n. nb = Some n \<longrightarrow> n \<le> e + 1) \<Longrightarrow>
    \<exists>r ms. get_labels pkt e p np nb = Some (r, wire (ls @ ms)) \<and> name_ok (ls @ ms) \<and> (\<forall>q. r = Some q \<longrightarrow> q \<le> e + 1)"
proof (induction pkt e p np nb arbitrary: ls rule: get_labels.induct)
  case (1 pkt e p np nb)
  note un = get_labels.simps [of pkt e p np nb]
  have at: "peek pkt p = Some (pkt ! p)" using 1(3,4) by simp
  have here: "np @ [0] = wire (ls @ [])" "name_ok (ls @ [])" using 1(5-7) by (simp_all add: wire_def name_ok_def)
  then have stop: ?case if "get_labels pkt e p np nb = Some (r, np @ [0])" "\<forall>q. r = Some q \<longrightarrow> q \<le> e + 1" for r
    using that by (intro exI [of _ r] exI [of _ "[]"]) simp
  let ?n = "unat (pkt ! p)"
  consider (fin) "pkt ! p = 0" | (label) "pkt ! p \<noteq> 0" "pkt ! p AND 0xc0 = 0" | (pointer) "pkt ! p \<noteq> 0" "pkt ! p AND 0xc0 = 0xc0"
    | (bad) "pkt ! p \<noteq> 0" "pkt ! p AND 0xc0 \<noteq> 0" "pkt ! p AND 0xc0 \<noteq> 0xc0" by blast
  then show ?case
  proof cases
    case fin
    with at have "get_labels pkt e p np nb = Some (Some (case nb of None \<Rightarrow> p + 1 | Some n \<Rightarrow> n), np @ [0])"
      by (simp add: un split: option.split)
    then show ?thesis by (rule stop) (use 1(3,8) in \<open>auto split: option.splits\<close>)
  next
    case label
    show ?thesis
    proof (cases "e \<le> p + 1 + ?n \<or> 255 \<le> length np + 1 + ?n")
      case True
      with at label have "get_labels pkt e p np nb = Some (None, np @ [0])" by (auto simp: un Let_def)
      then show ?thesis by (rule stop) simp
    next
      case False
      define l where "l = take ?n (drop (p + 1) pkt)"
      have sl: "slice pkt (p + 1) ?n = Some l" using False 1(4) by (simp add: l_def)
      have "?n \<le> length pkt - Suc p" using False 1(4) by linarith
      then have len: "length l = ?n" "of_nat (length l) = pkt ! p" by (simp_all add: l_def min_def)
      have "0 < ?n" "?n < 64" using label by (auto simp: and_c0 unat_gt_0)
      then have l: "label_ok l" using len(1) by (simp add: label_ok_def)
      have "get_labels pkt e p np nb = get_labels pkt e (p + 1 + ?n) (np @ pkt ! p # l) nb"
        using at label False sl by (simp add: un Let_def)
      moreover have "\<exists>r ms. get_labels pkt e (p + 1 + ?n) (np @ pkt ! p # l) nb = Some (r, wire ((ls @ [l]) @ ms)) \<and>
          name_ok ((ls @ [l]) @ ms) \<and> (\<forall>q. r = Some q \<longrightarrow> q \<le> e + 1)"
        by (rule 1(1) [OF at refl label _ _ sl]) (use False 1(4-8) l len in simp_all)
      ultimately obtain r ms where "get_labels pkt e p np nb = Some (r, wire (ls @ l # ms))" "name_ok (ls @ l # ms)"
        "\<forall>q. r = Some q \<longrightarrow> q \<le> e + 1" by auto
      then show ?thesis by blast
    qed
  next
    case pointer
    have nz: "pkt ! p AND 0xc0 \<noteq> 0" using pointer(2) by simp
    have p1: "peek pkt (p + 1) = Some (pkt ! (p + 1))" using 1(3,4) by simp
    let ?t = "pointer_target (pkt ! p) (pkt ! (p + 1))"
    let ?nb = "case nb of None \<Rightarrow> Some (p + 1 + 1) | Some n \<Rightarrow> Some n"
    show ?thesis
    proof (cases "e \<le> ?t \<or> pkt ! ?t AND 0xc0 \<noteq> 0")
      case True
      with at p1 pointer nz 1(4) have "get_labels pkt e p np nb = Some (None, np @ [0])"
        by (cases "e \<le> ?t") (simp_all add: un Let_def)
      then show ?thesis by (rule stop) simp
    next
      case False
      then have t: "peek pkt ?t = Some (pkt ! ?t)" using 1(4) by simp
      have "get_labels pkt e p np nb = get_labels pkt e ?t np ?nb"
        using at p1 pointer nz False t by (simp add: un Let_def split: option.split)
      moreover have "\<exists>r ms. get_labels pkt e ?t np ?nb = Some (r, wire (ls @ ms)) \<and> name_ok (ls @ ms) \<and>
          (\<forall>q. r = Some q \<longrightarrow> q \<le> e + 1)"
        by (rule 1(2) [OF at refl pointer(1) nz pointer(2) p1 refl refl _ t])
          (use False 1(3-8) in \<open>auto split: option.splits\<close>)
      ultimately show ?thesis by simp
    qed
  next
    case bad
    with at have "get_labels pkt e p np nb = Some (None, np @ [0])" by (simp add: un Let_def)
    then show ?thesis by (rule stop) simp
  qed
qed

text \<open>Skipping a name ends where reading it does.\<close>

lemma skip_loop_at:
  "name_at pkt e p q ls \<Longrightarrow> e \<le> length pkt \<Longrightarrow> unat t + length (wire ls) \<le> MAX_DOMAIN_NAME \<Longrightarrow>
    skip_loop pkt e p t = Some (Some q)"
proof (induction arbitrary: t rule: name_at.induct)
  case (root p)
  then show ?case by (simp add: skip_loop.simps [of pkt e p t])
next
  case (label l p q ls)
  have at: "peek pkt p = Some (of_nat (length l))" using label.hyps(2) by simp
  have lim: "\<not> e \<le> p + 1 + length l" "\<not> 255 \<le> unat t + 1 + length l" using label.hyps(3) label.prems(2) by simp_all
  have "unat (1 + ucast (of_nat (length l) :: byte) :: u16) = 1 + length l"
    using label.hyps(1) label_length(1) [OF label.hyps(1)] by (simp add: label_ok_def unat_add_lem [THEN iffD1] unsigned_ucast_eq take_bit_nat_eq_self)
  moreover from this have "unat (t + (1 + ucast (of_nat (length l) :: byte))) = unat t + (1 + length l)"
    using lim(2) by (subst unat_add_lem [THEN iffD1]) simp_all
  ultimately have "skip_loop pkt e (p + 1 + length l) (t + (1 + ucast (of_nat (length l) :: byte))) = Some (Some q)"
    using label.IH label.prems by simp
  with at lim label.hyps(1) show ?case by (simp add: skip_loop.simps [of pkt e p t] Let_def)
next
  case (pointer p t' q ls)
  have "pkt ! p \<noteq> 0" "pkt ! p AND 0xc0 \<noteq> 0" using pointer.hyps(2) by auto
  with pointer.hyps pointer.prems(1) show ?case by (simp add: skip_loop.simps [of pkt e p t] Let_def)
qed

lemma skipDomainName_getDomainName:
  assumes "p < e" and "e \<le> length pkt" and "pkt ! (e - 1) < 0xc0" and "getDomainName pkt p e old = Some (Some q, nm)"
  shows "skipDomainName pkt (Some p) e = Some (Some q)"
proof -
  from assms(1,4) have "get_labels pkt e p [] None = Some (Some q, nm)" by (simp add: getDomainName_def)
  from get_labels_sound [OF this assms(1-3)] obtain ls where ls: "name_at pkt e p q ls" "nm = wire ls"
    "length nm \<le> MAX_DOMAIN_NAME" by auto
  have "skip_loop pkt e p 0 = Some (Some q)" by (rule skip_loop_at [OF ls(1) assms(2)]) (use ls(2,3) in simp)
  then show ?thesis using assms(1) by (simp add: skipDomainName_def)
qed

section \<open>Sections of a message lie in order\<close>

lemma skip_loop_bound: "p < e \<Longrightarrow> e \<le> length pkt \<Longrightarrow> \<exists>r. skip_loop pkt e p t = Some r \<and> (\<forall>q. r = Some q \<longrightarrow> p < q)"
proof (induction pkt e p t rule: skip_loop.induct)
  case (1 pkt e p t)
  note un = skip_loop.simps [of pkt e p t]
  have at: "peek pkt p = Some (pkt ! p)" using 1(2,3) by simp
  show ?case
  proof (cases "pkt ! p \<noteq> 0 \<and> pkt ! p AND 0xc0 = 0 \<and> \<not> e \<le> p + 1 + unat (pkt ! p) \<and> \<not> MAX_DOMAIN_NAME \<le> unat t + 1 + unat (pkt ! p)")
    case True
    with 1(1) [OF at refl] 1(3) have "\<exists>r. skip_loop pkt e (p + 1 + unat (pkt ! p)) (t + (1 + ucast (pkt ! p))) = Some r \<and>
        (\<forall>q. r = Some q \<longrightarrow> p + 1 + unat (pkt ! p) < q)" by simp
    with True show ?thesis by (auto simp: un at Let_def)
  next
    case False
    then show ?thesis by (auto simp: un at Let_def)
  qed
qed

lemma skipDomainName_bound:
  "e \<le> length pkt \<Longrightarrow> \<exists>r. skipDomainName pkt p e = Some r \<and> (\<forall>q. r = Some q \<longrightarrow> (\<exists>p'. p = Some p' \<and> p' < q))"
  using skip_loop_bound [of _ e pkt 0] by (auto simp: skipDomainName_def split: option.split)

lemma skipQuestion_bound:
  assumes "e \<le> length pkt"
  shows "\<exists>r. skipQuestion pkt p e = Some r \<and> (\<forall>q. r = Some q \<longrightarrow> (\<exists>p'. p = Some p' \<and> p' < q) \<and> q \<le> e)"
  using skipDomainName_bound [OF assms, of p] by (auto simp: skipQuestion_def split: option.split)

lemma skipResourceRecord_bound:
  assumes "e \<le> length pkt"
  shows "\<exists>r. skipResourceRecord pkt p e = Some r \<and> (\<forall>q. r = Some q \<longrightarrow> (\<exists>p'. p = Some p' \<and> p' < q) \<and> q \<le> e)"
proof -
  obtain r where r: "skipDomainName pkt p e = Some r" "\<And>q. r = Some q \<Longrightarrow> \<exists>p'. p = Some p' \<and> p' < q"
    using skipDomainName_bound [OF assms, of p] by blast
  show ?thesis
  proof (cases r)
    case (Some q)
    with r assms show ?thesis by (cases "q + 10 \<le> e") (fastforce simp: skipResourceRecord_def Let_def)+
  qed (use r in \<open>simp add: skipResourceRecord_def\<close>)
qed


lemma skip_items_bound:
  assumes "\<And>p. \<exists>r. skip p = Some r \<and> (\<forall>q. r = Some q \<longrightarrow> (\<exists>p'. p = Some p' \<and> p' < q) \<and> q \<le> e)"
  shows "\<exists>r. skip_items skip n p = Some r \<and> (\<forall>q. r = Some q \<longrightarrow> (\<exists>p'. p = Some p' \<and> p' \<le> q \<and> q \<le> max p' e))"
    and "\<exists>r. skip_all skip n p = Some r \<and> (\<forall>q. r = Some q \<longrightarrow> (\<exists>p'. p = Some p' \<and> p' \<le> q \<and> q \<le> max p' e))"
proof -
  have step: "\<exists>s. do { p \<leftarrow> skip p; f p } = Some s \<and> (\<forall>q. s = Some q \<longrightarrow> (\<exists>p'. p = Some p' \<and> p' \<le> q \<and> q \<le> max p' e))"
    if IH: "\<And>p. \<exists>s. f p = Some s \<and> (\<forall>q. s = Some q \<longrightarrow> (\<exists>p'. p = Some p' \<and> p' \<le> q \<and> q \<le> max p' e))"
    for f :: "nat option \<Rightarrow> nat option option" and p
  proof -
    obtain r where r: "skip p = Some r" "\<And>q. r = Some q \<Longrightarrow> (\<exists>p'. p = Some p' \<and> p' < q) \<and> q \<le> e"
      using assms by blast
    obtain s where s: "f r = Some s" "\<And>q. s = Some q \<Longrightarrow> \<exists>p'. r = Some p' \<and> p' \<le> q \<and> q \<le> max p' e"
      using IH by blast
    have "\<exists>p'. p = Some p' \<and> p' \<le> q \<and> q \<le> max p' e" if "s = Some q" for q
      using s(2) [OF that] r(2) by fastforce
    with r(1) s(1) show ?thesis by simp
  qed
  show "\<exists>r. skip_items skip n p = Some r \<and> (\<forall>q. r = Some q \<longrightarrow> (\<exists>p'. p = Some p' \<and> p' \<le> q \<and> q \<le> max p' e))"
  proof (induction n arbitrary: p)
    case (Suc n)
    from step [OF Suc.IH, of p] show ?case by auto
  qed simp
  show "\<exists>r. skip_all skip n p = Some r \<and> (\<forall>q. r = Some q \<longrightarrow> (\<exists>p'. p = Some p' \<and> p' \<le> q \<and> q \<le> max p' e))"
  proof (induction n arbitrary: p)
    case (Suc n)
    from step [OF Suc.IH, of p] show ?case by auto
  qed simp
qed

section \<open>Writing follows the grammar\<close>

lemma bytes_match_eq:
  "targ + k \<le> length pkt \<Longrightarrow> n + k \<le> length name \<Longrightarrow>
    bytes_match pkt targ name n k = Some (holds pkt targ (take k (drop n name)))"
proof (induction k arbitrary: targ n)
  case (Suc k)
  have "take (Suc k) (drop n name) = name ! n # take k (drop (Suc n) name)"
    using Suc.prems(2) by (simp flip: Cons_nth_drop_Suc)
  with Suc.IH [of "Suc targ" "Suc n"] Suc.prems show ?case by (auto simp del: take_Suc_Cons)
qed simp

text \<open>The two computations of the target of a pointer agree, and reading a pointer that was written gives its target.\<close>

lemma pointer_target_eq: "pointer_target hi lo = unat (hi AND 0x3f) * 256 + unat lo"
proof -
  have "unat (hi AND 0x3f) < 64" by (rule all_bytes [of _ hi], code_simp)
  then have "unat (push_bit 8 (ucast (hi AND 0x3f) :: u16)) = unat (hi AND 0x3f) * 256"
    by (simp add: push_bit_eq_mult unat_word_ariths unsigned_ucast_eq take_bit_nat_eq_self)
  moreover have "unat lo < 256" using unsigned_less [of lo] by simp
  moreover have "push_bit 8 (ucast (hi AND 0x3f)) + (ucast lo :: u16) = push_bit 8 (ucast (hi AND 0x3f)) OR ucast lo"
    by (rule disjunctive_add) (auto simp: bit_simps)
  moreover have "unat (ucast lo :: u16) = unat lo" using \<open>unat lo < 256\<close> by (simp add: unsigned_ucast_eq take_bit_nat_eq_self)
  moreover have "unat (push_bit 8 (ucast (hi AND 0x3f)) + (ucast lo :: u16)) =
      unat (push_bit 8 (ucast (hi AND 0x3f) :: u16)) + unat (ucast lo :: u16)"
    by (rule iffD1 [OF unat_add_lem]) (use calculation \<open>unat (hi AND 0x3f) < 64\<close> in simp)
  ultimately show ?thesis unfolding pointer_target_def by simp
qed

lemma pointer_target_bytes:
  assumes "r < 0x4000"
  shows "pointer_target (ucast (0xc0 OR drop_bit 8 (of_nat r :: u16))) (ucast (of_nat r AND 0xff :: u16)) = r"
    and "(ucast (0xc0 OR drop_bit 8 (of_nat r :: u16)) :: byte) AND 0xc0 = 0xc0"
proof -
  have hi: "\<not> bit r n" if "14 \<le> n" for n
  proof -
    have "r < 2 ^ n" using assms power_increasing [OF that, of "2::nat"] by simp
    then show ?thesis by (simp add: bit_iff_odd)
  qed
  have "push_bit 8 (ucast ((ucast (0xc0 OR drop_bit 8 (of_nat r :: u16)) :: byte) AND 0x3f)) OR ucast (ucast (of_nat r AND 0xff :: u16) :: byte) = (of_nat r :: u16)"
    by (rule u16_eqI) (simp_all add: bit_simps hi)
  then show "pointer_target (ucast (0xc0 OR drop_bit 8 (of_nat r :: u16))) (ucast (of_nat r AND 0xff :: u16)) = r"
    using assms by (simp add: pointer_target_def unsigned_of_nat take_bit_nat_eq_self)
  show "(ucast (0xc0 OR drop_bit 8 (of_nat r :: u16)) :: byte) AND 0xc0 = 0xc0"
    by (rule byte_eqI) (simp_all add: bit_simps hi)
qed

text \<open>
  The search stays inside of the buffer, and what it finds is the name when the byte behind the
  searched bytes is not zero.
\<close>

lemma match_loop_ok:
  "holds name n (wire ls) \<Longrightarrow> ls \<noteq> [] \<Longrightarrow> labels_ok ls \<Longrightarrow> end < length pkt \<Longrightarrow>
    \<exists>r. match_loop pkt end name n targ = Some r \<and> (r \<longrightarrow> pkt ! end \<noteq> 0 \<longrightarrow> (\<exists>q. name_at pkt end targ q ls))"
proof (induction ls arbitrary: n targ)
  case (Cons l ls)
  note un = match_loop.simps [of pkt "end" name n targ]
  have at: "peek name n = Some (of_nat (length l))" and l: "label_ok l" "unat (of_nat (length l) :: byte) = length l"
    using Cons.prems(1,3) by simp_all
  have nl: "holds name (n + 1 + length l) (wire ls)" using Cons.prems(1) by (simp add: add.assoc)
  have "holds name n ((of_nat (length l) # l) @ wire ls)" using Cons.prems(1) by simp
  then have this_label: "take (Suc (length l)) (drop n name) = of_nat (length l) # l"
    unfolding holds_append by (simp add: holds_def)
  have bd: "n + length (wire (l # ls)) \<le> length name" using Cons.prems(1) by (rule holds_wire_length)
  show ?case
  proof (cases "targ + length l < end \<and> holds pkt targ (of_nat (length l) # l)")
    case False
    with False this_label at l bd Cons.prems(4) have "match_loop pkt end name n targ = Some False"
      by (auto simp: un bytes_match_eq simp del: bytes_match.simps holds_Cons)
    then show ?thesis by blast
  next
    case True
    let ?t = "targ + 1 + length l"
    let ?b = "pkt ! ?t"
    have step: "match_loop pkt end name n targ = do {
        x \<leftarrow> peek name (n + 1 + length l);
        if x = 0 then Some (?b = 0)
        else if ?b < 0x40 then match_loop pkt end name (n + 1 + length l) ?t
        else if ?b < 0xc0 \<or> ?t + 1 \<ge> end then Some False
        else (let p = pointer_target ?b (pkt ! (?t + 1)) in
          if ?t < p then Some False
          else if pkt ! p \<ge> 0x40 then Some False else match_loop pkt end name (n + 1 + length l) p)
      }"
      using True this_label at l bd Cons.prems(4)
      by (simp add: un bytes_match_eq Let_def pointer_target_eq del: bytes_match.simps holds_Cons cong: if_cong)
    have here: "name_at pkt end targ q (l # ls)" if "name_at pkt end ?t q ls" for q
      using that True l(1) name_at_bounds [OF that] by (intro name_at.label) simp_all
    show ?thesis
    proof (cases ls)
      case Nil
      then have "match_loop pkt end name n targ = Some (?b = 0)" using step nl by simp
      moreover have "name_at pkt end targ (?t + 1) (l # ls)" if "?b = 0" "pkt ! end \<noteq> 0"
      proof (rule here)
        have "?t \<noteq> end" using that by auto
        then show "name_at pkt end ?t (?t + 1) ls" unfolding Nil using True that(1) by (intro name_at.root) simp_all
      qed
      ultimately show ?thesis by blast
    next
      case (Cons l' ls')
      have "\<exists>x. peek name (n + 1 + length l) = Some x \<and> x \<noteq> 0"
        using nl Cons.prems(3) by (auto simp: Cons)
      moreover have IH: "\<exists>r. match_loop pkt end name (n + 1 + length l) t = Some r \<and>
          (r \<longrightarrow> pkt ! end \<noteq> 0 \<longrightarrow> (\<exists>q. name_at pkt end t q ls))" for t
        using Cons.IH [OF nl] Cons Cons.prems(3,4) by simp
      ultimately have "match_loop pkt end name n targ = do {
        if ?b < 0x40 then match_loop pkt end name (n + 1 + length l) ?t
        else if ?b < 0xc0 \<or> ?t + 1 \<ge> end then Some False
        else (let p = pointer_target ?b (pkt ! (?t + 1)) in
          if ?t < p then Some False
          else if pkt ! p \<ge> 0x40 then Some False else match_loop pkt end name (n + 1 + length l) p)
        }" using step by auto
      note tail = this
      let ?p = "pointer_target ?b (pkt ! (?t + 1))"
      consider (direct) "?b < 0x40" | (follow) "0xc0 \<le> ?b" "?t + 1 < end" "?p \<le> ?t" "pkt ! ?p < 0x40"
        | (stop) "\<not> ?b < 0x40" "?b < 0xc0 \<or> end \<le> ?t + 1 \<or> ?t < ?p \<or> 0x40 \<le> pkt ! ?p"
        by (meson not_le)
      then show ?thesis
      proof cases
        case direct
        with tail IH [of ?t] here show ?thesis by auto
      next
        case follow
        then have "\<not> ?b < 0x40" by (auto simp: word_less_nat_alt word_le_nat_alt)
        with follow tail have m: "match_loop pkt end name n targ = match_loop pkt end name (n + 1 + length l) ?p"
          by (auto simp: Let_def not_less)
        have "name_at pkt end ?t (?t + 2) ls" if "name_at pkt end ?p q ls" for q
          using that follow name_at_bounds [OF that] by (intro name_at.pointer) (simp_all add: and_c0)
        with m IH [of ?p] here show ?thesis by auto
      next
        case stop
        with tail have "match_loop pkt end name n targ = Some False" by (auto simp: Let_def)
        then show ?thesis by blast
      qed
    qed
  qed
qed simp

lemma search_loop_ok:
  "holds name n (wire (l # ls)) \<Longrightarrow> labels_ok (l # ls) \<Longrightarrow> end < length pkt \<Longrightarrow> r < end \<or> r = 0 \<Longrightarrow>
    \<exists>res. search_loop pkt end name n r = Some res \<and> (\<forall>t. res = Some t \<longrightarrow> t < r \<and> pkt ! t AND 0xc0 = 0 \<and>
      (pkt ! end \<noteq> 0 \<longrightarrow> (\<exists>q. name_at pkt end t q (l # ls))))"
proof (induction r)
  case (Suc r)
  have at: "n < length name" "name ! n = of_nat (length l)" and l: "label_ok l" using Suc.prems(1,2) by simp_all
  have bd: "n + length (wire (l # ls)) \<le> length name" using Suc.prems(1) by (rule holds_wire_length)
  have two: "bytes_match pkt r name n 2 = Some (holds pkt r (take 2 (drop n name)))"
    using bd Suc.prems(3,4) by (intro bytes_match_eq) auto
  obtain x xs where tk: "take 2 (drop n name) = of_nat (length l) # x # xs"
    using bd at by (auto simp: numeral_2_eq_2 take_Suc_conv_app_nth simp flip: Cons_nth_drop_Suc)
  obtain m where m: "match_loop pkt end name n r = Some m" "m \<Longrightarrow> pkt ! end \<noteq> 0 \<Longrightarrow> \<exists>q. name_at pkt end r q (l # ls)"
    using match_loop_ok [OF Suc.prems(1) _ Suc.prems(2,3), of r] by blast
  obtain res where res: "search_loop pkt end name n r = Some res"
    "\<And>t. res = Some t \<Longrightarrow> t < r \<and> pkt ! t AND 0xc0 = 0 \<and> (pkt ! end \<noteq> 0 \<longrightarrow> (\<exists>q. name_at pkt end t q (l # ls)))"
    using Suc.IH [OF Suc.prems(1-3)] Suc.prems(4) by auto
  show ?case
  proof (cases "holds pkt r (take 2 (drop n name)) \<and> m")
    case True
    then have "search_loop pkt end name n (Suc r) = Some (Some r)" using two m(1) by simp
    moreover have "pkt ! r AND 0xc0 = 0" using True l by (simp add: tk)
    ultimately show ?thesis using True m(2) by auto
  next
    case False
    then have "search_loop pkt end name n (Suc r) = Some res" using two m(1) res(1) by auto
    with res(2) show ?thesis by (auto dest: less_SucI)
  qed
qed simp

lemma FindCompressionPointer_ok:
  assumes "holds name n (wire (l # ls))" and "labels_ok (l # ls)" and "end < length pkt"
  obtains res where "FindCompressionPointer pkt end name n = Some res"
    and "\<And>t. res = Some t \<Longrightarrow> t < end \<and> pkt ! t AND 0xc0 = 0 \<and>
      (pkt ! end \<noteq> 0 \<longrightarrow> (\<exists>q. name_at pkt end t q (l # ls)))"
proof -
  have l: "0 < length l" "length l < 64" using assms(2) by (simp_all add: label_ok_def)
  have at: "peek name n = Some (of_nat (length l))" "unat (of_nat (length l) :: byte) = length l"
    "(of_nat (length l) :: byte) \<noteq> 0" using assms(1,2) by simp_all
  then have "FindCompressionPointer pkt end name n = search_loop pkt end name n (end - length l)"
    by (simp add: FindCompressionPointer_def)
  moreover have "end - length l < end \<or> end - length l = 0" using l by linarith
  ultimately obtain res where res: "FindCompressionPointer pkt end name n = Some res"
    "\<forall>t. res = Some t \<longrightarrow> t < end - length l \<and> pkt ! t AND 0xc0 = 0 \<and>
      (pkt ! end \<noteq> 0 \<longrightarrow> (\<exists>q. name_at pkt end t q (l # ls)))"
    using search_loop_ok [OF assms, of "end - length l"] by auto
  show ?thesis
  proof (rule that [OF res(1)])
    fix t
    assume "res = Some t"
    with res(2) have "t < end - length l" "pkt ! t AND 0xc0 = 0"
      "pkt ! end \<noteq> 0 \<longrightarrow> (\<exists>q. name_at pkt end t q (l # ls))" by simp_all
    then show "t < end \<and> pkt ! t AND 0xc0 = 0 \<and> (pkt ! end \<noteq> 0 \<longrightarrow> (\<exists>q. name_at pkt end t q (l # ls)))"
      using less_le_trans [OF _ diff_le_self] by blast
  qed
qed

lemma blit_parts:
  assumes "i + length s \<le> length z" and "blit z i s = Some z'"
  shows "length z' = length z" and "take i z' = take i z" and "holds z' i s" and "drop (i + length s) z' = drop (i + length s) z"
proof -
  have "z' = take i z @ s @ drop (i + length s) z" "min (length z) i = i" using assms by simp_all
  with assms(1) show "length z' = length z" "take i z' = take i z" "holds z' i s" "drop (i + length s) z' = drop (i + length s) z"
    by (simp_all add: holds_def)
qed

lemma put_loop_ok:
  assumes "holds name np (wire ls)" and "labels_ok ls" and "np + length (wire ls) \<le> MAX_DOMAIN_NAME"
    and "start \<le> ptr" and "limit \<le> length pkt" and "msg \<Longrightarrow> start \<le> 0x4000 \<and> start < length pkt \<and> pkt ! start \<noteq> 0"
  shows "\<exists>pkt' r. put_loop msg pkt start ptr limit name np = Some (pkt', r) \<and> length pkt' = length pkt \<and>
    take ptr pkt' = take ptr pkt \<and> drop limit pkt' = drop limit pkt \<and>
    (ptr + length (wire ls) \<le> limit \<longrightarrow> r \<noteq> None) \<and>
    (\<forall>q. r = Some q \<longrightarrow> q \<le> limit \<and> (name_at pkt' q ptr q ls \<or> q = limit \<and> limit < ptr + length (wire ls)))"
  using assms
proof (induction ls arbitrary: pkt ptr np)
  case Nil
  then have "peek name np = Some 0" by simp
  moreover have "name_at (pkt[ptr := 0]) (Suc ptr) ptr (Suc ptr) []" if "ptr < limit"
    using name_at.root [of ptr "Suc ptr" "pkt[ptr := 0]"] that Nil.prems(5) by simp
  ultimately show ?case
    using Nil.prems by (auto simp: put_loop.simps [of msg pkt start ptr limit name np])
next
  case (Cons l ls)
  note un = put_loop.simps [of msg pkt start ptr limit name np]
  have at: "peek name np = Some (of_nat (length l))" "unat (of_nat (length l) :: byte) = length l"
    "(of_nat (length l) :: byte) \<noteq> 0" and l: "label_ok l" "length l \<le> 63" using Cons.prems(1,2) by (simp_all add: label_ok_def)
  have nl: "holds name (np + 1 + length l) (wire ls)" using Cons.prems(1) by (simp add: add.assoc)
  have bd: "np + length (wire (l # ls)) \<le> length name" using Cons.prems(1) by (rule holds_wire_length)
  show ?case
  proof (cases "ptr + 1 < limit")
    case False
    then show ?thesis using at un Cons.prems(5) by (cases "ptr < limit") auto
  next
    case space: True
    obtain res where res: "(if msg then FindCompressionPointer pkt start name np else Some None) = Some res"
      "\<And>t. res = Some t \<Longrightarrow> t < start \<and> t < 0x4000 \<and> pkt ! t AND 0xc0 = 0 \<and> (\<exists>q. name_at pkt start t q (l # ls))"
    proof (cases msg)
      case True
      from FindCompressionPointer_ok [OF Cons.prems(1,2)] Cons.prems(6) [OF this] obtain res where
        "FindCompressionPointer pkt start name np = Some res"
        "\<And>t. res = Some t \<Longrightarrow> t < start \<and> pkt ! t AND 0xc0 = 0 \<and> (\<exists>q. name_at pkt start t q (l # ls))" by metis
      with True Cons.prems(6) show ?thesis by (intro that [of res]) (simp_all add: order_less_le_trans)
    qed simp
    show ?thesis
    proof (cases res)
      case (Some t)
      let ?hi = "ucast (0xc0 OR drop_bit 8 (of_nat t :: u16)) :: byte" and ?lo = "ucast (of_nat t AND 0xff :: u16) :: byte"
      let ?pkt = "pkt[ptr := ?hi, ptr + 1 := ?lo]"
      from res(2) [OF Some] obtain q where t: "t < start" "t < 0x4000" "pkt ! t AND 0xc0 = 0" "name_at pkt start t q (l # ls)"
        by blast
      have "put_loop msg pkt start ptr limit name np = Some (?pkt, Some (ptr + 2))"
        using at l(2) Cons.prems(3,5) space res(1) Some by (simp add: un Let_def)
      moreover have "name_at ?pkt (ptr + 2) ptr (ptr + 2) (l # ls)"
      proof (rule name_at.pointer)
        show "t = pointer_target (?pkt ! ptr) (?pkt ! (ptr + 1))" using space Cons.prems(5) pointer_target_bytes(1) [OF t(2)] by simp
        show "name_at ?pkt (ptr + 2) t q (l # ls)"
          by (rule name_at_mono [OF t(4)]) (use Cons.prems(4) in simp_all)
      qed (use t(1,3) Cons.prems(4,5) space pointer_target_bytes(2) [OF t(2)] in simp_all)
      ultimately show ?thesis using space by auto
    next
      case None
      show ?thesis
      proof (cases "limit \<le> ptr + 1 + length l")
        case True
        then have "put_loop msg pkt start ptr limit name np = Some (pkt, None)"
          using at l(2) Cons.prems(3) space res(1) None by (simp add: un)
        then show ?thesis using True by auto
      next
        case False
        let ?bs = "of_nat (length l) # l"
        have "holds name np (?bs @ wire ls)" using Cons.prems(1) by simp
        then have "holds name np ?bs" unfolding holds_append by blast
        then have "slice name np (length l + 1) = Some ?bs" using holds_slice [of name np ?bs] bd by simp
        moreover have fit: "ptr + length ?bs \<le> length pkt" using False Cons.prems(5) by simp
        then obtain pkt1 where pkt1: "blit pkt ptr ?bs = Some pkt1" by simp
        note parts = blit_parts [OF fit pkt1]
        ultimately have go: "put_loop msg pkt start ptr limit name np =
            put_loop msg pkt1 start (ptr + 1 + length l) limit name (np + 1 + length l)"
          using at l(2) Cons.prems(3) space res(1) None False pkt1 by (simp add: un)
        have "msg \<Longrightarrow> start \<le> 0x4000 \<and> start < length pkt1 \<and> pkt1 ! start \<noteq> 0"
        proof -
          assume msg
          note here = Cons.prems(6) [OF this]
          have "pkt1 ! start \<noteq> 0"
            using here nth_prefix [OF parts(2), of start] parts(3) at(3) Cons.prems(4) by (cases "start < ptr") auto
          with here parts(1) show ?thesis by simp
        qed
        then obtain pkt' r where IH: "put_loop msg pkt1 start (ptr + 1 + length l) limit name (np + 1 + length l) = Some (pkt', r)"
          "length pkt' = length pkt1" "take (ptr + 1 + length l) pkt' = take (ptr + 1 + length l) pkt1"
          "drop limit pkt' = drop limit pkt1" "ptr + 1 + length l + length (wire ls) \<le> limit \<Longrightarrow> r \<noteq> None"
          "\<And>q. r = Some q \<Longrightarrow> q \<le> limit \<and> (name_at pkt' q (ptr + 1 + length l) q ls \<or>
            q = limit \<and> limit < ptr + 1 + length l + length (wire ls))"
          using Cons.IH [OF nl, of "ptr + 1 + length l" pkt1] Cons.prems(2-5) parts(1) by auto
        have "take ptr pkt' = take ptr (take (ptr + 1 + length l) pkt')" by (simp add: min_def)
        also have "\<dots> = take ptr pkt" unfolding IH(3) using parts(2) by (simp add: min_def)
        finally have "take ptr pkt' = take ptr pkt" .
        moreover have "drop limit pkt1 = drop (limit - (ptr + length ?bs)) (drop (ptr + length ?bs) pkt1)"
          using False by simp
        then have "drop limit pkt' = drop limit pkt" unfolding IH(4) parts(4) using False by simp
        moreover have "name_at pkt' q ptr q (l # ls)" if "name_at pkt' q (ptr + 1 + length l) q ls" for q
        proof (rule name_at.label [OF l(1) _ _ that])
          show "holds pkt' ptr ?bs" using holds_prefix_iff [OF IH(3), of ptr ?bs] parts(3) by simp
          show "ptr + 1 + length l < q" using name_at_bounds [OF that] ..
        qed
        ultimately show ?thesis using go IH(1,2,5,6) parts(1) by (auto simp: add.assoc)
      qed
    qed
  qed
qed


section \<open>Properties\<close>

text \<open>
  C19: Reading a domain name ends for every message and reads nothing behind the byte at its end:
  compression pointers cannot make it run forever. It leaves either the buffer of the name as it was,
  when it starts outside of the message, or a valid name of at most 255 bytes in it.
\<close>

theorem getDomainName_valid:
  assumes "e < length pkt"
  shows "\<exists>r nm. getDomainName pkt p e old = Some (r, nm) \<and> (\<forall>q. r = Some q \<longrightarrow> q \<le> e + 1) \<and>
    (if e \<le> p then r = None \<and> nm = old else \<exists>ls. name_ok ls \<and> nm = wire ls)"
proof (cases "e \<le> p")
  case False
  then show ?thesis using assms get_labels_total [of p e pkt "[]" "[]" None]
    by (auto simp: getDomainName_def)
qed (simp add: getDomainName_def)

theorem getDomainName_valid_witness:
  "\<exists>r nm. getDomainName [0xc0, 2, 1, c_a, 0xc0, 2, 9] 4 6 [] = Some (r, nm) \<and> (\<exists>ls. name_ok ls \<and> nm = wire ls)"
  using getDomainName_valid [of 6 "[0xc0, 2, 1, c_a, 0xc0, 2, 9]" 4 "[]"] by auto

text \<open>
  C18: For a message that does not end in the first byte of a pointer, reading a name gives a name and
  the index behind it exactly when the grammar of names in messages does, and the name has at most
  255 bytes.
\<close>

theorem getDomainName_iff:
  assumes "p < e" and "e \<le> length pkt" and "pkt ! (e - 1) < 0xc0"
  shows "getDomainName pkt p e old = Some (Some q, nm) \<longleftrightarrow>
    (\<exists>ls. name_at pkt e p q ls \<and> nm = wire ls \<and> length nm \<le> MAX_DOMAIN_NAME)"
proof
  assume "getDomainName pkt p e old = Some (Some q, nm)"
  then show "\<exists>ls. name_at pkt e p q ls \<and> nm = wire ls \<and> length nm \<le> MAX_DOMAIN_NAME"
    using get_labels_sound [of pkt e p "[]" None q nm] assms by (auto simp: getDomainName_def)
next
  assume "\<exists>ls. name_at pkt e p q ls \<and> nm = wire ls \<and> length nm \<le> MAX_DOMAIN_NAME"
  then obtain ls where ls: "name_at pkt e p q ls" "nm = wire ls" "length nm \<le> MAX_DOMAIN_NAME" by blast
  have "length [] + length (wire ls) \<le> MAX_DOMAIN_NAME" using ls(2,3) by simp
  from get_labels_complete [OF ls(1) assms(2) this, of None] have "get_labels pkt e p [] None = Some (Some q, wire ls)"
    unfolding option.case append_Nil .
  then show "getDomainName pkt p e old = Some (Some q, nm)" 
    unfolding getDomainName_def ls(2) using assms(1) by simp
qed

theorem getDomainName_iff_witness:
  "(getDomainName [1, c_b, 0, 1, c_a, 0xc0, 0] 3 7 [] = Some (Some 7, wire [[c_a], [c_b]])) =
    (\<exists>ls. name_at [1, c_b, 0, 1, c_a, 0xc0, 0] 7 3 7 ls \<and> wire [[c_a], [c_b]] = wire ls \<and>
      length (wire [[c_a], [c_b]]) \<le> 255)"
  by (rule getDomainName_iff) simp_all

text \<open>
  C13: Writing a valid name at an index up to 16384, with or without compression, stays between that
  index and the limit and leaves every other byte of the buffer; it succeeds when the uncompressed
  name fits. Reading the bytes written gives the name back, whatever follows in the buffer, unless
  the name did not fit and was cut off at the limit. With compression the byte where the name is
  written must not hold zero before.
\<close>

theorem putDomainNameAsLabels_getDomainName:
  assumes "holds name 0 (wire ls)" and "name_ok ls" and "limit \<le> length pkt"
    and "msg \<longrightarrow> ptr \<le> 0x4000 \<and> ptr < length pkt \<and> pkt ! ptr \<noteq> 0"
  shows "\<exists>pkt' r. putDomainNameAsLabels msg pkt ptr limit name = Some (pkt', r) \<and>
    length pkt' = length pkt \<and> take ptr pkt' = take ptr pkt \<and> drop limit pkt' = drop limit pkt \<and>
    (ptr + length (wire ls) \<le> limit \<longrightarrow> r \<noteq> None) \<and>
    (\<forall>q. r = Some q \<longrightarrow> q \<le> limit \<and> (q < limit \<or> ptr + length (wire ls) \<le> limit \<longrightarrow>
      (\<forall>e old. q \<le> e \<longrightarrow> e \<le> length pkt \<longrightarrow> getDomainName pkt' ptr e old = Some (Some q, wire ls))))"
proof -
  have ok: "labels_ok ls" "length (wire ls) \<le> MAX_DOMAIN_NAME" using assms(2) by (simp_all add: name_ok_def)
  have "0 + length (wire ls) \<le> MAX_DOMAIN_NAME" using ok(2) by simp
  from put_loop_ok [OF assms(1) ok(1) this order.refl assms(3), of msg] assms(4) obtain pkt' r where
    r: "putDomainNameAsLabels msg pkt ptr limit name = Some (pkt', r)" "length pkt' = length pkt" "take ptr pkt' = take ptr pkt"
      "drop limit pkt' = drop limit pkt" "ptr + length (wire ls) \<le> limit \<longrightarrow> r \<noteq> None"
      "\<And>q. r = Some q \<Longrightarrow> q \<le> limit \<and> (name_at pkt' q ptr q ls \<or> q = limit \<and> limit < ptr + length (wire ls))"
    unfolding putDomainNameAsLabels_def by blast
  have "getDomainName pkt' ptr e old = Some (Some q, wire ls)"
    if q: "r = Some q" "q < limit \<or> ptr + length (wire ls) \<le> limit" and e: "q \<le> e" "e \<le> length pkt" for q e old
  proof -
    have "name_at pkt' q ptr q ls" using r(6) [OF q(1)] q(2) by auto
    from name_at_mono [OF this refl e(1)] have at: "name_at pkt' e ptr q ls" .
    from get_labels_complete [OF at _ _, of "[]" None] e(2) r(2) ok(2) name_at_bounds [OF at] show ?thesis
      by (simp add: getDomainName_def)
  qed
  with r show ?thesis by blast
qed

theorem putDomainNameAsLabels_getDomainName_witness:
  "\<exists>pkt' r. putDomainNameAsLabels True ([1, c_b, 0] @ replicate 5 7) 3 8 [1, c_a, 1, c_b, 0] = Some (pkt', r) \<and>
    r \<noteq> None \<and> (\<forall>q. r = Some q \<longrightarrow> getDomainName pkt' 3 8 [] = Some (Some q, [1, c_a, 1, c_b, 0]))"
proof -
  have "wire [[c_a], [c_b]] = [1, c_a, 1, c_b, 0]" "name_ok [[c_a], [c_b]]"
    by (simp_all add: name_ok_def label_ok_def)
  moreover have "holds [1, c_a, 1, c_b, 0] 0 (wire [[c_a], [c_b]])" by (simp add: holds_def)
  ultimately obtain pkt' r where
    "putDomainNameAsLabels True ([1, c_b, 0] @ replicate 5 7) 3 8 [1, c_a, 1, c_b, 0] = Some (pkt', r)"
    "3 + length (wire [[c_a], [c_b]]) \<le> 8 \<longrightarrow> r \<noteq> None"
    "\<forall>q. r = Some q \<longrightarrow> q \<le> 8 \<and> (q < 8 \<or> 3 + length (wire [[c_a], [c_b]]) \<le> 8 \<longrightarrow>
      (\<forall>e old. q \<le> e \<longrightarrow> e \<le> 8 \<longrightarrow> getDomainName pkt' 3 e old = Some (Some q, wire [[c_a], [c_b]])))"
    using putDomainNameAsLabels_getDomainName [of "[1, c_a, 1, c_b, 0]" "[[c_a], [c_b]]" 8 "[1, c_b, 0] @ replicate 5 7" True 3]
    by auto
  then show ?thesis by auto
qed

text \<open>
  The search compares the byte at the end of the message, which is not part of it, with the final
  zero of the name. When a zero is left there the pointer to the last label is taken for a match:
  it then overwrites that zero, so that the name never ends.
\<close>

lemma stale_terminator_loop:
  "putDomainNameAsLabels True [1, c_a, 0, 0] 2 4 [1, c_a, 0] = Some ([1, c_a, 0xc0, 0], Some 4)"
  "map_option fst (getDomainName [1, c_a, 0xc0, 0] 2 4 []) = Some None"
  by code_simp+

text \<open>With one byte left the loop ends and the name is cut off; the function reports success.\<close>

lemma truncated_name: "putDomainNameAsLabels False [7, 7, 7] 0 3 [1, c_a, 1, c_b, 0] = Some ([1, c_a, 0], Some 3)"
  by code_simp

text \<open>The second byte of a pointer is read without a test for the end of the message.\<close>

lemma pointer_overrun: "getDomainName [0xc0] 0 1 [] = None"
  by code_simp

text \<open>
  C31: The sections of a message whose buffer holds the header and the bytes in use are found without
  a read outside of it, whatever its counts and its bytes are, and lie in order: the authorities
  start behind the answers and the additional records behind the authorities, no section behind the
  end of the message.
\<close>

theorem sections_ordered:
  assumes "12 \<le> length pkt" and "e \<le> length pkt"
  shows "\<exists>an au ad. LocateAnswers pkt e = Some an \<and> LocateAuthorities pkt e = Some au \<and> LocateAdditionals pkt e = Some ad \<and>
    (\<forall>q. an = Some q \<longrightarrow> 12 \<le> q \<and> q \<le> max 12 e) \<and>
    (\<forall>q. au = Some q \<longrightarrow> (\<exists>p. an = Some p \<and> p \<le> q \<and> q \<le> max 12 e)) \<and>
    (\<forall>q. ad = Some q \<longrightarrow> (\<exists>p. au = Some p \<and> p \<le> q \<and> q \<le> max 12 e))"
proof -
  have h: "\<exists>n. host16 pkt i = Some n" if "i + 1 < 12" for i using assms(1) that by (simp add: host16_def)
  note quest = skipQuestion_bound [OF assms(2)] and rec = skipResourceRecord_bound [OF assms(2)]
  obtain n4 n6 n8 where n: "host16 pkt 4 = Some n4" "host16 pkt 6 = Some n6" "host16 pkt 8 = Some n8"
    using h [of 4] h [of 6] h [of 8] by auto
  obtain an where an: "LocateAnswers pkt e = Some an" "\<And>q. an = Some q \<Longrightarrow> 12 \<le> q \<and> q \<le> max 12 e"
    using skip_items_bound(1) [OF quest, of n4 "Some 12"] n by (auto simp: LocateAnswers_def)
  obtain au where au: "LocateAuthorities pkt e = Some au" "\<And>q. au = Some q \<Longrightarrow> \<exists>p. an = Some p \<and> p \<le> q \<and> q \<le> max p e"
    using skip_items_bound(1) [OF rec, of n6 an] n an(1) by (auto simp: LocateAuthorities_def)
  obtain ad where ad: "LocateAdditionals pkt e = Some ad" "\<And>q. ad = Some q \<Longrightarrow> \<exists>p. au = Some p \<and> p \<le> q \<and> q \<le> max p e"
    using skip_items_bound(2) [OF rec, of n8 au] n au(1) by (auto simp: LocateAdditionals_def)
  have "\<exists>p. an = Some p \<and> p \<le> q \<and> q \<le> max 12 e" if "au = Some q" for q
    using au(2) [OF that] an(2) by fastforce
  moreover from this have "\<exists>p. au = Some p \<and> p \<le> q \<and> q \<le> max 12 e" if "ad = Some q" for q
    using ad(2) [OF that] by fastforce
  ultimately show ?thesis using an au(1) ad(1) by blast
qed

theorem sections_ordered_witness:
  "\<exists>an au ad. LocateAnswers (replicate 12 0) 12 = Some an \<and> LocateAuthorities (replicate 12 0) 12 = Some au \<and>
    LocateAdditionals (replicate 12 0) 12 = Some ad"
  using sections_ordered [of "replicate 12 0" 12] by auto

end
