(* ===== verification/Fossil_Diff.thy ===== *)
theory Fossil_Diff
  imports Prelude_C "HOL-Library.Sublist"
begin

text \<open>
  The line difference of two texts (\<open>src/test4/diff.c\<close>): breaking a text into lines with a hash table
  over them, the search for a common block of lines, and the divide and conquer that turns the blocks
  into an array of copy, delete and insert counts. \<open>None\<close> is an access outside of an array or a failed
  assertion; an inner \<open>None\<close> is the null pointer. Line numbers and counts are those of texts below
  \<open>2 ^ 30\<close> lines. The score of a block, a floating-point number in the code, is an argument.
\<close>

section \<open>Lines\<close>

abbreviation (input) LENGTH_MASK :: nat where "LENGTH_MASK \<equiv> 8191"

text \<open>\<open>dl_z\<close> is the text from the start of the line on. Indexes of lines are stored plus one.\<close>

record dline =
  dl_z :: "byte list"
  dl_h :: u32
  dl_iNext :: nat
  dl_iHash :: nat

definition fossil_isspace :: "byte \<Rightarrow> bool" where
  "fossil_isspace c \<longleftrightarrow> c = c_sp \<or> c \<le> c_cr \<and> c_tab \<le> c"

function count_lines :: "byte list \<Rightarrow> nat \<Rightarrow> nat \<Rightarrow> nat \<Rightarrow> nat option option" where
  "count_lines z i j nLine = (if i < length z then do {
       c \<leftarrow> rd z i;
       if c = 0 then Some None
       else do {
         d \<leftarrow> (if c = c_nl then rd z (i + 1) else Some 0);
         if c = c_nl \<and> d \<noteq> 0 then
           (if j > LENGTH_MASK then Some None else count_lines z (i + 1) 1 (nLine + 1))
         else count_lines z (i + 1) (j + 1) nLine
       }
     }
     else Some (if j > LENGTH_MASK then None else Some nLine))"
  by pat_completeness auto
termination
  by (relation "measure (\<lambda>(z, i, j, nLine). length z - i)") auto

declare count_lines.simps [simp del]

text \<open>The length of the line at \<open>p\<close> from its byte \<open>j\<close> on.\<close>

function line_length :: "byte list \<Rightarrow> nat \<Rightarrow> nat \<Rightarrow> nat option" where
  "line_length z p j = do {
     c \<leftarrow> rd z (p + j);
     if c \<noteq> 0 \<and> c \<noteq> c_nl then line_length z p (j + 1) else Some j
   }"
  by pat_completeness auto
termination
  by (relation "measure (\<lambda>(z, p, j). Suc (length z) - (p + j))") (auto dest: rd_nonzeroD)

declare line_length.simps [simp del]

fun trim_line :: "byte list \<Rightarrow> nat \<Rightarrow> bool \<Rightarrow> nat \<Rightarrow> nat option" where
  "trim_line z p ignoreWS 0 = Some 0"
| "trim_line z p ignoreWS (Suc k) = (if ignoreWS then do {
       c \<leftarrow> rd z (p + k);
       if fossil_isspace c then trim_line z p ignoreWS k else Some (Suc k)
     } else Some (Suc k))"

text \<open>The characters are signed.\<close>

definition hash_line :: "byte list \<Rightarrow> u32" where
  "hash_line bs = foldl (\<lambda>h c. h XOR push_bit 2 h XOR scast c) 0 bs"

function fill_lines :: "byte list \<Rightarrow> nat \<Rightarrow> bool \<Rightarrow> nat \<Rightarrow> nat \<Rightarrow> dline list \<Rightarrow> dline list option" where
  "fill_lines z nLine ignoreWS i p a = (if i < nLine then do {
       j \<leftarrow> line_length z p 0;
       k \<leftarrow> trim_line z p ignoreWS j;
       bs \<leftarrow> slice z p k;
       let h = push_bit 13 (hash_line bs) OR of_nat k;
       let h2 = unat (h mod of_nat nLine);
       d \<leftarrow> peek a i;
       e \<leftarrow> peek a h2;
       a \<leftarrow> poke a i (d\<lparr>dl_z := drop p z, dl_h := h, dl_iNext := dl_iHash e\<rparr>);
       e \<leftarrow> peek a h2;
       a \<leftarrow> poke a h2 (e\<lparr>dl_iHash := i + 1\<rparr>);
       fill_lines z nLine ignoreWS (i + 1) (p + j + 1) a
     }
     else Some a)"
  by pat_completeness auto
termination
  by (relation "measure (\<lambda>(z, nLine, ignoreWS, i, p, a). nLine - i)") auto

declare fill_lines.simps [simp del]

text \<open>The array and the number of lines, or the null pointer for a binary file.\<close>

definition break_into_lines :: "byte list \<Rightarrow> bool \<Rightarrow> (dline list \<times> nat) option option" where
  "break_into_lines z ignoreWS = do {
     n \<leftarrow> count_lines z 0 0 1;
     case n of None \<Rightarrow> Some None
     | Some nLine \<Rightarrow> do {
         let a = replicate nLine \<lparr>dl_z = [], dl_h = 0, dl_iNext = 0, dl_iHash = 0\<rparr>;
         if z = [] then Some (Some (a, 0))
         else do {
           a \<leftarrow> fill_lines z nLine ignoreWS 0 0 a;
           Some (Some (a, nLine))
         }
       }
   }"

text \<open>\<open>memcmp\<close> compares the number of bytes that is in the low bits of the hash.\<close>

definition same_dline :: "dline \<Rightarrow> dline \<Rightarrow> bool option" where
  "same_dline pA pB = (if dl_h pA = dl_h pB then do {
       let n = unat (dl_h pA AND 0x1fff);
       a \<leftarrow> slice (dl_z pA) 0 n;
       b \<leftarrow> slice (dl_z pB) 0 n;
       Some (a = b)
     } else Some False)"

definition same_at :: "dline list \<Rightarrow> nat \<Rightarrow> dline list \<Rightarrow> nat \<Rightarrow> bool option" where
  "same_at A i B j = do {
     a \<leftarrow> peek A i;
     b \<leftarrow> peek B j;
     same_dline a b
   }"

section \<open>Edits\<close>

record dcontext =
  aEdit :: "int list"
  nEditAlloc :: nat
  aFrom :: "dline list"
  nFrom :: nat
  aTo :: "dline list"
  nTo :: nat

definition expandEdit :: "dcontext \<Rightarrow> nat \<Rightarrow> dcontext" where
  "expandEdit p nEdit = p\<lparr>nEditAlloc := nEdit\<rparr>"

text \<open>Adding to the last values, and storing three values behind the last one.\<close>

definition add_last :: "int list \<Rightarrow> int \<Rightarrow> int \<Rightarrow> int \<Rightarrow> int list" where
  "add_last e nCopy nDel nIns = (let n = length e in
     e[n - 3 := e ! (n - 3) + nCopy, n - 2 := e ! (n - 2) + nDel, n - 1 := e ! (n - 1) + nIns])"

definition store_triple :: "dcontext \<Rightarrow> int \<Rightarrow> int \<Rightarrow> int \<Rightarrow> dcontext option" where
  "store_triple p nCopy nDel nIns =
     (if length (aEdit p) + 3 \<le> nEditAlloc p then Some (p\<lparr>aEdit := aEdit p @ [nCopy, nDel, nIns]\<rparr>) else None)"

definition appendTriple :: "dcontext \<Rightarrow> int \<Rightarrow> int \<Rightarrow> int \<Rightarrow> dcontext option" where
  "appendTriple p nCopy nDel nIns = (let e = aEdit p; nEdit = length e in
     if nEdit \<ge> 3 \<and> e ! (nEdit - 1) = 0 \<and> e ! (nEdit - 2) = 0 then Some (p\<lparr>aEdit := add_last e nCopy nDel nIns\<rparr>)
     else if nEdit \<ge> 3 \<and> e ! (nEdit - 1) = 0 \<and> nCopy = 0 then Some (p\<lparr>aEdit := add_last e 0 nDel nIns\<rparr>)
     else if nEdit \<ge> 3 \<and> nCopy = 0 \<and> nDel = 0 then Some (p\<lparr>aEdit := add_last e 0 0 nIns\<rparr>)
     else store_triple (if nEdit + 3 > nEditAlloc p then expandEdit p (nEdit * 2 + 15) else p) nCopy nDel nIns)"

section \<open>Common blocks\<close>

text \<open>The number of equal lines from the pair at \<open>i + k\<close> and \<open>j + k\<close> on, before the ends.\<close>

function run_length :: "dcontext \<Rightarrow> nat \<Rightarrow> nat \<Rightarrow> nat \<Rightarrow> nat \<Rightarrow> nat \<Rightarrow> nat option" where
  "run_length p i iE1 j iE2 k = (if i + k < iE1 \<and> j + k < iE2 then do {
       same \<leftarrow> same_at (aFrom p) (i + k) (aTo p) (j + k);
       if same then run_length p i iE1 j iE2 (k + 1) else Some k
     } else Some k)"
  by pat_completeness auto
termination
  by (relation "measure (\<lambda>(p, i, iE1, j, iE2, k). iE1 - (i + k))") auto

declare run_length.simps [simp del]

function optimal_inner :: "dcontext \<Rightarrow> nat \<Rightarrow> nat \<Rightarrow> nat \<Rightarrow> nat \<Rightarrow> nat \<times> nat \<times> nat \<Rightarrow> (nat \<times> nat \<times> nat) option" where
  "optimal_inner p iE1 iE2 i j (mx, x, y) = (if j + mx < iE2 then do {
       same \<leftarrow> same_at (aFrom p) i (aTo p) j;
       far \<leftarrow> (if same \<and> mx > 0 then same_at (aFrom p) (i + mx) (aTo p) (j + mx) else Some True);
       if \<not> same \<or> \<not> far then optimal_inner p iE1 iE2 i (j + 1) (mx, x, y)
       else do {
         k \<leftarrow> run_length p i iE1 j iE2 1;
         optimal_inner p iE1 iE2 i (j + 1) (if k > mx then (k, i, j) else (mx, x, y))
       }
     } else Some (mx, x, y))"
  by pat_completeness auto
termination
  by (relation "measure (\<lambda>(p, iE1, iE2, i, j, b). iE2 - j)") auto

declare optimal_inner.simps [simp del]

function optimal_outer :: "dcontext \<Rightarrow> nat \<Rightarrow> nat \<Rightarrow> nat \<Rightarrow> nat \<Rightarrow> nat \<times> nat \<times> nat \<Rightarrow> (nat \<times> nat \<times> nat) option" where
  "optimal_outer p iE1 iS2 iE2 i (mx, x, y) = (if i + mx < iE1 then do {
       b \<leftarrow> optimal_inner p iE1 iE2 i iS2 (mx, x, y);
       optimal_outer p iE1 iS2 iE2 (i + 1) b
     } else Some (mx, x, y))"
  by pat_completeness auto
termination
  by (relation "measure (\<lambda>(p, iE1, iS2, iE2, i, b). iE1 - i)") auto

declare optimal_outer.simps [simp del]

text \<open>A block of common lines: the bounds in the first and in the second text.\<close>

record block =
  iSX :: nat
  iEX :: nat
  iSY :: nat
  iEY :: nat

definition optimalLCS :: "dcontext \<Rightarrow> nat \<Rightarrow> nat \<Rightarrow> nat \<Rightarrow> nat \<Rightarrow> block option" where
  "optimalLCS p iS1 iE1 iS2 iE2 = do {
     (mx, x, y) \<leftarrow> optimal_outer p iE1 iS2 iE2 iS1 (0, iS1, iS2);
     Some \<lparr>iSX = x, iEX = x + mx, iSY = y, iEY = y + mx\<rparr>
   }"

text \<open>The first line of the chain \<open>j\<close> that is in the range and equal, plus one, or zero.\<close>

function chain_loop :: "dcontext \<Rightarrow> dline \<Rightarrow> nat \<Rightarrow> nat \<Rightarrow> nat \<Rightarrow> nat \<Rightarrow> nat option" where
  "chain_loop p d iS2 iE2 j limit = (if j = 0 then Some 0
     else do {
       same \<leftarrow> (if j - 1 < iS2 \<or> j \<ge> iE2 then Some False
         else do { b \<leftarrow> peek (aTo p) (j - 1); same_dline d b });
       if same then Some j
       else if limit > 10 then Some 0
       else do {
         b \<leftarrow> peek (aTo p) (j - 1);
         chain_loop p d iS2 iE2 (dl_iNext b) (limit + 1)
       }
     })"
  by pat_completeness auto
termination
  by (relation "measure (\<lambda>(p, d, iS2, iE2, j, limit). 12 - limit)") auto

declare chain_loop.simps [simp del]

text \<open>How far the block that holds the lines before \<open>x\<close> and \<open>y\<close> reaches back.\<close>

fun extend_back :: "dcontext \<Rightarrow> nat \<Rightarrow> nat \<Rightarrow> nat \<Rightarrow> nat \<Rightarrow> (nat \<times> nat) option" where
  "extend_back p iS1 iS2 x 0 = Some (x, 0)"
| "extend_back p iS1 iS2 x (Suc y) = (if x > iS1 \<and> Suc y > iS2 then do {
       same \<leftarrow> same_at (aFrom p) (x - 1) (aTo p) y;
       if same then extend_back p iS1 iS2 (x - 1) y else Some (x, Suc y)
     } else Some (x, Suc y))"

definition in_block :: "nat \<Rightarrow> nat \<Rightarrow> block \<Rightarrow> bool" where
  "in_block i j b \<longleftrightarrow> i < iEX b \<and> iSY b \<le> j \<and> j < iEY b"

definition distance :: "nat \<Rightarrow> nat \<Rightarrow> nat" where
  "distance a b = (if a < b then b - a else a - b)"

text \<open>The best block with its score and the previous match.\<close>

function lcs_loop :: "(nat \<Rightarrow> nat \<Rightarrow> nat \<Rightarrow> 'v::linorder) \<Rightarrow> dcontext \<Rightarrow> nat \<Rightarrow> nat \<Rightarrow> nat \<Rightarrow> nat \<Rightarrow> nat \<Rightarrow>
    'v \<Rightarrow> block \<Rightarrow> block \<Rightarrow> block option" where
  "lcs_loop score p iS1 iE1 iS2 iE2 i bestScore b prev = (if i < iE1 then do {
       d \<leftarrow> peek (aFrom p) i;
       if nTo p = 0 then None
       else do {
         e \<leftarrow> peek (aTo p) (unat (dl_h d mod of_nat (nTo p)));
         j \<leftarrow> chain_loop p d iS2 iE2 (dl_iHash e) 0;
         if j = 0 then lcs_loop score p iS1 iE1 iS2 iE2 (i + 1) bestScore b prev
         else if \<not> (iSX b \<le> i \<and> iSX prev \<le> i) then None
         else if in_block i j b \<or> in_block i j prev then lcs_loop score p iS1 iE1 iS2 iE2 (i + 1) bestScore b prev
         else do {
           (x, y) \<leftarrow> extend_back p iS1 iS2 i (j - 1);
           k \<leftarrow> run_length p (i + 1) iE1 j iE2 0;
           let new = \<lparr>iSX = x, iEX = i + 1 + k, iSY = y, iEY = j + k\<rparr>;
           let s = score (iEX new - iSX new) (distance (iSX new - iS1) (iSY new - iS2))
             (distance ((iSX new + iEX new) div 2) ((iE1 + iS1) div 2));
           if s > bestScore then lcs_loop score p iS1 iE1 iS2 iE2 (i + 1) s new prev
           else lcs_loop score p iS1 iE1 iS2 iE2 (i + 1) bestScore b new
         }
       }
     } else Some b)"
  by pat_completeness auto
termination
  by (relation "measure (\<lambda>(score, p, iS1, iE1, iS2, iE2, i, s, b, prev). iE1 - i)") auto

declare lcs_loop.simps [simp del]

text \<open>\<open>worst\<close> is the score to start with. The product of the lengths is a 32-bit \<open>int\<close>.\<close>

definition longestCommonSequence :: "(nat \<Rightarrow> nat \<Rightarrow> nat \<Rightarrow> 'v::linorder) \<Rightarrow> 'v \<Rightarrow> dcontext \<Rightarrow> nat \<Rightarrow> nat \<Rightarrow> nat \<Rightarrow> nat \<Rightarrow>
    block option" where
  "longestCommonSequence score worst p iS1 iE1 iS2 iE2 = (let none = \<lparr>iSX = iS1, iEX = iS1, iSY = iS2, iEY = iS2\<rparr> in do {
     b \<leftarrow> lcs_loop score p iS1 iE1 iS2 iE2 iS1 worst none none;
     if iSX b = iEX b \<and> to_int32 (int (iE1 - iS1) * int (iE2 - iS2)) < 400
     then optimalLCS p iS1 iE1 iS2 iE2 else Some b
   })"


section \<open>What the searches return\<close>

definition block_ok :: "nat \<Rightarrow> nat \<Rightarrow> nat \<Rightarrow> nat \<Rightarrow> block \<Rightarrow> bool" where
  "block_ok iS1 iE1 iS2 iE2 b \<longleftrightarrow> iS1 \<le> iSX b \<and> iSX b \<le> iEX b \<and> iEX b \<le> iE1 \<and>
     iS2 \<le> iSY b \<and> iSY b \<le> iEY b \<and> iEY b \<le> iE2 \<and> iEX b - iSX b = iEY b - iSY b"

lemma chain_loop_range: "chain_loop p d iS2 iE2 j limit = Some r \<Longrightarrow> r \<noteq> 0 \<Longrightarrow> iS2 < r \<and> r < iE2"
proof (induction "12 - limit" arbitrary: j limit rule: less_induct)
  case less
  note run = less(2) [unfolded chain_loop.simps [of p d iS2 iE2 j limit]]
  have next_line: ?case if "\<not> limit > 10" "chain_loop p d iS2 iE2 j' (limit + 1) = Some r" for j'
    using less(1) [OF _ that(2) less(3)] that(1) by simp
  show ?case
  proof (cases "j = 0 \<or> j - 1 < iS2 \<or> iE2 \<le> j")
    case True
    with run less(3) next_line show ?thesis by (auto split: if_splits bind_splits)
  next
    case False
    then have "iS2 < j \<and> j < iE2" by linarith
    with run False less(3) next_line show ?thesis by (auto split: if_splits bind_splits)
  qed
qed

lemma extend_back_range:
  "extend_back p iS1 iS2 x y = Some (x', y') \<Longrightarrow> iS1 \<le> x \<Longrightarrow> iS2 \<le> y \<Longrightarrow>
    iS1 \<le> x' \<and> x' \<le> x \<and> iS2 \<le> y' \<and> y' \<le> y \<and> x - x' = y - y'"
proof (induction y arbitrary: x)
  case (Suc y)
  from Suc.prems(1) obtain same where same: "x > iS1 \<and> Suc y > iS2 \<longrightarrow> same_at (aFrom p) (x - 1) (aTo p) y = Some same"
    by (auto split: bind_splits if_splits)
  show ?case
  proof (cases "x > iS1 \<and> Suc y > iS2 \<and> same")
    case True
    with Suc.prems(1) same have "extend_back p iS1 iS2 (x - 1) y = Some (x', y')" by simp
    moreover have "iS1 \<le> x - 1" "iS2 \<le> y" using True by linarith+
    ultimately have "iS1 \<le> x' \<and> x' \<le> x - 1 \<and> iS2 \<le> y' \<and> y' \<le> y \<and> x - 1 - x' = y - y'"
      by (rule Suc.IH)
    with True show ?thesis by auto
  next
    case False
    with Suc.prems same show ?thesis by (auto split: if_splits)
  qed
qed simp

lemma run_length_range:
  "run_length p i iE1 j iE2 k = Some k' \<Longrightarrow> i + k \<le> iE1 \<Longrightarrow> j + k \<le> iE2 \<Longrightarrow> k \<le> k' \<and> i + k' \<le> iE1 \<and> j + k' \<le> iE2"
proof (induction p i iE1 j iE2 k rule: run_length.induct)
  case (1 p i iE1 j iE2 k)
  show ?case
  proof (cases "i + k < iE1 \<and> j + k < iE2 \<and> same_at (aFrom p) (i + k) (aTo p) (j + k) = Some True")
    case True
    with 1 have "k + 1 \<le> k' \<and> i + k' \<le> iE1 \<and> j + k' \<le> iE2" by (simp add: run_length.simps [of p i iE1 j iE2 k])
    then show ?thesis by simp
  next
    case False
    with 1(2-4) show ?thesis by (auto simp: run_length.simps [of p i iE1 j iE2 k] split: if_splits bind_splits)
  qed
qed

lemma lcs_loop_range:
  "lcs_loop score p iS1 iE1 iS2 iE2 i s b prev = Some r \<Longrightarrow> iS1 \<le> i \<Longrightarrow> block_ok iS1 iE1 iS2 iE2 b \<Longrightarrow>
    block_ok iS1 iE1 iS2 iE2 r"
proof (induction score p iS1 iE1 iS2 iE2 i s b prev rule: lcs_loop.induct)
  case (1 score p iS1 iE1 iS2 iE2 i bestScore b prev)
  note run = 1(5) [unfolded lcs_loop.simps [of score p iS1 iE1 iS2 iE2 i bestScore b prev]]
  show ?case
  proof (cases "i < iE1")
    case True
    with run obtain d e j where d: "peek (aFrom p) i = Some d" "nTo p \<noteq> 0"
      "peek (aTo p) (unat (dl_h d mod of_nat (nTo p))) = Some e" "chain_loop p d iS2 iE2 (dl_iHash e) 0 = Some j"
      by (auto split: bind_splits if_splits)
    show ?thesis
    proof (cases "j = 0 \<or> in_block i j b \<or> in_block i j prev")
      case skip: True
      with run True d have "lcs_loop score p iS1 iE1 iS2 iE2 (i + 1) bestScore b prev = Some r"
        by (auto split: if_splits)
      with 1(1,2) [OF True d(1,2,3,4)] skip 1(6,7) run True d show ?thesis by (auto split: if_splits)
    next
      case False
      have "iS2 \<le> j - 1 \<and> j < iE2" using chain_loop_range [OF d(4)] False by auto
      from run True d False obtain x y k where xy: "iSX b \<le> i \<and> iSX prev \<le> i" "extend_back p iS1 iS2 i (j - 1) = Some (x, y)"
        "run_length p (i + 1) iE1 j iE2 0 = Some k"
        by (auto split: if_splits bind_splits)
      let ?new = "\<lparr>iSX = x, iEX = i + 1 + k, iSY = y, iEY = j + k\<rparr>"
      have "block_ok iS1 iE1 iS2 iE2 ?new"
        using extend_back_range [OF xy(2)] run_length_range [OF xy(3)] \<open>iS2 \<le> j - 1 \<and> j < iE2\<close> True 1(6) False
        by (auto simp: block_ok_def)
      with 1(3,4) [OF True d(1,2,3,4) _ _ _ xy(2) refl xy(3) refl refl] run True d False xy 1(6,7) show ?thesis
        by (auto simp: Let_def split: if_splits)
    qed
  qed (use run 1(7) in simp)
qed

lemma optimal_inner_range:
  "optimal_inner p iE1 iE2 i j m = Some (mx', x', y') \<Longrightarrow> iS1 \<le> i \<Longrightarrow> i < iE1 \<Longrightarrow> iS2 \<le> j \<Longrightarrow>
    (case m of (mx, x, y) \<Rightarrow> iS1 \<le> x \<and> x + mx \<le> iE1 \<and> iS2 \<le> y \<and> y + mx \<le> iE2) \<Longrightarrow>
    iS1 \<le> x' \<and> x' + mx' \<le> iE1 \<and> iS2 \<le> y' \<and> y' + mx' \<le> iE2"
proof (induction p iE1 iE2 i j m rule: optimal_inner.induct)
  case (1 p iE1 iE2 i j mx x y)
  note run = 1(3) [unfolded optimal_inner.simps [of p iE1 iE2 i j mx x y]]
  show ?case
  proof (cases "j + mx < iE2")
    case True
    with run obtain same far where st: "same_at (aFrom p) i (aTo p) j = Some same"
      "(if same \<and> mx > 0 then same_at (aFrom p) (i + mx) (aTo p) (j + mx) else Some True) = Some far"
      by (auto split: bind_splits if_splits)
    show ?thesis
    proof (cases "\<not> same \<or> \<not> far")
      case skip: True
      with run True st have "optimal_inner p iE1 iE2 i (j + 1) (mx, x, y) = Some (mx', x', y')" by simp
      from 1(1) [OF True st skip this] 1(4-7) show ?thesis by simp
    next
      case False
      with run True st obtain k where k: "run_length p i iE1 j iE2 1 = Some k"
        "optimal_inner p iE1 iE2 i (j + 1) (if k > mx then (k, i, j) else (mx, x, y)) = Some (mx', x', y')"
        by (auto split: bind_splits)
      from run_length_range [OF k(1)] 1(5) True have "i + k \<le> iE1 \<and> j + k \<le> iE2" by simp
      with 1(2) [OF True st False k] 1(4-7) show ?thesis by (auto split: if_splits)
    qed
  qed (use run 1(7) in simp)
qed

lemma optimal_outer_range:
  "optimal_outer p iE1 iS2 iE2 i m = Some (mx', x', y') \<Longrightarrow> iS1 \<le> i \<Longrightarrow>
    (case m of (mx, x, y) \<Rightarrow> iS1 \<le> x \<and> x + mx \<le> iE1 \<and> iS2 \<le> y \<and> y + mx \<le> iE2) \<Longrightarrow>
    iS1 \<le> x' \<and> x' + mx' \<le> iE1 \<and> iS2 \<le> y' \<and> y' + mx' \<le> iE2"
proof (induction p iE1 iS2 iE2 i m rule: optimal_outer.induct)
  case (1 p iE1 iS2 iE2 i mx x y)
  note run = 1(2) [unfolded optimal_outer.simps [of p iE1 iS2 iE2 i mx x y]]
  show ?case
  proof (cases "i + mx < iE1")
    case True
    with run obtain b where b: "optimal_inner p iE1 iE2 i iS2 (mx, x, y) = Some b"
      "optimal_outer p iE1 iS2 iE2 (i + 1) b = Some (mx', x', y')"
      by (auto split: bind_splits)
    obtain mx1 x1 y1 where "b = (mx1, x1, y1)" by (cases b)
    with optimal_inner_range [of p iE1 iE2 i iS2 "(mx, x, y)" mx1 x1 y1 iS1 iS2] b(1) 1(3,4) True
    have "case b of (mx, x, y) \<Rightarrow> iS1 \<le> x \<and> x + mx \<le> iE1 \<and> iS2 \<le> y \<and> y + mx \<le> iE2" by simp
    with 1(1) [OF True b] 1(3) show ?thesis by simp
  qed (use run 1(4) in simp)
qed

lemma longestCommonSequence_range:
  assumes "longestCommonSequence score worst p iS1 iE1 iS2 iE2 = Some b" and "iS1 \<le> iE1" and "iS2 \<le> iE2"
  shows "block_ok iS1 iE1 iS2 iE2 b"
proof -
  let ?none = "\<lparr>iSX = iS1, iEX = iS1, iSY = iS2, iEY = iS2\<rparr>"
  from assms(1) obtain r where r: "lcs_loop score p iS1 iE1 iS2 iE2 iS1 worst ?none ?none = Some r"
    "b = r \<or> optimalLCS p iS1 iE1 iS2 iE2 = Some b"
    by (auto simp: longestCommonSequence_def Let_def split: bind_splits if_splits)
  from r(2) show ?thesis
  proof
    assume "b = r"
    with lcs_loop_range [OF r(1)] assms(2,3) show ?thesis by (simp add: block_ok_def)
  next
    assume "optimalLCS p iS1 iE1 iS2 iE2 = Some b"
    then obtain mx x y where "optimal_outer p iE1 iS2 iE2 iS1 (0, iS1, iS2) = Some (mx, x, y)"
      "b = \<lparr>iSX = x, iEX = x + mx, iSY = y, iEY = y + mx\<rparr>"
      by (auto simp: optimalLCS_def split: bind_splits)
    with optimal_outer_range [OF this(1), of iS1] assms(2,3) show ?thesis by (simp add: block_ok_def)
  qed
qed


section \<open>The difference\<close>

function diff_step :: "(nat \<Rightarrow> nat \<Rightarrow> nat \<Rightarrow> 'v::linorder) \<Rightarrow> 'v \<Rightarrow> dcontext \<Rightarrow> nat \<Rightarrow> nat \<Rightarrow> nat \<Rightarrow> nat \<Rightarrow>
    dcontext option" where
  "diff_step score worst p iS1 iE1 iS2 iE2 =
     (if iE1 \<le> iS1 then
        (if iE2 > iS2 then appendTriple p 0 0 (int (iE2 - iS2)) else Some p)
      else if iE2 \<le> iS2 then appendTriple p 0 (int (iE1 - iS1)) 0
      else do {
        b \<leftarrow> longestCommonSequence score worst p iS1 iE1 iS2 iE2;
        if iEX b > iSX b then do {
          p \<leftarrow> diff_step score worst p iS1 (iSX b) iS2 (iSY b);
          p \<leftarrow> appendTriple p (int (iEX b - iSX b)) 0 0;
          diff_step score worst p (iEX b) iE1 (iEY b) iE2
        }
        else appendTriple p 0 (int (iE1 - iS1)) (int (iE2 - iS2))
      })"
  by pat_completeness auto
termination
proof (relation "measure (\<lambda>(score, worst, p, iS1, iE1, iS2, iE2). (iE1 - iS1) + (iE2 - iS2))", goal_cases)
  case (2 score worst p iS1 iE1 iS2 iE2 b)
  have "block_ok iS1 iE1 iS2 iE2 b" by (rule longestCommonSequence_range [OF 2(3)]) (use 2(1,2) in simp_all)
  with 2(1,2,4) show ?case by (auto simp: block_ok_def)
next
  case (3 score worst p iS1 iE1 iS2 iE2 b)
  have "block_ok iS1 iE1 iS2 iE2 b" by (rule longestCommonSequence_range [OF 3(3)]) (use 3(1,2) in simp_all)
  with 3(1,2,4) show ?case by (auto simp: block_ok_def)
qed simp

declare diff_step.simps [simp del]

fun footer_loop :: "dcontext \<Rightarrow> nat \<Rightarrow> nat \<Rightarrow> (nat \<times> nat) option" where
  "footer_loop p (Suc iE1) (Suc iE2) = do {
     same \<leftarrow> same_at (aFrom p) iE1 (aTo p) iE2;
     if same then footer_loop p iE1 iE2 else Some (Suc iE1, Suc iE2)
   }"
| "footer_loop p iE1 iE2 = Some (iE1, iE2)"

text \<open>The header is the run of equal lines from the first ones on.\<close>

definition diff_all :: "(nat \<Rightarrow> nat \<Rightarrow> nat \<Rightarrow> 'v::linorder) \<Rightarrow> 'v \<Rightarrow> dcontext \<Rightarrow> dcontext option" where
  "diff_all score worst p = do {
     (iE1, iE2) \<leftarrow> footer_loop p (nFrom p) (nTo p);
     let mnE = (if iE1 < iE2 then iE1 else iE2);
     iS \<leftarrow> run_length p 0 mnE 0 mnE 0;
     p \<leftarrow> (if iS > 0 then appendTriple p (int iS) 0 0 else Some p);
     p \<leftarrow> diff_step score worst p iS iE1 iS iE2;
     p \<leftarrow> (if iE1 < nFrom p then appendTriple p (int (nFrom p - iE1)) 0 0 else Some p);
     store_triple (expandEdit p (length (aEdit p) + 3)) 0 0 0
   }"

text \<open>The array of counts for two texts, without a report; the null pointer for a binary file.\<close>

definition text_diff :: "(nat \<Rightarrow> nat \<Rightarrow> nat \<Rightarrow> 'v::linorder) \<Rightarrow> 'v \<Rightarrow> byte list \<Rightarrow> byte list \<Rightarrow> bool \<Rightarrow>
    int list option option" where
  "text_diff score worst zA zB ignoreEolWs = do {
     a \<leftarrow> break_into_lines zA ignoreEolWs;
     b \<leftarrow> break_into_lines zB ignoreEolWs;
     case (a, b) of
       (Some (A, n), Some (B, m)) \<Rightarrow> do {
         p \<leftarrow> diff_all score worst \<lparr>aEdit = [], nEditAlloc = 0, aFrom = A, nFrom = n, aTo = B, nTo = m\<rparr>;
         Some (Some (aEdit p))
       }
     | _ \<Rightarrow> Some None
   }"

section \<open>Edit scripts\<close>

text \<open>
  What the counts mean: a list of copy, delete and insert counts turns the list \<open>A\<close> into the list
  \<open>B\<close>.
\<close>

fun edits :: "(nat \<times> nat \<times> nat) list \<Rightarrow> 'a list \<Rightarrow> 'a list \<Rightarrow> bool" where
  "edits [] A B \<longleftrightarrow> A = [] \<and> B = []"
| "edits ((c, d, i) # ts) A B \<longleftrightarrow> c + d \<le> length A \<and> c + i \<le> length B \<and> take c A = take c B \<and>
     edits ts (drop (c + d) A) (drop (c + i) B)"

definition flat :: "(nat \<times> nat \<times> nat) list \<Rightarrow> int list" where
  "flat ts = concat (map (\<lambda>(c, d, i). [int c, int d, int i]) ts)"

lemma flat_simps [simp]: "flat [] = []" "flat ((c, d, i) # ts) = int c # int d # int i # flat ts"
  "flat (ts @ us) = flat ts @ flat us"
  by (simp_all add: flat_def)

lemma length_flat [simp]: "length (flat ts) = 3 * length ts"
  by (induction ts) auto

lemma edits_snoc:
  assumes "edits ts A B"
  shows "edits (ts @ [(length C, length D, length I)]) (A @ C @ D) (B @ C @ I)"
  using assms
proof (induction ts A B rule: edits.induct)
  case (2 c d i ts A B)
  then show ?case by simp
qed simp

lemma edits_snocD:
  assumes "edits (ts @ [(c, d, i)]) A B"
  obtains A' B' C D I where "A = A' @ C @ D" and "B = B' @ C @ I" and "edits ts A' B'"
    and "length C = c" and "length D = d" and "length I = i"
proof -
  have "\<exists>A' B' C D I. A = A' @ C @ D \<and> B = B' @ C @ I \<and> edits ts A' B' \<and> length C = c \<and> length D = d \<and> length I = i"
    using assms
  proof (induction ts A B rule: edits.induct)
    case (1 A B)
    then have fit: "c + d \<le> length A" "c + i \<le> length B" "take c A = take c B" "length A \<le> c + d" "length B \<le> c + i" by simp_all
    have "B = [] @ take c A @ drop c B" unfolding fit(3) by simp
    moreover have "A = [] @ take c A @ drop c A" by simp
    moreover have "edits [] ([]::'a list) ([]::'a list) \<and> length (take c A) = c \<and> length (drop c A) = d \<and> length (drop c B) = i"
    proof -
      have "length A = c + d" "length B = c + i" using fit by linarith+
      then show ?thesis by simp
    qed
    ultimately show ?case by blast
  next
    case (2 c' d' i' ts A B)
    from 2(2) have "edits (ts @ [(c, d, i)]) (drop (c' + d') A) (drop (c' + i') B)" by simp
    from 2(1) [OF this] obtain A' B' C D I where IH: "drop (c' + d') A = A' @ C @ D" "drop (c' + i') B = B' @ C @ I" "edits ts A' B'"
      "length C = c" "length D = d" "length I = i" by blast
    have "A = take (c' + d') A @ drop (c' + d') A" "B = take (c' + i') B @ drop (c' + i') B"
      by (simp_all only: append_take_drop_id)
    then have "A = (take (c' + d') A @ A') @ C @ D" "B = (take (c' + i') B @ B') @ C @ I"
      unfolding IH(1,2) append.assoc .
    moreover have "edits ((c', d', i') # ts) (take (c' + d') A @ A') (take (c' + i') B @ B')"
      using 2(2) IH(3) by (auto simp: min_def)
    ultimately show ?case using IH(4-6) by blast
  qed
  with that show ?thesis by blast
qed

text \<open>
  The first triple that is all zeros ends an array. A triple that only inserts is joined with the one
  before it.
\<close>

definition normal :: "(nat \<times> nat \<times> nat) list \<Rightarrow> bool" where
  "normal ts \<longleftrightarrow> list_all (\<lambda>t. t \<noteq> (0, 0, 0)) ts \<and> list_all (\<lambda>(c, d, i). c \<noteq> 0 \<or> d \<noteq> 0) (tl ts)"

lemma normal_snoc:
  "normal (ts @ [(c, d, i)]) \<longleftrightarrow> normal ts \<and> (c, d, i) \<noteq> (0, 0, 0) \<and> (ts = [] \<or> c \<noteq> 0 \<or> d \<noteq> 0)"
  by (cases ts) (auto simp: normal_def)

lemma appendTriple_ok:
  assumes "aEdit p = flat ts" and "edits ts A B" and "normal ts" and "(length C, length D, length I) \<noteq> (0, 0, 0)"
  obtains p' ts' where "appendTriple p (int (length C)) (int (length D)) (int (length I)) = Some p'"
    and "aEdit p' = flat ts'" and "edits ts' (A @ C @ D) (B @ C @ I)" and "normal ts'"
    and "aFrom p' = aFrom p" and "nFrom p' = nFrom p" and "aTo p' = aTo p" and "nTo p' = nTo p"
proof -
  note goal = that
  let ?t = "(length C, length D, length I)"
  have new: "edits (ts @ [?t]) (A @ C @ D) (B @ C @ I)" using edits_snoc [OF assms(2)] .
  have store: ?thesis if apart: "ts = [] \<or> C \<noteq> [] \<or> D \<noteq> []" and st: "appendTriple p (int (length C)) (int (length D)) (int (length I)) =
      store_triple (if length (aEdit p) + 3 > nEditAlloc p then expandEdit p (length (aEdit p) * 2 + 15) else p)
        (int (length C)) (int (length D)) (int (length I))"
  proof -
    obtain p' where "appendTriple p (int (length C)) (int (length D)) (int (length I)) = Some p'"
      "aEdit p' = aEdit p @ [int (length C), int (length D), int (length I)]"
      "aFrom p' = aFrom p" "nFrom p' = nFrom p" "aTo p' = aTo p" "nTo p' = nTo p"
      unfolding st by (cases "length (aEdit p) + 3 > nEditAlloc p") (auto simp: store_triple_def expandEdit_def)
    moreover have "normal (ts @ [?t])" using assms(3,4) apart by (simp add: normal_snoc)
    ultimately show ?thesis using new assms(1) by (intro goal [of p' "ts @ [?t]"]) simp_all
  qed
  show ?thesis
  proof (cases ts rule: rev_cases)
    case Nil
    with assms(1) show ?thesis by (intro store) (simp_all add: appendTriple_def)
  next
    case (snoc us t)
    obtain c d i where t: "t = (c, d, i)" by (cases t)
    from assms(2) obtain A' B' C0 D0 I0 where parts: "A = A' @ C0 @ D0" "B = B' @ C0 @ I0" "edits us A' B'"
      "length C0 = c" "length D0 = d" "length I0 = i"
      unfolding snoc t by (rule edits_snocD)
    have e: "aEdit p = flat us @ [int c, int d, int i]" using assms(1) snoc t by simp
    have last: "aEdit p ! (length (aEdit p) - 3) = int c" "aEdit p ! (length (aEdit p) - 2) = int d" "aEdit p ! (length (aEdit p) - 1) = int i"
      unfolding e by (simp_all add: nth_append)
    have add: "add_last (aEdit p) x y z = flat us @ [int c + x, int d + y, int i + z]" for x y z
      unfolding e by (simp add: add_last_def nth_append list_update_append)
    have nz: "normal (us @ [(c + x, d + y, i + z)])" for x y z using assms(3) snoc t by (auto simp: normal_snoc)
    have merged: ?thesis if "appendTriple p (int (length C)) (int (length D)) (int (length I)) =
        Some (p\<lparr>aEdit := add_last (aEdit p) (int x) (int y) (int z)\<rparr>)"
      and "edits (us @ [(c + x, d + y, i + z)]) (A @ C @ D) (B @ C @ I)" for x y z
      by (rule goal [OF that(1) _ that(2) nz]) (simp_all add: add)
    have n: "3 \<le> length (aEdit p)" unfolding e by simp
    show ?thesis
    proof (cases "i = 0 \<and> d = 0")
      case True
      show ?thesis
      proof (rule merged)
        show "appendTriple p (int (length C)) (int (length D)) (int (length I)) =
            Some (p\<lparr>aEdit := add_last (aEdit p) (int (length C)) (int (length D)) (int (length I))\<rparr>)"
          using n last True by (simp add: appendTriple_def)
        show "edits (us @ [(c + length C, d + length D, i + length I)]) (A @ C @ D) (B @ C @ I)"
          using edits_snoc [OF parts(3), of "C0 @ C" D I] parts True by simp
      qed
    next
      case False
      show ?thesis
      proof (cases "C = [] \<and> (i = 0 \<or> D = [])")
        case True
        show ?thesis
        proof (rule merged)
          show "appendTriple p (int (length C)) (int (length D)) (int (length I)) =
              Some (p\<lparr>aEdit := add_last (aEdit p) (int 0) (int (length D)) (int (length I))\<rparr>)"
            using n last True False by (auto simp add: appendTriple_def Let_def)
          show "edits (us @ [(c + 0, d + length D, i + length I)]) (A @ C @ D) (B @ C @ I)"
            using edits_snoc [OF parts(3), of C0 "D0 @ D" "I0 @ I"] parts True by simp
        qed
      next
        case other: False
        show ?thesis by (rule store) (use n last False other in \<open>auto simp add: appendTriple_def Let_def\<close>)
      qed
    qed
  qed
qed


section \<open>The searches on well-formed lines\<close>

definition dline_ok :: "dline \<Rightarrow> bool" where
  "dline_ok d \<longleftrightarrow> unat (dl_h d AND 0x1fff) \<le> length (dl_z d)"

definition line_text :: "dline \<Rightarrow> byte list" where
  "line_text d = take (unat (dl_h d AND 0x1fff)) (dl_z d)"

definition lines_ok :: "dline list \<Rightarrow> nat \<Rightarrow> bool" where
  "lines_ok a n \<longleftrightarrow> n \<le> length a \<and> (\<forall>i < n. dline_ok (a ! i) \<and> dl_iNext (a ! i) \<le> n \<and> dl_iHash (a ! i) \<le> n)"

definition context_ok :: "dcontext \<Rightarrow> bool" where
  "context_ok p \<longleftrightarrow> lines_ok (aFrom p) (nFrom p) \<and> lines_ok (aTo p) (nTo p) \<and> nTo p < 2 ^ 32"

definition texts :: "dline list \<Rightarrow> nat \<Rightarrow> byte list list" where
  "texts a n = map line_text (take n a)"

lemma same_dline_ok:
  "dline_ok a \<Longrightarrow> dline_ok b \<Longrightarrow> same_dline a b = Some (dl_h a = dl_h b \<and> line_text a = line_text b)"
  by (auto simp: same_dline_def dline_ok_def line_text_def Let_def)

lemma same_at_ok:
  assumes "lines_ok a n" and "lines_ok b m" and "i < n" and "j < m"
  obtains r where "same_at a i b j = Some r" and "r \<Longrightarrow> line_text (a ! i) = line_text (b ! j)"
  using assms by (auto simp: same_at_def lines_ok_def same_dline_ok)

text \<open>The \<open>n\<close> lines from \<open>x\<close> and from \<open>y\<close> on are the same.\<close>

definition common :: "dcontext \<Rightarrow> nat \<Rightarrow> nat \<Rightarrow> nat \<Rightarrow> bool" where
  "common p x y n \<longleftrightarrow> (\<forall>k < n. line_text (aFrom p ! (x + k)) = line_text (aTo p ! (y + k)))"

lemma common_0 [simp]: "common p x y 0"
  by (simp add: common_def)

lemma common_snoc: "common p x y (Suc n) \<longleftrightarrow> common p x y n \<and> line_text (aFrom p ! (x + n)) = line_text (aTo p ! (y + n))"
  by (auto simp: common_def less_Suc_eq)

lemma common_append: "common p x y n \<Longrightarrow> common p (x + n) (y + n) m \<Longrightarrow> common p x y (n + m)"
  by (induction m) (simp_all add: common_snoc add.assoc)

lemma common_texts:
  assumes "context_ok p" and "x + n \<le> nFrom p" and "y + n \<le> nTo p" and "common p x y n"
  shows "take n (drop x (texts (aFrom p) (nFrom p))) = take n (drop y (texts (aTo p) (nTo p)))"
  using assms by (intro nth_equalityI) (auto simp: texts_def context_ok_def lines_ok_def common_def)

lemma run_length_ok:
  assumes "context_ok p" and "iE1 \<le> nFrom p" and "iE2 \<le> nTo p" and "common p i j k"
  shows "\<exists>k'. run_length p i iE1 j iE2 k = Some k' \<and> common p i j k'"
  using assms
proof (induction p i iE1 j iE2 k rule: run_length.induct)
  case (1 p i iE1 j iE2 k)
  note un = run_length.simps [of p i iE1 j iE2 k]
  show ?case
  proof (cases "i + k < iE1 \<and> j + k < iE2")
    case True
    with 1(2-4) obtain r where r: "same_at (aFrom p) (i + k) (aTo p) (j + k) = Some r"
      "r \<Longrightarrow> line_text (aFrom p ! (i + k)) = line_text (aTo p ! (j + k))"
      unfolding context_ok_def by (meson same_at_ok order_less_le_trans)
    show ?thesis
    proof (cases r)
      case same: True
      with 1(1) [OF True r(1) same 1(2-4)] 1(5) r True show ?thesis by (simp add: un common_snoc)
    qed (use True r(1) 1(5) in \<open>simp add: un\<close>)
  qed (use 1(5) in \<open>auto simp: un\<close>)
qed

lemma extend_back_ok:
  assumes "context_ok p" and "x \<le> nFrom p" and "y \<le> nTo p"
  shows "\<exists>x' y'. extend_back p iS1 iS2 x y = Some (x', y') \<and> common p x' y' (y - y')"
  using assms(2,3)
proof (induction y arbitrary: x)
  case (Suc y)
  show ?case
  proof (cases "x > iS1 \<and> Suc y > iS2")
    case True
    then have "x - 1 < nFrom p" "y < nTo p" using Suc.prems by linarith+
    with assms(1) obtain r where r: "same_at (aFrom p) (x - 1) (aTo p) y = Some r"
      "r \<Longrightarrow> line_text (aFrom p ! (x - 1)) = line_text (aTo p ! y)"
      unfolding context_ok_def using same_at_ok by blast
    show ?thesis
    proof (cases r)
      case same: True
      from Suc.IH [of "x - 1"] \<open>x - 1 < nFrom p\<close> \<open>y < nTo p\<close> obtain x' y' where IH: "extend_back p iS1 iS2 (x - 1) y = Some (x', y')"
        "common p x' y' (y - y')" by auto
      have "x - 1 - x' = y - y'" "y' \<le> y" "x' \<le> x - 1" using extend_back_range [OF IH(1)] True by auto
      then have "x' + (y - y') = x - 1" "y' + (y - y') = y" "Suc y - y' = Suc (y - y')" by linarith+
      with IH(2) r(2) same have "common p x' y' (Suc y - y')" by (simp add: common_snoc)
      with IH(1) True r(1) same show ?thesis by simp
    qed (use True r(1) in simp)
  qed auto
qed simp


lemma chain_loop_ok:
  assumes "context_ok p" and "dline_ok d" and "iE2 \<le> nTo p"
  shows "j \<le> nTo p \<Longrightarrow>
    \<exists>r. chain_loop p d iS2 iE2 j limit = Some r \<and> (r \<noteq> 0 \<longrightarrow> line_text d = line_text (aTo p ! (r - 1)))"
proof (induction "12 - limit" arbitrary: j limit rule: less_induct)
  case less
  note un = chain_loop.simps [of p d iS2 iE2 j limit]
  show ?case
  proof (cases "j = 0")
    case False
    then have j: "j - 1 < nTo p" using less(2) by linarith
    then have b: "peek (aTo p) (j - 1) = Some (aTo p ! (j - 1))" "dline_ok (aTo p ! (j - 1))" "dl_iNext (aTo p ! (j - 1)) \<le> nTo p"
      using assms(1) by (simp_all add: context_ok_def lines_ok_def)
    obtain same where same: "(if j - 1 < iS2 \<or> j \<ge> iE2 then Some False
        else do { b \<leftarrow> peek (aTo p) (j - 1); same_dline d b }) = Some same"
      "same \<Longrightarrow> line_text d = line_text (aTo p ! (j - 1))"
    proof (cases "j - 1 < iS2 \<or> iE2 \<le> j")
      case False
      with b(1) same_dline_ok [OF assms(2) b(2)] show ?thesis
        by (intro that [of "dl_h d = dl_h (aTo p ! (j - 1)) \<and> line_text d = line_text (aTo p ! (j - 1))"]) simp_all
    qed (use that [of False] in simp)
    show ?thesis
    proof (cases "same \<or> limit > 10")
      case True
      with False same b show ?thesis by (auto simp: un)
    next
      case go: False
      then have "12 - (limit + 1) < 12 - limit" by linarith
      from less(1) [OF this b(3)] go False same(1) b(1) show ?thesis by (simp add: un)
    qed
  qed (simp add: chain_loop.simps [of p d iS2 iE2 0 limit])
qed

lemma lcs_loop_ok:
  assumes "context_ok p" and "iE1 \<le> nFrom p" and "iE2 \<le> nTo p" and "0 < nTo p"
  shows "iS1 \<le> i \<Longrightarrow> block_ok iS1 iE1 iS2 iE2 b \<Longrightarrow> common p (iSX b) (iSY b) (iEX b - iSX b) \<Longrightarrow> iSX b \<le> i \<Longrightarrow> iSX prev \<le> i \<Longrightarrow>
    \<exists>r. lcs_loop score p iS1 iE1 iS2 iE2 i s b prev = Some r \<and> common p (iSX r) (iSY r) (iEX r - iSX r)"
proof (induction "iE1 - i" arbitrary: i s b prev rule: less_induct)
  case less
  note un = lcs_loop.simps [of score p iS1 iE1 iS2 iE2 i s b prev]
  show ?case
  proof (cases "i < iE1")
    case True
    then have smaller: "iE1 - (i + 1) < iE1 - i" by linarith
    have d: "peek (aFrom p) i = Some (aFrom p ! i)" "dline_ok (aFrom p ! i)"
      using assms(1,2) True by (simp_all add: context_ok_def lines_ok_def)
    let ?h = "unat (dl_h (aFrom p ! i) mod of_nat (nTo p))"
    have "?h < nTo p"
    proof -
      have "unat (of_nat (nTo p) :: u32) = nTo p"
        using assms(1) by (simp add: context_ok_def unsigned_of_nat take_bit_nat_eq_self)
      then show ?thesis using assms(4) by (simp add: unat_mod)
    qed
    then have e: "peek (aTo p) ?h = Some (aTo p ! ?h)" "dl_iHash (aTo p ! ?h) \<le> nTo p"
      using assms(1) by (simp_all add: context_ok_def lines_ok_def)
    obtain j where j: "chain_loop p (aFrom p ! i) iS2 iE2 (dl_iHash (aTo p ! ?h)) 0 = Some j"
      "j \<noteq> 0 \<Longrightarrow> line_text (aFrom p ! i) = line_text (aTo p ! (j - 1))"
      using chain_loop_ok [OF assms(1) d(2) assms(3) e(2)] by blast
    have next_line: "\<exists>r. lcs_loop score p iS1 iE1 iS2 iE2 (i + 1) s' b' prev' = Some r \<and> common p (iSX r) (iSY r) (iEX r - iSX r)"
      if "block_ok iS1 iE1 iS2 iE2 b'" "common p (iSX b') (iSY b') (iEX b' - iSX b')" "iSX b' \<le> i" "iSX prev' \<le> i" for s' b' prev'
      using less(1) [OF smaller _ that(1,2)] less(2) that(3,4) by simp
    show ?thesis
    proof (cases "j = 0 \<or> in_block i j b \<or> in_block i j prev")
      case skip: True
      with un True d e j less(5,6) assms(4) have "lcs_loop score p iS1 iE1 iS2 iE2 i s b prev = lcs_loop score p iS1 iE1 iS2 iE2 (i + 1) s b prev"
        by auto
      with next_line [OF less(3-6)] show ?thesis by simp
    next
      case False
      have jr: "iS2 \<le> j - 1" "j < iE2" using chain_loop_range [OF j(1)] False by auto
      from extend_back_ok [OF assms(1), of i "j - 1"] True jr assms(2,3) obtain x y where
        xy: "extend_back p iS1 iS2 i (j - 1) = Some (x, y)" "common p x y (j - 1 - y)" by (metis less_imp_le_nat less_le_trans le_trans less_imp_diff_less)
      have xyr: "iS1 \<le> x" "x \<le> i" "iS2 \<le> y" "y \<le> j - 1" "i - x = j - 1 - y"
        using extend_back_range [OF xy(1) less(2) jr(1)] by simp_all
      from run_length_ok [OF assms(1-3), of "i + 1" j 0] obtain k where
        k: "run_length p (i + 1) iE1 j iE2 0 = Some k" "common p (i + 1) j k" by auto
      have kr: "i + 1 + k \<le> iE1" "j + k \<le> iE2" using run_length_range [OF k(1)] True jr by simp_all
      let ?new = "\<lparr>iSX = x, iEX = i + 1 + k, iSY = y, iEY = j + k\<rparr>"
      have new: "block_ok iS1 iE1 iS2 iE2 ?new" using xyr kr jr False by (auto simp: block_ok_def)
      have "x + (j - 1 - y) = i" "y + (j - 1 - y) = j - 1" using xyr by linarith+
      then have "common p x y (Suc (j - 1 - y))" using xy(2) j(2) False unfolding common_snoc by simp
      moreover have "x + Suc (j - 1 - y) = i + 1" "y + Suc (j - 1 - y) = j" "Suc (j - 1 - y) + k = i + 1 + k - x"
        using xyr False by auto
      ultimately have cm: "common p x y (i + 1 + k - x)" using common_append k(2) by metis
      have "lcs_loop score p iS1 iE1 iS2 iE2 i s b prev = (let s' = score (iEX ?new - iSX ?new) (distance (iSX ?new - iS1) (iSY ?new - iS2))
             (distance ((iSX ?new + iEX ?new) div 2) ((iE1 + iS1) div 2)) in
           if s' > s then lcs_loop score p iS1 iE1 iS2 iE2 (i + 1) s' ?new prev
           else lcs_loop score p iS1 iE1 iS2 iE2 (i + 1) s b ?new)"
        using un True d e j(1) less(5,6) assms(4) False xy(1) k(1) by (simp add: Let_def)
      with next_line [OF new _ _ less(6)] next_line [OF less(3-5), of ?new] cm xyr(2) show ?thesis by (simp add: Let_def)
    qed
  qed (use less(4) un in simp)
qed

text \<open>
  The exhaustive search may read the record behind the last line of the first text. It does not when
  the lines of the second text are distinct; otherwise that record has to be readable.
\<close>

definition room :: "dcontext \<Rightarrow> bool" where
  "room p \<longleftrightarrow> nFrom p < length (aFrom p) \<and> dline_ok (aFrom p ! nFrom p) \<or> distinct (texts (aTo p) (nTo p))"

lemma optimal_inner_common:
  "optimal_inner p iE1 iE2 i j m = Some (mx', x', y') \<Longrightarrow> context_ok p \<Longrightarrow> iE1 \<le> nFrom p \<Longrightarrow> iE2 \<le> nTo p \<Longrightarrow> i < iE1 \<Longrightarrow>
    common p (fst (snd m)) (snd (snd m)) (fst m) \<Longrightarrow> common p x' y' mx'"
proof (induction p iE1 iE2 i j m rule: optimal_inner.induct)
  case (1 p iE1 iE2 i j mx x y)
  note run = 1(3) [unfolded optimal_inner.simps [of p iE1 iE2 i j mx x y]]
  show ?case
  proof (cases "j + mx < iE2")
    case True
    with run obtain same far where st: "same_at (aFrom p) i (aTo p) j = Some same"
      "(if same \<and> mx > 0 then same_at (aFrom p) (i + mx) (aTo p) (j + mx) else Some True) = Some far"
      by (auto split: bind_splits if_splits)
    show ?thesis
    proof (cases "\<not> same \<or> \<not> far")
      case skip: True
      with run True st have "optimal_inner p iE1 iE2 i (j + 1) (mx, x, y) = Some (mx', x', y')" by simp
      from 1(1) [OF True st skip this] 1(4-8) show ?thesis by simp
    next
      case False
      with run True st obtain k where k: "run_length p i iE1 j iE2 1 = Some k"
        "optimal_inner p iE1 iE2 i (j + 1) (if k > mx then (k, i, j) else (mx, x, y)) = Some (mx', x', y')"
        by (auto split: bind_splits)
      have "i < nFrom p" "j < nTo p" using 1(5-7) True by linarith+
      then have "line_text (aFrom p ! i) = line_text (aTo p ! j)"
        using same_at_ok [of "aFrom p" "nFrom p" "aTo p" "nTo p" i j] 1(4) st(1) False by (metis context_ok_def option.inject)
      then have "common p i j 1" by (simp add: common_def)
      then have "common p i j k" using run_length_ok [OF 1(4-6), of i j 1] k(1) by auto
      with 1(2) [OF True st False k] 1(4-8) show ?thesis by (auto split: if_splits)
    qed
  qed (use run 1(8) in simp)
qed

lemma optimal_outer_common:
  "optimal_outer p iE1 iS2 iE2 i m = Some (mx', x', y') \<Longrightarrow> context_ok p \<Longrightarrow> iE1 \<le> nFrom p \<Longrightarrow> iE2 \<le> nTo p \<Longrightarrow>
    common p (fst (snd m)) (snd (snd m)) (fst m) \<Longrightarrow> common p x' y' mx'"
proof (induction p iE1 iS2 iE2 i m rule: optimal_outer.induct)
  case (1 p iE1 iS2 iE2 i mx x y)
  note run = 1(2) [unfolded optimal_outer.simps [of p iE1 iS2 iE2 i mx x y]]
  show ?case
  proof (cases "i + mx < iE1")
    case True
    with run obtain b where b: "optimal_inner p iE1 iE2 i iS2 (mx, x, y) = Some b"
      "optimal_outer p iE1 iS2 iE2 (i + 1) b = Some (mx', x', y')"
      by (auto split: bind_splits)
    obtain mx1 x1 y1 where "b = (mx1, x1, y1)" by (cases b)
    with optimal_inner_common [of p iE1 iE2 i iS2 "(mx, x, y)" mx1 x1 y1] b(1) 1(3-6) True
    have "common p (fst (snd b)) (snd (snd b)) (fst b)" by simp
    with 1(1) [OF True b] 1(3-5) show ?thesis by simp
  qed (use run 1(6) in simp)
qed

lemma optimal_inner_total:
  assumes "context_ok p" and "room p" and "iE1 \<le> nFrom p" and "iE2 \<le> nTo p" and "i < iE1"
  shows "i + fst m < iE1 \<or> i + fst m = iE1 \<and> (\<exists>j' < j. line_text (aFrom p ! i) = line_text (aTo p ! j')) \<Longrightarrow>
    \<exists>r. optimal_inner p iE1 iE2 i j m = Some r"
  using assms
proof (induction p iE1 iE2 i j m rule: optimal_inner.induct)
  case (1 p iE1 iE2 i j mx x y)
  note un = optimal_inner.simps [of p iE1 iE2 i j mx x y]
  show ?case
  proof (cases "j + mx < iE2")
    case True
    have lines: "lines_ok (aFrom p) (nFrom p)" "lines_ok (aTo p) (nTo p)" using 1(4) by (simp_all add: context_ok_def)
    have ij: "i < nFrom p" "j < nTo p" "j + mx < nTo p" using 1(6-8) True by linarith+
    from same_at_ok [OF lines ij(1,2)] obtain same where same: "same_at (aFrom p) i (aTo p) j = Some same"
      "same \<Longrightarrow> line_text (aFrom p ! i) = line_text (aTo p ! j)" by blast
    have "\<exists>far. same_at (aFrom p) (i + mx) (aTo p) (j + mx) = Some far" if "same"
    proof (cases "i + mx < nFrom p")
      case True
      with same_at_ok [OF lines this ij(3)] show ?thesis by blast
    next
      case False
      then have end_line: "i + mx = nFrom p" "\<not> i + mx < iE1" using 1(3,6) by auto
      show ?thesis
      proof (cases "distinct (texts (aTo p) (nTo p))")
        case False
        with 1(5) lines(2) ij(3) end_line(1) show ?thesis by (auto simp: room_def same_at_def lines_ok_def same_dline_ok)
      next
        case True
        from 1(3) end_line obtain j' where j': "j' < j" "line_text (aFrom p ! i) = line_text (aTo p ! j')" by auto
        with same(2) that have "texts (aTo p) (nTo p) ! j' = texts (aTo p) (nTo p) ! j"
          using ij(2) lines(2) by (simp add: texts_def lines_ok_def)
        moreover have "j' < length (texts (aTo p) (nTo p))" "j < length (texts (aTo p) (nTo p))"
          using ij(2) j'(1) lines(2) by (simp_all add: texts_def lines_ok_def)
        ultimately show ?thesis using True j'(1) nth_eq_iff_index_eq by blast
      qed
    qed
    then obtain far where far: "(if same \<and> mx > 0 then same_at (aFrom p) (i + mx) (aTo p) (j + mx) else Some True) = Some far"
      by (cases "same \<and> mx > 0") auto
    show ?thesis
    proof (cases "\<not> same \<or> \<not> far")
      case skip: True
      have "i + mx < iE1 \<or> i + mx = iE1 \<and> (\<exists>j' < j + 1. line_text (aFrom p ! i) = line_text (aTo p ! j'))"
        using 1(3) by (auto intro: less_SucI)
      with 1(1) [OF True same(1) far skip] 1(4-8) True same(1) far skip show ?thesis by (simp add: un)
    next
      case False
      have "common p i j 1" using same(2) False by (simp add: common_def)
      with run_length_ok [OF 1(4,6,7)] obtain k where k: "run_length p i iE1 j iE2 1 = Some k" by blast
      have "i + k \<le> iE1" using run_length_range [OF k] 1(8) True by simp
      moreover have "\<exists>j' < j + 1. line_text (aFrom p ! i) = line_text (aTo p ! j')" using same(2) False by auto
      ultimately have "i + fst (if k > mx then (k, i, j) else (mx, x, y)) < iE1 \<or>
          i + fst (if k > mx then (k, i, j) else (mx, x, y)) = iE1 \<and> (\<exists>j' < j + 1. line_text (aFrom p ! i) = line_text (aTo p ! j'))"
        using 1(3) by (auto simp: le_less)
      with 1(2) [OF True same(1) far False k] 1(4-8) True same(1) far False k show ?thesis by (simp add: un)
    qed
  qed (simp add: un)
qed

lemma optimal_outer_total:
  assumes "context_ok p" and "room p" and "iE1 \<le> nFrom p" and "iE2 \<le> nTo p"
  shows "\<exists>r. optimal_outer p iE1 iS2 iE2 i m = Some r"
  using assms
proof (induction p iE1 iS2 iE2 i m rule: optimal_outer.induct)
  case (1 p iE1 iS2 iE2 i mx x y)
  note un = optimal_outer.simps [of p iE1 iS2 iE2 i mx x y]
  show ?case
  proof (cases "i + mx < iE1")
    case True
    with optimal_inner_total [OF 1(2-5), of i "(mx, x, y)" iS2] obtain b where
      b: "optimal_inner p iE1 iE2 i iS2 (mx, x, y) = Some b" by auto
    with 1(1) [OF True b 1(2-5)] True show ?thesis by (simp add: un)
  qed (simp add: un)
qed

lemma longestCommonSequence_ok:
  assumes "context_ok p" and "room p \<or> longestCommonSequence score worst p iS1 iE1 iS2 iE2 \<noteq> None"
    and "iS1 \<le> iE1" and "iE1 \<le> nFrom p" and "iS2 < iE2" and "iE2 \<le> nTo p"
  obtains b where "longestCommonSequence score worst p iS1 iE1 iS2 iE2 = Some b" and "block_ok iS1 iE1 iS2 iE2 b"
    and "common p (iSX b) (iSY b) (iEX b - iSX b)"
proof -
  let ?none = "\<lparr>iSX = iS1, iEX = iS1, iSY = iS2, iEY = iS2\<rparr>"
  have "0 < nTo p" using assms(5,6) by linarith
  from lcs_loop_ok [OF assms(1,4,6) this, of iS1 iS1 iS2 ?none ?none score worst] assms(3,5) obtain r where
    r: "lcs_loop score p iS1 iE1 iS2 iE2 iS1 worst ?none ?none = Some r" "common p (iSX r) (iSY r) (iEX r - iSX r)"
    by (auto simp: block_ok_def)
  show ?thesis
  proof (cases "iSX r = iEX r \<and> to_int32 (int (iE1 - iS1) * int (iE2 - iS2)) < 400")
    case True
    then have l: "longestCommonSequence score worst p iS1 iE1 iS2 iE2 = optimalLCS p iS1 iE1 iS2 iE2"
      using r(1) by (simp add: longestCommonSequence_def Let_def)
    have "\<exists>m. optimal_outer p iE1 iS2 iE2 iS1 (0, iS1, iS2) = Some m"
    proof (cases "room p")
      case True
      with optimal_outer_total [OF assms(1) this assms(4,6)] show ?thesis by blast
    next
      case False
      with assms(2) l show ?thesis by (auto simp: optimalLCS_def split: bind_splits)
    qed
    then obtain mx x y where m: "optimal_outer p iE1 iS2 iE2 iS1 (0, iS1, iS2) = Some (mx, x, y)" by auto
    with optimal_outer_common [OF m assms(1,4,6)] have "common p x y mx" by simp
    moreover have b: "longestCommonSequence score worst p iS1 iE1 iS2 iE2 = Some \<lparr>iSX = x, iEX = x + mx, iSY = y, iEY = y + mx\<rparr>"
      using l m by (simp add: optimalLCS_def)
    ultimately show ?thesis using longestCommonSequence_range [OF b assms(3)] assms(5) by (intro that [OF b]) simp_all
  next
    case False
    then have b: "longestCommonSequence score worst p iS1 iE1 iS2 iE2 = Some r"
      using r(1) by (auto simp: longestCommonSequence_def Let_def)
    with longestCommonSequence_range [OF b assms(3)] assms(5) r(2) show ?thesis by (intro that [OF b]) simp_all
  qed
qed

section \<open>The edits of a difference\<close>

definition same_files :: "dcontext \<Rightarrow> dcontext \<Rightarrow> bool" where
  "same_files p p' \<longleftrightarrow> aFrom p' = aFrom p \<and> nFrom p' = nFrom p \<and> aTo p' = aTo p \<and> nTo p' = nTo p"

lemma same_files_simps [simp]:
  "same_files p p"
  "same_files p p' \<Longrightarrow> same_files p' p'' \<Longrightarrow> same_files p p''"
  by (simp_all add: same_files_def)

lemma same_files_keeps:
  assumes "same_files p p'"
  shows "context_ok p' = context_ok p" and "room p' = room p" and "common p' = common p"
    and "nFrom p' = nFrom p" and "nTo p' = nTo p"
  using assms by (simp_all add: same_files_def context_ok_def room_def common_def fun_eq_iff)

text \<open>The first \<open>x\<close> and \<open>y\<close> lines of the texts are what the edits so far are about.\<close>

definition edited :: "dcontext \<Rightarrow> nat \<Rightarrow> nat \<Rightarrow> bool" where
  "edited p x y \<longleftrightarrow> (\<exists>ts. aEdit p = flat ts \<and> normal ts \<and>
     edits ts (take x (texts (aFrom p) (nFrom p))) (take y (texts (aTo p) (nTo p))))"

lemma appendTriple_edited:
  assumes "edited p x y" and "context_ok p" and "x + c + d \<le> nFrom p" and "y + c + i \<le> nTo p" and "common p x y c"
    and "(c, d, i) \<noteq> (0, 0, 0)"
  obtains p' where "appendTriple p (int c) (int d) (int i) = Some p'" and "same_files p p'" and "edited p' (x + c + d) (y + c + i)"
proof -
  let ?A = "texts (aFrom p) (nFrom p)" and ?B = "texts (aTo p) (nTo p)"
  have len: "length ?A = nFrom p" "length ?B = nTo p" using assms(2) by (simp_all add: context_ok_def lines_ok_def texts_def)
  obtain ts where ts: "aEdit p = flat ts" "normal ts" "edits ts (take x ?A) (take y ?B)" using assms(1) by (auto simp: edited_def)
  let ?C = "take c (drop x ?A)" and ?D = "take d (drop (x + c) ?A)" and ?I = "take i (drop (y + c) ?B)"
  have C: "?C = take c (drop y ?B)" using common_texts [OF assms(2) _ _ assms(5)] assms(3,4) by simp
  have n: "length ?C = c" "length ?D = d" "length ?I = i" using assms(3,4) len by simp_all
  have "take (x + c + d) ?A = take x ?A @ ?C @ ?D" by (simp add: take_add add.commute [of c x])
  moreover have "take (y + c + i) ?B = take y ?B @ ?C @ ?I" unfolding C by (simp add: take_add add.commute [of c y])
  ultimately show ?thesis
    using appendTriple_ok [OF ts(1,3,2), of ?C ?D ?I] assms(6) that unfolding n edited_def same_files_def by metis
qed

lemma diff_step_ok:
  assumes "context_ok p" and "room p \<or> diff_step score worst p iS1 iE1 iS2 iE2 \<noteq> None"
    and "iS1 \<le> iE1" and "iE1 \<le> nFrom p" and "iS2 \<le> iE2" and "iE2 \<le> nTo p" and "edited p iS1 iS2"
  shows "\<exists>p'. diff_step score worst p iS1 iE1 iS2 iE2 = Some p' \<and> same_files p p' \<and> edited p' iE1 iE2"
  using assms
proof (induction score worst p iS1 iE1 iS2 iE2 rule: diff_step.induct)
  case (1 score worst p iS1 iE1 iS2 iE2)
  note un = diff_step.simps [of score worst p iS1 iE1 iS2 iE2]
  consider (same) "iE1 = iS1" "iE2 = iS2" | (ins) "iE1 = iS1" "iS2 < iE2" | (del) "iS1 < iE1" "iE2 = iS2"
    | (both) "iS1 < iE1" "iS2 < iE2" using 1(5,7) by linarith
  then show ?case
  proof cases
    case same
    then show ?thesis using 1(9) by (simp add: diff_step.simps [of score worst p iS1 iS1 iS2 iS2])
  next
    case ins
    from appendTriple_edited [OF 1(9,3), of 0 0 "iE2 - iS2"] ins 1(6,8) obtain p' where
      "appendTriple p 0 0 (int (iE2 - iS2)) = Some p'" "same_files p p'" "edited p' iE1 iE2" by auto
    then show ?thesis using ins by (simp add: diff_step.simps [of score worst p iS1 iS1 iS2 iE2])
  next
    case del
    from appendTriple_edited [OF 1(9,3), of 0 "iE1 - iS1" 0] del 1(6,8) obtain p' where
      "appendTriple p 0 (int (iE1 - iS1)) 0 = Some p'" "same_files p p'" "edited p' iE1 iE2" by auto
    then show ?thesis using del by (simp add: diff_step.simps [of score worst p iS1 iE1 iS2 iS2])
  next
    case both
    have "room p \<or> longestCommonSequence score worst p iS1 iE1 iS2 iE2 \<noteq> None" using 1(4) both by (auto simp: un)
    from longestCommonSequence_ok [OF 1(3) this 1(5,6) both(2) 1(8)] obtain b where
      b: "longestCommonSequence score worst p iS1 iE1 iS2 iE2 = Some b" "block_ok iS1 iE1 iS2 iE2 b"
        "common p (iSX b) (iSY b) (iEX b - iSX b)" by blast
    show ?thesis
    proof (cases "iSX b < iEX b")
      case True
      note bo = b(2) [unfolded block_ok_def]
      have eq: "diff_step score worst p iS1 iE1 iS2 iE2 = do {
          p \<leftarrow> diff_step score worst p iS1 (iSX b) iS2 (iSY b);
          p \<leftarrow> appendTriple p (int (iEX b - iSX b)) 0 0;
          diff_step score worst p (iEX b) iE1 (iEY b) iE2
        }" using both b(1) True by (simp add: un)
      have "\<exists>p1. diff_step score worst p iS1 (iSX b) iS2 (iSY b) = Some p1 \<and> same_files p p1 \<and> edited p1 (iSX b) (iSY b)"
        by (rule 1(1) [OF _ _ b(1) True 1(3)]) (use both bo 1(4,6,8,9) eq in auto)
      then obtain p1 where p1: "diff_step score worst p iS1 (iSX b) iS2 (iSY b) = Some p1" "same_files p p1" "edited p1 (iSX b) (iSY b)"
        by blast
      note keep1 = same_files_keeps [OF p1(2)]
      have ctx1: "context_ok p1" "common p1 (iSX b) (iSY b) (iEX b - iSX b)" using keep1 1(3) b(3) by simp_all
      have n: "iSX b + (iEX b - iSX b) + 0 = iEX b" "iSY b + (iEX b - iSX b) + 0 = iEY b" using bo by linarith+
      have fit: "iEX b \<le> nFrom p1" "iEY b \<le> nTo p1" using bo 1(6,8) keep1(4,5) by simp_all
      have "(iEX b - iSX b, 0, 0) \<noteq> (0, 0::nat, 0::nat)" using True by simp
      from appendTriple_edited [OF p1(3) ctx1(1) _ _ ctx1(2), of 0 0, unfolded n, OF fit this] obtain p2 where
        "appendTriple p1 (int (iEX b - iSX b)) (int 0) (int 0) = Some p2" "same_files p1 p2" "edited p2 (iEX b) (iEY b)" .
      then have p2: "appendTriple p1 (int (iEX b - iSX b)) 0 0 = Some p2" "same_files p1 p2" "edited p2 (iEX b) (iEY b)"
        by simp_all
      note keep2 = same_files_keeps [OF p2(2)]
      have ctx2: "context_ok p2" "iEX b \<le> iE1" "iE1 \<le> nFrom p2" "iEY b \<le> iE2" "iE2 \<le> nTo p2"
        using keep1 keep2 1(3,6,8) bo by simp_all
      have defined: "room p2 \<or> diff_step score worst p2 (iEX b) iE1 (iEY b) iE2 \<noteq> None"
      proof (cases "room p")
        case False
        with 1(4) eq p1(1) p2(1) show ?thesis by (simp del: of_nat_diff)
      qed (simp add: keep1(2) keep2(2))
      have "\<not> iE1 \<le> iS1" "\<not> iE2 \<le> iS2" using both by simp_all
      from 1(2) [OF this b(1) True p1(1) p2(1) ctx2(1) defined ctx2(2-5) p2(3)] obtain p3 where
        "diff_step score worst p2 (iEX b) iE1 (iEY b) iE2 = Some p3" "same_files p2 p3" "edited p3 iE1 iE2" by blast
      moreover from this(2) have "same_files p p3" using p1(2) p2(2) same_files_simps(2) by blast
      ultimately show ?thesis using eq p1(1) p2(1) by simp
    next
      case False
      from appendTriple_edited [OF 1(9,3), of 0 "iE1 - iS1" "iE2 - iS2"] both 1(6,8) obtain p' where
        "appendTriple p 0 (int (iE1 - iS1)) (int (iE2 - iS2)) = Some p'" "same_files p p'" "edited p' iE1 iE2" by auto
      then show ?thesis using both b(1) False by (simp add: un)
    qed
  qed
qed


section \<open>Breaking a text into lines\<close>

fun lines_of :: "byte list \<Rightarrow> byte list list" where
  "lines_of [] = []"
| "lines_of (c # cs) = (if c = c_nl then [] # lines_of cs
     else case lines_of cs of [] \<Rightarrow> [[c]] | l # ls \<Rightarrow> (c # l) # ls)"

definition trim :: "bool \<Rightarrow> byte list \<Rightarrow> byte list" where
  "trim ws l = (if ws then rev (dropWhile fossil_isspace (rev l)) else l)"

lemma lines_of_Nil [simp]: "lines_of z = [] \<longleftrightarrow> z = []"
  by (cases z) (auto split: list.splits)

lemma lines_of_bytes: "l \<in> set (lines_of z) \<Longrightarrow> set l \<subseteq> set z - {c_nl}"
  by (induction z arbitrary: l rule: lines_of.induct) (fastforce split: if_splits list.splits)+

lemma lines_of_length: "length (lines_of z) \<le> length z"
  by (induction z rule: lines_of.induct) (auto split: list.splits)

lemma lines_of_hd: "z \<noteq> [] \<Longrightarrow> lines_of z = takeWhile (\<lambda>c. c \<noteq> c_nl) z # lines_of (drop (Suc (length (takeWhile (\<lambda>c. c \<noteq> c_nl) z))) z)"
proof (induction z rule: lines_of.induct)
  case (2 c cs)
  then show ?case by (cases "c = c_nl"; cases cs) simp_all
qed simp

definition hdlen :: "byte list \<Rightarrow> nat" where
  "hdlen z = (case lines_of z of [] \<Rightarrow> 0 | l # ls \<Rightarrow> length l)"

lemma count_lines_ok:
  assumes "i \<le> length z"
  shows "\<exists>r. count_lines z i j n = Some r \<and>
    (case r of None \<Rightarrow> 0 \<in> set (drop i z) \<or> 8191 < j + hdlen (drop i z) + 2 \<or> (\<exists>l \<in> set (lines_of (drop i z)). 8191 < length l + 3)
     | Some m \<Rightarrow> 0 \<notin> set (drop i z) \<and> j + hdlen (drop i z) \<le> 8191 \<and> m = n + length (lines_of (drop i z)) - (if i < length z then 1 else 0) \<and>
         (\<forall>l \<in> set (lines_of (drop i z)). length l \<le> 8191))"
  using assms
proof (induction z i j n rule: count_lines.induct)
  case (1 z i j n)
  note un = count_lines.simps [of z i j n]
  show ?case
  proof (cases "i < length z")
    case True
    have dr: "drop i z = z ! i # drop (Suc i) z" using True by (simp flip: Cons_nth_drop_Suc)
    consider (nul) "z ! i = 0" | (eof) "z ! i = c_nl" "Suc i = length z" | (nul2) "z ! i = c_nl" "Suc i < length z" "z ! Suc i = 0"
      | (nl) "z ! i = c_nl" "Suc i < length z" "z ! Suc i \<noteq> 0" | (char) "z ! i \<noteq> 0" "z ! i \<noteq> c_nl"
      using True by linarith
    then show ?thesis
    proof cases
      case nul
      with True dr show ?thesis by (simp add: un)
    next
      case eof
      then have "rd z (Suc i) = Some 0" "drop (Suc i) z = []" by simp_all
      then have "count_lines z i j n = Some (if j + 1 > 8191 then None else Some n)"
        using eof True count_lines.simps [of z "Suc i" "j + 1" n] by (simp add: un)
      then show ?thesis using dr eof \<open>drop (Suc i) z = []\<close> by (auto simp: hdlen_def)
    next
      case nul2
      then have "count_lines z i j n = Some None"
        using True count_lines.simps [of z "Suc i" "j + 1" n] by (simp add: un)
      moreover have "0 \<in> set (drop i z)" using nul2 dr by (metis Cons_nth_drop_Suc list.set_intros)
      ultimately show ?thesis by simp
    next
      case nl
      show ?thesis
      proof (cases "8191 < j")
        case True
        with nl \<open>i < length z\<close> show ?thesis by (simp add: un)
      next
        case False
        from nl obtain l ls where ls: "lines_of (drop (Suc i) z) = l # ls" by (cases "lines_of (drop (Suc i) z)") auto
        have "count_lines z i j n = count_lines z (i + 1) 1 (n + 1)" using nl True False by (simp add: un)
        moreover have "\<exists>r. count_lines z (i + 1) 1 (n + 1) = Some r \<and>
            (case r of None \<Rightarrow> 0 \<in> set (drop (i + 1) z) \<or> 8191 < 1 + hdlen (drop (i + 1) z) + 2 \<or> (\<exists>l \<in> set (lines_of (drop (i + 1) z)). 8191 < length l + 3)
             | Some m \<Rightarrow> 0 \<notin> set (drop (i + 1) z) \<and> 1 + hdlen (drop (i + 1) z) \<le> 8191 \<and>
                 m = n + 1 + length (lines_of (drop (i + 1) z)) - (if i + 1 < length z then 1 else 0) \<and>
                 (\<forall>l \<in> set (lines_of (drop (i + 1) z)). length l \<le> 8191))"
          by (rule 1(1) [of "z ! i" "z ! Suc i"]) (use nl True False in simp_all)
        ultimately show ?thesis unfolding dr using nl False True ls by (auto simp: hdlen_def split: option.splits)
      qed
    next
      case char
      have "count_lines z i j n = count_lines z (i + 1) (j + 1) n" using char True by (simp add: un)
      moreover have "\<exists>r. count_lines z (i + 1) (j + 1) n = Some r \<and>
          (case r of None \<Rightarrow> 0 \<in> set (drop (i + 1) z) \<or> 8191 < j + 1 + hdlen (drop (i + 1) z) + 2 \<or> (\<exists>l \<in> set (lines_of (drop (i + 1) z)). 8191 < length l + 3)
           | Some m \<Rightarrow> 0 \<notin> set (drop (i + 1) z) \<and> j + 1 + hdlen (drop (i + 1) z) \<le> 8191 \<and>
               m = n + length (lines_of (drop (i + 1) z)) - (if i + 1 < length z then 1 else 0) \<and>
               (\<forall>l \<in> set (lines_of (drop (i + 1) z)). length l \<le> 8191))"
        by (rule 1(2) [of "z ! i" 0]) (use char True in simp_all)
      moreover have "Suc i < length z \<longleftrightarrow> lines_of (drop (Suc i) z) \<noteq> []" by (simp add: not_le)
      ultimately show ?thesis unfolding dr using char True
        by (cases "lines_of (drop (Suc i) z)") (fastforce simp: hdlen_def split: option.splits)+
    qed
  next
    case False
    with 1(3) have "i = length z" by simp
    then show ?thesis by (simp add: count_lines.simps [of z "length z" j n] hdlen_def)
  qed
qed


lemma line_length_ok:
  "p + j \<le> length z \<Longrightarrow> 0 \<notin> set z \<Longrightarrow> line_length z p j = Some (j + length (takeWhile (\<lambda>c. c \<noteq> c_nl) (drop (p + j) z)))"
proof (induction z p j rule: line_length.induct)
  case (1 z p j)
  note un = line_length.simps [of z p j]
  show ?case
  proof (cases "p + j < length z")
    case True
    then have dr: "drop (p + j) z = z ! (p + j) # drop (Suc (p + j)) z" by (simp flip: Cons_nth_drop_Suc)
    have "z ! (p + j) \<noteq> 0" using True 1(3) nth_mem by metis
    with 1 True dr show ?thesis by (auto simp: un)
  next
    case False
    with 1(2) have "p + j = length z" by simp
    then show ?thesis by (simp add: un)
  qed
qed

lemma trim_line_ok:
  "p + k \<le> length z \<Longrightarrow> \<exists>k'. trim_line z p ws k = Some k' \<and> k' \<le> k \<and> take k' (drop p z) = trim ws (take k (drop p z))"
proof (induction k)
  case (Suc k)
  have "take (Suc k) (drop p z) = take k (drop p z) @ [z ! (p + k)]"
    using Suc.prems by (simp add: take_Suc_conv_app_nth)
  with Suc show ?case by (cases "ws \<and> fossil_isspace (z ! (p + k))") (auto simp: trim_def le_SucI)
qed (simp add: trim_def)

lemma low_bits: "k \<le> 8191 \<Longrightarrow> unat ((push_bit 13 x OR of_nat k :: u32) AND 0x1fff) = k"
proof -
  assume k: "k \<le> 8191"
  have m: "(0x1fff :: u32) = mask 13" by (simp add: mask_eq_exp_minus_1)
  have "(push_bit 13 x OR of_nat k :: u32) AND 0x1fff = of_nat k"
    unfolding m
  proof (rule bit_word_eqI)
    fix n
    have "\<not> bit k n" if "13 \<le> n"
    proof -
      have "k < 2 ^ n" using k power_increasing [OF that, of "2::nat"] by simp
      then show ?thesis by (simp add: bit_iff_odd)
    qed
    moreover assume "n < LENGTH(32)"
    ultimately show "bit ((push_bit 13 x OR of_nat k :: u32) AND mask 13) n = bit (of_nat k :: u32) n"
      by (cases "n < 13") (simp_all add: bit_simps)
  qed
  then show ?thesis using k by (simp add: unsigned_of_nat take_bit_nat_eq_self)
qed


text \<open>Filling the array: \<open>ls\<close> are the lines that are left.\<close>

lemma fill_lines_ok:
  assumes "0 \<notin> set z" and "n < 2 ^ 32" and "0 < n"
  shows "lines_of (drop p z) = ls \<Longrightarrow> i + length ls = n \<Longrightarrow> \<forall>l \<in> set ls. length l \<le> 8191 \<Longrightarrow> length a = n \<Longrightarrow> lines_ok a n \<Longrightarrow>
    \<exists>a'. fill_lines z n ws i p a = Some a' \<and> length a' = n \<and> lines_ok a' n \<and>
      map line_text a' = map line_text (take i a) @ map (trim ws) ls"
proof (induction ls arbitrary: i p a)
  case Nil
  then show ?case by (simp add: fill_lines.simps [of z n ws n p a])
next
  case (Cons l ls)
  note un = fill_lines.simps [of z n ws i p a]
  have i: "i < n" "i < length a" using Cons.prems(2,4) by auto
  have "drop p z \<noteq> []" using Cons.prems(1) by auto
  then have p: "p < length z" by simp
  from lines_of_hd [OF \<open>drop p z \<noteq> []\<close>] Cons.prems(1) have l: "l = takeWhile (\<lambda>c. c \<noteq> c_nl) (drop p z)"
    "ls = lines_of (drop (p + length l + 1) z)" by (simp_all add: add.commute add.left_commute)
  have len: "line_length z p 0 = Some (length l)" using line_length_ok [of p 0 z] p assms(1) l(1) by simp
  have lz: "take (length l) (drop p z) = l" unfolding l(1) by (metis takeWhile_eq_take)
  have pl: "p + length l \<le> length z" using lz p by (metis add_le_imp_le_diff add.commute append_take_drop_id length_append length_drop le_add1 le_diff_conv2 less_imp_le_nat)
  from trim_line_ok [OF pl, of ws] obtain k where k: "trim_line z p ws (length l) = Some k" "k \<le> length l"
    "take k (drop p z) = trim ws l" unfolding lz by blast
  let ?h = "push_bit 13 (hash_line (take k (drop p z))) OR of_nat k :: u32"
  let ?h2 = "unat (?h mod of_nat n)"
  have "unat (of_nat n :: u32) = n" using assms(2) by (simp add: unsigned_of_nat take_bit_nat_eq_self)
  then have h2: "?h2 < n" using assms(3) by (simp add: unat_mod)
  define d where "d = (a ! i)\<lparr>dl_z := drop p z, dl_h := ?h, dl_iNext := dl_iHash (a ! ?h2)\<rparr>"
  define a1 where "a1 = a[i := d]"
  define a2 where "a2 = a1[?h2 := (a1 ! ?h2)\<lparr>dl_iHash := i + 1\<rparr>]"
  have k8: "k \<le> 8191" using k(2) Cons.prems(3) by simp
  have dt: "line_text d = trim ws l" "dline_ok d" using k(2,3) low_bits [OF k8] pl
    by (simp_all add: line_text_def dline_ok_def d_def)
  have step: "fill_lines z n ws i p a = fill_lines z n ws (i + 1) (p + length l + 1) a2"
    using i len k(1,2) pl h2 Cons.prems(4) by (simp add: un Let_def a2_def a1_def d_def)
  have "line_text (e\<lparr>dl_iHash := x\<rparr>) = line_text e" for e x by (simp add: line_text_def)
  then have "map line_text a2 = (map line_text a1)[?h2 := line_text (a1 ! ?h2)]" by (simp add: a2_def map_update)
  also have "\<dots> = map line_text a1" using h2 Cons.prems(4) by (simp add: a1_def flip: nth_map)
  finally have "map line_text a2 = map line_text a1" .
  moreover have "map line_text a1 = (map line_text a)[i := trim ws l]" using dt(1) by (simp add: a1_def map_update)
  ultimately have "map line_text (take (i + 1) a2) = map line_text (take i a) @ [trim ws l]"
    using i(2) by (simp add: take_Suc_update flip: take_map)
  moreover have "lines_ok a2 n"
    using Cons.prems(4,5) dt(2) i h2 by (auto simp: lines_ok_def a2_def a1_def d_def nth_list_update dline_ok_def)
  moreover have "length a2 = n" using Cons.prems(4) by (simp add: a2_def a1_def)
  ultimately show ?case
    using Cons.IH [of "p + length l + 1" "i + 1" a2] l(2) Cons.prems(2,3) step by auto
qed

lemma break_into_lines_ok:
  assumes "length z < 2 ^ 31"
  shows "\<exists>r. break_into_lines z ws = Some r \<and>
    (case r of None \<Rightarrow> 0 \<in> set z \<or> (\<exists>l \<in> set (lines_of z). 8191 < length l + 3)
     | Some (a, n) \<Rightarrow> 0 \<notin> set z \<and> lines_ok a n \<and> n < 2 ^ 31 \<and> texts a n = map (trim ws) (lines_of z))"
proof -
  note count = count_lines_ok [OF le0, of z 0 1, unfolded drop_0 add_0]
  from count obtain r where r: "count_lines z 0 0 1 = Some r" by blast
  let ?d = "\<lparr>dl_z = [], dl_h = 0, dl_iNext = 0, dl_iHash = 0\<rparr>"
  show ?thesis
  proof (cases r)
    case None
    with r count have "0 \<in> set z \<or> 8191 < hdlen z + 2 \<or> (\<exists>l \<in> set (lines_of z). 8191 < length l + 3)" by simp
    then have "0 \<in> set z \<or> (\<exists>l \<in> set (lines_of z). 8191 < length l + 3)"
      by (cases "lines_of z") (auto simp: hdlen_def)
    then show ?thesis using r None by (simp add: break_into_lines_def)
  next
    case (Some m)
    with r count have m: "0 \<notin> set z" "m = 1 + length (lines_of z) - (if 0 < length z then 1 else 0)"
      "\<forall>l \<in> set (lines_of z). length l \<le> 8191" by simp_all
    show ?thesis
    proof (cases "z = []")
      case True
      then show ?thesis using r Some by (simp add: break_into_lines_def lines_ok_def texts_def)
    next
      case False
      then have n: "m = length (lines_of z)" "0 < m" using m by simp_all
      then have "m < 2 ^ 31" using lines_of_length [of z] assms by linarith
      moreover have "lines_ok (replicate m ?d) m" by (simp add: lines_ok_def dline_ok_def)
      ultimately obtain a where "fill_lines z m ws 0 0 (replicate m ?d) = Some a" "length a = m" "lines_ok a m"
        "map line_text a = map (trim ws) (lines_of z)"
        using fill_lines_ok [of z m 0 "lines_of z" 0 "replicate m ?d" ws] m n by auto
      then show ?thesis using r Some False m \<open>m < 2 ^ 31\<close> by (simp add: break_into_lines_def texts_def)
    qed
  qed
qed

section \<open>The whole difference\<close>

lemma footer_loop_ok:
  "context_ok p \<Longrightarrow> e1 \<le> nFrom p \<Longrightarrow> e2 \<le> nTo p \<Longrightarrow>
    \<exists>x y. footer_loop p e1 e2 = Some (x, y) \<and> x \<le> e1 \<and> y \<le> e2 \<and> e1 - x = e2 - y \<and> common p x y (e1 - x)"
proof (induction p e1 e2 rule: footer_loop.induct)
  case (1 p e1 e2)
  have lines: "lines_ok (aFrom p) (nFrom p)" "lines_ok (aTo p) (nTo p)" using 1(2) by (simp_all add: context_ok_def)
  have "e1 < nFrom p" "e2 < nTo p" using 1(3,4) by simp_all
  from same_at_ok [OF lines this] obtain r where r: "same_at (aFrom p) e1 (aTo p) e2 = Some r"
    "r \<Longrightarrow> line_text (aFrom p ! e1) = line_text (aTo p ! e2)" by blast
  show ?case
  proof (cases r)
    case True
    have "e1 \<le> nFrom p" "e2 \<le> nTo p" using 1(3,4) by simp_all
    from 1(1) [OF r(1) True 1(2) this] obtain x y where IH: "footer_loop p e1 e2 = Some (x, y)" "x \<le> e1" "y \<le> e2"
      "e1 - x = e2 - y" "common p x y (e1 - x)" by blast
    have "x + (e1 - x) = e1" "y + (e1 - x) = e2" "Suc e1 - x = Suc (e1 - x)" "Suc e2 - y = Suc (e2 - y)" using IH(2-4) by linarith+
    with IH(5) r True have "common p x y (Suc e1 - x)" by (simp add: common_snoc)
    with IH(1-4) r(1) True \<open>Suc e1 - x = Suc (e1 - x)\<close> \<open>Suc e2 - y = Suc (e2 - y)\<close> show ?thesis by simp
  next
    case False
    with r(1) show ?thesis by simp
  qed
qed auto

lemma diff_all_ok:
  assumes "context_ok p" and "aEdit p = []" and "room p \<or> diff_all score worst p \<noteq> None"
  shows "\<exists>p' ts. diff_all score worst p = Some p' \<and> same_files p p' \<and> aEdit p' = flat ts @ [0, 0, 0] \<and> normal ts \<and>
    edits ts (texts (aFrom p) (nFrom p)) (texts (aTo p) (nTo p))"
proof -
  obtain e1 e2 where f: "footer_loop p (nFrom p) (nTo p) = Some (e1, e2)" "e1 \<le> nFrom p" "e2 \<le> nTo p"
    "nFrom p - e1 = nTo p - e2" "common p e1 e2 (nFrom p - e1)" using footer_loop_ok [OF assms(1)] by blast
  let ?m = "if e1 < e2 then e1 else e2"
  have "common p 0 0 0" by simp
  have m: "?m \<le> nFrom p" "?m \<le> nTo p" using f(2,3) by auto
  from run_length_ok [OF assms(1) m \<open>common p 0 0 0\<close>] obtain s where
    s: "run_length p 0 ?m 0 ?m 0 = Some s" "common p 0 0 s" by blast
  have sm: "s \<le> e1" "s \<le> e2" using run_length_range [OF s(1)] by (auto split: if_splits)
  have e0: "edited p 0 0" using assms(2) by (auto simp: edited_def normal_def intro!: exI [of _ "[]"])
  obtain p1 where p1: "(if s > 0 then appendTriple p (int s) 0 0 else Some p) = Some p1" "same_files p p1" "edited p1 s s"
  proof (cases "s > 0")
    case True
    with appendTriple_edited [OF e0 assms(1), of s 0 0] s(2) sm f(2,3) that show ?thesis by auto
  qed (use e0 that [of p] in simp)
  note k1 = same_files_keeps [OF p1(2)]
  have dd: "diff_all score worst p = do {
      p \<leftarrow> diff_step score worst p1 s e1 s e2;
      p \<leftarrow> (if e1 < nFrom p then appendTriple p (int (nFrom p - e1)) 0 0 else Some p);
      store_triple (expandEdit p (length (aEdit p) + 3)) 0 0 0 }"
    using f(1) s(1) p1(1) by (simp add: diff_all_def Let_def)
  have "room p1 \<or> diff_step score worst p1 s e1 s e2 \<noteq> None" using assms(3) k1(2) dd by auto
  from diff_step_ok [OF _ this sm(1) _ sm(2) _ p1(3)] assms(1) k1 f(2,3) obtain p2 where
    p2: "diff_step score worst p1 s e1 s e2 = Some p2" "same_files p1 p2" "edited p2 e1 e2" by auto
  note k2 = same_files_keeps [OF p2(2)]
  have whole: "e1 + (nFrom p - e1) = nFrom p" "e2 + (nFrom p - e1) = nTo p" using f(2-4) by simp_all
  obtain p3 where p3: "(if e1 < nFrom p2 then appendTriple p2 (int (nFrom p2 - e1)) 0 0 else Some p2) = Some p3"
    "same_files p2 p3" "edited p3 (nFrom p) (nTo p)"
  proof (cases "e1 < nFrom p")
    case True
    with appendTriple_edited [OF p2(3), of "nFrom p - e1" 0 0] f(5) whole k1 k2 assms(1) that show ?thesis by auto
  next
    case False
    with p2(3) f(2-4) k1 k2 that [of p2] show ?thesis by simp
  qed
  have sf: "same_files p p3" using p1(2) p2(2) p3(2) same_files_simps(2) by blast
  then have files: "texts (aFrom p3) (nFrom p3) = texts (aFrom p) (nFrom p)" "texts (aTo p3) (nTo p3) = texts (aTo p) (nTo p)"
    "length (texts (aFrom p) (nFrom p)) \<le> nFrom p" "length (texts (aTo p) (nTo p)) \<le> nTo p"
    by (simp_all add: same_files_def texts_def)
  from p3(3) files obtain ts where ts: "aEdit p3 = flat ts" "normal ts" "edits ts (texts (aFrom p) (nFrom p)) (texts (aTo p) (nTo p))"
    by (auto simp: edited_def)
  have "diff_all score worst p = Some (p3\<lparr>nEditAlloc := length (aEdit p3) + 3, aEdit := aEdit p3 @ [0, 0, 0]\<rparr>)"
    unfolding dd p2(1) by (simp add: p3(1) store_triple_def expandEdit_def)
  with sf ts show ?thesis by (auto simp: same_files_def)
qed

lemma text_diff_cases:
  assumes "length zA < 2 ^ 31" and "length zB < 2 ^ 31"
  shows "(case text_diff score worst zA zB ws of
      None \<Rightarrow> \<not> distinct (map (trim ws) (lines_of zB))
    | Some None \<Rightarrow> \<exists>z \<in> {zA, zB}. 0 \<in> set z \<or> (\<exists>l \<in> set (lines_of z). 8188 < length l)
    | Some (Some e) \<Rightarrow> \<exists>ts. e = flat ts @ [0, 0, 0] \<and> normal ts \<and>
        edits ts (map (trim ws) (lines_of zA)) (map (trim ws) (lines_of zB)))"
proof -
  obtain ra where ra: "break_into_lines zA ws = Some ra" "case ra of None \<Rightarrow> 0 \<in> set zA \<or> (\<exists>l \<in> set (lines_of zA). 8191 < length l + 3)
     | Some (a, n) \<Rightarrow> 0 \<notin> set zA \<and> lines_ok a n \<and> n < 2 ^ 31 \<and> texts a n = map (trim ws) (lines_of zA)"
    using break_into_lines_ok [OF assms(1)] by blast
  obtain rb where rb: "break_into_lines zB ws = Some rb" "case rb of None \<Rightarrow> 0 \<in> set zB \<or> (\<exists>l \<in> set (lines_of zB). 8191 < length l + 3)
     | Some (a, n) \<Rightarrow> 0 \<notin> set zB \<and> lines_ok a n \<and> n < 2 ^ 31 \<and> texts a n = map (trim ws) (lines_of zB)"
    using break_into_lines_ok [OF assms(2)] by blast
  show ?thesis
  proof (cases "\<exists>a n b m. ra = Some (a, n) \<and> rb = Some (b, m)")
    case False
    then have "text_diff score worst zA zB ws = Some None"
      using ra(1) rb(1) by (auto simp: text_diff_def split: option.split)
    moreover have "\<exists>z \<in> {zA, zB}. 0 \<in> set z \<or> (\<exists>l \<in> set (lines_of z). 8188 < length l)"
      using False ra(2) rb(2) by (cases ra; cases rb) fastforce+
    ultimately show ?thesis by simp
  next
    case True
    then obtain a n b m where ab: "ra = Some (a, n)" "rb = Some (b, m)" by blast
    let ?p = "\<lparr>aEdit = [], nEditAlloc = 0, aFrom = a, nFrom = n, aTo = b, nTo = m\<rparr>"
    have eq: "text_diff score worst zA zB ws = map_option (\<lambda>p. Some (aEdit p)) (diff_all score worst ?p)"
      using ra(1) rb(1) ab by (auto simp: text_diff_def map_option_case split: option.split bind_splits)
    have ctx: "context_ok ?p" using ra(2) rb(2) ab by (simp add: context_ok_def)
    have t: "texts a n = map (trim ws) (lines_of zA)" "texts b m = map (trim ws) (lines_of zB)" using ra(2) rb(2) ab by simp_all
    show ?thesis
    proof (cases "diff_all score worst ?p")
      case None
      with diff_all_ok [OF ctx, of score worst] have "\<not> room ?p" by auto
      then show ?thesis using eq None t by (simp add: room_def)
    next
      case (Some p')
      with diff_all_ok [OF ctx, of score worst] t eq show ?thesis by auto
    qed
  qed
qed

lemma text_diff_SomeD:
  assumes "text_diff score worst zA zB ws = Some (Some e)" and "length zA < 2 ^ 31" and "length zB < 2 ^ 31"
  obtains ts where "e = flat ts @ [0, 0, 0]" and "normal ts"
    and "edits ts (map (trim ws) (lines_of zA)) (map (trim ws) (lines_of zB))"
  using text_diff_cases [OF assms(2,3), where score = score and worst = worst and ws = ws] assms(1) by auto

text \<open>A text against itself: all lines are copied.\<close>

lemma same_at_refl: "lines_ok a n \<Longrightarrow> i < n \<Longrightarrow> same_at a i a i = Some True"
  by (simp add: same_at_def lines_ok_def same_dline_ok)

lemma footer_loop_same: "lines_ok (aFrom p) (nFrom p) \<Longrightarrow> aTo p = aFrom p \<Longrightarrow> e \<le> nFrom p \<Longrightarrow> footer_loop p e e = Some (0, 0)"
  by (induction e) (simp_all add: same_at_refl)

lemma diff_step_empty: "diff_step score worst p i i j j = Some p"
  by (simp add: diff_step.simps [of score worst p i i j j])

lemma text_diff_same:
  assumes "length z < 2 ^ 31" and "0 \<notin> set z" and "\<forall>l \<in> set (lines_of z). length l \<le> 8188"
  shows "text_diff score worst z z ws = Some (Some (flat (if z = [] then [] else [(length (lines_of z), 0, 0)]) @ [0, 0, 0]))"
proof -
  obtain r where r: "break_into_lines z ws = Some r" "case r of None \<Rightarrow> 0 \<in> set z \<or> (\<exists>l \<in> set (lines_of z). 8191 < length l + 3)
     | Some (a, n) \<Rightarrow> 0 \<notin> set z \<and> lines_ok a n \<and> n < 2 ^ 31 \<and> texts a n = map (trim ws) (lines_of z)"
    using break_into_lines_ok [OF assms(1)] by blast
  have "\<not> 8191 < length l + 3" if "l \<in> set (lines_of z)" for l using assms(3) that by fastforce
  with r(2) assms(2) have "r \<noteq> None" by (cases r) auto
  then obtain a n where an: "r = Some (a, n)" by auto
  with r(2) have a: "lines_ok a n" "texts a n = map (trim ws) (lines_of z)" by simp_all
  then have n: "n = length (lines_of z)" by (metis length_map length_take lines_ok_def min.absorb2 texts_def)
  let ?p = "\<lparr>aEdit = [], nEditAlloc = 0, aFrom = a, nFrom = n, aTo = a, nTo = n\<rparr>"
  have "footer_loop ?p n n = Some (0, 0)" using a(1) by (intro footer_loop_same) simp_all
  moreover have "run_length ?p 0 0 0 0 0 = Some 0" by (simp add: run_length.simps [of ?p 0 0 0 0 0])
  ultimately show ?thesis using r(1) an n
    by (auto simp: text_diff_def diff_all_def diff_step_empty store_triple_def expandEdit_def
      appendTriple_def Let_def)
qed

section \<open>Properties\<close>

text \<open>
  C4: The line difference of two texts is right whenever it is returned: the array of counts ends with
  three zeros and no other triple is all zeros, and copying, deleting and inserting as it says turns the
  lines of the first text into those of the second. For texts without a zero byte or a line of more than
  8188 bytes it is returned when the lines of the second text are distinct.
\<close>

theorem text_diff_edits:
  assumes "length zA < 2 ^ 31" and "length zB < 2 ^ 31"
  shows "(case text_diff score worst zA zB ws of
      None \<Rightarrow> \<not> distinct (map (trim ws) (lines_of zB))
    | Some None \<Rightarrow> \<exists>z \<in> {zA, zB}. 0 \<in> set z \<or> (\<exists>l \<in> set (lines_of z). 8188 < length l)
    | Some (Some e) \<Rightarrow> \<exists>ts. e = flat ts @ [0, 0, 0] \<and> normal ts \<and>
        edits ts (map (trim ws) (lines_of zA)) (map (trim ws) (lines_of zB)))"
  using assms by (rule text_diff_cases)

theorem text_diff_edits_witness:
  "\<exists>ts. text_diff (\<lambda>n s d. 20 * int n - int s - int d) (-1) [c_a, c_nl, c_b, c_nl] [c_a, c_nl, c_f] False = Some (Some (flat ts @ [0, 0, 0])) \<and>
    edits ts [[c_a], [c_b]] [[c_a], [c_f]]"
  using text_diff_edits [of "[c_a, c_nl, c_b, c_nl]" "[c_a, c_nl, c_f]", where score = "\<lambda>n s d. 20 * int n - int s - int d" and worst = "-1" and ws = False]
  by (auto simp: trim_def split: option.splits)

text \<open>
  The texts \<open>y x\<close> and \<open>z x x a b c d e f g h i j k l m\<close>, one letter a line: all lines share a chain
  because there are 16 of one length, the search by hashes gives up before it reaches \<open>x\<close>, and the
  exhaustive search reads the record behind the two lines of the first text.
\<close>

definition letters :: "byte list \<Rightarrow> byte list" where
  "letters = concat \<circ> map (\<lambda>c. [c, c_nl])"

lemma text_diff_overrun:
  "text_diff (\<lambda>n s d. 20 * int n - int s - int d) (-1) (letters [0x79, 0x78])
    (letters [0x7a, 0x78, 0x78, 0x61, 0x62, 0x63, 0x64, 0x65, 0x66, 0x67, 0x68, 0x69, 0x6a, 0x6b, 0x6c, 0x6d]) False = None"
  by code_simp

text \<open>The newline at the end of a text is not a part of its last line.\<close>

lemma missing_newline_invisible:
  "text_diff (\<lambda>n s d. 20 * int n - int s - int d) (-1) [c_a] [c_a, c_nl] False = Some (Some [1, 0, 0, 0, 0, 0])"
  by code_simp

end
