(* ===== verification/Fossil_Merge.thy ===== *)
theory Fossil_Merge
  imports Fossil_Diff
begin

text \<open>
  The three-way merge of texts (\<open>src/test4/merge3.c\<close>), which applies the edits from a common ancestor
  to two texts at once, and the copying of lines behind a cursor (\<open>src/test4/blob.c\<close>). \<open>None\<close> is an
  access outside of a text or an array of edits, a failed assertion, or a loop that does not end.
\<close>

section \<open>Texts with a cursor\<close>

record blob =
  aData :: "byte list"
  iCursor :: nat

text \<open>The index behind the \<open>N\<close>-th newline from \<open>i\<close> on, or the end.\<close>

function line_end :: "byte list \<Rightarrow> int \<Rightarrow> nat \<Rightarrow> int \<Rightarrow> nat option" where
  "line_end z N i cnt = (if i < length z then do {
       c \<leftarrow> peek z i;
       if c = c_nl then (if cnt + 1 = N then Some (i + 1) else line_end z N (i + 1) (cnt + 1))
       else line_end z N (i + 1) cnt
     } else Some i)"
  by pat_completeness auto
termination
  by (relation "measure (\<lambda>(z, N, i, cnt). length z - i)") auto

declare line_end.simps [simp del]

text \<open>The bytes copied and the text with its cursor behind them; a null target drops the bytes.\<close>

definition blob_copy_lines :: "blob \<Rightarrow> int \<Rightarrow> (byte list \<times> blob) option" where
  "blob_copy_lines pFrom N = (if N = 0 then Some ([], pFrom)
     else do {
       i \<leftarrow> line_end (aData pFrom) N (iCursor pFrom) 0;
       bs \<leftarrow> slice (aData pFrom) (iCursor pFrom) (i - iCursor pFrom);
       Some (bs, pFrom\<lparr>iCursor := i\<rparr>)
     })"

definition blob_rewind :: "blob \<Rightarrow> blob" where
  "blob_rewind p = p\<lparr>iCursor := 0\<rparr>"

section \<open>Comparing edits\<close>

function same_lines_loop :: "byte list \<Rightarrow> nat \<Rightarrow> byte list \<Rightarrow> nat \<Rightarrow> nat \<Rightarrow> int \<Rightarrow> bool option" where
  "same_lines_loop z1 c1 z2 c2 i N = do {
     c \<leftarrow> rd z1 (c1 + i);
     d \<leftarrow> rd z2 (c2 + i);
     if c \<noteq> d then Some False
     else if c = c_nl \<or> c = 0 then
       (if N - 1 = 0 \<or> c = 0 then Some True else same_lines_loop z1 c1 z2 c2 (i + 1) (N - 1))
     else same_lines_loop z1 c1 z2 c2 (i + 1) N
   }"
  by pat_completeness auto
termination
  by (relation "measure (\<lambda>(z1, c1, z2, c2, i, N). Suc (length z1) - (c1 + i))") (auto dest: rd_nonzeroD)

declare same_lines_loop.simps [simp del]

definition sameLines :: "blob \<Rightarrow> blob \<Rightarrow> int \<Rightarrow> bool option" where
  "sameLines pV1 pV2 N = (if N = 0 then Some True
     else same_lines_loop (aData pV1) (iCursor pV1) (aData pV2) (iCursor pV2) 0 N)"

text \<open>The triple at an index of an array.\<close>

definition triple_at :: "int list \<Rightarrow> nat \<Rightarrow> (int \<times> int \<times> int) option" where
  "triple_at aC i = do {
     c \<leftarrow> peek aC i;
     d \<leftarrow> peek aC (i + 1);
     n \<leftarrow> peek aC (i + 2);
     Some (c, d, n)
   }"

definition sameEdit :: "int list \<Rightarrow> nat \<Rightarrow> int list \<Rightarrow> nat \<Rightarrow> blob \<Rightarrow> blob \<Rightarrow> bool option" where
  "sameEdit aC1 i1 aC2 i2 pV1 pV2 = do {
     t1 \<leftarrow> triple_at aC1 i1;
     t2 \<leftarrow> triple_at aC2 i2;
     if t1 \<noteq> t2 then Some False else sameLines pV1 pV2 (snd (snd t1))
   }"

function ends_at_CPY :: "int list \<Rightarrow> nat \<Rightarrow> int \<Rightarrow> bool option" where
  "ends_at_CPY aC i sz = (if sz > 0 then do {
       (c, d, n) \<leftarrow> triple_at aC i;
       if c > 0 \<or> d > 0 \<or> n > 0 then
         (if c \<ge> sz then Some True
          else if d > sz - c then Some False
          else ends_at_CPY aC (i + 3) (sz - c - d))
       else Some True
     } else Some True)"
  by pat_completeness auto
termination
  by (relation "measure (\<lambda>(aC, i, sz). length aC - i)") (auto simp: triple_at_def split: bind_splits dest: peek_SomeD)

declare ends_at_CPY.simps [simp del]

text \<open>The size of a conflict.\<close>

partial_function (option) conflict_size :: "int list \<Rightarrow> nat \<Rightarrow> int list \<Rightarrow> nat \<Rightarrow> int \<Rightarrow> int option" where
  "conflict_size aC1 i1 aC2 i2 sz = do {
     e1 \<leftarrow> ends_at_CPY aC1 i1 sz;
     e2 \<leftarrow> (if e1 then ends_at_CPY aC2 i2 sz else Some True);
     if \<not> e1 \<or> \<not> e2 then conflict_size aC1 i1 aC2 i2 (sz + 1) else Some sz
   }"

declare conflict_size.simps [simp del, code]

text \<open>The bytes that are put out, the text, the array and the index.\<close>

function output_one_side :: "byte list \<Rightarrow> blob \<Rightarrow> int list \<Rightarrow> nat \<Rightarrow> int \<Rightarrow> (byte list \<times> blob \<times> int list \<times> nat) option" where
  "output_one_side pOut pSrc aC i sz = (if sz > 0 then do {
       (c, d, n) \<leftarrow> triple_at aC i;
       if c = 0 \<and> d = 0 \<and> n = 0 then Some (pOut, pSrc, aC, i)
       else if c \<ge> sz then do {
         (bs, pSrc) \<leftarrow> blob_copy_lines pSrc sz;
         aC \<leftarrow> poke aC i (c - sz);
         Some (pOut @ bs, pSrc, aC, i)
       }
       else do {
         (bs, pSrc) \<leftarrow> blob_copy_lines pSrc c;
         (bs', pSrc) \<leftarrow> blob_copy_lines pSrc n;
         output_one_side (pOut @ bs @ bs') pSrc aC (i + 3) (sz - (c + d))
       }
     } else Some (pOut, pSrc, aC, i))"
  by pat_completeness auto
termination
  by (relation "measure (\<lambda>(pOut, pSrc, aC, i, sz). length aC - i)")
    (auto simp: triple_at_def split: bind_splits dest: peek_SomeD)

declare output_one_side.simps [simp del]

section \<open>The merge\<close>

definition zBegin :: "byte list" where
  "zBegin = bytes_of ''<<<<<<< BEGIN MERGE CONFLICT: local copy shown first <<<<<<<<<<<<<<<'' @ [c_nl]"

definition zMid1 :: "byte list" where
  "zMid1 = bytes_of ''======= COMMON ANCESTOR content follows ============================'' @ [c_nl]"

definition zMid2 :: "byte list" where
  "zMid2 = bytes_of ''======= MERGED IN content follows =================================='' @ [c_nl]"

definition zEnd :: "byte list" where
  "zEnd = bytes_of ''>>>>>>> END MERGE CONFLICT >>>>>>>>>>>>>>>>>>>>>>>>>>>>>>>>>>>>>>>>>'' @ [c_nl]"

record merge =
  aC1 :: "int list"
  i1 :: nat
  aC2 :: "int list"
  i2 :: nat
  pPivot :: blob
  pV1 :: blob
  pV2 :: blob
  pOut :: "byte list"
  nConflict :: int

text \<open>Lines that are the same in all three texts.\<close>

definition merge_copy :: "merge \<Rightarrow> int \<Rightarrow> int \<Rightarrow> merge option" where
  "merge_copy m c1 c2 = (let nCpy = (if c1 < c2 then c1 else c2) in do {
     (bs, p) \<leftarrow> blob_copy_lines (pPivot m) nCpy;
     (_, v1) \<leftarrow> blob_copy_lines (pV1 m) nCpy;
     (_, v2) \<leftarrow> blob_copy_lines (pV2 m) nCpy;
     a1 \<leftarrow> poke (aC1 m) (i1 m) (c1 - nCpy);
     a2 \<leftarrow> poke (aC2 m) (i2 m) (c2 - nCpy);
     Some (m\<lparr>aC1 := a1, aC2 := a2, pPivot := p, pV1 := v1, pV2 := v2, pOut := pOut m @ bs\<rparr>)
   })"

text \<open>An edit of the second text within unchanged lines of the first one, and the other way round.\<close>

definition merge_left :: "merge \<Rightarrow> int \<Rightarrow> int \<Rightarrow> int \<Rightarrow> merge option" where
  "merge_left m c1 nDel nIns = do {
     (_, p) \<leftarrow> blob_copy_lines (pPivot m) nDel;
     (_, v1) \<leftarrow> blob_copy_lines (pV1 m) nDel;
     (bs, v2) \<leftarrow> blob_copy_lines (pV2 m) nIns;
     a1 \<leftarrow> poke (aC1 m) (i1 m) (c1 - nDel);
     Some (m\<lparr>aC1 := a1, i2 := i2 m + 3, pPivot := p, pV1 := v1, pV2 := v2, pOut := pOut m @ bs\<rparr>)
   }"

definition merge_right :: "merge \<Rightarrow> int \<Rightarrow> int \<Rightarrow> int \<Rightarrow> merge option" where
  "merge_right m c2 nDel nIns = do {
     (_, p) \<leftarrow> blob_copy_lines (pPivot m) nDel;
     (_, v2) \<leftarrow> blob_copy_lines (pV2 m) nDel;
     (bs, v1) \<leftarrow> blob_copy_lines (pV1 m) nIns;
     a2 \<leftarrow> poke (aC2 m) (i2 m) (c2 - nDel);
     Some (m\<lparr>aC2 := a2, i1 := i1 m + 3, pPivot := p, pV1 := v1, pV2 := v2, pOut := pOut m @ bs\<rparr>)
   }"

text \<open>The same edit in both.\<close>

definition merge_both :: "merge \<Rightarrow> int \<Rightarrow> int \<Rightarrow> int \<Rightarrow> merge option" where
  "merge_both m c1 nDel nIns = (if c1 \<noteq> 0 then None else do {
     (_, p) \<leftarrow> blob_copy_lines (pPivot m) nDel;
     (bs, v1) \<leftarrow> blob_copy_lines (pV1 m) nIns;
     (_, v2) \<leftarrow> blob_copy_lines (pV2 m) nIns;
     Some (m\<lparr>i1 := i1 m + 3, i2 := i2 m + 3, pPivot := p, pV1 := v1, pV2 := v2, pOut := pOut m @ bs\<rparr>)
   })"

definition merge_conflict :: "merge \<Rightarrow> merge option" where
  "merge_conflict m = do {
     sz \<leftarrow> conflict_size (aC1 m) (i1 m) (aC2 m) (i2 m) 1;
     (out, v1, a1, j1) \<leftarrow> output_one_side (pOut m @ zBegin) (pV1 m) (aC1 m) (i1 m) sz;
     (bs, p) \<leftarrow> blob_copy_lines (pPivot m) sz;
     (out, v2, a2, j2) \<leftarrow> output_one_side (out @ zMid1 @ bs @ zMid2) (pV2 m) (aC2 m) (i2 m) sz;
     Some \<lparr>aC1 = a1, i1 = j1, aC2 = a2, i2 = j2, pPivot = p, pV1 = v1, pV2 = v2, pOut = out @ zEnd,
       nConflict = nConflict m + 1\<rparr>
   }"

text \<open>A finished triple is passed.\<close>

definition pass_finished :: "int list \<Rightarrow> nat \<Rightarrow> nat \<Rightarrow> nat option" where
  "pass_finished aC i limit = (if i < limit then do {
       t \<leftarrow> triple_at aC i;
       Some (if t = (0, 0, 0) then i + 3 else i)
     } else Some i)"

definition merge_step :: "nat \<Rightarrow> nat \<Rightarrow> merge \<Rightarrow> merge option" where
  "merge_step limit1 limit2 m = do {
     (c1, d1, n1) \<leftarrow> triple_at (aC1 m) (i1 m);
     (c2, d2, n2) \<leftarrow> triple_at (aC2 m) (i2 m);
     m \<leftarrow> (if c1 > 0 \<and> c2 > 0 then merge_copy m c1 c2
       else if c1 \<ge> d2 \<and> c1 > 0 \<and> d2 + n2 > 0 then merge_left m c1 d2 n2
       else if c2 \<ge> d1 \<and> c2 > 0 \<and> d1 + n1 > 0 then merge_right m c2 d1 n1
       else do {
         same \<leftarrow> sameEdit (aC1 m) (i1 m) (aC2 m) (i2 m) (pV1 m) (pV2 m);
         if same then merge_both m c1 d1 n1 else merge_conflict m
       });
     j1 \<leftarrow> pass_finished (aC1 m) (i1 m) limit1;
     j2 \<leftarrow> pass_finished (aC2 m) (i2 m) limit2;
     Some (m\<lparr>i1 := j1, i2 := j2\<rparr>)
   }"

partial_function (option) merge_loop :: "nat \<Rightarrow> nat \<Rightarrow> merge \<Rightarrow> merge option" where
  "merge_loop limit1 limit2 m = (if i1 m < limit1 \<and> i2 m < limit2 then do {
       m \<leftarrow> merge_step limit1 limit2 m;
       merge_loop limit1 limit2 m
     } else Some m)"

declare merge_loop.simps [simp del, code]

text \<open>The index of the triple of zeros.\<close>

function find_limit :: "int list \<Rightarrow> nat \<Rightarrow> nat option" where
  "find_limit aC i = do {
     (c, d, n) \<leftarrow> triple_at aC i;
     if c \<noteq> 0 \<or> d \<noteq> 0 \<or> n \<noteq> 0 then find_limit aC (i + 3) else Some i
   }"
  by pat_completeness auto
termination
  by (relation "measure (\<lambda>(aC, i). length aC - i)") (auto simp: triple_at_def split: bind_splits dest: peek_SomeD)

declare find_limit.simps [simp del]

text \<open>The insertion that may be left at the end.\<close>

definition merge_rest :: "nat \<Rightarrow> nat \<Rightarrow> merge \<Rightarrow> byte list option" where
  "merge_rest limit1 limit2 m = do {
     n1 \<leftarrow> (if i1 m < limit1 then peek (aC1 m) (i1 m + 2) else Some 0);
     if n1 > 0 then map_option (\<lambda>(bs, _). pOut m @ bs) (blob_copy_lines (pV1 m) n1)
     else do {
       n2 \<leftarrow> (if i2 m < limit2 then peek (aC2 m) (i2 m + 2) else Some 0);
       if n2 > 0 then map_option (\<lambda>(bs, _). pOut m @ bs) (blob_copy_lines (pV2 m) n2)
       else Some (pOut m)
     }
   }"

text \<open>
  The number of conflicts and the merged text; \<open>-1\<close> and no text for binary files.
\<close>

definition blob_merge :: "(nat \<Rightarrow> nat \<Rightarrow> nat \<Rightarrow> 'v::linorder) \<Rightarrow> 'v \<Rightarrow> blob \<Rightarrow> blob \<Rightarrow> blob \<Rightarrow>
    (int \<times> byte list) option" where
  "blob_merge score worst pivot v1 v2 = do {
     e1 \<leftarrow> text_diff score worst (aData pivot) (aData v1) False;
     e2 \<leftarrow> text_diff score worst (aData pivot) (aData v2) False;
     case (e1, e2) of
       (Some a1, Some a2) \<Rightarrow> do {
         limit1 \<leftarrow> find_limit a1 0;
         limit2 \<leftarrow> find_limit a2 0;
         m \<leftarrow> merge_loop limit1 limit2 \<lparr>aC1 = a1, i1 = 0, aC2 = a2, i2 = 0, pPivot = blob_rewind pivot,
           pV1 = blob_rewind v1, pV2 = blob_rewind v2, pOut = [], nConflict = 0\<rparr>;
         out \<leftarrow> merge_rest limit1 limit2 m;
         Some (nConflict m, out)
       }
     | _ \<Rightarrow> Some (-1, [])
   }"


section \<open>Where a merge stands\<close>

text \<open>An array of edits with the index before the triples that are left.\<close>

definition side :: "int list \<Rightarrow> nat \<Rightarrow> nat \<Rightarrow> (nat \<times> nat \<times> nat) list \<Rightarrow> bool" where
  "side a i limit ts \<longleftrightarrow> (\<exists>pre. a = pre @ flat ts @ [0, 0, 0] \<and> i = length pre \<and> limit = length pre + 3 * length ts)"

lemma side_less: "side a i limit ts \<Longrightarrow> i < limit \<longleftrightarrow> ts \<noteq> []"
  by (auto simp: side_def)

lemma side_at:
  "side a i limit ((c, d, n) # ts) \<Longrightarrow> triple_at a i = Some (int c, int d, int n)"
  "side a i limit [] \<Longrightarrow> triple_at a i = Some (0, 0, 0)"
  by (auto simp: side_def triple_at_def peek_def nth_append)

lemma side_poke:
  assumes "side a i limit ((c, d, n) # ts)"
  obtains a' where "poke a i (int c') = Some a'" and "side a' i limit ((c', d, n) # ts)"
proof -
  obtain pre where pre: "a = pre @ flat ((c, d, n) # ts) @ [0, 0, 0]" "i = length pre" "limit = length pre + 3 * length ((c, d, n) # ts)"
    using assms by (auto simp: side_def)
  then have "poke a i (int c') = Some (pre @ flat ((c', d, n) # ts) @ [0, 0, 0])"
    by (simp add: poke_def list_update_append)
  then show ?thesis using pre by (intro that) (auto simp: side_def)
qed

lemma side_next: "side a i limit (t # ts) \<Longrightarrow> side a (i + 3) limit ts"
proof -
  assume "side a i limit (t # ts)"
  then obtain pre where pre: "a = pre @ flat (t # ts) @ [0, 0, 0]" "i = length pre" "limit = length pre + 3 * length (t # ts)"
    by (auto simp: side_def)
  then show ?thesis by (cases t) (auto simp: side_def intro!: exI [of _ "pre @ [int (fst t), int (fst (snd t)), int (snd (snd t))]"])
qed

definition pass :: "(nat \<times> nat \<times> nat) list \<Rightarrow> (nat \<times> nat \<times> nat) list" where
  "pass ts = (case ts of [] \<Rightarrow> [] | t # r \<Rightarrow> if t = (0, 0, 0) then r else ts)"

lemma pass_simps [simp]: "pass [] = []" "pass ((c, d, n) # ts) = (if c = 0 \<and> d = 0 \<and> n = 0 then ts else (c, d, n) # ts)"
  by (simp_all add: pass_def)

lemma edits_pass [simp]: "edits (pass ts) A B = edits ts A B"
  by (cases ts) (auto simp: pass_def)

lemma pass_finished_ok:
  assumes "side a i limit ts"
  obtains j where "pass_finished a i limit = Some j" and "side a j limit (pass ts)"
proof (cases ts)
  case Nil
  with assms that show ?thesis by (simp add: pass_finished_def side_less)
next
  case (Cons t r)
  obtain c d n where "t = (c, d, n)" by (cases t)
  with Cons assms side_next [OF assms [unfolded Cons]] that show ?thesis
    by (auto simp: pass_finished_def side_less side_at)
qed

text \<open>Lines with the newlines behind them.\<close>

definition joined :: "byte list list \<Rightarrow> byte list" where
  "joined ls = concat (map (\<lambda>l. l @ [c_nl]) ls)"

lemma joined_simps [simp]: "joined [] = []" "joined (l # ls) = l @ c_nl # joined ls" "joined (ls @ ms) = joined ls @ joined ms"
  by (simp_all add: joined_def)

definition plain :: "byte list list \<Rightarrow> bool" where
  "plain ls \<longleftrightarrow> list_all (\<lambda>l. c_nl \<notin> set l \<and> 0 \<notin> set l) ls"

lemma plain_simps [simp]: "plain []" "plain (l # ls) \<longleftrightarrow> c_nl \<notin> set l \<and> 0 \<notin> set l \<and> plain ls" "plain (ls @ ms) \<longleftrightarrow> plain ls \<and> plain ms"
  by (simp_all add: plain_def)

definition left_of :: "blob \<Rightarrow> byte list list \<Rightarrow> bool" where
  "left_of b ls \<longleftrightarrow> plain ls \<and> (\<exists>pre. aData b = pre @ joined ls \<and> iCursor b = length pre)"

lemma line_end_line:
  "c_nl \<notin> set l \<Longrightarrow> line_end (pre @ l @ c_nl # r) N (length pre) cnt =
    (if cnt + 1 = N then Some (length pre + length l + 1) else line_end (pre @ l @ c_nl # r) N (length pre + length l + 1) (cnt + 1))"
proof (induction l arbitrary: pre)
  case Nil
  then show ?case by (simp add: line_end.simps [of _ _ "length pre"])
next
  case (Cons c l)
  from Cons.IH [of "pre @ [c]"] Cons.prems show ?case by (simp add: line_end.simps [of _ _ "length pre"])
qed

lemma line_end_lines:
  "plain ls \<Longrightarrow> ls \<noteq> [] \<Longrightarrow> line_end (pre @ joined ls @ r) (cnt + int (length ls)) (length pre) cnt = Some (length pre + length (joined ls))"
proof (induction ls arbitrary: pre cnt)
  case (Cons l ls)
  show ?case
  proof (cases "ls = []")
    case True
    with Cons.prems line_end_line [of l pre r "cnt + 1" cnt] show ?thesis by simp
  next
    case False
    with Cons.IH [of "pre @ l @ [c_nl]" "cnt + 1"] Cons.prems line_end_line [of l pre "joined ls @ r" "cnt + int (length (l # ls))" cnt]
    show ?thesis by (simp add: add.assoc add.commute add.left_commute)
  qed
qed simp

lemma blob_copy_lines_ok:
  assumes "left_of b (ls @ ms)"
  obtains b' where "blob_copy_lines b (int (length ls)) = Some (joined ls, b')" and "left_of b' ms"
proof -
  obtain pre where pre: "aData b = pre @ joined ls @ joined ms" "iCursor b = length pre" and pl: "plain ls" "plain ms"
    using assms by (auto simp: left_of_def)
  show ?thesis
  proof (cases "ls = []")
    case True
    with assms that show ?thesis by (simp add: blob_copy_lines_def)
  next
    case False
    from line_end_lines [OF pl(1) this, of pre "joined ms" 0] pre False
    have "blob_copy_lines b (int (length ls)) = Some (joined ls, b\<lparr>iCursor := length pre + length (joined ls)\<rparr>)"
      by (simp add: blob_copy_lines_def)
    moreover have "left_of (b\<lparr>iCursor := length pre + length (joined ls)\<rparr>) ms"
      using pre(1) pl(2) by (auto simp: left_of_def intro!: exI [of _ "pre @ joined ls"])
    ultimately show ?thesis using that by blast
  qed
qed

text \<open>
  The ancestor still has the lines \<open>P\<close>, the texts still have \<open>A\<close> and \<open>B\<close>, and the edits that are left lead
  from \<open>P\<close> to them.
\<close>

definition merging :: "nat \<Rightarrow> nat \<Rightarrow> merge \<Rightarrow> byte list list \<Rightarrow> byte list list \<Rightarrow> (nat \<times> nat \<times> nat) list \<Rightarrow>
    byte list list \<Rightarrow> (nat \<times> nat \<times> nat) list \<Rightarrow> bool" where
  "merging limit1 limit2 m P A ts B us \<longleftrightarrow> side (aC1 m) (i1 m) limit1 ts \<and> side (aC2 m) (i2 m) limit2 us \<and>
     left_of (pPivot m) P \<and> left_of (pV1 m) A \<and> left_of (pV2 m) B \<and> edits ts P A \<and> edits us P B \<and> normal ts \<and> normal us"

lemma normal_tail: "normal (t # ts) \<Longrightarrow> normal ts"
  by (cases ts) (auto simp: normal_def)

lemma normal_pass: "normal ((c, d, n) # ts) \<Longrightarrow> normal (pass ((c', d, n) # ts))"
  using normal_tail [of "(c, d, n)" ts] by (auto simp: normal_def)

lemma pass_normal [simp]: "normal ts \<Longrightarrow> pass ts = ts"
  by (cases ts) (auto simp: pass_def normal_def)

lemma edits_copied:
  "length X \<le> c \<Longrightarrow> edits ((c, d, n) # ts) (X @ A) (X @ B) \<longleftrightarrow> edits ((c - length X, d, n) # ts) A B"
  by auto

text \<open>The end of a step.\<close>

lemma merge_step_end:
  assumes "merge_step limit1 limit2 m\<^sub>0 = do { j1 \<leftarrow> pass_finished (aC1 m) (i1 m) limit1; j2 \<leftarrow> pass_finished (aC2 m) (i2 m) limit2;
      Some (m\<lparr>i1 := j1, i2 := j2\<rparr>) }"
    and "side (aC1 m) (i1 m) limit1 ts" and "side (aC2 m) (i2 m) limit2 us" and "left_of (pPivot m) P" and "left_of (pV1 m) A"
    and "left_of (pV2 m) B" and "edits ts P A" and "edits us P B" and "normal (pass ts)" and "normal (pass us)"
  obtains m' where "merge_step limit1 limit2 m\<^sub>0 = Some m'"
    and "merging limit1 limit2 m' P A (pass ts) B (pass us)" and "pOut m' = pOut m" and "nConflict m' = nConflict m"
proof -
  obtain j1 where j1: "pass_finished (aC1 m) (i1 m) limit1 = Some j1" "side (aC1 m) j1 limit1 (pass ts)"
    using assms(2) by (rule pass_finished_ok)
  obtain j2 where j2: "pass_finished (aC2 m) (i2 m) limit2 = Some j2" "side (aC2 m) j2 limit2 (pass us)"
    using assms(3) by (rule pass_finished_ok)
  show ?thesis
    by (rule that [of "m\<lparr>i1 := j1, i2 := j2\<rparr>"]) (use j1 j2 assms in \<open>simp_all add: merging_def\<close>)
qed

lemma merge_step_copy:
  assumes "merging limit1 limit2 m P A ((c1, d1, n1) # ts) B ((c2, d2, n2) # us)" and "0 < c1" and "0 < c2"
  obtains m' X P' A' B' where "merge_step limit1 limit2 m = Some m'" and "P = X @ P'" and "A = X @ A'" and "B = X @ B'"
    and "length X = min c1 c2"
    and "merging limit1 limit2 m' P' A' (pass ((c1 - min c1 c2, d1, n1) # ts)) B' (pass ((c2 - min c1 c2, d2, n2) # us))"
    and "pOut m' = pOut m @ joined X" and "nConflict m' = nConflict m"
proof -
  note inv = assms(1) [unfolded merging_def]
  let ?k = "min c1 c2" and ?X = "take (min c1 c2) P"
  have ed: "take c1 P = take c1 A" "take c2 P = take c2 B" "c1 \<le> length P" using inv by auto
  have eq: "take ?k A = ?X" "take ?k B = ?X" using ed(1,2) by (metis min.commute take_take)+
  have len: "length ?X = ?k" using ed(3) by simp
  have parts: "P = ?X @ drop ?k P" "A = ?X @ drop ?k A" "B = ?X @ drop ?k B"
    using append_take_drop_id [of ?k P] append_take_drop_id [of ?k A] append_take_drop_id [of ?k B] unfolding eq by simp_all
  have lo: "left_of (pPivot m) (?X @ drop ?k P)" "left_of (pV1 m) (?X @ drop ?k A)" "left_of (pV2 m) (?X @ drop ?k B)"
    using inv parts by simp_all
  obtain p where p: "blob_copy_lines (pPivot m) (int ?k) = Some (joined ?X, p)" "left_of p (drop ?k P)"
    using blob_copy_lines_ok [OF lo(1)] unfolding len .
  obtain v1 where v1: "blob_copy_lines (pV1 m) (int ?k) = Some (joined ?X, v1)" "left_of v1 (drop ?k A)"
    using blob_copy_lines_ok [OF lo(2)] unfolding len .
  obtain v2 where v2: "blob_copy_lines (pV2 m) (int ?k) = Some (joined ?X, v2)" "left_of v2 (drop ?k B)"
    using blob_copy_lines_ok [OF lo(3)] unfolding len .
  have sides: "side (aC1 m) (i1 m) limit1 ((c1, d1, n1) # ts)" "side (aC2 m) (i2 m) limit2 ((c2, d2, n2) # us)" using inv by simp_all
  obtain a1 where a1: "poke (aC1 m) (i1 m) (int (c1 - ?k)) = Some a1" "side a1 (i1 m) limit1 ((c1 - ?k, d1, n1) # ts)"
    using side_poke [OF sides(1)] .
  obtain a2 where a2: "poke (aC2 m) (i2 m) (int (c2 - ?k)) = Some a2" "side a2 (i2 m) limit2 ((c2 - ?k, d2, n2) # us)"
    using side_poke [OF sides(2)] .
  let ?m = "m\<lparr>aC1 := a1, aC2 := a2, pPivot := p, pV1 := v1, pV2 := v2, pOut := pOut m @ joined ?X\<rparr>"
  have k: "(if int c1 < int c2 then int c1 else int c2) = int ?k" by simp
  have "merge_copy m (int c1) (int c2) = Some ?m"
    unfolding merge_copy_def k using p(1) v1(1) v2(1) a1(1) a2(1) by (simp add: Let_def of_nat_diff)
  then have step: "merge_step limit1 limit2 m = do { j1 \<leftarrow> pass_finished (aC1 ?m) (i1 ?m) limit1;
      j2 \<leftarrow> pass_finished (aC2 ?m) (i2 ?m) limit2; Some (?m\<lparr>i1 := j1, i2 := j2\<rparr>) }"
    using side_at(1) [OF sides(1)] side_at(1) [OF sides(2)] assms(2,3) by (simp add: merge_step_def)
  have ed': "edits ((c1 - ?k, d1, n1) # ts) (drop ?k P) (drop ?k A)" "edits ((c2 - ?k, d2, n2) # us) (drop ?k P) (drop ?k B)"
    using edits_copied [of ?X c1 d1 n1 ts "drop ?k P" "drop ?k A"] edits_copied [of ?X c2 d2 n2 us "drop ?k P" "drop ?k B"]
    unfolding len using inv parts by simp_all
  have st: "side (aC1 ?m) (i1 ?m) limit1 ((c1 - ?k, d1, n1) # ts)" "side (aC2 ?m) (i2 ?m) limit2 ((c2 - ?k, d2, n2) # us)"
    "left_of (pPivot ?m) (drop ?k P)" "left_of (pV1 ?m) (drop ?k A)" "left_of (pV2 ?m) (drop ?k B)"
    using a1(2) a2(2) p(2) v1(2) v2(2) by simp_all
  have nm: "normal (pass ((c1 - ?k, d1, n1) # ts))" "normal (pass ((c2 - ?k, d2, n2) # us))"
    using inv normal_pass by blast+
  from merge_step_end [OF step st ed' nm] obtain m' where m': "merge_step limit1 limit2 m = Some m'"
    "merging limit1 limit2 m' (drop ?k P) (drop ?k A) (pass ((c1 - ?k, d1, n1) # ts)) (drop ?k B) (pass ((c2 - ?k, d2, n2) # us))"
    "pOut m' = pOut ?m" "nConflict m' = nConflict ?m" .
  have "pOut m' = pOut m @ joined ?X" "nConflict m' = nConflict m" using m'(3,4) by simp_all
  with m'(1,2) show ?thesis using that [OF _ parts len] by blast
qed

lemma merge_step_left:
  assumes "merging limit1 limit2 m P A ((c1, d1, n1) # ts) B ((0, d2, n2) # us)" and "0 < c1" and "d2 \<le> c1"
  obtains m' D P' A' I B' where "merge_step limit1 limit2 m = Some m'" and "P = D @ P'" and "A = D @ A'" and "B = I @ B'"
    and "length D = d2" and "length I = n2" and "merging limit1 limit2 m' P' A' (pass ((c1 - d2, d1, n1) # ts)) B' us"
    and "pOut m' = pOut m @ joined I" and "nConflict m' = nConflict m"
proof -
  note inv = assms(1) [unfolded merging_def]
  let ?D = "take d2 P" and ?I = "take n2 B"
  have ed: "take c1 P = take c1 A" "c1 \<le> length P" "n2 \<le> length B" "edits us (drop d2 P) (drop n2 B)" using inv by auto
  have eq: "take d2 A = ?D" using ed(1) assms(3) by (metis min.absorb1 take_take)
  have len: "length ?D = d2" "length ?I = n2" using ed(2,3) assms(3) by simp_all
  have parts: "P = ?D @ drop d2 P" "A = ?D @ drop d2 A" "B = ?I @ drop n2 B"
    using append_take_drop_id [of d2 P] append_take_drop_id [of d2 A] append_take_drop_id [of n2 B] unfolding eq by simp_all
  have lo: "left_of (pPivot m) (?D @ drop d2 P)" "left_of (pV1 m) (?D @ drop d2 A)" "left_of (pV2 m) (?I @ drop n2 B)"
    using inv parts by simp_all
  obtain p where p: "blob_copy_lines (pPivot m) (int d2) = Some (joined ?D, p)" "left_of p (drop d2 P)"
    using blob_copy_lines_ok [OF lo(1)] unfolding len .
  obtain v1 where v1: "blob_copy_lines (pV1 m) (int d2) = Some (joined ?D, v1)" "left_of v1 (drop d2 A)"
    using blob_copy_lines_ok [OF lo(2)] unfolding len .
  obtain v2 where v2: "blob_copy_lines (pV2 m) (int n2) = Some (joined ?I, v2)" "left_of v2 (drop n2 B)"
    using blob_copy_lines_ok [OF lo(3)] unfolding len .
  have sides: "side (aC1 m) (i1 m) limit1 ((c1, d1, n1) # ts)" "side (aC2 m) (i2 m) limit2 ((0, d2, n2) # us)" using inv by simp_all
  obtain a1 where a1: "poke (aC1 m) (i1 m) (int (c1 - d2)) = Some a1" "side a1 (i1 m) limit1 ((c1 - d2, d1, n1) # ts)"
    using side_poke [OF sides(1)] .
  let ?m = "m\<lparr>aC1 := a1, i2 := i2 m + 3, pPivot := p, pV1 := v1, pV2 := v2, pOut := pOut m @ joined ?I\<rparr>"
  have "merge_left m (int c1) (int d2) (int n2) = Some ?m"
    using p(1) v1(1) v2(1) a1(1) assms(3) by (simp add: merge_left_def of_nat_diff)
  moreover have "0 < int d2 + int n2" using inv by (auto simp: normal_def)
  ultimately have step: "merge_step limit1 limit2 m = do { j1 \<leftarrow> pass_finished (aC1 ?m) (i1 ?m) limit1;
      j2 \<leftarrow> pass_finished (aC2 ?m) (i2 ?m) limit2; Some (?m\<lparr>i1 := j1, i2 := j2\<rparr>) }"
    using side_at(1) [OF sides(1)] side_at(1) [OF sides(2)] assms(2,3) by (simp add: merge_step_def)
  have st: "side (aC1 ?m) (i1 ?m) limit1 ((c1 - d2, d1, n1) # ts)" "side (aC2 ?m) (i2 ?m) limit2 us"
    "left_of (pPivot ?m) (drop d2 P)" "left_of (pV1 ?m) (drop d2 A)" "left_of (pV2 ?m) (drop n2 B)"
    using a1(2) side_next [OF sides(2)] p(2) v1(2) v2(2) by simp_all
  have ed': "edits ((c1 - d2, d1, n1) # ts) (drop d2 P) (drop d2 A)"
    using edits_copied [of ?D c1 d1 n1 ts "drop d2 P" "drop d2 A"] unfolding len using inv parts assms(3) by simp
  have us: "normal us" using inv normal_tail by blast
  then have us': "normal (pass us)" by simp
  have nm: "normal (pass ((c1 - d2, d1, n1) # ts))" using inv normal_pass by blast
  from merge_step_end [OF step st ed' ed(4) nm us'] obtain m' where m': "merge_step limit1 limit2 m = Some m'"
    "merging limit1 limit2 m' (drop d2 P) (drop d2 A) (pass ((c1 - d2, d1, n1) # ts)) (drop n2 B) (pass us)"
    "pOut m' = pOut ?m" "nConflict m' = nConflict ?m" .
  have "pOut m' = pOut m @ joined ?I" "nConflict m' = nConflict m" using m'(3,4) by simp_all
  with m'(1,2) show ?thesis using that [OF _ parts len] us by simp
qed

lemma merge_step_right:
  assumes "merging limit1 limit2 m P A ((0, d1, n1) # ts) B ((c2, d2, n2) # us)" and "0 < c2" and "d1 \<le> c2"
  obtains m' D P' A' I B' where "merge_step limit1 limit2 m = Some m'" and "P = D @ P'" and "A = I @ A'" and "B = D @ B'"
    and "length D = d1" and "length I = n1" and "merging limit1 limit2 m' P' A' ts B' (pass ((c2 - d1, d2, n2) # us))"
    and "pOut m' = pOut m @ joined I" and "nConflict m' = nConflict m"
proof -
  note inv = assms(1) [unfolded merging_def]
  let ?D = "take d1 P" and ?I = "take n1 A"
  have ed: "take c2 P = take c2 B" "c2 \<le> length P" "n1 \<le> length A" "edits ts (drop d1 P) (drop n1 A)" using inv by auto
  have eq: "take d1 B = ?D" using ed(1) assms(3) by (metis min.absorb1 take_take)
  have len: "length ?D = d1" "length ?I = n1" using ed(2,3) assms(3) by simp_all
  have parts: "P = ?D @ drop d1 P" "A = ?I @ drop n1 A" "B = ?D @ drop d1 B"
    using append_take_drop_id [of d1 P] append_take_drop_id [of d1 B] append_take_drop_id [of n1 A] unfolding eq by simp_all
  have lo: "left_of (pPivot m) (?D @ drop d1 P)" "left_of (pV1 m) (?I @ drop n1 A)" "left_of (pV2 m) (?D @ drop d1 B)"
    using inv parts by simp_all
  obtain p where p: "blob_copy_lines (pPivot m) (int d1) = Some (joined ?D, p)" "left_of p (drop d1 P)"
    using blob_copy_lines_ok [OF lo(1)] unfolding len .
  obtain v1 where v1: "blob_copy_lines (pV1 m) (int n1) = Some (joined ?I, v1)" "left_of v1 (drop n1 A)"
    using blob_copy_lines_ok [OF lo(2)] unfolding len .
  obtain v2 where v2: "blob_copy_lines (pV2 m) (int d1) = Some (joined ?D, v2)" "left_of v2 (drop d1 B)"
    using blob_copy_lines_ok [OF lo(3)] unfolding len .
  have sides: "side (aC1 m) (i1 m) limit1 ((0, d1, n1) # ts)" "side (aC2 m) (i2 m) limit2 ((c2, d2, n2) # us)" using inv by simp_all
  obtain a2 where a2: "poke (aC2 m) (i2 m) (int (c2 - d1)) = Some a2" "side a2 (i2 m) limit2 ((c2 - d1, d2, n2) # us)"
    using side_poke [OF sides(2)] .
  let ?m = "m\<lparr>aC2 := a2, i1 := i1 m + 3, pPivot := p, pV1 := v1, pV2 := v2, pOut := pOut m @ joined ?I\<rparr>"
  have "merge_right m (int c2) (int d1) (int n1) = Some ?m"
    using p(1) v1(1) v2(1) a2(1) assms(3) by (simp add: merge_right_def of_nat_diff)
  moreover have "0 < int d1 + int n1" using inv by (auto simp: normal_def)
  ultimately have step: "merge_step limit1 limit2 m = do { j1 \<leftarrow> pass_finished (aC1 ?m) (i1 ?m) limit1;
      j2 \<leftarrow> pass_finished (aC2 ?m) (i2 ?m) limit2; Some (?m\<lparr>i1 := j1, i2 := j2\<rparr>) }"
    using side_at(1) [OF sides(1)] side_at(1) [OF sides(2)] assms(2,3) by (simp add: merge_step_def)
  have st: "side (aC1 ?m) (i1 ?m) limit1 ts" "side (aC2 ?m) (i2 ?m) limit2 ((c2 - d1, d2, n2) # us)"
    "left_of (pPivot ?m) (drop d1 P)" "left_of (pV1 ?m) (drop n1 A)" "left_of (pV2 ?m) (drop d1 B)"
    using a2(2) side_next [OF sides(1)] p(2) v1(2) v2(2) by simp_all
  have ed': "edits ((c2 - d1, d2, n2) # us) (drop d1 P) (drop d1 B)"
    using edits_copied [of ?D c2 d2 n2 us "drop d1 P" "drop d1 B"] unfolding len using inv parts assms(3) by simp
  have ts: "normal ts" using inv normal_tail by blast
  then have ts': "normal (pass ts)" by simp
  have nm: "normal (pass ((c2 - d1, d2, n2) # us))" using inv normal_pass by blast
  from merge_step_end [OF step st ed(4) ed' ts' nm] obtain m' where m': "merge_step limit1 limit2 m = Some m'"
    "merging limit1 limit2 m' (drop d1 P) (drop n1 A) (pass ts) (drop d1 B) (pass ((c2 - d1, d2, n2) # us))"
    "pOut m' = pOut ?m" "nConflict m' = nConflict ?m" .
  have "pOut m' = pOut m @ joined ?I" "nConflict m' = nConflict m" using m'(3,4) by simp_all
  with m'(1,2) show ?thesis using that [OF _ parts len] ts by simp
qed

lemma same_lines_line:
  "c_nl \<notin> set l \<Longrightarrow> 0 \<notin> set l \<Longrightarrow> drop (c1 + i) z1 = l @ c_nl # r \<Longrightarrow> drop (c2 + i) z2 = l @ c_nl # s \<Longrightarrow>
    same_lines_loop z1 c1 z2 c2 i N = (if N - 1 = 0 then Some True else same_lines_loop z1 c1 z2 c2 (i + length l + 1) (N - 1))"
proof (induction l arbitrary: i)
  case Nil
  then have "rd z1 (c1 + i) = Some c_nl" "rd z2 (c2 + i) = Some c_nl" by (auto dest!: drop_ConsD)
  then show ?case by (simp add: same_lines_loop.simps [of z1 c1 z2 c2 i N])
next
  case (Cons c l)
  then have "rd z1 (c1 + i) = Some c" "rd z2 (c2 + i) = Some c" "drop (c1 + (i + 1)) z1 = l @ c_nl # r"
    "drop (c2 + (i + 1)) z2 = l @ c_nl # s" by (auto dest!: drop_ConsD)
  with Cons.IH [of "i + 1"] Cons.prems(1,2) show ?case by (simp add: same_lines_loop.simps [of z1 c1 z2 c2 i N])
qed

lemma same_lines_same:
  "plain ls \<Longrightarrow> ls \<noteq> [] \<Longrightarrow> drop (c1 + i) z1 = joined ls @ r \<Longrightarrow> drop (c2 + i) z2 = joined ls @ s \<Longrightarrow>
    same_lines_loop z1 c1 z2 c2 i (int (length ls)) = Some True"
proof (induction ls arbitrary: i)
  case (Cons l ls)
  have next_line: "drop (c1 + (i + length l + 1)) z1 = joined ls @ r" "drop (c2 + (i + length l + 1)) z2 = joined ls @ s"
  proof -
    have "drop (c1 + (i + length l + 1)) z1 = drop (length l + 1) (drop (c1 + i) z1)" by (simp add: add.commute add.left_commute)
    then show "drop (c1 + (i + length l + 1)) z1 = joined ls @ r" using Cons.prems(3) by simp
    have "drop (c2 + (i + length l + 1)) z2 = drop (length l + 1) (drop (c2 + i) z2)" by (simp add: add.commute add.left_commute)
    then show "drop (c2 + (i + length l + 1)) z2 = joined ls @ s" using Cons.prems(4) by simp
  qed
  with Cons.IH [of "i + length l + 1"] Cons.prems same_lines_line [of l c1 i z1 "joined ls @ r" c2 z2 "joined ls @ s" "int (length (l # ls))"]
  show ?case by (cases "ls = []") simp_all
qed simp

text \<open>The same edit in both texts.\<close>

lemma merge_step_both:
  assumes "merging limit1 limit2 m P A ((0, d, n) # ts) B ((0, d, n) # us)"
    and "sameEdit (aC1 m) (i1 m) (aC2 m) (i2 m) (pV1 m) (pV2 m) = Some True"
  obtains m' where "merge_step limit1 limit2 m = Some m'" and "merging limit1 limit2 m' (drop d P) (drop n A) ts (drop n B) us"
    and "pOut m' = pOut m @ joined (take n A)" and "nConflict m' = nConflict m" and "n \<le> length A" and "n \<le> length B"
proof -
  note inv = assms(1) [unfolded merging_def]
  have ed: "d \<le> length P" "n \<le> length A" "n \<le> length B" "edits ts (drop d P) (drop n A)" "edits us (drop d P) (drop n B)"
    using inv by auto
  have len: "length (take d P) = d" "length (take n A) = n" "length (take n B) = n" using ed(1-3) by simp_all
  have lo: "left_of (pPivot m) (take d P @ drop d P)" "left_of (pV1 m) (take n A @ drop n A)" "left_of (pV2 m) (take n B @ drop n B)"
    using inv by simp_all
  obtain p where p: "blob_copy_lines (pPivot m) (int d) = Some (joined (take d P), p)" "left_of p (drop d P)"
    using blob_copy_lines_ok [OF lo(1)] unfolding len .
  obtain v1 where v1: "blob_copy_lines (pV1 m) (int n) = Some (joined (take n A), v1)" "left_of v1 (drop n A)"
    using blob_copy_lines_ok [OF lo(2)] unfolding len .
  obtain v2 where v2: "blob_copy_lines (pV2 m) (int n) = Some (joined (take n B), v2)" "left_of v2 (drop n B)"
    using blob_copy_lines_ok [OF lo(3)] unfolding len .
  have sides: "side (aC1 m) (i1 m) limit1 ((0, d, n) # ts)" "side (aC2 m) (i2 m) limit2 ((0, d, n) # us)" using inv by simp_all
  let ?m = "m\<lparr>i1 := i1 m + 3, i2 := i2 m + 3, pPivot := p, pV1 := v1, pV2 := v2, pOut := pOut m @ joined (take n A)\<rparr>"
  have "merge_both m 0 (int d) (int n) = Some ?m" using p(1) v1(1) v2(1) by (simp add: merge_both_def)
  then have step: "merge_step limit1 limit2 m = do { j1 \<leftarrow> pass_finished (aC1 ?m) (i1 ?m) limit1;
      j2 \<leftarrow> pass_finished (aC2 ?m) (i2 ?m) limit2; Some (?m\<lparr>i1 := j1, i2 := j2\<rparr>) }"
    using side_at(1) [OF sides(1)] side_at(1) [OF sides(2)] assms(2) by (simp add: merge_step_def)
  have st: "side (aC1 ?m) (i1 ?m) limit1 ts" "side (aC2 ?m) (i2 ?m) limit2 us"
    "left_of (pPivot ?m) (drop d P)" "left_of (pV1 ?m) (drop n A)" "left_of (pV2 ?m) (drop n B)"
    using side_next [OF sides(1)] side_next [OF sides(2)] p(2) v1(2) v2(2) by simp_all
  have n: "normal ts" "normal us" using inv normal_tail by blast+
  then have n': "normal (pass ts)" "normal (pass us)" by simp_all
  from merge_step_end [OF step st ed(4,5) n'] obtain m' where "merge_step limit1 limit2 m = Some m'"
    "merging limit1 limit2 m' (drop d P) (drop n A) (pass ts) (drop n B) (pass us)"
    "pOut m' = pOut ?m" "nConflict m' = nConflict ?m" .
  then show ?thesis using that ed(2,3) n by simp
qed

lemma left_of_drop: "left_of b ls \<Longrightarrow> drop (iCursor b) (aData b) = joined ls"
  by (auto simp: left_of_def)

lemma sameEdit_same:
  assumes "merging limit1 limit2 m P A ((c, d, n) # ts) A ((c, d, n) # us)" and "n \<le> length A"
  shows "sameEdit (aC1 m) (i1 m) (aC2 m) (i2 m) (pV1 m) (pV2 m) = Some True"
proof -
  note inv = assms(1) [unfolded merging_def]
  have "sameLines (pV1 m) (pV2 m) (int n) = Some True"
  proof (cases "n = 0")
    case False
    have A: "plain (take n A)" "joined A = joined (take n A) @ joined (drop n A)"
    proof -
      have "plain (take n A @ drop n A)" using inv by (simp add: left_of_def)
      then show "plain (take n A)" by (simp only: plain_simps)
      show "joined A = joined (take n A) @ joined (drop n A)" by (simp flip: joined_simps(3))
    qed
    have n: "length (take n A) = n" "take n A \<noteq> []" using False assms(2) by auto
    have "drop (iCursor (pV1 m) + 0) (aData (pV1 m)) = joined A" "drop (iCursor (pV2 m) + 0) (aData (pV2 m)) = joined A"
      using inv left_of_drop by simp_all
    from same_lines_same [OF A(1) n(2) this [unfolded A(2)]] show ?thesis unfolding n(1) using False by (simp add: sameLines_def)
  qed (simp add: sameLines_def)
  moreover have "triple_at (aC1 m) (i1 m) = Some (int c, int d, int n)" "triple_at (aC2 m) (i2 m) = Some (int c, int d, int n)"
    using inv side_at(1) by blast+
  ultimately show ?thesis by (simp add: sameEdit_def)
qed

section \<open>Merging without conflicts\<close>

lemma merging_less:
  "merging limit1 limit2 m P A ts B us \<Longrightarrow> i1 m < limit1 \<longleftrightarrow> ts \<noteq> []"
  "merging limit1 limit2 m P A ts B us \<Longrightarrow> i2 m < limit2 \<longleftrightarrow> us \<noteq> []"
  unfolding merging_def using side_less by blast+

definition finishes :: "nat \<Rightarrow> nat \<Rightarrow> merge \<Rightarrow> byte list \<Rightarrow> bool" where
  "finishes limit1 limit2 m out \<longleftrightarrow> (\<exists>m'. merge_loop limit1 limit2 m = Some m' \<and> merge_rest limit1 limit2 m' = Some out \<and>
     nConflict m' = nConflict m)"

lemma finishes_step:
  assumes "merge_step limit1 limit2 m = Some m'" and "i1 m < limit1" and "i2 m < limit2" and "nConflict m' = nConflict m"
    and "finishes limit1 limit2 m' out"
  shows "finishes limit1 limit2 m out"
  using assms merge_loop.simps [of limit1 limit2 m] by (auto simp: finishes_def)

lemma finishes_end:
  assumes "\<not> (i1 m < limit1 \<and> i2 m < limit2)" and "merge_rest limit1 limit2 m = Some out"
  shows "finishes limit1 limit2 m out"
  using assms merge_loop.simps [of limit1 limit2 m] by (auto simp: finishes_def)

lemma edits_no_source: "edits ts [] B \<Longrightarrow> normal ts \<Longrightarrow> ts = (if B = [] then [] else [(0, 0, length B)])"
proof (cases ts)
  case (Cons t r)
  assume e: "edits ts [] B" and n: "normal ts"
  obtain c d i where t: "t = (c, d, i)" by (cases t)
  with e Cons have cd: "c = 0" "d = 0" "edits r [] (drop i B)" "i \<le> length B" by auto
  then have "0 < i" using n Cons t by (auto simp: normal_def)
  moreover have "r = []"
  proof (cases r)
    case (Cons u v)
    obtain c' d' i' where "u = (c', d', i')" by (cases u)
    with cd(3) Cons n \<open>ts = t # r\<close> show ?thesis by (auto simp: normal_def)
  qed simp
  ultimately show ?thesis using cd Cons t by auto
qed auto

lemma side_rest: "side a i limit ((c, d, n) # ts) \<Longrightarrow> peek a (i + 2) = Some (int n)"
  by (auto simp: side_def peek_def nth_append)

text \<open>What is left at the end.\<close>

lemma merge_rest_second:
  assumes "merging limit1 limit2 m [] A [] B us"
  shows "merge_rest limit1 limit2 m = Some (pOut m @ joined B)"
proof -
  note inv = assms [unfolded merging_def]
  have i1: "\<not> i1 m < limit1" using inv side_less by blast
  have us: "us = (if B = [] then [] else [(0, 0, length B)])" using inv edits_no_source by blast
  show ?thesis
  proof (cases "B = []")
    case True
    with us inv side_less have "\<not> i2 m < limit2" by metis
    with i1 True show ?thesis by (simp add: merge_rest_def)
  next
    case False
    with us inv side_less have "i2 m < limit2" by (metis list.distinct(1))
    moreover have "peek (aC2 m) (i2 m + 2) = Some (int (length B))" using us inv False side_rest by metis
    moreover obtain b' where "blob_copy_lines (pV2 m) (int (length B)) = Some (joined B, b')"
      using blob_copy_lines_ok [of "pV2 m" B "[]"] inv by auto
    ultimately show ?thesis using i1 False by (simp add: merge_rest_def)
  qed
qed

lemma merge_rest_first:
  assumes "merging limit1 limit2 m [] A ts B []"
  shows "merge_rest limit1 limit2 m = Some (pOut m @ joined A)"
proof -
  note inv = assms [unfolded merging_def]
  have i2: "\<not> i2 m < limit2" using inv side_less by blast
  have ts: "ts = (if A = [] then [] else [(0, 0, length A)])" using inv edits_no_source by blast
  show ?thesis
  proof (cases "A = []")
    case True
    with ts inv side_less have "\<not> i1 m < limit1" by metis
    with i2 True show ?thesis by (simp add: merge_rest_def)
  next
    case False
    with ts inv side_less have "i1 m < limit1" by (metis list.distinct(1))
    moreover have "peek (aC1 m) (i1 m + 2) = Some (int (length A))" using ts inv False side_rest by metis
    moreover obtain b' where "blob_copy_lines (pV1 m) (int (length A)) = Some (joined A, b')"
      using blob_copy_lines_ok [of "pV1 m" A "[]"] inv by auto
    ultimately show ?thesis using i2 False by (simp add: merge_rest_def)
  qed
qed


text \<open>One text is the ancestor.\<close>

definition whole :: "byte list list \<Rightarrow> (nat \<times> nat \<times> nat) list" where
  "whole P = pass [(length P, 0, 0)]"

lemma merge_loop_second:
  "merging limit1 limit2 m P P (whole P) B us \<Longrightarrow> finishes limit1 limit2 m (pOut m @ joined B)"
proof (induction "length P + length us" arbitrary: m P B us rule: less_induct)
  case less
  note inv = less(2) [unfolded merging_def]
  show ?case
  proof (cases "P = []")
    case True
    with less(2) have "merging limit1 limit2 m [] [] [] B us" by (simp add: whole_def)
    moreover from this have "\<not> (i1 m < limit1 \<and> i2 m < limit2)" using side_less by (auto simp: merging_def)
    ultimately show ?thesis using finishes_end merge_rest_second by blast
  next
    case False
    then have w: "whole P = [(length P, 0, 0)]" by (simp add: whole_def)
    from inv False obtain c d n r where us: "us = (c, d, n) # r" by (cases us) auto
    then have fit: "c + d \<le> length P" using inv by simp
    have lim: "i1 m < limit1" "i2 m < limit2" using merging_less [OF less(2)] w us by simp_all
    show ?thesis
    proof (cases "0 < c")
      case True
      have "0 < length P" using False by simp
      from merge_step_copy [OF less(2) [unfolded w us] this True] obtain m' X P' A' B' where
        s: "merge_step limit1 limit2 m = Some m'" "P = X @ P'" "P = X @ A'" "B = X @ B'" "length X = min (length P) c"
          "merging limit1 limit2 m' P' A' (pass [(length P - min (length P) c, 0, 0)]) B' (pass ((c - min (length P) c, d, n) # r))"
          "pOut m' = pOut m @ joined X" "nConflict m' = nConflict m" .
      have mn: "min (length P) c = c" "A' = P'" "length P - c = length P'" "length P' < length P"
        using s(2,3,5) fit True by auto
      have "merging limit1 limit2 m' P' P' (whole P') B' (pass ((0, d, n) # r))"
        using s(6) unfolding mn(1,2) whole_def mn(3) by simp
      moreover have "length P' + length (pass ((0, d, n) # r)) < length P + length us" using mn(4) us by (simp add: pass_def)
      ultimately have "finishes limit1 limit2 m' (pOut m' @ joined B')" using less(1) by blast
      with finishes_step [OF s(1) lim s(8)] s(4,7) show ?thesis by simp
    next
      case c0: False
      then have c: "c = 0" by simp
      have "0 < length P" "d \<le> length P" using False fit by simp_all
      from merge_step_left [OF less(2) [unfolded w us c] this] obtain m' D P' A' I B' where
        s: "merge_step limit1 limit2 m = Some m'" "P = D @ P'" "P = D @ A'" "B = I @ B'" "length D = d" "length I = n"
          "merging limit1 limit2 m' P' A' (pass [(length P - d, 0, 0)]) B' r" "pOut m' = pOut m @ joined I" "nConflict m' = nConflict m" .
      have "A' = P'" "length P - d = length P'" "length P' \<le> length P" using s(2,3,5) by auto
      then have "merging limit1 limit2 m' P' P' (whole P') B' r" "length P' + length r < length P + length us"
        using s(7) us by (simp_all add: whole_def)
      then have "finishes limit1 limit2 m' (pOut m' @ joined B')" using less(1) by blast
      with finishes_step [OF s(1) lim s(9)] s(4,8) show ?thesis by simp
    qed
  qed
qed

lemma merge_loop_first:
  "merging limit1 limit2 m P A ts P (whole P) \<Longrightarrow> finishes limit1 limit2 m (pOut m @ joined A)"
proof (induction "length P + length ts" arbitrary: m P A ts rule: less_induct)
  case less
  note inv = less(2) [unfolded merging_def]
  show ?case
  proof (cases "P = []")
    case True
    with less(2) have "merging limit1 limit2 m [] A ts [] []" by (simp add: whole_def)
    moreover from this have "\<not> (i1 m < limit1 \<and> i2 m < limit2)" using side_less by (auto simp: merging_def)
    ultimately show ?thesis using finishes_end merge_rest_first by blast
  next
    case False
    then have w: "whole P = [(length P, 0, 0)]" by (simp add: whole_def)
    from inv False obtain c d n r where ts: "ts = (c, d, n) # r" by (cases ts) auto
    then have fit: "c + d \<le> length P" using inv by simp
    have lim: "i1 m < limit1" "i2 m < limit2" using merging_less [OF less(2)] w ts by simp_all
    show ?thesis
    proof (cases "0 < c")
      case True
      have "0 < length P" using False by simp
      from merge_step_copy [OF less(2) [unfolded w ts] True this] obtain m' X P' A' B' where
        s: "merge_step limit1 limit2 m = Some m'" "P = X @ P'" "A = X @ A'" "P = X @ B'" "length X = min c (length P)"
          "merging limit1 limit2 m' P' A' (pass ((c - min c (length P), d, n) # r)) B' (pass [(length P - min c (length P), 0, 0)])"
          "pOut m' = pOut m @ joined X" "nConflict m' = nConflict m" .
      have mn: "min c (length P) = c" "B' = P'" "length P - c = length P'" "length P' < length P"
        using s(2,4,5) fit True by auto
      have "merging limit1 limit2 m' P' A' (pass ((0, d, n) # r)) P' (whole P')"
        using s(6) unfolding mn(1,2) whole_def mn(3) by simp
      moreover have "length P' + length (pass ((0, d, n) # r)) < length P + length ts" using mn(4) ts by (simp add: pass_def)
      ultimately have "finishes limit1 limit2 m' (pOut m' @ joined A')" using less(1) by blast
      with finishes_step [OF s(1) lim s(8)] s(3,7) show ?thesis by simp
    next
      case c0: False
      then have c: "c = 0" by simp
      have "0 < length P" "d \<le> length P" using False fit by simp_all
      from merge_step_right [OF less(2) [unfolded w ts c] this] obtain m' D P' A' I B' where
        s: "merge_step limit1 limit2 m = Some m'" "P = D @ P'" "A = I @ A'" "P = D @ B'" "length D = d" "length I = n"
          "merging limit1 limit2 m' P' A' r B' (pass [(length P - d, 0, 0)])" "pOut m' = pOut m @ joined I" "nConflict m' = nConflict m" .
      have "B' = P'" "length P - d = length P'" "length P' \<le> length P" using s(2,4,5) by auto
      then have "merging limit1 limit2 m' P' A' r P' (whole P')" "length P' + length r < length P + length ts"
        using s(7) ts by (simp_all add: whole_def)
      then have "finishes limit1 limit2 m' (pOut m' @ joined A')" using less(1) by blast
      with finishes_step [OF s(1) lim s(9)] s(3,8) show ?thesis by simp
    qed
  qed
qed

text \<open>Both texts are the same.\<close>

lemma merge_loop_same:
  "merging limit1 limit2 m P A ts A ts \<Longrightarrow> finishes limit1 limit2 m (pOut m @ joined A)"
proof (induction "length P + length ts" arbitrary: m P A ts rule: less_induct)
  case less
  note inv = less(2) [unfolded merging_def]
  show ?case
  proof (cases ts)
    case Nil
    then have "A = []" "P = []" using inv by simp_all
    moreover have "\<not> (i1 m < limit1 \<and> i2 m < limit2)" using inv Nil side_less by blast
    ultimately show ?thesis using finishes_end merge_rest_second less(2) Nil by blast
  next
    case (Cons t r)
    obtain c d n where ts: "ts = (c, d, n) # r" using Cons by (cases t) blast
    have lim: "i1 m < limit1" "i2 m < limit2" using merging_less [OF less(2)] ts by simp_all
    show ?thesis
    proof (cases "0 < c")
      case True
      from merge_step_copy [OF less(2) [unfolded ts] True True] obtain m' X P' A' B' where
        s: "merge_step limit1 limit2 m = Some m'" "P = X @ P'" "A = X @ A'" "A = X @ B'" "length X = min c c"
          "merging limit1 limit2 m' P' A' (pass ((c - min c c, d, n) # r)) B' (pass ((c - min c c, d, n) # r))"
          "pOut m' = pOut m @ joined X" "nConflict m' = nConflict m" .
      have "B' = A'" "length P' < length P" using s(2-5) True by auto
      moreover from this have "length P' + length (pass ((c - min c c, d, n) # r)) < length P + length ts"
        using ts by (simp add: pass_def)
      ultimately have "finishes limit1 limit2 m' (pOut m' @ joined A')" using less(1) s(6) by blast
      with finishes_step [OF s(1) lim s(8)] s(3,7) show ?thesis by simp
    next
      case False
      then have c: "c = 0" by simp
      have "n \<le> length A" using inv ts by simp
      from merge_step_both [OF less(2) [unfolded ts c] sameEdit_same [OF less(2) [unfolded ts c] this]] obtain m' where
        s: "merge_step limit1 limit2 m = Some m'" "merging limit1 limit2 m' (drop d P) (drop n A) r (drop n A) r"
          "pOut m' = pOut m @ joined (take n A)" "nConflict m' = nConflict m" .
      have "length (drop d P) + length r < length P + length ts" using ts by simp
      then have "finishes limit1 limit2 m' (pOut m' @ joined (drop n A))" using less(1) s(2) by blast
      moreover have "joined A = joined (take n A) @ joined (drop n A)" by (simp flip: joined_simps(3))
      ultimately show ?thesis using finishes_step [OF s(1) lim s(4)] s(3) by simp
    qed
  qed
qed

section \<open>Conflicts\<close>

text \<open>Whether \<open>sz\<close> lines of the ancestor end in a copy.\<close>

fun ends_copy :: "(nat \<times> nat \<times> nat) list \<Rightarrow> nat \<Rightarrow> bool" where
  "ends_copy [] sz \<longleftrightarrow> True"
| "ends_copy ((c, d, n) # ts) sz \<longleftrightarrow> sz \<le> c \<or> d \<le> sz - c \<and> ends_copy ts (sz - c - d)"

lemma ends_copy_0 [simp]: "ends_copy ts 0"
  by (cases ts) auto

lemma ends_at_CPY_ok:
  "side a i limit ts \<Longrightarrow> normal ts \<Longrightarrow> ends_at_CPY a i (int sz) = Some (ends_copy ts sz)"
proof (induction ts arbitrary: i sz)
  case Nil
  then show ?case by (simp add: ends_at_CPY.simps [of a i "int sz"] side_at(2))
next
  case (Cons t ts)
  obtain c d n where t: "t = (c, d, n)" by (cases t)
  have nz: "0 < int c \<or> 0 < int d \<or> 0 < int n" using Cons.prems(2) t by (auto simp: normal_def)
  note un = ends_at_CPY.simps [of a i "int sz"]
  consider (none) "sz = 0" | (copy) "0 < sz" "sz \<le> c" | (delete) "c < sz" "sz - c < d" | (go) "c < sz" "d \<le> sz - c" by linarith
  then show ?case
  proof cases
    case go
    have e1: "int sz - int c - int d = int (sz - c - d)" and "\<not> int sz - int c < int d" using go by linarith+
    then have e2: "ends_at_CPY a i (int sz) = ends_at_CPY a (i + 3) (int sz - int c - int d)"
      using go nz side_at(1) [OF Cons.prems(1) [unfolded t]] by (simp add: un)
    have "ends_at_CPY a i (int sz) = Some (ends_copy ts (sz - c - d))"
      unfolding e2 e1 by (rule Cons.IH [OF side_next [OF Cons.prems(1)] normal_tail [OF Cons.prems(2)]])
    then show ?thesis using go t by simp
  qed (use nz side_at(1) [OF Cons.prems(1) [unfolded t]] t in \<open>auto simp: un ends_at_CPY.simps [of a i 0]\<close>)
qed

lemma ends_copy_all: "edits ts P A \<Longrightarrow> length P < sz \<Longrightarrow> ends_copy ts sz"
proof (induction ts P A arbitrary: sz rule: edits.induct)
  case (2 c d i ts A B)
  from 2(2) have "c + d \<le> length A" "edits ts (drop (c + d) A) (drop (c + i) B)" by simp_all
  with 2(1) [of "sz - c - d"] 2(3) show ?case by simp
qed simp

lemma conflict_size_ok:
  assumes "side a1 j1 limit1 ts" and "side a2 j2 limit2 us" and "normal ts" and "normal us"
    and "edits ts P A" and "edits us P B"
  shows "sz \<le> length P + 1 \<Longrightarrow> \<exists>s. conflict_size a1 j1 a2 j2 (int sz) = Some (int s) \<and> sz \<le> s \<and> ends_copy ts s \<and> ends_copy us s"
proof (induction "length P + 1 - sz" arbitrary: sz rule: less_induct)
  case less
  note un = conflict_size.simps [of a1 j1 a2 j2 "int sz"]
  show ?case
  proof (cases "ends_copy ts sz \<and> ends_copy us sz")
    case True
    then show ?thesis using ends_at_CPY_ok [OF assms(1,3)] ends_at_CPY_ok [OF assms(2,4)] by (auto simp: un)
  next
    case False
    have "\<not> length P < sz" using False ends_copy_all assms(5,6) by blast
    then have "length P + 1 - (sz + 1) < length P + 1 - sz" "sz + 1 \<le> length P + 1" by linarith+
    from less(1) [OF this] obtain s where s: "conflict_size a1 j1 a2 j2 (int (sz + 1)) = Some (int s)" "sz + 1 \<le> s"
      "ends_copy ts s" "ends_copy us s" by blast
    have "conflict_size a1 j1 a2 j2 (int sz) = conflict_size a1 j1 a2 j2 (int (sz + 1))"
      using False ends_at_CPY_ok [OF assms(1,3), of sz] ends_at_CPY_ok [OF assms(2,4), of sz] by (auto simp: un add.commute)
    with s show ?thesis by auto
  qed
qed

lemma output_one_side_ok:
  "side a i limit ts \<Longrightarrow> normal ts \<Longrightarrow> edits ts P A \<Longrightarrow> left_of b A \<Longrightarrow> ends_copy ts sz \<Longrightarrow>
    \<exists>out' b' a' i' ts' A'. output_one_side out b a i (int sz) = Some (out', b', a', i') \<and> side a' i' limit ts' \<and>
      normal (pass ts') \<and> edits ts' (drop sz P) A' \<and> left_of b' A' \<and> length ts' \<le> length ts \<and> (length P < sz \<longrightarrow> ts' = [])"
proof (induction ts arbitrary: out i P A b sz)
  case Nil
  have "output_one_side out b a i (int sz) = Some (out, b, a, i)"
    using Nil(1) by (simp add: output_one_side.simps [of out b a i "int sz"] side_at(2))
  with Nil show ?case
    by - (rule exI [of _ out], rule exI [of _ b], rule exI [of _ a], rule exI [of _ i], rule exI [of _ "[]"], rule exI [of _ A], simp)
next
  case (Cons t ts)
  obtain c d n where t: "t = (c, d, n)" by (cases t)
  note un = output_one_side.simps [of out b a i "int sz"]
  note sd = Cons.prems(1) [unfolded t] and nm = Cons.prems(2) [unfolded t]
  have nz: "\<not> (int c = 0 \<and> int d = 0 \<and> int n = 0)" using nm by (auto simp: normal_def)
  have ed: "c + d \<le> length P" "c + n \<le> length A" "take c P = take c A" "edits ts (drop (c + d) P) (drop (c + n) A)"
    using Cons.prems(3) t by simp_all
  consider (none) "sz = 0" | (copy) "0 < sz" "sz \<le> c" | (go) "c < sz" "d \<le> sz - c" "ends_copy ts (sz - c - d)"
    using Cons.prems(5) t by fastforce
  then show ?case
  proof cases
    case none
    moreover have "output_one_side out b a i 0 = Some (out, b, a, i)" by (simp add: output_one_side.simps [of out b a i 0])
    ultimately show ?thesis using Cons.prems
      by - (rule exI [of _ out], rule exI [of _ b], rule exI [of _ a], rule exI [of _ i], rule exI [of _ "t # ts"],
        rule exI [of _ A], simp)
  next
    case copy
    have "left_of b (take sz A @ drop sz A)" using Cons.prems(4) by simp
    moreover have "length (take sz A) = sz" using copy ed(2) by simp
    ultimately obtain b' where b': "blob_copy_lines b (int sz) = Some (joined (take sz A), b')" "left_of b' (drop sz A)"
      using blob_copy_lines_ok by metis
    obtain a' where a': "poke a i (int (c - sz)) = Some a'" "side a' i limit ((c - sz, d, n) # ts)" using side_poke [OF sd] .
    have eq: "take sz A = take sz P" using ed(3) copy(2) by (metis min.absorb1 take_take)
    have len: "length (take sz P) = sz" using copy(2) ed(1) by simp
    have "take sz P @ drop sz A = A" unfolding eq [symmetric] by simp
    then have "edits ((c, d, n) # ts) (take sz P @ drop sz P) (take sz P @ drop sz A)" using Cons.prems(3) t by simp
    then have "edits ((c - sz, d, n) # ts) (drop sz P) (drop sz A)"
      using iffD1 [OF edits_copied, of "take sz P" c d n ts "drop sz P" "drop sz A"] copy(2) unfolding len by blast
    moreover have "output_one_side out b a i (int sz) = Some (out @ joined (take sz A), b', a', i)"
      using copy nz side_at(1) [OF sd] b'(1) a'(1) by (simp add: un of_nat_diff)
    ultimately show ?thesis using a'(2) b'(2) normal_pass [OF nm] ed(1) copy
      by (intro exI conjI; assumption?) (auto simp del: pass_simps)
  next
    case go
    have "left_of b (take c A @ drop c A)" "length (take c A) = c" using Cons.prems(4) ed(2) by simp_all
    then obtain b1 where b1: "blob_copy_lines b (int c) = Some (joined (take c A), b1)" "left_of b1 (drop c A)"
      using blob_copy_lines_ok by metis
    have "take n (drop c A) @ drop (c + n) A = drop c A"
      using append_take_drop_id [of n "drop c A"] unfolding drop_drop add.commute [of n c] .
    then have "left_of b1 (take n (drop c A) @ drop (c + n) A)" "length (take n (drop c A)) = n"
      using b1(2) ed(2) by simp_all
    then obtain b2 where b2: "blob_copy_lines b1 (int n) = Some (joined (take n (drop c A)), b2)" "left_of b2 (drop (c + n) A)"
      using blob_copy_lines_ok by metis
    let ?out = "out @ joined (take c A) @ joined (take n (drop c A))"
    have sz: "int sz - (int c + int d) = int (sz - c - d)" using go by simp
    have run: "output_one_side out b a i (int sz) = output_one_side ?out b2 a (i + 3) (int (sz - c - d))"
      using go nz side_at(1) [OF sd] b1(1) b2(1) unfolding un sz [symmetric] by auto
    have "drop (sz - c - d) (drop (c + d) P) = drop sz P" using go by (simp add: add.commute)
    moreover have "length (drop (c + d) P) < sz - c - d \<longleftrightarrow> length P < sz" using go ed(1) by auto
    ultimately show ?thesis
      using Cons.IH [OF side_next [OF sd] normal_tail [OF nm] ed(4) b2(2) go(3), of ?out] run by (fastforce intro: le_SucI)
  qed
qed


lemma same_lines_total:
  "c1 + i \<le> length z1 \<Longrightarrow> c2 + i \<le> length z2 \<Longrightarrow> \<exists>r. same_lines_loop z1 c1 z2 c2 i N = Some r"
proof (induction z1 c1 z2 c2 i N rule: same_lines_loop.induct)
  case (1 z1 c1 z2 c2 i N)
  obtain c d where cd: "rd z1 (c1 + i) = Some c" "rd z2 (c2 + i) = Some d" using rd_le [OF 1(3)] rd_le [OF 1(4)] by blast
  show ?case
  proof (cases "c = d \<and> c \<noteq> 0")
    case True
    then have "c1 + (i + 1) \<le> length z1" "c2 + (i + 1) \<le> length z2" using cd by (auto dest!: rd_nonzeroD)
    with 1(1,2) cd True show ?thesis by (auto simp: same_lines_loop.simps [of z1 c1 z2 c2 i N])
  next
    case False
    with cd show ?thesis by (auto simp: same_lines_loop.simps [of z1 c1 z2 c2 i N])
  qed
qed

lemma line_end_beyond:
  "plain ls \<Longrightarrow> cnt + int (length ls) < N \<Longrightarrow> line_end (pre @ joined ls) N (length pre) cnt = Some (length pre + length (joined ls))"
proof (induction ls arbitrary: pre cnt)
  case Nil
  then show ?case by (simp add: line_end.simps [of pre N "length pre" cnt])
next
  case (Cons l ls)
  then show ?case using Cons.IH [where pre = "pre @ l @ [c_nl]" and cnt = "cnt + 1"] line_end_line [of l pre "joined ls" N cnt]
    by (simp add: add.assoc add.commute add.left_commute)
qed

lemma blob_copy_lines_up_to:
  assumes "left_of b ls"
  shows "\<exists>bs b'. blob_copy_lines b (int sz) = Some (bs, b') \<and> left_of b' (drop sz ls)"
proof (cases "sz \<le> length ls")
  case True
  have "left_of b (take sz ls @ drop sz ls)" "length (take sz ls) = sz" using assms True by simp_all
  then show ?thesis using blob_copy_lines_ok by metis
next
  case False
  obtain pre where pre: "aData b = pre @ joined ls" "iCursor b = length pre" "plain ls" using assms by (auto simp: left_of_def)
  have "line_end (pre @ joined ls) (int sz) (length pre) 0 = Some (length pre + length (joined ls))"
    using line_end_beyond [OF pre(3), of 0 "int sz" pre] False by simp
  then have "blob_copy_lines b (int sz) = Some (joined ls, b\<lparr>iCursor := length pre + length (joined ls)\<rparr>)"
    using False pre by (simp add: blob_copy_lines_def)
  moreover have "left_of (b\<lparr>iCursor := length pre + length (joined ls)\<rparr>) (drop sz ls)"
    using False pre by (simp add: left_of_def)
  ultimately show ?thesis by blast
qed

lemma merge_step_conflict:
  assumes "merging limit1 limit2 m P A ts B us" and "ts \<noteq> []" and "us \<noteq> []"
  obtains m' P' A' ts' B' us' where "merge_conflict m = Some m'" and "side (aC1 m') (i1 m') limit1 ts'" and "side (aC2 m') (i2 m') limit2 us'"
    and "left_of (pPivot m') P'" and "left_of (pV1 m') A'" and "left_of (pV2 m') B'" and "edits ts' P' A'" and "edits us' P' B'"
    and "normal (pass ts')" and "normal (pass us')" and "nConflict m' = nConflict m + 1"
    and "length P' + length ts' + length us' < length P + length ts + length us"
proof -
  note inv = assms(1) [unfolded merging_def]
  have s: "side (aC1 m) (i1 m) limit1 ts" "side (aC2 m) (i2 m) limit2 us" "normal ts" "normal us" "edits ts P A" "edits us P B"
    "left_of (pV1 m) A" "left_of (pV2 m) B" using inv by simp_all
  obtain sz where sz: "conflict_size (aC1 m) (i1 m) (aC2 m) (i2 m) 1 = Some (int sz)" "1 \<le> sz" "ends_copy ts sz" "ends_copy us sz"
    using conflict_size_ok [OF s(1-6), of 1] by auto
  obtain out1 v1 a1 j1 ts' A' where o1: "output_one_side (pOut m @ zBegin) (pV1 m) (aC1 m) (i1 m) (int sz) = Some (out1, v1, a1, j1)"
    "side a1 j1 limit1 ts'" "normal (pass ts')" "edits ts' (drop sz P) A'" "left_of v1 A'" "length ts' \<le> length ts" "length P < sz \<longrightarrow> ts' = []"
    using output_one_side_ok [OF s(1,3,5,7) sz(3)] by blast
  have "\<exists>bs p. blob_copy_lines (pPivot m) (int sz) = Some (bs, p) \<and> left_of p (drop sz P)"
    using blob_copy_lines_up_to inv by blast
  then obtain bs p where p: "blob_copy_lines (pPivot m) (int sz) = Some (bs, p)" "left_of p (drop sz P)" by blast
  obtain out2 v2 a2 j2 us' B' where o2: "output_one_side (out1 @ zMid1 @ bs @ zMid2) (pV2 m) (aC2 m) (i2 m) (int sz) = Some (out2, v2, a2, j2)"
    "side a2 j2 limit2 us'" "normal (pass us')" "edits us' (drop sz P) B'" "left_of v2 B'" "length us' \<le> length us" "length P < sz \<longrightarrow> us' = []"
    using output_one_side_ok [OF s(2,4,6,8) sz(4)] by blast
  have less: "length (drop sz P) + length ts' + length us' < length P + length ts + length us"
  proof (cases "length P < sz")
    case True
    with o1(7) o2(7) assms(2) show ?thesis by simp
  next
    case False
    with o1(6) o2(6) sz(2) show ?thesis by simp
  qed
  show ?thesis
    by (rule that [of "\<lparr>aC1 = a1, i1 = j1, aC2 = a2, i2 = j2, pPivot = p, pV1 = v1, pV2 = v2, pOut = out2 @ zEnd,
        nConflict = nConflict m + 1\<rparr>" ts' us' "drop sz P" A' B'])
      (use sz(1) o1 o2 p less in \<open>simp_all add: merge_conflict_def\<close>)
qed


text \<open>Every step brings the merge nearer to its end.\<close>

lemma merge_step_total:
  assumes "merging limit1 limit2 m P A ts B us" and "ts \<noteq> []" and "us \<noteq> []"
  shows "\<exists>m' P' A' ts' B' us'. merge_step limit1 limit2 m = Some m' \<and> merging limit1 limit2 m' P' A' ts' B' us' \<and>
    length P' + length ts' + length us' < length P + length ts + length us \<and> nConflict m \<le> nConflict m'"
proof -
  note inv = assms(1) [unfolded merging_def]
  obtain c1 d1 n1 ts1 where ts: "ts = (c1, d1, n1) # ts1" using assms(2) by (cases ts) auto
  obtain c2 d2 n2 us1 where us: "us = (c2, d2, n2) # us1" using assms(3) by (cases us) auto
  note mg = assms(1) [unfolded ts us]
  have pl: "length (pass ((c, d, n) # r)) \<le> Suc (length r)" for c d n r by (simp add: pass_def)
  have at: "triple_at (aC1 m) (i1 m) = Some (int c1, int d1, int n1)" "triple_at (aC2 m) (i2 m) = Some (int c2, int d2, int n2)"
    using inv ts us side_at(1) by blast+
  have nz: "c2 = 0 \<Longrightarrow> 0 < d2 \<or> 0 < n2" "c1 = 0 \<Longrightarrow> 0 < d1 \<or> 0 < n1" using inv ts us by (auto simp: normal_def)
  consider (copy) "0 < c1" "0 < c2" | (left) "0 < c1" "c2 = 0" "d2 \<le> c1" | (right) "c1 = 0" "0 < c2" "d1 \<le> c2"
    | (other) "c1 = 0 \<or> c2 = 0" "\<not> (0 < c1 \<and> d2 \<le> c1)" "\<not> (0 < c2 \<and> d1 \<le> c2)" by linarith
  then show ?thesis
  proof cases
    case copy
    from merge_step_copy [OF mg copy] obtain m' X P' A' B' where
      s: "merge_step limit1 limit2 m = Some m'" "P = X @ P'" "A = X @ A'" "B = X @ B'" "length X = min c1 c2"
        "merging limit1 limit2 m' P' A' (pass ((c1 - min c1 c2, d1, n1) # ts1)) B' (pass ((c2 - min c1 c2, d2, n2) # us1))"
        "pOut m' = pOut m @ joined X" "nConflict m' = nConflict m" .
    have "length P' < length P" using s(2,5) copy by auto
    then have "length P' + length (pass ((c1 - min c1 c2, d1, n1) # ts1)) + length (pass ((c2 - min c1 c2, d2, n2) # us1)) <
        length P + length ts + length us"
      using pl [of "c1 - min c1 c2" d1 n1 ts1] pl [of "c2 - min c1 c2" d2 n2 us1] ts us by simp
    moreover have "nConflict m \<le> nConflict m'" using s(8) by simp
    ultimately show ?thesis using s(1,6) by blast
  next
    case left
    from merge_step_left [OF mg [unfolded left(2)] left(1,3)] obtain m' D P' A' I B' where
      s: "merge_step limit1 limit2 m = Some m'" "P = D @ P'" "A = D @ A'" "B = I @ B'" "length D = d2" "length I = n2"
        "merging limit1 limit2 m' P' A' (pass ((c1 - d2, d1, n1) # ts1)) B' us1" "pOut m' = pOut m @ joined I" "nConflict m' = nConflict m" .
    have "length P' + length (pass ((c1 - d2, d1, n1) # ts1)) + length us1 < length P + length ts + length us"
      using pl [of "c1 - d2" d1 n1 ts1] s(2) ts us by simp
    moreover have "nConflict m \<le> nConflict m'" using s(9) by simp
    ultimately show ?thesis using s(1,7) by blast
  next
    case right
    from merge_step_right [OF mg [unfolded right(1)] right(2,3)] obtain m' D P' A' I B' where
      s: "merge_step limit1 limit2 m = Some m'" "P = D @ P'" "A = I @ A'" "B = D @ B'" "length D = d1" "length I = n1"
        "merging limit1 limit2 m' P' A' ts1 B' (pass ((c2 - d1, d2, n2) # us1))" "pOut m' = pOut m @ joined I" "nConflict m' = nConflict m" .
    have "length P' + length ts1 + length (pass ((c2 - d1, d2, n2) # us1)) < length P + length ts + length us"
      using pl [of "c2 - d1" d2 n2 us1] s(2) ts us by simp
    moreover have "nConflict m \<le> nConflict m'" using s(9) by simp
    ultimately show ?thesis using s(1,7) by blast
  next
    case other
    have "\<exists>r. sameLines (pV1 m) (pV2 m) (int n1) = Some r"
      using same_lines_total inv unfolding sameLines_def left_of_def by (metis add.right_neutral le_add1 length_append)
    then obtain r where "sameLines (pV1 m) (pV2 m) (int n1) = Some r" by blast
    then have "sameEdit (aC1 m) (i1 m) (aC2 m) (i2 m) (pV1 m) (pV2 m) = Some (c1 = c2 \<and> d1 = d2 \<and> n1 = n2 \<and> r)"
      using at by (auto simp: sameEdit_def)
    then obtain same where same: "sameEdit (aC1 m) (i1 m) (aC2 m) (i2 m) (pV1 m) (pV2 m) = Some same"
      "same \<Longrightarrow> c1 = c2 \<and> d1 = d2 \<and> n1 = n2" by blast
    show ?thesis
    proof (cases same)
      case True
      then have eq: "c1 = 0" "c2 = 0" "d2 = d1" "n2 = n1" using same(2) other(1) by auto
      from merge_step_both [OF mg [unfolded eq] same(1) [unfolded eqTrueI [OF True]]] obtain m' where
        s: "merge_step limit1 limit2 m = Some m'" "merging limit1 limit2 m' (drop d1 P) (drop n1 A) ts1 (drop n1 B) us1"
          "pOut m' = pOut m @ joined (take n1 A)" "nConflict m' = nConflict m" .
      have "length (drop d1 P) + length ts1 + length us1 < length P + length ts + length us" using ts us by simp
      moreover have "nConflict m \<le> nConflict m'" using s(4) by simp
      ultimately show ?thesis using s(1,2) by blast
    next
      case False
      from merge_step_conflict [OF assms] obtain m1 P' A' ts' B' us' where
        c: "merge_conflict m = Some m1" and st: "side (aC1 m1) (i1 m1) limit1 ts'" "side (aC2 m1) (i2 m1) limit2 us'"
          "left_of (pPivot m1) P'" "left_of (pV1 m1) A'" "left_of (pV2 m1) B'" "edits ts' P' A'" "edits us' P' B'"
          "normal (pass ts')" "normal (pass us')" and n: "nConflict m1 = nConflict m + 1"
          "length P' + length ts' + length us' < length P + length ts + length us" .
      have "merge_step limit1 limit2 m = do { j1 \<leftarrow> pass_finished (aC1 m1) (i1 m1) limit1;
          j2 \<leftarrow> pass_finished (aC2 m1) (i2 m1) limit2; Some (m1\<lparr>i1 := j1, i2 := j2\<rparr>) }"
        using at other same(1) False c nz by (auto simp: merge_step_def)
      from merge_step_end [OF this st] obtain m' where
        m': "merge_step limit1 limit2 m = Some m'" "merging limit1 limit2 m' P' A' (pass ts') B' (pass us')"
          "pOut m' = pOut m1" "nConflict m' = nConflict m1" .
      have "length (pass ts') \<le> length ts'" "length (pass us') \<le> length us'" by (auto simp: pass_def split: list.split)
      then have "length P' + length (pass ts') + length (pass us') < length P + length ts + length us" using n(2) by linarith
      moreover have "nConflict m \<le> nConflict m'" using m'(4) n(1) by simp
      ultimately show ?thesis using m'(1,2) by blast
    qed
  qed
qed

lemma merge_loop_total:
  "merging limit1 limit2 m P A ts B us \<Longrightarrow>
    \<exists>m' out. merge_loop limit1 limit2 m = Some m' \<and> merge_rest limit1 limit2 m' = Some out \<and> nConflict m \<le> nConflict m'"
proof (induction "length P + length ts + length us" arbitrary: m P A ts B us rule: less_induct)
  case less
  note un = merge_loop.simps [of limit1 limit2 m]
  note inv = less(2) [unfolded merging_def]
  show ?case
  proof (cases "ts = [] \<or> us = []")
    case True
    then have stop: "merge_loop limit1 limit2 m = Some m" using merging_less [OF less(2)] by (auto simp: un)
    have "P = []" using True inv by auto
    with True less(2) merge_rest_first merge_rest_second have "\<exists>out. merge_rest limit1 limit2 m = Some out"
      using inv by (metis edits.simps(1))
    with stop show ?thesis by blast
  next
    case False
    then have lim: "i1 m < limit1" "i2 m < limit2" using merging_less [OF less(2)] by simp_all
    from merge_step_total [OF less(2)] False obtain m1 P' A' ts' B' us' where
      s: "merge_step limit1 limit2 m = Some m1" "merging limit1 limit2 m1 P' A' ts' B' us'"
        "length P' + length ts' + length us' < length P + length ts + length us" "nConflict m \<le> nConflict m1" by blast
    from less(1) [OF s(3,2)] s(1,4) lim show ?thesis by (fastforce simp: un)
  qed
qed


section \<open>The merge of whole texts\<close>

lemma find_limit_ok: "side a i limit ts \<Longrightarrow> normal ts \<Longrightarrow> find_limit a i = Some limit"
proof (induction ts arbitrary: i)
  case Nil
  then have "limit = i" by (auto simp: side_def)
  with Nil(1) show ?case by (simp add: find_limit.simps [of a i] side_at(2))
next
  case (Cons t ts)
  obtain c d n where t: "t = (c, d, n)" by (cases t)
  with Cons.prems(2) have "\<not> (c = 0 \<and> d = 0 \<and> n = 0)" by (auto simp: normal_def)
  moreover have "find_limit a (i + 3) = Some limit"
    using Cons.IH [OF side_next [OF Cons.prems(1)] normal_tail [OF Cons.prems(2)]] .
  ultimately show ?case using side_at(1) [OF Cons.prems(1) [unfolded t]] by (auto simp: find_limit.simps [of a i])
qed

text \<open>A text of lines that end in a newline and are not too long.\<close>

definition text_ok :: "byte list \<Rightarrow> bool" where
  "text_ok z \<longleftrightarrow> length z < 2 ^ 31 \<and> 0 \<notin> set z \<and> (z = [] \<or> last z = c_nl) \<and> list_all (\<lambda>l. length l \<le> 8188) (lines_of z)"

lemma joined_lines_of: "z = [] \<or> last z = c_nl \<Longrightarrow> joined (lines_of z) = z"
proof (induction z rule: lines_of.induct)
  case (2 c cs)
  then show ?case by (cases "lines_of cs") (auto split: if_splits)
qed simp

lemma text_ok_lines:
  assumes "text_ok z"
  shows "joined (lines_of z) = z" and "plain (lines_of z)"
proof -
  show "joined (lines_of z) = z" using assms by (simp add: text_ok_def joined_lines_of)
  show "plain (lines_of z)" using assms lines_of_bytes [of _ z] by (fastforce simp: text_ok_def plain_def list_all_iff)
qed

lemma trim_False [simp]: "map (trim False) ls = ls"
  by (induction ls) (simp_all add: trim_def)

text \<open>The merge starts where the whole edits are left.\<close>

lemma blob_merge_start:
  assumes "text_ok P" and "text_ok A" and "text_ok B"
    and "text_diff score worst P A False = Some (Some (flat ts @ [0, 0, 0]))" and "normal ts" and "edits ts (lines_of P) (lines_of A)"
    and "text_diff score worst P B False = Some (Some (flat us @ [0, 0, 0]))" and "normal us" and "edits us (lines_of P) (lines_of B)"
    and "aData p = P" and "aData v1 = A" and "aData v2 = B"
  obtains limit1 limit2 m where "merging limit1 limit2 m (lines_of P) (lines_of A) ts (lines_of B) us"
    and "pOut m = []" and "nConflict m = 0"
    and "blob_merge score worst p v1 v2 = do { m \<leftarrow> merge_loop limit1 limit2 m; out \<leftarrow> merge_rest limit1 limit2 m; Some (nConflict m, out) }"
proof -
  let ?m = "\<lparr>aC1 = flat ts @ [0, 0, 0], i1 = 0, aC2 = flat us @ [0, 0, 0], i2 = 0, pPivot = blob_rewind p,
      pV1 = blob_rewind v1, pV2 = blob_rewind v2, pOut = [], nConflict = 0\<rparr>"
  have s: "side (flat ts @ [0, 0, 0]) 0 (3 * length ts) ts" "side (flat us @ [0, 0, 0]) 0 (3 * length us) us"
    by (simp_all add: side_def)
  have l: "left_of (blob_rewind p) (lines_of P)" "left_of (blob_rewind v1) (lines_of A)" "left_of (blob_rewind v2) (lines_of B)"
    using text_ok_lines assms(1-3,10-12) by (simp_all add: left_of_def blob_rewind_def)
  show ?thesis
  proof (rule that [of "3 * length ts" "3 * length us" ?m])
    show "merging (3 * length ts) (3 * length us) ?m (lines_of P) (lines_of A) ts (lines_of B) us"
      using s l assms(5,6,8,9) by (simp add: merging_def)
    show "blob_merge score worst p v1 v2 = do { m \<leftarrow> merge_loop (3 * length ts) (3 * length us) ?m;
        out \<leftarrow> merge_rest (3 * length ts) (3 * length us) m; Some (nConflict m, out) }"
      using find_limit_ok [OF s(1) assms(5)] find_limit_ok [OF s(2) assms(8)] assms(4,7,10-12) by (simp add: blob_merge_def)
  qed simp_all
qed

text \<open>The difference stays inside of its arrays, for one when the lines of the second text are distinct.\<close>

definition differs_ok :: "(nat \<Rightarrow> nat \<Rightarrow> nat \<Rightarrow> 'v::linorder) \<Rightarrow> 'v \<Rightarrow> byte list \<Rightarrow> byte list \<Rightarrow> bool" where
  "differs_ok score worst P A \<longleftrightarrow> distinct (lines_of A) \<or> text_diff score worst P A False \<noteq> None"

lemma differs_okD: "differs_ok score worst P A \<Longrightarrow> text_ok P \<Longrightarrow> text_ok A \<Longrightarrow> text_diff score worst P A False \<noteq> None"
  using text_diff_cases [of P A, where score = score and worst = worst and ws = False]
  by (auto simp: differs_ok_def text_ok_def trim_def split: option.splits)

lemma text_diff_ok:
  assumes "text_ok P" and "text_ok A" and "text_diff score worst P A False \<noteq> None"
  obtains ts where "text_diff score worst P A False = Some (Some (flat ts @ [0, 0, 0]))" and "normal ts" and "edits ts (lines_of P) (lines_of A)"
proof -
  have n: "\<not> (\<exists>z \<in> {P, A}. 0 \<in> set z \<or> (\<exists>l \<in> set (lines_of z). 8188 < length l))"
    using assms(1,2) by (auto simp: text_ok_def list_all_iff not_less)
  obtain r where r: "text_diff score worst P A False = Some r" using assms(3) by blast
  show ?thesis
  proof (cases r)
    case None
    with r n text_diff_cases [of P A, where score = score and worst = worst and ws = False] assms(1,2) show ?thesis
      by (simp add: text_ok_def)
  next
    case (Some e)
    with r text_diff_SomeD [of score worst P A False e] assms(1,2) that show ?thesis by (auto simp: text_ok_def)
  qed
qed

lemma text_diff_self:
  assumes "text_ok P"
  shows "text_diff score worst P P False = Some (Some (flat (whole (lines_of P)) @ [0, 0, 0]))"
    and "normal (whole (lines_of P))" and "edits (whole (lines_of P)) (lines_of P) (lines_of P)"
  using text_diff_same [of P score worst False] assms by (auto simp: text_ok_def whole_def list_all_iff normal_def)

section \<open>Properties\<close>

text \<open>
  C7: Merging is right where it is plain what it has to give: when one of the two texts is still the
  ancestor the result is the other one, and when both are the same the result is that text, byte for
  byte and without a conflict. The texts must be empty or end in a newline, have no NUL byte and no line of more than 8188 bytes,
  and the difference from the ancestor must not overrun its arrays, which it does not when the lines of the
  text are distinct.
\<close>

theorem blob_merge_unchanged:
  assumes "text_ok P" and "text_ok V" and "differs_ok score worst P V"
    and "aData p = P" and "aData p' = P" and "aData v = V" and "aData v' = V"
  shows "blob_merge score worst p p' v = Some (0, V) \<and> blob_merge score worst p v p' = Some (0, V) \<and>
    blob_merge score worst p v v' = Some (0, V)"
proof (intro conjI)
  obtain ts where ts: "text_diff score worst P V False = Some (Some (flat ts @ [0, 0, 0]))" "normal ts" "edits ts (lines_of P) (lines_of V)"
    using text_diff_ok [OF assms(1,2) differs_okD [OF assms(3,1,2)]] .
  note self = text_diff_self(1) [OF assms(1), of score worst] text_diff_self(2,3) [OF assms(1)]
  have V: "joined (lines_of V) = V" using assms(2) by (rule text_ok_lines)
  obtain l1 l2 m where m: "merging l1 l2 m (lines_of P) (lines_of P) (whole (lines_of P)) (lines_of V) ts" "pOut m = []" "nConflict m = 0"
    "blob_merge score worst p p' v = do { m \<leftarrow> merge_loop l1 l2 m; out \<leftarrow> merge_rest l1 l2 m; Some (nConflict m, out) }"
    using blob_merge_start [OF assms(1,1,2) self ts assms(4,5,6)] .
  show "blob_merge score worst p p' v = Some (0, V)" using merge_loop_second [OF m(1)] m(2-4) V by (auto simp: finishes_def)
  obtain l1 l2 m where m: "merging l1 l2 m (lines_of P) (lines_of V) ts (lines_of P) (whole (lines_of P))" "pOut m = []" "nConflict m = 0"
    "blob_merge score worst p v p' = do { m \<leftarrow> merge_loop l1 l2 m; out \<leftarrow> merge_rest l1 l2 m; Some (nConflict m, out) }"
    using blob_merge_start [OF assms(1,2,1) ts self assms(4,6,5)] .
  show "blob_merge score worst p v p' = Some (0, V)" using merge_loop_first [OF m(1)] m(2-4) V by (auto simp: finishes_def)
  obtain l1 l2 m where m: "merging l1 l2 m (lines_of P) (lines_of V) ts (lines_of V) ts" "pOut m = []" "nConflict m = 0"
    "blob_merge score worst p v v' = do { m \<leftarrow> merge_loop l1 l2 m; out \<leftarrow> merge_rest l1 l2 m; Some (nConflict m, out) }"
    using blob_merge_start [OF assms(1,2,2) ts ts assms(4,6,7)] .
  show "blob_merge score worst p v v' = Some (0, V)" using merge_loop_same [OF m(1)] m(2-4) V by (auto simp: finishes_def)
qed

theorem blob_merge_unchanged_witness:
  "blob_merge (\<lambda>n s d. 20 * int n - int s - int d) (-1) \<lparr>aData = [c_a, c_nl], iCursor = 0\<rparr> \<lparr>aData = [c_a, c_nl], iCursor = 0\<rparr>
    \<lparr>aData = [c_a, c_nl, c_b, c_nl], iCursor = 0\<rparr> = Some (0, [c_a, c_nl, c_b, c_nl])"
proof -
  have "text_ok [c_a, c_nl]" "text_ok [c_a, c_nl, c_b, c_nl]" by (simp_all add: text_ok_def)
  moreover have "differs_ok (\<lambda>n s d. 20 * int n - int s - int d) (-1) [c_a, c_nl] [c_a, c_nl, c_b, c_nl]"
    by (simp add: differs_ok_def)
  ultimately show ?thesis
    using blob_merge_unchanged [of "[c_a, c_nl]" "[c_a, c_nl, c_b, c_nl]" "\<lambda>n s d. 20 * int n - int s - int d" "-1"
      "\<lparr>aData = [c_a, c_nl], iCursor = 0\<rparr>" "\<lparr>aData = [c_a, c_nl], iCursor = 0\<rparr>"
      "\<lparr>aData = [c_a, c_nl, c_b, c_nl], iCursor = 0\<rparr>" "\<lparr>aData = [c_a, c_nl, c_b, c_nl], iCursor = 0\<rparr>"] by simp
qed

text \<open>
  C8: Merging ends, for three texts that are empty or end in a newline, without a NUL byte or a line of more than 8188 bytes, when the
  two differences from the ancestor do not overrun their arrays, which they do not when the lines of both
  texts are distinct. The merge itself has no access outside of the
  texts or the arrays of edits: the arrays stay in step with the ancestor through copies, edits of one
  text, the same edit in both, and conflicts. It gives a text and a number of conflicts that is not
  negative.
\<close>

theorem blob_merge_total:
  assumes "text_ok P" and "text_ok A" and "text_ok B" and "differs_ok score worst P A"
    and "differs_ok score worst P B" and "aData p = P" and "aData a = A" and "aData b = B"
  shows "\<exists>n out. blob_merge score worst p a b = Some (n, out) \<and> 0 \<le> n"
proof -
  obtain ts where ts: "text_diff score worst P A False = Some (Some (flat ts @ [0, 0, 0]))" "normal ts" "edits ts (lines_of P) (lines_of A)"
    using text_diff_ok [OF assms(1,2) differs_okD [OF assms(4,1,2)]] .
  obtain us where us: "text_diff score worst P B False = Some (Some (flat us @ [0, 0, 0]))" "normal us" "edits us (lines_of P) (lines_of B)"
    using text_diff_ok [OF assms(1,3) differs_okD [OF assms(5,1,3)]] .
  obtain l1 l2 m where m: "merging l1 l2 m (lines_of P) (lines_of A) ts (lines_of B) us" "pOut m = []" "nConflict m = 0"
    "blob_merge score worst p a b = do { m \<leftarrow> merge_loop l1 l2 m; out \<leftarrow> merge_rest l1 l2 m; Some (nConflict m, out) }"
    using blob_merge_start [OF assms(1-3) ts us assms(6-8)] .
  from merge_loop_total [OF m(1)] m(3,4) show ?thesis by auto
qed

theorem blob_merge_total_witness:
  "\<exists>n out. blob_merge (\<lambda>n s d. 20 * int n - int s - int d) (-1) \<lparr>aData = [c_a, c_nl], iCursor = 0\<rparr>
    \<lparr>aData = [c_b, c_nl], iCursor = 0\<rparr> \<lparr>aData = [c_f, c_nl], iCursor = 0\<rparr> = Some (n, out) \<and> 0 \<le> n"
proof -
  have "text_ok [c_a, c_nl]" "text_ok [c_b, c_nl]" "text_ok [c_f, c_nl]" by (simp_all add: text_ok_def)
  moreover have "differs_ok (\<lambda>n s d. 20 * int n - int s - int d) (-1) [c_a, c_nl] [c_b, c_nl]"
    "differs_ok (\<lambda>n s d. 20 * int n - int s - int d) (-1) [c_a, c_nl] [c_f, c_nl]"
    by (simp_all add: differs_ok_def)
  ultimately show ?thesis
    using blob_merge_total [of "[c_a, c_nl]" "[c_b, c_nl]" "[c_f, c_nl]" "\<lambda>n s d. 20 * int n - int s - int d" "-1"
      "\<lparr>aData = [c_a, c_nl], iCursor = 0\<rparr>" "\<lparr>aData = [c_b, c_nl], iCursor = 0\<rparr>" "\<lparr>aData = [c_f, c_nl], iCursor = 0\<rparr>"] by simp
qed

text \<open>A conflict shows both texts around the ancestor.\<close>

lemma conflict_example:
  "blob_merge (\<lambda>n s d. 20 * int n - int s - int d) (-1) \<lparr>aData = [c_a, c_nl], iCursor = 0\<rparr>
    \<lparr>aData = [c_b, c_nl], iCursor = 0\<rparr> \<lparr>aData = [c_f, c_nl], iCursor = 0\<rparr> =
    Some (1, zBegin @ [c_b, c_nl] @ zMid1 @ [c_a, c_nl] @ zMid2 @ [c_f, c_nl] @ zEnd)"
  by code_simp

text \<open>
  Without a newline at the end of the ancestor two lines are joined: \<open>a\<close>, \<open>a\<close> and the two lines \<open>a\<close> and
  \<open>b\<close> merge to \<open>ab\<close>.
\<close>

lemma missing_newline_joins:
  "blob_merge (\<lambda>n s d. 20 * int n - int s - int d) (-1) \<lparr>aData = [c_a], iCursor = 0\<rparr>
    \<lparr>aData = [c_a], iCursor = 0\<rparr> \<lparr>aData = [c_a, c_nl, c_b], iCursor = 0\<rparr> = Some (0, [c_a, c_b])"
  by code_simp

end
