(* ===== verification/Fossil_Report.thy ===== *)
theory Fossil_Report
  imports Fossil_Diff
begin

text \<open>
  The unified report of a line difference (\<open>src/test4/diff.c\<close>): grouping the edit counts into hunks with
  lines of context, the header of a hunk and its lines; and what a report means for someone who applies
  it. \<open>None\<close> is an access outside of an array.
\<close>

section \<open>Lines\<close>

definition line_at :: "dline list \<Rightarrow> int \<Rightarrow> dline option" where
  "line_at X i = (if i < 0 then None else peek X (nat i))"

definition appendDiffLine :: "byte \<Rightarrow> dline \<Rightarrow> byte list option" where
  "appendDiffLine zPrefix pLine = do {
     t \<leftarrow> slice (dl_z pLine) 0 (unat (dl_h pLine AND 0x1fff));
     Some (zPrefix # t @ [c_nl])
   }"

text \<open>The lines from index \<open>i\<close> on.\<close>

fun show_lines :: "byte \<Rightarrow> dline list \<Rightarrow> int \<Rightarrow> nat \<Rightarrow> byte list option" where
  "show_lines zPrefix X i 0 = Some []"
| "show_lines zPrefix X i (Suc m) = do {
     d \<leftarrow> line_at X i;
     l \<leftarrow> appendDiffLine zPrefix d;
     s \<leftarrow> show_lines zPrefix X (i + 1) m;
     Some (l @ s)
   }"

text \<open>The format \<open>%d\<close>.\<close>

fun decimal :: "nat \<Rightarrow> byte list" where
  "decimal n = (if n < 10 then [of_nat (48 + n)] else decimal (n div 10) @ [of_nat (48 + n mod 10)])"

declare decimal.simps [simp del]

definition format_d :: "int \<Rightarrow> byte list" where
  "format_d i = (if i < 0 then c_minus # decimal (nat (- i)) else decimal (nat i))"

definition hunk_header :: "int \<Rightarrow> int \<Rightarrow> int \<Rightarrow> int \<Rightarrow> byte list" where
  "hunk_header a na b nb = [c_at, c_at, c_sp, c_minus] @ format_d a @ [c_comma] @ format_d na @ [c_sp, c_plus] @
     format_d b @ [c_comma] @ format_d nb @ [c_sp, c_at, c_at, c_nl]"

section \<open>Hunks\<close>

text \<open>The end of the array without the triples at its end that only copy.\<close>

function strip_copies :: "int list \<Rightarrow> nat \<Rightarrow> nat option" where
  "strip_copies R mxr = (if mxr > 2 then do {
       i \<leftarrow> peek R (mxr - 1);
       d \<leftarrow> peek R (mxr - 2);
       if i = 0 \<and> d = 0 then strip_copies R (mxr - 3) else Some mxr
     } else Some mxr)"
  by pat_completeness auto
termination
  by (relation "measure (\<lambda>(R, mxr). mxr)") auto

declare strip_copies.simps [simp del]

text \<open>The number of triples in the hunk that starts at \<open>r\<close>, beginning with \<open>nr\<close>.\<close>

function group_size :: "int list \<Rightarrow> nat \<Rightarrow> int \<Rightarrow> nat \<Rightarrow> nat option" where
  "group_size R r nContext nr = do {
     c \<leftarrow> peek R (r + nr * 3);
     if c > 0 \<and> c < to_int32 (nContext * 2) then group_size R r nContext (nr + 1) else Some nr
   }"
  by pat_completeness auto
termination
  by (relation "measure (\<lambda>(R, r, n, nr). length R - (r + nr * 3))") (auto dest: peek_SomeD)

declare group_size.simps [simp del]

text \<open>The sum of \<open>k\<close> entries that are three apart.\<close>

fun sum_at :: "int list \<Rightarrow> nat \<Rightarrow> nat \<Rightarrow> int option" where
  "sum_at R i 0 = Some 0"
| "sum_at R i (Suc k) = do {
     x \<leftarrow> peek R i;
     s \<leftarrow> sum_at R (i + 3) k;
     Some (x + s)
   }"

text \<open>The lines to skip, and the numbers of lines of the two texts that a hunk shows.\<close>

definition hunk_sizes :: "int list \<Rightarrow> nat \<Rightarrow> nat \<Rightarrow> int \<Rightarrow> (int \<times> int \<times> int) option" where
  "hunk_sizes R r nr nContext = do {
     c \<leftarrow> peek R r;
     let (n0, skip) = (if c > nContext then (nContext, c - nContext) else (c, 0));
     dels \<leftarrow> sum_at R (r + 1) nr;
     inss \<leftarrow> sum_at R (r + 2) nr;
     e \<leftarrow> peek R (r + nr * 3);
     let final = (if e > nContext then nContext else e);
     mids \<leftarrow> sum_at R (r + 3) (nr - 1);
     Some (skip, n0 + dels + final + mids, n0 + inss + final + mids)
   }"

text \<open>The changes of a hunk from its triple \<open>i\<close> on, and the next line of each text.\<close>

function show_changes :: "dcontext \<Rightarrow> nat \<Rightarrow> nat \<Rightarrow> nat \<Rightarrow> int \<Rightarrow> int \<Rightarrow> (byte list \<times> int \<times> int) option" where
  "show_changes p r nr i a b = (if i < nr then do {
       d \<leftarrow> peek (aEdit p) (r + i * 3 + 1);
       s1 \<leftarrow> show_lines c_minus (aFrom p) a (nat d);
       let a = a + d;
       n \<leftarrow> peek (aEdit p) (r + i * 3 + 2);
       s2 \<leftarrow> show_lines c_plus (aTo p) b (nat n);
       let b = b + n;
       (s3, a, b) \<leftarrow> (if i < nr - 1 then do {
           m \<leftarrow> peek (aEdit p) (r + i * 3 + 3);
           s \<leftarrow> show_lines c_sp (aTo p) b (nat m);
           Some (s, a + m, b + m)
         } else Some ([], a, b));
       (s, a, b) \<leftarrow> show_changes p r nr (i + 1) a b;
       Some (s1 @ s2 @ s3 @ s, a, b)
     } else Some ([], a, b))"
  by pat_completeness auto
termination
  by (relation "measure (\<lambda>(p, r, nr, i, a, b). nr - i)") auto

declare show_changes.simps [simp del]

lemma group_size_ge: "group_size R r n k = Some nr \<Longrightarrow> k \<le> nr"
proof (induction R r n k rule: group_size.induct)
  case (1 R r n k)
  from 1(2) obtain c where c: "peek R (r + k * 3) = Some c"
    by (subst (asm) group_size.simps) (auto split: bind_splits)
  show ?case
  proof (cases "c > 0 \<and> c < to_int32 (n * 2)")
    case True
    with 1(2) c have "group_size R r n (k + 1) = Some nr" by (subst (asm) group_size.simps) simp
    from 1(1) [OF c True this] show ?thesis by simp
  next
    case False
    with 1(2) c show ?thesis by (subst (asm) group_size.simps) auto
  qed
qed

text \<open>The hunks from triple \<open>r\<close> on; \<open>a\<close> and \<open>b\<close> are the next lines of the two texts.\<close>

function hunk_loop :: "dcontext \<Rightarrow> int \<Rightarrow> nat \<Rightarrow> nat \<Rightarrow> int \<Rightarrow> int \<Rightarrow> byte list option" where
  "hunk_loop p nContext mxr r a b = (if r < mxr then do {
       nr \<leftarrow> group_size (aEdit p) r nContext 1;
       (skip, na, nb) \<leftarrow> hunk_sizes (aEdit p) r nr nContext;
       let head = hunk_header (if na \<noteq> 0 then a + skip + 1 else 0) na (if nb \<noteq> 0 then b + skip + 1 else 0) nb;
       c \<leftarrow> peek (aEdit p) r;
       let a = a + skip;
       let b = b + skip;
       s1 \<leftarrow> show_lines c_sp (aFrom p) a (nat (c - skip));
       (s2, a, b) \<leftarrow> show_changes p r nr 0 (a + (c - skip)) (b + (c - skip));
       e \<leftarrow> peek (aEdit p) (r + nr * 3);
       s3 \<leftarrow> show_lines c_sp (aTo p) b (nat (if e > nContext then nContext else e));
       s \<leftarrow> hunk_loop p nContext mxr (r + 3 * nr) a b;
       Some (head @ s1 @ s2 @ s3 @ s)
     } else Some [])"
  by pat_completeness auto
termination
  by (relation "measure (\<lambda>(p, n, mxr, r, a, b). mxr - r)") (auto dest!: group_size_ge)

declare hunk_loop.simps [simp del]

definition contextDiff :: "dcontext \<Rightarrow> byte list \<Rightarrow> int \<Rightarrow> byte list option" where
  "contextDiff p pOut nContext = do {
     mxr \<leftarrow> strip_copies (aEdit p) (length (aEdit p));
     s \<leftarrow> hunk_loop p nContext mxr 0 0 0;
     Some (pOut @ s)
   }"

text \<open>The difference with a report.\<close>

definition text_diff_out :: "(nat \<Rightarrow> nat \<Rightarrow> nat \<Rightarrow> 'v::linorder) \<Rightarrow> 'v \<Rightarrow> byte list \<Rightarrow> byte list \<Rightarrow> byte list \<Rightarrow> int \<Rightarrow>
    bool \<Rightarrow> byte list option" where
  "text_diff_out score worst zA zB pOut nContext ignoreEolWs = do {
     a \<leftarrow> break_into_lines zA ignoreEolWs;
     b \<leftarrow> break_into_lines zB ignoreEolWs;
     case (a, b) of
       (Some (A, n), Some (B, m)) \<Rightarrow> do {
         p \<leftarrow> diff_all score worst \<lparr>aEdit = [], nEditAlloc = 0, aFrom = A, nFrom = n, aTo = B, nTo = m\<rparr>;
         contextDiff p pOut nContext
       }
     | _ \<Rightarrow> Some (pOut @ bytes_of ''cannot compute difference between binary files'' @ [c_nl])
   }"

section \<open>What a report means\<close>

datatype change = Keep "byte list" | Del "byte list" | Ins "byte list"

fun old_lines :: "change list \<Rightarrow> byte list list" where
  "old_lines [] = []"
| "old_lines (Keep l # cs) = l # old_lines cs"
| "old_lines (Del l # cs) = l # old_lines cs"
| "old_lines (Ins l # cs) = old_lines cs"

fun new_lines :: "change list \<Rightarrow> byte list list" where
  "new_lines [] = []"
| "new_lines (Keep l # cs) = l # new_lines cs"
| "new_lines (Del l # cs) = new_lines cs"
| "new_lines (Ins l # cs) = l # new_lines cs"

fun print_change :: "change \<Rightarrow> byte list" where
  "print_change (Keep l) = c_sp # l @ [c_nl]"
| "print_change (Del l) = c_minus # l @ [c_nl]"
| "print_change (Ins l) = c_plus # l @ [c_nl]"

text \<open>A hunk: the place and the number of its lines in each text, and its changes.\<close>

type_synonym hunk = "nat \<times> nat \<times> nat \<times> nat \<times> change list"

definition print_hunk :: "hunk \<Rightarrow> byte list" where
  "print_hunk = (\<lambda>(s, n, t, m, cs). hunk_header (int s) (int n) (int t) (int m) @ concat (map print_change cs))"

text \<open>
  Applying hunks to the rest \<open>A\<close> of a text behind \<open>a\<close> lines gives the rest \<open>B\<close> of a text behind \<open>b\<close>
  lines: lines are copied up to the place of the next hunk, its old lines are found there, and its new
  lines come instead.
\<close>

fun applies :: "hunk list \<Rightarrow> nat \<Rightarrow> nat \<Rightarrow> byte list list \<Rightarrow> byte list list \<Rightarrow> bool" where
  "applies [] a b A B \<longleftrightarrow> A = B"
| "applies ((s, n, t, m, cs) # hs) a b A B \<longleftrightarrow> (\<exists>k. k + n \<le> length A \<and> k + m \<le> length B \<and> take k A = take k B \<and>
     s = (if n = 0 then 0 else a + k + 1) \<and> t = (if m = 0 then 0 else b + k + 1) \<and>
     old_lines cs = take n (drop k A) \<and> new_lines cs = take m (drop k B) \<and>
     applies hs (a + k + n) (b + k + m) (drop (k + n) A) (drop (k + m) B))"

lemma lines_append [simp]:
  "old_lines (cs @ ds) = old_lines cs @ old_lines ds" "new_lines (cs @ ds) = new_lines cs @ new_lines ds"
proof -
  show "old_lines (cs @ ds) = old_lines cs @ old_lines ds" by (induction cs rule: old_lines.induct) simp_all
  show "new_lines (cs @ ds) = new_lines cs @ new_lines ds" by (induction cs rule: new_lines.induct) simp_all
qed

lemma lines_map [simp]:
  "old_lines (map Keep ls) = ls" "old_lines (map Del ls) = ls" "old_lines (map Ins ls) = []"
  "new_lines (map Keep ls) = ls" "new_lines (map Del ls) = []" "new_lines (map Ins ls) = ls"
  by (induction ls) simp_all

text \<open>The changes that a list of triples stands for.\<close>

fun changes :: "(nat \<times> nat \<times> nat) list \<Rightarrow> byte list list \<Rightarrow> byte list list \<Rightarrow> change list" where
  "changes [] A B = []"
| "changes ((c, d, i) # ts) A B = map Keep (take c B) @ map Del (take d (drop c A)) @ map Ins (take i (drop c B)) @
     changes ts (drop (c + d) A) (drop (c + i) B)"

definition olds :: "(nat \<times> nat \<times> nat) list \<Rightarrow> nat" where
  "olds ts = sum_list (map (\<lambda>(c, d, i). c + d) ts)"

definition news :: "(nat \<times> nat \<times> nat) list \<Rightarrow> nat" where
  "news ts = sum_list (map (\<lambda>(c, d, i). c + i) ts)"

lemma sums_simps [simp]: "olds [] = 0" "news [] = 0" "olds ((c, d, i) # ts) = c + d + olds ts" "news ((c, d, i) # ts) = c + i + news ts"
  by (simp_all add: olds_def news_def)

lemma changes_prefix:
  assumes "edits (ts @ us) A B"
  shows "old_lines (changes ts A B) = take (olds ts) A" and "new_lines (changes ts A B) = take (news ts) B"
    and "olds ts \<le> length A" and "news ts \<le> length B" and "edits us (drop (olds ts) A) (drop (news ts) B)"
proof -
  have "old_lines (changes ts A B) = take (olds ts) A \<and> new_lines (changes ts A B) = take (news ts) B \<and>
      olds ts \<le> length A \<and> news ts \<le> length B \<and> edits us (drop (olds ts) A) (drop (news ts) B)"
    using assms
  proof (induction ts A B rule: changes.induct)
    case (2 c d i ts A B)
    have ed: "c + d \<le> length A" "c + i \<le> length B" "take c A = take c B" "edits (ts @ us) (drop (c + d) A) (drop (c + i) B)"
      using 2(2) by simp_all
    from 2(1) [OF ed(4)] ed(1,2) have IH: "old_lines (changes ts (drop (c + d) A) (drop (c + i) B)) = take (olds ts) (drop (c + d) A)"
      "new_lines (changes ts (drop (c + d) A) (drop (c + i) B)) = take (news ts) (drop (c + i) B)"
      "c + d + olds ts \<le> length A" "c + i + news ts \<le> length B"
      "edits us (drop (c + d + olds ts) A) (drop (c + i + news ts) B)" by (auto simp: ac_simps)
    have "take (c + d + olds ts) A = take c A @ take d (drop c A) @ take (olds ts) (drop (c + d) A)"
      "take (c + i + news ts) B = take c B @ take i (drop c B) @ take (news ts) (drop (c + i) B)"
      by (simp_all only: take_add append.assoc)
    with IH ed(3) show ?case by (simp add: add.assoc)
  qed simp
  then show "old_lines (changes ts A B) = take (olds ts) A" "new_lines (changes ts A B) = take (news ts) B"
    "olds ts \<le> length A" "news ts \<le> length B" "edits us (drop (olds ts) A) (drop (news ts) B)" by simp_all
qed

lemma edits_skip: "edits ((c, d, i) # ts) A B \<Longrightarrow> k \<le> c \<Longrightarrow> edits ((c - k, d, i) # ts) (drop k A) (drop k B)"
  by (auto simp: drop_take [symmetric] take_drop)

section \<open>The report prints the hunks\<close>

lemma show_lines_eq:
  assumes "lines_ok X n" and "x + m \<le> n"
  shows "show_lines c X (int x) m = Some (concat (map (\<lambda>l. c # l @ [c_nl]) (take m (drop x (texts X n)))))"
  using assms(2)
proof (induction m arbitrary: x)
  case (Suc m)
  have x: "x < n" "n \<le> length X" "dline_ok (X ! x)" using assms(1) Suc.prems by (auto simp: lines_ok_def)
  then have "line_at X (int x) = Some (X ! x)" by (simp add: line_at_def)
  moreover have "appendDiffLine c (X ! x) = Some (c # line_text (X ! x) @ [c_nl])"
    using x(3) by (simp add: appendDiffLine_def dline_ok_def line_text_def)
  moreover have "take (Suc m) (drop x (texts X n)) = line_text (X ! x) # take m (drop (Suc x) (texts X n))"
    using x(1,2) by (subst Cons_nth_drop_Suc [symmetric]) (simp_all add: texts_def)
  moreover have "show_lines c X (int x + 1) m = Some (concat (map (\<lambda>l. c # l @ [c_nl]) (take m (drop (Suc x) (texts X n)))))"
    using Suc.IH [of "Suc x"] Suc.prems by (simp add: add.commute)
  ultimately show ?case by simp
qed simp

lemma concat_prints:
  "concat (map print_change (map Keep ls)) = concat (map (\<lambda>l. c_sp # l @ [c_nl]) ls)"
  "concat (map print_change (map Del ls)) = concat (map (\<lambda>l. c_minus # l @ [c_nl]) ls)"
  "concat (map print_change (map Ins ls)) = concat (map (\<lambda>l. c_plus # l @ [c_nl]) ls)"
  by (simp_all add: comp_def)

text \<open>The entries of an array of triples.\<close>

lemma flat_nth:
  assumes "k < length ts" and "ts ! k = (c, d, i)"
  shows "peek (flat ts @ e) (3 * k) = Some (int c)" and "peek (flat ts @ e) (3 * k + 1) = Some (int d)"
    and "peek (flat ts @ e) (3 * k + 2) = Some (int i)"
proof -
  have "flat ts = flat (take k ts) @ [int c, int d, int i] @ flat (drop (Suc k) ts)"
    using assms id_take_nth_drop [OF assms(1)] by (metis append.assoc append_Cons append_Nil flat_simps(1-3))
  moreover have "length (flat (take k ts)) = 3 * k" using assms(1) by simp
  ultimately show "peek (flat ts @ e) (3 * k) = Some (int c)" "peek (flat ts @ e) (3 * k + 1) = Some (int d)"
    "peek (flat ts @ e) (3 * k + 2) = Some (int i)" by (simp_all add: peek_def nth_append)
qed

lemma flat_end: "peek (flat ts @ [0, 0, 0]) (3 * length ts) = Some 0"
  by (simp add: peek_def nth_append)

text \<open>The changes of a hunk, behind the lines it starts with.\<close>

lemma show_changes_eq:
  assumes "lines_ok (aFrom p) nA" and "lines_ok (aTo p) nB" and "aEdit p = flat us @ [0, 0, 0]"
    and "k + nr \<le> length us" and "j < nr" and "us ! (k + j) = (c, d, i)"
    and "edits ((0, d, i) # drop (Suc (k + j)) us) (drop a (texts (aFrom p) nA)) (drop b (texts (aTo p) nB))"
    and "a \<le> nA" and "b \<le> nB"
  shows "show_changes p (3 * k) nr j (int a) (int b) =
    (let ts = (0, d, i) # take (nr - Suc j) (drop (Suc (k + j)) us) in
     Some (concat (map print_change (changes ts (drop a (texts (aFrom p) nA)) (drop b (texts (aTo p) nB)))),
       int (a + olds ts), int (b + news ts)))"
  using assms(5-9)
proof (induction "nr - j" arbitrary: j c d i a b rule: less_induct)
  case less
  let ?A = "texts (aFrom p) nA" and ?B = "texts (aTo p) nB"
  have len: "length ?A = nA" "length ?B = nB" using assms(1,2) by (auto simp: texts_def lines_ok_def)
  have kj: "k + j < length us" using assms(4) less.prems(1) by simp
  have R: "peek (aEdit p) (3 * k + j * 3 + 1) = Some (int d)" "peek (aEdit p) (3 * k + j * 3 + 2) = Some (int i)"
    using flat_nth(2,3) [OF kj less.prems(2), of "[0, 0, 0]"] by (simp_all add: assms(3) distrib_left mult.commute)
  have fit: "a + d \<le> nA" "b + i \<le> nB" using less.prems(3-5) len by auto
  have s1: "show_lines c_minus (aFrom p) (int a) d = Some (concat (map print_change (map Del (take d (drop a ?A)))))"
    unfolding concat_prints by (rule show_lines_eq [OF assms(1) fit(1)])
  have s2: "show_lines c_plus (aTo p) (int b) i = Some (concat (map print_change (map Ins (take i (drop b ?B)))))"
    unfolding concat_prints by (rule show_lines_eq [OF assms(2) fit(2)])
  show ?case
  proof (cases "Suc j = nr")
    case True
    then have "show_changes p (3 * k) nr (j + 1) x y = Some ([], x, y)" for x y by (simp add: show_changes.simps)
    moreover have "\<not> j < nr - 1" using True by simp
    ultimately show ?thesis using True R s1 s2 by (subst show_changes.simps) (simp add: Let_def)
  next
    case False
    then have j: "Suc j < nr" using less.prems(1) by simp
    then have kj': "k + Suc j < length us" using assms(4) by simp
    obtain c' d' i' where t: "us ! (k + Suc j) = (c', d', i')" by (cases "us ! (k + Suc j)")
    have R': "peek (aEdit p) (3 * k + j * 3 + 3) = Some (int c')"
      using flat_nth(1) [OF kj' t, of "[0, 0, 0]"] by (simp add: assms(3) distrib_left ac_simps)
    have us: "drop (Suc (k + j)) us = (c', d', i') # drop (Suc (k + Suc j)) us"
      using kj' t by (simp add: Cons_nth_drop_Suc [symmetric])
    have ed: "edits ((c', d', i') # drop (Suc (k + Suc j)) us) (drop (a + d) ?A) (drop (b + i) ?B)"
      using less.prems(3) unfolding us by (simp add: add.commute)
    then have fit': "a + d + c' \<le> nA" "b + i + c' \<le> nB" and common: "take c' (drop (a + d) ?A) = take c' (drop (b + i) ?B)"
      using len fit by auto
    have s3: "show_lines c_sp (aTo p) (int (b + i)) c' = Some (concat (map print_change (map Keep (take c' (drop (b + i) ?B)))))"
      unfolding concat_prints by (rule show_lines_eq [OF assms(2) fit'(2)])
    have "edits ((0, d', i') # drop (Suc (k + Suc j)) us) (drop (a + d + c') ?A) (drop (b + i + c') ?B)"
      using edits_skip [OF ed order_refl] by (simp add: ac_simps)
    from less.hyps [OF _ j t this fit'] less.prems(1)
    have IH: "show_changes p (3 * k) nr (Suc j) (int (a + d + c')) (int (b + i + c')) =
      (let ts = (0, d', i') # take (nr - Suc (Suc j)) (drop (Suc (k + Suc j)) us) in
        Some (concat (map print_change (changes ts (drop (a + d + c') ?A) (drop (b + i + c') ?B))),
          int (a + d + c' + olds ts), int (b + i + c' + news ts)))" by simp
    have "take (nr - Suc j) (drop (Suc (k + j)) us) = (c', d', i') # take (nr - Suc (Suc j)) (drop (Suc (k + Suc j)) us)"
    proof -
      have "nr - Suc j = Suc (nr - Suc (Suc j))" using j by simp
      then show ?thesis by (simp only: us take_Suc_Cons)
    qed
    moreover have "j < nr - 1" using j by simp
    ultimately show ?thesis using R R' s1 s2 s3 IH j less.prems(1)
      by (subst show_changes.simps) (simp add: Let_def ac_simps)
  qed
qed

text \<open>The triples of a hunk, and its numbers of lines.\<close>

definition copy_at :: "(nat \<times> nat \<times> nat) list \<Rightarrow> nat \<Rightarrow> nat" where
  "copy_at us k = (if k < length us then fst (us ! k) else 0)"

lemma peek_copy: "k \<le> length us \<Longrightarrow> peek (flat us @ [0, 0, 0]) (3 * k) = Some (int (copy_at us k))"
  using flat_nth(1) [of k us] flat_end [of us] by (cases "k < length us"; cases "us ! k") (auto simp: copy_at_def)

lemma group_size_eq:
  assumes "k < length us" and "1 \<le> nr" and "k + nr \<le> length us"
  shows "\<exists>nr'. group_size (flat us @ [0, 0, 0]) (3 * k) n nr = Some nr' \<and> nr \<le> nr' \<and> k + nr' \<le> length us \<and>
    \<not> (0 < copy_at us (k + nr') \<and> int (copy_at us (k + nr')) < to_int32 (n * 2))"
  using assms(2,3)
proof (induction "length us - nr" arbitrary: nr rule: less_induct)
  case less
  have c: "peek (flat us @ [0, 0, 0]) (3 * k + nr * 3) = Some (int (copy_at us (k + nr)))"
    using peek_copy [OF less.prems(2)] by (simp add: distrib_left mult.commute)
  show ?case
  proof (cases "0 < copy_at us (k + nr) \<and> int (copy_at us (k + nr)) < to_int32 (n * 2)")
    case True
    then have "k + nr < length us" by (simp add: copy_at_def split: if_splits)
    then have "length us - (nr + 1) < length us - nr" "1 \<le> nr + 1" "k + (nr + 1) \<le> length us" using less.prems by linarith+
    from less.hyps [OF this] obtain nr' where nr': "group_size (flat us @ [0, 0, 0]) (3 * k) n (nr + 1) = Some nr'"
      "nr + 1 \<le> nr'" "k + nr' \<le> length us" "\<not> (0 < copy_at us (k + nr') \<and> int (copy_at us (k + nr')) < to_int32 (n * 2))"
      by blast
    from True c nr'(1) have "group_size (flat us @ [0, 0, 0]) (3 * k) n nr = Some nr'" by (subst group_size.simps) simp
    with nr' show ?thesis by (intro exI [of _ nr']) simp
  next
    case False
    with c less.prems show ?thesis by (subst group_size.simps) auto
  qed
qed

lemma sum_at_eq:
  assumes "k + m \<le> length us"
  shows "sum_at (flat us @ [0, 0, 0]) (3 * k) m = Some (int (sum_list (map fst (take m (drop k us)))))"
    and "sum_at (flat us @ [0, 0, 0]) (3 * k + 1) m = Some (int (sum_list (map (\<lambda>(c, d, i). d) (take m (drop k us)))))"
    and "sum_at (flat us @ [0, 0, 0]) (3 * k + 2) m = Some (int (sum_list (map (\<lambda>(c, d, i). i) (take m (drop k us)))))"
proof -
  have "sum_at (flat us @ [0, 0, 0]) (3 * k) m = Some (int (sum_list (map fst (take m (drop k us))))) \<and>
      sum_at (flat us @ [0, 0, 0]) (3 * k + 1) m = Some (int (sum_list (map (\<lambda>(c, d, i). d) (take m (drop k us))))) \<and>
      sum_at (flat us @ [0, 0, 0]) (3 * k + 2) m = Some (int (sum_list (map (\<lambda>(c, d, i). i) (take m (drop k us)))))"
    using assms
  proof (induction m arbitrary: k)
    case (Suc m)
    then have k: "k < length us" by simp
    obtain c d i where t: "us ! k = (c, d, i)" by (cases "us ! k")
    have us: "drop k us = (c, d, i) # drop (Suc k) us" using k t by (simp add: Cons_nth_drop_Suc [symmetric])
    from Suc.IH [of "Suc k"] Suc.prems flat_nth [OF k t, of "[0, 0, 0]"] show ?case unfolding us by (simp add: add.commute)
  qed simp
  then show "sum_at (flat us @ [0, 0, 0]) (3 * k) m = Some (int (sum_list (map fst (take m (drop k us)))))"
    "sum_at (flat us @ [0, 0, 0]) (3 * k + 1) m = Some (int (sum_list (map (\<lambda>(c, d, i). d) (take m (drop k us)))))"
    "sum_at (flat us @ [0, 0, 0]) (3 * k + 2) m = Some (int (sum_list (map (\<lambda>(c, d, i). i) (take m (drop k us)))))" by simp_all
qed

lemma olds_sum: "olds ts = sum_list (map fst ts) + sum_list (map (\<lambda>(c, d, i). d) ts)"
  and news_sum: "news ts = sum_list (map fst ts) + sum_list (map (\<lambda>(c, d, i). i) ts)"
  by (induction ts) auto

lemma strip_copies_eq:
  "\<exists>M \<le> m. strip_copies (flat us @ e) (3 * m) = Some (3 * M) \<and> list_all (\<lambda>(c, d, i). d = 0 \<and> i = 0) (drop M (take m us))"
  if "m \<le> length us"
  using that
proof (induction m)
  case 0
  then show ?case by (simp add: strip_copies.simps)
next
  case (Suc m)
  obtain c d i where t: "us ! m = (c, d, i)" by (cases "us ! m")
  from Suc.prems have m: "m < length us" by simp
  note R = flat_nth(2,3) [OF m t, of e]
  show ?case
  proof (cases "d = 0 \<and> i = 0")
    case True
    with R have "strip_copies (flat us @ e) (3 * Suc m) = strip_copies (flat us @ e) (3 * m)"
      by (subst strip_copies.simps) simp
    with Suc.IH Suc.prems True t m show ?thesis by (auto simp: take_Suc_conv_app_nth intro: le_SucI)
  next
    case False
    with R have "strip_copies (flat us @ e) (3 * Suc m) = Some (3 * Suc m)" by (subst strip_copies.simps) auto
    with Suc.prems show ?thesis by (intro exI [of _ "Suc m"]) simp
  qed
qed

lemma copies_same: "list_all (\<lambda>(c, d, i). d = 0 \<and> i = 0) ts \<Longrightarrow> edits ts A B \<Longrightarrow> A = B"
proof (induction ts A B rule: edits.induct)
  case (2 c d i ts A B)
  then have "take c A = take c B" "drop c A = drop c B" by simp_all
  then show ?case by (metis append_take_drop_id)
qed simp

lemma changes_skip:
  "changes ((c, d, i) # ts) A B = map Keep (take c B) @ changes ((0, d, i) # ts) (drop c A) (drop c B)"
  by (simp add: add.commute)

lemma take_shorter: "take n xs = take n ys \<Longrightarrow> m \<le> n \<Longrightarrow> take m xs = take m ys"
  by (metis min.absorb1 take_take)

lemma edits_copy_at:
  assumes "edits (drop k us) A B" and "m \<le> copy_at us k"
  shows "take m A = take m B" and "m \<le> length A" and "m \<le> length B"
proof -
  have "take m A = take m B \<and> m \<le> length A \<and> m \<le> length B"
  proof (cases "k < length us")
    case True
    obtain c d i where t: "us ! k = (c, d, i)" by (cases "us ! k")
    then have "drop k us = (c, d, i) # drop (Suc k) us" using True by (simp add: Cons_nth_drop_Suc [symmetric])
    with assms True t show ?thesis by (auto simp: copy_at_def intro: take_shorter)
  qed (use assms(2) in \<open>simp add: copy_at_def\<close>)
  then show "take m A = take m B" "m \<le> length A" "m \<le> length B" by simp_all
qed

lemma hunk_loop_ok:
  assumes lines: "lines_ok (aFrom p) nA" "lines_ok (aTo p) nB" and R: "aEdit p = flat us @ [0, 0, 0]"
    and n: "n < 2 ^ 30" and M: "M \<le> length us" "list_all (\<lambda>(c, d, i). d = 0 \<and> i = 0) (drop M us)"
    and "k \<le> length us" and "edits (drop k us) (drop a (texts (aFrom p) nA)) (drop b (texts (aTo p) nB))"
    and "a \<le> nA" and "b \<le> nB"
    and "s = 0 \<or> s = min n (copy_at us k) \<and> (copy_at us k = 0 \<or> 2 * n \<le> copy_at us k)"
  shows "\<exists>hs. hunk_loop p (int n) (3 * M) (3 * k) (int a) (int b) = Some (concat (map print_hunk hs)) \<and>
    applies hs (a + s) (b + s) (drop (a + s) (texts (aFrom p) nA)) (drop (b + s) (texts (aTo p) nB))"
  using assms(7-11)
proof (induction "length us - k" arbitrary: k a b s rule: less_induct)
  case less
  let ?A = "texts (aFrom p) nA" and ?B = "texts (aTo p) nB"
  have len: "length ?A = nA" "length ?B = nB" using lines by (auto simp: texts_def lines_ok_def)
  show ?case
  proof (cases "k < M")
    case False
    have "drop k us = drop (k - M) (drop M us)" using False by simp
    then have "list_all (\<lambda>(c, d, i). d = 0 \<and> i = 0) (drop k us)" using M(2) by (metis list_all_iff in_set_dropD)
    from copies_same [OF this less.prems(2)] have "drop (a + s) ?A = drop (b + s) ?B" by (metis drop_drop add.commute)
    with False show ?thesis by (intro exI [of _ "[]"]) (simp add: hunk_loop.simps)
  next
    case True
    then have k: "k < length us" using M(1) by simp
    have n2: "to_int32 (int n * 2) = int n * 2" using n by (intro to_int32_id) simp_all
    obtain nr where nr: "group_size (aEdit p) (3 * k) (int n) 1 = Some nr" "1 \<le> nr" "k + nr \<le> length us"
        "copy_at us (k + nr) = 0 \<or> 2 * n \<le> copy_at us (k + nr)"
      using group_size_eq [OF k, of 1 "int n"] k unfolding R n2 by auto
    obtain c d i where t: "us ! k = (c, d, i)" by (cases "us ! k")
    have us: "drop k us = (c, d, i) # drop (Suc k) us" using k t by (simp add: Cons_nth_drop_Suc [symmetric])
    define skip where "skip = c - n"
    define rest where "rest = take (nr - 1) (drop (Suc k) us)"
    define e where "e = copy_at us (k + nr)"
    define f where "f = min n e"
    define blk where "blk = (c - skip, d, i) # rest"
    have rest: "take nr (drop k us) = (c, d, i) # rest" unfolding us rest_def using nr(2) by (cases nr) simp_all
    have split: "(c - skip, d, i) # drop (Suc k) us = blk @ drop (k + nr) us"
    proof -
      have "drop (Suc k) us = rest @ drop (nr - 1) (drop (Suc k) us)" unfolding rest_def by (rule append_take_drop_id [symmetric])
      also have "drop (nr - 1) (drop (Suc k) us) = drop (k + nr) us" using nr(2) by (simp add: add.commute)
      finally show ?thesis by (simp add: blk_def)
    qed
    have ed0: "edits ((c, d, i) # drop (Suc k) us) (drop a ?A) (drop b ?B)" using less.prems(2) unfolding us .
    have ed1: "edits (blk @ drop (k + nr) us) (drop (a + skip) ?A) (drop (b + skip) ?B)"
    proof -
      have "skip \<le> c" by (simp add: skip_def)
      from edits_skip [OF ed0 this] show ?thesis by (simp only: split drop_drop add.commute [of skip])
    qed
    have ed2: "edits ((0, d, i) # drop (Suc (k + 0)) us) (drop (a + c) ?A) (drop (b + c) ?B)"
      using edits_skip [OF ed0 order_refl] by (simp add: add.commute)
    define a' b' where "a' = a + skip + olds blk" and "b' = b + skip + news blk"
    note pre = changes_prefix [OF ed1]
    have ed3: "edits (drop (k + nr) us) (drop a' ?A) (drop b' ?B)" using pre(5) by (simp add: a'_def b'_def add.commute)
    have fit: "a + c \<le> nA" "b + c \<le> nB" "take c (drop a ?A) = take c (drop b ?B)" using ed0 len less.prems(3,4) by auto
    have skip: "skip \<le> c" "c - skip = min n c" by (simp_all add: skip_def)
    have fit': "a' \<le> nA" "b' \<le> nB" using pre(3,4) len fit(1,2) skip(1) by (simp_all add: a'_def b'_def)
    have fe: "f \<le> e" by (simp add: f_def)
    note com = edits_copy_at [OF ed3, of f, folded e_def, OF fe]
    have sizes: "hunk_sizes (aEdit p) (3 * k) nr (int n) = Some (int skip, int (olds blk + f), int (news blk + f))"
    proof -
      have c: "peek (aEdit p) (3 * k) = Some (int c)" "peek (aEdit p) (3 * k + nr * 3) = Some (int e)"
        using flat_nth(1) [OF k t, of "[0, 0, 0]"] peek_copy [OF nr(3)] by (simp_all add: R e_def distrib_left mult.commute)
      have "k + nr \<le> length us" "Suc k + (nr - 1) \<le> length us" using nr(2,3) by simp_all
      from sum_at_eq(2,3) [OF this(1)] sum_at_eq(1) [OF this(2)]
      have sums: "sum_at (aEdit p) (3 * k + 1) nr = Some (int (d + sum_list (map (\<lambda>(c, d, i). d) rest)))"
        "sum_at (aEdit p) (3 * k + 2) nr = Some (int (i + sum_list (map (\<lambda>(c, d, i). i) rest)))"
        "sum_at (aEdit p) (3 * k + 3) (nr - 1) = Some (int (sum_list (map fst rest)))"
        unfolding rest rest_def [symmetric] R by (simp_all add: add.commute)
      show ?thesis using c sums by (auto simp: hunk_sizes_def Let_def blk_def olds_sum news_sum skip_def f_def)
    qed
    have s1: "show_lines c_sp (aFrom p) (int (a + skip)) (c - skip) =
        Some (concat (map print_change (map Keep (take (c - skip) (drop (b + skip) ?B)))))"
    proof -
      have "take (c - skip) (drop skip (drop a ?A)) = take (c - skip) (drop skip (drop b ?B))"
        using arg_cong [OF fit(3), of "drop skip"] by (simp add: drop_take)
      moreover have "a + skip + (c - skip) \<le> nA" using fit(1) skip(1) by simp
      ultimately show ?thesis unfolding concat_prints using show_lines_eq [OF lines(1), of "a + skip" "c - skip" c_sp]
        by (simp add: add.commute)
    qed
    have s2: "show_changes p (3 * k) nr 0 (int (a + c)) (int (b + c)) =
        Some (concat (map print_change (changes ((0, d, i) # rest) (drop (a + c) ?A) (drop (b + c) ?B))), int a', int b')"
      using show_changes_eq [OF lines R nr(3) _ _ ed2 fit(1,2)] nr(2) t skip(1)
      by (simp add: Let_def rest_def a'_def b'_def blk_def)
    have s3: "show_lines c_sp (aTo p) (int b') f = Some (concat (map print_change (map Keep (take f (drop b' ?B)))))"
      unfolding concat_prints by (rule show_lines_eq [OF lines(2)]) (use com(3) fit'(2) len in simp)
    define cs where "cs = changes blk (drop (a + skip) ?A) (drop (b + skip) ?B) @ map Keep (take f (drop b' ?B))"
    have cs: "concat (map print_change cs) = concat (map print_change (map Keep (take (c - skip) (drop (b + skip) ?B)))) @
        concat (map print_change (changes ((0, d, i) # rest) (drop (a + c) ?A) (drop (b + c) ?B))) @
        concat (map print_change (map Keep (take f (drop b' ?B))))"
    proof -
      have "drop (c - skip) (drop (a + skip) ?A) = drop (a + c) ?A" "drop (c - skip) (drop (b + skip) ?B) = drop (b + c) ?B"
        using skip(1) by (simp_all add: add.commute)
      then show ?thesis unfolding cs_def blk_def changes_skip [of "c - skip"] by simp
    qed
    have "s' = f \<Longrightarrow> s' = 0 \<or> s' = min n (copy_at us (k + nr)) \<and> (copy_at us (k + nr) = 0 \<or> 2 * n \<le> copy_at us (k + nr))" for s'
      using nr(4) by (simp add: f_def e_def)
    moreover have "length us - (k + nr) < length us - k" using nr(2) k by linarith
    ultimately obtain hs where
      hs: "hunk_loop p (int n) (3 * M) (3 * (k + nr)) (int a') (int b') = Some (concat (map print_hunk hs))"
        "applies hs (a' + f) (b' + f) (drop (a' + f) ?A) (drop (b' + f) ?B)"
      using less.hyps [OF _ nr(3) ed3 fit'] by blast
    define h where "h = (if olds blk + f = 0 then 0 else a + skip + 1, olds blk + f, if news blk + f = 0 then 0 else b + skip + 1,
      news blk + f, cs)"
    have "hunk_loop p (int n) (3 * M) (3 * k) (int a) (int b) = Some (concat (map print_hunk (h # hs)))"
    proof -
      have c: "peek (aEdit p) (3 * k) = Some (int c)" "peek (aEdit p) (3 * k + nr * 3) = Some (int e)"
        using flat_nth(1) [OF k t, of "[0, 0, 0]"] peek_copy [OF nr(3)] by (simp_all add: R e_def distrib_left mult.commute)
      have z: "int a + int skip = int (a + skip)" "int b + int skip = int (b + skip)" "nat (int c - int skip) = c - skip"
        "int (a + skip) + (int c - int skip) = int (a + c)" "int (b + skip) + (int c - int skip) = int (b + c)"
        "nat (if int n < int e then int n else int e) = f" "3 * k + 3 * nr = 3 * (k + nr)"
        using skip(1) by (auto simp: f_def)
      have head: "hunk_header (if int (olds blk + f) \<noteq> 0 then int (a + skip) + 1 else 0) (int (olds blk + f))
          (if int (news blk + f) \<noteq> 0 then int (b + skip) + 1 else 0) (int (news blk + f)) @ concat (map print_change cs) = print_hunk h"
        by (auto simp: print_hunk_def h_def ac_simps)
      have lt: "3 * k < 3 * M \<longleftrightarrow> True" using True by simp
      show ?thesis
        by (subst hunk_loop.simps) (simp only: lt nr(1) sizes c Option.bind.bind_lunit z s1 s2 s3 hs(1) Let_def if_True
          prod.case head [symmetric] cs list.map concat.simps append.assoc)
    qed
    moreover have "applies (h # hs) (a + s) (b + s) (drop (a + s) ?A) (drop (b + s) ?B)"
    proof -
      have cu: "copy_at us k = c" using k t by (simp add: copy_at_def)
      have s: "s \<le> skip" using less.prems(5) unfolding cu skip_def by auto
      have "take (skip - s) (drop s (take c (drop a ?A))) = take (skip - s) (drop s (take c (drop b ?B)))" unfolding fit(3) ..
      then have same: "take (skip - s) (drop (a + s) ?A) = take (skip - s) (drop (b + s) ?B)"
        using min.absorb1 [OF diff_le_mono [OF skip(1)], of s] by (simp add: drop_take add.commute)
      have da: "drop (olds blk) (drop (a + skip) ?A) = drop a' ?A" "drop (news blk) (drop (b + skip) ?B) = drop b' ?B"
        by (simp_all add: a'_def b'_def add.commute)
      have old: "old_lines cs = take (olds blk + f) (drop (a + skip) ?A)"
        by (simp only: cs_def lines_append lines_map pre(1) take_add da com(1))
      have new: "new_lines cs = take (news blk + f) (drop (b + skip) ?B)"
        by (simp only: cs_def lines_append lines_map pre(2) take_add da)
      have n1: "skip - s + (olds blk + f) \<le> length (drop (a + s) ?A)" "skip - s + (news blk + f) \<le> length (drop (b + s) ?B)"
      proof -
        have "a + skip + olds blk + f \<le> nA" "b + skip + news blk + f \<le> nB"
          using com(2,3) fit' len unfolding a'_def b'_def by auto
        with s show "skip - s + (olds blk + f) \<le> length (drop (a + s) ?A)" "skip - s + (news blk + f) \<le> length (drop (b + s) ?B)"
          unfolding length_drop len by linarith+
      qed
      have d: "a + s + (skip - s) = a + skip" "b + s + (skip - s) = b + skip" using s by simp_all
      have d2: "drop (skip - s) (drop (a + s) ?A) = drop (a + skip) ?A" "drop (skip - s) (drop (b + s) ?B) = drop (b + skip) ?B"
        "drop (skip - s + (olds blk + f)) (drop (a + s) ?A) = drop (a' + f) ?A"
        "drop (skip - s + (news blk + f)) (drop (b + s) ?B) = drop (b' + f) ?B"
        "a + skip + (olds blk + f) = a' + f" "b + skip + (news blk + f) = b' + f"
        using s by (simp_all add: a'_def b'_def ac_simps)
      show ?thesis unfolding h_def applies.simps
        by (rule exI [of _ "skip - s"]; intro conjI) (simp_all only: d d2 n1 same old new hs(2))
    qed
    ultimately show ?thesis by blast
  qed
qed

lemma contextDiff_ok:
  assumes "lines_ok (aFrom p) nA" and "lines_ok (aTo p) nB" and "aEdit p = flat us @ [0, 0, 0]"
    and "edits us (texts (aFrom p) nA) (texts (aTo p) nB)" and "n < 2 ^ 30"
  shows "\<exists>hs. contextDiff p out (int n) = Some (out @ concat (map print_hunk hs)) \<and>
    applies hs 0 0 (texts (aFrom p) nA) (texts (aTo p) nB)"
proof -
  let ?us = "us @ [(0, 0, 0)]"
  have R: "aEdit p = flat ?us @ []" "length (aEdit p) = 3 * length ?us" using assms(3) by simp_all
  obtain M where M: "M \<le> length ?us" "strip_copies (aEdit p) (length (aEdit p)) = Some (3 * M)"
      "list_all (\<lambda>(c, d, i). d = 0 \<and> i = 0) (drop M ?us)"
    using strip_copies_eq [of "length ?us" ?us "[]"] unfolding R(1) [symmetric] R(2) by auto
  have "M \<noteq> length ?us"
  proof
    assume "M = length ?us"
    moreover have "strip_copies (aEdit p) (3 * length ?us) = strip_copies (aEdit p) (3 * length us)"
      using flat_nth(2,3) [of "length us" ?us 0 0 0 "[]"] unfolding R(1) by (subst strip_copies.simps) (simp add: nth_append)
    moreover obtain M' where "M' \<le> length us" "strip_copies (aEdit p) (3 * length us) = Some (3 * M')"
      using strip_copies_eq [of "length us" us "[0, 0, 0]"] assms(3) by auto
    ultimately show False using M(2) unfolding R(2) by simp
  qed
  then have M': "M \<le> length us" "list_all (\<lambda>(c, d, i). d = 0 \<and> i = 0) (drop M us)" using M(1,3) by simp_all
  from hunk_loop_ok [OF assms(1-3,5) M', of 0 0 0 0] assms(4) M(2) show ?thesis by (auto simp: contextDiff_def)
qed

lemma text_diff_out_ok:
  assumes "length zA < 2 ^ 31" and "length zB < 2 ^ 31" and "n < 2 ^ 30"
  shows "(case text_diff_out score worst zA zB out (int n) ws of
      None \<Rightarrow> \<not> distinct (map (trim ws) (lines_of zB))
    | Some r \<Rightarrow> (\<exists>hs. r = out @ concat (map print_hunk hs) \<and>
          applies hs 0 0 (map (trim ws) (lines_of zA)) (map (trim ws) (lines_of zB))) \<or>
        r = out @ bytes_of ''cannot compute difference between binary files'' @ [c_nl] \<and>
          (\<exists>z \<in> {zA, zB}. 0 \<in> set z \<or> (\<exists>l \<in> set (lines_of z). 8188 < length l)))"
proof -
  obtain ra where ra: "break_into_lines zA ws = Some ra" "case ra of None \<Rightarrow> 0 \<in> set zA \<or> (\<exists>l \<in> set (lines_of zA). 8191 < length l + 3)
     | Some (a, n) \<Rightarrow> 0 \<notin> set zA \<and> lines_ok a n \<and> n < 2 ^ 31 \<and> texts a n = map (trim ws) (lines_of zA)"
    using break_into_lines_ok [OF assms(1)] by blast
  obtain rb where rb: "break_into_lines zB ws = Some rb" "case rb of None \<Rightarrow> 0 \<in> set zB \<or> (\<exists>l \<in> set (lines_of zB). 8191 < length l + 3)
     | Some (a, n) \<Rightarrow> 0 \<notin> set zB \<and> lines_ok a n \<and> n < 2 ^ 31 \<and> texts a n = map (trim ws) (lines_of zB)"
    using break_into_lines_ok [OF assms(2)] by blast
  show ?thesis
  proof (cases "\<exists>a n b m. ra = Some (a, n) \<and> rb = Some (b, m)")
    case False
    then have "text_diff_out score worst zA zB out (int n) ws =
        Some (out @ bytes_of ''cannot compute difference between binary files'' @ [c_nl])"
      using ra(1) rb(1) by (auto simp: text_diff_out_def split: option.split)
    moreover have "\<exists>z \<in> {zA, zB}. 0 \<in> set z \<or> (\<exists>l \<in> set (lines_of z). 8188 < length l)"
      using False ra(2) rb(2) by (cases ra; cases rb) fastforce+
    ultimately show ?thesis by simp
  next
    case True
    then obtain a nA b nB where ab: "ra = Some (a, nA)" "rb = Some (b, nB)" by blast
    let ?p = "\<lparr>aEdit = [], nEditAlloc = 0, aFrom = a, nFrom = nA, aTo = b, nTo = nB\<rparr>"
    have eq: "text_diff_out score worst zA zB out (int n) ws = diff_all score worst ?p \<bind> (\<lambda>p. contextDiff p out (int n))"
      using ra(1) rb(1) ab by (simp add: text_diff_out_def)
    have ctx: "context_ok ?p" using ra(2) rb(2) ab by (simp add: context_ok_def)
    have t: "texts a nA = map (trim ws) (lines_of zA)" "texts b nB = map (trim ws) (lines_of zB)" using ra(2) rb(2) ab by simp_all
    show ?thesis
    proof (cases "diff_all score worst ?p")
      case None
      with diff_all_ok [OF ctx, of score worst] have "\<not> room ?p" by auto
      then show ?thesis using eq None t by (simp add: room_def)
    next
      case (Some p')
      with diff_all_ok [OF ctx, of score worst] obtain ts where ts: "same_files ?p p'" "aEdit p' = flat ts @ [0, 0, 0]"
        "edits ts (texts a nA) (texts b nB)" by auto
      have f: "aFrom p' = a" "aTo p' = b" using ts(1) by (simp_all add: same_files_def)
      have "lines_ok a nA" "lines_ok b nB" using ra(2) rb(2) ab by simp_all
      with contextDiff_ok [of p' nA nB ts n out] ts(2,3) assms(3) obtain hs where
        "contextDiff p' out (int n) = Some (out @ concat (map print_hunk hs))" "applies hs 0 0 (texts a nA) (texts b nB)"
        unfolding f by auto
      then show ?thesis using eq Some t by auto
    qed
  qed
qed

section \<open>Properties\<close>

text \<open>
  C6: The unified report of two texts is right whenever it is returned: it is the printed form of a list of hunks, and
  applying the hunks to the lines of the first text, which finds the old lines of each hunk at the place
  that its header tells, gives the lines of the second text. For a binary file it is a message. The
  report is returned when the lines of the second text are distinct. The lines are those that the difference compares: without their
  newlines, so that a missing newline at the end of a text does not show, and with white space at their ends ignored when asked for.
\<close>

theorem text_diff_out_applies:
  assumes "length zA < 2 ^ 31" and "length zB < 2 ^ 31" and "n < 2 ^ 30"
  shows "(case text_diff_out score worst zA zB out (int n) ws of
      None \<Rightarrow> \<not> distinct (map (trim ws) (lines_of zB))
    | Some r \<Rightarrow> (\<exists>hs. r = out @ concat (map print_hunk hs) \<and>
          applies hs 0 0 (map (trim ws) (lines_of zA)) (map (trim ws) (lines_of zB))) \<or>
        r = out @ bytes_of ''cannot compute difference between binary files'' @ [c_nl] \<and>
          (\<exists>z \<in> {zA, zB}. 0 \<in> set z \<or> (\<exists>l \<in> set (lines_of z). 8188 < length l)))"
  using assms by (rule text_diff_out_ok)

theorem text_diff_out_applies_witness:
  "\<exists>r hs. text_diff_out (\<lambda>n s d. 20 * int n - int s - int d) (-1) [c_a, c_nl, c_b, c_nl] [c_a, c_nl, c_f] [] 3 False = Some r \<and>
    r = concat (map print_hunk hs) \<and> applies hs 0 0 [[c_a], [c_b]] [[c_a], [c_f]]"
  using text_diff_out_applies [of "[c_a, c_nl, c_b, c_nl]" "[c_a, c_nl, c_f]" 3, where score = "\<lambda>n s d. 20 * int n - int s - int d"
    and worst = "-1" and out = "[]" and ws = False]
  by (auto simp: trim_def split: option.splits)

text \<open>The report of one line that is replaced.\<close>

lemma report_example:
  "text_diff_out (\<lambda>n s d. 20 * int n - int s - int d) (-1) [c_a, c_nl, c_b, c_nl] [c_a, c_nl, c_f] [] 3 False =
    Some (bytes_of ''@@ -1,2 +1,2 @@'' @ [c_nl, c_sp, c_a, c_nl, c_minus, c_b, c_nl, c_plus, c_f, c_nl])"
  by code_simp

text \<open>
  The last hunk shows the unchanged lines behind it up to almost twice the context, because they are
  taken into the group as a triple of their own.
\<close>

lemma trailing_context:
  "text_diff_out (\<lambda>n s d. 20 * int n - int s - int d) (-1) [c_a, c_nl, c_b] [c_f, c_nl, c_a, c_nl, c_b] [] 2 False =
      Some (bytes_of ''@@ -1,2 +1,3 @@'' @ [c_nl, c_plus, c_f, c_nl, c_sp, c_a, c_nl, c_sp, c_b, c_nl]) \<and>
   text_diff_out (\<lambda>n s d. 20 * int n - int s - int d) (-1) [c_a, c_nl, c_b, c_nl, c_g] [c_f, c_nl, c_a, c_nl, c_b, c_nl, c_g] [] 2 False =
      Some (bytes_of ''@@ -1,3 +1,4 @@'' @ [c_nl, c_plus, c_f, c_nl, c_sp, c_a, c_nl, c_sp, c_b, c_nl, c_sp, c_g, c_nl])"
  by code_simp

end
