(* ===== verification/Fossil_Annotate.thy ===== *)
theory Fossil_Annotate
  imports Fossil_Diff
begin

text \<open>
  The annotation of a file (\<open>src/test4/diff.c\<close>): every line of the file is labelled with the oldest of its
  versions, going back, that still has the line. A step takes the difference to one more ancestor.
  \<open>None\<close> is an access outside of an array.
\<close>

section \<open>Annotators\<close>

text \<open>The text, length, level and label of a line; the level and the length are of 16 bits.\<close>

record ann_line =
  al_z :: "byte list"
  al_n :: int
  al_iLevel :: int
  al_zSrc :: "byte list option"

record annotator =
  an_c :: dcontext
  aOrig :: "ann_line list"
  nOrig :: nat
  an_iLevel :: int

definition to_int16 :: "int \<Rightarrow> int" where
  "to_int16 x = signed_take_bit 15 x"

text \<open>
  The result is 1 for a binary file. The levels of the new lines are what the memory held, the argument
  \<open>junk\<close>.
\<close>

definition ann_line_of :: "(nat \<Rightarrow> int) \<Rightarrow> dline list \<Rightarrow> nat \<Rightarrow> ann_line option" where
  "ann_line_of junk a i = do {
     d \<leftarrow> peek a i;
     Some \<lparr>al_z = dl_z d, al_n = to_int16 (int (unat (dl_h d AND 0x1fff))), al_iLevel = junk i, al_zSrc = None\<rparr>
   }"

definition annotation_start :: "(nat \<Rightarrow> int) \<Rightarrow> byte list \<Rightarrow> (int \<times> annotator) option" where
  "annotation_start junk pInput = do {
     r \<leftarrow> break_into_lines pInput True;
     case r of
       None \<Rightarrow> Some (1, \<lparr>an_c = \<lparr>aEdit = [], nEditAlloc = 0, aFrom = [], nFrom = 0, aTo = [], nTo = 0\<rparr>,
         aOrig = [], nOrig = 0, an_iLevel = 0\<rparr>)
     | Some (a, n) \<Rightarrow> do {
         orig \<leftarrow> fold_opt (\<lambda>i orig. do { x \<leftarrow> ann_line_of junk a i; Some (orig @ [x]) }) [0..<n] [];
         Some (0, \<lparr>an_c = \<lparr>aEdit = [], nEditAlloc = 0, aFrom = [], nFrom = 0, aTo = a, nTo = n\<rparr>,
           aOrig = orig, nOrig = n, an_iLevel = 0\<rparr>)
       }
   }"

section \<open>One step\<close>

text \<open>The lines of one copy, from line \<open>ln\<close> on.\<close>

definition mark_line :: "int \<Rightarrow> int \<Rightarrow> byte list \<Rightarrow> ann_line \<Rightarrow> ann_line" where
  "mark_line prev this zPName x = (if al_zSrc x = None \<or> al_iLevel x = prev
     then x\<lparr>al_zSrc := Some zPName, al_iLevel := to_int16 this\<rparr> else x)"

fun mark_lines :: "int \<Rightarrow> int \<Rightarrow> byte list \<Rightarrow> ann_line list \<Rightarrow> nat \<Rightarrow> nat \<Rightarrow> ann_line list option" where
  "mark_lines prev this zPName orig ln 0 = Some orig"
| "mark_lines prev this zPName orig ln (Suc m) = do {
     x \<leftarrow> peek orig ln;
     orig \<leftarrow> poke orig ln (mark_line prev this zPName x);
     mark_lines prev this zPName orig (ln + 1) m
   }"

text \<open>The triples of the difference from index \<open>i\<close> on.\<close>

function mark_copies :: "int \<Rightarrow> int \<Rightarrow> byte list \<Rightarrow> int list \<Rightarrow> nat \<Rightarrow> nat \<Rightarrow> ann_line list \<Rightarrow> ann_line list option" where
  "mark_copies prev this zPName e i lnTo orig = (if i < length e then do {
       c \<leftarrow> peek e i;
       orig \<leftarrow> mark_lines prev this zPName orig lnTo (nat c);
       n \<leftarrow> peek e (i + 2);
       mark_copies prev this zPName e (i + 3) (lnTo + nat c + nat n) orig
     } else Some orig)"
  by pat_completeness auto
termination
  by (relation "measure (\<lambda>(prev, this, zPName, e, i, lnTo, orig). length e - i)") auto

declare mark_copies.simps [simp del]

definition annotation_step :: "(nat \<Rightarrow> nat \<Rightarrow> nat \<Rightarrow> 'v::linorder) \<Rightarrow> 'v \<Rightarrow> annotator \<Rightarrow> byte list \<Rightarrow> byte list \<Rightarrow>
    (int \<times> annotator) option" where
  "annotation_step score worst p pParent zPName = do {
     r \<leftarrow> break_into_lines pParent True;
     case r of
       None \<Rightarrow> Some (1, p\<lparr>an_c := (an_c p)\<lparr>aFrom := []\<rparr>\<rparr>)
     | Some (a, n) \<Rightarrow> do {
         c \<leftarrow> diff_all score worst ((an_c p)\<lparr>aFrom := a, nFrom := n\<rparr>);
         orig \<leftarrow> mark_copies (an_iLevel p) (an_iLevel p + 1) zPName (aEdit c) 0 0 (aOrig p);
         Some (0, p\<lparr>an_c := c\<lparr>aEdit := [], nEditAlloc := 0, aFrom := []\<rparr>, aOrig := orig, an_iLevel := an_iLevel p + 1\<rparr>)
       }
   }"

section \<open>What an annotation means\<close>

text \<open>
  The lines of the second text that a difference copies; and the history of a line: its label and
  whether the last version had it. A line goes on being labelled as long as every version has it.
\<close>

definition copied :: "(nat \<times> nat \<times> nat) list \<Rightarrow> bool list" where
  "copied ts = concat (map (\<lambda>(c, d, i). replicate c True @ replicate i False) ts)"

definition history :: "ann_line \<Rightarrow> int \<Rightarrow> byte list option \<times> bool" where
  "history x level = (al_zSrc x, al_zSrc x \<noteq> None \<and> al_iLevel x = level)"

definition next_history :: "byte list \<Rightarrow> byte list option \<times> bool \<Rightarrow> bool \<Rightarrow> byte list option \<times> bool" where
  "next_history label h found = (if found \<and> (fst h = None \<or> snd h) then (Some label, True) else (fst h, False))"

definition ann_ok :: "annotator \<Rightarrow> byte list \<Rightarrow> bool" where
  "ann_ok p z \<longleftrightarrow> break_into_lines z True = Some (Some (aTo (an_c p), nTo (an_c p))) \<and>
     lines_ok (aTo (an_c p)) (nTo (an_c p)) \<and> nTo (an_c p) < 2 ^ 31 \<and> aEdit (an_c p) = [] \<and> nEditAlloc (an_c p) = 0 \<and>
     texts (aTo (an_c p)) (nTo (an_c p)) = map (trim True) (lines_of z) \<and>
     length (aOrig p) = length (lines_of z) \<and> 0 \<le> an_iLevel p \<and>
     list_all (\<lambda>x. al_zSrc x = None \<or> al_iLevel x \<le> an_iLevel p) (aOrig p)"

lemma copied_simps [simp]: "copied [] = []" "copied ((c, d, i) # ts) = replicate c True @ replicate i False @ copied ts"
  by (simp_all add: copied_def)

lemma length_copied: "edits ts A B \<Longrightarrow> length (copied ts) = length B"
  by (induction ts A B rule: edits.induct) auto

lemma mark_lines_eq:
  "ln + m \<le> length orig \<Longrightarrow> mark_lines prev this l orig ln m =
    Some (take ln orig @ map (mark_line prev this l) (take m (drop ln orig)) @ drop (ln + m) orig)"
proof (induction m arbitrary: orig ln)
  case (Suc m)
  then have ln: "ln < length orig" by simp
  let ?x = "mark_line prev this l (orig ! ln)"
  have "take (Suc ln) (orig[ln := ?x]) = take ln orig @ [?x]" using ln by (simp add: take_Suc_conv_app_nth)
  moreover have "take (Suc m) (drop ln orig) = orig ! ln # take m (drop (Suc ln) orig)"
    using ln by (simp add: Cons_nth_drop_Suc [symmetric])
  ultimately show ?case using Suc.IH [of "Suc ln" "orig[ln := ?x]"] Suc.prems ln by simp
qed simp

text \<open>The loop marks the copied lines.\<close>

lemma mark_copies_eq:
  assumes "length (copied ts) \<le> length orig - ln" and "ln \<le> length orig" and "i = length e"
  shows "mark_copies prev this l (e @ flat ts @ [0, 0, 0]) i ln orig =
    Some (take ln orig @ map2 (\<lambda>x f. if f then mark_line prev this l x else x) (drop ln orig) (copied ts @ replicate (length orig - ln - length (copied ts)) False))"
  using assms
proof (induction ts arbitrary: orig ln i e)
  case Nil
  have "map2 (\<lambda>x f. if f then mark_line prev this l x else x) xs (replicate (length xs) False) = xs" for xs
    by (induction xs) simp_all
  from this [of "drop ln orig"] Nil show ?case
    by (subst mark_copies.simps, subst mark_copies.simps) (simp add: peek_def nth_append)
next
  case (Cons t ts)
  obtain c d n where t: "t = (c, d, n)" by (cases t)
  let ?m = "mark_line prev this l" and ?g = "\<lambda>x f. if f then mark_line prev this l x else x"
  define o1 where "o1 = take ln orig @ map ?m (take c (drop ln orig)) @ drop (ln + c) orig"
  have fit: "ln + c + n \<le> length orig" "length (copied ts) \<le> length orig - (ln + c + n)" using Cons.prems(1,2) t by auto
  have len: "length o1 = length orig" using fit by (simp add: o1_def)
  have e: "e @ flat (t # ts) @ [0, 0, 0] = (e @ [int c, int d, int n]) @ flat ts @ [0, 0, 0]" using t by simp
  have pk: "peek (e @ flat (t # ts) @ [0, 0, 0]) i = Some (int c)" "peek (e @ flat (t # ts) @ [0, 0, 0]) (i + 2) = Some (int n)"
    using t Cons.prems(3) by (simp_all add: peek_def nth_append)
  have "mark_copies prev this l (e @ flat (t # ts) @ [0, 0, 0]) i ln orig =
      mark_copies prev this l (e @ flat (t # ts) @ [0, 0, 0]) (i + 3) (ln + c + n) o1"
    using pk mark_lines_eq [of ln c orig prev this l] fit Cons.prems(3) by (subst mark_copies.simps) (simp add: o1_def)
  also have "\<dots> = Some (take (ln + c + n) o1 @ map2 ?g (drop (ln + c + n) o1)
      (copied ts @ replicate (length o1 - (ln + c + n) - length (copied ts)) False))"
    unfolding e by (rule Cons.IH) (use fit len Cons.prems(3) in simp_all)
  also have "take (ln + c + n) o1 = take ln orig @ map ?m (take c (drop ln orig)) @ take n (drop (ln + c) orig)"
    using fit by (simp add: o1_def)
  also have "drop (ln + c + n) o1 = drop (ln + c + n) orig" using fit by (simp add: o1_def add.commute add.left_commute)
  finally have chain: "mark_copies prev this l (e @ flat (t # ts) @ [0, 0, 0]) i ln orig =
      Some ((take ln orig @ map ?m (take c (drop ln orig)) @ take n (drop (ln + c) orig)) @ map2 ?g (drop (ln + c + n) orig)
        (copied ts @ replicate (length o1 - (ln + c + n) - length (copied ts)) False))" .
  have "map2 ?g (drop ln orig) (copied (t # ts) @ replicate (length orig - ln - length (copied (t # ts))) False) =
      map ?m (take c (drop ln orig)) @ take n (drop (ln + c) orig) @ map2 ?g (drop (ln + c + n) orig)
        (copied ts @ replicate (length orig - (ln + c + n) - length (copied ts)) False)"
  proof -
    define X1 X2 X3 where "X1 = take c (drop ln orig)" and "X2 = take n (drop (ln + c) orig)" and "X3 = drop (ln + c + n) orig"
    define F where "F = copied ts @ replicate (length orig - (ln + c + n) - length (copied ts)) False"
    have "drop (ln + c + n) orig = drop n (drop (ln + c) orig)" "drop (ln + c) orig = drop c (drop ln orig)"
      by (simp_all add: add.commute)
    then have X: "drop ln orig = X1 @ X2 @ X3" unfolding X1_def X2_def X3_def by (metis append_take_drop_id)
    have len: "length X1 = c" "length X2 = n" using fit by (simp_all add: X1_def X2_def)
    have F: "copied (t # ts) @ replicate (length orig - ln - length (copied (t # ts))) False = replicate c True @ replicate n False @ F"
      using t by (simp add: F_def)
    have "map2 ?g xs (replicate (length xs) True) = map ?m xs" "map2 ?g xs (replicate (length xs) False) = xs" for xs
      by (induction xs) simp_all
    from this(1) [of X1] this(2) [of X2] show ?thesis unfolding F X unfolding X1_def [symmetric] X2_def [symmetric] X3_def [symmetric] F_def [symmetric]
      using len by simp
  qed
  with chain len show ?case by simp
qed

lemma to_int16_id: "0 \<le> i \<Longrightarrow> i < 2 ^ 15 \<Longrightarrow> to_int16 i = i"
  unfolding to_int16_def by (rule signed_take_bit_int_eq_self) simp_all

lemma mark_line_history:
  assumes "0 \<le> level" and "level < 2 ^ 15 - 1" and "al_zSrc x = None \<or> al_iLevel x \<le> level"
  shows "history (if f then mark_line level (level + 1) l x else x) (level + 1) = next_history l (history x level) f"
    and "al_zSrc (if f then mark_line level (level + 1) l x else x) = None \<or>
      al_iLevel (if f then mark_line level (level + 1) l x else x) \<le> level + 1"
  using assms by (auto simp: history_def next_history_def mark_line_def to_int16_id)

lemma annotation_start_ok:
  assumes "length z < 2 ^ 31"
  shows "\<exists>r p. annotation_start junk z = Some (r, p) \<and> (if r = 0 then ann_ok p z \<and>
      map (\<lambda>x. history x (an_iLevel p)) (aOrig p) = replicate (length (lines_of z)) (None, False)
    else 0 \<in> set z \<or> (\<exists>l \<in> set (lines_of z). 8188 < length l))"
proof -
  obtain r where r: "break_into_lines z True = Some r" "case r of None \<Rightarrow> 0 \<in> set z \<or> (\<exists>l \<in> set (lines_of z). 8191 < length l + 3)
     | Some (a, n) \<Rightarrow> 0 \<notin> set z \<and> lines_ok a n \<and> n < 2 ^ 31 \<and> texts a n = map (trim True) (lines_of z)"
    using break_into_lines_ok [OF assms] by blast
  show ?thesis
  proof (cases r)
    case None
    with r(2) have "0 \<in> set z \<or> (\<exists>l \<in> set (lines_of z). 8188 < length l)" by fastforce
    with r(1) None show ?thesis by (simp add: annotation_start_def)
  next
    case (Some an)
    obtain a n where an: "an = (a, n)" by (cases an)
    have ok: "lines_ok a n" "n < 2 ^ 31" "texts a n = map (trim True) (lines_of z)" using r(2) Some an by simp_all
    then have n: "n = length (lines_of z)" "n \<le> length a" by (metis length_map length_take lines_ok_def min.absorb2 texts_def, simp add: lines_ok_def)
    define P where "P = (\<lambda>i (orig :: ann_line list). length orig = i \<and> list_all (\<lambda>x. al_zSrc x = None) orig)"
    have "\<exists>orig. fold_opt (\<lambda>i orig. do { x \<leftarrow> ann_line_of junk a i; Some (orig @ [x]) }) [0..<n] [] = Some orig \<and> P n orig"
      by (rule fold_opt_upt) (use n(2) in \<open>auto simp: P_def ann_line_of_def\<close>)
    then obtain orig where orig: "fold_opt (\<lambda>i orig. do { x \<leftarrow> ann_line_of junk a i; Some (orig @ [x]) }) [0..<n] [] = Some orig"
      "length orig = n" "list_all (\<lambda>x. al_zSrc x = None) orig" unfolding P_def by blast
    have "map (\<lambda>x. history x 0) orig = replicate n (None, False)"
      using orig(2,3) by (intro replicate_eqI) (auto simp: history_def list_all_iff)
    with r(1) Some an orig ok n(1) show ?thesis by (auto simp: annotation_start_def ann_ok_def list_all_iff)
  qed
qed

lemma annotation_step_ok:
  assumes "ann_ok p z" and "an_iLevel p < 2 ^ 15 - 1" and "length q < 2 ^ 31"
  shows "(case annotation_step score worst p q l of
      None \<Rightarrow> \<not> distinct (map (trim True) (lines_of z))
    | Some (r, p') \<Rightarrow> if r = 0 then ann_ok p' z \<and> an_iLevel p' = an_iLevel p + 1 \<and>
        (\<exists>ts. text_diff score worst q z True = Some (Some (flat ts @ [0, 0, 0])) \<and>
          edits ts (map (trim True) (lines_of q)) (map (trim True) (lines_of z)) \<and>
          map (\<lambda>x. history x (an_iLevel p')) (aOrig p') =
            map2 (next_history l) (map (\<lambda>x. history x (an_iLevel p)) (aOrig p)) (copied ts))
      else text_diff score worst q z True = Some None \<and> (0 \<in> set q \<or> (\<exists>l \<in> set (lines_of q). 8188 < length l)))"
proof -
  have zz: "break_into_lines z True = Some (Some (aTo (an_c p), nTo (an_c p)))" "nEditAlloc (an_c p) = 0"
    using assms(1) by (simp_all add: ann_ok_def)
  have p: "lines_ok (aTo (an_c p)) (nTo (an_c p))" "nTo (an_c p) < 2 ^ 31" "aEdit (an_c p) = []"
    "texts (aTo (an_c p)) (nTo (an_c p)) = map (trim True) (lines_of z)" "length (aOrig p) = length (lines_of z)" "0 \<le> an_iLevel p"
    "list_all (\<lambda>x. al_zSrc x = None \<or> al_iLevel x \<le> an_iLevel p) (aOrig p)" using assms(1) by (simp_all add: ann_ok_def)
  obtain r where r: "break_into_lines q True = Some r" "case r of None \<Rightarrow> 0 \<in> set q \<or> (\<exists>l \<in> set (lines_of q). 8191 < length l + 3)
     | Some (a, n) \<Rightarrow> 0 \<notin> set q \<and> lines_ok a n \<and> n < 2 ^ 31 \<and> texts a n = map (trim True) (lines_of q)"
    using break_into_lines_ok [OF assms(3)] by blast
  show ?thesis
  proof (cases r)
    case None
    with r(2) have "0 \<in> set q \<or> (\<exists>l \<in> set (lines_of q). 8188 < length l)" by fastforce
    with r(1) None zz show ?thesis by (simp add: annotation_step_def text_diff_def)
  next
    case (Some an)
    obtain a n where an: "an = (a, n)" by (cases an)
    have ok: "lines_ok a n" "texts a n = map (trim True) (lines_of q)" using r(2) Some an by simp_all
    let ?c = "(an_c p)\<lparr>aFrom := a, nFrom := n\<rparr>"
    have ctx: "context_ok ?c" "aEdit ?c = []" using ok(1) p(1-3) by (simp_all add: context_ok_def)
    show ?thesis
    proof (cases "diff_all score worst ?c")
      case None
      with diff_all_ok [OF ctx, of score worst] have "\<not> room ?c" by auto
      with None r(1) Some an p(4) show ?thesis by (simp add: annotation_step_def room_def)
    next
      case d: (Some c)
      with diff_all_ok [OF ctx, of score worst] obtain ts where ts: "same_files ?c c" "aEdit c = flat ts @ [0, 0, 0]"
        "edits ts (texts a n) (texts (aTo (an_c p)) (nTo (an_c p)))" by auto
      have "?c = \<lparr>aEdit = [], nEditAlloc = 0, aFrom = a, nFrom = n, aTo = aTo (an_c p), nTo = nTo (an_c p)\<rparr>"
        using p(3) zz(2) by (cases "an_c p") simp
      with r(1) Some an zz(1) d ts(2) have td: "text_diff score worst q z True = Some (Some (flat ts @ [0, 0, 0]))"
        by (simp add: text_diff_def)
      have len: "length (copied ts) = length (aOrig p)" using length_copied [OF ts(3)] p(4,5) by simp
      define orig where "orig = map2 (\<lambda>x f. if f then mark_line (an_iLevel p) (an_iLevel p + 1) l x else x) (aOrig p) (copied ts)"
      have m: "mark_copies (an_iLevel p) (an_iLevel p + 1) l (aEdit c) 0 0 (aOrig p) = Some orig"
        using mark_copies_eq [of ts "aOrig p" 0 0 "[]" "an_iLevel p" "an_iLevel p + 1" l] len by (simp add: ts(2) orig_def)
      define p' where "p' = p\<lparr>an_c := c\<lparr>aEdit := [], nEditAlloc := 0, aFrom := []\<rparr>, aOrig := orig, an_iLevel := an_iLevel p + 1\<rparr>"
      have step: "annotation_step score worst p q l = Some (0, p')" using r(1) Some an d m by (simp add: annotation_step_def p'_def)
      note mark = mark_line_history [OF p(6) assms(2)]
      have hist: "map (\<lambda>x. history x (an_iLevel p + 1)) orig = map2 (next_history l) (map (\<lambda>x. history x (an_iLevel p)) (aOrig p)) (copied ts)"
        unfolding orig_def using mark(1) p(7) len by (intro nth_equalityI) (auto simp: list_all_length simp del: mark_line_def)
      have "list_all (\<lambda>x. al_zSrc x = None \<or> al_iLevel x \<le> an_iLevel p + 1) orig"
        unfolding orig_def using mark(2) p(7) len by (auto simp: list_all_length)
      with ts(1) p(1,2,4-6) zz len have "ann_ok p' z" by (simp add: ann_ok_def p'_def same_files_def orig_def)
      with step hist ts(3) td p(4) ok(2) show ?thesis by (auto simp: p'_def)
    qed
  qed
qed

section \<open>Properties\<close>

lemma flat_inject: "flat ts = flat us \<Longrightarrow> ts = us"
proof (induction ts arbitrary: us)
  case Nil
  then show ?case by (cases us) auto
next
  case (Cons t ts)
  then show ?case by (cases us; cases t; cases "hd us") auto
qed

text \<open>
  C17: A step of the annotation is right: each line of the file that the difference of the ancestor and the file (the one that
  \<open>text_diff\<close> gives, with white space at the ends of lines ignored) copies is labelled with the ancestor when it had
  no label so far or the last version had it too; all other lines keep their labels, and the annotator stays ready for the
  next step. For a binary ancestor the step gives 1. It ends well when the lines of the file are distinct. The level of the
  annotator, the number of steps so far, must be less than 32767, as the level of a line is of 16 bits.
\<close>

theorem annotation_step_history:
  assumes "ann_ok p z" and "an_iLevel p < 2 ^ 15 - 1" and "length q < 2 ^ 31"
  shows "(case annotation_step score worst p q l of
      None \<Rightarrow> \<not> distinct (map (trim True) (lines_of z))
    | Some (r, p') \<Rightarrow> if r = 0 then ann_ok p' z \<and> an_iLevel p' = an_iLevel p + 1 \<and>
        (\<exists>ts. text_diff score worst q z True = Some (Some (flat ts @ [0, 0, 0])) \<and>
          edits ts (map (trim True) (lines_of q)) (map (trim True) (lines_of z)) \<and>
          map (\<lambda>x. history x (an_iLevel p')) (aOrig p') =
            map2 (next_history l) (map (\<lambda>x. history x (an_iLevel p)) (aOrig p)) (copied ts))
      else text_diff score worst q z True = Some None \<and> (0 \<in> set q \<or> (\<exists>l \<in> set (lines_of q). 8188 < length l)))"
  using assms by (rule annotation_step_ok)

theorem annotation_step_history_witness:
  "\<exists>p p'. annotation_start (\<lambda>i. 7) [c_a, c_nl, c_b, c_nl] = Some (0, p) \<and>
    annotation_step (\<lambda>n s d. 20 * int n - int s - int d) (-1) p [c_b, c_nl] [c_f] = Some (0, p') \<and>
    map al_zSrc (aOrig p') = [None, Some [c_f]]"
proof -
  let ?z = "[c_a, c_nl, c_b, c_nl]" and ?s = "\<lambda>n s d. 20 * int n - int s - int d"
  obtain r p where p: "annotation_start (\<lambda>i. 7) ?z = Some (r, p)" "if r = 0 then ann_ok p ?z \<and>
      map (\<lambda>x. history x (an_iLevel p)) (aOrig p) = replicate (length (lines_of ?z)) (None, False)
    else 0 \<in> set ?z \<or> (\<exists>l \<in> set (lines_of ?z). 8188 < length l)"
    using annotation_start_ok [of ?z "\<lambda>i. 7"] by auto
  then have r: "r = 0" "ann_ok p ?z" "map (\<lambda>x. history x (an_iLevel p)) (aOrig p) = [(None, False), (None, False)]"
    by (auto split: if_splits)
  have "an_iLevel p = 0" using p(1) r(1) by (auto simp: annotation_start_def split: bind_splits option.splits)
  with annotation_step_history [of p ?z "[c_b, c_nl]", OF r(2), where score = ?s and worst = "-1" and l = "[c_f]"]
  obtain p' ts where p': "annotation_step ?s (-1) p [c_b, c_nl] [c_f] = Some (0, p')"
      "text_diff ?s (-1) [c_b, c_nl] ?z True = Some (Some (flat ts @ [0, 0, 0]))"
      "map (\<lambda>x. history x (an_iLevel p')) (aOrig p') = map2 (next_history [c_f]) [(None, False), (None, False)] (copied ts)"
    using r(3) by (auto simp: trim_def fossil_isspace_def split: option.splits if_splits)
  have "text_diff ?s (-1) [c_b, c_nl] ?z True = Some (Some (flat [(0, 0, 1), (1, 0, 0)] @ [0, 0, 0]))" by code_simp
  with p'(2) have "ts = [(0, 0, 1), (1, 0, 0)]" by (intro flat_inject) simp
  with p'(3) have "map (\<lambda>x. fst (history x (an_iLevel p'))) (aOrig p') = [None, Some [c_f]]"
    by (auto simp: next_history_def map_eq_Cons_conv)
  with p(1) r(1) p'(1) show ?thesis by (auto simp: history_def)
qed

text \<open>The two lines \<open>a\<close> and \<open>b\<close> after a step to the one line \<open>b\<close>: the second one has its label.\<close>

lemma annotation_example:
  "annotation_start (\<lambda>i. 7) [c_a, c_nl, c_b, c_nl] \<bind>
    (\<lambda>(r, p). annotation_step (\<lambda>n s d. 20 * int n - int s - int d) (-1) p [c_b, c_nl] [c_f]) \<bind>
    (\<lambda>(r, p). Some (map al_zSrc (aOrig p))) = Some [None, Some [c_f]]"
  by code_simp

text \<open>The level of a line is of 16 bits: after 32767 steps it is not that of the annotator any more.\<close>

lemma level_wraps: "al_zSrc x = None \<Longrightarrow> al_iLevel (mark_line 32767 32768 l x) = -32768"
proof -
  have "to_int16 32768 = -32768" by code_simp
  then show "al_zSrc x = None \<Longrightarrow> al_iLevel (mark_line 32767 32768 l x) = -32768" by (simp add: mark_line_def)
qed

end
