(* ===== verification/Fossil_Digest.thy ===== *)
theory Fossil_Digest
  imports Prelude_C
begin

text \<open>
  What the two message digests of Fossil (\<open>src/test4/sha1.c\<close>, \<open>src/test4/md5.c\<close>) share: 32-bit words as
  bytes, splitting a message into blocks of 64 bytes, the digest in base 16, and the contract of a
  digest that takes its message piece by piece as a locale.
\<close>

section \<open>Words\<close>

definition rol :: "u32 \<Rightarrow> nat \<Rightarrow> u32" where
  "rol v n = push_bit n v OR drop_bit (32 - n) v"

text \<open>The word in the four bytes at an index of memory, as the processor reads it and the other way round.\<close>

definition le32 :: "byte list \<Rightarrow> nat \<Rightarrow> u32" where
  "le32 z i = ucast (z ! i) OR push_bit 8 (ucast (z ! (i + 1))) OR push_bit 16 (ucast (z ! (i + 2))) OR
     push_bit 24 (ucast (z ! (i + 3)))"

definition be32 :: "byte list \<Rightarrow> nat \<Rightarrow> u32" where
  "be32 z i = push_bit 24 (ucast (z ! i)) OR push_bit 16 (ucast (z ! (i + 1))) OR push_bit 8 (ucast (z ! (i + 2))) OR
     ucast (z ! (i + 3))"

definition le_words :: "byte list \<Rightarrow> u32 list" where
  "le_words z = map (\<lambda>i. le32 z (4 * i)) [0..<16]"

definition be_words :: "byte list \<Rightarrow> u32 list" where
  "be_words z = map (\<lambda>i. be32 z (4 * i)) [0..<16]"

definition be_bytes :: "u32 \<Rightarrow> byte list" where
  "be_bytes w = [ucast (drop_bit 24 w), ucast (drop_bit 16 w), ucast (drop_bit 8 w), ucast w]"

definition le_bytes :: "u32 \<Rightarrow> byte list" where
  "le_bytes w = [ucast w, ucast (drop_bit 8 w), ucast (drop_bit 16 w), ucast (drop_bit 24 w)]"

lemma length_words [simp]: "length (le_words z) = 16" "length (be_words z) = 16"
  by (simp_all add: le_words_def be_words_def)

lemma length_bytes [simp]: "length (be_bytes w) = 4" "length (le_bytes w) = 4"
  by (simp_all add: be_bytes_def le_bytes_def)

lemma words_nth: "i < 16 \<Longrightarrow> le_words z ! i = le32 z (4 * i)" "i < 16 \<Longrightarrow> be_words z ! i = be32 z (4 * i)"
  by (simp_all add: le_words_def be_words_def)

text \<open>Swapping the bytes of a word that was read the other way round.\<close>

lemma swap_bytes: "(rol (le32 z i) 24 AND 0xFF00FF00) OR (rol (le32 z i) 8 AND 0x00FF00FF) = be32 z i"
  by (rule u32_eqI; simp add: rol_def le32_def be32_def bit_and_iff bit_or_iff bit_push_bit_iff bit_drop_bit_eq
      bit_ucast_iff)

section \<open>Blocks\<close>

text \<open>All whole blocks of a message are put into a state; what is left over is shorter than a block.\<close>

function absorb :: "('s \<Rightarrow> byte list \<Rightarrow> 's) \<Rightarrow> 's \<Rightarrow> byte list \<Rightarrow> 's" where
  "absorb f s z = (if length z < 64 then s else absorb f (f s (take 64 z)) (drop 64 z))"
  by pat_completeness auto
termination
  by (relation "measure (\<lambda>(f, s, z). length z)") auto

declare absorb.simps [simp del]

definition tail :: "byte list \<Rightarrow> byte list" where
  "tail z = drop (64 * (length z div 64)) z"

lemma absorb_short [simp]: "length z < 64 \<Longrightarrow> absorb f s z = s"
  by (simp add: absorb.simps)

lemma absorb_block: "length b = 64 \<Longrightarrow> absorb f s (b @ z) = absorb f (f s b) z"
  by (subst absorb.simps) simp

lemma tail_short [simp]: "length z < 64 \<Longrightarrow> tail z = z"
  by (simp add: tail_def)

lemma length_tail [simp]: "length (tail z) = length z mod 64"
  by (simp add: tail_def minus_mult_div_eq_mod)

lemma tail_block: "length b = 64 \<Longrightarrow> tail (b @ z) = tail z"
proof -
  assume b: "length b = 64"
  have "64 * ((64 + length z) div 64) = 64 + 64 * (length z div 64)" by (simp add: div_add_self1)
  with b show ?thesis by (simp add: tail_def)
qed

lemma append_cases:
  obtains "length x < 64" | b r where "x = b @ r" "length b = 64" "length r < length x"
proof (cases "length x < 64")
  case False
  with that(2) [of "take 64 x" "drop 64 x"] show ?thesis by simp
qed (rule that(1))

lemma absorb_append: "absorb f s (x @ y) = absorb f (absorb f s x) (tail x @ y)"
proof (induction "length x" arbitrary: x s rule: less_induct)
  case less
  show ?case
  proof (cases x rule: append_cases)
    case (2 b r)
    from less [OF 2(3)] show ?thesis by (simp add: 2(1) absorb_block [OF 2(2)] tail_block [OF 2(2)])
  qed simp
qed

lemma tail_append: "tail (x @ y) = tail (tail x @ y)"
proof (induction "length x" arbitrary: x rule: less_induct)
  case less
  show ?case
  proof (cases x rule: append_cases)
    case (2 b r)
    from less [OF 2(3)] show ?thesis by (simp add: 2(1) tail_block [OF 2(2)])
  qed simp
qed

section \<open>The count of bits\<close>

text \<open>Two words count the bits of \<open>n\<close> bytes.\<close>

definition counts :: "u32 \<Rightarrow> u32 \<Rightarrow> nat \<Rightarrow> bool" where
  "counts lo hi n \<longleftrightarrow> unat hi * 2 ^ 32 + unat lo = 8 * n mod 2 ^ 64"

lemma unat32_less: "unat (w :: u32) < 2 ^ 32"
  using unsigned_less [of w] by simp

lemma unat_of_nat32: "n < 2 ^ 32 \<Longrightarrow> unat (of_nat n :: u32) = n"
  by (simp add: unat_of_nat take_bit_nat_eq_self)

lemma unat_push_3: "unat (push_bit 3 (w :: u32)) = 8 * unat w mod 2 ^ 32"
  by (simp add: push_bit_eq_mult unat_word_ariths(2) mult.commute)

lemma counts_low: "counts lo hi n \<Longrightarrow> unat lo = 8 * n mod 2 ^ 32"
proof -
  assume "counts lo hi n"
  then have "(unat hi * 2 ^ 32 + unat lo) mod 2 ^ 32 = 8 * n mod 2 ^ 64 mod 2 ^ 32" by (simp only: counts_def)
  moreover have "unat lo < 2 ^ 32" by (rule unat32_less)
  ultimately show ?thesis by (simp add: mod_mod_cancel)
qed

text \<open>The bytes in the last block, taken off the count.\<close>

lemma counts_rest: "counts lo hi n \<Longrightarrow> unat (drop_bit 3 lo AND 63) = n mod 64"
proof -
  assume "counts lo hi n"
  have "unat (drop_bit 3 lo AND 63) = take_bit 6 (unat lo div 8)"
    by (simp add: unsigned_and_eq unat_div_distrib drop_bit_eq_div take_bit_eq_mask mask_eq_exp_minus_1)
  then have "unat (drop_bit 3 lo AND 63) = unat lo div 8 mod 64" by (simp add: take_bit_eq_mod)
  also have "\<dots> = 8 * n mod 2 ^ 32 div 8 mod 64" using counts_low [OF \<open>counts lo hi n\<close>] by simp
  also have "8 * n mod 2 ^ 32 = 8 * (n mod 2 ^ 29)" by (simp add: mult_mod_right)
  finally show ?thesis by (simp add: mod_mod_cancel)
qed

text \<open>Adding the bits of less than \<open>2 ^ 29\<close> bytes with a carry.\<close>

lemma counts_add:
  assumes "counts lo hi n" and "k < 2 ^ 29" and "lo' = lo + push_bit 3 (of_nat k)"
  shows "counts lo' (if lo' < lo then hi + 1 else hi) (n + k)"
proof -
  have k: "unat (push_bit 3 (of_nat k :: u32)) = 8 * k" using assms(2) by (simp add: unat_push_3 unat_of_nat32)
  have lo: "unat lo < 2 ^ 32" by (rule unat32_less)
  have hi: "unat hi < 2 ^ 32" by (rule unat32_less)
  have c: "unat hi * 2 ^ 32 + unat lo = 8 * n mod 2 ^ 64" using assms(1) by (simp add: counts_def)
  have sum: "(unat hi * 2 ^ 32 + unat lo + 8 * k) mod 2 ^ 64 = 8 * (n + k) mod 2 ^ 64"
    unfolding c by (simp add: mod_simps distrib_left)
  show ?thesis
  proof (cases "unat lo + 8 * k < 2 ^ 32")
    case True
    then have l: "unat lo' = unat lo + 8 * k" using assms(3) k by (simp add: unat_word_ariths(1))
    then have "\<not> lo' < lo" by (simp add: word_less_nat_alt)
    moreover have "unat hi * 2 ^ 32 + (unat lo + 8 * k) < 2 ^ 64" using True hi by simp
    ultimately show ?thesis using sum l by (simp add: counts_def add.assoc)
  next
    case False
    have "(unat lo + 8 * k) mod 2 ^ 32 = unat lo + 8 * k - 2 ^ 32" using False lo assms(2) by (simp add: le_mod_geq)
    then have l: "unat lo' = unat lo + 8 * k - 2 ^ 32" using assms(3) k by (simp add: unat_word_ariths(1))
    have "lo' < lo" using l False lo assms(2) by (simp add: word_less_nat_alt)
    moreover have "unat (hi + 1) = (unat hi + 1) mod 2 ^ 32" by (simp add: unat_word_ariths(1))
    moreover have "(unat hi + 1) mod 2 ^ 32 * 2 ^ 32 + (unat lo + 8 * k - 2 ^ 32) = (unat hi * 2 ^ 32 + unat lo + 8 * k) mod 2 ^ 64"
    proof (cases "unat hi + 1 < 2 ^ 32")
      case True
      then have "unat hi * 2 ^ 32 + unat lo + 8 * k < 2 ^ 64" using lo assms(2) by simp
      then show ?thesis using True False by simp
    next
      case wrap: False
      then have "unat hi = 2 ^ 32 - 1" using hi by simp
      then show ?thesis using False lo assms(2) by (simp add: le_mod_geq)
    qed
    ultimately show ?thesis using sum l by (simp add: counts_def)
  qed
qed

lemma split_mod:
  fixes x l :: nat
  assumes "l < 2 ^ 32"
  shows "x mod 2 ^ 32 * 2 ^ 32 + l = (x * 2 ^ 32 + l) mod 2 ^ 64"
proof -
  have "(x * 2 ^ 32 + l) mod (2 ^ 32 * 2 ^ 32) = 2 ^ 32 * ((x * 2 ^ 32 + l) div 2 ^ 32 mod 2 ^ 32) + (x * 2 ^ 32 + l) mod 2 ^ 32"
    by (rule mod_mult2_eq)
  moreover have "(x * 2 ^ 32 + l) div 2 ^ 32 = x" "(x * 2 ^ 32 + l) mod 2 ^ 32 = l" using assms by simp_all
  ultimately show ?thesis by simp
qed

text \<open>With the bits that the shift loses added to the high word, any length of 32 bits is counted.\<close>

lemma counts_add_full:
  assumes "counts lo hi n" and "k < 2 ^ 32" and "lo' = lo + push_bit 3 (of_nat k)"
  shows "counts lo' ((if lo' < lo then hi + 1 else hi) + drop_bit 29 (of_nat k)) (n + k)"
proof -
  define k' q where "k' = k mod 2 ^ 29" and "q = k div 2 ^ 29"
  have k: "k = q * 2 ^ 29 + k'" "k' < 2 ^ 29" "q < 2 ^ 3" using assms(2) by (simp_all add: k'_def q_def less_mult_imp_div_less)
  define hi1 where "hi1 = (if lo' < lo then hi + 1 else hi)"
  have "push_bit 3 (of_nat k) = (push_bit 3 (of_nat k') :: u32)"
    unfolding word_unat_eq_iff unat_push_3 using k(2) assms(2) by (simp add: unat_of_nat32 k'_def mult_mod_right)
  with counts_add [OF assms(1) k(2)] assms(3) have c: "unat hi1 * 2 ^ 32 + unat lo' = 8 * (n + k') mod 2 ^ 64"
    by (simp add: counts_def hi1_def)
  have q: "unat (drop_bit 29 (of_nat k :: u32)) = q"
    unfolding drop_bit_eq_div unat_div_distrib using assms(2) by (simp add: unat_of_nat32 q_def)
  have lo: "unat lo' < 2 ^ 32" by (rule unat32_less)
  have "unat (hi1 + drop_bit 29 (of_nat k)) * 2 ^ 32 + unat lo' = (unat hi1 + q) mod 2 ^ 32 * 2 ^ 32 + unat lo'"
    by (simp add: unat_word_ariths(1) q)
  also have "\<dots> = ((unat hi1 + q) * 2 ^ 32 + unat lo') mod 2 ^ 64"
    using lo by (rule split_mod)
  also have "(unat hi1 + q) * 2 ^ 32 + unat lo' = 8 * (n + k') mod 2 ^ 64 + q * 2 ^ 32" unfolding c [symmetric] by (simp add: distrib_right)
  also have "(8 * (n + k') mod 2 ^ 64 + q * 2 ^ 32) mod 2 ^ 64 = (8 * (n + k') + q * 2 ^ 32) mod 2 ^ 64" by (rule mod_add_left_eq)
  also have "8 * (n + k') + q * 2 ^ 32 = 8 * (n + k)" unfolding k(1) by (simp add: distrib_left)
  finally show ?thesis by (simp add: counts_def hi1_def)
qed

text \<open>The two words are the halves of the count as a word of 64 bits.\<close>

lemma counts_word:
  assumes "counts lo hi n"
  shows "ucast (drop_bit 32 (of_nat (8 * n) :: u64)) = hi" and "ucast (of_nat (8 * n) :: u64) = lo"
proof -
  let ?w = "of_nat (8 * n) :: u64"
  have w: "unat ?w = unat hi * 2 ^ 32 + unat lo" using assms by (simp only: counts_def unat_of_nat) simp
  have lo: "unat lo < 2 ^ 32" by (rule unat32_less)
  have hi: "unat hi < 2 ^ 32" by (rule unat32_less)
  have "unat (ucast (drop_bit 32 ?w) :: u32) = unat ?w div 2 ^ 32 mod 2 ^ 32"
    by (simp add: unsigned_ucast_eq unat_div_distrib take_bit_eq_mod drop_bit_eq_div)
  also have "\<dots> = unat hi" unfolding w using lo hi by simp
  finally show "ucast (drop_bit 32 ?w) = hi" by (rule unsigned_word_eqI)
  have "unat (ucast ?w :: u32) = unat ?w mod 2 ^ 32" by (simp add: unsigned_ucast_eq take_bit_eq_mod)
  also have "\<dots> = unat lo" unfolding w using lo by simp
  finally show "ucast ?w = lo" by (rule unsigned_word_eqI)
qed

text \<open>The padding of a message of \<open>n\<close> bytes: a one bit, zeros, and the number of bits in eight bytes.\<close>

definition padding :: "(u64 \<Rightarrow> byte list) \<Rightarrow> nat \<Rightarrow> byte list" where
  "padding len n = 0x80 # replicate ((119 - n mod 64) mod 64) 0 @ len (of_nat (8 * n))"

section \<open>The digest in base 16\<close>

definition zEncode_hex :: "byte list" where
  "zEncode_hex = bytes_of ''0123456789abcdef''"

definition DigestToBase16 :: "byte list \<Rightarrow> byte list" where
  "DigestToBase16 digest =
     concat (map (\<lambda>a. [zEncode_hex ! unat (drop_bit 4 a AND 0xf), zEncode_hex ! unat (a AND 0xf)]) digest) @ [0]"

definition base16 :: "byte list \<Rightarrow> byte list" where
  "base16 z = concat (map (\<lambda>a. [zEncode_hex ! unat (drop_bit 4 a AND 0xf), zEncode_hex ! unat (a AND 0xf)]) z)"

lemma DigestToBase16_eq: "DigestToBase16 z = base16 z @ [0]"
  by (simp add: DigestToBase16_def base16_def)

lemma length_base16: "length (base16 z) = 2 * length z"
  by (induction z) (simp_all add: base16_def)

lemma nibble_less: "unat ((a :: byte) AND 0xf) < 16"
proof -
  have "a AND 0xf \<le> 0xf" by (rule word_and_le1)
  then show ?thesis by (simp add: word_le_nat_alt)
qed

lemma base16_nonzero [simp]: "0 \<notin> set (base16 z)"
proof -
  have "zEncode_hex ! i \<noteq> 0" if "i < 16" for i
  proof -
    have "list_all (\<lambda>i. zEncode_hex ! i \<noteq> 0) [0..<16]" by (simp add: zEncode_hex_def upt_rec)
    with that show ?thesis by (simp add: list_all_iff)
  qed
  then show ?thesis using nibble_less by (fastforce simp: base16_def)
qed

lemma cstr_base16 [simp]: "cstr (base16 z @ [0]) = base16 z"
  by (rule cstr_append_nul) simp

section \<open>The contract of a digest\<close>

text \<open>
  A context that has taken a message: it starts with the empty one, takes pieces up to a limit, and
  gives the digest of all of them.
\<close>

locale streaming_hash =
  fixes start :: 'c
    and update :: "'c \<Rightarrow> byte list \<Rightarrow> 'c option"
    and final :: "'c \<Rightarrow> byte list option"
    and absorbed :: "'c \<Rightarrow> byte list \<Rightarrow> bool"
    and digest :: "byte list \<Rightarrow> byte list"
    and limit :: nat
  assumes absorbed_start: "absorbed start []"
    and absorbed_update: "absorbed c m \<Longrightarrow> length z < limit \<Longrightarrow> \<exists>c'. update c z = Some c' \<and> absorbed c' (m @ z)"
    and final_digest: "absorbed c m \<Longrightarrow> final c = Some (digest m)"
begin

lemma update_all:
  assumes "absorbed c m" and "list_all (\<lambda>z. length z < limit) zs"
  shows "\<exists>c'. fold_opt (\<lambda>z c. update c z) zs c = Some c' \<and> absorbed c' (m @ concat zs)"
  using assms
proof (induction zs arbitrary: c m)
  case (Cons z zs)
  then obtain c' where "update c z = Some c'" "absorbed c' (m @ z)" using absorbed_update [of c m z] by auto
  with Cons.IH [of c' "m @ z"] Cons.prems(2) show ?case by auto
qed simp

text \<open>The digest does not depend on how the message is cut into pieces.\<close>

lemma digest_of_pieces:
  assumes "list_all (\<lambda>z. length z < limit) zs"
  shows "fold_opt (\<lambda>z c. update c z) zs start \<bind> final = Some (digest (concat zs))"
  using update_all [OF absorbed_start assms] final_digest by auto

lemma digest_of_one: "length z < limit \<Longrightarrow> update start z \<bind> final = Some (digest z)"
  using absorbed_update [OF absorbed_start] final_digest by fastforce

end

end
