(* ===== verification/Fossil_Sha1.thy ===== *)
theory Fossil_Sha1
  imports Fossil_Digest
begin

text \<open>
  The SHA-1 digest (\<open>src/test4/sha1.c\<close>) on a little-endian machine, and the digest of FIPS 180-4 that it
  computes. \<open>None\<close> is a read behind the end of the data.
\<close>

section \<open>One block\<close>

text \<open>The macros \<open>blk0le\<close> and \<open>blk\<close>: the word and the block it was stored into.\<close>

definition blk0le :: "nat \<Rightarrow> u32 list \<Rightarrow> u32 \<times> u32 list" where
  "blk0le i l = (let v = (rol (l ! i) 24 AND 0xFF00FF00) OR (rol (l ! i) 8 AND 0x00FF00FF) in (v, l[i := v]))"

definition blk :: "nat \<Rightarrow> u32 list \<Rightarrow> u32 \<times> u32 list" where
  "blk i l = (let v = rol (l ! ((i + 13) mod 16) XOR l ! ((i + 8) mod 16) XOR l ! ((i + 2) mod 16) XOR l ! (i mod 16)) 1
     in (v, l[i mod 16 := v]))"

text \<open>
  The rounds. The variables \<open>a\<close> to \<open>e\<close> are a list; round \<open>i\<close> calls its macro with the names moved by
  \<open>i\<close> places, so its parameter number \<open>n\<close> (\<open>v\<close>, \<open>w\<close>, \<open>x\<close>, \<open>y\<close>, \<open>z\<close>) is the variable number \<open>n - i\<close> modulo 5.
\<close>

definition var :: "nat \<Rightarrow> nat \<Rightarrow> nat" where
  "var i n = (n + 4 * i) mod 5"

definition sha_round :: "(u32 \<Rightarrow> u32 \<Rightarrow> u32 \<Rightarrow> u32) \<Rightarrow> u32 \<Rightarrow> nat \<Rightarrow> u32 \<Rightarrow> u32 list \<Rightarrow> u32 list" where
  "sha_round f k i m r = (let v = r ! var i 0; w = r ! var i 1; x = r ! var i 2; y = r ! var i 3; z = r ! var i 4 in
     r[var i 4 := z + (f w x y + m + k + rol v 5), var i 1 := rol w 30])"

definition Rl0 :: "nat \<Rightarrow> u32 list \<times> u32 list \<Rightarrow> u32 list \<times> u32 list" where
  "Rl0 i = (\<lambda>(l, r). let (m, l) = blk0le i l in (l, sha_round (\<lambda>w x y. (w AND (x XOR y)) XOR y) 0x5A827999 i m r))"

definition R1 :: "nat \<Rightarrow> u32 list \<times> u32 list \<Rightarrow> u32 list \<times> u32 list" where
  "R1 i = (\<lambda>(l, r). let (m, l) = blk i l in (l, sha_round (\<lambda>w x y. (w AND (x XOR y)) XOR y) 0x5A827999 i m r))"

definition R2 :: "nat \<Rightarrow> u32 list \<times> u32 list \<Rightarrow> u32 list \<times> u32 list" where
  "R2 i = (\<lambda>(l, r). let (m, l) = blk i l in (l, sha_round (\<lambda>w x y. w XOR x XOR y) 0x6ED9EBA1 i m r))"

definition R3 :: "nat \<Rightarrow> u32 list \<times> u32 list \<Rightarrow> u32 list \<times> u32 list" where
  "R3 i = (\<lambda>(l, r). let (m, l) = blk i l in
     (l, sha_round (\<lambda>w x y. ((w OR x) AND y) OR (w AND x)) 0x8F1BBCDC i m r))"

definition R4 :: "nat \<Rightarrow> u32 list \<times> u32 list \<Rightarrow> u32 list \<times> u32 list" where
  "R4 i = (\<lambda>(l, r). let (m, l) = blk i l in (l, sha_round (\<lambda>w x y. w XOR x XOR y) 0xCA62C1D6 i m r))"

text \<open>The new state for a state and a block of 64 bytes.\<close>

definition SHA1Transform :: "u32 list \<Rightarrow> byte list \<Rightarrow> u32 list" where
  "SHA1Transform state buffer = (let (l, r) =
       fold R4 [60..<80] (fold R3 [40..<60] (fold R2 [20..<40] (fold R1 [16..<20] (fold Rl0 [0..<16]
         (le_words buffer, state))))) in
     map2 (+) state r)"

section \<open>Contexts\<close>

record sha1_context =
  state :: "u32 list"
  count0 :: u32
  count1 :: u32
  buffer :: "byte list"

text \<open>The buffer keeps what it held, which is never read.\<close>

definition SHA1Init :: "byte list \<Rightarrow> sha1_context" where
  "SHA1Init old = \<lparr>state = [0x67452301, 0xEFCDAB89, 0x98BADCFE, 0x10325476, 0xC3D2E1F0], count0 = 0, count1 = 0,
     buffer = old\<rparr>"

text \<open>The blocks of the data from index \<open>i\<close> on, with the index that is left.\<close>

partial_function (option) data_blocks :: "byte list \<Rightarrow> u32 \<Rightarrow> u32 \<Rightarrow> u32 list \<Rightarrow> (u32 list \<times> u32) option" where
  "data_blocks data len i st = (if i + 63 < len then do {
       b \<leftarrow> slice data (unat i) 64;
       data_blocks data len (i + 64) (SHA1Transform st b)
     } else Some (st, i))"

declare data_blocks.simps [simp del, code]

definition add_count :: "u32 \<Rightarrow> sha1_context \<Rightarrow> sha1_context" where
  "add_count len c = (let c0 = count0 c + push_bit 3 len in
     c\<lparr>count0 := c0, count1 := (if c0 < count0 c then count1 c + drop_bit 29 len + 1 else count1 c)\<rparr>)"

definition SHA1Update :: "sha1_context \<Rightarrow> byte list \<Rightarrow> u32 \<Rightarrow> sha1_context option" where
  "SHA1Update c data len = (let j = drop_bit 3 (count0 c) AND 63; c = add_count len c in
     if j + len > 63 then do {
       let i = 64 - j;
       piece \<leftarrow> slice data 0 (unat i);
       buf \<leftarrow> blit (buffer c) (unat j) piece;
       (st, i) \<leftarrow> data_blocks data len i (SHA1Transform (state c) buf);
       piece \<leftarrow> slice data (unat i) (unat (len - i));
       buf \<leftarrow> blit buf 0 piece;
       Some (c\<lparr>state := st, buffer := buf\<rparr>)
     } else do {
       piece \<leftarrow> slice data 0 (unat len);
       buf \<leftarrow> blit (buffer c) (unat j) piece;
       Some (c\<lparr>buffer := buf\<rparr>)
     })"

partial_function (option) pad_loop :: "sha1_context \<Rightarrow> sha1_context option" where
  "pad_loop c = (if count0 c AND 504 \<noteq> 448 then do {
       c \<leftarrow> SHA1Update c [0] 1;
       pad_loop c
     } else Some c)"

declare pad_loop.simps [simp del, code]

definition SHA1Final :: "sha1_context \<Rightarrow> (byte list \<times> sha1_context) option" where
  "SHA1Final c = do {
     let finalcount = be_bytes (count1 c) @ be_bytes (count0 c);
     c \<leftarrow> SHA1Update c [0x80] 1;
     c \<leftarrow> pad_loop c;
     c \<leftarrow> SHA1Update c finalcount 8;
     Some (concat (map be_bytes (state c)), c)
   }"

section \<open>Checksums of texts and files\<close>

text \<open>The incremental checksum: two static variables.\<close>

record sha1_incr =
  incrCtx :: sha1_context
  incrInit :: bool

definition sha1sum_step_text :: "sha1_incr \<Rightarrow> byte list \<Rightarrow> int \<Rightarrow> sha1_incr option" where
  "sha1sum_step_text g zText nBytes =
     (let g = (if \<not> incrInit g then \<lparr>incrCtx = SHA1Init (buffer (incrCtx g)), incrInit = True\<rparr> else g) in
     if nBytes = 0 then Some g
     else do {
       let n = (if nBytes < 0 then int (length (cstr zText)) else nBytes);
       c \<leftarrow> SHA1Update (incrCtx g) zText (of_int n);
       Some (g\<lparr>incrCtx := c\<rparr>)
     })"

definition sha1sum_step_blob :: "sha1_incr \<Rightarrow> byte list \<Rightarrow> sha1_incr option" where
  "sha1sum_step_blob g p = sha1sum_step_text g p (to_int32 (int (length p)))"

definition sha1sum_finish :: "sha1_incr \<Rightarrow> (byte list \<times> sha1_incr) option" where
  "sha1sum_finish g = do {
     g \<leftarrow> sha1sum_step_text g [] 0;
     (zResult, c) \<leftarrow> SHA1Final (incrCtx g);
     Some (DigestToBase16 zResult, \<lparr>incrCtx = c, incrInit = False\<rparr>)
   }"

text \<open>The loop over a file takes 10240 bytes at a time. The result is the number of errors and the checksum.\<close>

function file_loop :: "sha1_context \<Rightarrow> byte list \<Rightarrow> sha1_context option" where
  "file_loop c rest = (if rest = [] then Some c
     else do {
       c \<leftarrow> SHA1Update c (take 10240 rest) (of_nat (length (take 10240 rest)));
       file_loop c (drop 10240 rest)
     })"
  by pat_completeness auto
termination
  by (relation "measure (\<lambda>(c, rest). length rest)") auto

declare file_loop.simps [simp del]

text \<open>The buffer of a local context holds anything at first; \<open>old\<close> stands for it.\<close>

definition sha1sum_file :: "byte list \<Rightarrow> byte list option \<Rightarrow> byte list \<Rightarrow> (int \<times> byte list) option" where
  "sha1sum_file old file pCksum = (case file of None \<Rightarrow> Some (1, pCksum)
     | Some z \<Rightarrow> do {
         c \<leftarrow> file_loop (SHA1Init old) z;
         (zResult, _) \<leftarrow> SHA1Final c;
         Some (0, take 40 (DigestToBase16 zResult))
       })"

definition sha1sum_blob :: "byte list \<Rightarrow> byte list \<Rightarrow> byte list option" where
  "sha1sum_blob old pIn = do {
     c \<leftarrow> SHA1Update (SHA1Init old) pIn (of_nat (length pIn));
     (zResult, _) \<leftarrow> SHA1Final c;
     Some (take 40 (DigestToBase16 zResult))
   }"

definition sha1sum :: "byte list \<Rightarrow> byte list \<Rightarrow> byte list option" where
  "sha1sum old zIn = do {
     c \<leftarrow> SHA1Update (SHA1Init old) zIn (of_nat (length (cstr zIn)));
     (zResult, _) \<leftarrow> SHA1Final c;
     Some (cstr (DigestToBase16 zResult))
   }"

text \<open>
  The shared secret of a password, with the static variable \<open>zProjectId\<close>; \<open>db\<close> is what \<open>db_get\<close> finds for
  the project code.
\<close>

definition update_str :: "byte list \<Rightarrow> sha1_context \<Rightarrow> sha1_context option" where
  "update_str z c = SHA1Update c z (of_nat (length (cstr z)))"

definition sha1_shared_secret :: "byte list \<Rightarrow> byte list option \<Rightarrow> byte list option \<Rightarrow> byte list \<Rightarrow> byte list \<Rightarrow>
    byte list option \<Rightarrow> (byte list \<times> byte list option) option" where
  "sha1_shared_secret old zProjectId db zPw zLogin zProjCode = (
     let projid = (if zProjCode = None \<and> zProjectId = None then db else zProjectId) in
     case (if zProjCode = None then projid else zProjCode) of
       None \<Rightarrow> Some (cstr zPw, projid)
     | Some code \<Rightarrow> do {
         c \<leftarrow> update_str code (SHA1Init old);
         c \<leftarrow> SHA1Update c (bytes_of ''/'') 1;
         c \<leftarrow> update_str zLogin c;
         c \<leftarrow> SHA1Update c (bytes_of ''/'') 1;
         c \<leftarrow> update_str zPw c;
         (zResult, _) \<leftarrow> SHA1Final c;
         Some (cstr (DigestToBase16 zResult), projid)
       })"

section \<open>The digest of the standard\<close>

text \<open>The functions, constants and message schedule of FIPS 180-4, and the step of its working variables.\<close>

definition sha_f :: "nat \<Rightarrow> u32 \<Rightarrow> u32 \<Rightarrow> u32 \<Rightarrow> u32" where
  "sha_f t x y z = (if t < 20 then (x AND y) XOR (NOT x AND z)
     else if t < 40 then x XOR y XOR z
     else if t < 60 then (x AND y) XOR (x AND z) XOR (y AND z)
     else x XOR y XOR z)"

definition sha_K :: "nat \<Rightarrow> u32" where
  "sha_K t = (if t < 20 then 0x5A827999 else if t < 40 then 0x6ED9EBA1 else if t < 60 then 0x8F1BBCDC else 0xCA62C1D6)"

fun sha_W :: "u32 list \<Rightarrow> nat \<Rightarrow> u32" where
  "sha_W M t = (if t < 16 then M ! t
     else rol (sha_W M (t - 3) XOR sha_W M (t - 8) XOR sha_W M (t - 14) XOR sha_W M (t - 16)) 1)"

declare sha_W.simps [simp del]

type_synonym sha_vars = "u32 \<times> u32 \<times> u32 \<times> u32 \<times> u32"

definition sha_step :: "u32 list \<Rightarrow> nat \<Rightarrow> sha_vars \<Rightarrow> sha_vars" where
  "sha_step M t = (\<lambda>(a, b, c, d, e). (rol a 5 + sha_f t b c d + e + sha_K t + sha_W M t, a, rol b 30, c, d))"

definition sha_compress :: "u32 list \<Rightarrow> byte list \<Rightarrow> u32 list" where
  "sha_compress H z = (let (a, b, c, d, e) = fold (sha_step (be_words z)) [0..<80] (H ! 0, H ! 1, H ! 2, H ! 3, H ! 4) in
     [H ! 0 + a, H ! 1 + b, H ! 2 + c, H ! 3 + d, H ! 4 + e])"

definition be_bytes64 :: "u64 \<Rightarrow> byte list" where
  "be_bytes64 w = be_bytes (ucast (drop_bit 32 w)) @ be_bytes (ucast w)"

definition sha1_digest :: "byte list \<Rightarrow> byte list" where
  "sha1_digest m = concat (map be_bytes
     (absorb sha_compress [0x67452301, 0xEFCDAB89, 0x98BADCFE, 0x10325476, 0xC3D2E1F0]
       (m @ padding be_bytes64 (length m))))"

section \<open>A block is hashed as the standard says\<close>

lemma choose_eq: "((w :: u32) AND (x XOR y)) XOR y = (w AND x) XOR (NOT w AND y)"
  by (rule bit_word_eqI) (auto simp: bit_simps)

lemma majority_eq: "(((w :: u32) OR x) AND y) OR (w AND x) = (w AND x) XOR (w AND y) XOR (x AND y)"
  by (rule bit_word_eqI) (auto simp: bit_simps)

text \<open>The variables of the code are those of the standard, moved by the number of the round.\<close>

definition vars_are :: "nat \<Rightarrow> u32 list \<Rightarrow> sha_vars \<Rightarrow> bool" where
  "vars_are i r = (\<lambda>(a, b, c, d, e). length r = 5 \<and> r ! var i 0 = a \<and> r ! var i 1 = b \<and> r ! var i 2 = c \<and>
     r ! var i 3 = d \<and> r ! var i 4 = e)"

lemma var_Suc: "var (Suc i) 0 = var i 4" "var (Suc i) 1 = var i 0" "var (Suc i) 2 = var i 1" "var (Suc i) 3 = var i 2"
    "var (Suc i) 4 = var i 3"
  unfolding var_def by presburger+

lemma var_less: "var i n < 5"
  by (simp add: var_def)

lemma var_neq: "var i 0 \<noteq> var i 1" "var i 0 \<noteq> var i 4" "var i 4 \<noteq> var i 0" "var i 4 \<noteq> var i 1" "var i 1 \<noteq> var i 4"
    "var i 1 \<noteq> var i 0" "var i 4 \<noteq> var i 2" "var i 4 \<noteq> var i 3" "var i 1 \<noteq> var i 2" "var i 1 \<noteq> var i 3"
proof -
  have "var i n = (n + 4 * (i mod 5)) mod 5" for n unfolding var_def by (metis mod_add_right_eq mod_mult_right_eq)
  moreover have "i mod 5 \<in> {0, 1, 2, 3, 4}" by auto
  ultimately show "var i 0 \<noteq> var i 1" "var i 0 \<noteq> var i 4" "var i 4 \<noteq> var i 0" "var i 4 \<noteq> var i 1" "var i 1 \<noteq> var i 4"
    "var i 1 \<noteq> var i 0" "var i 4 \<noteq> var i 2" "var i 4 \<noteq> var i 3" "var i 1 \<noteq> var i 2" "var i 1 \<noteq> var i 3" by auto
qed

lemma sha_round_step:
  assumes "vars_are i r v" and "f = sha_f i" and "k = sha_K i" and "m = sha_W M i"
  shows "vars_are (Suc i) (sha_round f k i m r) (sha_step M i v)"
proof -
  obtain a b c d e where v: "v = (a, b, c, d, e)" by (cases v)
  have "length r = 5" using assms(1) v by (simp add: vars_are_def)
  then show ?thesis using assms v
    by (simp add: vars_are_def sha_round_def sha_step_def Let_def var_Suc var_less var_neq nth_list_update ac_simps
      del: One_nat_def)
qed

text \<open>The block holds the last sixteen words of the schedule.\<close>

definition block_is :: "byte list \<Rightarrow> nat \<Rightarrow> u32 list \<Rightarrow> bool" where
  "block_is z i l \<longleftrightarrow> length l = 16 \<and> (\<forall>k. i \<le> k \<longrightarrow> k < 16 \<longrightarrow> l ! k = le32 z (4 * k)) \<and>
     (\<forall>k. k < i \<longrightarrow> i \<le> k + 16 \<longrightarrow> l ! (k mod 16) = sha_W (be_words z) k)"

lemma block_is_update:
  assumes "block_is z i l" and "v = sha_W (be_words z) i"
  shows "block_is z (Suc i) (l[i mod 16 := v])"
proof -
  have "i mod 16 \<noteq> k mod 16" if "k < i" "i \<le> 15 + k" for k :: nat
  proof
    assume "i mod 16 = k mod 16"
    then have "16 dvd i - k" using that mod_eq_dvd_iff_nat [of k i 16] by simp
    then show False using that dvd_imp_le [of 16 "i - k"] by simp
  qed
  moreover have "i mod 16 = i" if "i < k" "k < 16" for k :: nat using that by simp
  ultimately show ?thesis using assms by (auto simp: block_is_def nth_list_update less_Suc_eq)
qed

lemma blk0le_schedule:
  assumes "block_is z i l" and "i < 16"
  shows "blk0le i l = (sha_W (be_words z) i, l[i mod 16 := sha_W (be_words z) i])"
  using assms swap_bytes [of z "4 * i"]
  by (simp add: blk0le_def block_is_def Let_def sha_W.simps [of _ i] words_nth)

lemma blk_schedule:
  assumes "block_is z i l" and "16 \<le> i"
  shows "blk i l = (sha_W (be_words z) i, l[i mod 16 := sha_W (be_words z) i])"
proof -
  have W: "l ! ((i - n) mod 16) = sha_W (be_words z) (i - n)" if "0 < n" "n \<le> 16" for n
  proof -
    have "i - n < i" "i \<le> i - n + 16" using that assms(2) by arith+
    with assms(1) show ?thesis by (simp only: block_is_def)
  qed
  obtain q where q: "i = q + 16" using assms(2) le_Suc_ex by (metis add.commute)
  have "(i + 13) mod 16 = (i - 3) mod 16" "(i + 8) mod 16 = (i - 8) mod 16" "(i + 2) mod 16 = (i - 14) mod 16"
    "i mod 16 = (i - 16) mod 16"
    unfolding q using mod_add_self2 [of "q + 13" 16] mod_add_self2 [of "q + 8" 16] mod_add_self2 [of "q + 2" 16] by (simp_all add: add.commute)
  then have l: "l ! ((i + 13) mod 16) = sha_W (be_words z) (i - 3)" "l ! ((i + 8) mod 16) = sha_W (be_words z) (i - 8)"
    "l ! ((i + 2) mod 16) = sha_W (be_words z) (i - 14)" "l ! (i mod 16) = sha_W (be_words z) (i - 16)"
    using W [of 3] W [of 8] W [of 14] W [of 16] by (simp_all only: zero_less_numeral order_refl numeral_le_iff semiring_norm)
  have "sha_W (be_words z) i = rol (sha_W (be_words z) (i - 3) XOR sha_W (be_words z) (i - 8) XOR
      sha_W (be_words z) (i - 14) XOR sha_W (be_words z) (i - 16)) 1"
    using assms(2) by (subst sha_W.simps) simp
  then show ?thesis by (simp only: blk_def Let_def l)
qed

definition round_ok :: "byte list \<Rightarrow> nat \<Rightarrow> u32 list \<times> u32 list \<Rightarrow> sha_vars \<Rightarrow> bool" where
  "round_ok z i = (\<lambda>(l, r) v. block_is z i l \<and> vars_are i r v)"

lemma round_functions:
  "i < 20 \<Longrightarrow> (\<lambda>w x y. (w AND (x XOR y)) XOR y) = sha_f i"
  "20 \<le> i \<Longrightarrow> i < 40 \<Longrightarrow> (\<lambda>w x y. w XOR x XOR y) = sha_f i"
  "40 \<le> i \<Longrightarrow> i < 60 \<Longrightarrow> (\<lambda>w x y. ((w OR x) AND y) OR (w AND x)) = sha_f i"
  "60 \<le> i \<Longrightarrow> (\<lambda>w x y. w XOR x XOR y) = sha_f i"
  by (simp_all add: sha_f_def fun_eq_iff choose_eq majority_eq)

lemma round_constants:
  "i < 20 \<Longrightarrow> 0x5A827999 = sha_K i" "20 \<le> i \<Longrightarrow> i < 40 \<Longrightarrow> 0x6ED9EBA1 = sha_K i"
  "40 \<le> i \<Longrightarrow> i < 60 \<Longrightarrow> 0x8F1BBCDC = sha_K i" "60 \<le> i \<Longrightarrow> 0xCA62C1D6 = sha_K i"
  by (simp_all add: sha_K_def)

lemma rounds:
  assumes "round_ok z i (l, r) v"
  shows "i < 16 \<Longrightarrow> round_ok z (Suc i) (Rl0 i (l, r)) (sha_step (be_words z) i v)"
    and "16 \<le> i \<Longrightarrow> i < 20 \<Longrightarrow> round_ok z (Suc i) (R1 i (l, r)) (sha_step (be_words z) i v)"
    and "20 \<le> i \<Longrightarrow> i < 40 \<Longrightarrow> round_ok z (Suc i) (R2 i (l, r)) (sha_step (be_words z) i v)"
    and "40 \<le> i \<Longrightarrow> i < 60 \<Longrightarrow> round_ok z (Suc i) (R3 i (l, r)) (sha_step (be_words z) i v)"
    and "60 \<le> i \<Longrightarrow> round_ok z (Suc i) (R4 i (l, r)) (sha_step (be_words z) i v)"
proof -
  have l: "block_is z i l" and r: "vars_are i r v" using assms by (simp_all add: round_ok_def)
  note step = sha_round_step [OF r _ _ refl] block_is_update [OF l refl]
  show "i < 16 \<Longrightarrow> round_ok z (Suc i) (Rl0 i (l, r)) (sha_step (be_words z) i v)"
    using step round_functions(1) [of i] round_constants(1) [of i] by (simp add: round_ok_def Rl0_def blk0le_schedule [OF l])
  show "16 \<le> i \<Longrightarrow> i < 20 \<Longrightarrow> round_ok z (Suc i) (R1 i (l, r)) (sha_step (be_words z) i v)"
    using step round_functions(1) [of i] round_constants(1) [of i] by (simp add: round_ok_def R1_def blk_schedule [OF l])
  show "20 \<le> i \<Longrightarrow> i < 40 \<Longrightarrow> round_ok z (Suc i) (R2 i (l, r)) (sha_step (be_words z) i v)"
    using step round_functions(2) [of i] round_constants(2) [of i] by (simp add: round_ok_def R2_def blk_schedule [OF l])
  show "40 \<le> i \<Longrightarrow> i < 60 \<Longrightarrow> round_ok z (Suc i) (R3 i (l, r)) (sha_step (be_words z) i v)"
    using step round_functions(3) [of i] round_constants(3) [of i] by (simp add: round_ok_def R3_def blk_schedule [OF l])
  show "60 \<le> i \<Longrightarrow> round_ok z (Suc i) (R4 i (l, r)) (sha_step (be_words z) i v)"
    using step round_functions(4) [of i] round_constants(4) [of i] by (simp add: round_ok_def R4_def blk_schedule [OF l])
qed

lemma fold_rounds:
  assumes "round_ok z i lr v" and "i \<le> j"
    and "\<And>k l r v. round_ok z k (l, r) v \<Longrightarrow> i \<le> k \<Longrightarrow> k < j \<Longrightarrow> round_ok z (Suc k) (R k (l, r)) (sha_step (be_words z) k v)"
  shows "round_ok z j (fold R [i..<j] lr) (fold (sha_step (be_words z)) [i..<j] v)"
  using assms(2,3)
proof (induction j rule: dec_induct)
  case base
  then show ?case using assms(1) by simp
next
  case (step j)
  obtain l r where lr: "fold R [i..<j] lr = (l, r)" by (cases "fold R [i..<j] lr")
  have "round_ok z j (l, r) (fold (sha_step (be_words z)) [i..<j] v)" using step.IH step.prems lr by simp
  from step.prems [OF this] step.hyps lr show ?case by simp
qed

lemma SHA1Transform_eq:
  assumes "length st = 5"
  shows "SHA1Transform st z = sha_compress st z"
proof -
  define v where "v = (st ! 0, st ! 1, st ! 2, st ! 3, st ! 4)"
  let ?S = "sha_step (be_words z)"
  have "round_ok z 0 (le_words z, st) v" using assms by (simp add: round_ok_def block_is_def vars_are_def v_def var_def words_nth)
  then have "round_ok z 16 (fold Rl0 [0..<16] (le_words z, st)) (fold ?S [0..<16] v)"
    by (rule fold_rounds) (simp_all add: rounds(1))
  then have "round_ok z 20 (fold R1 [16..<20] (fold Rl0 [0..<16] (le_words z, st))) (fold ?S [16..<20] (fold ?S [0..<16] v))"
    by (rule fold_rounds) (simp_all add: rounds(2))
  then have "round_ok z 40 (fold R2 [20..<40] (fold R1 [16..<20] (fold Rl0 [0..<16] (le_words z, st))))
      (fold ?S [20..<40] (fold ?S [16..<20] (fold ?S [0..<16] v)))"
    by (rule fold_rounds) (simp_all add: rounds(3))
  then have "round_ok z 60 (fold R3 [40..<60] (fold R2 [20..<40] (fold R1 [16..<20] (fold Rl0 [0..<16] (le_words z, st)))))
      (fold ?S [40..<60] (fold ?S [20..<40] (fold ?S [16..<20] (fold ?S [0..<16] v))))"
    by (rule fold_rounds) (simp_all add: rounds(4))
  then have "round_ok z 80 (fold R4 [60..<80] (fold R3 [40..<60] (fold R2 [20..<40] (fold R1 [16..<20] (fold Rl0 [0..<16] (le_words z, st))))))
      (fold ?S [60..<80] (fold ?S [40..<60] (fold ?S [20..<40] (fold ?S [16..<20] (fold ?S [0..<16] v)))))"
    by (rule fold_rounds) (simp_all add: rounds(5))
  moreover have "fold ?S [60..<80] (fold ?S [40..<60] (fold ?S [20..<40] (fold ?S [16..<20] (fold ?S [0..<16] v)))) = fold ?S [0..<80] v"
  proof -
    have "[0..<80] = [0..<16] @ [16..<20] @ [20..<40] @ [40..<60] @ [60..<80]"
      by (simp add: upt_rec)
    then show ?thesis by simp
  qed
  ultimately have ok: "round_ok z 80 (fold R4 [60..<80] (fold R3 [40..<60] (fold R2 [20..<40] (fold R1 [16..<20] (fold Rl0 [0..<16] (le_words z, st))))))
      (fold ?S [0..<80] v)" by simp
  have five: "map2 (+) xs ys = [xs ! 0 + ys ! 0, xs ! 1 + ys ! 1, xs ! 2 + ys ! 2, xs ! 3 + ys ! 3, xs ! 4 + ys ! 4]"
    if "length xs = 5" "length ys = 5" for xs ys :: "u32 list"
    using that by (auto simp: numeral_eq_Suc length_Suc_conv)
  obtain l r where lr: "fold R4 [60..<80] (fold R3 [40..<60] (fold R2 [20..<40] (fold R1 [16..<20] (fold Rl0 [0..<16] (le_words z, st))))) = (l, r)"
    by fastforce
  obtain a b c d e where f: "fold ?S [0..<80] v = (a, b, c, d, e)" by (cases "fold ?S [0..<80] v")
  have r: "length r = 5" "r ! 0 = a" "r ! 1 = b" "r ! 2 = c" "r ! 3 = d" "r ! 4 = e"
    using ok unfolding lr f by (simp_all add: round_ok_def vars_are_def var_def)
  show ?thesis unfolding SHA1Transform_def lr sha_compress_def v_def [symmetric] f
    using five [OF assms r(1)] r(2-6) by (simp add: Let_def)
qed

section \<open>Contexts take a message\<close>

definition sha1_start :: "u32 list" where
  "sha1_start = [0x67452301, 0xEFCDAB89, 0x98BADCFE, 0x10325476, 0xC3D2E1F0]"

definition taken :: "sha1_context \<Rightarrow> byte list \<Rightarrow> bool" where
  "taken c m \<longleftrightarrow> state c = absorb sha_compress sha1_start m \<and> counts (count0 c) (count1 c) (length m) \<and>
     length (buffer c) = 64 \<and> take (length m mod 64) (buffer c) = tail m"

lemma length_sha_compress [simp]: "length (sha_compress H z) = 5"
  by (simp add: sha_compress_def Let_def split: prod.split)

lemma length_absorb: "length s = 5 \<Longrightarrow> length (absorb sha_compress s m) = 5"
proof (induction "length m" arbitrary: s m rule: less_induct)
  case less
  then show ?case by (subst absorb.simps) simp
qed

lemma absorb_Transform:
  assumes "length s = 5"
  shows "absorb SHA1Transform s z = absorb sha_compress s z"
  using assms
proof (induction "length z" arbitrary: s z rule: less_induct)
  case less
  then show ?case by (subst (1 2) absorb.simps) (simp add: SHA1Transform_eq)
qed

lemma taken_start: "length old = 64 \<Longrightarrow> taken (SHA1Init old) []"
  by (simp add: taken_def SHA1Init_def sha1_start_def counts_def tail_def)

text \<open>The loop over the blocks of the data.\<close>

lemma data_blocks_eq:
  assumes "length z < 2 ^ 29" and "i \<le> length z"
  shows "data_blocks z (of_nat (length z)) (of_nat i) s =
    Some (absorb SHA1Transform s (drop i z), of_nat (length z - (length z - i) mod 64))"
  using assms(2)
proof (induction "length z - i" arbitrary: i s rule: less_induct)
  case less
  have "(of_nat i + 63 :: u32) = of_nat (i + 63)" by simp
  then have c: "of_nat i + 63 < (of_nat (length z) :: u32) \<longleftrightarrow> i + 63 < length z"
    using assms(1) less.prems by (simp only: word_less_nat_alt) (simp add: unat_of_nat32 del: of_nat_add)
  show ?case
  proof (cases "i + 63 < length z")
    case True
    have i: "unat (of_nat i :: u32) = i" using less.prems assms(1) by (simp add: unat_of_nat32)
    have "of_nat i + 64 = (of_nat (i + 64) :: u32)" by simp
    moreover have "(length z - i) mod 64 = (length z - (i + 64)) mod 64" using True by (simp add: le_mod_geq)
    moreover have "absorb SHA1Transform s (drop i z) = absorb SHA1Transform (SHA1Transform s (take 64 (drop i z))) (drop (i + 64) z)"
      using True by (subst absorb.simps) (auto simp: add.commute)
    ultimately show ?thesis using less.hyps [of "i + 64"] True c i by (subst data_blocks.simps) simp
  next
    case False
    then have "(length z - i) mod 64 = length z - i" by simp
    with False c less.prems show ?thesis by (subst data_blocks.simps) simp
  qed
qed

lemma SHA1Update_taken:
  assumes "taken c m" and "length z < 2 ^ 29"
  shows "\<exists>c'. SHA1Update c z (of_nat (length z)) = Some c' \<and> taken c' (m @ z)"
proof -
  define j where "j = length m mod 64"
  have t: "state c = absorb sha_compress sha1_start m" "counts (count0 c) (count1 c) (length m)"
    "length (buffer c) = 64" "take j (buffer c) = tail m" using assms(1) by (simp_all add: taken_def j_def)
  have s5: "length (state c) = 5" using t(1) by (simp add: length_absorb sha1_start_def)
  have j: "unat (drop_bit 3 (count0 c) AND 63) = j" using counts_rest [OF t(2)] by (simp add: j_def)
  have j64: "j < 64" by (simp add: j_def)
  have jw: "drop_bit 3 (count0 c) AND 63 = (of_nat j :: u32)"
    unfolding word_unat_eq_iff j using j64 by (simp add: unat_of_nat32)
  have len: "unat (of_nat (length z) :: u32) = length z" using assms(2) by (simp add: unat_of_nat32)
  define c1 where "c1 = add_count (of_nat (length z)) c"
  have "drop_bit 29 (of_nat (length z) :: u32) = 0"
    unfolding word_unat_eq_iff drop_bit_eq_div unat_div_distrib len using assms(2) by simp
  then have c1: "counts (count0 c1) (count1 c1) (length (m @ z))" "state c1 = state c" "buffer c1 = buffer c"
    using counts_add [OF t(2) assms(2) refl] by (simp_all add: c1_def add_count_def Let_def split: if_splits)
  have cond: "of_nat j + of_nat (length z) > (63 :: u32) \<longleftrightarrow> j + length z > 63"
  proof -
    have "(of_nat j + of_nat (length z) :: u32) = of_nat (j + length z)" by simp
    then show ?thesis using assms(2) j64 by (simp only: word_less_nat_alt) (simp add: unat_of_nat32 del: of_nat_add)
  qed
  have tz: "tail (m @ z) = tail (tail m @ z)" "absorb sha_compress sha1_start (m @ z) = absorb sha_compress (state c) (tail m @ z)"
    unfolding t(1) by (rule tail_append, rule absorb_append)
  have lt: "length (tail m) = j" by (simp add: j_def)
  show ?thesis
  proof (cases "j + length z > 63")
    case False
    have "blit (buffer c) j z = Some (tail m @ z @ drop (j + length z) (buffer c))"
      using False t(3,4) by simp
    moreover have "(length m + length z) mod 64 = j + length z" 
      using False mod_add_left_eq [of "length m" 64 "length z"] by (simp add: j_def)
    moreover have "tail (tail m @ z) = tail m @ z" "absorb sha_compress (state c) (tail m @ z) = state c"
      using False lt by simp_all
    ultimately show ?thesis using False cond c1 t(3) tz j64 lt
      by (simp add: SHA1Update_def jw c1_def [symmetric] len j Let_def taken_def unat_of_nat32)
  next
    case True
    define b where "b = tail m @ take (64 - j) z"
    have lz: "64 - j \<le> length z" using True by simp
    have b: "length b = 64" using lz j64 lt by (simp add: b_def)
    have i: "64 - of_nat j = (of_nat (64 - j) :: u32)" using j64 by (simp add: of_nat_diff)
    have i2: "unat (of_nat (64 - j) :: u32) = 64 - j" by (simp add: unat_of_nat32)
    have z: "tail m @ z = b @ drop (64 - j) z" by (simp add: b_def)
    have st: "absorb SHA1Transform (SHA1Transform (state c) b) (drop (64 - j) z) = absorb sha_compress (state c) (tail m @ z)"
      unfolding z absorb_block [OF b] SHA1Transform_eq [OF s5] by (rule absorb_Transform) simp
    define k where "k = (length z - (64 - j)) mod 64"
    have k: "k < 64" "k \<le> length z" by (simp_all add: k_def)
    have kw: "of_nat (length z) - of_nat (length z - k) = (of_nat k :: u32)" using k(2) by (simp add: of_nat_diff)
    have u: "unat (of_nat (length z - k) :: u32) = length z - k" "unat (of_nat k :: u32) = k"
      by (rule unat_of_nat32, use assms(2) k in simp)+
    have rest: "drop (length z - k) z = tail (m @ z)"
    proof -
      have "tail (m @ z) = tail (drop (64 - j) z)" unfolding tz(1) z by (rule tail_block [OF b])
      also have "\<dots> = drop (64 * ((length z - (64 - j)) div 64) + (64 - j)) z" by (simp add: tail_def)
      also have "64 * ((length z - (64 - j)) div 64) + (64 - j) = length z - k"
        using lz by (simp add: k_def minus_mod_eq_mult_div [symmetric])
      finally show ?thesis by simp
    qed
    have lm: "(length m + length z) mod 64 = k"
    proof -
      have "length (tail (m @ z)) = k" unfolding rest [symmetric] using k by simp
      then show ?thesis by simp
    qed
    define A where "A = absorb sha_compress (state c) (tail m @ z)"
    have uj: "unat (of_nat j :: u32) = j" by (rule unat_of_nat32) (use j64 in simp)
    have 1: "blit (buffer c1) (unat (of_nat j :: u32)) (take (64 - j) z) = Some b" unfolding uj using t(3,4) c1(3) lz j64 by (simp add: b_def)
    have 2: "data_blocks z (of_nat (length z)) (of_nat (64 - j)) (SHA1Transform (state c) b) = Some (A, of_nat (length z - k))"
      using data_blocks_eq [OF assms(2) lz, of "SHA1Transform (state c) b"] unfolding st k_def A_def .
    have 3: "slice z (unat (of_nat (length z - k) :: u32)) (unat (of_nat (length z) - of_nat (length z - k) :: u32)) = Some (tail (m @ z))"
      unfolding kw u using k rest lm by simp
    have 4: "blit b 0 (tail (m @ z)) = Some (tail (m @ z) @ drop k b)" using k b lm by simp
    have "SHA1Update c z (of_nat (length z)) = Some (c1\<lparr>state := A, buffer := tail (m @ z) @ drop k b\<rparr>)"
      unfolding SHA1Update_def jw c1_def [symmetric] Let_def i i2 using True cond lz
      by (simp del: of_nat_diff add: 1 2 3 4 c1(2))
    moreover have "taken (c1\<lparr>state := A, buffer := tail (m @ z) @ drop k b\<rparr>) (m @ z)"
      using c1(1) k b lm tz(2) by (simp add: taken_def A_def)
    ultimately show ?thesis by blast
  qed
qed

text \<open>The padding.\<close>

lemma pad_test: "counts (count0 c) (count1 c) n \<Longrightarrow> count0 c AND 504 = 448 \<longleftrightarrow> n mod 64 = 56"
proof -
  assume n: "counts (count0 c) (count1 c) n"
  let ?r = "drop_bit 3 (count0 c) AND 63"
  have "count0 c AND 504 = push_bit 3 ?r"
    by (rule u32_eqI; simp add: bit_and_iff bit_push_bit_iff bit_drop_bit_eq)
  moreover have "unat (push_bit 3 ?r) = 8 * (n mod 64)" unfolding unat_push_3 counts_rest [OF n] by simp
  ultimately show ?thesis by (simp add: word_unat_eq_iff)
qed

lemma pad_length:
  assumes "x < (64 :: nat)"
  shows "(120 - x) mod 64 = (if x \<le> 56 then 56 - x else 120 - x)"
    and "(119 - x) mod 64 = (120 - (x + 1) mod 64) mod 64"
proof -
  show "(120 - x) mod 64 = (if x \<le> 56 then 56 - x else 120 - x)" for x :: nat using le_mod_geq [of 64 "120 - x"] by auto
  show "(119 - x) mod 64 = (120 - (x + 1) mod 64) mod 64" using assms by (cases "x = 63") simp_all
qed

lemma pad_step:
  assumes "x < 64" and "Suc k = (120 - x) mod 64"
  shows "k = (120 - (x + 1) mod 64) mod 64"
proof (cases "x = 63")
  case False
  then have "(x + 1) mod 64 = x + 1" "x + 1 < 64" using assms(1) by simp_all
  with assms pad_length(1) [OF assms(1)] pad_length(1) [of "x + 1"] show ?thesis by (auto split: if_splits)
qed (use assms in simp)

lemma pad_loop_taken:
  assumes "taken c m"
  shows "\<exists>c'. pad_loop c = Some c' \<and> taken c' (m @ replicate ((120 - length m mod 64) mod 64) 0)"
  using assms
proof (induction "(120 - length m mod 64) mod 64" arbitrary: c m)
  case 0
  have "length m mod 64 < 64" by simp
  with 0(1) pad_length(1) [OF this] have "length m mod 64 = 56" by (auto split: if_splits)
  with 0 pad_test [of c "length m"] show ?case by (subst pad_loop.simps) (simp add: taken_def)
next
  case (Suc k)
  have l: "length m mod 64 < 64" by simp
  with Suc(2) have "length m mod 64 \<noteq> 56" by auto
  with Suc.prems pad_test [of c "length m"] have n: "count0 c AND 504 \<noteq> 448" by (simp add: taken_def)
  obtain c' where c': "SHA1Update c [0] 1 = Some c'" "taken c' (m @ [0])"
    using SHA1Update_taken [OF Suc.prems, of "[0]"] by auto
  have "length (m @ [0]) mod 64 = (length m mod 64 + 1) mod 64" by (simp add: mod_simps)
  then have k: "k = (120 - length (m @ [0]) mod 64) mod 64" using pad_step [OF l Suc(2)] by simp
  from Suc.hyps(1) [OF this c'(2)] obtain c'' where "pad_loop c' = Some c''" "taken c'' ((m @ [0]) @ replicate k 0)"
    unfolding k by auto
  with n c'(1) Suc(2) show ?case by (subst pad_loop.simps) (auto simp flip: Suc(2))
qed

lemma SHA1Final_taken:
  assumes "taken c m"
  shows "\<exists>c'. SHA1Final c = Some (sha1_digest m, c') \<and> length (buffer c') = 64"
proof -
  have cs: "counts (count0 c) (count1 c) (length m)" using assms by (simp add: taken_def)
  have bits: "be_bytes (count1 c) @ be_bytes (count0 c) = be_bytes64 (of_nat (8 * length m))"
    unfolding be_bytes64_def counts_word [OF cs] ..
  let ?r = "replicate ((119 - length m mod 64) mod 64) 0"
  obtain c1 where c1: "SHA1Update c [0x80] 1 = Some c1" "taken c1 (m @ [0x80])"
    using SHA1Update_taken [OF assms, of "[0x80]"] by auto
  have "length (m @ [0x80]) mod 64 = (length m mod 64 + 1) mod 64" "length m mod 64 < 64" by (simp_all add: mod_simps)
  then have "(120 - length (m @ [0x80]) mod 64) mod 64 = (119 - length m mod 64) mod 64" by (simp only: pad_length(2))
  with pad_loop_taken [OF c1(2)] obtain c2 where c2: "pad_loop c1 = Some c2" "taken c2 ((m @ [0x80]) @ ?r)" by auto
  have l8: "length (be_bytes64 (of_nat (8 * length m))) = 8" by (simp add: be_bytes64_def)
  obtain c3 where c3: "SHA1Update c2 (be_bytes64 (of_nat (8 * length m))) 8 = Some c3"
      "taken c3 (((m @ [0x80]) @ ?r) @ be_bytes64 (of_nat (8 * length m)))"
    using SHA1Update_taken [OF c2(2), of "be_bytes64 (of_nat (8 * length m))"] l8 by auto
  have "((m @ [0x80]) @ ?r) @ be_bytes64 (of_nat (8 * length m)) = m @ padding be_bytes64 (length m)"
    by (simp add: padding_def)
  with c3(2) have "state c3 = absorb sha_compress sha1_start (m @ padding be_bytes64 (length m))" by (simp only: taken_def)
  moreover have "length (buffer c3) = 64" using c3(2) by (simp add: taken_def)
  ultimately show ?thesis using c1(1) c2(1) c3(1) bits
    by (simp add: SHA1Final_def Let_def sha1_digest_def sha1_start_def)
qed

section \<open>Checksums are digests\<close>

lemma length_sha1_digest [simp]: "length (sha1_digest m) = 20"
proof -
  have "length (absorb sha_compress sha1_start (m @ padding be_bytes64 (length m))) = 5"
    by (rule length_absorb) (simp add: sha1_start_def)
  then show ?thesis by (simp add: sha1_digest_def length_concat comp_def sum_list_triv flip: sha1_start_def)
qed

text \<open>The incremental checksum has taken a message.\<close>

definition incr_taken :: "sha1_incr \<Rightarrow> byte list \<Rightarrow> bool" where
  "incr_taken g m \<longleftrightarrow> (if incrInit g then taken (incrCtx g) m else length (buffer (incrCtx g)) = 64 \<and> m = [])"

lemma step_text_taken:
  assumes "incr_taken g m" and "length z < 2 ^ 29"
  shows "\<exists>g'. sha1sum_step_text g z (int (length z)) = Some g' \<and> incrInit g' \<and> taken (incrCtx g') (m @ z)"
proof -
  define c where "c = (if incrInit g then incrCtx g else SHA1Init (buffer (incrCtx g)))"
  have c: "taken c m" using assms(1) taken_start by (auto simp: incr_taken_def c_def split: if_splits)
  from SHA1Update_taken [OF this assms(2)] c show ?thesis
    by (cases "z = []") (auto simp: sha1sum_step_text_def c_def Let_def)
qed

lemma step_blob_taken:
  assumes "incr_taken g m" and "length z < 2 ^ 29"
  shows "\<exists>g'. sha1sum_step_blob g z = Some g' \<and> incr_taken g' (m @ z)"
proof -
  have "to_int32 (int (length z)) = int (length z)" using assms(2) by (intro to_int32_id) simp_all
  with step_text_taken [OF assms] show ?thesis by (auto simp: sha1sum_step_blob_def incr_taken_def)
qed

lemma finish_taken:
  assumes "incr_taken g m"
  shows "\<exists>g'. sha1sum_finish g = Some (base16 (sha1_digest m) @ [0], g') \<and> \<not> incrInit g' \<and>
    length (buffer (incrCtx g')) = 64"
proof -
  obtain g1 where g1: "sha1sum_step_text g [] 0 = Some g1" "taken (incrCtx g1) m"
    using step_text_taken [OF assms, of "[]"] by auto
  from SHA1Final_taken [OF g1(2)] obtain c' where "SHA1Final (incrCtx g1) = Some (sha1_digest m, c')" "length (buffer c') = 64"
    by blast
  with g1(1) show ?thesis by (simp add: sha1sum_finish_def DigestToBase16_eq)
qed

interpretation sha1_sum: streaming_hash "\<lparr>incrCtx = SHA1Init (replicate 64 0), incrInit = False\<rparr>" sha1sum_step_blob
    "\<lambda>g. map_option fst (sha1sum_finish g)" incr_taken "\<lambda>m. base16 (sha1_digest m) @ [0]" "2 ^ 29"
proof unfold_locales
  fix g m
  assume "incr_taken g m"
  from finish_taken [OF this] show "map_option fst (sha1sum_finish g) = Some (base16 (sha1_digest m) @ [0])" by auto
qed (use step_blob_taken in \<open>simp_all add: incr_taken_def SHA1Init_def\<close>)

lemma file_loop_taken: "taken c m \<Longrightarrow> \<exists>c'. file_loop c z = Some c' \<and> taken c' (m @ z)"
proof (induction "length z" arbitrary: c m z rule: less_induct)
  case less
  show ?case
  proof (cases "z = []")
    case False
    have l: "length (take 10240 z) < 2 ^ 29" by (rule le_less_trans [of _ 10240]) simp_all
    obtain c1 where c1: "SHA1Update c (take 10240 z) (of_nat (length (take 10240 z))) = Some c1" "taken c1 (m @ take 10240 z)"
      using SHA1Update_taken [OF less.prems l] by blast
    obtain c2 where "file_loop c1 (drop 10240 z) = Some c2" "taken c2 ((m @ take 10240 z) @ drop 10240 z)"
      using less.hyps [OF _ c1(2), of "drop 10240 z"] False by auto
    with c1(1) False show ?thesis by (subst file_loop.simps) simp
  qed (use less.prems in \<open>simp add: file_loop.simps\<close>)
qed

lemma sha1sum_file_digest:
  assumes "length old = 64"
  shows "sha1sum_file old (Some z) pCksum = Some (0, base16 (sha1_digest z))"
proof -
  obtain c where c: "file_loop (SHA1Init old) z = Some c" "taken c z" using file_loop_taken [OF taken_start [OF assms]] by auto
  from SHA1Final_taken [OF c(2)] c(1) show ?thesis
    by (auto simp: sha1sum_file_def DigestToBase16_eq length_base16)
qed

lemma sha1sum_blob_digest:
  assumes "length old = 64" and "length z < 2 ^ 29"
  shows "sha1sum_blob old z = Some (base16 (sha1_digest z))"
proof -
  obtain c where c: "SHA1Update (SHA1Init old) z (of_nat (length z)) = Some c" "taken c z"
    using SHA1Update_taken [OF taken_start [OF assms(1)] assms(2)] by auto
  from SHA1Final_taken [OF c(2)] c(1) show ?thesis
    by (auto simp: sha1sum_blob_def DigestToBase16_eq length_base16)
qed

lemma update_str_taken:
  assumes "taken c m" and "0 \<notin> set z" and "length z < 2 ^ 29"
  obtains c' where "update_str z c = Some c'" "taken c' (m @ z)"
  using SHA1Update_taken [OF assms(1,3)] assms(2) that by (auto simp: update_str_def)

lemma sha1sum_digest:
  assumes "length old = 64" and "0 \<notin> set z" and "length z < 2 ^ 29"
  shows "sha1sum old z = Some (base16 (sha1_digest z))"
proof -
  obtain c where c: "SHA1Update (SHA1Init old) z (of_nat (length (cstr z))) = Some c" "taken c z"
    using SHA1Update_taken [OF taken_start [OF assms(1)] assms(3)] assms(2) by auto
  from SHA1Final_taken [OF c(2)] c(1) show ?thesis by (auto simp: sha1sum_def DigestToBase16_eq)
qed

text \<open>The secret of a project with a known code.\<close>

lemma shared_secret_digest:
  assumes "length old = 64" and "list_all (\<lambda>z. 0 \<notin> set z \<and> length z < 2 ^ 29) [code, login, pw]"
  shows "sha1_shared_secret old projid db pw login (Some code) =
    Some (base16 (sha1_digest (code @ [c_slash] @ login @ [c_slash] @ pw)), projid)"
proof -
  have a: "0 \<notin> set code" "length code < 2 ^ 29" "0 \<notin> set login" "length login < 2 ^ 29" "0 \<notin> set pw" "length pw < 2 ^ 29"
    using assms(2) by simp_all
  have slash: "\<exists>c'. SHA1Update c (bytes_of ''/'') 1 = Some c' \<and> taken c' (m @ [c_slash])" if "taken c m" for c m
    using SHA1Update_taken [OF that, of "[c_slash]"] by simp
  obtain c1 where c1: "update_str code (SHA1Init old) = Some c1" "taken c1 ([] @ code)"
    by (rule update_str_taken [OF taken_start [OF assms(1)] a(1,2)])
  obtain c2 where c2: "SHA1Update c1 (bytes_of ''/'') 1 = Some c2" "taken c2 (([] @ code) @ [c_slash])" using slash [OF c1(2)] by blast
  obtain c3 where c3: "update_str login c2 = Some c3" "taken c3 ((([] @ code) @ [c_slash]) @ login)"
    by (rule update_str_taken [OF c2(2) a(3,4)])
  obtain c4 where c4: "SHA1Update c3 (bytes_of ''/'') 1 = Some c4" "taken c4 (((([] @ code) @ [c_slash]) @ login) @ [c_slash])"
    using slash [OF c3(2)] by blast
  obtain c5 where c5: "update_str pw c4 = Some c5" "taken c5 ((((([] @ code) @ [c_slash]) @ login) @ [c_slash]) @ pw)"
    by (rule update_str_taken [OF c4(2) a(5,6)])
  from SHA1Final_taken [OF c5(2)] c1(1) c2(1) c3(1) c4(1) c5(1) show ?thesis
    by (auto simp: sha1_shared_secret_def Let_def DigestToBase16_eq)
qed

section \<open>Properties\<close>

text \<open>
  C9: The incremental SHA-1 checksum is the digest of the standard: however a message is cut into pieces
  of less than \<open>2 ^ 29\<close> bytes, adding the pieces one by one and finishing gives the base 16 digits of
  the FIPS 180-4 digest of the whole message, and leaves the checksum ready for the next message.
\<close>

theorem sha1_incremental:
  assumes "list_all (\<lambda>z. length z < 2 ^ 29) zs" and "\<not> incrInit g" and "length (buffer (incrCtx g)) = 64"
  shows "\<exists>g'. fold_opt (\<lambda>z g. sha1sum_step_blob g z) zs g \<bind> sha1sum_finish =
    Some (base16 (sha1_digest (concat zs)) @ [0], g') \<and> \<not> incrInit g' \<and> length (buffer (incrCtx g')) = 64"
proof -
  have "incr_taken g []" using assms(2,3) by (simp add: incr_taken_def)
  from sha1_sum.update_all [OF this assms(1)] obtain g' where
    g': "fold_opt (\<lambda>z g. sha1sum_step_blob g z) zs g = Some g'" "incr_taken g' (concat zs)" by auto
  with finish_taken [OF g'(2)] show ?thesis by simp
qed

theorem sha1_incremental_witness:
  "\<exists>g'. fold_opt (\<lambda>z g. sha1sum_step_blob g z) [[c_a], [], [c_b, c_f]] \<lparr>incrCtx = SHA1Init (replicate 64 0), incrInit = False\<rparr> \<bind>
    sha1sum_finish = Some (base16 (sha1_digest [c_a, c_b, c_f]) @ [0], g') \<and> \<not> incrInit g'"
  using sha1_incremental [of "[[c_a], [], [c_b, c_f]]" "\<lparr>incrCtx = SHA1Init (replicate 64 0), incrInit = False\<rparr>"]
  by (auto simp: SHA1Init_def)

text \<open>
  The count loses the bits of a piece of \<open>2 ^ 29\<close> bytes when the low word does not wrap.
\<close>

lemma long_piece_uncounted:
  "count0 (add_count (2 ^ 29) (SHA1Init old)) = 0 \<and> count1 (add_count (2 ^ 29) (SHA1Init old)) = 0"
  by (simp add: add_count_def SHA1Init_def Let_def)

end
