(* ===== verification/Fossil_Md5.thy ===== *)
theory Fossil_Md5
  imports Fossil_Digest
begin

text \<open>
  The MD5 digest (\<open>src/test4/md5.c\<close>) on a little-endian machine, where \<open>byteReverse\<close> is empty, and the
  digest of RFC 1321 that it computes. \<open>None\<close> is a read behind the end of the data.
\<close>

section \<open>One block\<close>

definition F1 :: "u32 \<Rightarrow> u32 \<Rightarrow> u32 \<Rightarrow> u32" where
  "F1 x y z = z XOR (x AND (y XOR z))"

definition F2 :: "u32 \<Rightarrow> u32 \<Rightarrow> u32 \<Rightarrow> u32" where
  "F2 x y z = F1 z x y"

definition F3 :: "u32 \<Rightarrow> u32 \<Rightarrow> u32 \<Rightarrow> u32" where
  "F3 x y z = x XOR y XOR z"

definition F4 :: "u32 \<Rightarrow> u32 \<Rightarrow> u32 \<Rightarrow> u32" where
  "F4 x y z = y XOR (x OR NOT z)"

text \<open>
  The step \<open>MD5STEP\<close>. The variables \<open>a\<close> to \<open>d\<close> are a list; step \<open>i\<close> names them moved by \<open>i\<close> places, so
  its parameter number \<open>n\<close> (\<open>w\<close>, \<open>x\<close>, \<open>y\<close>, \<open>z\<close>) is the variable number \<open>n - i\<close> modulo 4. A step is given
  by the index of its input word, its constant and its shift.
\<close>

definition mvar :: "nat \<Rightarrow> nat \<Rightarrow> nat" where
  "mvar i n = (n + 3 * i) mod 4"

definition MD5STEP :: "(u32 \<Rightarrow> u32 \<Rightarrow> u32 \<Rightarrow> u32) \<Rightarrow> u32 list \<Rightarrow> nat \<times> nat \<times> u32 \<times> nat \<Rightarrow> u32 list \<Rightarrow> u32 list" where
  "MD5STEP f inp = (\<lambda>(i, k, t, s) r.
     let w = r ! mvar i 0; x = r ! mvar i 1; y = r ! mvar i 2; z = r ! mvar i 3 in
     r[mvar i 0 := rol (w + (f x y z + (inp ! k + t))) s + x])"

definition md5_round1 :: "(nat \<times> u32 \<times> nat) list" where
  "md5_round1 =
    [(0, 0xd76aa478, 7), (1, 0xe8c7b756, 12), (2, 0x242070db, 17), (3, 0xc1bdceee, 22),
     (4, 0xf57c0faf, 7), (5, 0x4787c62a, 12), (6, 0xa8304613, 17), (7, 0xfd469501, 22),
     (8, 0x698098d8, 7), (9, 0x8b44f7af, 12), (10, 0xffff5bb1, 17), (11, 0x895cd7be, 22),
     (12, 0x6b901122, 7), (13, 0xfd987193, 12), (14, 0xa679438e, 17), (15, 0x49b40821, 22)]"

definition md5_round2 :: "(nat \<times> u32 \<times> nat) list" where
  "md5_round2 =
    [(1, 0xf61e2562, 5), (6, 0xc040b340, 9), (11, 0x265e5a51, 14), (0, 0xe9b6c7aa, 20),
     (5, 0xd62f105d, 5), (10, 0x02441453, 9), (15, 0xd8a1e681, 14), (4, 0xe7d3fbc8, 20),
     (9, 0x21e1cde6, 5), (14, 0xc33707d6, 9), (3, 0xf4d50d87, 14), (8, 0x455a14ed, 20),
     (13, 0xa9e3e905, 5), (2, 0xfcefa3f8, 9), (7, 0x676f02d9, 14), (12, 0x8d2a4c8a, 20)]"

definition md5_round3 :: "(nat \<times> u32 \<times> nat) list" where
  "md5_round3 =
    [(5, 0xfffa3942, 4), (8, 0x8771f681, 11), (11, 0x6d9d6122, 16), (14, 0xfde5380c, 23),
     (1, 0xa4beea44, 4), (4, 0x4bdecfa9, 11), (7, 0xf6bb4b60, 16), (10, 0xbebfbc70, 23),
     (13, 0x289b7ec6, 4), (0, 0xeaa127fa, 11), (3, 0xd4ef3085, 16), (6, 0x04881d05, 23),
     (9, 0xd9d4d039, 4), (12, 0xe6db99e5, 11), (15, 0x1fa27cf8, 16), (2, 0xc4ac5665, 23)]"

definition md5_round4 :: "(nat \<times> u32 \<times> nat) list" where
  "md5_round4 =
    [(0, 0xf4292244, 6), (7, 0x432aff97, 10), (14, 0xab9423a7, 15), (5, 0xfc93a039, 21),
     (12, 0x655b59c3, 6), (3, 0x8f0ccc92, 10), (10, 0xffeff47d, 15), (1, 0x85845dd1, 21),
     (8, 0x6fa87e4f, 6), (15, 0xfe2ce6e0, 10), (6, 0xa3014314, 15), (13, 0x4e0811a1, 21),
     (4, 0xf7537e82, 6), (11, 0xbd3af235, 10), (2, 0x2ad7d2bb, 15), (9, 0xeb86d391, 21)]"

definition MD5Transform :: "u32 list \<Rightarrow> u32 list \<Rightarrow> u32 list" where
  "MD5Transform st inp = (let r =
       fold (MD5STEP F4 inp) (zip [48..<64] md5_round4) (fold (MD5STEP F3 inp) (zip [32..<48] md5_round3)
         (fold (MD5STEP F2 inp) (zip [16..<32] md5_round2) (fold (MD5STEP F1 inp) (zip [0..<16] md5_round1) st))) in
     map2 (+) st r)"

section \<open>Contexts\<close>

record md5_context =
  isInit :: int
  buf :: "u32 list"
  bits0 :: u32
  bits1 :: u32
  inbuf :: "byte list"

text \<open>The input buffer keeps what it held, which is never read.\<close>

definition MD5Init :: "byte list \<Rightarrow> md5_context" where
  "MD5Init old = \<lparr>isInit = 1, buf = [0x67452301, 0xefcdab89, 0x98badcfe, 0x10325476], bits0 = 0, bits1 = 0,
     inbuf = old\<rparr>"

definition md5_count :: "u32 \<Rightarrow> md5_context \<Rightarrow> md5_context" where
  "md5_count len c = (let b0 = bits0 c + push_bit 3 len in
     c\<lparr>bits0 := b0, bits1 := (if b0 < bits0 c then bits1 c + 1 else bits1 c) + drop_bit 29 len\<rparr>)"

text \<open>The blocks of the data from an index on, and the bytes that are left.\<close>

function md5_rest :: "md5_context \<Rightarrow> byte list \<Rightarrow> nat \<Rightarrow> u32 \<Rightarrow> md5_context option" where
  "md5_rest c data pos len = (if len \<ge> 64 then do {
       piece \<leftarrow> slice data pos 64;
       i \<leftarrow> blit (inbuf c) 0 piece;
       md5_rest (c\<lparr>inbuf := i, buf := MD5Transform (buf c) (le_words i)\<rparr>) data (pos + 64) (len - 64)
     } else do {
       piece \<leftarrow> slice data pos (unat len);
       i \<leftarrow> blit (inbuf c) 0 piece;
       Some (c\<lparr>inbuf := i\<rparr>)
     })"
  by pat_completeness auto
termination
  by (relation "measure (\<lambda>(c, data, pos, len). unat len)") (auto simp: unat_sub word_le_nat_alt)

declare md5_rest.simps [simp del]

definition MD5Update :: "md5_context \<Rightarrow> byte list \<Rightarrow> u32 \<Rightarrow> md5_context option" where
  "MD5Update c data len = (let t = drop_bit 3 (bits0 c) AND 0x3f; c = md5_count len c in
     if t \<noteq> 0 then
       (if len < 64 - t then do {
          piece \<leftarrow> slice data 0 (unat len);
          i \<leftarrow> blit (inbuf c) (unat t) piece;
          Some (c\<lparr>inbuf := i\<rparr>)
        } else do {
          piece \<leftarrow> slice data 0 (unat (64 - t));
          i \<leftarrow> blit (inbuf c) (unat t) piece;
          md5_rest (c\<lparr>inbuf := i, buf := MD5Transform (buf c) (le_words i)\<rparr>) data (unat (64 - t)) (len - (64 - t))
        })
     else md5_rest c data 0 len)"

text \<open>
  The digest and the context: \<open>sizeof(ctx)\<close> is the size of a pointer, so only \<open>isInit\<close> and \<open>buf[0]\<close> are
  cleared at the end.
\<close>

definition MD5Final :: "md5_context \<Rightarrow> (byte list \<times> md5_context) option" where
  "MD5Final c = do {
     let count = unat (drop_bit 3 (bits0 c) AND 0x3F);
     i \<leftarrow> poke (inbuf c) count 0x80;
     let p = count + 1;
     let count = 64 - 1 - count;
     (c, i) \<leftarrow> (if count < 8 then do {
         i \<leftarrow> blit i p (replicate count 0);
         let c = c\<lparr>buf := MD5Transform (buf c) (le_words i)\<rparr>;
         i \<leftarrow> blit i 0 (replicate 56 0);
         Some (c, i)
       } else do {
         i \<leftarrow> blit i p (replicate (count - 8) 0);
         Some (c, i)
       });
     i \<leftarrow> blit i 56 (le_bytes (bits0 c));
     i \<leftarrow> blit i 60 (le_bytes (bits1 c));
     let st = MD5Transform (buf c) (le_words i);
     Some (concat (map le_bytes st), c\<lparr>isInit := 0, buf := st[0 := 0], inbuf := i\<rparr>)
   }"

section \<open>Checksums of texts and files\<close>

record md5_incr =
  md5_incrCtx :: md5_context
  md5_incrInit :: bool

definition md5sum_init :: "md5_incr \<Rightarrow> md5_incr" where
  "md5sum_init g = g\<lparr>md5_incrInit := False\<rparr>"

definition md5sum_step_text :: "md5_incr \<Rightarrow> byte list \<Rightarrow> int \<Rightarrow> md5_incr option" where
  "md5sum_step_text g zText nBytes =
     (let g = (if \<not> md5_incrInit g then \<lparr>md5_incrCtx = MD5Init (inbuf (md5_incrCtx g)), md5_incrInit = True\<rparr> else g) in
     if nBytes = 0 then Some g
     else do {
       let n = (if nBytes < 0 then int (length (cstr zText)) else nBytes);
       c \<leftarrow> MD5Update (md5_incrCtx g) zText (of_int n);
       Some (g\<lparr>md5_incrCtx := c\<rparr>)
     })"

definition md5sum_step_blob :: "md5_incr \<Rightarrow> byte list \<Rightarrow> md5_incr option" where
  "md5sum_step_blob g p = md5sum_step_text g p (to_int32 (int (length p)))"

definition md5sum_finish :: "md5_incr \<Rightarrow> (byte list \<times> md5_incr) option" where
  "md5sum_finish g = do {
     g \<leftarrow> md5sum_step_text g [] 0;
     (zResult, c) \<leftarrow> MD5Final (md5_incrCtx g);
     Some (DigestToBase16 zResult, \<lparr>md5_incrCtx = c, md5_incrInit = False\<rparr>)
   }"

text \<open>The loop over a file takes 10240 bytes at a time. The result is the number of errors and the checksum.\<close>

function md5_file_loop :: "md5_context \<Rightarrow> byte list \<Rightarrow> md5_context option" where
  "md5_file_loop c rest = (if rest = [] then Some c
     else do {
       c \<leftarrow> MD5Update c (take 10240 rest) (of_nat (length (take 10240 rest)));
       md5_file_loop c (drop 10240 rest)
     })"
  by pat_completeness auto
termination
  by (relation "measure (\<lambda>(c, rest). length rest)") auto

declare md5_file_loop.simps [simp del]

text \<open>The buffer of a local context holds anything at first; \<open>old\<close> stands for it.\<close>

definition md5sum_file :: "byte list \<Rightarrow> byte list option \<Rightarrow> byte list \<Rightarrow> (int \<times> byte list) option" where
  "md5sum_file old file pCksum = (case file of None \<Rightarrow> Some (1, pCksum)
     | Some z \<Rightarrow> do {
         c \<leftarrow> md5_file_loop (MD5Init old) z;
         (zResult, _) \<leftarrow> MD5Final c;
         Some (0, take 32 (DigestToBase16 zResult))
       })"

definition md5sum_blob :: "byte list \<Rightarrow> byte list \<Rightarrow> byte list option" where
  "md5sum_blob old pIn = do {
     c \<leftarrow> MD5Update (MD5Init old) pIn (of_nat (length pIn));
     (zResult, _) \<leftarrow> MD5Final c;
     Some (take 32 (DigestToBase16 zResult))
   }"

section \<open>The digest of the standard\<close>

text \<open>
  RFC 1321: the auxiliary functions, the table \<open>T\<close> of the integer parts of \<open>2 ^ 32\<close> times the sine of
  1 to 64, the word and the shift of a step, and the step of the four registers.
\<close>

definition md5_f :: "nat \<Rightarrow> u32 \<Rightarrow> u32 \<Rightarrow> u32 \<Rightarrow> u32" where
  "md5_f i x y z = (if i < 16 then (x AND y) OR (NOT x AND z)
     else if i < 32 then (x AND z) OR (y AND NOT z)
     else if i < 48 then x XOR y XOR z
     else y XOR (x OR NOT z))"

definition md5_T :: "u32 list" where
  "md5_T =
    [0xd76aa478, 0xe8c7b756, 0x242070db, 0xc1bdceee, 0xf57c0faf, 0x4787c62a, 0xa8304613, 0xfd469501,
     0x698098d8, 0x8b44f7af, 0xffff5bb1, 0x895cd7be, 0x6b901122, 0xfd987193, 0xa679438e, 0x49b40821,
     0xf61e2562, 0xc040b340, 0x265e5a51, 0xe9b6c7aa, 0xd62f105d, 0x02441453, 0xd8a1e681, 0xe7d3fbc8,
     0x21e1cde6, 0xc33707d6, 0xf4d50d87, 0x455a14ed, 0xa9e3e905, 0xfcefa3f8, 0x676f02d9, 0x8d2a4c8a,
     0xfffa3942, 0x8771f681, 0x6d9d6122, 0xfde5380c, 0xa4beea44, 0x4bdecfa9, 0xf6bb4b60, 0xbebfbc70,
     0x289b7ec6, 0xeaa127fa, 0xd4ef3085, 0x04881d05, 0xd9d4d039, 0xe6db99e5, 0x1fa27cf8, 0xc4ac5665,
     0xf4292244, 0x432aff97, 0xab9423a7, 0xfc93a039, 0x655b59c3, 0x8f0ccc92, 0xffeff47d, 0x85845dd1,
     0x6fa87e4f, 0xfe2ce6e0, 0xa3014314, 0x4e0811a1, 0xf7537e82, 0xbd3af235, 0x2ad7d2bb, 0xeb86d391]"

definition md5_k :: "nat \<Rightarrow> nat" where
  "md5_k i = (if i < 16 then i else if i < 32 then (5 * i + 1) mod 16 else if i < 48 then (3 * i + 5) mod 16 else 7 * i mod 16)"

definition md5_s :: "nat \<Rightarrow> nat" where
  "md5_s i = (if i < 16 then [7, 12, 17, 22] else if i < 32 then [5, 9, 14, 20] else if i < 48 then [4, 11, 16, 23]
     else [6, 10, 15, 21]) ! (i mod 4)"

type_synonym md5_vars = "u32 \<times> u32 \<times> u32 \<times> u32"

definition md5_step :: "u32 list \<Rightarrow> nat \<Rightarrow> md5_vars \<Rightarrow> md5_vars" where
  "md5_step X i = (\<lambda>(a, b, c, d). (d, b + rol (a + md5_f i b c d + X ! md5_k i + md5_T ! i) (md5_s i), b, c))"

definition md5_compress :: "u32 list \<Rightarrow> byte list \<Rightarrow> u32 list" where
  "md5_compress H z = (let (a, b, c, d) = fold (md5_step (le_words z)) [0..<64] (H ! 0, H ! 1, H ! 2, H ! 3) in
     [H ! 0 + a, H ! 1 + b, H ! 2 + c, H ! 3 + d])"

definition le_bytes64 :: "u64 \<Rightarrow> byte list" where
  "le_bytes64 w = le_bytes (ucast w) @ le_bytes (ucast (drop_bit 32 w))"

definition md5_start :: "u32 list" where
  "md5_start = [0x67452301, 0xefcdab89, 0x98badcfe, 0x10325476]"

definition md5_digest :: "byte list \<Rightarrow> byte list" where
  "md5_digest m = concat (map le_bytes (absorb md5_compress md5_start (m @ padding le_bytes64 (length m))))"

section \<open>A block is hashed as the standard says\<close>

lemma md5_functions:
  "F1 x y z = (x AND y) OR (NOT x AND z)" "F2 x y z = (x AND z) OR (y AND NOT z)" "F3 x y z = x XOR y XOR z"
  "F4 x y z = y XOR (x OR NOT z)"
  unfolding F1_def F2_def F3_def F4_def by (rule bit_word_eqI, auto simp: bit_simps)+

lemma md5_round_table:
  "zip [0..<16] md5_round1 = map (\<lambda>i. (i, md5_k i, md5_T ! i, md5_s i)) [0..<16]"
  "zip [16..<32] md5_round2 = map (\<lambda>i. (i, md5_k i, md5_T ! i, md5_s i)) [16..<32]"
  "zip [32..<48] md5_round3 = map (\<lambda>i. (i, md5_k i, md5_T ! i, md5_s i)) [32..<48]"
  "zip [48..<64] md5_round4 = map (\<lambda>i. (i, md5_k i, md5_T ! i, md5_s i)) [48..<64]"
  by (simp_all add: upt_rec md5_round1_def md5_round2_def md5_round3_def md5_round4_def md5_k_def md5_T_def md5_s_def)

text \<open>The variables of the code are those of the standard, moved by the number of the step.\<close>

definition mvars_are :: "nat \<Rightarrow> u32 list \<Rightarrow> md5_vars \<Rightarrow> bool" where
  "mvars_are i r = (\<lambda>(a, b, c, d). length r = 4 \<and> r ! mvar i 0 = a \<and> r ! mvar i 1 = b \<and> r ! mvar i 2 = c \<and>
     r ! mvar i 3 = d)"

lemma mvar_Suc: "mvar (Suc i) 0 = mvar i 3" "mvar (Suc i) 1 = mvar i 0" "mvar (Suc i) 2 = mvar i 1" "mvar (Suc i) 3 = mvar i 2"
  unfolding mvar_def by presburger+

lemma mvar_less: "mvar i n < 4"
  by (simp add: mvar_def)

lemma mvar_neq: "mvar i 0 \<noteq> mvar i 1" "mvar i 0 \<noteq> mvar i 2" "mvar i 0 \<noteq> mvar i 3"
proof -
  have "mvar i n = (n + 3 * (i mod 4)) mod 4" for n unfolding mvar_def by (metis mod_add_right_eq mod_mult_right_eq)
  moreover have "i mod 4 \<in> {0, 1, 2, 3}" by auto
  ultimately show "mvar i 0 \<noteq> mvar i 1" "mvar i 0 \<noteq> mvar i 2" "mvar i 0 \<noteq> mvar i 3" by auto
qed

lemma MD5STEP_step:
  assumes "mvars_are i r v" and "\<And>x y z. f x y z = md5_f i x y z"
  shows "mvars_are (Suc i) (MD5STEP f X (i, md5_k i, md5_T ! i, md5_s i) r) (md5_step X i v)"
proof -
  obtain a b c d where v: "v = (a, b, c, d)" by (cases v)
  have "length r = 4" using assms(1) v by (simp add: mvars_are_def)
  then show ?thesis using assms v
    by (simp add: mvars_are_def MD5STEP_def md5_step_def Let_def mvar_Suc mvar_less mvar_neq nth_list_update ac_simps
      del: One_nat_def)
qed

lemma fold_MD5STEP:
  assumes "mvars_are i r v" and "i \<le> j" and "\<And>k x y z. i \<le> k \<Longrightarrow> k < j \<Longrightarrow> f x y z = md5_f k x y z"
  shows "mvars_are j (fold (MD5STEP f X) (map (\<lambda>i. (i, md5_k i, md5_T ! i, md5_s i)) [i..<j]) r) (fold (md5_step X) [i..<j] v)"
  using assms(2,3)
proof (induction j rule: dec_induct)
  case base
  then show ?case using assms(1) by simp
next
  case (step j)
  have "mvars_are j (fold (MD5STEP f X) (map (\<lambda>i. (i, md5_k i, md5_T ! i, md5_s i)) [i..<j]) r) (fold (md5_step X) [i..<j] v)"
    using step.IH step.prems by simp
  from MD5STEP_step [OF this step.prems, of X] step.hyps show ?case by simp
qed

lemma MD5Transform_eq:
  assumes "length st = 4"
  shows "MD5Transform st (le_words z) = md5_compress st z"
proof -
  define v where "v = (st ! 0, st ! 1, st ! 2, st ! 3)"
  let ?X = "le_words z"
  define r1 where "r1 = fold (MD5STEP F1 ?X) (zip [0..<16] md5_round1) st"
  define r2 where "r2 = fold (MD5STEP F2 ?X) (zip [16..<32] md5_round2) r1"
  define r3 where "r3 = fold (MD5STEP F3 ?X) (zip [32..<48] md5_round3) r2"
  define r4 where "r4 = fold (MD5STEP F4 ?X) (zip [48..<64] md5_round4) r3"
  note defs = md5_round_table md5_functions md5_f_def
  have "mvars_are 0 st v" using assms by (simp add: mvars_are_def v_def mvar_def)
  then have "mvars_are 16 r1 (fold (md5_step ?X) [0..<16] v)"
    unfolding r1_def md5_round_table by (rule fold_MD5STEP) (simp_all add: md5_functions md5_f_def)
  then have "mvars_are 32 r2 (fold (md5_step ?X) [16..<32] (fold (md5_step ?X) [0..<16] v))"
    unfolding r2_def md5_round_table by (rule fold_MD5STEP) (simp_all add: md5_functions md5_f_def)
  then have "mvars_are 48 r3 (fold (md5_step ?X) [32..<48] (fold (md5_step ?X) [16..<32] (fold (md5_step ?X) [0..<16] v)))"
    unfolding r3_def md5_round_table by (rule fold_MD5STEP) (simp_all add: md5_functions md5_f_def)
  then have "mvars_are 64 r4 (fold (md5_step ?X) [48..<64] (fold (md5_step ?X) [32..<48] (fold (md5_step ?X) [16..<32] (fold (md5_step ?X) [0..<16] v))))"
    unfolding r4_def md5_round_table by (rule fold_MD5STEP) (simp_all add: md5_functions md5_f_def)
  moreover have "[0..<64] = [0..<16] @ [16..<32] @ [32..<48] @ [48..<64]" by (simp add: upt_rec)
  ultimately have ok: "mvars_are 64 r4 (fold (md5_step ?X) [0..<64] v)" by simp
  have four: "map2 (+) xs ys = [xs ! 0 + ys ! 0, xs ! 1 + ys ! 1, xs ! 2 + ys ! 2, xs ! 3 + ys ! 3]"
    if "length xs = 4" "length ys = 4" for xs ys :: "u32 list"
    using that by (auto simp: numeral_eq_Suc length_Suc_conv)
  obtain a b c d where f: "fold (md5_step ?X) [0..<64] v = (a, b, c, d)" by (cases "fold (md5_step ?X) [0..<64] v")
  have r: "length r4 = 4" "r4 ! 0 = a" "r4 ! 1 = b" "r4 ! 2 = c" "r4 ! 3 = d"
    using ok unfolding f by (simp_all add: mvars_are_def mvar_def)
  show ?thesis unfolding MD5Transform_def r1_def [symmetric] r2_def [symmetric] r3_def [symmetric] r4_def [symmetric]
      md5_compress_def v_def [symmetric] f
    using four [OF assms r(1)] r(2-5) by (simp add: Let_def)
qed

section \<open>Contexts take a message\<close>

definition md5_taken :: "md5_context \<Rightarrow> byte list \<Rightarrow> bool" where
  "md5_taken c m \<longleftrightarrow> buf c = absorb md5_compress md5_start m \<and> counts (bits0 c) (bits1 c) (length m) \<and>
     length (inbuf c) = 64 \<and> take (length m mod 64) (inbuf c) = tail m"

lemma length_md5_compress [simp]: "length (md5_compress H z) = 4"
  by (simp add: md5_compress_def Let_def split: prod.split)

lemma length_absorb_md5: "length s = 4 \<Longrightarrow> length (absorb md5_compress s m) = 4"
proof (induction "length m" arbitrary: s m rule: less_induct)
  case less
  then show ?case by (subst absorb.simps) simp
qed

lemma md5_taken_start: "length old = 64 \<Longrightarrow> md5_taken (MD5Init old) []"
  by (simp add: md5_taken_def MD5Init_def md5_start_def counts_def tail_def)

lemma md5_rest_eq:
  assumes "length z < 2 ^ 32" and "i \<le> length z" and "length (inbuf c) = 64" and "length (buf c) = 4"
  shows "\<exists>b. md5_rest c z i (of_nat (length z - i)) = Some (c\<lparr>buf := absorb md5_compress (buf c) (drop i z), inbuf := b\<rparr>) \<and>
    length b = 64 \<and> take ((length z - i) mod 64) b = tail (drop i z)"
  using assms(2-4)
proof (induction "length z - i" arbitrary: i c rule: less_induct)
  case less
  define n where "n = length z - i"
  have u: "unat (of_nat n :: u32) = n" by (rule unat_of_nat32) (use assms(1) in \<open>simp add: n_def\<close>)
  have c: "(64 :: u32) \<le> of_nat n \<longleftrightarrow> 64 \<le> n" unfolding word_le_nat_alt u by simp
  show ?case
  proof (cases "64 \<le> n")
    case True
    define b where "b = take 64 (drop i z)"
    define c' where "c' = c\<lparr>inbuf := b, buf := md5_compress (buf c) b\<rparr>"
    have "drop (i + 64) z = drop 64 (drop i z)" by (simp add: add.commute)
    then have b: "length b = 64" "drop i z = b @ drop (i + 64) z"
      using True by (simp add: b_def n_def, simp only: b_def append_take_drop_id)
    have "length z - (i + 64) < length z - i" "i + 64 \<le> length z" using True by (simp_all add: n_def)
    from less.hyps [OF this, of c'] b(1) obtain b' where b': "md5_rest c' z (i + 64) (of_nat (length z - (i + 64))) =
        Some (c'\<lparr>buf := absorb md5_compress (buf c') (drop (i + 64) z), inbuf := b'\<rparr>)" "length b' = 64"
        "take ((length z - (i + 64)) mod 64) b' = tail (drop (i + 64) z)" by (auto simp: c'_def)
    have "of_nat n - 64 = (of_nat (length z - (i + 64)) :: u32)" using True by (simp add: n_def of_nat_diff)
    moreover have "slice z i 64 = Some b" "blit (inbuf c) 0 b = Some b" using True less.prems(2) b(1) by (simp_all add: b_def n_def)
    ultimately have "md5_rest c z i (of_nat n) = Some (c\<lparr>buf := absorb md5_compress (buf c) (drop i z), inbuf := b'\<rparr>)"
      using True c b'(1) b(1) less.prems(3) unfolding b(2)
      by (subst md5_rest.simps) (simp add: MD5Transform_eq absorb_block c'_def)
    moreover have "n mod 64 = (length z - (i + 64)) mod 64" using True by (simp add: n_def le_mod_geq)
    ultimately show ?thesis using b'(2,3) unfolding n_def [symmetric] b(2) tail_block [OF b(1)] by auto
  next
    case False
    then have n: "n < 64" by simp
    have "slice z i n = Some (drop i z)" using less.prems(1) by (simp add: n_def)
    moreover have "blit (inbuf c) 0 (drop i z) = Some (drop i z @ drop n (inbuf c))" using n less.prems(2) by (simp add: n_def)
    ultimately have "md5_rest c z i (of_nat n) = Some (c\<lparr>inbuf := drop i z @ drop n (inbuf c)\<rparr>)"
      using False c u by (subst md5_rest.simps) simp
    then show ?thesis using n less.prems(2) unfolding n_def [symmetric] by (intro exI [of _ "drop i z @ drop n (inbuf c)"]) (auto simp: n_def)
  qed
qed

lemma MD5Update_taken:
  assumes "md5_taken c m" and "length z < 2 ^ 32"
  shows "\<exists>c'. MD5Update c z (of_nat (length z)) = Some c' \<and> md5_taken c' (m @ z)"
proof -
  define j where "j = length m mod 64"
  have t: "buf c = absorb md5_compress md5_start m" "counts (bits0 c) (bits1 c) (length m)"
    "length (inbuf c) = 64" "take j (inbuf c) = tail m" using assms(1) by (simp_all add: md5_taken_def j_def)
  have s4: "length (buf c) = 4" using t(1) by (simp add: length_absorb_md5 md5_start_def)
  have j64: "j < 64" by (simp add: j_def)
  have jw: "drop_bit 3 (bits0 c) AND 0x3f = (of_nat j :: u32)"
    unfolding word_unat_eq_iff counts_rest [OF t(2)] using j64 by (simp add: unat_of_nat32 j_def)
  have uj: "unat (of_nat j :: u32) = j" by (rule unat_of_nat32) (use j64 in simp)
  have j0: "(of_nat j :: u32) \<noteq> 0 \<longleftrightarrow> j \<noteq> 0" unfolding word_unat_eq_iff uj by simp
  have len: "unat (of_nat (length z) :: u32) = length z" by (rule unat_of_nat32) (rule assms(2))
  define c1 where "c1 = md5_count (of_nat (length z)) c"
  have c1: "counts (bits0 c1) (bits1 c1) (length (m @ z))" "buf c1 = buf c" "inbuf c1 = inbuf c"
    using counts_add_full [OF t(2) assms(2) refl] by (simp_all add: c1_def md5_count_def Let_def)
  have ab: "absorb md5_compress md5_start (m @ z) = absorb md5_compress (buf c) (tail m @ z)"
    unfolding t(1) by (rule absorb_append)
  have lt: "length (tail m) = j" by (simp add: j_def)
  have lm: "length (tail (m @ z)) = (length m + length z) mod 64" by simp
  consider "j = 0" | "j \<noteq> 0" "length z < 64 - j" | "j \<noteq> 0" "64 - j \<le> length z" by linarith
  then show ?thesis
  proof cases
    case 1
    then have tm: "tail m = []" using lt by (simp only: length_0_conv)
    obtain b where b: "md5_rest c1 z 0 (of_nat (length z)) = Some (c1\<lparr>buf := absorb md5_compress (buf c) z, inbuf := b\<rparr>)"
        "length b = 64" "take (length z mod 64) b = tail z"
      using md5_rest_eq [OF assms(2), of 0 c1] c1(2,3) s4 t(3) by auto
    have "tail (m @ z) = tail z" using tail_append [of m z] tm by simp
    moreover have "(length m + length z) mod 64 = length z mod 64" using lm calculation by simp
    ultimately have "md5_taken (c1\<lparr>buf := absorb md5_compress (buf c) z, inbuf := b\<rparr>) (m @ z)"
      using c1(1) b(2,3) ab tm by (simp add: md5_taken_def)
    moreover have "MD5Update c z (of_nat (length z)) = md5_rest c1 z 0 (of_nat (length z))"
      using 1 j0 by (simp add: MD5Update_def jw c1_def Let_def)
    ultimately show ?thesis using b(1) by simp
  next
    case 2
    have i: "64 - of_nat j = (of_nat (64 - j) :: u32)" using j64 by (simp add: of_nat_diff)
    have ui: "unat (of_nat (64 - j) :: u32) = 64 - j" by (rule unat_of_nat32) simp
    have cond: "of_nat (length z) < (of_nat (64 - j) :: u32)" unfolding word_less_nat_alt ui len by (rule 2(2))
    have 3: "blit (inbuf c1) (unat (of_nat j :: u32)) z = Some (tail m @ z @ drop (j + length z) (inbuf c))"
      unfolding uj using 2(2) t(3,4) c1(3) by simp
    have "MD5Update c z (of_nat (length z)) = Some (c1\<lparr>inbuf := tail m @ z @ drop (j + length z) (inbuf c)\<rparr>)"
      unfolding MD5Update_def jw c1_def [symmetric] Let_def i using 2(1) j0 cond
      by (simp del: of_nat_diff add: len 3)
    moreover have tz: "tail (m @ z) = tail m @ z" using tail_append [of m z] 2(2) lt by simp
    moreover have "(length m + length z) mod 64 = j + length z" using lm lt unfolding tz by simp
    ultimately show ?thesis using c1(1,2) ab 2(2) lt t(3) by (simp add: md5_taken_def)
  next
    case 3
    have i: "64 - of_nat j = (of_nat (64 - j) :: u32)" using j64 by (simp add: of_nat_diff)
    have ui: "unat (of_nat (64 - j) :: u32) = 64 - j" by (rule unat_of_nat32) simp
    have cond: "\<not> of_nat (length z) < (of_nat (64 - j) :: u32)" unfolding word_less_nat_alt ui len using 3(2) by simp
    define b where "b = tail m @ take (64 - j) z"
    have b: "length b = 64" using 3(2) j64 lt by (simp add: b_def)
    have z: "tail m @ z = b @ drop (64 - j) z" by (simp add: b_def)
    define c2 where "c2 = c1\<lparr>inbuf := b, buf := md5_compress (buf c) b\<rparr>"
    obtain b' where b': "md5_rest c2 z (64 - j) (of_nat (length z - (64 - j))) =
        Some (c2\<lparr>buf := absorb md5_compress (buf c2) (drop (64 - j) z), inbuf := b'\<rparr>)" "length b' = 64"
        "take ((length z - (64 - j)) mod 64) b' = tail (drop (64 - j) z)"
      using md5_rest_eq [OF assms(2) 3(2), of c2] b by (auto simp: c2_def)
    have lw: "of_nat (length z) - of_nat (64 - j) = (of_nat (length z - (64 - j)) :: u32)" using 3(2) by (simp only: of_nat_diff)
    have 4: "blit (inbuf c) (unat (of_nat j :: u32)) (take (64 - j) z) = Some b" unfolding uj using t(3,4) 3(2) j64 by (simp add: b_def)
    have "MD5Update c z (of_nat (length z)) = md5_rest c2 z (64 - j) (of_nat (length z - (64 - j)))"
      unfolding MD5Update_def jw c1_def [symmetric] Let_def i ui lw using 3 j0 cond
      by (simp del: of_nat_diff add: 4 c1(2,3) MD5Transform_eq [OF s4] c2_def)
    moreover have tz: "tail (m @ z) = tail (drop (64 - j) z)" unfolding tail_append [of m z] z by (rule tail_block [OF b])
    moreover have "(length m + length z) mod 64 = (length z - (64 - j)) mod 64" using lm unfolding tz by simp
    moreover have "absorb md5_compress (buf c) (tail m @ z) = absorb md5_compress (buf c2) (drop (64 - j) z)"
      unfolding z absorb_block [OF b] by (simp add: c2_def)
    ultimately show ?thesis using b' c1(1) ab by (simp add: md5_taken_def c2_def)
  qed
qed

lemma MD5Final_taken:
  assumes "md5_taken c m"
  shows "\<exists>c'. MD5Final c = Some (md5_digest m, c') \<and> length (inbuf c') = 64"
proof -
  define j where "j = length m mod 64"
  have t: "buf c = absorb md5_compress md5_start m" "counts (bits0 c) (bits1 c) (length m)"
    "length (inbuf c) = 64" "take j (inbuf c) = tail m" using assms by (simp_all add: md5_taken_def j_def)
  have j64: "j < 64" by (simp add: j_def)
  have s4: "length (buf c) = 4" using t(1) by (simp add: length_absorb_md5 md5_start_def)
  have uj: "unat (drop_bit 3 (bits0 c) AND 0x3F) = j" unfolding counts_rest [OF t(2)] j_def ..
  define lb where "lb = le_bytes (bits0 c) @ le_bytes (bits1 c)"
  have lb: "le_bytes64 (of_nat (8 * length m)) = lb" unfolding le_bytes64_def counts_word [OF t(2)] lb_def ..
  have dig: "md5_digest m = concat (map le_bytes (absorb md5_compress (buf c) (tail m @ padding le_bytes64 (length m))))"
    unfolding md5_digest_def absorb_append [of _ _ m] t(1) [symmetric] ..
  have p: "poke (inbuf c) j 0x80 = Some (tail m @ 0x80 # drop (Suc j) (inbuf c))"
    using t(3,4) j64 by (simp add: upd_conv_take_nth_drop)
  have lt: "length (tail m) = j" by (simp add: j_def)
  have fin: "blit i 56 (le_bytes (bits0 c)) = Some (take 56 i @ le_bytes (bits0 c) @ drop 60 i)"
      "blit (take 56 i @ le_bytes (bits0 c) @ drop 60 i) 60 (le_bytes (bits1 c)) = Some (take 56 i @ lb)"
    if "length i = 64" for i using that by (simp_all add: lb_def)
  show ?thesis
  proof (cases "63 - j < 8")
    case False
    define b where "b = tail m @ 0x80 # replicate (55 - j) 0 @ lb"
    have lb8: "length lb = 8" by (simp add: lb_def)
    have b: "length b = 64" using False lb8 lt by (simp add: b_def)
    have "(119 - length m mod 64) mod 64 = 55 - j" using False le_mod_geq [of 64 "119 - j"] by (simp add: j_def)
    then have "tail m @ padding le_bytes64 (length m) = b" unfolding padding_def lb b_def by simp
    then have d: "md5_digest m = concat (map le_bytes (MD5Transform (buf c) (le_words b)))"
      unfolding dig MD5Transform_eq [OF s4] using absorb_block [OF b, of md5_compress "buf c" "[]"] by simp
    define i where "i = tail m @ 0x80 # replicate (55 - j) 0 @ drop 56 (inbuf c)"
    have i: "length i = 64" "take 56 i @ lb = b"
      using False t(3) lt Suc_diff_le [of j 55] by (simp_all add: i_def b_def)
    have "blit (tail m @ 0x80 # drop (Suc j) (inbuf c)) (j + 1) (replicate (55 - j) 0) = Some i"
      using False t(3) lt Suc_diff_le [of j 55] by (simp add: i_def)
    with False p fin [OF i(1)] i(2) d b show ?thesis by (simp add: MD5Final_def uj Let_def)
  next
    case True
    define b b' where "b = tail m @ 0x80 # replicate (63 - j) 0" and "b' = replicate 56 0 @ lb"
    have lb8: "length lb = 8" by (simp add: lb_def)
    have b: "length b = 64" "length b' = 64" using j64 lb8 lt by (simp_all add: b_def b'_def)
    have "(119 - length m mod 64) mod 64 = (63 - j) + 56" using True j64 by (simp add: j_def)
    then have "tail m @ padding le_bytes64 (length m) = b @ b'"
      unfolding padding_def lb b_def b'_def by (simp add: replicate_add)
    then have d: "md5_digest m = concat (map le_bytes (MD5Transform (MD5Transform (buf c) (le_words b)) (le_words b')))"
      unfolding dig MD5Transform_eq [OF s4]
      using absorb_block [OF b(2), of md5_compress "md5_compress (buf c) b" "[]"]
      by (simp add: MD5Transform_eq absorb_block [OF b(1)])
    have 1: "blit (tail m @ 0x80 # drop (Suc j) (inbuf c)) (j + 1) (replicate (63 - j) 0) = Some b"
      using j64 t(3) lt by (simp add: b_def)
    define i where "i = replicate 56 0 @ drop 56 b"
    have 2: "blit b 0 (replicate 56 0) = Some i" using b(1) by (simp add: i_def)
    have i: "length i = 64" "take 56 i @ lb = b'" using b(1) by (simp_all add: i_def b'_def)
    from True p 1 2 fin [OF i(1)] i(2) d b(2) show ?thesis by (simp add: MD5Final_def uj Let_def)
  qed
qed

section \<open>Checksums are digests\<close>

lemma length_md5_digest [simp]: "length (md5_digest m) = 16"
proof -
  have "length (absorb md5_compress md5_start (m @ padding le_bytes64 (length m))) = 4"
    by (rule length_absorb_md5) (simp add: md5_start_def)
  then show ?thesis by (simp add: md5_digest_def length_concat comp_def sum_list_triv)
qed

text \<open>The incremental checksum has taken a message.\<close>

definition md5_incr_taken :: "md5_incr \<Rightarrow> byte list \<Rightarrow> bool" where
  "md5_incr_taken g m \<longleftrightarrow>
     (if md5_incrInit g then md5_taken (md5_incrCtx g) m else length (inbuf (md5_incrCtx g)) = 64 \<and> m = [])"

lemma md5_step_text_taken:
  assumes "md5_incr_taken g m" and "length z < 2 ^ 31"
  shows "\<exists>g'. md5sum_step_text g z (int (length z)) = Some g' \<and> md5_incrInit g' \<and> md5_taken (md5_incrCtx g') (m @ z)"
proof -
  define c where "c = (if md5_incrInit g then md5_incrCtx g else MD5Init (inbuf (md5_incrCtx g)))"
  have c: "md5_taken c m" using assms(1) md5_taken_start by (auto simp: md5_incr_taken_def c_def split: if_splits)
  have "length z < 2 ^ 32" using assms(2) by simp
  from MD5Update_taken [OF c this] c show ?thesis
    by (cases "z = []") (auto simp: md5sum_step_text_def c_def Let_def)
qed

lemma md5_step_blob_taken:
  assumes "md5_incr_taken g m" and "length z < 2 ^ 31"
  shows "\<exists>g'. md5sum_step_blob g z = Some g' \<and> md5_incr_taken g' (m @ z)"
proof -
  have "to_int32 (int (length z)) = int (length z)" using assms(2) by (intro to_int32_id) simp_all
  with md5_step_text_taken [OF assms] show ?thesis by (auto simp: md5sum_step_blob_def md5_incr_taken_def)
qed

lemma md5_finish_taken:
  assumes "md5_incr_taken g m"
  shows "\<exists>g'. md5sum_finish g = Some (base16 (md5_digest m) @ [0], g') \<and> \<not> md5_incrInit g' \<and>
    length (inbuf (md5_incrCtx g')) = 64"
proof -
  obtain g1 where g1: "md5sum_step_text g [] 0 = Some g1" "md5_taken (md5_incrCtx g1) m"
    using md5_step_text_taken [OF assms, of "[]"] by auto
  from MD5Final_taken [OF g1(2)] obtain c' where "MD5Final (md5_incrCtx g1) = Some (md5_digest m, c')" "length (inbuf c') = 64"
    by blast
  with g1(1) show ?thesis by (simp add: md5sum_finish_def DigestToBase16_eq)
qed

interpretation md5_sum: streaming_hash "\<lparr>md5_incrCtx = MD5Init (replicate 64 0), md5_incrInit = False\<rparr>" md5sum_step_blob
    "\<lambda>g. map_option fst (md5sum_finish g)" md5_incr_taken "\<lambda>m. base16 (md5_digest m) @ [0]" "2 ^ 31"
proof unfold_locales
  fix g m
  assume "md5_incr_taken g m"
  from md5_finish_taken [OF this] show "map_option fst (md5sum_finish g) = Some (base16 (md5_digest m) @ [0])" by auto
qed (use md5_step_blob_taken in \<open>simp_all add: md5_incr_taken_def MD5Init_def\<close>)

lemma md5_file_loop_taken: "md5_taken c m \<Longrightarrow> \<exists>c'. md5_file_loop c z = Some c' \<and> md5_taken c' (m @ z)"
proof (induction "length z" arbitrary: c m z rule: less_induct)
  case less
  show ?case
  proof (cases "z = []")
    case False
    have l: "length (take 10240 z) < 2 ^ 32" by (rule le_less_trans [of _ 10240]) simp_all
    obtain c1 where c1: "MD5Update c (take 10240 z) (of_nat (length (take 10240 z))) = Some c1" "md5_taken c1 (m @ take 10240 z)"
      using MD5Update_taken [OF less.prems l] by blast
    obtain c2 where "md5_file_loop c1 (drop 10240 z) = Some c2" "md5_taken c2 ((m @ take 10240 z) @ drop 10240 z)"
      using less.hyps [OF _ c1(2), of "drop 10240 z"] False by auto
    with c1(1) False show ?thesis by (subst md5_file_loop.simps) simp
  qed (use less.prems in \<open>simp add: md5_file_loop.simps\<close>)
qed

lemma md5sum_file_digest:
  assumes "length old = 64"
  shows "md5sum_file old (Some z) pCksum = Some (0, base16 (md5_digest z))"
proof -
  obtain c where c: "md5_file_loop (MD5Init old) z = Some c" "md5_taken c z" using md5_file_loop_taken [OF md5_taken_start [OF assms]] by auto
  from MD5Final_taken [OF c(2)] c(1) show ?thesis
    by (auto simp: md5sum_file_def DigestToBase16_eq length_base16)
qed

lemma md5sum_blob_digest:
  assumes "length old = 64" and "length z < 2 ^ 32"
  shows "md5sum_blob old z = Some (base16 (md5_digest z))"
proof -
  obtain c where c: "MD5Update (MD5Init old) z (of_nat (length z)) = Some c" "md5_taken c z"
    using MD5Update_taken [OF md5_taken_start [OF assms(1)] assms(2)] by auto
  from MD5Final_taken [OF c(2)] c(1) show ?thesis
    by (auto simp: md5sum_blob_def DigestToBase16_eq length_base16)
qed

section \<open>Properties\<close>

text \<open>
  C10: The incremental MD5 checksum is the digest of the standard: however a message is cut into pieces
  of less than \<open>2 ^ 31\<close> bytes, adding the pieces one by one and finishing gives the base 16 digits of
  the RFC 1321 digest of the whole message, and leaves the checksum ready for the next message.
\<close>

theorem md5_incremental:
  assumes "list_all (\<lambda>z. length z < 2 ^ 31) zs" and "\<not> md5_incrInit g" and "length (inbuf (md5_incrCtx g)) = 64"
  shows "\<exists>g'. fold_opt (\<lambda>z g. md5sum_step_blob g z) zs g \<bind> md5sum_finish =
    Some (base16 (md5_digest (concat zs)) @ [0], g') \<and> \<not> md5_incrInit g' \<and> length (inbuf (md5_incrCtx g')) = 64"
proof -
  have "md5_incr_taken g []" using assms(2,3) by (simp add: md5_incr_taken_def)
  from md5_sum.update_all [OF this assms(1)] obtain g' where
    g': "fold_opt (\<lambda>z g. md5sum_step_blob g z) zs g = Some g'" "md5_incr_taken g' (concat zs)" by auto
  with md5_finish_taken [OF g'(2)] show ?thesis by simp
qed

theorem md5_incremental_witness:
  "\<exists>g'. fold_opt (\<lambda>z g. md5sum_step_blob g z) [[c_a], [], [c_b, c_f]] \<lparr>md5_incrCtx = MD5Init (replicate 64 0), md5_incrInit = False\<rparr> \<bind>
    md5sum_finish = Some (base16 (md5_digest [c_a, c_b, c_f]) @ [0], g') \<and> \<not> md5_incrInit g'"
  using md5_incremental [of "[[c_a], [], [c_b, c_f]]" "\<lparr>md5_incrCtx = MD5Init (replicate 64 0), md5_incrInit = False\<rparr>"]
  by (auto simp: MD5Init_def)

text \<open>
  The size of a pointer is cleared at the end, which leaves the counts and the buffer with the end of
  the message in memory.
\<close>

lemma context_not_cleared: "MD5Final c = Some (d, c') \<Longrightarrow> bits0 c' = bits0 c \<and> bits1 c' = bits1 c"
  by (auto simp: MD5Final_def Let_def split: bind_splits if_splits)

end
