(* ===== verification/Fossil_Encode.thy ===== *)
theory Fossil_Encode
  imports Prelude_C
begin

text \<open>
  \<open>src/test4/encode.c\<close>: the text encodings of the Fossil SCM (HTML, URLs, the \<open>fossilize\<close>
  escapes of record headers, base 64, base 16 and the password obscuring), with the character
  classes of \<open>src/test4/blob.c\<close> they use. A C \<open>char\<close> is a byte; shifts followed by a mask read the
  same bits whether \<open>char\<close> is signed or not. Decoders that work in place are functions on the
  buffer with checked accesses, so a result other than \<open>None\<close> says that they stay inside it.
\<close>

section \<open>Character classes\<close>

definition fossil_isspace :: "byte \<Rightarrow> bool" where
  "fossil_isspace c \<longleftrightarrow> c = c_sp \<or> (c \<le> c_cr \<and> c_tab \<le> c)"

definition fossil_isalnum :: "byte \<Rightarrow> bool" where
  "fossil_isalnum c \<longleftrightarrow> (c_a \<le> c \<and> c \<le> c_z) \<or> (c_A \<le> c \<and> c \<le> c_Z) \<or> (c_0 \<le> c \<and> c \<le> c_9)"

section \<open>HTML\<close>

text \<open>First pass: the size of the result, an \<open>int\<close>.\<close>

fun htmlize_count :: "int \<Rightarrow> byte list \<Rightarrow> int \<Rightarrow> int option" where
  "htmlize_count n [] count = Some count"
| "htmlize_count n (c # cs) count = (if 0 < n \<and> c \<noteq> 0 then do {
       count \<leftarrow> c_int (count + (if c = c_lt then 4 else if c = c_gt then 4 else if c = c_amp then 5
         else if c = c_dquote then 6 else 1));
       htmlize_count (n - 1) cs count
     }
     else Some count)"

text \<open>Second pass: the bytes stored into \<open>zOut\<close>.\<close>

fun htmlize_loop :: "int \<Rightarrow> byte list \<Rightarrow> byte list" where
  "htmlize_loop n [] = []"
| "htmlize_loop n (c # cs) = (if 0 < n \<and> c \<noteq> 0 then
     (if c = c_lt then [c_amp, c_l, c_t, c_semi]
      else if c = c_gt then [c_amp, c_g, c_t, c_semi]
      else if c = c_amp then [c_amp, c_a, c_m, c_p, c_semi]
      else if c = c_dquote then [c_amp, c_q, c_u, c_o, c_t, c_semi]
      else [c]) @ htmlize_loop (n - 1) cs
     else [])"

text \<open>\<open>if( n<0 ) n = strlen(zIn)\<close>, from a \<open>size_t\<close> to an \<open>int\<close>.\<close>

definition arg_len :: "byte list \<Rightarrow> int \<Rightarrow> int" where
  "arg_len zIn n = (if n < 0 then to_int32 (int (length (cstr zIn))) else n)"

text \<open>
  The size allocated, and the bytes stored, terminator included. \<open>None\<close> is a size that overflows its
  \<open>int\<close>, also below: the block would then be smaller than the text.
\<close>

definition htmlize :: "byte list \<Rightarrow> int \<Rightarrow> (nat \<times> byte list) option" where
  "htmlize zIn n = (let n = arg_len zIn n in do {
     count \<leftarrow> htmlize_count n zIn 0;
     k \<leftarrow> c_int (count + 1);
     Some (nat k, htmlize_loop n zIn @ [0])
   })"

section \<open>URLs\<close>

definition hex_upper :: "byte list" where
  "hex_upper = bytes_of ''0123456789ABCDEF''"

definition IsSafeChar :: "byte \<Rightarrow> byte \<Rightarrow> bool" where
  "IsSafeChar other c \<longleftrightarrow> fossil_isalnum c \<or> c = c_dot \<or> c = c_dollar \<or> c = c_tilde \<or> c = c_minus
     \<or> c = c_uscore \<or> c = other"

fun EncodeHttp_count :: "byte \<Rightarrow> int \<Rightarrow> byte list \<Rightarrow> int \<Rightarrow> int option" where
  "EncodeHttp_count other n [] count = Some count"
| "EncodeHttp_count other n (c # cs) count = (if 0 < n \<and> c \<noteq> 0 then do {
       count \<leftarrow> c_int (count + (if IsSafeChar other c \<or> c = c_sp then 1 else 3));
       EncodeHttp_count other (n - 1) cs count
     }
     else Some count)"

fun EncodeHttp_loop :: "byte \<Rightarrow> int \<Rightarrow> byte list \<Rightarrow> byte list" where
  "EncodeHttp_loop other n [] = []"
| "EncodeHttp_loop other n (c # cs) = (if 0 < n \<and> c \<noteq> 0 then
     (if IsSafeChar other c then [c]
      else if c = c_sp then [c_plus]
      else [c_percent, hex_upper ! unat (drop_bit 4 c AND 0xf), hex_upper ! unat (c AND 0xf)])
     @ EncodeHttp_loop other (n - 1) cs
     else [])"

definition EncodeHttp :: "byte list \<Rightarrow> int \<Rightarrow> bool \<Rightarrow> (nat \<times> byte list) option" where
  "EncodeHttp zIn n encodeSlash = (let n = arg_len zIn n; other = if encodeSlash then c_a else c_slash in do {
     count \<leftarrow> EncodeHttp_count other n zIn 0;
     k \<leftarrow> c_int (count + 1);
     Some (nat k, EncodeHttp_loop other n zIn @ [0])
   })"

definition httpize :: "byte list \<Rightarrow> int \<Rightarrow> (nat \<times> byte list) option" where
  "httpize z n = EncodeHttp z n True"

definition urlize :: "byte list \<Rightarrow> int \<Rightarrow> (nat \<times> byte list) option" where
  "urlize z n = EncodeHttp z n False"

definition AsciiToHex :: "byte \<Rightarrow> byte" where
  "AsciiToHex c = (if c_a \<le> c \<and> c \<le> c_f then c + (10 - c_a)
     else if c_A \<le> c \<and> c \<le> c_F then c + (10 - c_A)
     else if c_0 \<le> c \<and> c \<le> c_9 then c - c_0
     else 0)"

text \<open>
  One round stores at most one byte: nothing is stored for a percent sign that is not followed
  by two characters. The result is the buffer and the index after the loop.
\<close>

function dehttpize_loop :: "byte list \<Rightarrow> nat \<Rightarrow> nat \<Rightarrow> (byte list \<times> nat) option" where
  "dehttpize_loop z i j = do {
     c \<leftarrow> peek z i;
     if c = 0 then Some (z, j)
     else if c = c_percent then do {
       c1 \<leftarrow> peek z (i + 1);
       c2 \<leftarrow> (if c1 = 0 then Some 0 else peek z (i + 2));
       if c1 \<noteq> 0 \<and> c2 \<noteq> 0 then do {
         z1 \<leftarrow> poke z j (push_bit 4 (AsciiToHex c1));
         c2' \<leftarrow> peek z1 (i + 2);
         z2 \<leftarrow> poke z1 j (z1 ! j OR AsciiToHex c2');
         dehttpize_loop z2 (i + 3) (j + 1)
       } else dehttpize_loop z (i + 1) (j + 1)
     } else if c = c_plus then do {
       z1 \<leftarrow> poke z j c_sp;
       dehttpize_loop z1 (i + 1) (j + 1)
     } else do {
       z1 \<leftarrow> poke z j c;
       dehttpize_loop z1 (i + 1) (j + 1)
     }
   }"
  by pat_completeness auto
termination
  by (relation "measure (\<lambda>(z, i, j). length z - i)") (auto dest!: peek_SomeD poke_SomeD)

declare dehttpize_loop.simps [simp del]

definition dehttpize :: "byte list \<Rightarrow> (byte list \<times> nat) option" where
  "dehttpize z = do {
     (z, j) \<leftarrow> dehttpize_loop z 0 0;
     z \<leftarrow> poke z j 0;
     Some (z, j)
   }"

section \<open>Record headers\<close>

definition needs_escape :: "byte \<Rightarrow> bool" where
  "needs_escape c \<longleftrightarrow> c = 0 \<or> c = c_sp \<or> c = c_nl \<or> c = c_tab \<or> c = c_cr \<or> c = c_ff \<or> c = c_vt
     \<or> c = c_bslash"

fun fossilize_count :: "byte list \<Rightarrow> nat" where
  "fossilize_count [] = 0"
| "fossilize_count (c # cs) = (if needs_escape c then 1 else 0) + fossilize_count cs"

definition space_letter :: "byte \<Rightarrow> byte" where
  "space_letter c = (if c = c_nl then c_n else if c = c_sp then c_s else if c = c_tab then c_t
     else if c = c_cr then c_r else if c = c_vt then c_v else if c = c_ff then c_f else c)"

fun fossilize_loop :: "byte list \<Rightarrow> byte list" where
  "fossilize_loop [] = []"
| "fossilize_loop (c # cs) =
     (if c = 0 then [c_bslash, c_0]
      else if c = c_bslash then [c_bslash, c_bslash]
      else if fossil_isspace c then [c_bslash, space_letter c]
      else [c]) @ fossilize_loop cs"

text \<open>
  \<open>strlen\<close> stored into an \<open>int\<close>. A length that becomes negative there is \<open>None\<close>: the sizes that the
  functions below compute from it are not those of any text.
\<close>

definition int_strlen :: "byte list \<Rightarrow> int option" where
  "int_strlen z = (let n = to_int32 (int (length (cstr z))) in if n < 0 then None else Some n)"

definition fossilize :: "byte list \<Rightarrow> int \<Rightarrow> (nat \<times> byte list) option" where
  "fossilize zIn nIn = do {
     nIn \<leftarrow> (if nIn < 0 then int_strlen zIn else Some nIn);
     b \<leftarrow> bytes_at zIn nIn;
     n \<leftarrow> c_int (int (fossilize_count b) + nIn);
     k \<leftarrow> c_int (n + 1);
     Some (nat k, fossilize_loop b @ [0])
   }"

function defossilize_skip :: "byte list \<Rightarrow> nat \<Rightarrow> (nat \<times> byte) option" where
  "defossilize_skip z i = do {
     c \<leftarrow> peek z i;
     if c \<noteq> 0 \<and> c \<noteq> c_bslash then defossilize_skip z (i + 1) else Some (i, c)
   }"
  by pat_completeness auto
termination
  by (relation "measure (\<lambda>(z, i). length z - i)") (auto dest!: peek_SomeD)

declare defossilize_skip.simps [simp del]

definition unescape :: "byte \<Rightarrow> byte" where
  "unescape c = (if c = c_n then c_nl else if c = c_s then c_sp else if c = c_t then c_tab
     else if c = c_r then c_cr else if c = c_v then c_vt else if c = c_f then c_ff
     else if c = c_0 then 0 else if c = c_bslash then c_bslash else c)"

function defossilize_loop :: "byte list \<Rightarrow> nat \<Rightarrow> nat \<Rightarrow> (byte list \<times> nat) option" where
  "defossilize_loop z i j = do {
     c \<leftarrow> peek z i;
     if c = 0 then Some (z, j)
     else do {
       c1 \<leftarrow> (if c = c_bslash then peek z (i + 1) else Some 0);
       if c1 \<noteq> 0 then do {
         z1 \<leftarrow> poke z j (unescape c1);
         defossilize_loop z1 (i + 2) (j + 1)
       } else do {
         z1 \<leftarrow> poke z j c;
         defossilize_loop z1 (i + 1) (j + 1)
       }
     }
   }"
  by pat_completeness auto
termination
  by (relation "measure (\<lambda>(z, i, j). length z - i)") (auto dest!: peek_SomeD poke_SomeD)

declare defossilize_loop.simps [simp del]

definition defossilize :: "byte list \<Rightarrow> byte list option" where
  "defossilize z = do {
     (i, c) \<leftarrow> defossilize_skip z 0;
     if c = 0 then Some z
     else do {
       (z, j) \<leftarrow> defossilize_loop z i i;
       c \<leftarrow> peek z j;
       if c \<noteq> 0 then poke z j 0 else Some z
     }
   }"

section \<open>Base 64\<close>

definition zBase :: "byte list" where
  "zBase = bytes_of ''ABCDEFGHIJKLMNOPQRSTUVWXYZabcdefghijklmnopqrstuvwxyz0123456789+/''"

fun encode64_loop :: "byte list \<Rightarrow> byte list" where
  "encode64_loop (a # b # c # r) =
     [zBase ! unat (drop_bit 2 a AND 0x3f),
      zBase ! unat ((push_bit 4 a AND 0x30) OR (drop_bit 4 b AND 0x0f)),
      zBase ! unat ((push_bit 2 b AND 0x3c) OR (drop_bit 6 c AND 0x03)),
      zBase ! unat (c AND 0x3f)] @ encode64_loop r"
| "encode64_loop [a, b] =
     [zBase ! unat (drop_bit 2 a AND 0x3f),
      zBase ! unat ((push_bit 4 a AND 0x30) OR (drop_bit 4 b AND 0x0f)),
      zBase ! unat (push_bit 2 b AND 0x3c), c_equal]"
| "encode64_loop [a] =
     [zBase ! unat (drop_bit 2 a AND 0x3f), zBase ! unat (push_bit 4 a AND 0x30), c_equal, c_equal]"
| "encode64_loop [] = []"

text \<open>The size allocated, and the bytes stored; a length of zero asks for \<open>strlen\<close> as well.\<close>

definition encode64 :: "byte list \<Rightarrow> int \<Rightarrow> (int \<times> byte list) option" where
  "encode64 zData nData = do {
     nData \<leftarrow> (if nData \<le> 0 then int_strlen zData else Some nData);
     b \<leftarrow> bytes_at zData nData;
     k \<leftarrow> c_int (nData * 4);
     Some (k sdiv 3 + 8, encode64_loop b @ [0])
   }"

definition trans :: "int list" where
  "trans = fold (\<lambda>i t. t[unat (zBase ! i AND 0x7f) := int i]) [0..<64] (replicate 128 0)"

definition trans64 :: "byte \<Rightarrow> int" where
  "trans64 c = trans ! unat (c AND 0x7f)"

definition byte_ab :: "int \<Rightarrow> int \<Rightarrow> byte" where
  "byte_ab a b = word_of_int ((push_bit 2 a AND 0xfc) OR (drop_bit 4 b AND 0x03))"

definition byte_bc :: "int \<Rightarrow> int \<Rightarrow> byte" where
  "byte_bc b c = word_of_int ((push_bit 4 b AND 0xf0) OR (drop_bit 2 c AND 0x0f))"

definition byte_cd :: "int \<Rightarrow> int \<Rightarrow> byte" where
  "byte_cd c d = word_of_int ((push_bit 6 c AND 0xc0) OR (d AND 0x3f))"

fun decode64_loop :: "byte list \<Rightarrow> byte list" where
  "decode64_loop (z0 # z1 # z2 # z3 # r) =
     (let a = trans64 z0; b = trans64 z1; c = trans64 z2; d = trans64 z3
      in [byte_ab a b, byte_bc b c, byte_cd c d] @ decode64_loop r)"
| "decode64_loop [z0, z1, z2] =
     (let a = trans64 z0; b = trans64 z1; c = trans64 z2 in [byte_ab a b, byte_bc b c])"
| "decode64_loop [z0, z1] = (let a = trans64 z0; b = trans64 z1 in [byte_ab a b])"
| "decode64_loop _ = []"

fun drop_trailing :: "byte \<Rightarrow> byte list \<Rightarrow> nat \<Rightarrow> nat" where
  "drop_trailing x z 0 = 0"
| "drop_trailing x z (Suc n) = (if z ! n = x then drop_trailing x z n else Suc n)"

text \<open>The size allocated, the bytes stored with the terminator, and \<open>*pnByte\<close>.\<close>

definition decode64 :: "byte list \<Rightarrow> (int \<times> byte list \<times> nat) option" where
  "decode64 z64 = do {
     n64 \<leftarrow> int_strlen z64;
     let s = cstr z64;
     let n64 = drop_trailing c_equal s (nat n64);
     k \<leftarrow> c_int (int n64 * 3);
     let out = decode64_loop (take n64 s);
     Some (k sdiv 4 + 4, out @ [0], length out)
   }"

section \<open>Base 16\<close>

definition zEncode :: "byte list" where
  "zEncode = bytes_of ''0123456789abcdef''"

text \<open>
  \<open>encode16\<close> reads and writes one memory \<open>m\<close>, since \<open>obscure\<close> calls it with an input that lies
  inside the output.
\<close>

function encode16_loop :: "byte list \<Rightarrow> nat \<Rightarrow> nat \<Rightarrow> nat \<Rightarrow> nat \<Rightarrow> (byte list \<times> nat) option" where
  "encode16_loop m pIn zOut N i = (if i < N then do {
       c \<leftarrow> peek m (pIn + i);
       m \<leftarrow> poke m zOut (zEncode ! unat (drop_bit 4 c));
       c \<leftarrow> peek m (pIn + i);
       m \<leftarrow> poke m (zOut + 1) (zEncode ! unat (c AND 0xf));
       encode16_loop m pIn (zOut + 2) N (i + 1)
     } else Some (m, zOut))"
  by pat_completeness auto
termination
  by (relation "measure (\<lambda>(m, pIn, zOut, N, i). N - i)") auto

declare encode16_loop.simps [simp del]

definition encode16 :: "byte list \<Rightarrow> nat \<Rightarrow> nat \<Rightarrow> nat \<Rightarrow> byte list option" where
  "encode16 m pIn zOut N = do {
     (m, zOut) \<leftarrow> encode16_loop m pIn zOut N 0;
     poke m zOut 0
   }"

definition zDecode :: "int list" where
  "zDecode =
     replicate 48 64 @
     [0, 1, 2, 3, 4, 5, 6, 7, 8, 9, 64, 64, 64, 64, 64, 64,
      64, 10, 11, 12, 13, 14, 15, 64, 64, 64, 64, 64, 64, 64, 64, 64] @
     replicate 16 64 @
     [64, 10, 11, 12, 13, 14, 15, 64, 64, 64, 64, 64, 64, 64, 64, 64] @
     replicate 144 64"

function decode16_loop :: "byte list \<Rightarrow> byte list \<Rightarrow> nat \<Rightarrow> nat \<Rightarrow> nat \<Rightarrow> (int \<times> byte list) option" where
  "decode16_loop zIn pOut N i j = (if i < N then do {
       a \<leftarrow> peek zIn i;
       if a AND 0x80 \<noteq> 0 \<or> zDecode ! unat a = 64 then Some (1, pOut)
       else do {
         b \<leftarrow> peek zIn (i + 1);
         if b AND 0x80 \<noteq> 0 \<or> zDecode ! unat b = 64 then Some (1, pOut)
         else do {
           pOut \<leftarrow> poke pOut j (word_of_int (push_bit 4 (zDecode ! unat a) + zDecode ! unat b));
           decode16_loop zIn pOut N (i + 2) (j + 1)
         }
       }
     } else Some (0, pOut))"
  by pat_completeness auto
termination
  by (relation "measure (\<lambda>(zIn, pOut, N, i, j). N - i)") auto

declare decode16_loop.simps [simp del]

definition decode16 :: "byte list \<Rightarrow> byte list \<Rightarrow> nat \<Rightarrow> (int \<times> byte list) option" where
  "decode16 zIn pOut N = (if odd N then Some (1, pOut) else decode16_loop zIn pOut N 0 0)"

function validate16_loop :: "byte list \<Rightarrow> nat \<Rightarrow> nat \<Rightarrow> bool option" where
  "validate16_loop zIn nIn i = (if i < nIn then do {
       c \<leftarrow> peek zIn i;
       if 63 < zDecode ! unat (c AND 0xff) then Some (c = 0)
       else validate16_loop zIn nIn (i + 1)
     } else Some True)"
  by pat_completeness auto
termination
  by (relation "measure (\<lambda>(zIn, nIn, i). nIn - i)") auto

declare validate16_loop.simps [simp del]

definition validate16 :: "byte list \<Rightarrow> nat \<Rightarrow> bool option" where
  "validate16 zIn nIn = validate16_loop zIn nIn 0"

text \<open>The condition tests the byte before it decrements \<open>n\<close>, which a negative \<open>n\<close> never ends.\<close>

function canonical16 :: "byte list \<Rightarrow> nat \<Rightarrow> int \<Rightarrow> byte list option" where
  "canonical16 m z n = do {
     c \<leftarrow> peek m z;
     if c \<noteq> 0 \<and> n \<noteq> 0 then do {
       m \<leftarrow> poke m z (zEncode ! unat (word_of_int (zDecode ! unat (c AND 0x7f)) AND 0x1f :: byte));
       canonical16 m (z + 1) (n - 1)
     } else Some m
   }"
  by pat_completeness auto
termination
  by (relation "measure (\<lambda>(m, z, n). length m - z)") (auto dest!: peek_SomeD poke_SomeD)

declare canonical16.simps [simp del]

section \<open>Passwords\<close>

definition aObscurer :: "byte list" where
  "aObscurer = [0xa7, 0x21, 0x31, 0xe3, 0x2a, 0x50, 0x2c, 0x86,
                0x4c, 0xa4, 0x52, 0x25, 0xff, 0x49, 0x35, 0x85]"

text \<open>\<open>fossil_malloc\<close> gives a block whose bytes are those of \<open>heap\<close>: any.\<close>

definition fossil_malloc :: "(nat \<Rightarrow> byte) \<Rightarrow> nat \<Rightarrow> byte list" where
  "fossil_malloc heap k = map heap [0..<k]"

function xor_loop :: "byte list \<Rightarrow> nat \<Rightarrow> byte \<Rightarrow> byte list \<Rightarrow> nat \<Rightarrow> nat \<Rightarrow> byte list option" where
  "xor_loop zOut off salt zIn n i = (if i < n then do {
       c \<leftarrow> peek zIn i;
       zOut \<leftarrow> poke zOut (i + off) ((c XOR aObscurer ! (i mod 16)) XOR salt);
       xor_loop zOut off salt zIn n (i + 1)
     } else Some zOut)"
  by pat_completeness auto
termination
  by (relation "measure (\<lambda>(zOut, off, salt, zIn, n, i). n - i)") auto

declare xor_loop.simps [simp del]

text \<open>The random byte of \<open>sqlite3_randomness\<close> is the argument \<open>salt\<close>.\<close>

definition obscure :: "(nat \<Rightarrow> byte) \<Rightarrow> byte \<Rightarrow> byte list \<Rightarrow> byte list option" where
  "obscure heap salt zIn = do {
     n \<leftarrow> int_strlen zIn;
     k \<leftarrow> c_int (n * 2);
     k \<leftarrow> c_int (k + 3);
     let n = nat n;
     zOut \<leftarrow> poke (fossil_malloc heap (nat k)) (n + 1) salt;
     zOut \<leftarrow> xor_loop zOut (n + 2) salt zIn n 0;
     encode16 zOut (n + 1) 0 (n + 1)
   }"

text \<open>The loop over \<open>zOut\<close> of \<open>unobscure\<close>, in place.\<close>

function unxor_loop :: "byte list \<Rightarrow> byte \<Rightarrow> nat \<Rightarrow> nat \<Rightarrow> byte list option" where
  "unxor_loop zOut salt n i = (if i < n then do {
       c \<leftarrow> peek zOut i;
       zOut \<leftarrow> poke zOut i ((c XOR aObscurer ! (i mod 16)) XOR salt);
       unxor_loop zOut salt n (i + 1)
     } else Some zOut)"
  by pat_completeness auto
termination
  by (relation "measure (\<lambda>(zOut, salt, n, i). n - i)") auto

declare unxor_loop.simps [simp del]

definition unobscure :: "(nat \<Rightarrow> byte) \<Rightarrow> byte list \<Rightarrow> byte list option" where
  "unobscure heap zIn = do {
     n \<leftarrow> int_strlen zIn;
     k \<leftarrow> c_int (n + 1);
     let n = nat n;
     let zOut = fossil_malloc heap (nat k);
     if n < 2 then memcpy zOut zIn (n + 1)
     else do {
       (e, salt) \<leftarrow> decode16 zIn [heap n] 2;
       if e \<noteq> 0 then memcpy zOut zIn (n + 1)
       else do {
         (e, zOut) \<leftarrow> decode16 (drop 2 zIn) zOut (n - 2);
         if e \<noteq> 0 then memcpy zOut zIn (n + 1)
         else do {
           zOut \<leftarrow> unxor_loop zOut (hd salt) (n div 2 - 1) 0;
           poke zOut (n div 2 - 1) 0
         }
       }
     }
   }"

section \<open>What the encodings guarantee\<close>

subsection \<open>HTML\<close>

lemma int_strlen_id [simp]: "int (length (cstr z)) < 2 ^ 31 \<Longrightarrow> int_strlen z = Some (int (length (cstr z)))"
  by (simp add: int_strlen_def to_int32_id)

text \<open>The count of the first pass overflows when the number of the bytes stored does.\<close>

lemma htmlize_count_length:
  "0 \<le> count \<Longrightarrow> count < 2 ^ 31 \<Longrightarrow> htmlize_count n zIn count = c_int (count + int (length (htmlize_loop n zIn)))"
  by (induction n zIn count rule: htmlize_count.induct) (auto simp: c_int_eq)

lemma htmlize_loop_safe:
  "set (htmlize_loop n zIn) \<inter> {0, c_lt, c_gt, c_dquote} = {}"
  by (induction n zIn rule: htmlize_loop.induct) auto

text \<open>What a reader of the HTML sees: the character each entity stands for.\<close>

function unhtml :: "byte list \<Rightarrow> byte list" where
  "unhtml s = (if s = [] then []
     else if take 4 s = bytes_of ''&lt;'' then c_lt # unhtml (drop 4 s)
     else if take 4 s = bytes_of ''&gt;'' then c_gt # unhtml (drop 4 s)
     else if take 5 s = bytes_of ''&amp;'' then c_amp # unhtml (drop 5 s)
     else if take 6 s = bytes_of ''&quot;'' then c_dquote # unhtml (drop 6 s)
     else hd s # unhtml (tl s))"
  by pat_completeness auto
termination
  by (relation "measure length") auto

declare unhtml.simps [simp del]

lemma unhtml_cases:
  "unhtml [] = []"
  "unhtml (c_amp # c_l # c_t # c_semi # r) = c_lt # unhtml r"
  "unhtml (c_amp # c_g # c_t # c_semi # r) = c_gt # unhtml r"
  "unhtml (c_amp # c_a # c_m # c_p # c_semi # r) = c_amp # unhtml r"
  "unhtml (c_amp # c_q # c_u # c_o # c_t # c_semi # r) = c_dquote # unhtml r"
  "c \<noteq> c_amp \<Longrightarrow> unhtml (c # r) = c # unhtml r"
  by (subst unhtml.simps; simp)+

lemma unhtml_htmlize: "unhtml (htmlize_loop (int n) zIn) = cstr (take n zIn)"
proof (induction zIn arbitrary: n)
  case Nil
  then show ?case by (simp add: unhtml_cases cstr_def)
next
  case (Cons c cs)
  then show ?case by (cases n) (auto simp: unhtml_cases cstr_def)
qed

subsection \<open>URLs\<close>

lemma AsciiToHex_upper:
  "i < 16 \<Longrightarrow> AsciiToHex (hex_upper ! i) = of_nat i \<and> hex_upper ! i \<noteq> 0"
proof -
  assume "i < 16"
  then have "i \<in> set [0..<16]" by simp
  moreover have "\<forall>i \<in> set [0..<16]. AsciiToHex (hex_upper ! i) = of_nat i \<and> hex_upper ! i \<noteq> 0"
    by code_simp
  ultimately show ?thesis by blast
qed

lemma nibbles: "push_bit 4 (drop_bit 4 c AND 0xf) OR (c AND 0xf) = (c :: byte)"
  by (rule byte_eqI) (simp_all add: bit_simps)

lemma low_nibble_less: "unat (c AND 0xf :: byte) < 16"
proof -
  have "c AND 0xf \<le> (0xf :: byte)" by (rule word_and_le1)
  then show ?thesis by (simp add: word_le_nat_alt)
qed

lemma AsciiToHex_nibble [simp]:
  "AsciiToHex (hex_upper ! unat (c AND 0xf)) = c AND 0xf" "hex_upper ! unat (c AND 0xf) \<noteq> 0"
  using AsciiToHex_upper [OF low_nibble_less [of c]] by simp_all

lemma EncodeHttp_count_length:
  "0 \<le> count \<Longrightarrow> count < 2 ^ 31 \<Longrightarrow> EncodeHttp_count oth n zIn count = c_int (count + int (length (EncodeHttp_loop oth n zIn)))"
  by (induction oth n zIn count rule: EncodeHttp_count.induct) (auto simp: c_int_eq)

text \<open>One step of the in-place decoder at each of the three shapes the encoder produces.\<close>

lemma dehttpize_safe:
  assumes "drop i z = c # r" "c \<noteq> 0" "c \<noteq> c_percent" "c \<noteq> c_plus" "j \<le> i"
  shows "dehttpize_loop z i j = dehttpize_loop (z[j := c]) (Suc i) (Suc j)"
  using drop_ConsD [OF assms(1)] assms(2-5) by (subst dehttpize_loop.simps) simp

lemma dehttpize_plus:
  assumes "drop i z = c_plus # r" "j \<le> i"
  shows "dehttpize_loop z i j = dehttpize_loop (z[j := c_sp]) (Suc i) (Suc j)"
  using drop_ConsD [OF assms(1)] assms(2) by (subst dehttpize_loop.simps) simp

lemma dehttpize_hex:
  assumes "drop i z = c_percent # hex_upper ! unat (drop_bit 4 c AND 0xf) # hex_upper ! unat (c AND 0xf) # r"
    "j \<le> i"
  shows "dehttpize_loop z i j = dehttpize_loop (z[j := c]) (i + 3) (Suc j)"
proof -
  note d = drop_ConsD [OF assms(1)]
  note d1 = drop_ConsD [OF conjunct2 [OF conjunct2 [OF d]]]
  note d2 = drop_ConsD [OF conjunct2 [OF conjunct2 [OF d1]]]
  have p: "peek z i = Some c_percent" "peek z (i + 1) = Some (hex_upper ! unat (drop_bit 4 c AND 0xf))"
    "\<And>y. peek (z[j := y]) (i + 2) = Some (hex_upper ! unat (c AND 0xf))"
    "peek z (i + 2) = Some (hex_upper ! unat (c AND 0xf))"
    "j < length z"
    using d d1 d2 assms(2) by auto
  show ?thesis
    by (subst dehttpize_loop.simps) (simp add: p p(2,3,4) [simplified] nibbles [simplified])
qed

lemma dehttpize_loop_correct:
  assumes "drop i z = EncodeHttp_loop oth (int n) s @ 0 # post" "j \<le> i"
    "oth = c_a \<or> oth = c_slash"
  shows "\<exists>z'. dehttpize_loop z i j = Some (z', j + length (cstr (take n s))) \<and>
    length z' = length z \<and> j + length (cstr (take n s)) < length z \<and>
    take (j + length (cstr (take n s))) z' = take j z @ cstr (take n s)"
  using assms
proof (induction s arbitrary: z i j n)
  case Nil
  then show ?case
    using drop_ConsD [of i z 0 post] by (subst dehttpize_loop.simps) (simp add: cstr_def)
next
  case (Cons c s)
  show ?case
  proof (cases "n = 0 \<or> c = 0")
    case True
    then show ?thesis
      using Cons.prems drop_ConsD [of i z 0 post] by (subst dehttpize_loop.simps) (auto simp add: cstr_def take_Cons')
  next
    case False
    then obtain m where n: "n = Suc m" by (cases n) auto
    have oth: "c_percent \<noteq> oth" "c_plus \<noteq> oth" using Cons.prems(3) by auto
    obtain k r where r: "drop k z = EncodeHttp_loop oth (int m) s @ 0 # post" "Suc j \<le> k" "j < length z"
      "dehttpize_loop z i j = dehttpize_loop (z[j := c]) k (Suc j)"
    proof (cases "IsSafeChar oth c \<or> c = c_sp")
      case True
      have z: "drop i z = (if IsSafeChar oth c then c else c_plus) # EncodeHttp_loop oth (int m) s @ 0 # post"
        using Cons.prems(1) n False True by auto
      have "c \<noteq> c_percent \<and> c \<noteq> c_plus" if "IsSafeChar oth c"
        using that oth by (auto simp: IsSafeChar_def fossil_isalnum_def)
      then have "dehttpize_loop z i j = dehttpize_loop (z[j := c]) (Suc i) (Suc j)"
        using dehttpize_safe [of i z c] dehttpize_plus [of i z]
          z Cons.prems(2) False True by (cases "IsSafeChar oth c") auto
      then show thesis using that [of "Suc i"] drop_ConsD [OF z] Cons.prems(2) by simp
    next
      case other: False
      then have z: "drop i z = c_percent # hex_upper ! unat (drop_bit 4 c AND 0xf) #
          hex_upper ! unat (c AND 0xf) # EncodeHttp_loop oth (int m) s @ 0 # post"
        using Cons.prems(1) n False by simp
      note d = drop_ConsD [OF z]
      note d1 = drop_ConsD [OF conjunct2 [OF conjunct2 [OF d]]]
      note d2 = drop_ConsD [OF conjunct2 [OF conjunct2 [OF d1]]]
      show thesis
        using that [of "i + 3"] dehttpize_hex [OF z Cons.prems(2)] d d1 d2 Cons.prems(2)
        by (simp add: eval_nat_numeral)
    qed
    show ?thesis
      using Cons.IH [of k "z[j := c]" m "Suc j"] r n False Cons.prems(3)
      by (auto simp: cstr_def take_Suc_update)
  qed
qed

subsection \<open>Record headers\<close>

lemma space_iff: "fossil_isspace c \<longleftrightarrow>
    c = c_sp \<or> c = c_tab \<or> c = c_nl \<or> c = c_vt \<or> c = c_ff \<or> c = c_cr"
proof
  assume "fossil_isspace c"
  then have "c = c_sp \<or> (9 \<le> unat c \<and> unat c \<le> 13)"
    by (auto simp: fossil_isspace_def word_le_nat_alt)
  then have "c = c_sp \<or> unat c = 9 \<or> unat c = 10 \<or> unat c = 11 \<or> unat c = 12 \<or> unat c = 13"
    by linarith
  then show "c = c_sp \<or> c = c_tab \<or> c = c_nl \<or> c = c_vt \<or> c = c_ff \<or> c = c_cr"
    by (auto simp: word_unat_eq_iff)
qed (auto simp: fossil_isspace_def)

lemma needs_escape_iff: "needs_escape c \<longleftrightarrow> c = 0 \<or> c = c_bslash \<or> fossil_isspace c"
  by (auto simp: needs_escape_def space_iff)

lemma fossilize_count_length: "length (fossilize_loop b) = fossilize_count b + length b"
  by (induction b) (auto simp: needs_escape_iff)

lemma unescape_space [simp]:
  "fossil_isspace c \<Longrightarrow> unescape (space_letter c) = c"
  "fossil_isspace c \<Longrightarrow> space_letter c \<noteq> 0"
  "unescape c_0 = 0" "unescape c_bslash = c_bslash"
  by (auto simp: space_iff unescape_def space_letter_def)

lemma fossilize_loop_clean:
  "c \<in> set (fossilize_loop b) \<Longrightarrow> c \<noteq> 0 \<and> \<not> fossil_isspace c"
  by (induction b) (auto simp: space_iff space_letter_def split: if_splits)

lemma defossilize_plain:
  assumes "drop i z = c # r" "c \<noteq> 0" "c \<noteq> c_bslash" "j \<le> i"
  shows "defossilize_loop z i j = defossilize_loop (z[j := c]) (Suc i) (Suc j)"
  using drop_ConsD [OF assms(1)] assms(2-4) by (subst defossilize_loop.simps) simp

lemma defossilize_escape:
  assumes "drop i z = c_bslash # e # r" "e \<noteq> 0" "j \<le> i"
  shows "defossilize_loop z i j = defossilize_loop (z[j := unescape e]) (Suc (Suc i)) (Suc j)"
  using drop_ConsD [OF assms(1)] drop_ConsD [of "Suc i" z e r] assms(2,3)
  by (subst defossilize_loop.simps) simp

lemma defossilize_loop_correct:
  assumes "drop i z = fossilize_loop s @ 0 # post" "j \<le> i"
  shows "\<exists>z'. defossilize_loop z i j = Some (z', j + length s) \<and> length z' = length z \<and>
    j + length s < length z \<and> take (j + length s) z' = take j z @ s"
  using assms
proof (induction s arbitrary: z i j)
  case Nil
  then show ?case
    using drop_ConsD [of i z 0 post] by (subst defossilize_loop.simps) simp
next
  case (Cons c s)
  obtain k where k: "drop k z = fossilize_loop s @ 0 # post" "Suc j \<le> k" "j < length z"
    "defossilize_loop z i j = defossilize_loop (z[j := c]) k (Suc j)"
  proof (cases "needs_escape c")
    case True
    define e where "e = (if c = 0 then c_0 else if c = c_bslash then c_bslash else space_letter c)"
    have e: "e \<noteq> 0" "unescape e = c"
      using True by (auto simp: e_def needs_escape_iff)
    have z: "drop i z = c_bslash # e # fossilize_loop s @ 0 # post"
      using Cons.prems(1) True by (auto simp: e_def needs_escape_iff)
    show thesis
      using that [of "Suc (Suc i)"] defossilize_escape [OF z e(1) Cons.prems(2)] e(2)
        drop_ConsD [OF z] drop_ConsD [of "Suc i" z e] Cons.prems(2) by auto
  next
    case False
    then have "\<not> fossil_isspace c" by (auto simp: needs_escape_iff)
    then have z: "drop i z = c # fossilize_loop s @ 0 # post"
      using Cons.prems(1) False by (auto simp: needs_escape_iff)
    show thesis
      using that [of "Suc i"] defossilize_plain [OF z _ _ Cons.prems(2)] False drop_ConsD [OF z]
        Cons.prems(2) by (auto simp: needs_escape_iff)
  qed
  then show ?case
    using Cons.IH [of k "z[j := c]" "Suc j"] by (auto simp: take_Suc_update)
qed

text \<open>The first loop stops at the first escape; up to there the text stands for itself.\<close>

lemma defossilize_skip_correct:
  assumes "drop i z = fossilize_loop s @ 0 # post"
  shows "\<exists>p t. s = p @ t \<and> fossilize_loop s = p @ fossilize_loop t \<and>
    defossilize_skip z i = Some (i + length p, (fossilize_loop t @ [0]) ! 0) \<and>
    ((fossilize_loop t @ [0]) ! 0 = 0 \<longleftrightarrow> t = [])"
  using assms
proof (induction s arbitrary: i)
  case Nil
  then show ?case
    using drop_ConsD [of i z 0 post] by (subst defossilize_skip.simps) auto
next
  case (Cons c s)
  show ?case
  proof (cases "needs_escape c")
    case True
    then have "fossilize_loop (c # s) = c_bslash # (if c = 0 then c_0 else if c = c_bslash then c_bslash
        else space_letter c) # fossilize_loop s"
      by (auto simp: needs_escape_iff)
    then obtain e where e: "fossilize_loop (c # s) = c_bslash # e # fossilize_loop s" by blast
    then have "defossilize_skip z i = Some (i, c_bslash)"
      using Cons.prems drop_ConsD [of i z] by (subst defossilize_skip.simps) simp
    then show ?thesis using e by (intro exI [of _ "[]"] exI [of _ "c # s"]) simp
  next
    case False
    then have f: "fossilize_loop (c # s) = c # fossilize_loop s"
      by (auto simp: needs_escape_iff)
    note d = drop_ConsD [of i z c "fossilize_loop s @ 0 # post"]
    obtain p t where "s = p @ t" "fossilize_loop s = p @ fossilize_loop t"
      "defossilize_skip z (Suc i) = Some (Suc i + length p, (fossilize_loop t @ [0]) ! 0)"
      "(fossilize_loop t @ [0]) ! 0 = 0 \<longleftrightarrow> t = []"
      using Cons.IH [of "Suc i"] d Cons.prems f by auto
    moreover have "defossilize_skip z i = defossilize_skip z (Suc i)"
      using d Cons.prems f False by (subst defossilize_skip.simps) (simp add: needs_escape_iff)
    ultimately show ?thesis
      using f by (intro exI [of _ "c # p"] exI [of _ t]) simp
  qed
qed

subsection \<open>Base 64\<close>

lemma zBase_list: "zBase =
    [65, 66, 67, 68, 69, 70, 71, 72, 73, 74, 75, 76, 77, 78, 79, 80, 81, 82, 83, 84, 85, 86,
     87, 88, 89, 90, 97, 98, 99, 100, 101, 102, 103, 104, 105, 106, 107, 108, 109, 110, 111,
     112, 113, 114, 115, 116, 117, 118, 119, 120, 121, 122, 48, 49, 50, 51, 52, 53, 54, 55, 56,
     57, 43, 47]"
  by (simp add: zBase_def)

lemma zBase_facts:
  "length zBase = 64" "distinct zBase"
  "c \<in> set zBase \<Longrightarrow> c AND 0x7f = c \<and> c < 0x80 \<and> c \<noteq> 0 \<and> c \<noteq> c_equal"
  by (auto simp: zBase_list)

lemma table_length: "length (fold (\<lambda>i t. t[f i := g i]) is t) = length t"
  by (induction "is" arbitrary: t) simp_all

lemma table_nth:
  "inj_on f {..<n} \<Longrightarrow> (\<forall>i < n. f i < length t) \<Longrightarrow> i < n \<Longrightarrow>
    fold (\<lambda>i t. t[f i := g i]) [0..<n] t ! f i = g i"
proof (induction n)
  case (Suc n)
  have "inj_on f {..<n}" using Suc.prems(1) by (auto simp: inj_on_def)
  moreover have "i \<noteq> n \<Longrightarrow> f n \<noteq> f i" using Suc.prems(1,3) by (auto simp: inj_on_def)
  ultimately show ?case using Suc by (cases "i = n") (simp_all add: table_length)
qed simp

lemma trans64_nth:
  assumes "i < 64"
  shows "trans64 (zBase ! i) = int i"
proof -
  have f: "unat (zBase ! i AND 0x7f) = unat (zBase ! i)" "unat (zBase ! i) < 128" if "i < 64" for i
    using zBase_facts(3) [of "zBase ! i"] that zBase_facts(1) by (simp_all add: word_less_nat_alt)
  have "inj_on (\<lambda>i. unat (zBase ! i AND 0x7f)) {..<64}"
    using f(1) zBase_facts(1,2) by (auto simp: inj_on_def nth_eq_iff_index_eq simp flip: word_unat_eq_iff)
  from table_nth [OF this, of "replicate 128 0" i int] f assms show ?thesis
    by (simp add: trans64_def trans_def)
qed

lemma trans64_zBase:
  fixes w :: byte
  assumes "w AND 0x3f = w"
  shows "trans64 (zBase ! unat w) = uint w" and "zBase ! unat w \<noteq> c_equal" and "zBase ! unat w \<noteq> 0"
proof -
  have "w \<le> 0x3f" by (metis assms word_and_le1)
  then have w: "unat w < 64" by (simp add: word_le_nat_alt)
  then show "trans64 (zBase ! unat w) = uint w" using trans64_nth by simp
  show "zBase ! unat w \<noteq> c_equal" "zBase ! unat w \<noteq> 0"
    using zBase_facts(3) [of "zBase ! unat w"] w zBase_facts(1) by simp_all
qed

text \<open>The four 6-bit groups stay below 64, and the three bytes come back from them.\<close>

lemma groups64 [simp]:
  fixes a b c :: byte
  shows "(drop_bit 2 a AND 0x3f) AND 0x3f = drop_bit 2 a AND 0x3f"
    "((push_bit 4 a AND 0x30) OR (drop_bit 4 b AND 0x0f)) AND 0x3f =
      (push_bit 4 a AND 0x30) OR (drop_bit 4 b AND 0x0f)"
    "((push_bit 2 b AND 0x3c) OR (drop_bit 6 c AND 0x03)) AND 0x3f =
      (push_bit 2 b AND 0x3c) OR (drop_bit 6 c AND 0x03)"
    "(push_bit 2 b AND 0x3c) AND 0x3f = push_bit 2 b AND 0x3c"
    "(push_bit 4 a AND 0x30) AND 0x3f = push_bit 4 a AND 0x30"
    "(c AND 0x3f) AND 0x3f = c AND 0x3f"
  by (rule byte_eqI; simp add: bit_simps)+

lemma bytes64:
  fixes a b c :: byte
  shows "byte_ab (uint (drop_bit 2 a AND 0x3f)) (uint ((push_bit 4 a AND 0x30) OR (drop_bit 4 b AND 0x0f))) = a"
    "byte_ab (uint (drop_bit 2 a AND 0x3f)) (uint (push_bit 4 a AND 0x30)) = a"
    "byte_bc (uint ((push_bit 4 a AND 0x30) OR (drop_bit 4 b AND 0x0f)))
       (uint ((push_bit 2 b AND 0x3c) OR (drop_bit 6 c AND 0x03))) = b"
    "byte_bc (uint ((push_bit 4 a AND 0x30) OR (drop_bit 4 b AND 0x0f))) (uint (push_bit 2 b AND 0x3c)) = b"
    "byte_cd (uint ((push_bit 2 b AND 0x3c) OR (drop_bit 6 c AND 0x03))) (uint (c AND 0x3f)) = c"
  by (rule byte_eqI; simp add: bit_simps byte_ab_def byte_bc_def byte_cd_def)+

lemmas group64 = trans64_zBase [OF groups64(1)] trans64_zBase [OF groups64(2)] trans64_zBase [OF groups64(3)]
  trans64_zBase [OF groups64(4)] trans64_zBase [OF groups64(5)] trans64_zBase [OF groups64(6)]

text \<open>The encoder in terms of what the decoder reads from each character.\<close>

lemma encode64_step:
  "\<exists>z0 z1 z2 z3. encode64_loop (a # b # c # r) = [z0, z1, z2, z3] @ encode64_loop r \<and>
     z0 \<noteq> c_equal \<and> z1 \<noteq> c_equal \<and> z2 \<noteq> c_equal \<and> z3 \<noteq> c_equal \<and>
     z0 \<noteq> 0 \<and> z1 \<noteq> 0 \<and> z2 \<noteq> 0 \<and> z3 \<noteq> 0 \<and>
     byte_ab (trans64 z0) (trans64 z1) = a \<and> byte_bc (trans64 z1) (trans64 z2) = b \<and>
     byte_cd (trans64 z2) (trans64 z3) = c"
  by (intro exI conjI, rule encode64_loop.simps(1)) (simp only: group64 bytes64 not_False_eq_True)+

lemma encode64_last2:
  "\<exists>z0 z1 z2. encode64_loop [a, b] = [z0, z1, z2, c_equal] \<and>
     z0 \<noteq> c_equal \<and> z1 \<noteq> c_equal \<and> z2 \<noteq> c_equal \<and> z0 \<noteq> 0 \<and> z1 \<noteq> 0 \<and> z2 \<noteq> 0 \<and>
     byte_ab (trans64 z0) (trans64 z1) = a \<and> byte_bc (trans64 z1) (trans64 z2) = b"
  by (intro exI conjI, rule encode64_loop.simps(2)) (simp only: group64 bytes64 not_False_eq_True)+

lemma encode64_last1:
  "\<exists>z0 z1. encode64_loop [a] = [z0, z1, c_equal, c_equal] \<and>
     z0 \<noteq> c_equal \<and> z1 \<noteq> c_equal \<and> z0 \<noteq> 0 \<and> z1 \<noteq> 0 \<and> byte_ab (trans64 z0) (trans64 z1) = a"
  by (intro exI conjI, rule encode64_loop.simps(3)) (simp only: group64 bytes64 not_False_eq_True)+

lemma encode64_loop_shape:
  "\<exists>p k. encode64_loop b = p @ replicate k c_equal \<and> c_equal \<notin> set p \<and> 0 \<notin> set p \<and>
    decode64_loop p = b"
proof (induction b rule: encode64_loop.induct)
  case (1 a b c r)
  then obtain p k where p: "encode64_loop r = p @ replicate k c_equal" "c_equal \<notin> set p" "0 \<notin> set p"
    "decode64_loop p = r" by blast
  obtain z0 z1 z2 z3 where z: "encode64_loop (a # b # c # r) = [z0, z1, z2, z3] @ encode64_loop r"
    "c_equal \<notin> set [z0, z1, z2, z3]" "0 \<notin> set [z0, z1, z2, z3]"
    "byte_ab (trans64 z0) (trans64 z1) = a" "byte_bc (trans64 z1) (trans64 z2) = b"
    "byte_cd (trans64 z2) (trans64 z3) = c"
    using encode64_step [of a b c r] by (auto simp del: encode64_loop.simps)
  show ?case
    unfolding z(1) using p z(2-) by (intro exI [of _ "[z0, z1, z2, z3] @ p"] exI [of _ k]) simp
next
  case (2 a b)
  obtain z0 z1 z2 where z: "encode64_loop [a, b] = [z0, z1, z2, c_equal]"
    "c_equal \<notin> set [z0, z1, z2]" "0 \<notin> set [z0, z1, z2]"
    "byte_ab (trans64 z0) (trans64 z1) = a" "byte_bc (trans64 z1) (trans64 z2) = b"
    using encode64_last2 [of a b] by (auto simp del: encode64_loop.simps)
  show ?case
    unfolding z(1) using z(2-) by (intro exI [of _ "[z0, z1, z2]"] exI [of _ 1]) simp
next
  case (3 a)
  obtain z0 z1 where z: "encode64_loop [a] = [z0, z1, c_equal, c_equal]"
    "c_equal \<notin> set [z0, z1]" "0 \<notin> set [z0, z1]" "byte_ab (trans64 z0) (trans64 z1) = a"
    using encode64_last1 [of a] by (auto simp del: encode64_loop.simps)
  show ?case
    unfolding z(1) using z(2-)
    by (intro exI [of _ "[z0, z1]"] exI [of _ 2]) (simp add: numeral_2_eq_2)
next
  case 4
  show ?case by (intro exI [of _ "[]"] exI [of _ 0]) simp
qed

lemma drop_trailing_replicate:
  "x \<notin> set p \<Longrightarrow> drop_trailing x (p @ replicate k x) (length p + k) = length p"
proof (induction k)
  case 0
  then show ?case by (cases p rule: rev_cases) (auto simp: nth_append)
next
  case (Suc k)
  have "(p @ replicate (Suc k) x) ! (length p + k) = x" by (simp add: nth_append del: replicate_Suc)
  moreover have "drop_trailing x (p @ replicate (Suc k) x) n = drop_trailing x (p @ replicate k x) n"
    if "n \<le> length p + k" for n
    using that by (induction n) (auto simp: nth_append simp del: replicate_Suc)
  ultimately show ?case using Suc by simp
qed

subsection \<open>Base 16\<close>

definition hex16 :: "byte \<Rightarrow> byte list" where
  "hex16 c = [zEncode ! unat (drop_bit 4 c), zEncode ! unat (c AND 0xf)]"

definition hexes :: "byte list \<Rightarrow> byte list" where
  "hexes b = concat (map hex16 b)"

lemma hexes_simps [simp]:
  "hexes [] = []"
  "hexes (c # b) = zEncode ! unat (drop_bit 4 c) # zEncode ! unat (c AND 0xf) # hexes b"
  by (simp_all add: hexes_def hex16_def)

lemma length_hexes [simp]: "length (hexes b) = 2 * length b"
  by (induction b) simp_all

text \<open>
  The input may overlap the output as long as it starts at least \<open>N\<close> bytes behind it: then every
  byte is read, twice, before it is overwritten.
\<close>

lemma encode16_loop_correct:
  assumes "i \<le> N" "zOut + (N - i) \<le> pIn + i" "pIn + N \<le> length m" "zOut + 2 * (N - i) \<le> length m"
  shows "encode16_loop m pIn zOut N i =
    Some (take zOut m @ hexes (take (N - i) (drop (pIn + i) m)) @ drop (zOut + 2 * (N - i)) m,
          zOut + 2 * (N - i))"
  using assms
proof (induction "N - i" arbitrary: i m zOut)
  case 0
  then show ?case by (subst encode16_loop.simps) simp
next
  case (Suc k)
  then have i: "i < N" "N - Suc i = k" "N - i = Suc k" by simp_all
  define c where "c = m ! (pIn + i)"
  define m2 where "m2 = m[zOut := zEncode ! unat (drop_bit 4 c), Suc zOut := zEncode ! unat (c AND 0xf)]"
  have step: "encode16_loop m pIn zOut N i = encode16_loop m2 pIn (zOut + 2) N (Suc i)"
    using Suc.prems i by (subst encode16_loop.simps) (simp add: c_def m2_def)
  have inp: "take (N - i) (drop (pIn + i) m) = c # take k (drop (pIn + Suc i) m2)"
    using Suc.prems i by (simp add: m2_def c_def Cons_nth_drop_Suc [symmetric])
  have out: "take (zOut + 2) m2 = take zOut m @ hex16 c"
    using Suc.prems i by (simp add: m2_def hex16_def take_Suc_update eval_nat_numeral)
  have rest: "drop (zOut + 2 + 2 * k) m2 = drop (zOut + 2 * (N - i)) m"
    using i by (simp add: m2_def)
  have "encode16_loop m2 pIn (zOut + 2) N (Suc i) =
    Some (take (zOut + 2) m2 @ hexes (take (N - Suc i) (drop (pIn + Suc i) m2)) @
          drop (zOut + 2 + 2 * (N - Suc i)) m2, zOut + 2 + 2 * (N - Suc i))"
    by (rule Suc.hyps(1)) (use Suc.prems i in \<open>auto simp: m2_def\<close>)
  then show ?case
    using i out rest unfolding step inp by (simp add: hex16_def)
qed

lemma encode16_correct:
  assumes "zOut + N \<le> pIn" "pIn + N \<le> length m" "zOut + 2 * N < length m"
  shows "encode16 m pIn zOut N =
    Some (take zOut m @ hexes (take N (drop pIn m)) @ 0 # drop (zOut + 2 * N + 1) m)"
proof -
  have l: "length (take N (drop pIn m)) = N" using assms by simp
  define a where "a = take zOut m @ hexes (take N (drop pIn m))"
  have a: "length a = zOut + 2 * N" using assms l by (simp add: a_def)
  have d: "drop (zOut + 2 * N) m = m ! (zOut + 2 * N) # drop (zOut + 2 * N + 1) m"
    using assms by (simp add: Cons_nth_drop_Suc)
  have "encode16_loop m pIn zOut N 0 = Some (a @ drop (zOut + 2 * N) m, zOut + 2 * N)"
    using encode16_loop_correct [of 0 N zOut pIn m] assms by (simp add: a_def)
  then show ?thesis
    using a d assms unfolding encode16_def by (simp add: a_def [symmetric] list_update_append)
qed

lemma zEncode_decode:
  assumes "i < 16"
  shows "zDecode ! unat (zEncode ! i) = int i" and "(zEncode ! i) AND 0x80 = 0"
    and "zEncode ! i \<noteq> 0" and "63 \<ge> zDecode ! unat (zEncode ! i)"
proof -
  have "i \<in> set [0..<16]" using assms by simp
  moreover have "\<forall>i \<in> set [0..<16]. zDecode ! unat (zEncode ! i) = int i \<and> (zEncode ! i) AND 0x80 = 0 \<and> zEncode ! i \<noteq> 0"
    by code_simp
  ultimately show "zDecode ! unat (zEncode ! i) = int i" "(zEncode ! i) AND 0x80 = 0" "zEncode ! i \<noteq> 0"
    "63 \<ge> zDecode ! unat (zEncode ! i)" using assms by auto
qed

lemma high_nibble_less: "unat (drop_bit 4 c :: byte) < 16"
proof -
  have "drop_bit 4 c AND 0xf = drop_bit 4 c" by (rule byte_eqI) (simp_all add: bit_simps)
  then show ?thesis by (metis low_nibble_less)
qed

lemma nibbles_sum: "word_of_int (push_bit 4 (uint (drop_bit 4 c)) + uint (c AND 0xf)) = (c :: byte)"
proof -
  have "c AND 0xf = take_bit 4 c" by (rule byte_eqI) (simp_all add: bit_simps)
  then have "uint (c AND 0xf) = uint c mod 16" by (simp add: unsigned_take_bit_eq take_bit_eq_mod uint_mod)
  moreover have "uint (drop_bit 4 c) = uint c div 16" by (simp add: unsigned_drop_bit_eq drop_bit_eq_div uint_div)
  ultimately show ?thesis by (simp add: push_bit_eq_mult)
qed

lemma decode16_loop_correct:
  assumes "drop i zIn = hexes b @ post" "j + length b \<le> length pOut"
  shows "decode16_loop zIn pOut (i + 2 * length b) i j =
    Some (0, take j pOut @ b @ drop (j + length b) pOut)"
  using assms
proof (induction b arbitrary: i j pOut)
  case Nil
  then show ?case by (subst decode16_loop.simps) simp
next
  case (Cons c b)
  note d = drop_ConsD [of i zIn "zEncode ! unat (drop_bit 4 c)" "zEncode ! unat (c AND 0xf) # hexes b @ post"]
  note d1 = drop_ConsD [of "Suc i" zIn "zEncode ! unat (c AND 0xf)" "hexes b @ post"]
  have "decode16_loop zIn pOut (i + 2 * length (c # b)) i j =
    decode16_loop zIn (pOut[j := c]) (Suc (Suc i) + 2 * length b) (Suc (Suc i)) (Suc j)"
    using Cons.prems d d1 zEncode_decode [OF high_nibble_less [of c]] zEncode_decode [OF low_nibble_less [of c]]
    by (subst decode16_loop.simps) (simp add: nibbles_sum [simplified])
  also have "\<dots> = Some (0, take (Suc j) (pOut[j := c]) @ b @ drop (Suc j + length b) (pOut[j := c]))"
    using Cons.prems d d1 by (intro Cons.IH) auto
  finally show ?case using Cons.prems by (simp add: take_Suc_update)
qed

lemma validate16_step:
  assumes "i < nIn" "i < length zIn" "zDecode ! unat (zIn ! i) \<le> 63"
  shows "validate16_loop zIn nIn i = validate16_loop zIn nIn (Suc i)"
proof -
  have "x AND 0xff = x" for x :: byte by (rule byte_eqI) (simp_all add: bit_simps)
  then show ?thesis using assms by (subst validate16_loop.simps) simp
qed

lemma validate16_loop_correct:
  assumes "drop i zIn = hexes b @ post"
  shows "validate16_loop zIn (i + 2 * length b) i = Some True"
  using assms
proof (induction b arbitrary: i)
  case Nil
  then show ?case by (subst validate16_loop.simps) simp
next
  case (Cons c b)
  note d = drop_ConsD [of i zIn "zEncode ! unat (drop_bit 4 c)" "zEncode ! unat (c AND 0xf) # hexes b @ post"]
  note d1 = drop_ConsD [of "Suc i" zIn "zEncode ! unat (c AND 0xf)" "hexes b @ post"]
  have "validate16_loop zIn (i + 2 * length (c # b)) i = validate16_loop zIn (Suc (Suc i) + 2 * length b) (Suc (Suc i))"
    using Cons.prems d d1 zEncode_decode [OF high_nibble_less [of c]] zEncode_decode [OF low_nibble_less [of c]]
    by (simp add: validate16_step)
  then show ?case using Cons.IH [of "Suc (Suc i)"] Cons.prems d d1 by simp
qed

subsection \<open>Passwords\<close>

definition obscured :: "byte \<Rightarrow> nat \<Rightarrow> byte \<Rightarrow> byte" where
  "obscured salt i c = (c XOR aObscurer ! (i mod 16)) XOR salt"

lemma obscured_twice [simp]: "obscured salt i (obscured salt i c) = c"
  by (rule bit_word_eqI) (auto simp: obscured_def bit_simps)

lemma xor_loop_correct:
  assumes "i \<le> n" "n \<le> length zIn" "n + off \<le> length zOut"
  shows "\<exists>z. xor_loop zOut off salt zIn n i = Some z \<and> length z = length zOut \<and>
    (\<forall>k. z ! k = (if i + off \<le> k \<and> k < n + off then obscured salt (k - off) (zIn ! (k - off)) else zOut ! k))"
  using assms
proof (induction "n - i" arbitrary: i zOut)
  case 0
  then show ?case by (subst xor_loop.simps) auto
next
  case (Suc d)
  then have i: "i < n" "d = n - Suc i" by simp_all
  then have "xor_loop zOut off salt zIn n i = xor_loop (zOut[i + off := obscured salt i (zIn ! i)]) off salt zIn n (Suc i)"
    using Suc.prems by (subst xor_loop.simps) (simp add: obscured_def)
  moreover obtain z where "xor_loop (zOut[i + off := obscured salt i (zIn ! i)]) off salt zIn n (Suc i) = Some z"
    "length z = length zOut"
    "\<And>k. z ! k = (if Suc i + off \<le> k \<and> k < n + off then obscured salt (k - off) (zIn ! (k - off))
       else zOut[i + off := obscured salt i (zIn ! i)] ! k)"
    using Suc.hyps(1) [of "Suc i" "zOut[i + off := obscured salt i (zIn ! i)]"] Suc.prems i by auto
  ultimately show ?case using Suc.prems i by (auto simp: nth_list_update le_eq_less_or_eq Suc_le_eq)
qed

lemma unxor_loop_correct:
  assumes "i \<le> n" "n \<le> length zOut"
  shows "\<exists>z. unxor_loop zOut salt n i = Some z \<and> length z = length zOut \<and>
    (\<forall>k. z ! k = (if i \<le> k \<and> k < n then obscured salt k (zOut ! k) else zOut ! k))"
  using assms
proof (induction "n - i" arbitrary: i zOut)
  case 0
  then show ?case by (subst unxor_loop.simps) auto
next
  case (Suc d)
  then have i: "i < n" "d = n - Suc i" by simp_all
  then have "unxor_loop zOut salt n i = unxor_loop (zOut[i := obscured salt i (zOut ! i)]) salt n (Suc i)"
    using Suc.prems by (subst unxor_loop.simps) (simp add: obscured_def)
  moreover obtain z where "unxor_loop (zOut[i := obscured salt i (zOut ! i)]) salt n (Suc i) = Some z"
    "length z = length zOut"
    "\<And>k. z ! k = (if Suc i \<le> k \<and> k < n then obscured salt k (zOut[i := obscured salt i (zOut ! i)] ! k)
       else zOut[i := obscured salt i (zOut ! i)] ! k)"
    using Suc.hyps(1) [of "Suc i" "zOut[i := obscured salt i (zOut ! i)]"] Suc.prems i by auto
  ultimately show ?case using Suc.prems i by (auto simp: nth_list_update le_eq_less_or_eq Suc_le_eq)
qed

definition masked :: "byte \<Rightarrow> byte list \<Rightarrow> byte list" where
  "masked salt b = map (\<lambda>i. obscured salt i (b ! i)) [0..<length b]"

lemma length_cstr: "length (cstr z) \<le> length z"
  by (simp add: cstr_def length_takeWhile_le)

lemma nth_cstr: "i < length (cstr z) \<Longrightarrow> cstr z ! i = z ! i"
  by (simp add: cstr_def takeWhile_nth)

lemma obscure_correct:
  assumes "2 * length (cstr zIn) + 3 < 2 ^ 31"
  shows "obscure heap salt zIn = Some (hexes (salt # masked salt (cstr zIn)) @ [0])"
proof -
  define n where "n = length (cstr zIn)"
  define z0 where "z0 = (fossil_malloc heap (n * 2 + 3))[n + 1 := salt]"
  have z0: "length z0 = n * 2 + 3" by (simp add: z0_def fossil_malloc_def)
  obtain m where m: "xor_loop z0 (n + 2) salt zIn n 0 = Some m" "length m = n * 2 + 3"
    "\<And>k. m ! k = (if n + 2 \<le> k \<and> k < n + (n + 2) then obscured salt (k - (n + 2)) (zIn ! (k - (n + 2))) else z0 ! k)"
    using xor_loop_correct [of 0 n zIn "n + 2" z0 salt] length_cstr [of zIn] z0 by (auto simp: n_def)
  have "z0 ! (n + 1) = salt" by (simp add: z0_def fossil_malloc_def)
  then have "take (n + 1) (drop (n + 1) m) = salt # masked salt (cstr zIn)"
    using m(2) by (intro nth_equalityI) (auto simp: m(3) masked_def n_def nth_cstr nth_Cons split: nat.splits)
  then have "encode16 m (n + 1) 0 (n + 1) = Some (hexes (salt # masked salt (cstr zIn)) @ [0])"
    using encode16_correct [of 0 "n + 1" "n + 1" m] m(2) by simp
  moreover have "int_strlen zIn = Some (int n)" "c_int (int n * 2) = Some (int n * 2)"
    "c_int (int n * 2 + 3) = Some (int (n * 2 + 3))" "nat (int n * 2 + 3) = n * 2 + 3"
    using assms by (simp_all add: n_def c_int_eq)
  ultimately show ?thesis
    using m(1) by (simp add: obscure_def Let_def z0_def fossil_malloc_def)
qed

lemma hexes_nonzero: "0 \<notin> set (hexes b)"
  using zEncode_decode(3) [OF high_nibble_less] zEncode_decode(3) [OF low_nibble_less]
  by (induction b) fastforce+

lemma unobscure_correct:
  assumes "2 * length b + 3 < 2 ^ 31"
  shows "\<exists>out. unobscure heap (hexes (salt # b) @ [0]) = Some out \<and> length out = 2 * length b + 3 \<and>
    take (length b + 1) out = masked salt b @ [0]"
proof -
  define n where "n = 2 * length b + 2"
  have n: "length (cstr (hexes (salt # b) @ [0])) = n"
    using hexes_nonzero [of "salt # b"] by (subst cstr_append_nul) (simp_all add: n_def del: hexes_simps)
  have d1: "decode16 (hexes (salt # b) @ [0]) [heap n] 2 = Some (0, [salt])"
    using decode16_loop_correct [of 0 "hexes (salt # b) @ [0]" "[salt]" "hexes b @ [0]" 0 "[heap n]"]
    by (simp add: decode16_def numeral_2_eq_2)
  define z0 where "z0 = b @ drop (length b) (fossil_malloc heap (n + 1))"
  have z0: "length z0 = n + 1" by (simp add: z0_def fossil_malloc_def n_def)
  have d2: "decode16 (drop 2 (hexes (salt # b) @ [0])) (fossil_malloc heap (n + 1)) (n - 2) = Some (0, z0)"
    using decode16_loop_correct [of 0 "hexes b @ [0]" b "[0]" 0 "fossil_malloc heap (n + 1)"]
    by (simp add: decode16_def n_def z0_def fossil_malloc_def)
  have h: "n div 2 - 1 = length b" by (simp add: n_def)
  obtain z where z: "unxor_loop z0 salt (length b) 0 = Some z" "length z = n + 1"
    "\<And>k. z ! k = (if k < length b then obscured salt k (z0 ! k) else z0 ! k)"
    using unxor_loop_correct [of 0 "length b" z0 salt] z0 by (auto simp: n_def)
  have "take (length b + 1) (z[length b := 0]) = masked salt b @ [0]"
    using z(2) by (intro nth_equalityI)
      (auto simp: z(3) masked_def n_def z0_def nth_append nth_list_update less_Suc_eq)
  moreover have "unobscure heap (hexes (salt # b) @ [0]) = Some (z[length b := 0])"
  proof -
    have "int_strlen (hexes (salt # b) @ [0]) = Some (int n)" "c_int (int n + 1) = Some (int (n + 1))"
      using assms n by (simp_all add: n_def c_int_eq del: hexes_simps)
    moreover have "\<not> n < 2" "nat (int (n + 1)) = n + 1" by (simp_all add: n_def)
    ultimately show ?thesis unfolding unobscure_def Let_def using d1 d2 z h by (simp del: of_nat_add hexes_simps)
  qed
  ultimately show ?thesis using z(2) by (simp add: n_def)
qed

section \<open>The codecs\<close>

text \<open>What the in-place decoders leave in the buffer.\<close>

definition http_text :: "byte list \<Rightarrow> byte list option" where
  "http_text z = map_option (\<lambda>(z, j). take j z) (dehttpize z)"

definition header_text :: "byte list \<Rightarrow> nat \<Rightarrow> byte list option" where
  "header_text z k = map_option (take k) (defossilize z)"

text \<open>The bytes of the argument the encoders look at.\<close>

definition arg_text :: "byte list \<Rightarrow> int \<Rightarrow> byte list" where
  "arg_text zIn n = cstr (take (nat (arg_len zIn n)) zIn)"

lemma cstr_prefix: "take (length (cstr s)) s = cstr s"
  unfolding cstr_def by (rule takeWhile_eq_take [symmetric])

lemma arg_text_str [simp]: "n < 0 \<Longrightarrow> int (length (cstr s)) < 2 ^ 31 \<Longrightarrow> arg_text s n = cstr s"
  by (simp add: arg_text_def arg_len_def cstr_prefix to_int32_id)

text \<open>The bytes that \<open>EncodeHttp\<close> stores.\<close>

definition EncodeHttp_bytes :: "byte list \<Rightarrow> int \<Rightarrow> bool \<Rightarrow> byte list" where
  "EncodeHttp_bytes s n e = EncodeHttp_loop (if e then c_a else c_slash) (arg_len s n) s @ [0]"

lemma EncodeHttp_eq: "EncodeHttp s n e = (if int (length (EncodeHttp_bytes s n e)) < 2 ^ 31
    then Some (length (EncodeHttp_bytes s n e), EncodeHttp_bytes s n e) else None)"
proof -
  have "nat (int k + 1) = Suc k" for k by simp
  then show ?thesis
    by (auto simp: EncodeHttp_def EncodeHttp_bytes_def Let_def EncodeHttp_count_length c_int_eq)
qed

lemma EncodeHttp_bytes_nat: "EncodeHttp_bytes s n e =
    EncodeHttp_loop (if e then c_a else c_slash) (int (nat (arg_len s n))) s @ [0]"
proof (cases "0 \<le> arg_len s n")
  case False
  then show ?thesis by (cases s) (auto simp: EncodeHttp_bytes_def)
qed (simp add: EncodeHttp_bytes_def)

lemma dehttpize_EncodeHttp:
  "\<exists>z'. dehttpize (EncodeHttp_bytes s n e) = Some (z', length (arg_text s n)) \<and>
    length z' = length (EncodeHttp_bytes s n e) \<and>
    take (Suc (length (arg_text s n))) z' = arg_text s n @ [0]"
proof -
  define oth where "oth = (if e then c_a else c_slash)"
  then have oth: "oth = c_a \<or> oth = c_slash" by auto
  have e: "EncodeHttp_bytes s n e = EncodeHttp_loop oth (int (nat (arg_len s n))) s @ [0]"
    by (simp add: EncodeHttp_bytes_nat oth_def)
  obtain z' where z': "dehttpize_loop (EncodeHttp_bytes s n e) 0 0 = Some (z', length (arg_text s n))"
    "length z' = length (EncodeHttp_bytes s n e)" "length (arg_text s n) < length z'"
    "take (length (arg_text s n)) z' = arg_text s n"
    using dehttpize_loop_correct [of 0 "EncodeHttp_bytes s n e" oth "nat (arg_len s n)" s "[]" 0, OF _ _ oth]
    unfolding e arg_text_def by auto
  then show ?thesis
    by (intro exI [of _ "z'[length (arg_text s n) := 0]"]) (simp add: dehttpize_def take_Suc_update)
qed

lemma http_text_EncodeHttp: "http_text (EncodeHttp_bytes s n e) = Some (arg_text s n)"
  using dehttpize_EncodeHttp [of s n e] by (auto simp: http_text_def dest: take_butlast)

interpretation http: codec "\<lambda>s. EncodeHttp_bytes s (-1) True" http_text "\<lambda>s. 0 \<notin> set s \<and> int (length s) < 2 ^ 31"
  by unfold_locales (simp add: http_text_EncodeHttp)

interpretation url: codec "\<lambda>s. EncodeHttp_bytes s (-1) False" http_text "\<lambda>s. 0 \<notin> set s \<and> int (length s) < 2 ^ 31"
  by unfold_locales (simp add: http_text_EncodeHttp)

lemma defossilize_fossilize:
  "\<exists>z'. defossilize (fossilize_loop s @ 0 # post) = Some z' \<and> length z' = length (fossilize_loop s @ 0 # post) \<and>
    take (Suc (length s)) z' = s @ [0]"
proof -
  define z where "z = fossilize_loop s @ 0 # post"
  obtain p t where p: "s = p @ t" "fossilize_loop s = p @ fossilize_loop t"
    "defossilize_skip z 0 = Some (length p, (fossilize_loop t @ [0]) ! 0)"
    "(fossilize_loop t @ [0]) ! 0 = 0 \<longleftrightarrow> t = []"
    using defossilize_skip_correct [of 0 z s post, unfolded add_0 drop_0, OF z_def] by blast
  show ?thesis
  proof (cases "t = []")
    case True
    then show ?thesis using p by (simp add: defossilize_def z_def)
  next
    case False
    have "drop (length p) z = fossilize_loop t @ 0 # post" using p(2) by (simp add: z_def)
    then obtain z' where z': "defossilize_loop z (length p) (length p) = Some (z', length s)"
      "length z' = length z" "length s < length z'" "take (length s) z' = s"
      using defossilize_loop_correct [of "length p" z t post "length p"] p by (auto simp: z_def)
    then have "take (Suc (length s)) (z'[length s := 0]) = s @ [0]" by (simp add: take_Suc_update)
    moreover have "take (Suc (length s)) z' = s @ [0]" if "z' ! length s = 0"
      using z' that by (simp add: take_Suc_conv_app_nth)
    ultimately show ?thesis
      using z' p(3,4) False by (auto simp: defossilize_def z_def [symmetric])
  qed
qed

lemma header_text_fossilize:
  "header_text (fossilize_loop s @ [0]) (length s) = Some s"
  using defossilize_fossilize [of s "[]"] by (auto simp: header_text_def dest: take_butlast)

interpretation header: codec "\<lambda>s. (fossilize_loop s @ [0], length s)" "\<lambda>(z, k). header_text z k" "\<lambda>s. True"
  by unfold_locales (simp add: header_text_fossilize)

lemma encode64_block: "length (encode64_loop (a # b # c # r)) = 4 + length (encode64_loop r)"
  by (simp only: encode64_loop.simps length_append list.size)

lemma encode64_loop_length: "length (encode64_loop b) = 4 * ((length b + 2) div 3)"
proof (induction b rule: encode64_loop.induct)
  case (1 a b c r)
  have "length (a # b # c # r) + 2 = (length r + 2) + 3" by simp
  then have "(length (a # b # c # r) + 2) div 3 = (length r + 2) div 3 + 1" by (simp only: div_add_self2)
  then show ?case unfolding encode64_block 1 by (simp only: distrib_left)
next
  case (2 a b)
  show ?case unfolding encode64_loop.simps by simp
next
  case (3 a)
  show ?case unfolding encode64_loop.simps by simp
next
  case 4
  show ?case by simp
qed

lemma decode64_loop_length: "length (decode64_loop s) = length s * 3 div 4"
  by (induction s rule: decode64_loop.induct) (simp_all add: Let_def)

lemma decode64_encode64:
  assumes "b \<noteq> []" and "4 * ((length b + 2) div 3) < 2 ^ 29"
  shows "encode64 b (int (length b)) = Some (int (length b * 4 div 3) + 8, encode64_loop b @ [0])"
    and "\<exists>k. decode64 (encode64_loop b @ [0]) = Some (k, b @ [0], length b) \<and> int (length b) < k"
proof -
  have "c_int (int (length b) * 4) = Some (int (length b) * 4)" using assms(2) by (simp add: c_int_eq)
  then show "encode64 b (int (length b)) = Some (int (length b * 4 div 3) + 8, encode64_loop b @ [0])"
    using assms by (simp add: encode64_def sdiv_nonneg zdiv_int)
  obtain p k where p: "encode64_loop b = p @ replicate k c_equal" "c_equal \<notin> set p" "0 \<notin> set p"
    "decode64_loop p = b" using encode64_loop_shape [of b] by blast
  have s: "cstr (encode64_loop b @ [0]) = p @ replicate k c_equal"
    using p(1,3) cstr_append_nul [of "p @ replicate k c_equal" "[]"] by simp
  have len: "length p + k < 2 ^ 29" using assms(2) arg_cong [OF p(1), of length] unfolding encode64_loop_length by simp
  then have "int_strlen (encode64_loop b @ [0]) = Some (int (length p + k))" by (simp add: s)
  moreover have "c_int (int (length p) * 3) = Some (int (length p * 3))" using len by (simp add: c_int_eq)
  ultimately have "decode64 (encode64_loop b @ [0]) = Some (int (length p * 3) sdiv 4 + 4, b @ [0], length b)"
    using p(2,4) drop_trailing_replicate [of c_equal p k]
    unfolding decode64_def s by (simp add: Let_def nat_int_add)
  moreover have "int (length b) < int (length p * 3) sdiv 4 + 4"
    using decode64_loop_length [of p] p(4) by (simp add: sdiv_nonneg zdiv_int [symmetric])
  ultimately show "\<exists>k. decode64 (encode64_loop b @ [0]) = Some (k, b @ [0], length b) \<and> int (length b) < k" by blast
qed

text \<open>The bytes that \<open>decode64\<close> gives when they fit into the block.\<close>

definition base64_text :: "byte list \<Rightarrow> byte list option" where
  "base64_text z = do {
     (sz, out, k) \<leftarrow> decode64 z;
     if int k < sz then Some (take k out) else None
   }"

lemma base64_text_encode:
  assumes "b \<noteq> []" and "4 * ((length b + 2) div 3) < 2 ^ 29"
  shows "base64_text (encode64_loop b @ [0]) = Some b"
  using decode64_encode64(2) [OF assms] by (auto simp: base64_text_def)

interpretation base64: codec "\<lambda>b. encode64_loop b @ [0]" base64_text "\<lambda>b. b \<noteq> [] \<and> 4 * ((length b + 2) div 3) < 2 ^ 29"
  by unfold_locales (blast intro: base64_text_encode)

section \<open>Properties\<close>

text \<open>
  A string encoded by \<open>httpize\<close> or \<open>urlize\<close> and decoded in place by \<open>dehttpize\<close> is the
  string again (up to the length given and to its first NUL): the decoder stays inside the buffer
  and returns its length, and the encoder fills the block it allocated exactly. The size of the block
  overflows its \<open>int\<close> for texts whose encoding takes \<open>2 ^ 31\<close> bytes or more.
\<close>

theorem dehttpize_httpize_roundtrip:
  "case EncodeHttp s n e of None \<Rightarrow> 2 ^ 31 \<le> length (EncodeHttp_bytes s n e)
   | Some (k, out) \<Rightarrow> k = length out \<and> (\<exists>z'. dehttpize out = Some (z', length (arg_text s n)) \<and> length z' = length out \<and>
       take (length (arg_text s n)) z' = arg_text s n \<and> cstr z' = arg_text s n)"
proof -
  obtain z' where z': "dehttpize (EncodeHttp_bytes s n e) = Some (z', length (arg_text s n))"
    "length z' = length (EncodeHttp_bytes s n e)"
    "take (Suc (length (arg_text s n))) z' = arg_text s n @ [0]"
    using dehttpize_EncodeHttp [of s n e] by blast
  then have "z' = arg_text s n @ 0 # drop (Suc (length (arg_text s n))) z'"
    by (metis append.assoc append_Cons append_Nil append_take_drop_id)
  then have "cstr z' = arg_text s n"
    by (metis arg_text_def cstr_append_nul zero_notin_cstr)
  then show ?thesis using z' take_butlast [OF z'(3)] by (auto simp: EncodeHttp_eq)
qed

text \<open>
  C33: \<open>fossilize\<close> turns any bytes, NUL included, into a text without white space and without
  NUL, filling the block it allocated exactly, and \<open>defossilize\<close> restores them in place, for all bytes whose text and
  terminator take less than \<open>2 ^ 31\<close> bytes; for others the size of the block overflows its \<open>int\<close>.
\<close>

theorem defossilize_fossilize_roundtrip:
  "case fossilize s (int (length s)) of None \<Rightarrow> 2 ^ 31 \<le> length (fossilize_loop s) + 1
   | Some (k, out) \<Rightarrow> k = length out \<and> length out \<le> 2 * length s + 1 \<and>
       set (butlast out) \<inter> {0, c_sp, c_tab, c_nl, c_vt, c_ff, c_cr} = {} \<and> header_text out (length s) = Some s"
proof -
  have "int (fossilize_count s) + int (length s) = int (length (fossilize_loop s))" by (simp add: fossilize_count_length)
  then have f: "fossilize s (int (length s)) = (if int (length (fossilize_loop s)) + 1 < 2 ^ 31
      then Some (length (fossilize_loop s) + 1, fossilize_loop s @ [0]) else None)"
    by (auto simp: fossilize_def c_int_eq nat_add_distrib)
  have "fossilize_count s \<le> length s" by (induction s) simp_all
  moreover have "set (fossilize_loop s) \<inter> {0, c_sp, c_tab, c_nl, c_vt, c_ff, c_cr} = {}"
    by (auto dest: fossilize_loop_clean simp: space_iff)
  ultimately show ?thesis unfolding f by (auto simp: header_text_fossilize fossilize_count_length)
qed

text \<open>
  C34: Base 64: for a nonempty block of less than \<open>3 * 2 ^ 27 - 2\<close> bytes, about 400 million, \<open>encode64\<close> and \<open>decode64\<close> stay inside
  the blocks they allocate, the text has four characters for every three bytes begun, and decoding it gives
  the bytes back with their number.
\<close>

theorem decode64_encode64_roundtrip:
  assumes "b \<noteq> []" and "length b < 3 * 2 ^ 27 - 2"
  shows "\<exists>k out k'. encode64 b (int (length b)) = Some (k, out) \<and> int (length out) \<le> k \<and>
    length out = 4 * ((length b + 2) div 3) + 1 \<and> decode64 out = Some (k', b @ [0], length b) \<and> int (length b) < k'"
proof -
  have "length b + 2 < 2 ^ 27 * 3" using assms(2) by simp
  then have len: "4 * ((length b + 2) div 3) < 2 ^ 29" by (simp add: div_less_iff_less_mult)
  have "4 * ((length b + 2) div 3) + 1 \<le> length b * 4 div 3 + 8" by linarith
  then have "int (length (encode64_loop b @ [0])) \<le> int (length b * 4 div 3) + 8"
    by (simp add: encode64_loop_length del: encode64_loop.simps)
  then show ?thesis using decode64_encode64 [OF assms(1) len] by (auto simp: encode64_loop_length)
qed

theorem decode64_encode64_roundtrip_witness:
  "\<exists>k. decode64 (encode64_loop [0, 0xff, 0x10, 0x80] @ [0]) = Some (k, [0, 0xff, 0x10, 0x80, 0 :: byte], 4)"
  using decode64_encode64_roundtrip [of "[0, 0xff, 0x10, 0x80]"]
  by (auto simp: encode64_def bytes_at_def c_int_eq simp del: encode64_loop.simps)

text \<open>The product for the size of the block overflows for half a gibibyte and more.\<close>

lemma encode64_overflow: "2 ^ 29 \<le> length b \<Longrightarrow> encode64 b (int (length b)) = None"
  by (auto simp: encode64_def c_int_eq)

text \<open>
  Base 16: \<open>encode16\<close> may be given an input that lies at least \<open>N\<close> bytes behind the start
  of its output in the same memory, even overlapping it; it then changes only the \<open>2 * N + 1\<close> bytes
  of the output, and \<open>validate16\<close> and \<open>decode16\<close> accept the text and restore the bytes.
\<close>

theorem encode16_decode16_roundtrip:
  assumes "zOut + N \<le> pIn" "pIn + N \<le> length m" "zOut + 2 * N < length m" "N \<le> length pOut"
  shows "\<exists>m'. encode16 m pIn zOut N = Some m' \<and> length m' = length m \<and>
    take zOut m' = take zOut m \<and> drop (zOut + 2 * N + 1) m' = drop (zOut + 2 * N + 1) m \<and>
    validate16 (drop zOut m') (2 * N) = Some True \<and>
    decode16 (drop zOut m') pOut (2 * N) = Some (0, take N (drop pIn m) @ drop N pOut)"
proof -
  define b where "b = take N (drop pIn m)"
  have b: "length b = N" using assms by (simp add: b_def)
  define m' where "m' = take zOut m @ hexes b @ 0 # drop (zOut + 2 * N + 1) m"
  have d: "drop zOut m' = hexes b @ 0 # drop (zOut + 2 * N + 1) m" using assms by (simp add: m'_def)
  have "encode16 m pIn zOut N = Some m'"
    using encode16_correct [OF assms(1-3)] by (simp add: m'_def b_def)
  moreover have "validate16 (drop zOut m') (2 * N) = Some True"
    using validate16_loop_correct [of 0 "drop zOut m'" b] d b by (simp add: validate16_def)
  moreover have "decode16 (drop zOut m') pOut (2 * N) = Some (0, b @ drop N pOut)"
    using decode16_loop_correct [of 0 "drop zOut m'" b "0 # drop (zOut + 2 * N + 1) m" 0 pOut] d b assms(4)
    by (simp add: decode16_def)
  ultimately show ?thesis
    using assms b by (intro exI [of _ m']) (auto simp: m'_def b_def)
qed

theorem encode16_decode16_roundtrip_witness:
  "\<exists>m'. encode16 [9, 9, 9, 0xab, 0x1f] 3 0 2 = Some m' \<and>
    decode16 (drop 0 m') [7, 7, 7] 4 = Some (0, [0xab, 0x1f, 7])"
  using encode16_decode16_roundtrip [of 0 2 3 "[9, 9, 9, 0xab, 0x1f]" "[7, 7, 7]"] by auto

text \<open>
  Passwords: whatever the random salt and the bytes of the blocks allocated, \<open>obscure\<close>
  (whose call of \<open>encode16\<close> reads its input from the end of the block it writes) gives the
  \<open>2 * n + 2\<close> digits for the \<open>n\<close> bytes of the text, and \<open>unobscure\<close> restores the text.
\<close>

theorem unobscure_obscure_roundtrip:
  assumes "2 * length (cstr s) + 3 < 2 ^ 31"
  shows "\<exists>out z. obscure heap salt s = Some out \<and> length out = 2 * length (cstr s) + 3 \<and>
    length (cstr out) = 2 * length (cstr s) + 2 \<and>
    unobscure heap' out = Some z \<and> cstr z = cstr s"
proof -
  define t where "t = masked salt (cstr s)"
  have t: "length t = length (cstr s)" "masked salt t = cstr s"
    by (auto simp: t_def masked_def intro: nth_equalityI)
  obtain z where z: "unobscure heap' (hexes (salt # t) @ [0]) = Some z" "take (length t + 1) z = cstr s @ [0]"
    using unobscure_correct [of t heap' salt] t assms by auto
  then have "z = cstr s @ 0 # drop (length t + 1) z"
    by (metis append.assoc append_Cons append_Nil append_take_drop_id)
  then have "cstr z = cstr s" by (metis cstr_append_nul zero_notin_cstr)
  moreover have "cstr (hexes (salt # t) @ [0]) = hexes (salt # t)"
    using hexes_nonzero by (rule cstr_append_nul)
  ultimately show ?thesis
    using z(1) t(1) obscure_correct [OF assms, of heap salt] unfolding t_def [symmetric]
    by (intro exI [of _ "hexes (salt # t) @ [0]"] exI [of _ z]) (simp del: hexes_simps)
qed

text \<open>
  C34: \<open>htmlize\<close> leaves no angle bracket and no quote in its output, fills the block it
  allocated exactly, and a reader that resolves the entities sees the text (up to the length
  given and its first NUL). The size of the block overflows its \<open>int\<close> only for \<open>2 ^ 31 div 6\<close> characters and more.
\<close>

theorem htmlize_safe:
  "case htmlize s n of None \<Rightarrow> 2 ^ 31 \<le> 6 * length (arg_text s n) + 1
   | Some (k, out) \<Rightarrow> k = length out \<and> last out = 0 \<and> set (butlast out) \<inter> {0, c_lt, c_gt, c_dquote} = {} \<and>
       unhtml (butlast out) = arg_text s n"
proof -
  define m where "m = nat (arg_len s n)"
  have m: "htmlize_loop (arg_len s n) s = htmlize_loop (int m) s"
  proof (cases "0 \<le> arg_len s n")
    case False
    then show ?thesis by (cases s) (auto simp: m_def)
  qed (simp add: m_def)
  have u: "unhtml (htmlize_loop (arg_len s n) s) = arg_text s n"
    unfolding m by (simp only: unhtml_htmlize arg_text_def m_def)
  have "length (htmlize_loop (int k) z) \<le> 6 * length (cstr (take k z))" for k z
  proof (induction z arbitrary: k)
    case (Cons c z)
    show ?case
    proof (cases k)
      case (Suc m)
      then show ?thesis using Cons.IH [of m] by (auto simp: cstr_def)
    qed simp
  qed (simp add: cstr_def)
  from this [of m s] have "int (length (htmlize_loop (arg_len s n) s)) \<le> 6 * int (length (arg_text s n))"
    unfolding m arg_text_def m_def by linarith
  then show ?thesis
    using u htmlize_loop_safe [of "arg_len s n" s]
    by (auto simp: htmlize_def Let_def htmlize_count_length c_int_eq nat_add_distrib split: if_splits)
qed

section \<open>Two corner cases\<close>

text \<open>
  A percent sign at the end of the text stores nothing, but the output index moves on: the
  result ends with a byte that was there before.
\<close>

lemma dehttpize_stale_byte:
  "map_option (\<lambda>(z, j). take j z) (dehttpize (bytes_of ''%41%'' @ [0])) = Some (bytes_of ''A4'')"
  by (simp add: dehttpize_def dehttpize_loop.simps AsciiToHex_def)

text \<open>The canonical form of the letter \<open>l\<close> is the digit 0, not 1.\<close>

lemma canonical16_ell: "canonical16 (bytes_of ''l'' @ [0]) 0 1 = Some (bytes_of ''0'' @ [0])"
  by (simp add: canonical16.simps zDecode_def zEncode_def nth_append)

end
