(* ===== verification/Fossil_Delta.thy ===== *)
theory Fossil_Delta
  imports Prelude_C
begin

text \<open>
  \<open>src/test4/delta.c\<close>: the delta compressor of the Fossil SCM. The \<open>u32\<close> variables are 32-bit
  words and the rolling hash has 16-bit ones; the \<open>int\<close> indices of \<open>delta_create\<close> are natural
  numbers (for files below \<open>2 ^ 30\<close> bytes they stay in range). Every access to the source, the
  target, the delta and the output buffer is checked: a result \<open>None\<close> stands for an access
  outside of the object, or for \<open>digit_count\<close> not returning.
\<close>

section \<open>The rolling hash\<close>

abbreviation (input) NHASH :: nat where "NHASH \<equiv> 16"

record hash =
  ha :: u16
  hb :: u16
  hi :: u16
  hz :: "byte list"

text \<open>A \<open>char\<close> is signed: it is sign-extended before it is added.\<close>

definition hash_init :: "byte list \<Rightarrow> nat \<Rightarrow> hash option" where
  "hash_init z off = do {
     w \<leftarrow> slice z off NHASH;
     let (a, b) = fold (\<lambda>i (a, b). (a + scast (w ! i), b + of_nat (NHASH - i) * scast (w ! i)))
       [0..<NHASH] (0, 0);
     Some \<lparr>ha = a AND 0xffff, hb = b AND 0xffff, hi = 0, hz = w\<rparr>
   }"

definition hash_next :: "hash \<Rightarrow> byte \<Rightarrow> hash" where
  "hash_next h c = (let old = scast (hz h ! unat (hi h)); a = ha h - old + scast c in
     h\<lparr>hz := (hz h)[unat (hi h) := c], hi := (hi h + 1) AND 15, ha := a, hb := hb h - 16 * old + a\<rparr>)"

definition hash_32bit :: "hash \<Rightarrow> u32" where
  "hash_32bit h = ucast (ha h AND 0xffff) OR push_bit 16 (ucast (hb h AND 0xffff))"

section \<open>Integers in the delta\<close>

definition zDigits :: "byte list" where
  "zDigits = bytes_of ''0123456789ABCDEFGHIJKLMNOPQRSTUVWXYZ_abcdefghijklmnopqrstuvwxyz~''"

text \<open>The digits in \<open>zBuf\<close>, the least significant one first.\<close>

function putInt_buf :: "u32 \<Rightarrow> byte list" where
  "putInt_buf v = (if v = 0 then [] else zDigits ! unat (v AND 0x3f) # putInt_buf (drop_bit 6 v))"
  by pat_completeness auto
termination
proof (relation "measure unat")
  fix v :: u32
  assume "v \<noteq> 0"
  then have "unat v div 64 < unat v" by (simp add: unat_gt_0)
  then show "(drop_bit 6 v, v) \<in> measure unat" by (simp add: unsigned_drop_bit_eq drop_bit_eq_div unat_div)
qed simp

declare putInt_buf.simps [simp del]

definition putInt :: "u32 \<Rightarrow> byte list" where
  "putInt v = (if v = 0 then [c_0] else rev (putInt_buf v))"

definition zValue :: "int list" where
  "zValue = replicate 48 (-1) @ [0, 1, 2, 3, 4, 5, 6, 7, 8, 9] @ replicate 7 (-1) @
     [10, 11, 12, 13, 14, 15, 16, 17, 18, 19, 20, 21, 22, 23, 24, 25, 26, 27, 28, 29, 30, 31, 32,
      33, 34, 35] @ replicate 4 (-1) @ [36, -1] @
     [37, 38, 39, 40, 41, 42, 43, 44, 45, 46, 47, 48, 49, 50, 51, 52, 53, 54, 55, 56, 57, 58, 59,
      60, 61, 62] @ [-1, -1, -1, 63, -1]"

definition digit_value :: "byte \<Rightarrow> int" where
  "digit_value c = zValue ! unat (c AND 0x7f)"

text \<open>The value, and the index of the first character past the integer.\<close>

function getInt_loop :: "byte list \<Rightarrow> nat \<Rightarrow> u32 \<Rightarrow> (u32 \<times> nat) option" where
  "getInt_loop z i v = do {
     c \<leftarrow> rd z i;
     if 0 \<le> digit_value c then getInt_loop z (i + 1) (push_bit 6 v + word_of_int (digit_value c))
     else Some (v, i)
   }"
  by pat_completeness auto
termination
  by (relation "measure (\<lambda>(z, i, v). Suc (length z) - i)") (auto dest!: rd_SomeD)

declare getInt_loop.simps [simp del]

definition getInt :: "byte list \<Rightarrow> nat \<Rightarrow> int \<Rightarrow> (u32 \<times> nat \<times> int) option" where
  "getInt z p len = do {
     (v, q) \<leftarrow> getInt_loop z p 0;
     Some (v, q, len - int (q - p))
   }"

text \<open>\<open>x\<close> becomes 0 after six shifts; the loop then never ends.\<close>

partial_function (option) digit_count_loop :: "u32 \<Rightarrow> nat \<Rightarrow> u32 \<Rightarrow> nat option" where
  "digit_count_loop v i x = (if v \<ge> x then digit_count_loop v (i + 1) (push_bit 6 x) else Some i)"

declare digit_count_loop.simps [code]

definition digit_count :: "u32 \<Rightarrow> nat option" where
  "digit_count v = digit_count_loop v 1 64"

section \<open>The checksum\<close>

type_synonym sums = "u32 \<times> u32 \<times> u32 \<times> u32"

fun checksum16 :: "byte list \<Rightarrow> sums \<Rightarrow> byte list \<times> sums" where
  "checksum16 (z0 # z1 # z2 # z3 # z4 # z5 # z6 # z7 # z8 # z9 # z10 # z11 # z12 # z13 # z14 # z15 # z)
     (sum0, sum1, sum2, sum3) = checksum16 z
       (sum0 + (ucast z0 + ucast z4 + ucast z8 + ucast z12),
        sum1 + (ucast z1 + ucast z5 + ucast z9 + ucast z13),
        sum2 + (ucast z2 + ucast z6 + ucast z10 + ucast z14),
        sum3 + (ucast z3 + ucast z7 + ucast z11 + ucast z15))"
| "checksum16 z s = (z, s)"

fun checksum4 :: "byte list \<Rightarrow> sums \<Rightarrow> byte list \<times> sums" where
  "checksum4 (z0 # z1 # z2 # z3 # z) (sum0, sum1, sum2, sum3) =
     checksum4 z (sum0 + ucast z0, sum1 + ucast z1, sum2 + ucast z2, sum3 + ucast z3)"
| "checksum4 z s = (z, s)"

text \<open>The \<open>switch\<close> falls through from the last byte to the first.\<close>

definition checksum :: "byte list \<Rightarrow> u32" where
  "checksum zIn = (let (z, s) = checksum16 zIn (0, 0, 0, 0);
      (z, sum0, sum1, sum2, sum3) = checksum4 z s;
      sum3 = sum3 + (push_bit 8 sum2 + push_bit 16 sum1 + push_bit 24 sum0);
      sum3 = (if length z = 3 then sum3 + push_bit 8 (ucast (z ! 2)) else sum3);
      sum3 = (if length z \<ge> 2 then sum3 + push_bit 16 (ucast (z ! 1)) else sum3)
    in if length z \<ge> 1 then sum3 + push_bit 24 (ucast (z ! 0)) else sum3)"

section \<open>Creating a delta\<close>

text \<open>
  The hash table of the source: \<open>landmark\<close> gives the last 16-byte block with a hash value,
  \<open>collide\<close> the block before it in its chain, \<open>-1\<close> none.
\<close>

function build_table :: "byte list \<Rightarrow> nat \<Rightarrow> nat \<Rightarrow> int list \<Rightarrow> int list \<Rightarrow> (int list \<times> int list) option" where
  "build_table zSrc nHash i collide landmark = (if i + NHASH < length zSrc then do {
       h \<leftarrow> hash_init zSrc i;
       let hv = unat (hash_32bit h mod of_nat nHash);
       l \<leftarrow> peek landmark hv;
       collide \<leftarrow> poke collide (i div NHASH) l;
       landmark \<leftarrow> poke landmark hv (int (i div NHASH));
       build_table zSrc nHash (i + NHASH) collide landmark
     } else Some (collide, landmark))"
  by pat_completeness auto
termination
  by (relation "measure (\<lambda>(zSrc, nHash, i, collide, landmark). length zSrc - i)") auto

declare build_table.simps [simp del]

text \<open>How many characters match from \<open>zSrc[x]\<close> and \<open>zOut[y]\<close> on, and backwards from there.\<close>

function match_forward :: "byte list \<Rightarrow> byte list \<Rightarrow> nat \<Rightarrow> nat \<Rightarrow> nat \<Rightarrow> nat" where
  "match_forward zSrc zOut j x y = (if x < length zSrc \<and> y < length zOut \<and> zSrc ! x = zOut ! y
     then match_forward zSrc zOut (j + 1) (x + 1) (y + 1) else j)"
  by pat_completeness auto
termination
  by (relation "measure (\<lambda>(zSrc, zOut, j, x, y). length zSrc - x)") auto

declare match_forward.simps [simp del]

function match_backward :: "byte list \<Rightarrow> byte list \<Rightarrow> nat \<Rightarrow> nat \<Rightarrow> nat \<Rightarrow> nat \<Rightarrow> nat" where
  "match_backward zSrc zOut base i iSrc k =
     (if k < iSrc \<and> k \<le> i \<and> zSrc ! (iSrc - k) = zOut ! (base + i - k)
      then match_backward zSrc zOut base i iSrc (k + 1) else k)"
  by pat_completeness auto
termination
  by (relation "measure (\<lambda>(zSrc, zOut, base, i, iSrc, k). iSrc - k)") auto

declare match_backward.simps [simp del]

record best =
  bestCnt :: nat
  bestOfst :: nat
  bestLitsz :: nat

text \<open>One candidate block, in the body of the loop over a chain.\<close>

definition try_block :: "byte list \<Rightarrow> byte list \<Rightarrow> nat \<Rightarrow> nat \<Rightarrow> nat \<Rightarrow> best \<Rightarrow> best option" where
  "try_block zSrc zOut base i iBlock b = (let iSrc = iBlock * NHASH;
      j = int (match_forward zSrc zOut 0 iSrc (base + i)) - 1;
      k = match_backward zSrc zOut base i iSrc 1 - 1;
      ofst = iSrc - k;
      cnt = nat (j + int k + 1);
      litsz = i - k
    in do {
      d1 \<leftarrow> digit_count (of_nat (i - k));
      d2 \<leftarrow> digit_count (of_nat cnt);
      d3 \<leftarrow> digit_count (of_nat ofst);
      let sz = d1 + d2 + d3 + 3;
      Some (if cnt \<ge> sz \<and> cnt > bestCnt b
        then b\<lparr>bestCnt := cnt, bestOfst := iSrc - k, bestLitsz := litsz\<rparr> else b)
    })"

fun search_chain :: "byte list \<Rightarrow> byte list \<Rightarrow> int list \<Rightarrow> nat \<Rightarrow> nat \<Rightarrow> nat \<Rightarrow> int \<Rightarrow> best \<Rightarrow> best option" where
  "search_chain zSrc zOut collide base i 0 iBlock b = Some b"
| "search_chain zSrc zOut collide base i (Suc limit) iBlock b = (if iBlock \<ge> 0 then do {
       b \<leftarrow> try_block zSrc zOut base i (nat iBlock) b;
       iBlock \<leftarrow> peek collide (nat iBlock);
       search_chain zSrc zOut collide base i limit iBlock b
     } else Some b)"

text \<open>
  The inner loop: slide the window over the target until a match is found (\<open>Some\<close> of it) or
  until the end of the file (\<open>None\<close>).
\<close>

function scan_window :: "byte list \<Rightarrow> byte list \<Rightarrow> nat \<Rightarrow> int list \<Rightarrow> int list \<Rightarrow> nat \<Rightarrow> hash \<Rightarrow> nat \<Rightarrow>
    best option option" where
  "scan_window zSrc zOut nHash collide landmark base h i = do {
     let hv = unat (hash_32bit h mod of_nat nHash);
     iBlock \<leftarrow> peek landmark hv;
     b \<leftarrow> search_chain zSrc zOut collide base i 250 iBlock \<lparr>bestCnt = 0, bestOfst = 0, bestLitsz = 0\<rparr>;
     if bestCnt b > 0 then Some (Some b)
     else if base + i + NHASH \<ge> length zOut then Some None
     else scan_window zSrc zOut nHash collide landmark base (hash_next h (zOut ! (base + i + NHASH))) (i + 1)
   }"
  by pat_completeness auto
termination
  by (relation "measure (\<lambda>(zSrc, zOut, nHash, collide, landmark, base, h, i). length zOut - i)") auto

declare scan_window.simps [simp del]

definition put_insert :: "byte list \<Rightarrow> byte list" where
  "put_insert t = putInt (of_nat (length t)) @ [c_colon] @ t"

definition put_copy :: "nat \<Rightarrow> nat \<Rightarrow> byte list" where
  "put_copy cnt ofst = putInt (of_nat cnt) @ [c_at] @ putInt (of_nat ofst) @ [c_comma]"

lemma scan_window_pos:
  "scan_window zSrc zOut nHash collide landmark base h i = Some (Some b) \<Longrightarrow> 0 < bestCnt b"
proof (induction zSrc zOut nHash collide landmark base h i rule: scan_window.induct)
  case (1 zSrc zOut nHash collide landmark base h i)
  from "1.prems" "1.IH" show ?case
    by (subst (asm) scan_window.simps) (auto simp: Let_def split: bind_splits if_splits)
qed

text \<open>The outer loop: the commands written, and \<open>base\<close> at its end.\<close>

function scan_target :: "byte list \<Rightarrow> byte list \<Rightarrow> nat \<Rightarrow> int list \<Rightarrow> int list \<Rightarrow> nat \<Rightarrow> (byte list \<times> nat) option" where
  "scan_target zSrc zOut nHash collide landmark base = (if base + NHASH < length zOut then do {
       h \<leftarrow> hash_init zOut base;
       r \<leftarrow> scan_window zSrc zOut nHash collide landmark base h 0;
       case r of
         Some b \<Rightarrow> do {
           lit \<leftarrow> (if bestLitsz b > 0
             then map_option put_insert (slice zOut base (bestLitsz b)) else Some []);
           (d, base') \<leftarrow> scan_target zSrc zOut nHash collide landmark (base + bestLitsz b + bestCnt b);
           Some (lit @ put_copy (bestCnt b) (bestOfst b) @ d, base')
         }
       | None \<Rightarrow> do {
           lit \<leftarrow> slice zOut base (length zOut - base);
           Some (put_insert lit, length zOut)
         }
     } else Some ([], base))"
  by pat_completeness auto
termination
  by (relation "measure (\<lambda>(zSrc, zOut, nHash, collide, landmark, base). length zOut - base)")
    (auto dest: scan_window_pos)

declare scan_target.simps [simp del]

definition delta_create :: "byte list \<Rightarrow> byte list \<Rightarrow> byte list option" where
  "delta_create zSrc zOut = (let lenSrc = length zSrc; lenOut = length zOut;
      head = putInt (of_nat lenOut) @ [c_nl];
      tail = putInt (checksum zOut) @ [c_semi]
    in if lenSrc \<le> NHASH then Some (head @ put_insert zOut @ tail)
      else do {
        let nHash = lenSrc div NHASH;
        (collide, landmark) \<leftarrow> build_table zSrc nHash 0 (replicate nHash (-1)) (replicate nHash (-1));
        (d, base) \<leftarrow> scan_target zSrc zOut nHash collide landmark 0;
        lit \<leftarrow> (if base < lenOut then map_option put_insert (slice zOut base (lenOut - base)) else Some []);
        Some (head @ d @ lit @ tail)
      })"

section \<open>Applying a delta\<close>

definition delta_output_size :: "byte list \<Rightarrow> int \<Rightarrow> int option" where
  "delta_output_size zDelta lenDelta = do {
     (v, p, len) \<leftarrow> getInt zDelta 0 lenDelta;
     c \<leftarrow> rd zDelta p;
     Some (if c \<noteq> c_nl then -1 else sint v)
   }"

lemma getInt_forward: "getInt z p len = Some (v, q, len') \<Longrightarrow> p \<le> q \<and> q \<le> length z \<and> len' = len - int (q - p)"
proof -
  have "getInt_loop z p w = Some (v, q) \<Longrightarrow> p \<le> q \<and> q \<le> length z" for w
  proof (induction z p w rule: getInt_loop.induct)
    case (1 z i w)
    from "1.prems" "1.IH" show ?case
      by (subst (asm) getInt_loop.simps) (fastforce split: bind_splits if_splits dest: rd_SomeD)
  qed
  then show "getInt z p len = Some (v, q, len') \<Longrightarrow> p \<le> q \<and> q \<le> length z \<and> len' = len - int (q - p)"
    by (auto simp: getInt_def split: bind_splits)
qed

text \<open>
  The loop over the commands: \<open>p\<close> is the position in the delta, \<open>len\<close> what is left of
  \<open>lenDelta\<close>, \<open>tot\<close> the variable \<open>total\<close>, the bytes written to \<open>zOut\<close>. Comparisons of an \<open>int\<close> with an unsigned
  value convert it to unsigned. \<open>zOut\<close> is written at offset \<open>pos\<close>, which \<open>tot\<close> tracks only
  modulo \<open>2 ^ 32\<close>.
\<close>

function apply_loop :: "byte list \<Rightarrow> byte list \<Rightarrow> u32 \<Rightarrow> nat \<Rightarrow> int \<Rightarrow> u32 \<Rightarrow> nat \<Rightarrow> byte list \<Rightarrow>
    (int \<times> byte list) option" where
  "apply_loop zSrc zDelta limit p len tot pos zOut = do {
     c0 \<leftarrow> rd zDelta p;
     if c0 = 0 \<or> len \<le> 0 then Some (-1, zOut)
     else do {
       (cnt, p, len) \<leftarrow> getInt zDelta p len;
       c \<leftarrow> rd zDelta p;
       if c = c_at then do {
         (ofst, p, len) \<leftarrow> getInt zDelta (p + 1) (len - 1);
         c \<leftarrow> (if len > 0 then rd zDelta p else Some c_comma);
         if c \<noteq> c_comma then Some (-1, zOut)
         else if tot + cnt > limit then Some (-1, zOut)
         else if ofst + cnt > of_nat (length zSrc) then Some (-1, zOut)
         else do {
           s \<leftarrow> slice zSrc (unat ofst) (unat cnt);
           zOut \<leftarrow> blit zOut pos s;
           apply_loop zSrc zDelta limit (p + 1) (len - 1) (tot + cnt) (pos + unat cnt) zOut
         }
       }
       else if c = c_colon then
         if tot + cnt > limit then Some (-1, zOut)
         else if cnt > word_of_int (len - 1) then Some (-1, zOut)
         else do {
           s \<leftarrow> slice (zDelta @ [0]) (p + 1) (unat cnt);
           zOut \<leftarrow> blit zOut pos s;
           apply_loop zSrc zDelta limit (p + 1 + unat cnt) (len - 1 - uint cnt) (tot + cnt)
             (pos + unat cnt) zOut
         }
       else if c = c_semi then do {
         zOut \<leftarrow> poke zOut pos 0;
         t \<leftarrow> slice zOut 0 (unat tot);
         Some (if cnt \<noteq> checksum t then -1 else if tot \<noteq> limit then -1 else sint tot, zOut)
       }
       else Some (-1, zOut)
     }
   }"
  by pat_completeness auto
termination
  by (relation "measure (\<lambda>(zSrc, zDelta, limit, p, len, tot, pos, zOut). Suc (length zDelta) - p)")
    (auto dest!: getInt_forward)

declare apply_loop.simps [simp del]

definition delta_apply :: "byte list \<Rightarrow> byte list \<Rightarrow> int \<Rightarrow> byte list \<Rightarrow> (int \<times> byte list) option" where
  "delta_apply zSrc zDelta lenDelta zOut = do {
     (limit, p, len) \<leftarrow> getInt zDelta 0 lenDelta;
     c \<leftarrow> rd zDelta p;
     if c \<noteq> c_nl then Some (-1, zOut)
     else apply_loop zSrc zDelta limit (p + 1) (len - 1) 0 0 zOut
   }"

section \<open>Numbers\<close>

subsection \<open>Digits\<close>

lemma zDigits_facts:
  "length zDigits = 64"
  "i < 64 \<Longrightarrow> digit_value (zDigits ! i) = int i \<and> zDigits ! i \<noteq> 0"
proof -
  show "length zDigits = 64" by (simp add: zDigits_def)
  have "list_all (\<lambda>(i, c). zValue ! unat (c AND 0x7f) = int i \<and> c \<noteq> 0) (zip [0..<64] zDigits)"
    by (simp add: zDigits_def zValue_def upt_rec nth_append)
  then show "i < 64 \<Longrightarrow> digit_value (zDigits ! i) = int i \<and> zDigits ! i \<noteq> 0"
    using \<open>length zDigits = 64\<close> by (force simp: list_all_length digit_value_def)
qed

lemma low_digit: "unat (v AND 0x3f :: u32) < 64" "v AND 0x3f = take_bit 6 (v :: u32)"
proof -
  show "v AND 0x3f = take_bit 6 (v :: u32)"
    using take_bit_eq_mask [of 6 v] by (simp add: mask_eq_exp_minus_1)
  then show "unat (v AND 0x3f :: u32) < 64" by (simp add: unsigned_take_bit_eq take_bit_eq_mod unat_mod)
qed

text \<open>Reading the digits written back: first the value, then the first character behind.\<close>

lemma getInt_loop_digits:
  "drop i z = map (\<lambda>d. zDigits ! d) ds @ r \<Longrightarrow> set ds \<subseteq> {..<64} \<Longrightarrow>
    getInt_loop z i w = getInt_loop z (i + length ds) (foldl (\<lambda>w d. push_bit 6 w + of_nat d) w ds)"
proof (induction ds arbitrary: i w)
  case (Cons d ds)
  note d = drop_ConsD [of i z "zDigits ! d" "map (\<lambda>d. zDigits ! d) ds @ r"]
  have "getInt_loop z i w = getInt_loop z (Suc i) (push_bit 6 w + of_nat d)"
    using Cons.prems d zDigits_facts(2) [of d] by (subst getInt_loop.simps) simp
  also have "\<dots> = getInt_loop z (Suc i + length ds) (foldl (\<lambda>w d. push_bit 6 w + of_nat d) (push_bit 6 w + of_nat d) ds)"
    using Cons.prems d by (intro Cons.IH) auto
  finally show ?case by simp
qed simp

lemma putInt_buf_digits:
  "\<exists>ds. set ds \<subseteq> {..<64} \<and> putInt_buf v = map (\<lambda>d. zDigits ! d) ds \<and>
    foldr (\<lambda>d w. push_bit 6 w + of_nat d) ds 0 = v"
proof (induction v rule: putInt_buf.induct)
  case (1 v)
  show ?case
  proof (cases "v = 0")
    case True
    then show ?thesis by (intro exI [of _ "[]"]) (simp add: putInt_buf.simps)
  next
    case False
    with 1 obtain ds where ds: "set ds \<subseteq> {..<64}" "putInt_buf (drop_bit 6 v) = map (\<lambda>d. zDigits ! d) ds"
      "foldr (\<lambda>d w. push_bit 6 w + of_nat d) ds 0 = drop_bit 6 v" by blast
    have "push_bit 6 (drop_bit 6 v) + (v AND 0x3f) = v"
      using bits_ident [of 6 v] low_digit(2) by simp
    then show ?thesis
      using ds False low_digit(1) [of v]
      by (intro exI [of _ "unat (v AND 0x3f) # ds"]) (subst putInt_buf.simps; simp)
  qed
qed

lemma putInt_digits:
  "\<exists>ds. set ds \<subseteq> {..<64} \<and> putInt v = map (\<lambda>d. zDigits ! d) ds \<and>
    foldl (\<lambda>w d. push_bit 6 w + of_nat d) 0 ds = v"
proof (cases "v = 0")
  case True
  then show ?thesis by (intro exI [of _ "[0]"]) (simp add: putInt_def zDigits_def)
next
  case False
  obtain ds where "set ds \<subseteq> {..<64}" "putInt_buf v = map (\<lambda>d. zDigits ! d) ds"
    "foldr (\<lambda>d w. push_bit 6 w + of_nat d) ds 0 = v" using putInt_buf_digits [of v] by blast
  then show ?thesis
    using False by (intro exI [of _ "rev ds"]) (simp add: putInt_def rev_map foldl_conv_foldr)
qed

text \<open>The number is read back when a character that is no digit follows.\<close>

lemma getInt_putInt:
  assumes "drop p z = putInt v @ c # r" "digit_value c < 0"
  shows "getInt z p len = Some (v, p + length (putInt v), len - int (length (putInt v)))"
proof -
  obtain ds where ds: "set ds \<subseteq> {..<64}" "putInt v = map (\<lambda>d. zDigits ! d) ds"
    "foldl (\<lambda>w d. push_bit 6 w + of_nat d) 0 ds = v" using putInt_digits by blast
  have "drop (p + length ds) z = c # r"
    using assms(1) ds(2) by (metis append_eq_conv_conj drop_drop length_map add.commute)
  then have "getInt_loop z (p + length ds) v = Some (v, p + length ds)"
    using drop_ConsD [of "p + length ds" z c r] assms(2) by (subst getInt_loop.simps) simp
  then have "getInt_loop z p 0 = Some (v, p + length ds)"
    using getInt_loop_digits [of p z ds "c # r" 0] assms(1) ds by simp
  then show ?thesis using ds(2) by (simp add: getInt_def)
qed

lemma putInt_nonzero: "0 \<notin> set (putInt v)" "putInt v \<noteq> []"
proof -
  obtain ds where ds: "set ds \<subseteq> {..<64}" "putInt v = map (\<lambda>d. zDigits ! d) ds" using putInt_digits by blast
  then show "0 \<notin> set (putInt v)" using zDigits_facts(2) by fastforce
  show "putInt v \<noteq> []" by (simp add: putInt_def putInt_buf.simps)
qed

lemma length_putInt_buf: "unat v < 64 ^ n \<Longrightarrow> length (putInt_buf v) \<le> n"
proof (induction n arbitrary: v)
  case 0
  then show ?case by (simp add: putInt_buf.simps unat_eq_0)
next
  case (Suc n)
  have "unat (drop_bit 6 v) = unat v div 64"
    by (simp add: unsigned_drop_bit_eq drop_bit_eq_div unat_div)
  also have "\<dots> < 64 ^ n" using Suc.prems by (simp add: less_mult_imp_div_less mult.commute)
  finally show ?case using Suc.IH [of "drop_bit 6 v"] by (subst putInt_buf.simps) simp
qed

lemma length_putInt: "0 < n \<Longrightarrow> unat v < 64 ^ n \<Longrightarrow> length (putInt v) \<le> n"
  using length_putInt_buf [of v n] by (auto simp: putInt_def)

lemma unat_lt_32: "unat (v :: u32) < 4294967296"
  using unsigned_less [of v, where ?'a = nat] by simp

lemma length_putInt_6: "length (putInt v) \<le> 6"
  using unat_lt_32 [of v] by (intro length_putInt) simp_all

lemma digit_count_bound:
  assumes "unat v < 2 ^ 30"
  shows "\<exists>k. digit_count v = Some k \<and> length (putInt v) \<le> k \<and> k \<le> 5"
proof -
  have e: "\<exists>k. digit_count v = Some k \<and> 0 < k \<and> k \<le> 5 \<and> unat v < 64 ^ k"
    using assms
    by (auto simp: digit_count_def digit_count_loop.simps word_le_nat_alt word_less_nat_alt not_le)
  then show ?thesis using length_putInt by blast
qed

text \<open>From \<open>2 ^ 30\<close> on the loop of \<open>digit_count\<close> does not end.\<close>

lemma digit_count_loop_diverges: "digit_count_loop v i 0 = None"
proof -
  have "digit_count_loop v i x = Some y \<Longrightarrow> x \<noteq> 0" for v i x y
  proof (rule digit_count_loop.raw_induct [of "\<lambda>v i x y. x \<noteq> 0" "((v, i), x)" y, unfolded prod.case])
    fix f :: "u32 \<Rightarrow> nat \<Rightarrow> u32 \<Rightarrow> nat option" and v i x y
    assume ih: "\<And>v i x y. f v i x = Some y \<Longrightarrow> x \<noteq> 0"
      and body: "(if x \<le> v then f v (i + 1) (push_bit 6 x) else Some i) = Some y"
    show "x \<noteq> 0"
    proof
      assume "x = 0"
      with body have "f v (i + 1) 0 = Some y" by simp
      with ih show False by blast
    qed
  qed
  then show ?thesis by (cases "digit_count_loop v i 0") auto
qed

lemma digit_count_diverges:
  assumes "2 ^ 30 \<le> unat v"
  shows "digit_count v = None"
proof -
  have z: "(68719476736 :: u32) = 0" by simp
  show ?thesis
    using assms digit_count_loop_diverges
    by (simp add: digit_count_def digit_count_loop.simps [of v _ 64] digit_count_loop.simps [of v _ 4096]
        digit_count_loop.simps [of v _ 262144] digit_count_loop.simps [of v _ 16777216]
        digit_count_loop.simps [of v _ 1073741824] word_le_nat_alt z)
qed

section \<open>The rolling hash of a window\<close>

fun hash_a :: "byte list \<Rightarrow> u16" where
  "hash_a [] = 0"
| "hash_a (c # w) = scast c + hash_a w"

fun hash_b :: "byte list \<Rightarrow> u16" where
  "hash_b [] = 0"
| "hash_b (c # w) = of_nat (Suc (length w)) * scast c + hash_b w"

lemma hash_snoc:
  "hash_a (w @ [c]) = hash_a w + scast c"
  "hash_b (w @ [c]) = hash_b w + hash_a w + scast c"
  by (induction w) (simp_all add: algebra_simps)

lemma hash_init_fold:
  assumes "i \<le> length w"
  shows "fold (\<lambda>i (a, b). (a + scast (w ! i), b + of_nat (length w - i) * scast (w ! i))) [i..<length w] (a, b)
    = (a + hash_a (drop i w), b + hash_b (drop i w))"
  using assms
proof (induction "length w - i" arbitrary: i a b)
  case (Suc n)
  then have i: "i < length w" "[i..<length w] = i # [Suc i..<length w]" by (simp_all add: upt_rec)
  moreover have "drop i w = w ! i # drop (Suc i) w" using i by (simp add: Cons_nth_drop_Suc)
  moreover have "length w - i = Suc (length w - Suc i)" using i by simp
  ultimately show ?case using Suc.hyps(1) [of "Suc i"] Suc.hyps(2) by (simp add: algebra_simps)
qed simp

lemma and_ffff [simp]: "x AND 0xffff = (x :: u16)"
proof -
  have "(0xffff :: u16) = -1" by simp
  then show ?thesis by (simp only: and.right_neutral)
qed

lemma hash_init_eq:
  "hash_init z off = (if off + NHASH \<le> length z
    then Some \<lparr>ha = hash_a (take 16 (drop off z)), hb = hash_b (take 16 (drop off z)), hi = 0,
      hz = take 16 (drop off z)\<rparr>
    else None)"
  using hash_init_fold [of 0 "take 16 (drop off z)" 0 0]
  by (auto simp: hash_init_def slice_def Let_def split: prod.splits)

text \<open>What \<open>h\<close> holds when its window is \<open>w\<close>.\<close>

definition window :: "hash \<Rightarrow> byte list \<Rightarrow> bool" where
  "window h w \<longleftrightarrow> length w = NHASH \<and> length (hz h) = NHASH \<and> unat (hi h) < NHASH \<and>
    ha h = hash_a w \<and> hb h = hash_b w \<and> rotate (unat (hi h)) (hz h) = w"

lemma window_init: "hash_init z off = Some h \<Longrightarrow> window h (take 16 (drop off z))"
  by (auto simp: hash_init_eq window_def split: if_splits)

lemma rotate_update:
  assumes "k < length xs" "rotate k xs = x # w"
  shows "xs ! k = x" and "rotate (Suc k mod length xs) (xs[k := c]) = w @ [c]"
proof -
  have d: "drop k xs = xs ! k # drop (Suc k) xs" using assms(1) by (simp add: Cons_nth_drop_Suc)
  have r: "drop k xs @ take k xs = x # w" using assms by (simp add: rotate_drop_take)
  with d show "xs ! k = x" by simp
  from r d have w: "w = drop (Suc k) xs @ take k xs" by simp
  show "rotate (Suc k mod length xs) (xs[k := c]) = w @ [c]"
  proof (cases "Suc k = length xs")
    case True
    then have "xs[k := c] = take k xs @ [c]" by (metis assms(1) length_list_update lessI take_Suc_update take_all_iff order_refl)
    then show ?thesis using True w by simp
  next
    case False
    then show ?thesis using assms(1) w by (simp add: rotate_drop_take take_Suc_update)
  qed
qed

lemma window_next:
  assumes "window h (x # w)"
  shows "window (hash_next h c) (w @ [c])"
proof -
  define k where "k = unat (hi h)"
  have k: "k < length (hz h)" "rotate k (hz h) = x # w" "length (hz h) = 16" "length w = 15"
    "ha h = scast x + hash_a w" "hb h = 16 * scast x + hash_b w"
    using assms by (auto simp: window_def k_def)
  note r = rotate_update [OF k(1,2)]
  have "(hi h + 1) AND 15 = take_bit 4 (hi h + 1)"
    using take_bit_eq_mask [of 4 "hi h + 1"] by (simp add: mask_eq_exp_minus_1)
  also have "unat \<dots> = unat (hi h + 1) mod 16" by (simp add: unsigned_take_bit_eq take_bit_eq_mod unat_mod)
  also have "unat (hi h + 1) = Suc k"
    using k(1,3) by (subst unat_add_lem [THEN iffD1]) (simp_all add: k_def)
  finally have n: "unat ((hi h + 1) AND 15) = Suc k mod 16" .
  show ?thesis
    using r k n by (simp add: window_def hash_next_def Let_def k_def [symmetric] hash_snoc)
qed

lemma window_hash: "window h w \<Longrightarrow> hash_32bit h = ucast (hash_a w) OR push_bit 16 (ucast (hash_b w))"
  by (simp add: window_def hash_32bit_def)

lemma window_roll:
  "window h (take 16 (drop off z)) \<Longrightarrow> off + 16 + n \<le> length z \<Longrightarrow>
    window (foldl hash_next h (take n (drop (off + 16) z))) (take 16 (drop (off + n) z))"
proof (induction n)
  case (Suc n)
  define h' where "h' = foldl hash_next h (take n (drop (off + 16) z))"
  have w: "take 16 (drop (off + n) z) = z ! (off + n) # take 15 (drop (off + Suc n) z)"
    using Suc.prems by (simp add: Cons_nth_drop_Suc [symmetric])
  have "window h' (take 16 (drop (off + n) z))" using Suc by (simp add: h'_def)
  then have "window (hash_next h' (z ! (off + n + 16))) (take 15 (drop (off + Suc n) z) @ [z ! (off + n + 16)])"
    unfolding w by (rule window_next)
  moreover have "take 15 (drop (off + Suc n) z) @ [z ! (off + n + 16)] = take 16 (drop (off + Suc n) z)"
    using Suc.prems take_Suc_conv_app_nth [of 15 "drop (off + Suc n) z"] by (simp add: ac_simps)
  moreover have "take (Suc n) (drop (off + 16) z) = take n (drop (off + 16) z) @ [z ! (off + n + 16)]"
    using Suc.prems by (simp add: take_Suc_conv_app_nth ac_simps)
  ultimately show ?case by (simp add: h'_def)
qed simp

section \<open>What the checksum is\<close>

text \<open>The sum of the big-endian 32-bit words of the buffer, padded with zeros.\<close>

fun be_sum :: "byte list \<Rightarrow> u32" where
  "be_sum (a # b # c # d # z) = 2 ^ 24 * ucast a + 2 ^ 16 * ucast b + 2 ^ 8 * ucast c + ucast d + be_sum z"
| "be_sum [a, b, c] = 2 ^ 24 * ucast a + 2 ^ 16 * ucast b + 2 ^ 8 * ucast c"
| "be_sum [a, b] = 2 ^ 24 * ucast a + 2 ^ 16 * ucast b"
| "be_sum [a] = 2 ^ 24 * ucast a"
| "be_sum [] = 0"

definition sums_value :: "sums \<Rightarrow> u32" where
  "sums_value = (\<lambda>(s0, s1, s2, s3). 2 ^ 24 * s0 + 2 ^ 16 * s1 + 2 ^ 8 * s2 + s3)"

lemma checksum16_value: "checksum16 z s = (r, s') \<Longrightarrow> sums_value s' + be_sum r = sums_value s + be_sum z"
  by (induction z s rule: checksum16.induct) (auto simp: sums_value_def algebra_simps)

lemma checksum4_value:
  "checksum4 z s = (r, s') \<Longrightarrow> sums_value s' + be_sum r = sums_value s + be_sum z \<and> length r < 4"
  by (induction z s rule: checksum4.induct) (auto simp: sums_value_def algebra_simps)

lemma checksum_be_sum: "checksum z = be_sum z"
proof -
  obtain r s where 1: "checksum16 z (0, 0, 0, 0) = (r, s)" by (metis surj_pair)
  obtain q s0 s1 s2 s3 where 2: "checksum4 r s = (q, s0, s1, s2, s3)" by (metis prod_cases5)
  have v: "sums_value (s0, s1, s2, s3) + be_sum q = be_sum z" and q: "length q < 4"
    using checksum16_value [OF 1] checksum4_value [OF 2] by (simp_all add: sums_value_def)
  have "checksum z = sums_value (s0, s1, s2, s3) + be_sum q"
    using q by (cases q rule: be_sum.cases)
      (simp_all add: checksum_def 1 2 Let_def sums_value_def push_bit_eq_mult algebra_simps)
  with v show ?thesis by simp
qed

section \<open>A delta as a list of commands\<close>

datatype command = Insert_text "byte list" | Copy_from nat nat

fun command_text :: "command \<Rightarrow> byte list" where
  "command_text (Insert_text t) = put_insert t"
| "command_text (Copy_from cnt ofst) = put_copy cnt ofst"

fun command_out :: "byte list \<Rightarrow> command \<Rightarrow> byte list" where
  "command_out src (Insert_text t) = t"
| "command_out src (Copy_from cnt ofst) = take cnt (drop ofst src)"

fun command_ok :: "byte list \<Rightarrow> command \<Rightarrow> bool" where
  "command_ok src (Insert_text t) = True"
| "command_ok src (Copy_from cnt ofst) = (ofst + cnt \<le> length src)"

definition commands_text :: "command list \<Rightarrow> byte list" where
  "commands_text cs = concat (map command_text cs)"

definition run :: "byte list \<Rightarrow> command list \<Rightarrow> byte list" where
  "run src cs = concat (map (command_out src) cs)"

lemma commands_simps [simp]:
  "commands_text [] = []" "commands_text (c # cs) = command_text c @ commands_text cs"
  "commands_text (cs @ ds) = commands_text cs @ commands_text ds"
  "run src [] = []" "run src (c # cs) = command_out src c @ run src cs"
  "run src (cs @ ds) = run src cs @ run src ds"
  by (simp_all add: commands_text_def run_def)

lemma punctuation [simp]:
  "digit_value c_colon = -1" "digit_value c_at = -1" "digit_value c_comma = -1"
  "digit_value c_semi = -1" "digit_value c_nl = -1"
  by (simp_all add: digit_value_def zValue_def nth_append)

text \<open>The first character and the number of a command.\<close>

lemma command_number:
  assumes "drop p z = putInt v @ c # r" "digit_value c < 0"
  obtains c0 where "rd z p = Some c0" "c0 \<noteq> 0"
    "getInt z p len = Some (v, p + length (putInt v), len - int (length (putInt v)))"
    "p + length (putInt v) < length z" "z ! (p + length (putInt v)) = c"
    "drop (p + length (putInt v) + 1) z = r"
proof -
  obtain d ds where d: "putInt v = d # ds" "d \<noteq> 0" using putInt_nonzero [of v] by (cases "putInt v") auto
  have q: "drop (p + length (putInt v)) z = c # r"
    using assms(1) by (metis append_eq_conv_conj drop_drop add.commute)
  have "rd z p = Some d" using drop_ConsD [of p z d] assms(1) d(1) by simp
  then show thesis
    using that d(2) getInt_putInt [OF assms] drop_ConsD [OF q] by simp
qed

lemma unat_add_small:
  assumes "unat (a :: u32) + unat b \<le> unat c"
  shows "unat (a + b) = unat a + unat b" and "\<not> a + b > c"
proof -
  have "unat a + unat b < 2 ^ 32" using assms unat_lt_32 [of c] by simp
  then show u: "unat (a + b) = unat a + unat b" by (subst unat_add_lem [THEN iffD1]) simp_all
  show "\<not> a + b > c" using assms u by (simp add: word_less_nat_alt)
qed

lemma unat_of_nat_32 [simp]: "n < 2 ^ 32 \<Longrightarrow> unat (of_nat n :: u32) = n"
  by (simp add: unat_of_nat)

lemma apply_insert:
  assumes z: "drop p z = put_insert t @ r" "length z < 2 ^ 31"
    and out: "unat tot = pos" "pos + length t \<le> unat limit" "unat limit < length zOut"
  shows "apply_loop src z limit p (int (length z - p)) tot pos zOut =
    apply_loop src z limit (p + length (put_insert t)) (int (length z - (p + length (put_insert t))))
      (tot + of_nat (length t)) (pos + length t) (take pos zOut @ t @ drop (pos + length t) zOut)"
proof -
  define k where "k = length (putInt (of_nat (length t)))"
  have zz: "drop p z = putInt (of_nat (length t)) @ c_colon # t @ r" using z(1) by (simp add: put_insert_def)
  obtain c0 where c0: "rd z p = Some c0" "c0 \<noteq> 0"
    "getInt z p (int (length z - p)) = Some (of_nat (length t), p + k, int (length z - p) - int k)"
    "p + k < length z" "z ! (p + k) = c_colon" "drop (p + k + 1) z = t @ r"
    using command_number [OF zz] k_def by (metis punctuation(1) neg_less_0_iff_less zero_less_one)
  have tl: "length t < 2 ^ 32" "p + k + 1 + length t \<le> length z"
    using arg_cong [OF c0(6), of length] c0(4) z(2) by simp_all
  have ut: "unat (of_nat (length t) :: u32) = length t" using tl(1) by simp
  have ui: "uint (of_nat (length t) :: u32) = int (length t)" using arg_cong [OF ut, of int] by simp
  define m where "m = length z - p - k - 1"
  have w: "word_of_int (int (length z - p) - int k - 1) = (of_nat m :: u32)"
    using c0(4) by (simp add: m_def of_nat_diff)
  have "unat (of_nat m :: u32) = m" using z(2) by (simp add: m_def)
  then have "\<not> (of_nat (length t) :: u32) > of_nat m"
    using ut tl z(2) by (simp add: word_less_nat_alt m_def)
  moreover have "\<not> tot + of_nat (length t) > limit"
    using unat_add_small [of tot "of_nat (length t)" limit] ut out by simp
  moreover have "slice (z @ [0]) (p + k + 1) (length t) = Some t"
    using c0(4,6) tl(2) by (simp add: slice_def)
  moreover have "blit zOut pos t = Some (take pos zOut @ t @ drop (pos + length t) zOut)"
    using out by simp
  ultimately have "apply_loop src z limit p (int (length z - p)) tot pos zOut =
    apply_loop src z limit (p + k + 1 + length t) (int (length z - p) - int k - 1 - int (length t))
      (tot + of_nat (length t)) (pos + length t) (take pos zOut @ t @ drop (pos + length t) zOut)"
    using c0(1-5) ut ui w
    by (subst apply_loop.simps) (simp add: rd_def)
  moreover have "int (length z - p) - int k - 1 - int (length t) = int (length z - (p + length (put_insert t)))"
    "p + k + 1 + length t = p + length (put_insert t)"
    using tl(2) by (simp_all add: k_def put_insert_def of_nat_diff)
  ultimately show ?thesis by (simp only:)
qed

lemma apply_copy:
  assumes z: "drop p z = put_copy cnt ofst @ r"
    and src: "ofst + cnt \<le> length src" "length src < 2 ^ 31"
    and out: "unat tot = pos" "pos + cnt \<le> unat limit" "unat limit < length zOut"
  shows "apply_loop src z limit p (int (length z - p)) tot pos zOut =
    apply_loop src z limit (p + length (put_copy cnt ofst)) (int (length z - (p + length (put_copy cnt ofst))))
      (tot + of_nat cnt) (pos + cnt) (take pos zOut @ take cnt (drop ofst src) @ drop (pos + cnt) zOut)"
proof -
  define k where "k = length (putInt (of_nat cnt))"
  define l where "l = length (putInt (of_nat ofst))"
  have zz: "drop p z = putInt (of_nat cnt) @ c_at # putInt (of_nat ofst) @ c_comma # r"
    using z by (simp add: put_copy_def)
  obtain c0 where c0: "rd z p = Some c0" "c0 \<noteq> 0"
    "getInt z p (int (length z - p)) = Some (of_nat cnt, p + k, int (length z - p) - int k)"
    "p + k < length z" "z ! (p + k) = c_at"
    "drop (p + k + 1) z = putInt (of_nat ofst) @ c_comma # r"
    using command_number [OF zz] k_def by (metis punctuation(2) neg_less_0_iff_less zero_less_one)
  obtain c1 where c1:
    "getInt z (p + k + 1) (int (length z - p) - int k - 1) =
      Some (of_nat ofst, p + k + 1 + l, int (length z - p) - int k - 1 - int l)"
    "p + k + 1 + l < length z" "z ! (p + k + 1 + l) = c_comma"
    using command_number [OF c0(6)] l_def by (metis punctuation(3) neg_less_0_iff_less zero_less_one)
  have small: "cnt < 2 ^ 32" "ofst < 2 ^ 32" "length src < 2 ^ 32" using src by simp_all
  note u = small [THEN unat_of_nat_32]
  have "\<not> tot + of_nat cnt > limit"
    using unat_add_small(2) [of tot "of_nat cnt" limit] u out by simp
  moreover have "\<not> of_nat ofst + of_nat cnt > (of_nat (length src) :: u32)"
    using unat_add_small(2) [of "of_nat ofst" "of_nat cnt" "of_nat (length src)"] u src(1) by simp
  moreover have "slice src ofst cnt = Some (take cnt (drop ofst src))" using src by simp
  moreover have "blit zOut pos (take cnt (drop ofst src)) =
      Some (take pos zOut @ take cnt (drop ofst src) @ drop (pos + cnt) zOut)"
    using out src by simp
  ultimately have "apply_loop src z limit p (int (length z - p)) tot pos zOut =
    apply_loop src z limit (p + k + 1 + l + 1) (int (length z - p) - int k - 1 - int l - 1)
      (tot + of_nat cnt) (pos + cnt) (take pos zOut @ take cnt (drop ofst src) @ drop (pos + cnt) zOut)"
    using c0(1-5) c1 u
    by (subst apply_loop.simps) (simp add: rd_def)
  moreover have "int (length z - p) - int k - 1 - int l - 1 = int (length z - (p + length (put_copy cnt ofst)))"
    "p + k + 1 + l + 1 = p + length (put_copy cnt ofst)"
    using c1(2) by (simp_all add: k_def l_def put_copy_def of_nat_diff)
  ultimately show ?thesis by (simp only:)
qed

lemma wrap32: "(4294967296 :: u32) = 0"
  by simp

lemma apply_close:
  assumes z: "drop p z = putInt ck @ [c_semi]"
    and out: "unat tot = pos" "pos = unat limit" "unat limit < length zOut" "unat limit < 2 ^ 31"
      "checksum (take pos zOut) = ck"
  shows "apply_loop src z limit p (int (length z - p)) tot pos zOut =
    Some (int pos, zOut[pos := 0])"
proof -
  obtain c0 where c0: "rd z p = Some c0" "c0 \<noteq> 0"
    "getInt z p (int (length z - p)) = Some (ck, p + length (putInt ck), int (length z - p) - int (length (putInt ck)))"
    "p + length (putInt ck) < length z" "z ! (p + length (putInt ck)) = c_semi"
    using command_number [of p z ck c_semi "[]"] z by (metis punctuation(4) neg_less_0_iff_less zero_less_one)
  have tl: "tot = limit" using out by (simp add: word_unat_eq_iff)
  have "sint limit = int (unat limit)" using out(4) by (rule sint_small)
  then show ?thesis
    using c0 out tl by (subst apply_loop.simps) (simp add: rd_def)
qed

lemma apply_commands:
  assumes "drop p z = commands_text cs @ putInt ck @ [c_semi]" "length z < 2 ^ 31"
    and "list_all (command_ok src) cs" "length src < 2 ^ 31"
    and "unat tot = pos" "pos + length (run src cs) = unat limit" "unat limit < length zOut"
      "unat limit < 2 ^ 31" "ck = checksum (take pos zOut @ run src cs)"
  shows "apply_loop src z limit p (int (length z - p)) tot pos zOut =
    Some (int (unat limit), take pos zOut @ run src cs @ 0 # drop (Suc (unat limit)) zOut)"
  using assms
proof (induction cs arbitrary: p tot pos zOut)
  case Nil
  then show ?case
    using apply_close [of p z ck tot pos limit zOut src] by (simp add: upd_conv_take_nth_drop)
next
  case (Cons c cs)
  define o1 where "o1 = command_out src c"
  define zOut' where "zOut' = take pos zOut @ o1 @ drop (pos + length o1) zOut"
  define p' where "p' = p + length (command_text c)"
  have l: "pos + length o1 \<le> unat limit" using Cons.prems(6) by (simp add: o1_def)
  have d: "drop p' z = commands_text cs @ putInt ck @ [c_semi]"
    using Cons.prems(1) unfolding p'_def by (simp add: append_eq_conv_conj [symmetric] drop_drop add.commute)
       (metis append_eq_conv_conj drop_drop add.commute)
  have step: "apply_loop src z limit p (int (length z - p)) tot pos zOut =
    apply_loop src z limit p' (int (length z - p')) (tot + of_nat (length o1)) (pos + length o1) zOut'"
  proof (cases c)
    case (Insert_text t)
    then show ?thesis
      using apply_insert [of p z t _ tot pos limit zOut src] Cons.prems l
      by (simp add: o1_def zOut'_def p'_def)
  next
    case (Copy_from cnt ofst)
    then have "length o1 = cnt" using Cons.prems(3) by (auto simp: o1_def)
    then show ?thesis
      using apply_copy [of p z cnt ofst _ src tot pos limit zOut] Cons.prems l Copy_from
      by (simp add: o1_def zOut'_def p'_def)
  qed
  have t: "take (pos + length o1) zOut' = take pos zOut @ o1" "length zOut' = length zOut"
    "drop (Suc (unat limit)) zOut' = drop (Suc (unat limit)) zOut"
    using l Cons.prems(7) by (simp_all add: zOut'_def)
  have "unat (tot + of_nat (length o1)) = pos + length o1"
    using unat_add_small(1) [of tot "of_nat (length o1)" limit] l Cons.prems(5,8) by simp
  then show ?case
    unfolding step
    using Cons.IH [of p' "tot + of_nat (length o1)" "pos + length o1" zOut'] d Cons.prems t
    by (simp add: o1_def)
qed

section \<open>The commands written by \<open>delta_create\<close>\<close>

lemma match_forward_correct:
  "j \<le> match_forward zSrc zOut j x y \<and>
    (\<forall>m < match_forward zSrc zOut j x y - j. x + m < length zSrc \<and> y + m < length zOut \<and>
      zSrc ! (x + m) = zOut ! (y + m))"
proof (induction zSrc zOut j x y rule: match_forward.induct)
  case (1 zSrc zOut j x y)
  define n where "n = match_forward zSrc zOut (j + 1) (x + 1) (y + 1)"
  show ?case
  proof (cases "x < length zSrc \<and> y < length zOut \<and> zSrc ! x = zOut ! y")
    case True
    with 1 have n: "j + 1 \<le> n" "\<forall>m < n - (j + 1). x + 1 + m < length zSrc \<and> y + 1 + m < length zOut \<and>
      zSrc ! (x + 1 + m) = zOut ! (y + 1 + m)" by (simp_all add: n_def)
    have "x + m < length zSrc \<and> y + m < length zOut \<and> zSrc ! (x + m) = zOut ! (y + m)" if "m < n - j" for m
      using n(2) [rule_format, of "m - 1"] that True by (cases m) auto
    then show ?thesis using True n(1) by (subst (1 2) match_forward.simps) (simp add: n_def)
  qed (subst (1 2) match_forward.simps; auto)
qed

lemma match_backward_correct:
  "k \<le> match_backward zSrc zOut base i iSrc k \<and>
    (match_backward zSrc zOut base i iSrc k = k \<or> match_backward zSrc zOut base i iSrc k \<le> iSrc \<and>
      match_backward zSrc zOut base i iSrc k \<le> i + 1) \<and>
    (\<forall>m. k \<le> m \<and> m < match_backward zSrc zOut base i iSrc k \<longrightarrow> zSrc ! (iSrc - m) = zOut ! (base + i - m))"
proof (induction zSrc zOut base i iSrc k rule: match_backward.induct)
  case (1 zSrc zOut base i iSrc k)
  define n where "n = match_backward zSrc zOut base i iSrc (k + 1)"
  show ?case
  proof (cases "k < iSrc \<and> k \<le> i \<and> zSrc ! (iSrc - k) = zOut ! (base + i - k)")
    case True
    with 1 have n: "k + 1 \<le> n" "n = k + 1 \<or> n \<le> iSrc \<and> n \<le> i + 1"
      "\<forall>m. k + 1 \<le> m \<and> m < n \<longrightarrow> zSrc ! (iSrc - m) = zOut ! (base + i - m)" by (simp_all add: n_def)
    have "match_backward zSrc zOut base i iSrc k = n"
      using True by (subst match_backward.simps) (simp add: n_def)
    moreover have "zSrc ! (iSrc - m) = zOut ! (base + i - m)" if "k \<le> m" "m < n" for m
      using n(3) that True by (cases "m = k") auto
    ultimately show ?thesis using n(1,2) True by auto
  qed (subst (1 2 3 4 5) match_backward.simps; auto)
qed

text \<open>What is recorded of a match: a copy that fits and costs no more than it saves.\<close>

definition good_match :: "byte list \<Rightarrow> byte list \<Rightarrow> nat \<Rightarrow> best \<Rightarrow> bool" where
  "good_match zSrc zOut base b \<longleftrightarrow> bestCnt b = 0 \<or>
     bestOfst b + bestCnt b \<le> length zSrc \<and> base + bestLitsz b + bestCnt b \<le> length zOut \<and>
     take (bestCnt b) (drop (bestOfst b) zSrc) = take (bestCnt b) (drop (base + bestLitsz b) zOut) \<and>
     length (putInt (of_nat (bestLitsz b))) + length (putInt (of_nat (bestCnt b))) +
       length (putInt (of_nat (bestOfst b))) + 3 \<le> bestCnt b"

lemma try_block_correct:
  assumes "length zSrc < 2 ^ 30" "length zOut < 2 ^ 30" "iBlock * NHASH < length zSrc"
    "base + i < length zOut" "good_match zSrc zOut base b"
  shows "\<exists>b'. try_block zSrc zOut base i iBlock b = Some b' \<and> good_match zSrc zOut base b'"
proof -
  define iSrc where "iSrc = iBlock * NHASH"
  define n where "n = match_forward zSrc zOut 0 iSrc (base + i)"
  define k where "k = match_backward zSrc zOut base i iSrc 1 - 1"
  have fwd: "\<And>m. m < n \<Longrightarrow> iSrc + m < length zSrc \<and> base + i + m < length zOut \<and>
      zSrc ! (iSrc + m) = zOut ! (base + i + m)"
    using match_forward_correct [of 0 zSrc zOut iSrc "base + i"] by (simp add: n_def)
  have k: "k \<le> iSrc" "k \<le> i"
    and bwd: "\<And>m. 1 \<le> m \<Longrightarrow> m \<le> k \<Longrightarrow> zSrc ! (iSrc - m) = zOut ! (base + i - m)"
    using match_backward_correct [of 1 zSrc zOut base i iSrc] by (auto simp: k_def)
  have "n = 0 \<or> iSrc + n \<le> length zSrc \<and> base + i + n \<le> length zOut"
    using fwd [of "n - 1"] by (cases n) auto
  then have le: "iSrc - k + (n + k) \<le> length zSrc" "base + (i - k) + (n + k) \<le> length zOut"
    using k assms(3,4) by (auto simp: iSrc_def)
  have eq: "take (n + k) (drop (iSrc - k) zSrc) = take (n + k) (drop (base + (i - k)) zOut)"
  proof (rule nth_equalityI)
    fix m
    assume "m < length (take (n + k) (drop (iSrc - k) zSrc))"
    then have m: "m < n + k" by simp
    have "zSrc ! (iSrc - k + m) = zOut ! (base + (i - k) + m)"
    proof (cases "m < k")
      case True
      then show ?thesis using bwd [of "k - m"] k by simp
    next
      case False
      then show ?thesis using fwd [of "m - k"] m k by simp
    qed
    then show "take (n + k) (drop (iSrc - k) zSrc) ! m = take (n + k) (drop (base + (i - k)) zOut) ! m"
      using m le by simp
  qed (use le in simp)
  have small: "unat (of_nat x :: u32) = x" if "x < 2 ^ 30" for x using that by simp
  obtain d1 d2 d3 where d: "digit_count (of_nat (i - k)) = Some d1" "digit_count (of_nat (n + k)) = Some d2"
    "digit_count (of_nat (iSrc - k)) = Some d3"
    and "length (putInt (of_nat (i - k))) \<le> d1" "length (putInt (of_nat (n + k))) \<le> d2"
      "length (putInt (of_nat (iSrc - k))) \<le> d3"
    using digit_count_bound [of "of_nat (i - k)"] digit_count_bound [of "of_nat (n + k)"]
      digit_count_bound [of "of_nat (iSrc - k)"] small [of "i - k"] small [of "n + k"] small [of "iSrc - k"]
      assms(1-4) le by (auto simp: iSrc_def)
  moreover have "nat (int n - 1 + int k + 1) = n + k" by simp
  ultimately show ?thesis
    using assms(5) le eq
    unfolding try_block_def Let_def iSrc_def [symmetric] n_def [symmetric] k_def [symmetric]
    by (auto simp: good_match_def)
qed

text \<open>The tables hold blocks of the source, or -1.\<close>

definition table_ok :: "nat \<Rightarrow> int list \<Rightarrow> bool" where
  "table_ok nHash t \<longleftrightarrow> length t = nHash \<and> (\<forall>b \<in> set t. b < int nHash)"

lemma table_ok_peek: "table_ok n t \<Longrightarrow> k < n \<Longrightarrow> \<exists>b. peek t k = Some b \<and> b < int n"
  by (auto simp: table_ok_def)

lemma table_ok_poke: "table_ok n t \<Longrightarrow> k < n \<Longrightarrow> b < int n \<Longrightarrow> \<exists>t'. poke t k b = Some t' \<and> table_ok n t'"
  by (auto simp: table_ok_def dest!: set_update_subset_insert [THEN subsetD])

lemma hash_bucket: "0 < n \<Longrightarrow> n < 2 ^ 32 \<Longrightarrow> unat (w mod (of_nat n :: u32)) < n"
  by (simp add: unat_mod)

lemma build_table_correct:
  assumes "nHash = length zSrc div NHASH" "length zSrc < 2 ^ 30" "table_ok nHash collide" "table_ok nHash landmark"
  shows "\<exists>c l. build_table zSrc nHash i collide landmark = Some (c, l) \<and> table_ok nHash c \<and> table_ok nHash l"
  using assms
proof (induction zSrc nHash i collide landmark rule: build_table.induct)
  case (1 zSrc nHash i collide landmark)
  show ?case
  proof (cases "i + NHASH < length zSrc")
    case True
    then obtain h where h: "hash_init zSrc i = Some h" by (simp add: hash_init_eq)
    define hv where "hv = unat (hash_32bit h mod of_nat nHash)"
    have n: "0 < nHash" "nHash < 2 ^ 32" "i div NHASH < nHash"
      using True "1.prems"(1,2) by (auto simp: div_greater_zero_iff)
    then have hv: "hv < nHash" unfolding hv_def by (intro hash_bucket)
    obtain l where l: "peek landmark hv = Some l" "l < int nHash"
      using table_ok_peek [OF "1.prems"(4) hv] by blast
    obtain c' where c': "poke collide (i div NHASH) l = Some c'" "table_ok nHash c'"
      using table_ok_poke [OF "1.prems"(3) n(3) l(2)] by blast
    obtain l' where l': "poke landmark hv (int (i div NHASH)) = Some l'" "table_ok nHash l'"
      using table_ok_poke [OF "1.prems"(4) hv, of "int (i div NHASH)"] n(3) by auto
    have "\<exists>c l. build_table zSrc nHash (i + NHASH) c' l' = Some (c, l) \<and> table_ok nHash c \<and> table_ok nHash l"
      using "1.IH" [OF True h hv_def l(1) c'(1) l'(1) "1.prems"(1,2) c'(2) l'(2)] .
    then show ?thesis
      using True h l(1) c'(1) l'(1) by (subst build_table.simps) (simp add: hv_def [symmetric])
  next
    case False
    then show ?thesis using "1.prems" by (subst build_table.simps) simp
  qed
qed

lemma search_chain_correct:
  assumes "length zSrc < 2 ^ 30" "length zOut < 2 ^ 30" "nHash = length zSrc div NHASH"
    "table_ok nHash collide" "base + i < length zOut" "iBlock < int nHash" "good_match zSrc zOut base b"
  shows "\<exists>b'. search_chain zSrc zOut collide base i limit iBlock b = Some b' \<and> good_match zSrc zOut base b'"
  using assms(6,7)
proof (induction limit arbitrary: iBlock b)
  case (Suc limit)
  show ?case
  proof (cases "iBlock \<ge> 0")
    case True
    then have ib: "nat iBlock < nHash" using Suc.prems(1) by simp
    then have "nat iBlock * NHASH < length zSrc" using assms(3) by simp
    then obtain b' where b': "try_block zSrc zOut base i (nat iBlock) b = Some b'" "good_match zSrc zOut base b'"
      using try_block_correct [OF assms(1,2) _ assms(5) Suc.prems(2)] by blast
    obtain ib' where "peek collide (nat iBlock) = Some ib'" "ib' < int nHash"
      using table_ok_peek [OF assms(4) ib] by blast
    with Suc.IH [of ib' b'] b' True show ?thesis by simp
  qed (use Suc.prems in simp)
qed simp

lemma scan_window_correct:
  assumes "length zSrc < 2 ^ 30" "length zOut < 2 ^ 30" "nHash = length zSrc div NHASH" "0 < nHash"
    "table_ok nHash collide" "table_ok nHash landmark" "base + i + NHASH \<le> length zOut"
  shows "\<exists>r. scan_window zSrc zOut nHash collide landmark base h i = Some r \<and>
    (case r of None \<Rightarrow> True | Some b \<Rightarrow> good_match zSrc zOut base b \<and> 0 < bestCnt b)"
  using assms
proof (induction zSrc zOut nHash collide landmark base h i rule: scan_window.induct)
  case (1 zSrc zOut nHash collide landmark base h i)
  define hv where "hv = unat (hash_32bit h mod of_nat nHash)"
  have "nHash < 2 ^ 32" using "1.prems"(1,3) by simp
  then have hv: "hv < nHash" unfolding hv_def using "1.prems"(4) by (intro hash_bucket)
  obtain ib where ib: "peek landmark hv = Some ib" "ib < int nHash"
    using table_ok_peek [OF "1.prems"(6) hv] by blast
  let ?b0 = "\<lparr>bestCnt = 0, bestOfst = 0, bestLitsz = 0\<rparr>"
  obtain b where b: "search_chain zSrc zOut collide base i 250 ib ?b0 = Some b" "good_match zSrc zOut base b"
    using search_chain_correct [OF "1.prems"(1-3,5) _ ib(2), of base i ?b0] "1.prems"(2,7)
    by (auto simp: good_match_def)
  show ?case
  proof (cases "0 < bestCnt b \<or> base + i + NHASH \<ge> length zOut")
    case True
    then show ?thesis
      using ib(1) b by (subst scan_window.simps) (auto simp: hv_def [symmetric])
  next
    case False
    then have "base + (i + 1) + NHASH \<le> length zOut" using "1.prems"(7) by simp
    moreover have "\<not> 0 < bestCnt b" "\<not> length zOut \<le> base + i + NHASH" using False by simp_all
    ultimately have ih: "\<exists>r. scan_window zSrc zOut nHash collide landmark base
        (hash_next h (zOut ! (base + i + NHASH))) (i + 1) = Some r \<and>
      (case r of None \<Rightarrow> True | Some b \<Rightarrow> good_match zSrc zOut base b \<and> 0 < bestCnt b)"
      using "1.IH" [OF hv_def ib(1) b(1)] "1.prems"(1-6) by blast
    have "scan_window zSrc zOut nHash collide landmark base h i = scan_window zSrc zOut nHash collide landmark base
        (hash_next h (zOut ! (base + i + NHASH))) (i + 1)"
      using ib(1) b(1) False by (subst scan_window.simps) (simp add: hv_def [symmetric])
    then show ?thesis using ih by (simp only:)
  qed
qed

lemma length_put:
  "length (put_insert t) = length (putInt (of_nat (length t))) + 1 + length t"
  "length (put_copy cnt ofst) = length (putInt (of_nat cnt)) + length (putInt (of_nat ofst)) + 2"
  by (simp_all add: put_insert_def put_copy_def)

lemma length_put_insert: "length t < 2 ^ 30 \<Longrightarrow> length (put_insert t) \<le> length t + 6"
  using length_putInt [of 5 "of_nat (length t)"] by (simp add: length_put)

text \<open>
  The commands of the outer loop write the target up to \<open>base'\<close>, and take no more room than it
  does, except for the number of an insertion at the very end.
\<close>

lemma scan_target_correct:
  assumes "length zSrc < 2 ^ 30" "length zOut < 2 ^ 30" "nHash = length zSrc div NHASH" "0 < nHash"
    "table_ok nHash collide" "table_ok nHash landmark" "base \<le> length zOut"
  shows "\<exists>cs base'. scan_target zSrc zOut nHash collide landmark base = Some (commands_text cs, base') \<and>
    base \<le> base' \<and> base' \<le> length zOut \<and> list_all (command_ok zSrc) cs \<and>
    take base zOut @ run zSrc cs = take base' zOut \<and>
    length (commands_text cs) \<le> base' - base + (if base' = length zOut then 6 else 0)"
  using assms
proof (induction zSrc zOut nHash collide landmark base rule: scan_target.induct)
  case (1 zSrc zOut nHash collide landmark base)
  show ?case
  proof (cases "base + NHASH < length zOut")
    case False
    then show ?thesis
      using "1.prems"(7) by (intro exI [of _ "[]"] exI [of _ base]) (subst scan_target.simps; simp)
  next
    case True
    obtain h where h: "hash_init zOut base = Some h" using True by (simp add: hash_init_eq)
    have "base + 0 + NHASH \<le> length zOut" using True by simp
    then obtain r where r: "scan_window zSrc zOut nHash collide landmark base h 0 = Some r"
      "\<And>b. r = Some b \<Longrightarrow> good_match zSrc zOut base b \<and> 0 < bestCnt b"
      using scan_window_correct [OF "1.prems"(1-6), of base 0 h] by fastforce
    show ?thesis
    proof (cases r)
      case None
      have "take base zOut @ drop base zOut = take (length zOut) zOut" by simp
      then show ?thesis
        using True h r(1) None length_put_insert [of "drop base zOut"] "1.prems"(2)
        by (intro exI [of _ "[Insert_text (drop base zOut)]"] exI [of _ "length zOut"])
          (subst scan_target.simps; simp)
    next
      case (Some b)
      then have b: "0 < bestCnt b" "bestOfst b + bestCnt b \<le> length zSrc"
        "base + bestLitsz b + bestCnt b \<le> length zOut"
        "take (bestCnt b) (drop (bestOfst b) zSrc) = take (bestCnt b) (drop (base + bestLitsz b) zOut)"
        "length (putInt (of_nat (bestLitsz b))) + length (putInt (of_nat (bestCnt b))) +
           length (putInt (of_nat (bestOfst b))) + 3 \<le> bestCnt b"
        using r(2) by (auto simp: good_match_def)
      define t where "t = take (bestLitsz b) (drop base zOut)"
      define base1 where "base1 = base + bestLitsz b + bestCnt b"
      define lits where "lits = (if bestLitsz b > 0 then [Insert_text t] else [])"
      define new where "new = lits @ [Copy_from (bestCnt b) (bestOfst b)]"
      have t: "slice zOut base (bestLitsz b) = Some t" "length t = bestLitsz b" using b(3) by (simp_all add: t_def)
      have lit: "(if bestLitsz b > 0 then map_option put_insert (slice zOut base (bestLitsz b)) else Some []) =
        Some (commands_text lits)" using t by (simp add: lits_def)
      obtain cs base' where cs: "scan_target zSrc zOut nHash collide landmark base1 = Some (commands_text cs, base')"
        "base1 \<le> base'" "base' \<le> length zOut" "list_all (command_ok zSrc) cs"
        "take base1 zOut @ run zSrc cs = take base' zOut"
        "length (commands_text cs) \<le> base' - base1 + (if base' = length zOut then 6 else 0)"
        using "1.IH" [OF True h r(1) Some lit "1.prems"(1-6)] b(3) unfolding base1_def by blast
      have "take base1 zOut = take base zOut @ t @ take (bestCnt b) (drop (base + bestLitsz b) zOut)"
        unfolding base1_def t_def by (simp only: take_add append.assoc)
      then have run: "take base zOut @ run zSrc new = take base1 zOut"
        using b(4) t(2) by (auto simp: new_def lits_def)
      have "length (commands_text new) \<le> base1 - base"
        using b(5) t(2) by (auto simp: new_def lits_def length_put base1_def)
      then have "length (commands_text (new @ cs)) \<le> base' - base + (if base' = length zOut then 6 else 0)"
        using cs(2,6) by (simp add: base1_def split: if_splits)
      moreover have "list_all (command_ok zSrc) (new @ cs)"
        using cs(4) b(2) by (auto simp: new_def lits_def)
      moreover have "take base zOut @ run zSrc (new @ cs) = take base' zOut"
        using run cs(5) by (metis append.assoc commands_simps(6))
      moreover have "scan_target zSrc zOut nHash collide landmark base = Some (commands_text (new @ cs), base')"
        using True h r(1) Some lit cs(1) unfolding base1_def
        by (subst scan_target.simps) (simp add: new_def)
      moreover have "base \<le> base'" using cs(2) by (simp add: base1_def)
      ultimately show ?thesis using cs(3) by blast
    qed
  qed
qed

lemma delta_create_commands:
  assumes "length src < 2 ^ 30" "length out < 2 ^ 30"
  shows "\<exists>cs. delta_create src out = Some (putInt (of_nat (length out)) @ c_nl # commands_text cs @
      putInt (checksum out) @ [c_semi]) \<and>
    list_all (command_ok src) cs \<and> run src cs = out \<and> length (commands_text cs) \<le> length out + 6"
proof (cases "length src \<le> NHASH")
  case True
  then show ?thesis
    using length_put_insert [OF assms(2)]
    by (intro exI [of _ "[Insert_text out]"]) (simp add: delta_create_def Let_def)
next
  case False
  define n where "n = length src div NHASH"
  have n: "0 < n" using False by (simp add: n_def div_greater_zero_iff)
  have t: "table_ok n (replicate n (-1))" by (simp add: table_ok_def)
  obtain collide landmark where tab: "build_table src n 0 (replicate n (-1)) (replicate n (-1)) = Some (collide, landmark)"
    "table_ok n collide" "table_ok n landmark"
    using build_table_correct [OF n_def assms(1) t t] by blast
  obtain cs base where cs: "scan_target src out n collide landmark 0 = Some (commands_text cs, base)"
    "base \<le> length out" "list_all (command_ok src) cs" "run src cs = take base out"
    "length (commands_text cs) \<le> base + (if base = length out then 6 else 0)"
    using scan_target_correct [OF assms n_def n tab(2,3), of 0] by auto
  define last where "last = (if base < length out then [Insert_text (drop base out)] else [])"
  have "(if base < length out then map_option put_insert (slice out base (length out - base)) else Some []) =
    Some (commands_text last)" by (simp add: last_def)
  then have "delta_create src out = Some (putInt (of_nat (length out)) @ c_nl # commands_text (cs @ last) @
      putInt (checksum out) @ [c_semi])"
    using False tab(1) cs(1) by (simp add: delta_create_def Let_def n_def [symmetric])
  moreover have "run src (cs @ last) = out" using cs(2,4) by (simp add: last_def)
  moreover have "length (commands_text (cs @ last)) \<le> length out + 6"
  proof (cases "base < length out")
    case True
    have "length (put_insert (drop base out)) \<le> length (drop base out) + 6"
      by (rule length_put_insert) (use assms(2) in simp)
    then show ?thesis using True cs(2,5) by (simp add: last_def)
  qed (use cs(2,5) in \<open>simp add: last_def\<close>)
  moreover have "list_all (command_ok src) (cs @ last)" using cs(3) by (simp add: last_def)
  ultimately show ?thesis by blast
qed

lemma delta_apply_commands:
  assumes "delta = putInt (of_nat (length out)) @ c_nl # commands_text cs @ putInt (checksum out) @ [c_semi]"
    and "list_all (command_ok src) cs" "run src cs = out"
    and "length src < 2 ^ 31" "length out < 2 ^ 31" "length delta < 2 ^ 31" "length out < length buf"
  shows "delta_apply src delta (int (length delta)) buf =
      Some (int (length out), out @ 0 # drop (Suc (length out)) buf)"
    and "delta_output_size delta (int (length delta)) = Some (int (length out))"
proof -
  define k where "k = length (putInt (of_nat (length out)))"
  have z: "drop 0 delta = putInt (of_nat (length out)) @ c_nl # commands_text cs @ putInt (checksum out) @ [c_semi]"
    using assms(1) by simp
  obtain c0 where "getInt delta 0 (int (length delta)) = Some (of_nat (length out), 0 + k, int (length delta) - int k)"
    "0 + k < length delta" "delta ! (0 + k) = c_nl"
    "drop (0 + k + 1) delta = commands_text cs @ putInt (checksum out) @ [c_semi]"
    using command_number [OF z, of "int (length delta)"] by (auto simp: k_def)
  then have h: "getInt delta 0 (int (length delta)) = Some (of_nat (length out), k, int (length delta) - int k)"
    "k < length delta" "delta ! k = c_nl" "drop (k + 1) delta = commands_text cs @ putInt (checksum out) @ [c_semi]"
    by simp_all
  have u: "unat (of_nat (length out) :: u32) = length out" using assms(5) by simp
  have "apply_loop src delta (of_nat (length out)) (k + 1) (int (length delta - (k + 1))) 0 0 buf =
    Some (int (length out), out @ 0 # drop (Suc (length out)) buf)"
    using apply_commands [OF h(4) assms(6,2,4), of 0 0 "of_nat (length out)" buf] assms(3,5,7) u by simp
  moreover have "int (length delta) - int k - 1 = int (length delta - (k + 1))"
    using h(2) by (simp add: of_nat_diff)
  ultimately show "delta_apply src delta (int (length delta)) buf =
      Some (int (length out), out @ 0 # drop (Suc (length out)) buf)"
    using h(1-3) unfolding delta_apply_def by (simp add: rd_def algebra_simps)
  have "sint (of_nat (length out) :: u32) = int (length out)"
    using sint_small [of "of_nat (length out)"] u assms(5) by simp
  then show "delta_output_size delta (int (length delta)) = Some (int (length out))"
    using h(1-3) by (simp add: delta_output_size_def)
qed

section \<open>What an accepted delta guarantees\<close>

lemma apply_loop_accepts:
  "apply_loop src delta limit p len tot pos buf = Some (n, buf') \<Longrightarrow>
    length buf' = length buf \<and> (n \<noteq> -1 \<longrightarrow> n = sint limit \<and> unat limit \<le> length buf \<and>
      (\<exists>q len' v q' len''. getInt delta q len' = Some (v, q', len'') \<and> rd delta q' = Some c_semi \<and>
         v = checksum (take (unat limit) buf')))"
proof (induction src delta limit p len tot pos buf rule: apply_loop.induct)
  case (1 src delta limit p len tot pos buf)
  note body = "1.prems" [unfolded apply_loop.simps [of src delta limit p len tot pos buf]]
  show ?case
  proof -
    obtain c0 where c0: "rd delta p = Some c0" using "1.prems" by (subst (asm) apply_loop.simps) (auto split: bind_splits)
    show ?thesis
    proof (cases "c0 = 0 \<or> len \<le> 0")
      case True
      then show ?thesis using "1.prems" c0 by (subst (asm) apply_loop.simps) auto
    next
      case False
      then obtain cnt p1 len1 c where c: "getInt delta p len = Some (cnt, p1, len1)" "rd delta p1 = Some c"
        using "1.prems" c0 by (subst (asm) apply_loop.simps) (auto split: bind_splits)
      consider "c = c_at" | "c = c_colon" | "c = c_semi" | "c \<notin> {c_at, c_colon, c_semi}" by auto
      then show ?thesis
      proof cases
        case 4
        then show ?thesis using "1.prems" c0 c False by (subst (asm) apply_loop.simps) auto
      next
        case 3
        then show ?thesis using "1.prems" c0 c False
          by (subst (asm) apply_loop.simps) (auto split: bind_splits if_splits dest!: poke_SomeD slice_SomeD, blast)
      next
        case 2
        show ?thesis
        proof (cases "limit < tot + cnt \<or> word_of_int (len1 - 1) < cnt")
          case True
          then show ?thesis using body 2 c0 c False by (auto split: if_splits)
        next
          case ok: False
          then obtain s z1 where st: "\<not> tot + cnt > limit" "\<not> cnt > word_of_int (len1 - 1)"
            "slice (delta @ [0]) (p1 + 1) (unat cnt) = Some s" "blit buf pos s = Some z1"
            "apply_loop src delta limit (p1 + 1 + unat cnt) (len1 - 1 - uint cnt) (tot + cnt) (pos + unat cnt) z1 =
              Some (n, buf')"
            using body 2 c0 c False by (auto split: bind_splits)
          have "c \<noteq> c_at" using 2 by simp
          then show ?thesis
            using "1.IH"(2) [OF c0 False c(1) refl refl c(2) _ 2 st] blit_SomeD [OF st(4)] by simp
        qed
      next
        case 1
        obtain ofst p2 len2 c2 where g: "getInt delta (p1 + 1) (len1 - 1) = Some (ofst, p2, len2)"
          "(if len2 > 0 then rd delta p2 else Some c_comma) = Some c2"
          using body 1 c0 c False by (auto split: bind_splits)
        show ?thesis
        proof (cases "c2 \<noteq> c_comma \<or> limit < tot + cnt \<or> of_nat (length src) < ofst + cnt")
          case True
          then show ?thesis using body 1 c0 c g False by (auto split: if_splits)
        next
          case ok: False
          then obtain s z1 where st: "\<not> c2 \<noteq> c_comma" "\<not> tot + cnt > limit"
            "\<not> ofst + cnt > of_nat (length src)"
            "slice src (unat ofst) (unat cnt) = Some s" "blit buf pos s = Some z1"
            "apply_loop src delta limit (p2 + 1) (len2 - 1) (tot + cnt) (pos + unat cnt) z1 = Some (n, buf')"
            using body 1 c0 c g False by (auto split: bind_splits)
          then show ?thesis
            using "1.IH"(1) [OF c0 False c(1) refl refl c(2) 1 g(1) refl refl g(2) st] blit_SomeD [OF st(5)] by simp
        qed
      qed
    qed
  qed
qed

section \<open>Properties\<close>

text \<open>
  C2: Round trip: for files below \<open>2 ^ 30\<close> bytes \<open>delta_create\<close> returns a delta, at most 19
  bytes longer than the target (its comment asks for 60 bytes of slack), whose declared size is
  the target's, and \<open>delta_apply\<close> of it to the source restores the target, with its NUL, into any
  buffer with room for them, touching nothing behind.
\<close>

theorem delta_apply_create:
  assumes "length src < 2 ^ 30" "length out < 2 ^ 30" "length out < length buf"
  shows "\<exists>delta. delta_create src out = Some delta \<and> length delta \<le> length out + 19 \<and>
    delta_output_size delta (int (length delta)) = Some (int (length out)) \<and>
    delta_apply src delta (int (length delta)) buf =
      Some (int (length out), out @ 0 # drop (Suc (length out)) buf)"
proof -
  obtain cs where cs: "delta_create src out = Some (putInt (of_nat (length out)) @ c_nl # commands_text cs @
      putInt (checksum out) @ [c_semi])"
    "list_all (command_ok src) cs" "run src cs = out" "length (commands_text cs) \<le> length out + 6"
    using delta_create_commands [OF assms(1,2)] by blast
  define delta where "delta = putInt (of_nat (length out)) @ c_nl # commands_text cs @ putInt (checksum out) @ [c_semi]"
  have "length (putInt (of_nat (length out))) \<le> 5" using assms(2) by (intro length_putInt) simp_all
  then have l: "length delta \<le> length out + 19"
    using cs(4) length_putInt_6 [of "checksum out"] by (simp add: delta_def)
  have small: "length src < 2 ^ 31" "length out < 2 ^ 31" "length delta < 2 ^ 31" using assms l by simp_all
  show ?thesis
    using cs(1) l delta_apply_commands [OF delta_def cs(2,3) small assms(3)] unfolding delta_def [symmetric]
    by blast
qed

theorem delta_apply_create_witness:
  "\<exists>delta. delta_create [1, 2] [3, 0, 5] = Some delta \<and>
    delta_apply [1, 2] delta (int (length delta)) [9, 9, 9, 9, 9] = Some (3, [3, 0, 5, 0, 9])"
  using delta_apply_create [of "[1, 2]" "[3, 0, 5]" "[9, 9, 9, 9, 9]"] by auto

text \<open>
  C35: The rolling hash: advancing the hash of a window one character at a time gives the hash
  the window has when it is computed afresh at its new position.
\<close>

theorem hash_next_rolls:
  assumes "hash_init z off = Some h" "off + 16 + n \<le> length z"
  shows "\<exists>h'. hash_init z (off + n) = Some h' \<and>
    hash_32bit (foldl hash_next h (take n (drop (off + 16) z))) = hash_32bit h'"
proof -
  obtain h' where h': "hash_init z (off + n) = Some h'" using assms(2) by (simp add: hash_init_eq)
  show ?thesis
    using h' window_hash [OF window_init [OF h']] window_hash [OF window_roll [OF window_init [OF assms(1)] assms(2)]]
    by simp
qed

theorem hash_next_rolls_witness:
  "\<exists>h h'. hash_init (map of_nat [200..<220]) 1 = Some h \<and> hash_init (map of_nat [200..<220]) 4 = Some h' \<and>
    hash_32bit (foldl hash_next h [217, 218, 219]) = hash_32bit h'"
  using hash_next_rolls [of "map of_nat [200..<220]" 1 _ 3]
  by (simp add: hash_init_eq upt_rec)

text \<open>
  The optimised checksum (four partial sums over blocks of 16 and of 4 bytes, and a switch for
  the rest) is the sum of the big-endian 32-bit words of the buffer padded with zeros.
\<close>

theorem checksum_is_be_sum: "checksum z = be_sum z"
  by (rule checksum_be_sum)

text \<open>
  When \<open>delta_apply\<close> returns something else than -1, it is the size the delta declares, the
  output lies inside the buffer, and its checksum is a number of the delta followed by a
  semicolon.
\<close>

theorem delta_apply_accepts:
  assumes "delta_apply src delta len buf = Some (n, buf')" "n \<noteq> -1"
  shows "length buf' = length buf \<and> 
    (\<exists>size q len'. getInt delta 0 len = Some (size, q, len') \<and> rd delta q = Some c_nl \<and>
      n = sint size \<and> unat size \<le> length buf \<and>
      (\<exists>q len v q' len'. getInt delta q len = Some (v, q', len') \<and> rd delta q' = Some c_semi \<and>
        v = checksum (take (unat size) buf')))"
proof -
  obtain limit p len' where h: "getInt delta 0 len = Some (limit, p, len')" "rd delta p = Some c_nl"
    "apply_loop src delta limit (p + 1) (len' - 1) 0 0 buf = Some (n, buf')"
    using assms by (auto simp: delta_apply_def split: bind_splits if_splits)
  then show ?thesis using apply_loop_accepts [OF h(3)] assms(2) by blast
qed

theorem delta_apply_accepts_witness:
  "\<exists>buf'. delta_apply [1, 2] (bytes_of ''1'' @ [10] @ bytes_of ''1@1,20000;'') 12 [7, 7] = Some (1, buf') \<and>
    length buf' = 2"
proof -
  have "delta_apply [1, 2] (bytes_of ''1'' @ [10] @ bytes_of ''1@1,20000;'') 12 [7, 7] = Some (1, [2, 0])"
    by (simp add: delta_apply_def getInt_def getInt_loop.simps apply_loop.simps rd_def digit_value_def
        zValue_def nth_append checksum_def Let_def slice_def blit_def poke_def)
  then show ?thesis using delta_apply_accepts by force
qed

text \<open>
  Two ways out of the buffers: a copy command that ends the delta without its comma makes
  \<open>delta_apply\<close> read behind the delta, since the comma is only looked for while \<open>lenDelta\<close> is
  positive; and a count and an offset whose 32-bit sum wraps pass both range checks, and the copy
  reads far outside the source.
\<close>

theorem delta_apply_out_of_bounds:
  "delta_apply [1, 2] (bytes_of ''1'' @ [c_nl] @ bytes_of ''1@1'') 5 [7, 7] = None \<and>
   delta_apply [1, 2] (bytes_of ''1'' @ [c_nl] @ bytes_of ''1@0,3~~~~~@1,0;'') 17 [7, 7] = None"
  by (simp add: delta_apply_def getInt_def getInt_loop.simps apply_loop.simps rd_def digit_value_def
      zValue_def nth_append slice_def blit_def wrap32)

end
