(* ===== verification/Timer.thy ===== *)
theory Timer
  imports Prelude_C
begin

text \<open>
  The timer library's clock and its arithmetic on \<open>struct timeval\<close> (\<open>test1/timer/timer.c\<close>,
  and the two comparisons of \<open>timerqueue.c\<close>). The readings of \<open>times\<close>, \<open>sysinfo\<close> and \<open>sysconf\<close>
  are arguments. Lemmas: the clock follows the uptime of the machine, and the
  arithmetic agrees with the number of microseconds a normalised time value stands for.
\<close>

section \<open>Time values\<close>

datatype timeval = Timeval (tv_sec: int) (tv_usec: int)

definition normalised :: "timeval \<Rightarrow> bool" where
  "normalised tv \<longleftrightarrow> 0 \<le> tv_usec tv \<and> tv_usec tv < 1000000"

definition usecs :: "timeval \<Rightarrow> int" where
  "usecs tv = tv_sec tv * 1000000 + tv_usec tv"

text \<open>Lexicographic order: the order of the points in time of normalised values.\<close>

instantiation timeval :: linorder
begin

definition less_eq_timeval :: "timeval \<Rightarrow> timeval \<Rightarrow> bool" where
  "less_eq_timeval a b \<longleftrightarrow>
     tv_sec a < tv_sec b \<or> tv_sec a = tv_sec b \<and> tv_usec a \<le> tv_usec b"

definition less_timeval :: "timeval \<Rightarrow> timeval \<Rightarrow> bool" where
  "less_timeval a b \<longleftrightarrow>
     tv_sec a < tv_sec b \<or> tv_sec a = tv_sec b \<and> tv_usec a < tv_usec b"

instance
  by standard (auto simp: less_eq_timeval_def less_timeval_def intro: timeval.expand)

end

lemma le_timeval_iff_usecs:
  "normalised a \<Longrightarrow> normalised b \<Longrightarrow> a \<le> b \<longleftrightarrow> usecs a \<le> usecs b"
  by (auto simp: less_eq_timeval_def normalised_def usecs_def)

lemma usecs_inj: "normalised a \<Longrightarrow> normalised b \<Longrightarrow> usecs a = usecs b \<Longrightarrow> a = b"
  by (metis dual_order.antisym le_timeval_iff_usecs order_refl)

section \<open>The clock\<close>

text \<open>The static variables of \<open>timer_get\<close> (Linux branch).\<close>

record timer_state =
  last_times :: int
  adjust_seconds :: int
  calibrated :: bool
  sc_clk_tck :: int

definition timer_state_init :: timer_state where
  "timer_state_init = \<lparr>last_times = 0, adjust_seconds = 0, calibrated = False, sc_clk_tck = 1000000\<rparr>"

text \<open>
  \<open>now_times\<close> is the result of \<open>times(NULL)\<close>, \<open>uptime\<close> that of \<open>sysinfo\<close> and \<open>clk_tck\<close> that of
  \<open>sysconf(_SC_CLK_TCK)\<close>, both asked for only when the clock is (re)calibrated.
\<close>

definition timer_get :: "timer_state \<Rightarrow> int \<Rightarrow> int \<Rightarrow> int \<Rightarrow> timeval \<times> timer_state" where
  "timer_get st now_times uptime clk_tck =
     (let st1 = (if \<not> calibrated st \<or> now_times < last_times st
                 then st\<lparr>sc_clk_tck := clk_tck,
                         adjust_seconds := uptime - now_times sdiv clk_tck,
                         calibrated := True\<rparr>
                 else st);
          now = Timeval (adjust_seconds st1 + now_times sdiv sc_clk_tck st1)
                        ((now_times smod sc_clk_tck st1) * (1000000 sdiv sc_clk_tck st1))
      in (now, st1\<lparr>last_times := now_times\<rparr>))"

definition timer_diff :: "timeval \<Rightarrow> timeval \<Rightarrow> timeval" where
  "timer_diff larger smaller =
     (let sec = tv_sec larger - tv_sec smaller
      in if tv_usec larger < tv_usec smaller
         then Timeval (sec - 1) (1000000 + tv_usec larger - tv_usec smaller)
         else Timeval sec (tv_usec larger - tv_usec smaller))"

definition timer_ms :: "timeval \<Rightarrow> u64" where
  "timer_ms tv = word_of_int (tv_sec tv * 1000 + tv_usec tv sdiv 1000)"

definition timer_diff_ms :: "timeval \<Rightarrow> timeval \<Rightarrow> u64" where
  "timer_diff_ms larger smaller = timer_ms (timer_diff larger smaller)"

text \<open>
  The two numbers \<open>timer_lap\<close> prints (milliseconds, and the microseconds below them), and
  the time it returns; \<open>now\<close> is its reading of the clock.
\<close>

definition timer_lap :: "timeval \<Rightarrow> timeval \<Rightarrow> (int \<times> int) \<times> timeval" where
  "timer_lap now prev =
     (let diff = timer_diff now prev
      in ((tv_sec diff * 1000 + tv_usec diff sdiv 1000, tv_usec diff smod 1000), now))"

text \<open>The comparison of \<open>timerqueue.c\<close>: a \<open>long\<close> difference returned as an \<open>int\<close>.\<close>

definition compare_tv :: "timeval \<Rightarrow> timeval \<Rightarrow> int" where
  "compare_tv tv1 tv2 =
     (if tv_sec tv1 = tv_sec tv2 then to_int32 (tv_usec tv1 - tv_usec tv2)
      else to_int32 (tv_sec tv1 - tv_sec tv2))"

text \<open>
  \<open>tv_usec += (ms % 1000L) * 1000L\<close> and \<open>tv_sec += ms / 1000L\<close> are computed as \<open>unsigned long\<close>
  and stored back into a \<open>long\<close>.
\<close>

definition add_tv :: "timeval \<Rightarrow> u64 \<Rightarrow> timeval" where
  "add_tv tv ms =
     (let usec = to_int64 (tv_usec tv + (uint ms mod 1000) * 1000);
          sec = to_int64 (tv_sec tv + uint ms div 1000);
          sec' = to_int64 (sec + usec sdiv 1000000)
      in Timeval sec' (usec smod 1000000))"

section \<open>Lemmas\<close>

lemma normalised_timer_diff:
  "normalised a \<Longrightarrow> normalised b \<Longrightarrow> normalised (timer_diff a b)"
  by (auto simp: timer_diff_def normalised_def Let_def)

lemma usecs_timer_diff: "usecs (timer_diff a b) = usecs a - usecs b"
  by (simp add: timer_diff_def usecs_def Let_def)

lemma timer_ms_eq:
  assumes "normalised tv"
  shows "timer_ms tv = word_of_int (usecs tv div 1000)"
proof -
  have "usecs tv div 1000 = tv_sec tv * 1000 + tv_usec tv div 1000"
    unfolding usecs_def by (simp add: algebra_simps)
  with assms show ?thesis by (simp add: timer_ms_def normalised_def sdiv_nonneg)
qed

lemma compare_tv_sgn:
  assumes "normalised a" "normalised b" "\<bar>tv_sec a - tv_sec b\<bar> < 2 ^ 31"
  shows "compare_tv a b < 0 \<longleftrightarrow> a < b" and "compare_tv a b = 0 \<longleftrightarrow> a = b"
    and "compare_tv a b \<le> 0 \<longleftrightarrow> a \<le> b"
proof -
  have eq: "compare_tv a b =
      (if tv_sec a = tv_sec b then tv_usec a - tv_usec b else tv_sec a - tv_sec b)"
    using assms by (auto simp: compare_tv_def normalised_def intro!: to_int32_id)
  show "compare_tv a b < 0 \<longleftrightarrow> a < b" "compare_tv a b \<le> 0 \<longleftrightarrow> a \<le> b"
    by (auto simp: eq less_timeval_def less_eq_timeval_def)
  show "compare_tv a b = 0 \<longleftrightarrow> a = b"
    by (auto simp: eq intro: timeval.expand)
qed

lemma add_tv_correct:
  assumes n: "normalised tv" and b: "0 \<le> tv_sec tv" "tv_sec tv < 2 ^ 62"
    and m: "uint ms < 2 ^ 62"
  shows "normalised (add_tv tv ms)" and "usecs (add_tv tv ms) = usecs tv + uint ms * 1000"
proof -
  define u where "u = tv_usec tv + (uint ms mod 1000) * 1000"
  have r: "0 \<le> uint ms mod 1000" "uint ms mod 1000 < 1000" by simp_all
  have u: "0 \<le> u" "u < 2000000"
    using n r by (auto simp: u_def normalised_def)
  have le: "0 \<le> uint ms" by simp
  then have "uint ms div 1000 \<le> uint ms" by linarith
  with le m have d: "0 \<le> uint ms div 1000" "uint ms div 1000 < 2 ^ 62"
    by (simp_all add: pos_imp_zdiv_nonneg_iff)
  have ud: "0 \<le> u div 1000000" "u div 1000000 < 2"
    using u by auto
  have e1: "to_int64 u = u" using u by (intro to_int64_id) auto
  have e2: "to_int64 (tv_sec tv + uint ms div 1000) = tv_sec tv + uint ms div 1000"
    using b d by (intro to_int64_id) auto
  have e3: "to_int64 (tv_sec tv + uint ms div 1000 + u div 1000000)
      = tv_sec tv + uint ms div 1000 + u div 1000000"
    using b d ud m by (intro to_int64_id) auto
  have eq: "add_tv tv ms = Timeval (tv_sec tv + uint ms div 1000 + u div 1000000) (u mod 1000000)"
    unfolding add_tv_def Let_def u_def [symmetric]
    using u by (simp add: e1 e2 e3 sdiv_nonneg smod_nonneg)
  show "normalised (add_tv tv ms)" by (simp add: eq normalised_def)
  have split: "m = m div k * k + m mod k" for m k :: int by simp
  have "usecs (add_tv tv ms) = (tv_sec tv + uint ms div 1000) * 1000000
      + (u div 1000000 * 1000000 + u mod 1000000)"
    by (simp add: eq usecs_def distrib_right del: div_mult_mod_eq)
  also have "\<dots> = (tv_sec tv + uint ms div 1000) * 1000000 + u"
    by (simp only: split [symmetric])
  also have "\<dots> = usecs tv + (uint ms div 1000 * 1000 + uint ms mod 1000) * 1000"
    by (simp only: usecs_def u_def distrib_right mult.assoc)
  finally show "usecs (add_tv tv ms) = usecs tv + uint ms * 1000"
    by (simp only: split [symmetric])
qed

lemma timer_get_normalised:
  assumes "0 \<le> now_times" "0 < clk_tck" "calibrated st \<longrightarrow> 0 < sc_clk_tck st"
  shows "normalised (fst (timer_get st now_times uptime clk_tck))"
proof -
  have key: "0 \<le> (t mod c) * (1000000 div c) \<and> (t mod c) * (1000000 div c) < 1000000"
    if "0 \<le> t" "0 < c" for t c :: int
  proof -
    have r: "0 \<le> t mod c" "t mod c < c" using that by simp_all
    have q: "0 \<le> 1000000 div c" using that by (simp add: pos_imp_zdiv_nonneg_iff)
    have "c * (1000000 div c) \<le> 1000000"
      using that by (metis minus_mod_eq_mult_div pos_mod_sign diff_le_eq le_add_same_cancel1)
    moreover have "(t mod c) * (1000000 div c) < c * (1000000 div c) \<or> 1000000 div c = 0"
      using r q by (cases "1000000 div c = 0") (auto intro: mult_strict_right_mono)
    ultimately show ?thesis using r q by auto
  qed
  show ?thesis
    using assms key
    by (auto simp: timer_get_def Let_def normalised_def sdiv_nonneg smod_nonneg split: if_splits)
qed

lemma timer_get_state:
  assumes "0 < clk_tck" "calibrated st \<longrightarrow> 0 < sc_clk_tck st"
  shows "calibrated (snd (timer_get st t up clk_tck))"
    and "0 < sc_clk_tck (snd (timer_get st t up clk_tck))"
    and "last_times (snd (timer_get st t up clk_tck)) = t"
  using assms by (auto simp: timer_get_def Let_def)

lemma div_mod_scale_le:
  fixes t t' c k :: int
  assumes "t \<le> t'" "0 < c" "0 \<le> k" "t div c = t' div c"
  shows "(t mod c) * k \<le> (t' mod c) * k"
proof -
  have "t mod c \<le> t' mod c"
    using assms by (simp add: minus_div_mult_eq_mod [symmetric])
  then show ?thesis using assms(3) by (rule mult_right_mono)
qed

section \<open>A run of readings\<close>

text \<open>
  A machine whose uptime is \<open>u\<close> ticks, \<open>c\<close> of them in a second: \<open>sysinfo\<close> gives the whole seconds, \<open>times\<close> the ticks from
  another start, modulo the range \<open>m\<close> of its counter. The readings of the clock at the uptimes of a list.
\<close>

definition times_at :: "int \<Rightarrow> int \<Rightarrow> int \<Rightarrow> int" where
  "times_at m offset u = (u + offset) mod m"

fun readings :: "int \<Rightarrow> int \<Rightarrow> int \<Rightarrow> timer_state \<Rightarrow> int list \<Rightarrow> timeval list" where
  "readings c m offset st [] = []"
| "readings c m offset st (u # us) = (case timer_get st (times_at m offset u) (u div c) c of
     (now, st) \<Rightarrow> now # readings c m offset st us)"

text \<open>The clock was calibrated at some uptime since which \<open>times\<close> has not wrapped; \<open>u\<close> is that of the last reading.\<close>

definition follows :: "int \<Rightarrow> int \<Rightarrow> int \<Rightarrow> timer_state \<Rightarrow> int \<Rightarrow> bool" where
  "follows c m offset st u \<longleftrightarrow> calibrated st \<and> sc_clk_tck st = c \<and> last_times st = times_at m offset u \<and>
     (\<exists>u0 \<le> u. 0 \<le> u0 \<and> times_at m offset u = times_at m offset u0 + (u - u0) \<and>
       adjust_seconds st = u0 div c - times_at m offset u0 div c)"

lemma times_at_range: "0 < m \<Longrightarrow> 0 \<le> times_at m offset u \<and> times_at m offset u < m"
  by (simp add: times_at_def)

text \<open>The counter either goes on or wraps to a smaller value, when less than its range passes.\<close>

lemma times_at_step:
  assumes "0 < m" and "u \<le> v" and "v - u < m"
  shows "times_at m offset v = times_at m offset u + (v - u) \<or> times_at m offset v < times_at m offset u"
proof -
  let ?n = "times_at m offset u"
  note r = times_at_range [OF assms(1), of offset u]
  have "(v + offset) mod m = ((u + offset) + (v - u)) mod m" by (simp add: add.commute)
  also have "\<dots> = (?n + (v - u)) mod m" unfolding times_at_def by (simp only: mod_add_left_eq)
  finally have "(v + offset) mod m = (?n + (v - u)) mod m" .
  moreover have "(?n + (v - u)) mod m = ?n + (v - u)" if "?n + (v - u) < m"
    using that r assms by (simp add: mod_pos_pos_trivial)
  moreover have "(?n + (v - u)) mod m = ?n + (v - u) - m" if "m \<le> ?n + (v - u)"
    using that r assms by (intro int_mod_pos_eq [of _ m 1]) auto
  ultimately show ?thesis using assms(3) by (cases "?n + (v - u) < m") (auto simp: times_at_def)
qed

lemma timer_get_follows:
  assumes "0 < c" and "0 < m" and "0 \<le> v" and "\<not> calibrated st \<or> (\<exists>u. follows c m offset st u \<and> u \<le> v \<and> v - u < m)"
    and "timer_get st (times_at m offset v) (v div c) c = (now, st')"
  shows "follows c m offset st' v" and "now = Timeval (adjust_seconds st' + times_at m offset v div c) ((times_at m offset v mod c) * (1000000 div c))"
proof -
  note r = times_at_range [OF assms(2), of offset v]
  have q: "1000000 sdiv c = 1000000 div c" "times_at m offset v sdiv c = times_at m offset v div c" "times_at m offset v smod c = times_at m offset v mod c"
    using assms(1) r by (simp_all add: sdiv_nonneg smod_nonneg)
  have now: "now = Timeval (adjust_seconds st' + times_at m offset v sdiv sc_clk_tck st')
      ((times_at m offset v smod sc_clk_tck st') * (1000000 sdiv sc_clk_tck st'))"
    using assms(5) by (auto simp: timer_get_def Let_def split: if_splits)
  have "follows c m offset st' v \<and> sc_clk_tck st' = c"
  proof (cases "\<not> calibrated st \<or> times_at m offset v < last_times st")
    case True
    then show ?thesis using assms(3,5) q by (auto simp: timer_get_def follows_def Let_def)
  next
    case False
    then obtain u where u: "follows c m offset st u" "u \<le> v" "v - u < m" using assms(4) by auto
    then have n: "times_at m offset v = times_at m offset u + (v - u)"
      using times_at_step [OF assms(2) u(2,3), of offset] False by (auto simp: follows_def)
    obtain u0 where u0: "u0 \<le> u" "0 \<le> u0" "times_at m offset u = times_at m offset u0 + (u - u0)"
        "adjust_seconds st = u0 div c - times_at m offset u0 div c"
      using u(1) by (auto simp: follows_def)
    have "u0 \<le> v \<and> 0 \<le> u0 \<and> times_at m offset v = times_at m offset u0 + (v - u0) \<and>
        adjust_seconds st = u0 div c - times_at m offset u0 div c"
      using u0 u(2) n by simp
    moreover have "st' = st\<lparr>last_times := times_at m offset v\<rparr>" using False assms(5) by (simp add: timer_get_def Let_def)
    ultimately show ?thesis using False u(1) by (auto simp: follows_def)
  qed
  then show "follows c m offset st' v" and "now = Timeval (adjust_seconds st' + times_at m offset v div c) ((times_at m offset v mod c) * (1000000 div c))"
    using now q by simp_all
qed

text \<open>A reading is less than a second away from the uptime.\<close>

lemma reading_near:
  assumes "0 < c" and "c dvd 1000000" and "0 < m" and "follows c m offset st u"
    and "now = Timeval (adjust_seconds st + times_at m offset u div c) ((times_at m offset u mod c) * (1000000 div c))"
  shows "normalised now" and "\<bar>usecs now - u * (1000000 div c)\<bar> < 1000000"
proof -
  define k where "k = 1000000 div c"
  have k: "c * k = 1000000" "0 < k" using assms(1,2) by (auto simp: k_def dvd_div_eq_0_iff pos_imp_zdiv_pos_iff dvd_imp_le zdvd_imp_le)
  obtain u0 where u0: "times_at m offset u = times_at m offset u0 + (u - u0)" "adjust_seconds st = u0 div c - times_at m offset u0 div c"
    using assms(4) by (auto simp: follows_def)
  let ?n = "times_at m offset u" and ?w = "times_at m offset u0"
  have split: "a div c * 1000000 + (a mod c) * k = a * k" for a
    using k(1) by (metis div_mult_mod_eq distrib_right mult.assoc mult.commute)
  have mod: "0 \<le> (a mod c) * k \<and> (a mod c) * k < 1000000" for a
  proof -
    have "(a mod c) * k < c * k" using assms(1) k(2) by (intro mult_strict_right_mono) simp_all
    then show ?thesis using k assms(1) by simp
  qed
  show "normalised now" using mod [of ?n] by (simp add: assms(5) normalised_def k_def)
  have "usecs now = (u0 div c - ?w div c) * 1000000 + ?n * k"
    using split [of ?n] by (simp add: assms(5) usecs_def u0(2) k_def algebra_simps)
  also have "\<dots> = u * k - (u0 mod c) * k + (?w mod c) * k"
    using split [of u0] split [of ?w] unfolding u0(1) by (simp add: algebra_simps)
  finally show "\<bar>usecs now - u * (1000000 div c)\<bar> < 1000000"
    using mod [of u0] mod [of ?w] unfolding k_def [symmetric] by linarith
qed

text \<open>Without a wrap between them two readings are in order.\<close>

lemma readings_ordered:
  assumes "0 < c" and "0 \<le> n1" and "n1 \<le> n2"
  shows "Timeval (a + n1 div c) ((n1 mod c) * (1000000 div c)) \<le> Timeval (a + n2 div c) ((n2 mod c) * (1000000 div c))"
proof -
  have "n1 div c \<le> n2 div c" using assms by (simp add: zdiv_mono1)
  moreover have "n1 div c = n2 div c \<Longrightarrow> (n1 mod c) * (1000000 div c) \<le> (n2 mod c) * (1000000 div c)"
    using assms by (intro div_mod_scale_le) (simp_all add: pos_imp_zdiv_nonneg_iff)
  ultimately show ?thesis by (auto simp: less_eq_timeval_def)
qed

text \<open>Readings whose gaps are shorter than the range of the counter.\<close>

fun gaps_ok :: "int \<Rightarrow> int \<Rightarrow> int list \<Rightarrow> bool" where
  "gaps_ok m u [] = True"
| "gaps_ok m u (v # vs) = (u \<le> v \<and> v - u < m \<and> gaps_ok m v vs)"

text \<open>Each reading is in order with the one before it unless the counter wrapped between the two.\<close>

fun ordered :: "(int \<times> timeval) \<Rightarrow> (int \<times> timeval) list \<Rightarrow> bool" where
  "ordered x [] = True"
| "ordered x (y # ys) = ((fst x \<le> fst y \<longrightarrow> snd x \<le> snd y) \<and> ordered y ys)"

lemma readings_from:
  assumes "0 < c" and "c dvd 1000000" and "0 < m"
  shows "follows c m offset st u \<Longrightarrow> 0 \<le> u \<Longrightarrow> gaps_ok m u us \<Longrightarrow>
    list_all2 (\<lambda>v now. normalised now \<and> \<bar>usecs now - v * (1000000 div c)\<bar> < 1000000) us (readings c m offset st us) \<and>
    ordered (times_at m offset u, Timeval (adjust_seconds st + times_at m offset u div c) ((times_at m offset u mod c) * (1000000 div c)))
      (zip (map (times_at m offset) us) (readings c m offset st us))"
proof (induction us arbitrary: st u)
  case (Cons v us)
  obtain now st' where g: "timer_get st (times_at m offset v) (v div c) c = (now, st')" by fastforce
  have v: "0 \<le> v" "u \<le> v" "v - u < m" "gaps_ok m v us" using Cons.prems by simp_all
  then have e: "\<not> calibrated st \<or> (\<exists>u. follows c m offset st u \<and> u \<le> v \<and> v - u < m)" using Cons.prems(1) by blast
  note f = timer_get_follows [OF assms(1,3) v(1) e g]
  have le: "Timeval (adjust_seconds st + times_at m offset u div c) ((times_at m offset u mod c) * (1000000 div c)) \<le> now"
    if "times_at m offset u \<le> times_at m offset v"
  proof -
    have "adjust_seconds st' = adjust_seconds st" using g that Cons.prems(1) by (auto simp: timer_get_def follows_def Let_def)
    then show ?thesis using readings_ordered [OF assms(1) _ that] times_at_range [OF assms(3), of offset u] unfolding f(2) by simp
  qed
  show ?case using Cons.IH [OF f(1) v(1,4)] reading_near [OF assms f] le g f(2) by simp
qed simp

section \<open>Properties\<close>



text \<open>
  At a wrap the clock can go back by almost a second, as the counter and the uptime need not begin their seconds together: here by 0.98
  seconds between two readings 10 milliseconds apart.
\<close>

lemma clock_goes_back:
  "readings 100 1000 99 timer_state_init [0, 900, 901] = [Timeval 0 990000, Timeval 9 990000, Timeval 9 0]"
  by code_simp

text \<open>
  The elapsed milliseconds are those of the exact difference when the first time is not
  before the second, and otherwise wrap to a value of at least \<open>2 ^ 63\<close>, which the callers'
  test for more than 10 ms takes for a long delay.
\<close>

theorem timer_diff_ms_exact:
  assumes "normalised a" "normalised b" "\<bar>usecs a - usecs b\<bar> < 2 ^ 63"
  shows "(b \<le> a \<longrightarrow> uint (timer_diff_ms a b) = (usecs a - usecs b) div 1000) \<and>
    (a < b \<longrightarrow> 2 ^ 63 \<le> uint (timer_diff_ms a b))"
proof -
  define d where "d = usecs a - usecs b"
  have eq: "timer_diff_ms a b = word_of_int (d div 1000)"
    using assms by (simp add: timer_diff_ms_def timer_ms_eq normalised_timer_diff
        usecs_timer_diff d_def)
  have bd: "\<bar>d\<bar> < 2 ^ 63" using assms by (simp add: d_def)
  have u: "uint (timer_diff_ms a b) = (d div 1000) mod 2 ^ 64"
    by (simp add: eq uint_word_of_int)
  have "uint (timer_diff_ms a b) = d div 1000" if "b \<le> a"
  proof -
    have "0 \<le> d" using that assms le_timeval_iff_usecs [of b a] by (simp add: d_def)
    then have "0 \<le> d div 1000" "d div 1000 < 2 ^ 64" using bd by (simp, simp)
    then show ?thesis by (simp add: u)
  qed
  moreover have "2 ^ 63 \<le> uint (timer_diff_ms a b)" if "a < b"
  proof -
    have "usecs a < usecs b"
      using that assms(1,2) le_timeval_iff_usecs [of b a] by (simp add: not_le [symmetric])
    then have "d < 0" by (simp add: d_def)
    then have "d div 1000 < 0" "- (2 ^ 63) \<le> d div 1000" using bd by (simp, simp)
    then have "(d div 1000) mod 2 ^ 64 = d div 1000 + 2 ^ 64"
      by (intro mod_pos_pos_trivial [of "d div 1000 + 2 ^ 64" "2 ^ 64", simplified mod_add_self2]) auto
    then show ?thesis using \<open>- (2 ^ 63) \<le> d div 1000\<close> by (simp add: u)
  qed
  ultimately show ?thesis by (simp add: d_def)
qed

theorem timer_diff_ms_exact_witness:
  "uint (timer_diff_ms (Timeval 5 100) (Timeval 4 999000)) = 1"
  using timer_diff_ms_exact [of "Timeval 5 100" "Timeval 4 999000"]
  by (simp add: normalised_def usecs_def less_eq_timeval_def)

text \<open>
  \<open>compare_tv\<close> returns the \<open>long\<close> difference of the seconds through an \<open>int\<close>: a time
  \<open>2 ^ 31\<close> seconds later compares as earlier.
\<close>

theorem compare_tv_wraps: "compare_tv (Timeval (s + 2 ^ 31) u) (Timeval s v) < 0"
  by (simp add: compare_tv_def to_int32_def)

end
