(* ===== verification/TimerQueue.thy ===== *)
theory TimerQueue
  imports Timer "HOL-Library.Multiset"
begin

text \<open>
  The timer queue (\<open>test1/timer/timerqueue.c\<close>): a linked list of events, nearest first,
  behind a dummy head. The list is the sequence of the real nodes; a node pointer \<open>ee\<close> is the
  number of real nodes up to it, so that \<open>ee->next\<close> is the element at that index.
  The locale \<open>timed_queue\<close> is the contract of an insertion into a queue ordered by due time;
  it is interpreted on \<open>enqueue\<close>, the insertion loop of \<open>timer_queue_add\<close>.
\<close>

section \<open>Model\<close>

record ('cb, 'ck) timer_event =
  tv :: timeval
  callback :: 'cb
  cookie :: 'ck

type_synonym ('cb, 'ck) timerqueue = "('cb, 'ck) timer_event list"

definition timer_queue_alloc :: "('cb, 'ck) timerqueue" where
  "timer_queue_alloc = []"

text \<open>The nodes handed to \<open>free\<close>, in order.\<close>

fun timer_queue_free :: "('cb, 'ck) timerqueue \<Rightarrow> ('cb, 'ck) timer_event list" where
  "timer_queue_free [] = []"
| "timer_queue_free (e # es) = e # timer_queue_free es"

text \<open>The search loop of \<open>timer_queue_add\<close>: how many nodes \<open>ee\<close> advances.\<close>

fun insert_pos :: "timeval \<Rightarrow> ('cb, 'ck) timerqueue \<Rightarrow> nat" where
  "insert_pos t [] = 0"
| "insert_pos t (f # fs) = (if compare_tv t (tv f) < 0 then 0 else Suc (insert_pos t fs))"

definition enqueue :: "('cb, 'ck) timer_event \<Rightarrow> ('cb, 'ck) timerqueue \<Rightarrow> ('cb, 'ck) timerqueue" where
  "enqueue e tq = take (insert_pos (tv e) tq) tq @ e # drop (insert_pos (tv e) tq) tq"

definition new_event :: "timeval \<Rightarrow> u64 \<Rightarrow> 'cb \<Rightarrow> 'ck \<Rightarrow> ('cb, 'ck) timer_event" where
  "new_event now ms cb ck = \<lparr>tv = add_tv now ms, callback = cb, cookie = ck\<rparr>"

definition timer_queue_add ::
    "('cb, 'ck) timerqueue \<Rightarrow> timeval \<Rightarrow> u64 \<Rightarrow> 'cb \<Rightarrow> 'ck \<Rightarrow> ('cb, 'ck) timerqueue" where
  "timer_queue_add tq now ms cb ck = enqueue (new_event now ms cb ck) tq"

text \<open>
  What a callback does to the queue: the calls of \<open>timer_queue_add\<close> it makes, each with the
  time read inside that call. The node \<open>ee\<close> held by \<open>timer_queue_check_events\<close> stays the
  same node, so its index moves when a new node is linked in before it.
\<close>

type_synonym ('cb, 'ck) add_call = "timeval \<times> u64 \<times> 'cb \<times> 'ck"

fun run_adds :: "('cb, 'ck) add_call list \<Rightarrow> ('cb, 'ck) timerqueue \<Rightarrow> nat \<Rightarrow>
    ('cb, 'ck) timerqueue \<times> nat" where
  "run_adds [] tq i = (tq, i)"
| "run_adds ((now, ms, cb, ck) # cs) tq i =
     run_adds cs (timer_queue_add tq now ms cb ck)
       (if insert_pos (add_tv now ms) tq < i then Suc i else i)"

text \<open>
  The loop of \<open>timer_queue_check_events\<close>. \<open>invoke cb ck s\<close> is the effect of the callback \<open>cb\<close>
  on the rest of the program's state \<open>s\<close>. The result has the events fired, in order. A callback
  that keeps adding events already due keeps the loop going, so the loop is partial.
  The measuring of slow callbacks only writes to the standard error and is left out.
\<close>

partial_function (option) check_events_loop ::
    "('cb \<Rightarrow> 'ck \<Rightarrow> 's \<Rightarrow> ('cb, 'ck) add_call list \<times> 's) \<Rightarrow> timeval \<Rightarrow>
     ('cb, 'ck) timerqueue \<Rightarrow> nat \<Rightarrow> 's \<Rightarrow> ('cb, 'ck) timer_event list \<Rightarrow>
     (('cb, 'ck) timerqueue \<times> 's \<times> ('cb, 'ck) timer_event list) option" where
  "check_events_loop invoke now tq i s fired =
     (if length tq \<le> i then Some (tq, s, fired)
      else if compare_tv (tv (tq ! i)) now \<le> 0 then
        (let r = invoke (callback (tq ! i)) (cookie (tq ! i)) s;
             q = run_adds (fst r) tq i
         in check_events_loop invoke now (take (snd q) (fst q) @ drop (Suc (snd q)) (fst q))
              (snd q) (snd r) (fired @ [tq ! i]))
      else check_events_loop invoke now tq (Suc i) s fired)"

definition timer_queue_check_events ::
    "('cb \<Rightarrow> 'ck \<Rightarrow> 's \<Rightarrow> ('cb, 'ck) add_call list \<times> 's) \<Rightarrow> timeval \<Rightarrow>
     ('cb, 'ck) timerqueue \<Rightarrow> 's \<Rightarrow>
     (('cb, 'ck) timerqueue \<times> 's \<times> ('cb, 'ck) timer_event list) option" where
  "timer_queue_check_events invoke now tq s = check_events_loop invoke now tq 0 s []"

text \<open>The return code and the time stored through \<open>tv\<close> (\<open>None\<close>: left unchanged).\<close>

definition timer_queue_get_timeout ::
    "('cb, 'ck) timerqueue \<Rightarrow> timeval \<Rightarrow> int \<times> timeval option" where
  "timer_queue_get_timeout tq now =
     (case tq of
        [] \<Rightarrow> (1, None)
      | e # es \<Rightarrow>
          (0, Some (if compare_tv (tv e) now > 0 then
                      (if tv_usec (tv e) < tv_usec now
                       then Timeval (tv_sec (tv e) - tv_sec now - 1)
                              (1000000 + tv_usec (tv e) - tv_usec now)
                       else Timeval (tv_sec (tv e) - tv_sec now) (tv_usec (tv e) - tv_usec now))
                    else Timeval 0 0)))"

section \<open>The contract of an insertion ordered by due time\<close>

locale timed_queue =
  fixes add :: "'e \<Rightarrow> 'e list \<Rightarrow> 'e list"
    and due :: "'e \<Rightarrow> 'k :: linorder"
    and ok :: "'e \<Rightarrow> bool"
  assumes add_mset: "mset (add e q) = add_mset e (mset q)"
    and add_sorted: "ok e \<Longrightarrow> list_all ok q \<Longrightarrow> sorted (map due q) \<Longrightarrow> sorted (map due (add e q))"
    and add_after: "ok e \<Longrightarrow> list_all ok (p @ q) \<Longrightarrow> \<forall>x \<in> set p. due x \<le> due e \<Longrightarrow>
          add e (p @ q) = p @ add e q"
begin

definition wf :: "'e list \<Rightarrow> bool" where
  "wf q \<longleftrightarrow> list_all ok q \<and> sorted (map due q)"

definition expired :: "'k \<Rightarrow> 'e list \<Rightarrow> 'e list" where
  "expired now q = takeWhile (\<lambda>e. due e \<le> now) q"

definition pending :: "'k \<Rightarrow> 'e list \<Rightarrow> 'e list" where
  "pending now q = dropWhile (\<lambda>e. due e \<le> now) q"

lemma set_add: "set (add e q) = insert e (set q)"
  by (metis add_mset set_mset_add_mset_insert set_mset_mset)

lemma wf_add: "ok e \<Longrightarrow> wf q \<Longrightarrow> wf (add e q)"
  by (auto simp: wf_def add_sorted set_add list_all_iff)

lemma wf_fold: "list_all ok es \<Longrightarrow> wf q \<Longrightarrow> wf (fold add es q)"
  by (induction es arbitrary: q) (auto simp: wf_add)

lemma mset_fold: "mset (fold add es q) = mset es + mset q"
  by (induction es arbitrary: q) (auto simp: add_mset)

lemma add_expired_prefix:
  assumes "ok e" "list_all ok (p @ q)" "\<forall>x \<in> set p. due x \<le> now" "now < due e"
  shows "add e (p @ q) = p @ add e q"
  using assms by (intro add_after) (auto intro: order.strict_implies_order order.trans)

lemma fold_expired_prefix:
  "list_all ok es \<Longrightarrow> list_all ok (p @ q) \<Longrightarrow> \<forall>x \<in> set p. due x \<le> now \<Longrightarrow>
   \<forall>e \<in> set es. now < due e \<Longrightarrow> fold add es (p @ q) = p @ fold add es q"
proof (induction es arbitrary: q)
  case (Cons e es)
  then have "add e (p @ q) = p @ add e q" by (intro add_expired_prefix) auto
  moreover have "list_all ok (p @ add e q)" using Cons.prems by (auto simp: list_all_iff set_add)
  ultimately show ?case using Cons by simp
qed simp

lemma wf_head_min: "wf (e # q) \<Longrightarrow> x \<in> set q \<Longrightarrow> due e \<le> due x"
  by (auto simp: wf_def)

lemma wf_pending: "wf q \<Longrightarrow> e \<in> set (pending now q) \<Longrightarrow> now < due e"
proof (induction q)
  case (Cons x q)
  then show ?case
    by (auto simp: pending_def wf_def split: if_splits)
qed (simp add: pending_def)

end

section \<open>Lemmas on the model\<close>

text \<open>Times within the range in which the \<open>int\<close> result of \<open>compare_tv\<close> is exact.\<close>

definition time_ok :: "timeval \<Rightarrow> bool" where
  "time_ok t \<longleftrightarrow> normalised t \<and> 0 \<le> tv_sec t \<and> tv_sec t < 2 ^ 31"

definition event_ok :: "('cb, 'ck) timer_event \<Rightarrow> bool" where
  "event_ok e \<longleftrightarrow> time_ok (tv e)"

lemma compare_tv_ok:
  "time_ok a \<Longrightarrow> time_ok b \<Longrightarrow> compare_tv a b < 0 \<longleftrightarrow> a < b"
  "time_ok a \<Longrightarrow> time_ok b \<Longrightarrow> compare_tv a b \<le> 0 \<longleftrightarrow> a \<le> b"
  using compare_tv_sgn [of a b] by (auto simp: time_ok_def)

lemma insert_pos_le: "insert_pos t q \<le> length q"
  by (induction q) auto

lemma enqueue_simps [simp]:
  "enqueue e [] = [e]"
  "enqueue e (f # q) = (if compare_tv (tv e) (tv f) < 0 then e # f # q else f # enqueue e q)"
  by (simp_all add: enqueue_def)

lemma enqueue_set [simp]: "set (enqueue e q) = insert e (set q)"
  by (induction q) auto

interpretation tq: timed_queue enqueue tv event_ok
proof
  fix e :: "('a, 'b) timer_event" and p q
  show "mset (enqueue e q) = add_mset e (mset q)"
    by (induction q) auto
  show "event_ok e \<Longrightarrow> list_all event_ok q \<Longrightarrow> sorted (map tv q) \<Longrightarrow> sorted (map tv (enqueue e q))"
    by (induction q) (auto simp: compare_tv_ok event_ok_def)
  show "event_ok e \<Longrightarrow> list_all event_ok (p @ q) \<Longrightarrow> \<forall>x \<in> set p. tv x \<le> tv e \<Longrightarrow>
      enqueue e (p @ q) = p @ enqueue e q"
    by (induction p) (auto simp: compare_tv_ok event_ok_def)
qed

text \<open>With every new event due after \<open>now\<close>, the head node and its successor stay in place.\<close>

fun added_events :: "('cb, 'ck) add_call list \<Rightarrow> ('cb, 'ck) timer_event list" where
  "added_events [] = []"
| "added_events ((now, ms, cb, ck) # cs) = new_event now ms cb ck # added_events cs"

lemma run_adds_0: "run_adds cs q 0 = (fold enqueue (added_events cs) q, 0)"
  by (induction cs arbitrary: q rule: added_events.induct) (simp_all add: timer_queue_add_def)

lemma check_events_skip:
  "list_all event_ok q \<Longrightarrow> time_ok now \<Longrightarrow> \<forall>e \<in> set (drop i q). now < tv e \<Longrightarrow>
   check_events_loop invoke now q i s fired = Some (q, s, fired)"
proof (induction "length q - i" arbitrary: i)
  case 0
  then show ?case by (simp add: check_events_loop.simps)
next
  case (Suc n)
  then have i: "i < length q" by simp
  then have "q ! i \<in> set (drop i q)" by (metis Cons_nth_drop_Suc list.set_intros(1))
  with Suc.prems have "now < tv (q ! i)" "time_ok (tv (q ! i))"
    using i by (auto simp: list_all_length event_ok_def)
  then have "\<not> compare_tv (tv (q ! i)) now \<le> 0"
    using Suc.prems compare_tv_ok(2) by fastforce
  moreover have "set (drop (Suc i) q) \<subseteq> set (drop i q)"
    by (rule set_drop_subset_set_drop) simp
  then have "check_events_loop invoke now q (Suc i) s fired = Some (q, s, fired)"
    using Suc by (intro Suc.hyps(1)) auto
  ultimately show ?case using i by (simp add: check_events_loop.simps)
qed

text \<open>What a list of callbacks, run in order, adds to the queue and makes of the state.\<close>

fun run_callbacks :: "('cb \<Rightarrow> 'ck \<Rightarrow> 's \<Rightarrow> ('cb, 'ck) add_call list \<times> 's) \<Rightarrow>
    ('cb, 'ck) timer_event list \<Rightarrow> 's \<Rightarrow> ('cb, 'ck) timer_event list \<times> 's" where
  "run_callbacks invoke [] s = ([], s)"
| "run_callbacks invoke (e # es) s =
     (let (adds, s') = invoke (callback e) (cookie e) s;
          (rest, s'') = run_callbacks invoke es s'
      in (added_events adds @ rest, s''))"

definition callbacks_after ::
    "('cb \<Rightarrow> 'ck \<Rightarrow> 's \<Rightarrow> ('cb, 'ck) add_call list \<times> 's) \<Rightarrow> timeval \<Rightarrow> bool" where
  "callbacks_after invoke now \<longleftrightarrow>
     (\<forall>cb ck s. \<forall>e \<in> set (added_events (fst (invoke cb ck s))). event_ok e \<and> now < tv e)"

lemma expired_pending: "tq.expired now q @ tq.pending now q = q"
  by (simp add: tq.expired_def tq.pending_def)

lemma fold_enqueue_split:
  assumes "list_all event_ok es" "\<forall>e \<in> set es. now < tv e" "list_all event_ok q"
  shows "fold enqueue es q = tq.expired now q @ fold enqueue es (tq.pending now q)"
proof -
  have "\<forall>x \<in> set (tq.expired now q). tv x \<le> now"
    by (auto simp: tq.expired_def dest: set_takeWhileD)
  with assms show ?thesis
    using tq.fold_expired_prefix [of es "tq.expired now q" "tq.pending now q" now]
    by (simp add: expired_pending)
qed

lemma expired_append_after:
  "\<forall>x \<in> set p. tv x \<le> now \<Longrightarrow> \<forall>x \<in> set q. now < tv x \<Longrightarrow>
   tq.expired now (p @ q) = p \<and> tq.pending now (p @ q) = q"
  by (induction p)
    (cases q; auto simp: tq.expired_def tq.pending_def takeWhile_append dropWhile_append)+

lemma check_events_loop_fires:
  assumes "tq.wf (p @ r)" "time_ok now" "callbacks_after invoke now"
    and "\<forall>x \<in> set p. tv x \<le> now" "\<forall>x \<in> set r. now < tv x"
  shows "check_events_loop invoke now (p @ r) 0 s fired =
    Some (fold enqueue (fst (run_callbacks invoke p s)) r,
          snd (run_callbacks invoke p s), fired @ p)"
  using assms
proof (induction p arbitrary: r s fired)
  case Nil
  then show ?case by (simp add: check_events_skip tq.wf_def)
next
  case (Cons e p)
  obtain adds s' where i: "invoke (callback e) (cookie e) s = (adds, s')" by fastforce
  define new where "new = added_events adds"
  have new: "list_all event_ok new" "\<forall>x \<in> set new. now < tv x"
    using Cons.prems(3) i by (auto simp: callbacks_after_def new_def list_all_iff dest: spec, metis fst_conv)+
  have wf: "tq.wf (p @ r)" and ok: "list_all event_ok (e # p @ r)" "event_ok e"
    using Cons.prems(1) by (auto simp: tq.wf_def)
  have le: "compare_tv (tv e) now \<le> 0"
    using Cons.prems ok by (simp add: compare_tv_ok event_ok_def)
  have q: "fold enqueue new ((e # p) @ r) = (e # p) @ fold enqueue new r"
    using new ok Cons.prems(4) by (intro tq.fold_expired_prefix [of _ _ _ now]) auto
  have q': "fold enqueue new (p @ r) = p @ fold enqueue new r"
    using new ok Cons.prems(4) by (intro tq.fold_expired_prefix [of _ _ _ now]) auto
  have "tq.wf (p @ fold enqueue new r)"
    using tq.wf_fold [OF new(1) wf] by (simp add: q')
  moreover have "\<forall>x \<in> set (fold enqueue new r). now < tv x"
    using new(2) Cons.prems(5) tq.mset_fold [of new r]
    by (metis Un_iff set_mset_mset set_mset_union)
  ultimately have "check_events_loop invoke now (p @ fold enqueue new r) 0 s' (fired @ [e]) =
    Some (fold enqueue (fst (run_callbacks invoke p s')) (fold enqueue new r),
          snd (run_callbacks invoke p s'), (fired @ [e]) @ p)"
    using Cons.prems by (intro Cons.IH) auto
  then show ?case
    using le q by (simp add: check_events_loop.simps [of _ _ "e # p @ r"] i run_adds_0 new_def
        Let_def split_beta)
qed

section \<open>Properties\<close>





text \<open>
  The timeout reported for a non-empty ordered queue is the time left until its earliest
  event, zero when that has passed, and it is normalised.
\<close>

theorem timer_queue_get_timeout_nearest:
  assumes "list_all event_ok tq" "sorted (map tv tq)" "time_ok now" "tq \<noteq> []"
  shows "\<exists>t. timer_queue_get_timeout tq now = (0, Some t) \<and> normalised t \<and>
    usecs t = max 0 (Min (usecs ` tv ` set tq) - usecs now)"
proof -
  obtain e es where tq: "tq = e # es" using assms(4) by (cases tq) auto
  have ok: "time_ok (tv x)" if "x \<in> set tq" for x
    using assms(1) that by (auto simp: list_all_iff event_ok_def)
  have le: "tv e \<le> tv x" if "x \<in> set tq" for x
    using assms(1,2) that tq.wf_head_min [of e es x] by (auto simp: tq.wf_def tq)
  have m: "Min (usecs ` tv ` set tq) = usecs (tv e)"
    using le ok le_timeval_iff_usecs by (intro Min_eqI) (auto simp: tq time_ok_def)
  have norm: "normalised (tv e)" "normalised now"
    using ok [of e] assms(3) by (simp_all add: tq time_ok_def)
  have c: "compare_tv (tv e) now > 0 \<longleftrightarrow> now < tv e"
    using compare_tv_ok(2) [of "tv e" now] ok [of e] assms(3) by (simp add: tq not_le [symmetric])
  have lt: "now < tv e \<longleftrightarrow> usecs now < usecs (tv e)"
    using le_timeval_iff_usecs [of "tv e" now] norm by (simp add: not_le [symmetric])
  show ?thesis
    unfolding m using norm lt
    by (auto simp: tq timer_queue_get_timeout_def c normalised_def usecs_def max_def
        less_timeval_def)
qed

theorem timer_queue_get_timeout_nearest_witness:
  "\<exists>t. timer_queue_get_timeout
     [\<lparr>tv = Timeval 7 5, callback = (), cookie = ()\<rparr>] (Timeval 6 10) = (0, Some t) \<and> usecs t = 999995"
  using timer_queue_get_timeout_nearest [of "[\<lparr>tv = Timeval 7 5, callback = (), cookie = ()\<rparr>]"
      "Timeval 6 10"]
  by (auto simp: event_ok_def time_ok_def normalised_def usecs_def)

end
