(* ===== verification/FdCallback.thy ===== *)
theory FdCallback
  imports Timer
begin

text \<open>
  The registry of file-descriptor callbacks and its select loop
  (\<open>test1/fdcallback/fdcallback.c\<close>). The array and its count are a record; a pointer to an
  entry is its index. \<open>select\<close> is an argument: it maps the highest descriptor plus one and the
  two requested sets to its return code and the two ready sets. A callback is an argument that
  maps the slot it is called with and the table to a new table (\<open>None\<close>: it aborts).
\<close>

section \<open>Model\<close>

record ('f, 'c) fd_callback =
  cb_fd :: int
  cb_read :: bool
  cb_write :: bool
  read_callback :: "'f option"
  write_callback :: "'f option"
  cb_cookie :: 'c
  cb_name :: string

record ('f, 'c) fd_table =
  num_callbacks :: nat
  fd_callbacks :: "('f, 'c) fd_callback list"

definition MAX_FD_CALLBACKS :: nat where
  "MAX_FD_CALLBACKS = 20"

text \<open>The new table and the entry's slot; \<open>None\<close> when the assertion fails.\<close>

definition add_callback ::
    "('f, 'c) fd_table \<Rightarrow> int \<Rightarrow> 'f option \<Rightarrow> 'f option \<Rightarrow> 'c \<Rightarrow> string option \<Rightarrow>
     (('f, 'c) fd_table \<times> nat) option" where
  "add_callback t fd0 rcb wcb ck name =
     (if num_callbacks t < MAX_FD_CALLBACKS then
        let cb = \<lparr>cb_fd = fd0, cb_read = (rcb \<noteq> None), cb_write = (wcb \<noteq> None),
                  read_callback = rcb, write_callback = wcb, cb_cookie = ck,
                  cb_name = (case name of None \<Rightarrow> ''unknown'' | Some n \<Rightarrow> n)\<rparr>
        in Some (t\<lparr>fd_callbacks := (fd_callbacks t)[num_callbacks t := cb],
                   num_callbacks := Suc (num_callbacks t)\<rparr>, num_callbacks t)
      else None)"

definition memmove :: "'a list \<Rightarrow> nat \<Rightarrow> nat \<Rightarrow> nat \<Rightarrow> 'a list" where
  "memmove a dst src n = take dst a @ take n (drop src a) @ drop (dst + n) a"

text \<open>The loop looks for the slot; the flag says that the warning was printed.\<close>

fun find_slot :: "nat \<Rightarrow> nat \<Rightarrow> nat \<Rightarrow> nat option" where
  "find_slot cb i 0 = None"
| "find_slot cb i (Suc n) = (if cb = i then Some i else find_slot cb (Suc i) n)"

definition remove_callback :: "('f, 'c) fd_table \<Rightarrow> nat \<Rightarrow> ('f, 'c) fd_table \<times> bool" where
  "remove_callback t cb =
     (case find_slot cb 0 (num_callbacks t) of
        Some i \<Rightarrow>
          (t\<lparr>fd_callbacks := memmove (fd_callbacks t) i (i + 1) (num_callbacks t - i - 1),
             num_callbacks := num_callbacks t - 1\<rparr>, False)
      | None \<Rightarrow> (t, True))"

text \<open>
  The sets of descriptors have \<open>FD_SETSIZE\<close> bits. A descriptor that is not one of them is out of bounds for \<open>FD_SET\<close>
  and \<open>FD_ISSET\<close>.
\<close>

definition fd_ok :: "int \<Rightarrow> bool" where
  "fd_ok fd \<longleftrightarrow> 0 \<le> fd \<and> fd < 1024"

definition FD_SET :: "int \<Rightarrow> int set \<Rightarrow> int set option" where
  "FD_SET fd s = (if fd_ok fd then Some (insert fd s) else None)"

definition FD_ISSET :: "int \<Rightarrow> int set \<Rightarrow> bool option" where
  "FD_ISSET fd s = (if fd_ok fd then Some (fd \<in> s) else None)"

text \<open>The first loop of \<open>fd_callbacks_select\<close>.\<close>

fun collect_fds :: "('f, 'c) fd_callback list \<Rightarrow> int \<Rightarrow> int set \<Rightarrow> int set \<Rightarrow>
    (int \<times> int set \<times> int set) option" where
  "collect_fds [] n reads writes = Some (n, reads, writes)"
| "collect_fds (cb # cbs) n reads writes = do {
     (n, reads) \<leftarrow> (if cb_read cb then do {
          reads \<leftarrow> FD_SET (cb_fd cb) reads;
          Some (if cb_fd cb > n then cb_fd cb else n, reads)
        } else Some (n, reads));
     (n, writes) \<leftarrow> (if cb_write cb then do {
          writes \<leftarrow> FD_SET (cb_fd cb) writes;
          Some (if cb_fd cb > n then cb_fd cb else n, writes)
        } else Some (n, writes));
     collect_fds cbs n reads writes
   }"

datatype direction = ReadReady | WriteReady

type_synonym ('f, 'c, 's) fd_run =
  "'f \<Rightarrow> nat \<Rightarrow> ('f, 'c) fd_table \<Rightarrow> 's \<Rightarrow> (('f, 'c) fd_table \<times> 's) option"

text \<open>
  One callback of slot \<open>i\<close>, if its descriptor is ready. The slot is read again each time, as
  the pointer \<open>cb\<close> of the code is; a null callback is a crash. The log has the entries called.
\<close>

definition fire_one ::
    "('f, 'c, 's) fd_run \<Rightarrow> direction \<Rightarrow> int set \<Rightarrow> nat \<Rightarrow>
     ('f, 'c) fd_table \<times> 's \<times> (direction \<times> ('f, 'c) fd_callback) list \<Rightarrow>
     (('f, 'c) fd_table \<times> 's \<times> (direction \<times> ('f, 'c) fd_callback) list) option" where
  "fire_one run d ready i = (\<lambda>(t, s, log).
     let cb = fd_callbacks t ! i;
         (flag, fn) = (case d of ReadReady \<Rightarrow> (cb_read cb, read_callback cb)
                               | WriteReady \<Rightarrow> (cb_write cb, write_callback cb))
     in do {
       r \<leftarrow> (if flag then FD_ISSET (cb_fd cb) ready else Some False);
       if r then
          case fn of
            None \<Rightarrow> None
          | Some f \<Rightarrow>
              (case run f i t s of
                 None \<Rightarrow> None
               | Some (t', s') \<Rightarrow> Some (t', s', log @ [(d, cb)]))
       else Some (t, s, log)
     })"

partial_function (option) dispatch ::
    "('f, 'c, 's) fd_run \<Rightarrow> int set \<Rightarrow> int set \<Rightarrow> nat \<Rightarrow>
     ('f, 'c) fd_table \<times> 's \<times> (direction \<times> ('f, 'c) fd_callback) list \<Rightarrow>
     (('f, 'c) fd_table \<times> 's \<times> (direction \<times> ('f, 'c) fd_callback) list) option" where
  "dispatch run reads writes i st =
     (if num_callbacks (fst st) \<le> i then Some st
      else Option.bind (Option.bind (fire_one run ReadReady reads i st)
                          (fire_one run WriteReady writes i))
             (\<lambda>st'. dispatch run reads writes (Suc i) st'))"

definition fd_callbacks_select ::
    "(int \<Rightarrow> int set \<Rightarrow> int set \<Rightarrow> int \<times> int set \<times> int set) \<Rightarrow> ('f, 'c, 's) fd_run \<Rightarrow>
     ('f, 'c) fd_table \<Rightarrow> 's \<Rightarrow>
     (int \<times> ('f, 'c) fd_table \<times> 's \<times> (direction \<times> ('f, 'c) fd_callback) list) option" where
  "fd_callbacks_select select run t s =
     do {
       (n, reads, writes) \<leftarrow> collect_fds (take (num_callbacks t) (fd_callbacks t)) 0 {} {};
       let (ret, reads', writes') = select (n + 1) reads writes;
       if ret > 0 then map_option (\<lambda>st. (ret, st)) (dispatch run reads' writes' 0 (t, s, []))
       else Some (ret, t, s, [])
     }"

section \<open>Invariant and lemmas\<close>

definition live :: "('f, 'c) fd_table \<Rightarrow> ('f, 'c) fd_callback list" where
  "live t = take (num_callbacks t) (fd_callbacks t)"

definition entry_wf :: "('f, 'c) fd_callback \<Rightarrow> bool" where
  "entry_wf cb \<longleftrightarrow> cb_read cb = (read_callback cb \<noteq> None) \<and> cb_write cb = (write_callback cb \<noteq> None)"

definition table_wf :: "('f, 'c) fd_table \<Rightarrow> bool" where
  "table_wf t \<longleftrightarrow> length (fd_callbacks t) = MAX_FD_CALLBACKS \<and>
     num_callbacks t \<le> MAX_FD_CALLBACKS \<and> (\<forall>cb \<in> set (live t). entry_wf cb)"

lemma find_slot_eq: "find_slot cb i n = (if i \<le> cb \<and> cb < i + n then Some cb else None)"
  by (induction n arbitrary: i) auto

lemma length_memmove: "dst + n \<le> length a \<Longrightarrow> src + n \<le> length a \<Longrightarrow> length (memmove a dst src n) = length a"
  by (simp add: memmove_def)

lemma remove_callback_eq:
  "remove_callback t cb =
     (if cb < num_callbacks t
      then (t\<lparr>fd_callbacks := memmove (fd_callbacks t) cb (cb + 1) (num_callbacks t - cb - 1),
              num_callbacks := num_callbacks t - 1\<rparr>, False)
      else (t, True))"
  by (simp add: remove_callback_def find_slot_eq)

lemma live_remove:
  assumes "table_wf t" "cb < num_callbacks t"
  shows "live (fst (remove_callback t cb)) = take cb (live t) @ drop (Suc cb) (live t)"
proof -
  define x where "x = take cb (fd_callbacks t) @
      take (num_callbacks t - cb - 1) (drop (cb + 1) (fd_callbacks t))"
  have len: "num_callbacks t \<le> length (fd_callbacks t)"
    using assms by (simp add: table_wf_def)
  then have "length x = num_callbacks t - 1"
    using assms(2) by (simp add: x_def)
  then have "live (fst (remove_callback t cb)) = x"
    using assms(2) by (simp add: remove_callback_eq live_def memmove_def x_def
        flip: append_assoc)
  then show ?thesis
    using assms(2) len by (simp add: x_def live_def min_def drop_take)
qed

lemma table_wf_remove: "table_wf t \<Longrightarrow> table_wf (fst (remove_callback t cb))"
proof (cases "cb < num_callbacks t")
  case True
  assume wf: "table_wf t"
  then have "set (live (fst (remove_callback t cb))) \<subseteq> set (live t)"
    using live_remove [OF wf True] by (auto dest: in_set_takeD in_set_dropD)
  with wf True show ?thesis
    by (auto simp: table_wf_def remove_callback_eq length_memmove)
qed (simp add: remove_callback_eq)

lemma table_wf_add:
  assumes "table_wf t" "add_callback t f rcb wcb ck name = Some (t', i)"
  shows "table_wf t'" and "i = num_callbacks t" and "length (live t') = Suc i"
    and "take i (live t') = live t" and "cb_fd (live t' ! i) = f"
    and "read_callback (live t' ! i) = rcb" and "write_callback (live t' ! i) = wcb"
  using assms
  by (auto simp: table_wf_def add_callback_def live_def entry_wf_def Let_def take_Suc_conv_app_nth
      nth_append split: if_splits)

text \<open>The descriptors that a table waits for are in the range of the sets.\<close>

definition fds_ok :: "('f, 'c) fd_callback list \<Rightarrow> bool" where
  "fds_ok cbs \<longleftrightarrow> list_all (\<lambda>cb. cb_read cb \<or> cb_write cb \<longrightarrow> fd_ok (cb_fd cb)) cbs"

lemma collect_fds_eq:
  "collect_fds cbs n reads writes = (if fds_ok cbs then
     Some (fold max (map cb_fd (filter (\<lambda>cb. cb_read cb \<or> cb_write cb) cbs)) n,
      reads \<union> cb_fd ` {cb \<in> set cbs. cb_read cb}, writes \<union> cb_fd ` {cb \<in> set cbs. cb_write cb}) else None)"
  by (induction cbs arbitrary: n reads writes) (auto simp: fds_ok_def FD_SET_def max_def)

lemma fold_max_ge: "(n::int) \<le> fold max xs n \<and> (\<forall>x \<in> set xs. x \<le> fold max xs n)"
proof (induction xs arbitrary: n)
  case (Cons x xs)
  from Cons [of "max x n"] show ?case by auto
qed simp

text \<open>The entries of a list that are ready, in the order in which they are called.\<close>

fun ready_calls :: "int set \<Rightarrow> int set \<Rightarrow> ('f, 'c) fd_callback list \<Rightarrow>
    (direction \<times> ('f, 'c) fd_callback) list" where
  "ready_calls reads writes [] = []"
| "ready_calls reads writes (cb # cbs) =
     (if cb_read cb \<and> cb_fd cb \<in> reads then [(ReadReady, cb)] else []) @
     (if cb_write cb \<and> cb_fd cb \<in> writes then [(WriteReady, cb)] else []) @
     ready_calls reads writes cbs"

lemma fire_one_passive:
  assumes "\<And>f i s. \<exists>s'. run f i t s = Some (t, s')" "entry_wf (fd_callbacks t ! i)" "fds_ok [fd_callbacks t ! i]"
  shows "\<exists>s'. fire_one run d ready i (t, s, log) = Some (t, s', log @
     (let cb = fd_callbacks t ! i in
      if (case d of ReadReady \<Rightarrow> cb_read cb | WriteReady \<Rightarrow> cb_write cb) \<and> cb_fd cb \<in> ready
      then [(d, cb)] else []))"
  using assms(2,3)
  by (cases d)
    (auto simp: fire_one_def Let_def entry_wf_def fds_ok_def FD_ISSET_def split: option.splits,
     (metis assms(1) option.distinct(1) option.inject prod.inject)+)

lemma dispatch_passive:
  assumes "table_wf t" "\<And>f i s. \<exists>s'. run f i t s = Some (t, s')" "fds_ok (live t)"
  shows "\<exists>s'. dispatch run reads writes i (t, s, log) =
     Some (t, s', log @ ready_calls reads writes (drop i (live t)))"
proof (induction "num_callbacks t - i" arbitrary: i s log)
  case 0
  then show ?case by (simp add: dispatch.simps live_def)
next
  case (Suc n)
  then have i: "i < num_callbacks t" by simp
  have len: "num_callbacks t \<le> length (fd_callbacks t)"
    using assms(1) by (simp add: table_wf_def)
  define cb where "cb = fd_callbacks t ! i"
  have "live t ! i = cb" "i < length (live t)"
    using i len by (simp_all add: live_def cb_def)
  then have d: "drop i (live t) = cb # drop (Suc i) (live t)" and wf: "entry_wf cb" "fds_ok [cb]"
    using assms(1,3) by (auto simp: Cons_nth_drop_Suc [symmetric] table_wf_def fds_ok_def list_all_length)
  obtain s1 where 1: "fire_one run ReadReady reads i (t, s, log) =
      Some (t, s1, log @ (if cb_read cb \<and> cb_fd cb \<in> reads then [(ReadReady, cb)] else []))" (is "_ = Some (_, _, ?l1)")
    using fire_one_passive [of run t i ReadReady reads s log] assms(2) wf
    unfolding cb_def Let_def direction.case by blast
  obtain s2 where 2: "fire_one run WriteReady writes i (t, s1, ?l1) =
      Some (t, s2, ?l1 @ (if cb_write cb \<and> cb_fd cb \<in> writes then [(WriteReady, cb)] else []))" (is "_ = Some (_, _, ?l2)")
    using fire_one_passive [of run t i WriteReady writes s1 ?l1] assms(2) wf
    unfolding cb_def Let_def direction.case by blast
  have n: "n = num_callbacks t - Suc i" using Suc.hyps(2) by simp
  obtain s3 where "dispatch run reads writes (Suc i) (t, s2, ?l2) =
      Some (t, s3, ?l2 @ ready_calls reads writes (drop (Suc i) (live t)))"
    using Suc.hyps(1) [OF n] by blast
  then show ?case
    using i 1 2 d by (simp add: dispatch.simps [of _ _ _ i])
qed

text \<open>A read callback that removes its own registration, and what is then called.\<close>

definition run_self_remove :: "('f, 'c, 's) fd_run" where
  "run_self_remove f i t s = Some (fst (remove_callback t i), s)"

fun every_other :: "'a list \<Rightarrow> 'a list" where
  "every_other [] = []"
| "every_other [x] = [x]"
| "every_other (x # y # zs) = x # every_other zs"

lemma slot_after_remove:
  assumes "table_wf t" "i < num_callbacks t"
  shows "fd_callbacks (fst (remove_callback t i)) ! i \<in> set (drop i (live t))"
proof -
  have len: "num_callbacks t \<le> length (fd_callbacks t)"
    using assms(1) by (simp add: table_wf_def)
  have mem: "fd_callbacks t ! j \<in> set (drop i (live t))" if "i \<le> j" "j < num_callbacks t" for j
    using that len by (auto simp: live_def set_conv_nth intro!: exI [of _ "j - i"])
  show ?thesis
  proof (cases "Suc i < num_callbacks t")
    case True
    then show ?thesis
      using len assms(2) mem [of "Suc i"]
      by (simp add: remove_callback_eq memmove_def nth_append)
  next
    case False
    then have "num_callbacks t = Suc i" using assms(2) by simp
    then show ?thesis
      using len mem [of i] by (simp add: remove_callback_eq memmove_def nth_append)
  qed
qed

lemma dispatch_self_remove:
  assumes "table_wf t" "\<forall>cb \<in> set (drop i (live t)). cb_read cb \<and> \<not> cb_write cb \<and> cb_fd cb \<in> reads \<and> fd_ok (cb_fd cb)"
  shows "\<exists>t'. dispatch run_self_remove reads writes i (t, s, log) =
    Some (t', s, log @ map (Pair ReadReady) (every_other (drop i (live t))))"
  using assms
proof (induction "num_callbacks t - i" arbitrary: i t log rule: less_induct)
  case less
  show ?case
  proof (cases "i < num_callbacks t")
    case False
    then show ?thesis by (simp add: dispatch.simps live_def)
  next
    case True
    have len: "num_callbacks t \<le> length (fd_callbacks t)"
      using less.prems(1) by (simp add: table_wf_def)
    define cb where "cb = fd_callbacks t ! i"
    have lcb: "live t ! i = cb" "i < length (live t)"
      using True len by (simp_all add: live_def cb_def)
    then have d: "drop i (live t) = cb # drop (Suc i) (live t)"
      by (simp add: Cons_nth_drop_Suc [symmetric])
    then have cb: "cb_read cb" "cb_fd cb \<in> reads" "fd_ok (cb_fd cb)" and "entry_wf cb"
      using less.prems by (auto simp: table_wf_def dest: in_set_dropD)
        (metis in_set_dropD list.set_intros(1))
    then obtain f where f: "read_callback cb = Some f" by (auto simp: entry_wf_def)
    define t1 where "t1 = fst (remove_callback t i)"
    have 1: "fire_one run_self_remove ReadReady reads i (t, s, log) = Some (t1, s, log @ [(ReadReady, cb)])"
      using cb f by (simp add: fire_one_def run_self_remove_def cb_def [symmetric] t1_def FD_ISSET_def)
    have "\<not> cb_write (fd_callbacks t1 ! i)"
      using slot_after_remove [OF less.prems(1) True] less.prems(2) by (auto simp: t1_def)
    then have 2: "fire_one run_self_remove WriteReady writes i (t1, s, log @ [(ReadReady, cb)]) =
        Some (t1, s, log @ [(ReadReady, cb)])"
      by (simp add: fire_one_def)
    have wf1: "table_wf t1" and l1: "live t1 = take i (live t) @ drop (Suc i) (live t)"
      using table_wf_remove [OF less.prems(1)] live_remove [OF less.prems(1) True]
      by (simp_all add: t1_def)
    have n1: "num_callbacks t1 = num_callbacks t - 1"
      using True by (simp add: t1_def remove_callback_eq)
    have d1: "drop (Suc i) (live t1) = drop (Suc (Suc i)) (live t)"
      using lcb by (simp add: l1 min_def)
    have "set (drop (Suc i) (live t1)) \<subseteq> set (drop i (live t))"
      unfolding d1 by (rule set_drop_subset_set_drop) simp
    then obtain t2 where "dispatch run_self_remove reads writes (Suc i) (t1, s, log @ [(ReadReady, cb)]) =
        Some (t2, s, (log @ [(ReadReady, cb)]) @ map (Pair ReadReady) (every_other (drop (Suc i) (live t1))))"
      using less.hyps [of t1 "Suc i" "log @ [(ReadReady, cb)]"] True n1 wf1 less.prems(2) by fastforce
    moreover have "every_other (drop i (live t)) = cb # every_other (drop (Suc (Suc i)) (live t))"
      unfolding d drop_Suc [of "Suc i"] tl_drop [symmetric]
      by (cases "drop (Suc i) (live t)") simp_all
    ultimately show ?thesis
      using True 1 2 by (simp add: dispatch.simps [of _ _ _ i] d1)
  qed
qed

section \<open>Properties\<close>

text \<open>
  C24: with callbacks that leave the table alone and descriptors from 0 to 1023, one call of \<open>fd_callbacks_select\<close> asks
  \<open>select\<close> for every registered descriptor, with a first argument above all of them, and then
  calls exactly the callbacks whose descriptors came back ready, each once, in table order.
\<close>

theorem fd_callbacks_select_correct:
  assumes "table_wf t" "\<And>f i s. \<exists>s'. run f i t s = Some (t, s')" "fds_ok (live t)"
    and "reads = cb_fd ` {cb \<in> set (live t). cb_read cb}"
    and "writes = cb_fd ` {cb \<in> set (live t). cb_write cb}"
  shows "\<exists>nfds. (\<forall>d \<in> reads \<union> writes. d < nfds) \<and>
    (case select nfds reads writes of (ret, rr, ww) \<Rightarrow>
       \<exists>s'. fd_callbacks_select select run t s =
         Some (ret, t, s', if ret > 0 then ready_calls rr ww (live t) else []))"
proof -
  define n where "n = fold max (map cb_fd (filter (\<lambda>cb. cb_read cb \<or> cb_write cb) (live t))) 0"
  have c: "collect_fds (live t) 0 {} {} = Some (n, reads, writes)"
    by (simp add: collect_fds_eq n_def assms(3-5))
  have "\<forall>d \<in> reads \<union> writes. d < n + 1"
    using fold_max_ge [of 0 "map cb_fd (filter (\<lambda>cb. cb_read cb \<or> cb_write cb) (live t))"]
    by (auto simp: n_def assms(4,5))
  moreover obtain ret rr ww where sel: "select (n + 1) reads writes = (ret, rr, ww)"
    using prod_cases3 by blast
  moreover obtain s' where "dispatch run rr ww 0 (t, s, []) = Some (t, s', ready_calls rr ww (live t))"
    using dispatch_passive [of t run rr ww 0 s "[]"] assms(1-3) by auto
  ultimately show ?thesis
    using c by (intro exI [of _ "n + 1"]) (auto simp: fd_callbacks_select_def live_def)
qed

definition example_table :: "(nat, nat) fd_table" where
  "example_table = \<lparr>num_callbacks = 2, fd_callbacks =
     \<lparr>cb_fd = 3, cb_read = True, cb_write = False, read_callback = Some 1, write_callback = None,
        cb_cookie = 0, cb_name = ''a''\<rparr> #
     replicate 19 \<lparr>cb_fd = 5, cb_read = True, cb_write = False, read_callback = Some 2,
        write_callback = None, cb_cookie = 0, cb_name = ''b''\<rparr>\<rparr>"

lemma example_table_live:
  "live example_table =
    [\<lparr>cb_fd = 3, cb_read = True, cb_write = False, read_callback = Some 1, write_callback = None,
        cb_cookie = 0, cb_name = ''a''\<rparr>,
     \<lparr>cb_fd = 5, cb_read = True, cb_write = False, read_callback = Some 2,
        write_callback = None, cb_cookie = 0, cb_name = ''b''\<rparr>]"
  by (simp add: live_def example_table_def numeral_eq_Suc)

lemma example_table_wf: "table_wf example_table"
  unfolding table_wf_def example_table_live
  by (simp add: example_table_def MAX_FD_CALLBACKS_def entry_wf_def)

theorem fd_callbacks_select_correct_witness:
  "\<exists>s'. fd_callbacks_select (\<lambda>n r w. (1, {5}, {})) (\<lambda>f i t s. Some (t, Suc s)) example_table (0::nat) =
     Some (1, example_table, s', [(ReadReady, live example_table ! 1)])"
  using fd_callbacks_select_correct [OF example_table_wf, of "\<lambda>f i t s. Some (t, Suc s)" _ _
      "\<lambda>n r w. (1, {5}, {})" 0]
  by (simp add: example_table_live fds_ok_def fd_ok_def)

text \<open>A descriptor out of the range of the sets is written outside of them.\<close>

lemma select_large_fd: "\<not> fds_ok (live t) \<Longrightarrow> fd_callbacks_select select run t s = None"
  by (simp add: fd_callbacks_select_def collect_fds_eq live_def [symmetric])

text \<open>
  Registration and removal act on the sequence of live entries as an append and as the
  deletion of one position, and keep the table well formed; every later entry moves down one
  slot, so that a pointer returned by \<open>add_callback\<close> for a later slot then denotes the entry
  that was registered after it.
\<close>

theorem add_remove_callback_live:
  assumes "table_wf t" "add_callback t f rcb wcb ck name = Some (t1, p)" "cb < num_callbacks t1"
  shows "take p (live t1) = live t \<and> cb_fd (live t1 ! p) = f \<and>
    table_wf (fst (remove_callback t1 cb)) \<and> \<not> snd (remove_callback t1 cb) \<and>
    live (fst (remove_callback t1 cb)) = take cb (live t1) @ drop (Suc cb) (live t1) \<and>
    (\<forall>j. cb \<le> j \<longrightarrow> Suc j < num_callbacks t1 \<longrightarrow>
       live (fst (remove_callback t1 cb)) ! j = live t1 ! Suc j)"
proof -
  note add = table_wf_add [OF assms(1,2)]
  have len: "length (live t1) = num_callbacks t1"
    using add(1) by (simp add: table_wf_def live_def)
  have l: "live (fst (remove_callback t1 cb)) = take cb (live t1) @ drop (Suc cb) (live t1)"
    by (rule live_remove [OF add(1) assms(3)])
  have "\<not> snd (remove_callback t1 cb)"
    using assms(3) by (simp add: remove_callback_eq)
  moreover have "\<forall>j. cb \<le> j \<longrightarrow> Suc j < num_callbacks t1 \<longrightarrow>
      live (fst (remove_callback t1 cb)) ! j = live t1 ! Suc j"
    using assms(3) len by (auto simp: l nth_append min_def)
  ultimately show ?thesis
    using add table_wf_remove [OF add(1)] l by simp
qed

theorem add_remove_callback_live_witness:
  "\<exists>t1. add_callback example_table 9 (Some 4) None 0 None = Some (t1, 2) \<and>
     live (fst (remove_callback t1 0)) ! 1 = live t1 ! 2"
proof -
  obtain t1 where t1: "add_callback example_table 9 (Some 4) None 0 None = Some (t1, 2)"
    "num_callbacks t1 = 3"
    by (simp add: add_callback_def example_table_def MAX_FD_CALLBACKS_def)
  have "0 < num_callbacks t1" by (simp add: t1)
  then have "\<forall>j. 0 \<le> j \<longrightarrow> Suc j < num_callbacks t1 \<longrightarrow>
      live (fst (remove_callback t1 0)) ! j = live t1 ! Suc j"
    using add_remove_callback_live [OF example_table_wf t1(1), of 0] t1(2) by blast
  from spec [OF this, of 1] t1 show ?thesis by (intro exI [of _ t1]) (simp add: numeral_2_eq_2)
qed

text \<open>
  When every registered descriptor is ready to be read and each read callback removes
  its own registration, one pass calls only every other callback: the entry that moves into the
  freed slot is passed over.
\<close>

theorem dispatch_skips_after_self_removal:
  assumes "table_wf t" "\<forall>cb \<in> set (live t). cb_read cb \<and> \<not> cb_write cb \<and> cb_fd cb \<in> reads \<and> fd_ok (cb_fd cb)"
  shows "\<exists>t'. dispatch run_self_remove reads writes 0 (t, s, []) =
    Some (t', s, map (Pair ReadReady) (every_other (live t)))"
  using dispatch_self_remove [of t 0 reads writes s "[]"] assms by simp

theorem dispatch_skips_after_self_removal_witness:
  "\<exists>t'. dispatch run_self_remove {3, 5} {} 0 (example_table, (), []) =
     Some (t', (), [(ReadReady, live example_table ! 0)])"
  using dispatch_skips_after_self_removal [OF example_table_wf, of "{3, 5}" "{}" "()"]
  by (simp add: example_table_live fd_ok_def)

end
