(* ===== verification/Fossil_Bag.thy ===== *)
theory Fossil_Bag
  imports Prelude_C "HOL-Library.Multiset" "HOL-Library.Monad_Syntax" "HOL-Library.Sublist"
begin

text \<open>
  The bag of positive integers (\<open>test4/bag.c\<close>): an open-addressing hash table with deleted
  entries kept as -1. Every operation returns \<open>None\<close> where an assertion of the code fails,
  where \<open>e*101\<close> or the new size \<open>sz*2+20\<close> of a table overflows an \<open>int\<close>, or where a probe never ends.
  The abstraction of a table is the multiset of its live entries; the locale
  \<open>mset_container\<close> is the contract of a container of that kind and proves it for any run of
  operations; it is interpreted on the operations of the code.
\<close>

section \<open>Model\<close>

record bag =
  cnt :: int
  sz :: int
  used :: int
  slots :: "int list"

definition bag_init :: bag where
  "bag_init = \<lparr>cnt = 0, sz = 0, used = 0, slots = []\<rparr>"

definition bag_clear :: "bag \<Rightarrow> bag" where
  "bag_clear p = bag_init"

definition bag_hash :: "int \<Rightarrow> int" where
  "bag_hash i = i * 101"

text \<open>\<open>bag_hash(e)%n\<close>, for an \<open>e\<close> on which the product does not overflow.\<close>

definition bag_home :: "int \<Rightarrow> int \<Rightarrow> nat option" where
  "bag_home e n = (if bag_hash e < 2 ^ 31 then Some (nat (bag_hash e mod n)) else None)"

text \<open>The probing loop: \<open>while( cont(p->a[h]) ){ h++; if( h>=p->sz ) h = 0; }\<close>.\<close>

partial_function (option) bag_probe :: "(int \<Rightarrow> bool) \<Rightarrow> int list \<Rightarrow> nat \<Rightarrow> nat option" where
  "bag_probe cont a h =
     (if cont (a ! h) then bag_probe cont a (if length a \<le> Suc h then 0 else Suc h) else Some h)"

text \<open>The loop of \<open>bag_resize\<close> over the old slots, with the counts \<open>nLive\<close> and \<open>nDel\<close>.\<close>

fun bag_rehash :: "int list \<Rightarrow> int list \<Rightarrow> int \<Rightarrow> int \<Rightarrow> (int list \<times> int \<times> int) option" where
  "bag_rehash [] a nLive nDel = Some (a, nLive, nDel)"
| "bag_rehash (e # old) a nLive nDel =
     (if e > 0 then
        do { h \<leftarrow> bag_home e (int (length a));
             h' \<leftarrow> bag_probe (\<lambda>x. x \<noteq> 0) a h;
             bag_rehash old (a[h' := e]) (nLive + 1) nDel }
      else if e < 0 then bag_rehash old a nLive (nDel + 1)
      else bag_rehash old a nLive nDel)"

definition bag_resize :: "bag \<Rightarrow> int \<Rightarrow> bag option" where
  "bag_resize p newSize =
     (if newSize > cnt p then
        do { (a, nLive, nDel) \<leftarrow> bag_rehash (slots p) (replicate (nat newSize) 0) 0 0;
             if cnt p = nLive \<and> used p = nLive + nDel
             then Some (p\<lparr>slots := a, sz := newSize, used := cnt p\<rparr>)
             else None }
      else None)"

definition bag_insert :: "bag \<Rightarrow> int \<Rightarrow> (bag \<times> bool) option" where
  "bag_insert p e =
     (if e > 0 then
        do { p \<leftarrow> (if used p + 1 \<ge> sz p div 2
                 then do { n \<leftarrow> c_int (sz p * 2); n \<leftarrow> c_int (n + 20); bag_resize p n }
                 else Some p);
             h \<leftarrow> bag_home e (sz p);
             h \<leftarrow> bag_probe (\<lambda>x. x > 0 \<and> x \<noteq> e) (slots p) h;
             if slots p ! h \<le> 0 then
               Some (p\<lparr>used := (if slots p ! h = 0 then used p + 1 else used p),
                       slots := (slots p)[h := e], cnt := cnt p + 1\<rparr>, True)
             else Some (p, False) }
      else None)"

definition bag_find :: "bag \<Rightarrow> int \<Rightarrow> bool option" where
  "bag_find p e =
     (if e > 0 then
        if sz p = 0 then Some False
        else do { h \<leftarrow> bag_home e (sz p);
                  h \<leftarrow> bag_probe (\<lambda>x. x \<noteq> 0 \<and> x \<noteq> e) (slots p) h;
                  Some (slots p ! h = e) }
      else None)"

definition bag_remove :: "bag \<Rightarrow> int \<Rightarrow> bag option" where
  "bag_remove p e =
     (if e > 0 then
        if sz p = 0 then Some p
        else do { h \<leftarrow> bag_home e (sz p);
                  h \<leftarrow> bag_probe (\<lambda>x. x \<noteq> 0 \<and> x \<noteq> e) (slots p) h;
                  if slots p ! h \<noteq> 0 then
                    let nx = (if int (Suc h) \<ge> sz p then 0 else Suc h);
                        p1 = (if slots p ! nx = 0
                              then p\<lparr>slots := (slots p)[h := 0], used := used p - 1\<rparr>
                              else p\<lparr>slots := (slots p)[h := -1]\<rparr>);
                        p2 = p1\<lparr>cnt := cnt p1 - 1\<rparr>
                    in if cnt p2 = 0
                       then Some (p2\<lparr>slots := replicate (nat (sz p2)) 0, used := 0\<rparr>)
                       else if sz p2 > 40 \<and> cnt p2 < sz p2 div 8
                       then bag_resize p2 (sz p2 div 2)
                       else Some p2
                  else Some p }
      else None)"

text \<open>The first live entry at or after a slot, 0 when there is none.\<close>

fun first_live :: "int list \<Rightarrow> int" where
  "first_live [] = 0"
| "first_live (x # xs) = (if x \<le> 0 then first_live xs else x)"

definition bag_first :: "bag \<Rightarrow> int" where
  "bag_first p = first_live (slots p)"

definition bag_next :: "bag \<Rightarrow> int \<Rightarrow> int option" where
  "bag_next p e =
     (if sz p > 0 \<and> e > 0 then
        do { h \<leftarrow> bag_home e (sz p);
             h \<leftarrow> bag_probe (\<lambda>x. x \<noteq> 0 \<and> x \<noteq> e) (slots p) h;
             if slots p ! h \<noteq> 0 then Some (first_live (drop (Suc h) (slots p))) else None }
      else None)"

definition bag_count :: "bag \<Rightarrow> int" where
  "bag_count p = cnt p"

section \<open>The contract: a container that refines a multiset\<close>

locale mset_container =
  fixes empty :: 's
    and ins :: "'s \<Rightarrow> 'e \<Rightarrow> ('s \<times> bool) option"
    and rem :: "'s \<Rightarrow> 'e \<Rightarrow> 's option"
    and mem :: "'s \<Rightarrow> 'e \<Rightarrow> bool option"
    and abs :: "'s \<Rightarrow> 'e multiset"
    and inv :: "'s \<Rightarrow> bool"
    and ok :: "'e \<Rightarrow> bool"
    and room :: "'s \<Rightarrow> bool"
  assumes empty: "inv empty" "abs empty = {#}"
    and ins: "inv s \<Longrightarrow> ok e \<Longrightarrow> room s \<Longrightarrow> \<exists>s' b. ins s e = Some (s', b) \<and> inv s' \<and> e \<in># abs s' \<and>
          (if b then abs s' = add_mset e (abs s) else abs s' = abs s)"
    and full: "inv s \<Longrightarrow> ok e \<Longrightarrow> \<not> room s \<Longrightarrow> ins s e = None"
    and rem: "inv s \<Longrightarrow> ok e \<Longrightarrow> \<exists>s'. rem s e = Some s' \<and> inv s' \<and> abs s' = abs s - {#e#}"
    and mem: "inv s \<Longrightarrow> ok e \<Longrightarrow> mem s e = Some (e \<in># abs s)"
begin

text \<open>A run of insertions (\<open>True\<close>) and removals (\<open>False\<close>).\<close>

fun run :: "(bool \<times> 'e) list \<Rightarrow> 's \<Rightarrow> 's option" where
  "run [] s = Some s"
| "run ((True, e) # ops) s = Option.bind (ins s e) (\<lambda>(s', b). run ops s')"
| "run ((False, e) # ops) s = Option.bind (rem s e) (run ops)"

lemma ins_SomeD:
  "inv s \<Longrightarrow> ok e \<Longrightarrow> ins s e = Some (s', b) \<Longrightarrow> inv s' \<and> e \<in># abs s' \<and> abs s' = (if b then add_mset e (abs s) else abs s)"
  using ins [of s e] full [of s e] by (cases "room s") (auto split: if_splits)

text \<open>A run fails only at an insertion into a container without room.\<close>

lemma run_inv:
  "inv s \<Longrightarrow> \<forall>x \<in> set ops. ok (snd x) \<Longrightarrow> case run ops s of Some s' \<Rightarrow> inv s'
     | None \<Rightarrow> \<exists>done t. prefix done ops \<and> run done s = Some t \<and> inv t \<and> \<not> room t"
proof (induction ops s rule: run.induct)
  case (2 e ops s)
  show ?case
  proof (cases "room s")
    case True
    then obtain s' b where s': "ins s e = Some (s', b)" "inv s'" using 2 ins [of s e] by auto
    have "run ((True, e) # done) s = run done s'" for "done" using s'(1) by simp
    with 2 s' show ?thesis by (fastforce split: option.splits intro: exI [of _ "(True, e) # x" for x])
  next
    case False
    then show ?thesis using 2 full [of s e] by (auto intro!: exI [of _ "[]"])
  qed
next
  case (3 e ops s)
  then obtain s' where s': "rem s e = Some s'" "inv s'" using rem [of s e] by auto
  have "run ((False, e) # done) s = run done s'" for "done" using s'(1) by simp
  with 3 s' show ?case by (fastforce split: option.splits intro: exI [of _ "(False, e) # x" for x])
qed simp

text \<open>What the last operation of a run leaves behind, whatever came before it.\<close>

lemma mem_after_ins: "inv s \<Longrightarrow> ok e \<Longrightarrow> ins s e = Some (s', b) \<Longrightarrow> mem s' e = Some True"
  using ins_SomeD [of s e s' b] mem [of s' e] by auto

lemma mem_after_rem:
  "inv s \<Longrightarrow> ok e \<Longrightarrow> rem s e = Some s' \<Longrightarrow> mem s' e = Some (count (abs s) e > 1)"
  using rem [of s e] mem [of s' e] by (auto simp: in_diff_count)

lemma mem_frame_ins:
  "inv s \<Longrightarrow> ok e \<Longrightarrow> ok x \<Longrightarrow> x \<noteq> e \<Longrightarrow> ins s e = Some (s', b) \<Longrightarrow> mem s' x = mem s x"
  using ins_SomeD [of s e s' b] mem [of s' x] mem [of s x] by (auto split: if_splits)

lemma mem_frame_rem:
  "inv s \<Longrightarrow> ok e \<Longrightarrow> ok x \<Longrightarrow> x \<noteq> e \<Longrightarrow> rem s e = Some s' \<Longrightarrow> mem s' x = mem s x"
  using rem [of s e] mem [of s' x] mem [of s x] by (auto simp: in_diff_count)

end

section \<open>The invariant\<close>

definition home :: "int \<Rightarrow> int list \<Rightarrow> nat" where
  "home e a = nat (bag_hash e mod int (length a))"

definition bag_ok :: "int \<Rightarrow> bool" where
  "bag_ok e \<longleftrightarrow> 0 < e \<and> bag_hash e < 2 ^ 31"

text \<open>A slot is reached from an element's home through used slots only.\<close>

definition reach :: "int list \<Rightarrow> int \<Rightarrow> nat \<Rightarrow> bool" where
  "reach a e j \<longleftrightarrow> (\<exists>d < length a. j = (home e a + d) mod length a \<and>
     (\<forall>k < d. a ! ((home e a + k) mod length a) \<noteq> 0))"

definition live_mset :: "int list \<Rightarrow> int multiset" where
  "live_mset a = filter_mset (\<lambda>x. 0 < x) (mset a)"

definition used_mset :: "int list \<Rightarrow> int multiset" where
  "used_mset a = filter_mset (\<lambda>x. x \<noteq> 0) (mset a)"

definition slots_inv :: "int list \<Rightarrow> bool" where
  "slots_inv a \<longleftrightarrow> (\<forall>e \<in># live_mset a. bag_ok e) \<and>
     (\<forall>j < length a. 0 < a ! j \<longrightarrow> reach a (a ! j) j)"

definition bag_inv :: "bag \<Rightarrow> bool" where
  "bag_inv p \<longleftrightarrow> sz p = int (length (slots p)) \<and> cnt p = int (size (live_mset (slots p))) \<and>
     used p = int (size (used_mset (slots p))) \<and> (slots p = [] \<or> 0 \<in> set (slots p)) \<and>
     slots_inv (slots p)"

definition bag_abs :: "bag \<Rightarrow> int multiset" where
  "bag_abs p = live_mset (slots p)"

section \<open>Probing\<close>

lemma home_less: "a \<noteq> [] \<Longrightarrow> home e a < length a"
  by (simp add: home_def nat_less_iff)

lemma home_update [simp]: "home e (a[i := x]) = home e a"
  by (simp add: home_def)

lemma bag_probe_path:
  "h < length a \<Longrightarrow> \<not> cont (a ! ((h + d) mod length a)) \<Longrightarrow>
   \<forall>k < d. cont (a ! ((h + k) mod length a)) \<Longrightarrow> bag_probe cont a h = Some ((h + d) mod length a)"
proof (induction d arbitrary: h)
  case 0
  then show ?case by (simp add: bag_probe.simps)
next
  case (Suc d)
  define h' where "h' = (if length a \<le> Suc h then 0 else Suc h)"
  have h': "h' < length a" using Suc.prems(1) by (auto simp: h'_def)
  have step: "(h' + k) mod length a = (h + Suc k) mod length a" for k
    using Suc.prems(1) by (auto simp: h'_def) (metis add.commute add_Suc le_antisym mod_add_self1 Suc_leI)
  have "cont (a ! h)" using Suc.prems(1) Suc.prems(3) [rule_format, of 0] by simp
  moreover have "bag_probe cont a h' = Some ((h' + d) mod length a)"
    using Suc.prems(2) Suc.prems(3) [rule_format, of "Suc _"]
    by (intro Suc.IH [OF h']) (auto simp: step)
  ultimately show ?case
    by (simp add: bag_probe.simps [of _ _ h] h'_def [symmetric] step)
qed

lemma cyclic_index:
  assumes "h < n" "i < (n::nat)"
  shows "\<exists>d < n. i = (h + d) mod n"
proof (cases "h \<le> i")
  case True
  then show ?thesis using assms by (intro exI [of _ "i - h"]) auto
next
  case False
  then show ?thesis using assms by (intro exI [of _ "n - h + i"]) auto
qed

text \<open>A probe that stops at empty slots ends, at the first slot on the way where it stops.\<close>

lemma bag_probe_ends:
  assumes "h < length a" "0 \<in> set a" "\<not> cont 0"
  shows "\<exists>d < length a. bag_probe cont a h = Some ((h + d) mod length a) \<and>
    \<not> cont (a ! ((h + d) mod length a)) \<and> (\<forall>k < d. cont (a ! ((h + k) mod length a)))"
proof -
  obtain i where i: "i < length a" "a ! i = 0" using assms(2) by (auto simp: in_set_conv_nth)
  obtain d0 where d0: "d0 < length a" "i = (h + d0) mod length a"
    using cyclic_index [OF assms(1) i(1)] by blast
  define P where "P d \<longleftrightarrow> \<not> cont (a ! ((h + d) mod length a))" for d
  have "P d0" using i d0 assms(3) by (simp add: P_def)
  define d where "d = (LEAST d. P d)"
  have "P d" "d \<le> d0" "\<forall>k < d. \<not> P k"
    using \<open>P d0\<close> by (auto simp: d_def intro: LeastI Least_le dest: not_less_Least)
  with d0 show ?thesis
    using bag_probe_path [OF assms(1), of cont d] by (intro exI [of _ d]) (auto simp: P_def)
qed

section \<open>Updating one slot\<close>

lemma mset_slot:
  assumes "j < length a"
  obtains M where "mset a = add_mset (a ! j) M" "\<And>x. mset (a[j := x]) = add_mset x M"
  using assms by (metis mset_update nth_mem_mset insert_DiffM)

lemma update_nonzero: "a ! i \<noteq> 0 \<Longrightarrow> x \<noteq> 0 \<Longrightarrow> a[j := x] ! i \<noteq> (0::int)"
  by (metis list_update_beyond not_le_imp_less nth_list_update_eq nth_list_update_neq)

lemma reach_fill:
  assumes "reach a e i" "x \<noteq> 0"
  shows "reach (a[j := x]) e i"
proof -
  obtain d where d: "d < length a" "i = (home e a + d) mod length a"
    "\<forall>k < d. a ! ((home e a + k) mod length a) \<noteq> 0"
    using assms(1) by (auto simp: reach_def)
  then have "\<forall>k < d. a[j := x] ! ((home e a + k) mod length a) \<noteq> 0"
    using assms(2) by (simp add: update_nonzero)
  with d show ?thesis by (auto simp: reach_def)
qed

lemma slots_inv_fill:
  assumes "slots_inv a" "j < length a" "a ! j \<le> 0" "bag_ok e" "reach a e j"
  shows "slots_inv (a[j := e])"
proof -
  obtain M where M: "mset a = add_mset (a ! j) M" "\<And>x. mset (a[j := x]) = add_mset x M"
    using mset_slot [OF assms(2)] by metis
  have "\<forall>x \<in># live_mset (a[j := e]). bag_ok x"
    using assms M by (auto simp: slots_inv_def live_mset_def)
  moreover have "0 < e" using assms(4) by (simp add: bag_ok_def)
  then have "\<forall>i < length a. 0 < a[j := e] ! i \<longrightarrow> reach (a[j := e]) (a[j := e] ! i) i"
    using assms by (auto simp: slots_inv_def nth_list_update intro: reach_fill)
  ultimately show ?thesis by (simp add: slots_inv_def)
qed

lemma live_used_fill:
  assumes "j < length a" "a ! j \<le> 0" "0 < e"
  shows "live_mset (a[j := e]) = add_mset e (live_mset a)"
    and "size (used_mset (a[j := e])) = size (used_mset a) + (if a ! j = 0 then 1 else 0)"
    and "a ! j = 0 \<Longrightarrow> used_mset (a[j := e]) = add_mset e (used_mset a)"
proof -
  obtain M where M: "mset a = add_mset (a ! j) M" "\<And>x. mset (a[j := x]) = add_mset x M"
    using mset_slot [OF assms(1)] by metis
  show "live_mset (a[j := e]) = add_mset e (live_mset a)"
    "size (used_mset (a[j := e])) = size (used_mset a) + (if a ! j = 0 then 1 else 0)"
    "a ! j = 0 \<Longrightarrow> used_mset (a[j := e]) = add_mset e (used_mset a)"
    using assms by (auto simp: live_mset_def used_mset_def M)
qed

text \<open>The sizes tell whether an empty slot is left.\<close>

lemma size_used: "size (used_mset a) + count_list a 0 = length a"
  by (induction a) (auto simp: used_mset_def)

lemma zero_slot: "0 \<in> set a \<longleftrightarrow> size (used_mset a) < length a"
  using size_used [of a] count_list_0_iff [of a 0] by linarith

lemma live_le_used: "size (live_mset a) \<le> size (used_mset a)"
proof -
  have "live_mset a = filter_mset (\<lambda>x. 0 < x) (used_mset a)"
    by (auto simp: live_mset_def used_mset_def filter_filter_mset intro: filter_mset_cong)
  then show ?thesis by (simp add: size_filter_mset_lesseq)
qed

section \<open>The operations\<close>

lemma bag_home_eq: "bag_ok e \<Longrightarrow> bag_home e (int (length a)) = Some (home e a)"
  by (simp add: bag_home_def bag_ok_def home_def)

text \<open>The slot at which a probe for \<open>e\<close> stops is one that \<open>e\<close> may occupy.\<close>

lemma bag_probe_reach:
  assumes "a \<noteq> []" "0 \<in> set a" "\<not> cont 0" "\<And>x. cont x \<Longrightarrow> x \<noteq> 0"
  obtains j where "bag_probe cont a (home e a) = Some j" "j < length a" "reach a e j" "\<not> cont (a ! j)"
    "\<And>i. reach a e i \<Longrightarrow> \<not> cont (a ! i) \<Longrightarrow> a ! j = 0 \<Longrightarrow> a ! i = 0"
proof -
  have h: "home e a < length a" using assms(1) by (rule home_less)
  obtain d where d: "d < length a" "bag_probe cont a (home e a) = Some ((home e a + d) mod length a)"
    "\<not> cont (a ! ((home e a + d) mod length a))" "\<forall>k < d. cont (a ! ((home e a + k) mod length a))"
    using bag_probe_ends [where cont = cont, OF h assms(2,3)] by blast
  show thesis
  proof (rule that [OF d(2)])
    show "(home e a + d) mod length a < length a" using assms(1) by simp
    show "reach a e ((home e a + d) mod length a)" using d assms(4) by (auto simp: reach_def)
    show "\<not> cont (a ! ((home e a + d) mod length a))" by (rule d(3))
    fix i
    assume i: "reach a e i" "\<not> cont (a ! i)" "a ! ((home e a + d) mod length a) = 0"
    then obtain d' where d': "i = (home e a + d') mod length a"
      "\<forall>k < d'. a ! ((home e a + k) mod length a) \<noteq> 0" by (auto simp: reach_def)
    have "d' \<le> d" using d'(2) i(3) by (meson not_le)
    moreover have "\<not> d' < d" using d(4) d'(1) i(2) by blast
    ultimately show "a ! i = 0" using d' i(3) by simp
  qed
qed

lemma bag_probe_member:
  assumes "slots_inv a" "a \<noteq> []" "0 \<in> set a" "bag_ok e"
  obtains j where "bag_probe (\<lambda>x. x \<noteq> 0 \<and> x \<noteq> e) a (home e a) = Some j" "j < length a"
    "a ! j = (if e \<in># live_mset a then e else 0)"
proof -
  have e: "0 < e" using assms(4) by (simp add: bag_ok_def)
  obtain j where j: "bag_probe (\<lambda>x. x \<noteq> 0 \<and> x \<noteq> e) a (home e a) = Some j" "j < length a"
    "reach a e j" "\<not> (a ! j \<noteq> 0 \<and> a ! j \<noteq> e)"
    "\<And>i. reach a e i \<Longrightarrow> \<not> (a ! i \<noteq> 0 \<and> a ! i \<noteq> e) \<Longrightarrow> a ! j = 0 \<Longrightarrow> a ! i = 0"
    using bag_probe_reach [OF assms(2,3), of "\<lambda>x. x \<noteq> 0 \<and> x \<noteq> e" e] by blast
  show thesis
  proof (rule that [OF j(1,2)])
    show "a ! j = (if e \<in># live_mset a then e else 0)"
    proof (cases "e \<in># live_mset a")
      case True
      then obtain i where "i < length a" "a ! i = e" by (auto simp: live_mset_def in_set_conv_nth)
      then have "reach a e i" using assms(1) e by (auto simp: slots_inv_def)
      with j(5) [of i] \<open>a ! i = e\<close> e have "a ! j \<noteq> 0" by auto
      with j(4) True show ?thesis by auto
    next
      case False
      then have "a ! j \<noteq> e" using j(2) e by (auto simp: live_mset_def)
      with j(4) False show ?thesis by auto
    qed
  qed
qed

lemma bag_rehash_correct:
  assumes "slots_inv a" "\<forall>e \<in> set old. 0 < e \<longrightarrow> bag_ok e"
    and "size (used_mset a) + size (live_mset old) < length a" "used_mset a = live_mset a"
  shows "\<exists>a'. bag_rehash old a nLive nDel = Some (a', nLive + int (size (live_mset old)),
      nDel + int (size (used_mset old) - size (live_mset old))) \<and> length a' = length a \<and>
    slots_inv a' \<and> live_mset a' = live_mset a + live_mset old \<and> used_mset a' = live_mset a'"
  using assms
proof (induction old arbitrary: a nLive nDel)
  case Nil
  then show ?case by (simp add: live_mset_def used_mset_def)
next
  case (Cons e old)
  have le: "size (live_mset old) \<le> size (used_mset old)" by (rule live_le_used)
  consider (live) "0 < e" | (dead) "e < 0" | (empty) "e = 0" by linarith
  then show ?case
  proof cases
    case live
    then have ok: "bag_ok e" using Cons.prems(2) by simp
    have z: "0 \<in> set a" and ne: "a \<noteq> []" using Cons.prems(3) by (auto simp: zero_slot)
    obtain j where j: "bag_probe (\<lambda>x. x \<noteq> 0) a (home e a) = Some j" "j < length a"
      "reach a e j" "\<not> a ! j \<noteq> 0"
      using bag_probe_reach [OF ne z, of "\<lambda>x. x \<noteq> 0" e] by blast
    define b where "b = a[j := e]"
    have b: "slots_inv b" "live_mset b = add_mset e (live_mset a)"
      "size (used_mset b) = Suc (size (used_mset a))" "length b = length a"
      using j live ok Cons.prems(1) slots_inv_fill [of a j e] live_used_fill [of j a e]
      by (simp_all add: b_def)
    have ub: "used_mset b = live_mset b"
      using j live Cons.prems(4) live_used_fill [of j a e] by (simp add: b_def)
    have eq: "live_mset (e # old) = add_mset e (live_mset old)"
      "size (used_mset (e # old)) = Suc (size (used_mset old))"
      using live by (simp_all add: live_mset_def used_mset_def)
    obtain a' where "bag_rehash old b (nLive + 1) nDel = Some (a', nLive + 1 + int (size (live_mset old)),
        nDel + int (size (used_mset old) - size (live_mset old)))" "length a' = length b" "slots_inv a'"
      "live_mset a' = live_mset b + live_mset old" "used_mset a' = live_mset a'"
      using Cons.IH [of b "nLive + 1" nDel] b ub Cons.prems eq by auto
    then show ?thesis
      using live j ok b by (auto simp: bag_home_eq b_def [symmetric] eq)
  next
    case dead
    then have eq: "live_mset (e # old) = live_mset old"
      "size (used_mset (e # old)) = Suc (size (used_mset old))"
      by (simp_all add: live_mset_def used_mset_def)
    have "bag_rehash (e # old) a nLive nDel = bag_rehash old a nLive (nDel + 1)"
      using dead by simp
    then show ?thesis
      using Cons.IH [of a nLive "nDel + 1"] Cons.prems le by (auto simp: eq Suc_diff_le)
  next
    case empty
    then have "live_mset (e # old) = live_mset old" "used_mset (e # old) = used_mset old"
      by (simp_all add: live_mset_def used_mset_def)
    with empty show ?thesis using Cons.IH [of a nLive nDel] Cons.prems by auto
  qed
qed

lemma bag_resize_correct:
  assumes "bag_inv p" "cnt p < n"
  obtains q where "bag_resize p n = Some q" "bag_inv q" "bag_abs q = bag_abs p" "sz q = n"
    "used q = cnt q"
proof -
  define a where "a = replicate (nat n) (0::int)"
  have a: "slots_inv a" "live_mset a = {#}" "used_mset a = {#}" "int (length a) = n"
    using assms by (auto simp: a_def slots_inv_def live_mset_def used_mset_def bag_inv_def)
  have c: "cnt p = int (size (live_mset (slots p)))" "used p = int (size (used_mset (slots p)))"
    "\<forall>e \<in> set (slots p). 0 < e \<longrightarrow> bag_ok e"
    using assms(1) by (auto simp: bag_inv_def slots_inv_def live_mset_def)
  obtain a' where a': "bag_rehash (slots p) a 0 0 = Some (a', int (size (live_mset (slots p))),
      int (size (used_mset (slots p)) - size (live_mset (slots p))))"
    "length a' = length a" "slots_inv a'" "live_mset a' = live_mset (slots p)" "used_mset a' = live_mset a'"
    using bag_rehash_correct [of a "slots p" 0 0] a c assms(2) by auto
  have le: "size (live_mset (slots p)) \<le> size (used_mset (slots p))" by (rule live_le_used)
  define q where "q = p\<lparr>slots := a', sz := n, used := cnt p\<rparr>"
  have r: "bag_resize p n = Some q"
    using a' assms(2) c le by (simp add: bag_resize_def a_def [symmetric] q_def)
  have "0 \<in> set a'" using a' a assms(2) c(1) by (simp add: zero_slot)
  then have "bag_inv q"
    using a a' c by (simp add: bag_inv_def q_def)
  with r show thesis using that a' by (simp add: q_def bag_abs_def)
qed

lemma no_deleted:
  assumes "bag_inv p" "used p = cnt p" "x \<in> set (slots p)" "x \<noteq> 0"
  shows "0 < x"
proof -
  have sub: "live_mset (slots p) = filter_mset (\<lambda>x. 0 < x) (used_mset (slots p))"
    by (auto simp: live_mset_def used_mset_def filter_filter_mset intro: filter_mset_cong)
  have "size (live_mset (slots p)) = size (used_mset (slots p))"
    using assms(1,2) by (simp add: bag_inv_def)
  then have "live_mset (slots p) = used_mset (slots p)"
    unfolding sub by (metis multiset_filter_subset mset_subset_size nless_le subset_mset.le_less)
  moreover have "x \<in># used_mset (slots p)" using assms(3,4) by (simp add: used_mset_def)
  ultimately have "x \<in># live_mset (slots p)" by simp
  then show ?thesis by (simp add: live_mset_def)
qed

text \<open>A table that does not have to grow, or can.\<close>

definition bag_room :: "bag \<Rightarrow> bool" where
  "bag_room p \<longleftrightarrow> used p + 1 < sz p div 2 \<or> sz p * 2 + 20 < 2 ^ 31"

definition bag_grow :: "bag \<Rightarrow> bag option" where
  "bag_grow p = (if used p + 1 \<ge> sz p div 2 then do { n \<leftarrow> c_int (sz p * 2); n \<leftarrow> c_int (n + 20); bag_resize p n } else Some p)"

lemma bag_grow_eq:
  assumes "bag_inv p"
  shows "bag_grow p = (if \<not> bag_room p then None else if used p + 1 \<ge> sz p div 2 then bag_resize p (sz p * 2 + 20) else Some p)"
proof -
  have "0 \<le> sz p" using assms by (simp add: bag_inv_def)
  then show ?thesis by (auto simp: bag_grow_def bag_room_def c_int_eq not_le not_less)
qed

text \<open>The first step of an insertion leaves a table with an empty slot besides the one to fill.\<close>

lemma bag_insert_room:
  assumes "bag_inv p" "bag_room p"
  obtains r where "bag_grow p = Some r"
    "bag_inv r" "bag_abs r = bag_abs p" "slots r \<noteq> []" "used r + 1 < sz r"
    "used p = cnt p \<or> used p + 1 \<ge> sz p div 2 \<longrightarrow> used r = cnt r"
proof -
  note eq = bag_grow_eq [OF assms(1)]
  have len: "cnt p \<le> sz p" "0 \<le> cnt p" "0 \<le> used p"
    using assms(1) live_le_used [of "slots p"] size_used [of "slots p"] by (auto simp: bag_inv_def)
  show thesis
  proof (cases "used p + 1 \<ge> sz p div 2")
    case True
    obtain q where q: "bag_resize p (sz p * 2 + 20) = Some q" "bag_inv q" "bag_abs q = bag_abs p"
      "sz q = sz p * 2 + 20" "used q = cnt q"
      using bag_resize_correct [of p "sz p * 2 + 20"] assms len by auto
    have "cnt q = cnt p" using q(2,3) assms by (simp add: bag_inv_def bag_abs_def)
    with q len have "used q + 1 < sz q" by simp
    moreover have "slots q \<noteq> []" using q(2,4) len by (auto simp: bag_inv_def)
    ultimately show thesis using that [of q] True q assms(2) eq by simp
  next
    case False
    then have "used p + 1 < sz p" using len by linarith
    moreover from this len have "slots p \<noteq> []" using assms by (auto simp: bag_inv_def)
    ultimately show thesis using that [of p] False assms eq by simp
  qed
qed

lemma bag_inv_zero: "bag_inv p \<Longrightarrow> slots p \<noteq> [] \<Longrightarrow> 0 \<in> set (slots p)"
  by (simp add: bag_inv_def)

lemma bag_insert_probe:
  assumes "bag_inv r" "slots r \<noteq> []"
  obtains j where "bag_probe (\<lambda>x. x > 0 \<and> x \<noteq> e) (slots r) (home e (slots r)) = Some j"
    "j < length (slots r)" "reach (slots r) e j" "slots r ! j \<le> 0 \<or> slots r ! j = e"
    "\<And>i. reach (slots r) e i \<Longrightarrow> slots r ! i \<le> 0 \<or> slots r ! i = e \<Longrightarrow>
       slots r ! j = 0 \<Longrightarrow> slots r ! i = 0"
proof -
  have c: "\<not> ((0::int) > 0 \<and> 0 \<noteq> e)" "\<And>x. x > 0 \<and> x \<noteq> e \<Longrightarrow> x \<noteq> 0" by simp_all
  obtain j where j: "bag_probe (\<lambda>x. x > 0 \<and> x \<noteq> e) (slots r) (home e (slots r)) = Some j"
    "j < length (slots r)" "reach (slots r) e j" "\<not> (slots r ! j > 0 \<and> slots r ! j \<noteq> e)"
    "\<And>i. reach (slots r) e i \<Longrightarrow> \<not> (slots r ! i > 0 \<and> slots r ! i \<noteq> e) \<Longrightarrow>
       slots r ! j = 0 \<Longrightarrow> slots r ! i = 0"
    using bag_probe_reach [where cont = "\<lambda>x. x > 0 \<and> x \<noteq> e" and e = e,
          OF assms(2) bag_inv_zero [OF assms] c] by blast
  show thesis
  proof (rule that [OF j(1-3)])
    show "slots r ! j \<le> 0 \<or> slots r ! j = e" using j(4) by auto
    show "slots r ! i = 0" if "reach (slots r) e i" "slots r ! i \<le> 0 \<or> slots r ! i = e" "slots r ! j = 0" for i
      using j(5) [OF that(1) _ that(3)] that(2) by auto
  qed
qed

text \<open>Storing the element into the slot found.\<close>

lemma bag_insert_store:
  assumes "bag_inv r" "used r + 1 < sz r" "j < length (slots r)" "reach (slots r) e j"
    "slots r ! j \<le> 0" "bag_ok e"
    and q: "q = r\<lparr>used := (if slots r ! j = 0 then used r + 1 else used r),
      slots := (slots r)[j := e], cnt := cnt r + 1\<rparr>"
  shows "bag_inv q" and "bag_abs q = add_mset e (bag_abs r)"
proof -
  have e: "0 < e" using assms(6) by (simp add: bag_ok_def)
  have i: "slots_inv (slots r)" "sz r = int (length (slots r))"
    "used r = int (size (used_mset (slots r)))" "cnt r = int (size (live_mset (slots r)))"
    using assms(1) by (simp_all add: bag_inv_def)
  note m = live_used_fill(1,2) [OF assms(3,5) e]
  have "0 \<in> set ((slots r)[j := e])"
    using assms(2) i m(2) by (auto simp: zero_slot split: if_splits)
  moreover have "slots_inv ((slots r)[j := e])"
    by (rule slots_inv_fill [OF i(1) assms(3,5,6,4)])
  ultimately show "bag_inv q"
    using i m by (simp add: bag_inv_def q)
  show "bag_abs q = add_mset e (bag_abs r)"
    using m(1) by (simp add: bag_abs_def q)
qed

lemma bag_insert_correct:
  assumes "bag_inv p" "bag_ok e" "bag_room p"
  shows "\<exists>q b. bag_insert p e = Some (q, b) \<and> bag_inv q \<and> e \<in># bag_abs q \<and>
    (if b then bag_abs q = add_mset e (bag_abs p) else bag_abs q = bag_abs p) \<and>
    (used p = cnt p \<or> used p + 1 \<ge> sz p div 2 \<longrightarrow> used q = cnt q \<and> b = (e \<notin># bag_abs p))"
proof -
  have e: "0 < e" using assms(2) by (simp add: bag_ok_def)
  obtain r where r: "bag_grow p = Some r"
    "bag_inv r" "bag_abs r = bag_abs p" "slots r \<noteq> []" "used r + 1 < sz r"
    "used p = cnt p \<or> used p + 1 \<ge> sz p div 2 \<longrightarrow> used r = cnt r"
    using bag_insert_room [OF assms(1,3)] by blast
  have inv: "slots_inv (slots r)" "sz r = int (length (slots r))"
    using r(2) by (simp_all add: bag_inv_def)
  obtain j where j: "bag_probe (\<lambda>x. x > 0 \<and> x \<noteq> e) (slots r) (home e (slots r)) = Some j"
    "j < length (slots r)" "reach (slots r) e j" "slots r ! j \<le> 0 \<or> slots r ! j = e"
    "\<And>i. reach (slots r) e i \<Longrightarrow> slots r ! i \<le> 0 \<or> slots r ! i = e \<Longrightarrow>
       slots r ! j = 0 \<Longrightarrow> slots r ! i = 0"
    using bag_insert_probe [OF r(2,4)] by blast
  have h: "bag_home e (sz r) = Some (home e (slots r))"
    using inv(2) assms(2) by (simp add: bag_home_eq)
  show ?thesis
  proof (cases "slots r ! j \<le> 0")
    case True
    define q where "q = r\<lparr>used := (if slots r ! j = 0 then used r + 1 else used r),
      slots := (slots r)[j := e], cnt := cnt r + 1\<rparr>"
    have bi: "bag_insert p e = Some (q, True)"
      using e r(1) j(1) h True by (simp add: bag_insert_def bag_grow_def [symmetric] q_def)
    have q: "bag_inv q" "bag_abs q = add_mset e (bag_abs p)"
      using bag_insert_store [OF r(2,5) j(2,3) True assms(2) q_def] r(3) by simp_all
    have fresh: "used q = cnt q \<and> e \<notin># bag_abs p" if t: "used p = cnt p \<or> used p + 1 \<ge> sz p div 2"
    proof -
      have "slots r ! j \<in> set (slots r)" using j(2) by simp
      then have z: "slots r ! j = 0"
        using no_deleted [OF r(2) r(6) [rule_format, OF t], of "slots r ! j"] True by linarith
      have "e \<notin># bag_abs p"
      proof
        assume "e \<in># bag_abs p"
        then obtain i where i: "i < length (slots r)" "slots r ! i = e"
          unfolding r(3) [symmetric] by (auto simp: bag_abs_def live_mset_def in_set_conv_nth)
        then have "reach (slots r) e i" using inv(1) e by (auto simp: slots_inv_def)
        with j(5) [of i] z i(2) e show False by simp
      qed
      with z r(6) t show ?thesis by (simp add: q_def)
    qed
    show ?thesis
      using bi q fresh by (intro exI [of _ q] exI [of _ True]) simp
  next
    case False
    then have aj: "slots r ! j = e" using j(4) by simp
    then have mem: "e \<in># bag_abs p"
      unfolding r(3) [symmetric] using j(2) e by (auto simp: bag_abs_def live_mset_def)
    have "bag_insert p e = Some (r, False)"
      using e r(1) j(1) h False by (simp add: bag_insert_def bag_grow_def [symmetric])
    then show ?thesis
      using r mem by (intro exI [of _ r] exI [of _ False]) simp
  qed
qed

lemma bag_insert_full: "bag_inv p \<Longrightarrow> \<not> bag_room p \<Longrightarrow> bag_insert p e = None"
  using bag_grow_eq [of p] by (simp add: bag_insert_def bag_grow_def [symmetric])

lemma bag_find_correct:
  assumes "bag_inv p" "bag_ok e"
  shows "bag_find p e = Some (e \<in># bag_abs p)"
proof (cases "slots p = []")
  case True
  then show ?thesis
    using assms by (simp add: bag_find_def bag_inv_def bag_abs_def live_mset_def bag_ok_def)
next
  case False
  then have i: "slots_inv (slots p)" "0 \<in> set (slots p)" "sz p = int (length (slots p))"
    using assms(1) by (auto simp: bag_inv_def)
  obtain j where j: "bag_probe (\<lambda>x. x \<noteq> 0 \<and> x \<noteq> e) (slots p) (home e (slots p)) = Some j"
    "slots p ! j = (if e \<in># live_mset (slots p) then e else 0)"
    using bag_probe_member [OF i(1) False i(2) assms(2)] by metis
  then show ?thesis
    using assms(2) i(3) False by (simp add: bag_find_def bag_home_eq bag_abs_def bag_ok_def)
qed

lemma live_used_clear:
  assumes "j < length a" "0 < a ! j" "x = 0 \<or> x = -1"
  shows "live_mset (a[j := x]) = live_mset a - {#a ! j#}"
    and "size (used_mset a) = size (used_mset (a[j := x])) + (if x = 0 then 1 else 0)"
proof -
  obtain M where M: "mset a = add_mset (a ! j) M" "\<And>x. mset (a[j := x]) = add_mset x M"
    using mset_slot [OF assms(1)] by metis
  show "live_mset (a[j := x]) = live_mset a - {#a ! j#}"
    "size (used_mset a) = size (used_mset (a[j := x])) + (if x = 0 then 1 else 0)"
    using assms by (auto simp: live_mset_def used_mset_def M)
qed

text \<open>Emptying a slot whose successor is empty cuts no path.\<close>

lemma reach_clear:
  assumes "reach a e i" "a ! i \<noteq> 0" "a ! (Suc j mod length a) = 0"
  shows "reach (a[j := 0]) e i"
proof -
  obtain d where d: "d < length a" "i = (home e a + d) mod length a"
    "\<forall>k < d. a ! ((home e a + k) mod length a) \<noteq> 0"
    using assms(1) by (auto simp: reach_def)
  have "(home e a + k) mod length a \<noteq> j" if "k < d" for k
  proof
    assume j: "(home e a + k) mod length a = j"
    then have s: "(home e a + Suc k) mod length a = Suc j mod length a"
      by (metis add_Suc_right mod_Suc_eq)
    show False
    proof (cases "Suc k < d")
      case True
      with d(3) have "a ! ((home e a + Suc k) mod length a) \<noteq> 0" by blast
      with s assms(3) show False by simp
    next
      case False
      with that have "Suc k = d" by simp
      with s d(2) assms(2,3) show False by simp
    qed
  qed
  with d(3) have "\<forall>k < d. a[j := 0] ! ((home e a + k) mod length a) \<noteq> 0"
    by (metis nth_list_update_neq)
  with d(1,2) show ?thesis unfolding reach_def by (intro exI [of _ d]) simp
qed

lemma bag_remove_slot:
  assumes inv: "bag_inv p" and j: "j < length (slots p)" "slots p ! j = e" "0 < e"
    and x: "x = (if slots p ! (Suc j mod length (slots p)) = 0 then 0 else -1)"
    and q: "q = p\<lparr>slots := (slots p)[j := x], used := used p - (if x = 0 then 1 else 0),
      cnt := cnt p - 1\<rparr>"
  shows "bag_inv q" and "bag_abs q = bag_abs p - {#e#}"
proof -
  define a where "a = slots p"
  have i: "slots_inv a" "0 \<in> set a" "sz p = int (length a)" "cnt p = int (size (live_mset a))"
    "used p = int (size (used_mset a))"
    using inv j(1) by (auto simp: bag_inv_def a_def)
  have x': "x = 0 \<or> x = -1" using x by simp
  have mem: "e \<in># live_mset a" using j by (auto simp: live_mset_def a_def)
  have lu: "live_mset (a[j := x]) = live_mset a - {#e#}"
    "size (used_mset a) = size (used_mset (a[j := x])) + (if x = 0 then 1 else 0)"
    using live_used_clear [of j a x] j x' by (simp_all add: a_def)
  show "bag_abs q = bag_abs p - {#e#}" using lu by (simp add: bag_abs_def a_def q)
  have z: "0 \<in> set (a[j := x])"
  proof (cases "x = 0")
    case True
    then show ?thesis using j(1) by (simp add: a_def set_update_memI)
  next
    case False
    obtain k where "k < length a" "a ! k = 0" using i(2) by (auto simp: in_set_conv_nth)
    moreover from this j have "k \<noteq> j" by (auto simp: a_def)
    ultimately show ?thesis by (metis length_list_update nth_list_update_neq nth_mem)
  qed
  have sub: "\<forall>v \<in># live_mset (a[j := x]). bag_ok v"
    using i(1) lu(1) by (auto simp: slots_inv_def dest: in_diffD)
  have "\<forall>k < length a. 0 < a[j := x] ! k \<longrightarrow> reach (a[j := x]) (a[j := x] ! k) k"
  proof (intro allI impI)
    fix k
    assume k: "k < length a" "0 < a[j := x] ! k"
    with x' j(1) have "k \<noteq> j" by (auto simp: a_def)
    then have ak: "a[j := x] ! k = a ! k" by simp
    with k i(1) have r: "reach a (a ! k) k" by (simp add: slots_inv_def)
    show "reach (a[j := x]) (a[j := x] ! k) k"
    proof (cases "x = 0")
      case True
      then have "a ! (Suc j mod length a) = 0" using x by (simp add: a_def split: if_splits)
      then show ?thesis using reach_clear [OF r] k ak True by simp
    next
      case False
      then show ?thesis using reach_fill [OF r] ak by simp
    qed
  qed
  then have "slots_inv (a[j := x])" using sub by (simp add: slots_inv_def)
  moreover have "size (live_mset a) = Suc (size (live_mset a - {#e#}))"
    using mem by (metis insert_DiffM size_add_mset)
  ultimately show "bag_inv q"
    using i z lu by (auto simp: bag_inv_def a_def q)
qed

lemma bag_remove_correct:
  assumes "bag_inv p" "bag_ok e"
  shows "\<exists>q. bag_remove p e = Some q \<and> bag_inv q \<and> bag_abs q = bag_abs p - {#e#}"
proof (cases "slots p = []")
  case True
  then show ?thesis
    using assms by (simp add: bag_remove_def bag_inv_def bag_abs_def live_mset_def bag_ok_def)
next
  case False
  have e: "0 < e" using assms(2) by (simp add: bag_ok_def)
  have i: "slots_inv (slots p)" "0 \<in> set (slots p)" "sz p = int (length (slots p))"
    using assms(1) False by (auto simp: bag_inv_def)
  obtain j where j: "bag_probe (\<lambda>x. x \<noteq> 0 \<and> x \<noteq> e) (slots p) (home e (slots p)) = Some j"
    "j < length (slots p)" "slots p ! j = (if e \<in># live_mset (slots p) then e else 0)"
    using bag_probe_member [OF i(1) False i(2) assms(2)] by metis
  show ?thesis
  proof (cases "e \<in># live_mset (slots p)")
    case False
    then have "bag_remove p e = Some p"
      using e i j assms(2) \<open>slots p \<noteq> []\<close> by (simp add: bag_remove_def bag_home_eq)
    moreover have "bag_abs p - {#e#} = bag_abs p"
      using False by (simp add: bag_abs_def diff_single_trivial)
    ultimately show ?thesis using assms(1) by simp
  next
    case True
    then have aj: "slots p ! j = e" using j(3) by simp
    define nx where "nx = (if int (Suc j) \<ge> sz p then 0 else Suc j)"
    have nx: "nx = Suc j mod length (slots p)"
    proof (cases "Suc j = length (slots p)")
      case False
      then have "Suc j < length (slots p)" using j(2) by simp
      then show ?thesis using i(3) by (simp add: nx_def)
    qed (simp add: nx_def i(3))
    define x where "x = (if slots p ! nx = 0 then 0 else -1 :: int)"
    define p2 where "p2 = p\<lparr>slots := (slots p)[j := x], used := used p - (if x = 0 then 1 else 0),
      cnt := cnt p - 1\<rparr>"
    have p2: "bag_inv p2" "bag_abs p2 = bag_abs p - {#e#}"
      using bag_remove_slot [OF assms(1) j(2) aj e x_def [unfolded nx] p2_def] by simp_all
    have eq: "bag_remove p e =
        (if cnt p2 = 0 then Some (p2\<lparr>slots := replicate (nat (sz p2)) 0, used := 0\<rparr>)
         else if sz p2 > 40 \<and> cnt p2 < sz p2 div 8 then bag_resize p2 (sz p2 div 2)
         else Some p2)"
    proof -
      have "bag_home e (sz p) = Some (home e (slots p))" "sz p \<noteq> 0"
        using i(3) assms(2) \<open>slots p \<noteq> []\<close> by (simp_all add: bag_home_eq)
      then show ?thesis
        using e j(1) aj by (auto simp: bag_remove_def Let_def nx_def x_def p2_def)
    qed
    show ?thesis
    proof (cases "cnt p2 = 0")
      case True
      then have "live_mset (slots p2) = {#}" using p2(1) by (simp add: bag_inv_def)
      moreover have "bag_inv (p2\<lparr>slots := replicate (nat (sz p2)) 0, used := 0\<rparr>)"
        using True p2(1) by (auto simp: bag_inv_def slots_inv_def live_mset_def used_mset_def)
      moreover have "live_mset (replicate (nat (sz p2)) 0) = {#}"
        by (auto simp: live_mset_def)
      ultimately show ?thesis
        using True eq p2(2) by (simp add: bag_abs_def)
    next
      case False
      show ?thesis
      proof (cases "sz p2 > 40 \<and> cnt p2 < sz p2 div 8")
        case True
        then have "cnt p2 < sz p2 div 2" by linarith
        then obtain q where "bag_resize p2 (sz p2 div 2) = Some q" "bag_inv q" "bag_abs q = bag_abs p2"
          using bag_resize_correct [OF p2(1)] by blast
        with False True eq p2(2) show ?thesis by simp
      next
        case no: False
        then show ?thesis using False eq p2 by auto
      qed
    qed
  qed
qed

interpretation bag: mset_container bag_init bag_insert bag_remove bag_find bag_abs bag_inv bag_ok bag_room
proof
  show "bag_inv bag_init" "bag_abs bag_init = {#}"
    by (simp_all add: bag_inv_def bag_init_def bag_abs_def live_mset_def used_mset_def slots_inv_def)
  fix s e
  assume a: "bag_inv s" "bag_ok e" "bag_room s"
  show "\<exists>s' b. bag_insert s e = Some (s', b) \<and> bag_inv s' \<and> e \<in># bag_abs s' \<and>
      (if b then bag_abs s' = add_mset e (bag_abs s) else bag_abs s' = bag_abs s)"
    using bag_insert_correct [OF a] by blast
qed (rule bag_insert_full bag_remove_correct bag_find_correct; assumption)+

text \<open>Inserting a sequence of elements; the results say which insertions added an element.\<close>

fun bag_insert_all :: "bag \<Rightarrow> int list \<Rightarrow> (bag \<times> bool list) option" where
  "bag_insert_all p [] = Some (p, [])"
| "bag_insert_all p (e # es) =
     do { (q, b) \<leftarrow> bag_insert p e; (r, bs) \<leftarrow> bag_insert_all q es; Some (r, b # bs) }"

lemma bag_insert_all_set:
  "bag_inv p \<Longrightarrow> used p = cnt p \<Longrightarrow> bag_abs p = mset_set S \<Longrightarrow> finite S \<Longrightarrow> \<forall>e \<in> set es. bag_ok e \<Longrightarrow>
   bag_insert_all p es = Some (q, bs) \<Longrightarrow> bag_inv q \<and> bag_abs q = mset_set (S \<union> set es)"
proof (induction es arbitrary: p S q bs)
  case Nil
  then show ?case by simp
next
  case (Cons e es)
  have ok: "bag_ok e" using Cons.prems by simp
  obtain r b cs where r: "bag_insert p e = Some (r, b)" "bag_insert_all r es = Some (q, cs)"
    using Cons.prems(6) by (auto split: bind_splits)
  moreover have "bag_room p" using bag_insert_full [OF Cons.prems(1)] r(1) by fastforce
  ultimately have "used r = cnt r" "b = (e \<notin># bag_abs p)"
    and i: "bag_inv r" "if b then bag_abs r = add_mset e (bag_abs p) else bag_abs r = bag_abs p"
    using bag_insert_correct [OF Cons.prems(1) ok] Cons.prems(2) by fastforce+
  moreover from this have "bag_abs r = mset_set (insert e S)"
    using Cons.prems(3,4) by (cases "e \<in> S") (auto simp: insert_absorb)
  ultimately show ?case using Cons.IH [OF i(1) _ _ _ _ r(2)] Cons.prems(4,5) by simp
qed

text \<open>The callers' loop \<open>for(e=bag_first(p); e; e=bag_next(p,e))\<close>, with the elements it visits.\<close>

partial_function (option) bag_iterate :: "bag \<Rightarrow> int \<Rightarrow> int list \<Rightarrow> int list option" where
  "bag_iterate p e acc =
     (if e = 0 then Some acc
      else Option.bind (bag_next p e) (\<lambda>e'. bag_iterate p e' (acc @ [e])))"

lemma first_live_eq: "first_live xs = (case filter (\<lambda>x. 0 < x) xs of [] \<Rightarrow> 0 | x # _ \<Rightarrow> x)"
  by (induction xs) auto

lemma live_unique:
  assumes "count (live_mset a) e \<le> 1" "0 < e" "i < length a" "j < length a" "a ! i = e" "a ! j = e"
  shows "i = j"
proof (rule ccontr)
  assume "i \<noteq> j"
  obtain M where M: "mset a = add_mset (a ! i) M" "\<And>x. mset (a[i := x]) = add_mset x M"
    using mset_slot [OF assms(3)] by metis
  have "a[i := 0] ! j = e" using \<open>i \<noteq> j\<close> assms by simp
  then have "e \<in># mset (a[i := 0])" using assms(4) by (metis length_list_update nth_mem_mset)
  then have "0 < count M e" using M(2) assms(2) by simp
  moreover have "count (live_mset a) e = Suc (count M e)"
    using M(1) assms by (simp add: live_mset_def)
  ultimately show False using assms(1) by linarith
qed

lemma bag_iterate_from:
  assumes "bag_inv p" "\<And>e. count (bag_abs p) e \<le> 1"
  shows "bag_iterate p (first_live (drop i (slots p))) acc =
    Some (acc @ filter (\<lambda>x. 0 < x) (drop i (slots p)))"
proof (induction "length (slots p) - i" arbitrary: i acc)
  case 0
  then show ?case by (simp add: bag_iterate.simps)
next
  case (Suc n)
  define a where "a = slots p"
  have i: "i < length a" using Suc.hyps(2) by (simp add: a_def)
  then have d: "drop i a = a ! i # drop (Suc i) a" by (simp add: Cons_nth_drop_Suc)
  have IH: "bag_iterate p (first_live (drop (Suc i) a)) acc' =
      Some (acc' @ filter (\<lambda>x. 0 < x) (drop (Suc i) a))" for acc'
    using Suc.hyps(1) [of "Suc i" acc'] Suc.hyps(2) by (simp add: a_def)
  show ?case
  proof (cases "0 < a ! i")
    case False
    then show ?thesis using IH d by (simp add: a_def)
  next
    case True
    define e where "e = a ! i"
    have mem: "e \<in># live_mset a" using True i by (simp add: live_mset_def e_def)
    have inv: "slots_inv a" "0 \<in> set a" "sz p = int (length a)" "a \<noteq> []"
      using assms(1) i by (auto simp: bag_inv_def a_def)
    then have ok: "bag_ok e" using mem by (auto simp: slots_inv_def)
    obtain j where j: "bag_probe (\<lambda>x. x \<noteq> 0 \<and> x \<noteq> e) a (home e a) = Some j" "j < length a" "a ! j = e"
      using bag_probe_member [OF inv(1,4,2) ok] mem by metis
    have "j = i"
      using live_unique [of a e j i] assms(2) j i True by (simp add: bag_abs_def a_def e_def)
    then have "bag_next p e = Some (first_live (drop (Suc i) a))"
      using inv ok j True i by (simp add: bag_next_def bag_home_eq a_def [symmetric] e_def)
    then show ?thesis
      using IH True d by (simp add: bag_iterate.simps [of _ "slots p ! i"] a_def e_def)
  qed
qed

section \<open>Properties\<close>


definition bag_two :: bag where
  "bag_two = the (map_option fst (bag_insert_all bag_init [1, 21]))"

lemma bag_init_inv: "bag_inv bag_init" "bag_abs bag_init = {#}" "used bag_init = cnt bag_init"
  using bag.empty by (simp_all add: bag_init_def)

lemma bag_two_inv: "bag_inv bag_two" "bag_abs bag_two = {#1, 21#}"
proof -
  have "bag_insert_all bag_init [1, 21] \<noteq> None"
    by (simp add: bag_init_def bag_insert_def bag_resize_def bag_home_def bag_hash_def bag_probe.simps c_int_eq numeral_eq_Suc)
  then obtain q bs where q: "bag_insert_all bag_init [1, 21] = Some (q, bs)" by auto
  then have "bag_inv q" "bag_abs q = mset_set ({} \<union> set [1, 21])"
    using bag_insert_all_set [OF bag_init_inv(1,3) _ _ _ q, of "{}"] bag_init_inv(2)
    by (simp_all add: bag_ok_def bag_hash_def del: bag_insert_all.simps)
  with q show "bag_inv bag_two" "bag_abs bag_two = {#1, 21#}" by (simp_all add: bag_two_def)
qed

lemma bag_two_eq: "bag_two = \<lparr>cnt = 2, sz = 20, used = 2,
    slots = [0, 1, 21, 0, 0, 0, 0, 0, 0, 0, 0, 0, 0, 0, 0, 0, 0, 0, 0, 0]\<rparr>"
  by (simp add: bag_two_def bag_init_def bag_insert_def bag_resize_def bag_home_def bag_hash_def
      bag_probe.simps c_int_eq numeral_eq_Suc)




text \<open>
  A bag that only ever had elements inserted, without an overflow of its size, is a set: the bag holds
  each element once, \<open>bag_count\<close> is the number of distinct elements, and the callers' loop over
  \<open>bag_first\<close> and \<open>bag_next\<close> ends and visits every element exactly once.
\<close>

theorem bag_insert_only_is_set:
  assumes "\<forall>e \<in> set es. bag_ok e" and "bag_insert_all bag_init es = Some (q, bs)"
  shows "\<exists>xs. bag_count q = int (card (set es)) \<and>
    bag_iterate q (bag_first q) [] = Some xs \<and> distinct xs \<and> set xs = set es"
proof -
  have q: "bag_insert_all bag_init es = Some (q, bs)" "bag_inv q" "bag_abs q = mset_set (set es)"
    using bag_insert_all_set [OF bag_init_inv(1,3) _ _ assms, of "{}"] bag_init_inv(2) assms by auto
  define xs where "xs = filter (\<lambda>x. 0 < x) (slots q)"
  have m: "mset xs = mset_set (set es)" using q(3) by (simp add: xs_def bag_abs_def live_mset_def)
  have "count (bag_abs q) e \<le> 1" for e by (simp add: q(3) count_mset_set')
  from bag_iterate_from [OF q(2) this, of 0 "[]"]
  have "bag_iterate q (bag_first q) [] = Some xs" by (simp add: bag_first_def xs_def)
  moreover have s: "set xs = set es" using m by (metis finite_set finite_set_mset_mset_set set_mset_mset)
  moreover have "distinct xs" by (simp add: distinct_count_atmost_1 m s count_mset_set')
  moreover have "bag_count q = int (card (set es))"
    using q(2,3) by (simp add: bag_count_def bag_inv_def bag_abs_def)
  ultimately show ?thesis using q(1) by blast
qed

text \<open>
  After a removal the table is no longer a set. Inserting 21 into the slot of the deleted 1,
  before reaching the 21 already there, makes a second copy: the insertion reports a new element,
  the count is 2 for one element, and 21 is still found after it has been removed.
\<close>

theorem bag_insert_duplicates_after_remove:
  "\<exists>p q r. bag_remove bag_two 1 = Some p \<and> bag_find p 21 = Some True \<and>
     bag_insert p 21 = Some (q, True) \<and> bag_count q = 2 \<and> bag_abs q = {#21, 21#} \<and>
     bag_remove q 21 = Some r \<and> bag_find r 21 = Some True"
proof -
  note two = bag_two_eq
  define p where "p = \<lparr>cnt = 1, sz = 20, used = 2,
      slots = [0, -1, 21, 0, 0, 0, 0, 0, 0, 0, 0, 0, 0, 0, 0, 0, 0, 0, 0, 0]\<rparr>"
  define q where "q = \<lparr>cnt = 2, sz = 20, used = 2,
      slots = [0, 21, 21, 0, 0, 0, 0, 0, 0, 0, 0, 0, 0, 0, 0, 0, 0, 0, 0, 0]\<rparr>"
  have p: "bag_remove bag_two 1 = Some p" "bag_find p 21 = Some True"
    by (simp_all add: two p_def bag_remove_def bag_find_def bag_home_def bag_hash_def bag_probe.simps)
  have q: "bag_insert p 21 = Some (q, True)"
    by (simp add: p_def q_def bag_insert_def bag_home_def bag_hash_def bag_probe.simps)
  have ok: "bag_ok 21" by (simp add: bag_ok_def bag_hash_def)
  have inv: "bag_inv p" "bag_inv q"
    using bag_remove_correct [OF bag_two_inv(1), of 1] p(1)
      bag_insert_correct [of p 21, OF _ ok] q
    by (auto simp: bag_ok_def bag_hash_def bag_room_def p_def)
  have "bag_abs q = {#21, 21#}" by (simp add: q_def bag_abs_def live_mset_def)
  with p q show ?thesis
    using bag.rem [OF inv(2) ok] bag.mem_after_rem [OF inv(2) ok]
    by (auto simp: bag_count_def q_def)
qed

end
