(* ===== verification/Fossil_Pqueue.thy ===== *)
theory Fossil_Pqueue
  imports Prelude_C "HOL-Library.Multiset"
begin

text \<open>
  The priority queue of Fossil (\<open>src/test4/pqueue.c\<close>): an array of elements in ascending order of their
  values. The values, floating-point numbers in the code, are of any linear order, as they are without a NaN. A slot that was never
  written is \<open>None\<close>; reading it, or an access outside of the array, is the result \<open>None\<close>.
\<close>

section \<open>Model\<close>

record 'v queue_element =
  qe_id :: int
  qe_p :: nat
  qe_value :: 'v

record 'v pqueue =
  pq_cnt :: nat
  pq_sz :: nat
  pq_a :: "'v queue_element option list"

definition pqueue_init :: "'v pqueue" where
  "pqueue_init = \<lparr>pq_cnt = 0, pq_sz = 0, pq_a = []\<rparr>"

definition pqueue_clear :: "'v pqueue \<Rightarrow> 'v pqueue" where
  "pqueue_clear p = pqueue_init"

definition pqueue_resize :: "'v pqueue \<Rightarrow> nat \<Rightarrow> 'v pqueue" where
  "pqueue_resize p n = p\<lparr>pq_a := take n (pq_a p) @ replicate (n - length (pq_a p)) None, pq_sz := n\<rparr>"

text \<open>The index of the first element with a greater value.\<close>

function insert_index :: "'v::linorder pqueue \<Rightarrow> 'v \<Rightarrow> nat \<Rightarrow> nat option" where
  "insert_index p v i = (if i < pq_cnt p then do {
       s \<leftarrow> peek (pq_a p) i;
       x \<leftarrow> s;
       if qe_value x > v then Some i else insert_index p v (i + 1)
     } else Some i)"
  by pat_completeness auto
termination
  by (relation "measure (\<lambda>(p, v, i). pq_cnt p - i)") auto

declare insert_index.simps [simp del]

text \<open>The elements from \<open>i\<close> on move up by one, the last one first.\<close>

fun shift_up :: "'v queue_element option list \<Rightarrow> nat \<Rightarrow> nat \<Rightarrow> 'v queue_element option list option" where
  "shift_up a i 0 = Some a"
| "shift_up a i (Suc j) = (if Suc j > i then do {
       x \<leftarrow> peek a j;
       a \<leftarrow> poke a (Suc j) x;
       shift_up a i j
     } else Some a)"

definition pqueue_insert :: "'v::linorder pqueue \<Rightarrow> int \<Rightarrow> 'v \<Rightarrow> nat \<Rightarrow> 'v pqueue option" where
  "pqueue_insert p e v pData = (let p = (if pq_cnt p + 1 > pq_sz p then pqueue_resize p (pq_cnt p + 5) else p) in do {
     i \<leftarrow> insert_index p v 0;
     a \<leftarrow> shift_up (pq_a p) i (pq_cnt p);
     a \<leftarrow> poke a i (Some \<lparr>qe_id = e, qe_p = pData, qe_value = v\<rparr>);
     Some (p\<lparr>pq_a := a, pq_cnt := pq_cnt p + 1\<rparr>)
   })"

text \<open>The elements move down by one from index \<open>i\<close> on.\<close>

function shift_down :: "'v queue_element option list \<Rightarrow> nat \<Rightarrow> nat \<Rightarrow> 'v queue_element option list option" where
  "shift_down a i n = (if i < n then do {
       x \<leftarrow> peek a (i + 1);
       a \<leftarrow> poke a i x;
       shift_down a (i + 1) n
     } else Some a)"
  by pat_completeness auto
termination
  by (relation "measure (\<lambda>(a, i, n). n - i)") auto

declare shift_down.simps [simp del]

text \<open>The identifier, the content and the queue.\<close>

definition pqueue_extract :: "'v pqueue \<Rightarrow> (int \<times> nat \<times> 'v pqueue) option" where
  "pqueue_extract p = (if pq_cnt p = 0 then Some (0, 0, p)
     else do {
       s \<leftarrow> peek (pq_a p) 0;
       x \<leftarrow> s;
       a \<leftarrow> shift_down (pq_a p) 0 (pq_cnt p - 1);
       Some (qe_id x, qe_p x, p\<lparr>pq_a := a, pq_cnt := pq_cnt p - 1\<rparr>)
     })"

section \<open>The contract of a priority queue\<close>

text \<open>
  The content of a queue is the list of its elements in the order in which they leave it: an element
  goes behind those with values up to its own.
\<close>

definition put :: "'v::linorder queue_element \<Rightarrow> 'v queue_element list \<Rightarrow> 'v queue_element list" where
  "put x xs = takeWhile (\<lambda>y. qe_value y \<le> qe_value x) xs @ x # dropWhile (\<lambda>y. qe_value y \<le> qe_value x) xs"

text \<open>The first \<open>n\<close> elements that an operation takes out, and the queue that is left.\<close>

fun drain :: "('q \<Rightarrow> (int \<times> nat \<times> 'q) option) \<Rightarrow> nat \<Rightarrow> 'q \<Rightarrow> ((int \<times> nat) list \<times> 'q) option" where
  "drain deq 0 q = Some ([], q)"
| "drain deq (Suc n) q = do {
     (e, d, q) \<leftarrow> deq q;
     (es, q) \<leftarrow> drain deq n q;
     Some ((e, d) # es, q)
   }"

lemma sorted_put: "sorted (map qe_value xs) \<Longrightarrow> sorted (map qe_value (put x xs))"
proof (induction xs)
  case (Cons y xs)
  then have "\<And>z. z \<in> set (put x xs) \<Longrightarrow> qe_value z < qe_value y \<Longrightarrow> z = x"
    by (auto simp: put_def dest!: set_takeWhileD set_dropWhileD)
  with Cons show ?case by (fastforce simp: put_def dest!: set_takeWhileD set_dropWhileD)
qed (simp add: put_def)

lemma mset_put [simp]: "mset (put x xs) = add_mset x (mset xs)"
  by (induction xs) (simp_all add: put_def)

lemma filter_put:
  "sorted (map qe_value xs) \<Longrightarrow> filter (\<lambda>y. k = qe_value y) (put x xs) = filter (\<lambda>y. k = qe_value y) (xs @ [x])"
proof (induction xs)
  case (Cons y xs)
  show ?case
  proof (cases "qe_value y \<le> qe_value x")
    case False
    with Cons.prems have "\<forall>z \<in> set (y # xs). qe_value x \<noteq> qe_value z" by auto
    then have "filter (\<lambda>z. qe_value x = qe_value z) (y # xs) = []" by (auto simp: filter_empty_conv)
    with False show ?thesis by (auto simp: put_def)
  next
    case True
    then have "put x (y # xs) = y # put x xs" by (simp add: put_def)
    moreover have "filter (\<lambda>y. k = qe_value y) (put x xs) = filter (\<lambda>y. k = qe_value y) (xs @ [x])" using Cons by simp
    ultimately show ?thesis by (simp only: filter.simps append_Cons)
  qed
qed (simp add: put_def)

locale priority_queue =
  fixes q0 :: "'q"
    and enq :: "'q \<Rightarrow> int \<Rightarrow> 'v::linorder \<Rightarrow> nat \<Rightarrow> 'q option"
    and deq :: "'q \<Rightarrow> (int \<times> nat \<times> 'q) option"
    and holds :: "'q \<Rightarrow> 'v queue_element list \<Rightarrow> bool"
  assumes q0_holds: "holds q0 []"
    and enq_holds: "holds q xs \<Longrightarrow> sorted (map qe_value xs) \<Longrightarrow>
      \<exists>q'. enq q e v d = Some q' \<and> holds q' (put \<lparr>qe_id = e, qe_p = d, qe_value = v\<rparr> xs)"
    and deq_empty: "holds q [] \<Longrightarrow> deq q = Some (0, 0, q)"
    and deq_holds: "holds q (x # xs) \<Longrightarrow> \<exists>q'. deq q = Some (qe_id x, qe_p x, q') \<and> holds q' xs"
begin

lemma enq_all_holds:
  "holds q xs \<Longrightarrow> sorted (map qe_value xs) \<Longrightarrow>
    \<exists>q' ys. fold_opt (\<lambda>x q. enq q (qe_id x) (qe_value x) (qe_p x)) es q = Some q' \<and> holds q' ys \<and> sorted (map qe_value ys) \<and>
    mset ys = mset xs + mset es \<and> (\<forall>k. filter (\<lambda>y. k = qe_value y) ys = filter (\<lambda>y. k = qe_value y) (xs @ es))"
proof (induction es arbitrary: q xs)
  case (Cons e es)
  have e: "\<lparr>qe_id = qe_id e, qe_p = qe_p e, qe_value = qe_value e\<rparr> = e" by simp
  obtain q' where q': "enq q (qe_id e) (qe_value e) (qe_p e) = Some q'" "holds q' (put e xs)"
    using enq_holds [OF Cons.prems, of "qe_id e" "qe_value e" "qe_p e"] unfolding e by blast
  from Cons.IH [OF q'(2) sorted_put [OF Cons.prems(2)]] obtain q'' ys where
    "fold_opt (\<lambda>x q. enq q (qe_id x) (qe_value x) (qe_p x)) es q' = Some q''" "holds q'' ys" "sorted (map qe_value ys)"
    "mset ys = mset (put e xs) + mset es"
    "\<forall>k. filter (\<lambda>y. k = qe_value y) ys = filter (\<lambda>y. k = qe_value y) (put e xs @ es)" by blast
  with q'(1) show ?case using filter_put [OF Cons.prems(2)] by (intro exI [of _ q''] exI [of _ ys]) simp
qed (use q0_holds in auto)

lemma drain_holds:
  "holds q xs \<Longrightarrow> \<exists>q'. drain deq (length xs) q = Some (map (\<lambda>x. (qe_id x, qe_p x)) xs, q') \<and> holds q' []"
proof (induction xs arbitrary: q)
  case (Cons x xs)
  from deq_holds [OF Cons.prems] obtain q' where "deq q = Some (qe_id x, qe_p x, q')" "holds q' xs" by blast
  with Cons.IH [of q'] show ?case by auto
qed auto

text \<open>What is put into a queue comes out sorted, elements with the same value in the order in which they were put in.\<close>

lemma queue_sorts:
  fixes es :: "'v queue_element list"
  shows "\<exists>q q'. fold_opt (\<lambda>x q. enq q (qe_id x) (qe_value x) (qe_p x)) es q0 = Some q \<and>
    drain deq (length es) q = Some (map (\<lambda>x. (qe_id x, qe_p x)) (sort_key qe_value es), q') \<and> deq q' = Some (0, 0, q')"
proof -
  obtain q ys where q: "fold_opt (\<lambda>x q. enq q (qe_id x) (qe_value x) (qe_p x)) es q0 = Some q" "holds q ys"
    "sorted (map qe_value ys)" "mset ys = mset es"
    "\<forall>k. filter (\<lambda>y. k = qe_value y) ys = filter (\<lambda>y. k = qe_value y) es"
    using enq_all_holds [OF q0_holds, of es] by auto
  have "sort_key qe_value es = ys" by (rule properties_for_sort_key) (use q in auto)
  moreover have "length ys = length es" using q(4) by (metis size_mset)
  ultimately show ?thesis using q(1) drain_holds [OF q(2)] deq_empty by auto
qed

end

section \<open>The array is a priority queue\<close>

definition queue_holds :: "'v pqueue \<Rightarrow> 'v queue_element list \<Rightarrow> bool" where
  "queue_holds p xs \<longleftrightarrow> pq_cnt p = length xs \<and> pq_sz p = length (pq_a p) \<and> length xs \<le> pq_sz p \<and>
     take (length xs) (pq_a p) = map Some xs"

lemma queue_nth: "take (length xs) a = map Some xs \<Longrightarrow> i < length xs \<Longrightarrow> a ! i = Some (xs ! i)"
  by (metis nth_map nth_take)

lemma insert_index_holds:
  assumes "queue_holds p xs" and "i \<le> length (takeWhile (\<lambda>y. qe_value y \<le> v) xs)"
  shows "insert_index p v i = Some (length (takeWhile (\<lambda>y. qe_value y \<le> v) xs))"
  using assms
proof (induction p v i rule: insert_index.induct)
  case (1 p v i)
  let ?n = "length (takeWhile (\<lambda>y. qe_value y \<le> v) xs)"
  have n: "?n \<le> length xs" by (rule length_takeWhile_le)
  show ?case
  proof (cases "i < length xs")
    case True
    with 1(2) have "peek (pq_a p) i = Some (Some (xs ! i))" by (auto simp: queue_holds_def queue_nth)
    moreover have "i = ?n" if "qe_value (xs ! i) > v"
      using that 1(3) by (metis le_neq_implies_less leD nth_mem set_takeWhileD takeWhile_nth)
    moreover have "i + 1 \<le> ?n" if "\<not> qe_value (xs ! i) > v"
      using that 1(3) True nth_length_takeWhile [of "\<lambda>y. qe_value y \<le> v" xs] by (cases "i = ?n") auto
    ultimately show ?thesis using True 1 by (subst insert_index.simps) (auto simp: queue_holds_def)
  qed (use 1 n in \<open>subst insert_index.simps; auto simp: queue_holds_def\<close>)
qed

lemma shift_up_moves:
  "j < length a \<Longrightarrow> \<exists>a'. shift_up a i j = Some a' \<and> length a' = length a \<and>
    (\<forall>k < length a. a' ! k = (if i < k \<and> k \<le> j then a ! (k - 1) else a ! k))"
proof (induction a i j rule: shift_up.induct)
  case (2 a i j)
  show ?case
  proof (cases "i < Suc j")
    case True
    let ?b = "a[Suc j := a ! j]"
    from 2 True obtain a' where a': "shift_up ?b i j = Some a'" "length a' = length a"
      "\<forall>k < length a. a' ! k = (if i < k \<and> k \<le> j then ?b ! (k - 1) else ?b ! k)" by fastforce
    moreover have "shift_up a i (Suc j) = shift_up ?b i j" using True 2(2) by simp
    ultimately show ?thesis using True 2(2) by (intro exI [of _ a']) (auto simp: nth_list_update le_Suc_eq)
  qed (use 2 in auto)
qed auto

lemma shift_down_moves:
  "n < length a \<or> n \<le> i \<Longrightarrow> \<exists>a'. shift_down a i n = Some a' \<and> length a' = length a \<and>
    (\<forall>k < length a. a' ! k = (if i \<le> k \<and> k < n then a ! (k + 1) else a ! k))"
proof (induction a i n rule: shift_down.induct)
  case (1 a i n)
  show ?case
  proof (cases "i < n")
    case True
    with 1(2) have n: "n < length a" by auto
    let ?b = "a[i := a ! (i + 1)]"
    from 1(1) [OF True, of "a ! (i + 1)" ?b] True n obtain a' where a': "shift_down ?b (i + 1) n = Some a'" "length a' = length a"
      "\<forall>k < length a. a' ! k = (if i + 1 \<le> k \<and> k < n then ?b ! (k + 1) else ?b ! k)" by fastforce
    moreover have "shift_down a i n = shift_down ?b (i + 1) n" using True n by (subst shift_down.simps) simp
    ultimately show ?thesis using True n
      by (intro exI [of _ a']) (auto simp: nth_list_update not_less_eq_eq dest: le_antisym)
  next
    case False
    then have "shift_down a i n = Some a" by (subst shift_down.simps) simp
    with False show ?thesis by auto
  qed
qed

lemma pqueue_init_holds: "queue_holds pqueue_init []"
  by (simp add: queue_holds_def pqueue_init_def)

text \<open>Growing keeps the elements.\<close>

lemma pqueue_resize_holds: "queue_holds p xs \<Longrightarrow> pq_sz p \<le> n \<Longrightarrow> queue_holds (pqueue_resize p n) xs"
  by (auto simp: queue_holds_def pqueue_resize_def)

lemma put_nth:
  assumes "n = length (takeWhile (\<lambda>y. qe_value y \<le> qe_value x) xs)" and "k \<le> length xs"
  shows "put x xs ! k = (if k < n then xs ! k else if k = n then x else xs ! (k - 1))"
proof -
  have "n \<le> length xs" unfolding assms(1) by (rule length_takeWhile_le)
  then show ?thesis using assms(2) unfolding put_def dropWhile_eq_drop assms(1) [symmetric]
    by (auto simp: nth_append nth_Cons' takeWhile_nth assms(1) [symmetric])
qed

lemma insert_into_holds:
  assumes "queue_holds p xs" and "length xs < pq_sz p"
  shows "\<exists>i a b. insert_index p v 0 = Some i \<and> shift_up (pq_a p) i (pq_cnt p) = Some a \<and>
    poke a i (Some \<lparr>qe_id = e, qe_p = d, qe_value = v\<rparr>) = Some b \<and>
    queue_holds (p\<lparr>pq_a := b, pq_cnt := pq_cnt p + 1\<rparr>) (put \<lparr>qe_id = e, qe_p = d, qe_value = v\<rparr> xs)"
proof -
  let ?x = "\<lparr>qe_id = e, qe_p = d, qe_value = v\<rparr>"
  define n where "n = length (takeWhile (\<lambda>y. qe_value y \<le> v) xs)"
  have nx: "n \<le> length xs" unfolding n_def by (rule length_takeWhile_le)
  have i: "insert_index p v 0 = Some n" unfolding n_def by (rule insert_index_holds [OF assms(1)]) simp
  from assms have p: "pq_cnt p = length xs" "length xs < length (pq_a p)" "pq_sz p = length (pq_a p)"
    "take (length xs) (pq_a p) = map Some xs" by (auto simp: queue_holds_def)
  from shift_up_moves [OF p(2), of n] obtain a where a: "shift_up (pq_a p) n (length xs) = Some a"
    "length a = length (pq_a p)" "\<forall>k < length (pq_a p). a ! k = (if n < k \<and> k \<le> length xs then pq_a p ! (k - 1) else pq_a p ! k)"
    by blast
  have "length (put ?x xs) = Suc (length xs)" by (metis mset_put size_add_mset size_mset)
  moreover have "take (Suc (length xs)) (a[n := Some ?x]) = map Some (put ?x xs)"
  proof (rule nth_equalityI)
    fix k assume "k < length (take (Suc (length xs)) (a[n := Some ?x]))"
    then have k: "k \<le> length xs" by simp
    have "a[n := Some ?x] ! k = Some (put ?x xs ! k)"
      using k nx p(2) a(2,3) queue_nth [OF p(4)] by (auto simp: put_nth [of n ?x] n_def [symmetric] nth_list_update)
    then show "take (Suc (length xs)) (a[n := Some ?x]) ! k = map Some (put ?x xs) ! k"
      using k \<open>length (put ?x xs) = Suc (length xs)\<close> by simp
  qed (use a(2) p(2) calculation in simp)
  ultimately show ?thesis using i a nx p by (intro exI [of _ n] exI [of _ a] exI [of _ "a[n := Some ?x]"]) (simp add: queue_holds_def)
qed

lemma pqueue_insert_holds:
  assumes "queue_holds p xs"
  shows "\<exists>q. pqueue_insert p e v d = Some q \<and> queue_holds q (put \<lparr>qe_id = e, qe_p = d, qe_value = v\<rparr> xs)"
proof -
  let ?p = "if pq_cnt p + 1 > pq_sz p then pqueue_resize p (pq_cnt p + 5) else p"
  have "queue_holds ?p xs" using assms pqueue_resize_holds [OF assms, of "pq_cnt p + 5"] by (auto simp: queue_holds_def)
  moreover have "length xs < pq_sz ?p" using assms by (auto simp: queue_holds_def pqueue_resize_def)
  ultimately show ?thesis using insert_into_holds [of ?p xs v e d] by (auto simp: pqueue_insert_def Let_def)
qed

lemma pqueue_extract_holds:
  assumes "queue_holds p (x # xs)"
  shows "\<exists>q. pqueue_extract p = Some (qe_id x, qe_p x, q) \<and> queue_holds q xs"
proof -
  from assms have p: "pq_cnt p = Suc (length xs)" "length xs < length (pq_a p)" "pq_sz p = length (pq_a p)"
    "take (length (x # xs)) (pq_a p) = map Some (x # xs)" by (auto simp: queue_holds_def)
  from shift_down_moves [of "length xs" "pq_a p" 0] p(2) obtain a where a: "shift_down (pq_a p) 0 (length xs) = Some a"
    "length a = length (pq_a p)" "\<forall>k < length (pq_a p). a ! k = (if k < length xs then pq_a p ! (k + 1) else pq_a p ! k)" by auto
  have "0 < length (pq_a p)" using p(2) by linarith
  from peek_in [OF this] have "peek (pq_a p) 0 = Some (Some x)" using queue_nth [OF p(4), of 0] by simp
  moreover have "take (length xs) a = map Some xs"
  proof (rule nth_equalityI)
    fix k assume "k < length (take (length xs) a)"
    then have "k < length xs" by simp
    then show "take (length xs) a ! k = map Some xs ! k" using p(2) a(2,3) queue_nth [OF p(4), of "k + 1"] by simp
  qed (use a(2) p(2) in simp)
  ultimately show ?thesis using p(1,2,3) a(1,2) by (auto simp: pqueue_extract_def queue_holds_def)
qed

interpretation pq: priority_queue pqueue_init pqueue_insert pqueue_extract queue_holds
  by unfold_locales
    (auto simp: pqueue_init_holds pqueue_insert_holds pqueue_extract_holds, simp add: queue_holds_def pqueue_extract_def)

text \<open>
  C11: Elements that are put into an empty queue all go in, and taking out as many gives their identifiers and
  contents in ascending order of the values, those with the same value in the order in which they were put
  in; then the queue is empty, and taking out gives 0.
\<close>

theorem pqueue_sorts:
  fixes es :: "'v::linorder queue_element list"
  shows "\<exists>p q. fold_opt (\<lambda>x p. pqueue_insert p (qe_id x) (qe_value x) (qe_p x)) es pqueue_init = Some p \<and>
    drain pqueue_extract (length es) p = Some (map (\<lambda>x. (qe_id x, qe_p x)) (sort_key qe_value es), q) \<and>
    pqueue_extract q = Some (0, 0, q)"
  by (rule pq.queue_sorts)

end
