(* ===== verification/Spec2Isabelle.thy ===== *)
theory Spec2Isabelle
  imports Jim_Pack Jim_Hash Jim_String Jim_Script Jim_List Jim_Expr_Eval Mdns_Packet Fossil_Merge Fossil_Report Fossil_Annotate Fossil_Sha1 Fossil_Md5 Fossil_Encode Fossil_Delta TimerQueue FdCallback Fossil_Bag Fossil_Pqueue
begin

text \<open>
  The C programs of the \<open>tmake\<close> repository. The tool itself is written in Tcl; its C code is what the
  tool builds in its tests: an event library (\<open>test1\<close>), the Jim Tcl interpreter (\<open>test2\<close>), the Fossil
  version control system (\<open>test4\<close>) and the mDNS responder (\<open>test5\<close>). These theories model the parts of
  them that compute on data of their own, and state what makes each part correct.

  \<^bold>\<open>The event library\<close> (\<open>src/test1\<close>). \<open>timer.c\<close> reads a clock and converts time values; \<open>timerqueue.c\<close> keeps a list of events, the nearest first, and tells the select loop of
  \<open>fdcallback.c\<close> how long to wait.

  \<^item> \<open>Timer\<close>: \<open>struct timeval\<close> as a record, the clock state of \<open>timer_get\<close> passed along, the results of
    \<open>times\<close> and \<open>sysinfo\<close> as arguments. Over any run of readings the clock is less than a second away from the
    uptime, and it goes back only where \<open>times\<close> wraps.
  \<^item> \<open>TimerQueue\<close>: the linked list as a list of events. The locale \<open>timed_queue\<close> is the contract of an
    insertion ordered by due time, interpreted on the model's insertion. Adding keeps the list ordered,
    checking calls exactly the due callbacks, also when they add timers.
  \<^item> \<open>FdCallback\<close>: the registry array and its count as a record, \<open>select\<close> and the callbacks as
    arguments, a set of descriptors with the range of \<open>FD_SETSIZE\<close>. A round gives \<open>select\<close> the registered descriptors
    and calls the ready ones, when the callbacks leave the registry alone.

  \<^bold>\<open>The Jim interpreter\<close> (\<open>src/test2\<close>). A script is parsed into tokens, tokens become commands of
  words, words are unescaped; lists and strings are read and written with the same parser context;
  variables and commands live in hash tables.

  \<^item> \<open>Jim_Utf8\<close> (\<open>utf8.c\<close>): encoding and decoding of code points below 65536, lengths and indexes.
  \<^item> \<open>Jim_Pack\<close> (\<open>jim-pack.c\<close>): the \<open>pack\<close> and \<open>unpack\<close> commands. The locale \<open>bit_stream\<close> is what the
    loops need of one bit order, interpreted for both. Unpacking gives what was packed; positions and lengths that overflow are shown to.
  \<^item> \<open>Jim_Hash\<close> (\<open>jim.c\<close>, \<open>jim.h\<close>): tables of buckets of entries, the hash functions, growing,
    adding, replacing, deleting, finding and iterating. The locale \<open>hash_keys\<close> is the contract of a table type,
    interpreted for the three types with string keys: any sequence of operations refines a map.
  \<^item> \<open>Jim_Parser\<close>, \<open>Jim_Escape\<close>, \<open>Jim_Script\<close> (\<open>jim.c\<close>): the parser context \<open>struct JimParserCtx\<close> as a
    record whose pointer is an index of the text, every token parser, backslash substitution, and the
    compiler of scripts. Every text is parsed without a read outside of it; a braced word is
    balanced; the compiled tokens form commands.
  \<^item> \<open>Jim_List\<close> (\<open>jim.c\<close>): the list parser and writer, an instance of the locale \<open>codec\<close>: a list that is
    written is read back.
  \<^item> \<open>Jim_Expr\<close>, \<open>Jim_Expr_Compile\<close>, \<open>Jim_Expr_Eval\<close> (\<open>jim.c\<close>): expressions are split into tokens, converted to the code of a stack
    machine, whose ternaries are put in order afterwards, checked and run. Against a grammar of expressions and a meaning of
    their syntax trees: the conversion gives the code of the tree, and the machine, with or without its shortcuts, computes
    the meaning, lazy operators included. Ternaries for which this is not so are shown as examples. The interpreter (variables, commands,
    substitution, conversions of texts) and the arithmetic of \<open>double\<close> are a record of functions, an argument of the machine.
  \<^item> \<open>Jim_String\<close> (\<open>jim.c\<close>): glob matching, comparison, search and number checks. The matcher is
    equivalent to an inductive meaning of patterns.

  \<^bold>\<open>Fossil\<close> (\<open>src/test4\<close>). Versions of files are stored as deltas, shown as line differences and merged
  by them; texts are encoded for records, pages and addresses; sets of records are bags.

  \<^item> \<open>Fossil_Bag\<close> (\<open>bag.c\<close>): an open-addressing table with deleted markers. The locale \<open>mset_container\<close> is
    the contract of a container of elements, interpreted on the bag: insertion and removal refine a
    multiset. An element that is in the bag is not inserted again unless deleted markers hide it.
  \<^item> \<open>Fossil_Encode\<close> (\<open>encode.c\<close>, character classes of \<open>blob.c\<close>): codecs for addresses, record headers, base 64 and
    base 16 (instances of \<open>codec\<close>), obscured passwords and the escaping of HTML, in blocks whose sizes are \<open>int\<close>s.
  \<^item> \<open>Fossil_Delta\<close> (\<open>delta.c\<close>): rolling hash, checksum, creating and applying a delta. Applying a
    created delta gives the target.
  \<^item> \<open>Fossil_Diff\<close> (\<open>diff.c\<close>): lines in a hash table, the search for common blocks, the array of edit
    counts. The counts turn the first text into the second.
  \<^item> \<open>Fossil_Report\<close> (\<open>diff.c\<close>, \<open>%d\<close> of \<open>printf.c\<close>): the unified report of a difference. A report that is returned is the printed form
    of hunks that applied to the first text give the second.
  \<^item> \<open>Fossil_Annotate\<close> (\<open>diff.c\<close>): starting the annotation of a file and a step to one more ancestor, which labels the
    lines that the difference copies.
  \<^item> \<open>Fossil_Merge\<close> (\<open>merge3.c\<close>, lines of \<open>blob.c\<close>): the three-way merge over two arrays of edit counts.
    Merging ends, and gives the plain result when one side is unchanged or both are the same, for texts that end in a newline.
  \<^item> \<open>Fossil_Digest\<close>, \<open>Fossil_Sha1\<close>, \<open>Fossil_Md5\<close> (\<open>sha1.c\<close>, \<open>md5.c\<close>, for a little-endian machine): the locale \<open>streaming_hash\<close> is the contract of a
    digest that takes its message in pieces, interpreted for both: the result is the digest of FIPS 180-4 and of
    RFC 1321, which are stated on whole messages.
  \<^item> \<open>Fossil_Pqueue\<close> (\<open>pqueue.c\<close>): an array in ascending order; the locale \<open>priority_queue\<close>, interpreted on it, sorts.

  \<^bold>\<open>The mDNS responder\<close> (\<open>src/test5/mDNSCore/DNSCommon.c\<close>).

  \<^item> \<open>Mdns_Name\<close>: domain names as buffers of 256 bytes: comparison, length, appending, text and back.
  \<^item> \<open>Mdns_Packet\<close>: names in messages with compression pointers, and the sections of a message. Reading
    is equivalent to an inductive grammar; a name that is written is read back.

  \<^bold>\<open>How the code is modelled.\<close> \<open>Prelude_C\<close> holds bytes as 8-bit words, C integers
  (LP64, little-endian), checked reads (\<open>peek\<close> inside of a list, \<open>rd\<close> also of a final NUL) and the
  locale \<open>codec\<close> of an encoder with its decoder. A C \<open>struct\<close> is a \<open>record\<close> with the field names of the
  source, an \<open>enum\<close> a \<open>datatype\<close>, a pointer into a buffer an index. An operation returns its new state. Unsigned integers are words;
  a signed integer is an \<open>int\<close> with \<open>c_int\<close> or \<open>c_wide\<close> around an operation that can overflow and \<open>to_int32\<close> or \<open>to_int64\<close> where the
  code converts to a smaller type. Indexes and counts that stay below the length of a text or array in memory are mostly of type
  \<open>nat\<close> (the elements of the priority queue, the edit counts of a difference, the lines of a report); there the code's
  \<open>int\<close> is assumed to be large enough, by a hypothesis on the length of the texts where a property needs it.
  \<open>None\<close> of the option type is what the program must not do: an access outside of an object, a failed assertion, a
  division by zero, an overflow of a signed integer, or a loop that never ends; error results of the code are values inside \<open>Some\<close>.
  Memory allocation does not fail, as the allocators of the programs end the process when it does.

  \<^bold>\<open>Loops and bounds.\<close> A loop is a recursive function with the measure that its index or its rest
  gives. The two loops of \<open>Jim_Parser\<close> that call each other, over a quoted word (\<open>sub_quote_loop\<close>) and over a nested command
  (\<open>sub_cmd_loop\<close>), take fuel: their callers give two units more than the bytes left, every call takes at least one byte and one unit,
  and the totality of the parsers for every text shows that it does not run out. Loops that may run forever, or whose end
  depends on an invariant, are \<open>partial_function\<close>s, for which not ending is \<open>None\<close>: the probes and the iteration of a bag (\<open>bag_probe\<close>,
  \<open>bag_iterate\<close>), \<open>digit_count_loop\<close>, \<open>conflict_size\<close> and \<open>merge_loop\<close>, the loops of SHA-1 (\<open>data_blocks\<close>, \<open>pad_loop\<close>), \<open>next_power_loop\<close>, the loops
  over tokens (\<open>script_tokens_loop\<close>, \<open>list_loop\<close>, \<open>complete_loop\<close>, \<open>expr_tokens\<close>), \<open>reorder_loop\<close> and \<open>vm_loop\<close> of expressions, and the loops that call
  callbacks (\<open>dispatch\<close>, \<open>check_events_loop\<close>). So the theorems that give \<open>Some\<close> prove that they end. Hypotheses
  such as a length below \<open>2 ^ 31\<close> are the range of the \<open>int\<close> that the code keeps the length in.

  \<^bold>\<open>Not modelled.\<close> The objects, call frames, references and commands of Jim, which share one mutable
  graph, and the functions of the mathematical library in its expressions, off in the default build; the commands of Fossil, whose state is a database
  behind SQL texts, and the pages of an annotation; the query and cache state machine of mDNS and its platform layers; the case mapping of Jim, generated
  from Unicode tables; the branches of the digests for big-endian machines; SQLite, the bootstrap interpreter \<open>jimsh0.c\<close> and the sample
  program of libpng, which are vendored or generated. The score of a common block, a \<open>double\<close> in
  \<open>longestCommonSequence\<close>, is a parameter: the theorems hold for every way to order blocks.
\<close>

end
